(* ===== verification/Reflex_Prelude.thy ===== *)
theory Reflex_Prelude imports Main "HOL-Library.Word" "HOL-Library.Signed_Division" begin

text \<open>
  Shared ground of the development: the error codes of include/reflex_types.h, the result
  type every fallible C function is translated to, and the generic facts on lists, words and
  bounded loops that the component theories use.

  Conventions. A C function that returns \<open>reflex_err_t\<close> and writes its answer through an out
  pointer becomes a function into \<open>'a result\<close>: \<open>Inr\<close> carries what the out pointer receives
  when the C code returns REFLEX_OK, \<open>Inl\<close> the error it returns. Arguments that C passes by
  pointer only to avoid a copy are passed by value, so their NULL guards have no
  counterpart; a pointer whose NULL is a legal input is an \<open>option\<close>.
\<close>

unbundle bit_operations_syntax

named_theorems err_simps \<open>rewrite rules for the result type\<close>
named_theorems inv_intros \<open>preservation of component invariants\<close>

section \<open>Error codes\<close>

text \<open>
  \<open>RAW_ERR\<close> is a return value outside the table: the VM's state check returns a fault number
  through the same channel.
\<close>

datatype reflex_err =
    REFLEX_FAIL | REFLEX_ERR_NO_MEM | REFLEX_ERR_INVALID_ARG | REFLEX_ERR_INVALID_STATE
  | REFLEX_ERR_INVALID_SIZE | REFLEX_ERR_NOT_FOUND | REFLEX_ERR_NOT_SUPPORTED
  | REFLEX_ERR_TIMEOUT | REFLEX_ERR_INVALID_RESPONSE | REFLEX_ERR_INVALID_CRC
  | REFLEX_ERR_INVALID_VERSION | RAW_ERR int

fun err_code :: "reflex_err \<Rightarrow> int" where
  "err_code REFLEX_FAIL = -1"
| "err_code REFLEX_ERR_NO_MEM = 0x101"
| "err_code REFLEX_ERR_INVALID_ARG = 0x102"
| "err_code REFLEX_ERR_INVALID_STATE = 0x103"
| "err_code REFLEX_ERR_INVALID_SIZE = 0x104"
| "err_code REFLEX_ERR_NOT_FOUND = 0x105"
| "err_code REFLEX_ERR_NOT_SUPPORTED = 0x106"
| "err_code REFLEX_ERR_TIMEOUT = 0x107"
| "err_code REFLEX_ERR_INVALID_RESPONSE = 0x108"
| "err_code REFLEX_ERR_INVALID_CRC = 0x109"
| "err_code REFLEX_ERR_INVALID_VERSION = 0x10A"
| "err_code (RAW_ERR n) = n"

type_synonym 'a result = "reflex_err + 'a"
type_synonym u8 = "8 word"
type_synonym u16 = "16 word"
type_synonym u32 = "32 word"

text \<open>REFLEX_RETURN_ON_ERROR: stop at the first error, otherwise go on with the value.\<close>

fun rbind :: "'e + 'a \<Rightarrow> ('a \<Rightarrow> 'e + 'b) \<Rightarrow> 'e + 'b" where
  "rbind (Inl e) f = Inl e"
| "rbind (Inr x) f = f x"

lemma rbind_Inr_iff [err_simps]: "rbind r f = Inr y \<longleftrightarrow> (\<exists>x. r = Inr x \<and> f x = Inr y)"
  by (cases r) auto

lemma rbind_Inl_iff [err_simps]:
  "rbind r f = Inl e \<longleftrightarrow> r = Inl e \<or> (\<exists>x. r = Inr x \<and> f x = Inl e)"
  by (cases r) auto

text \<open>The outcome of an operation that has no answer beyond REFLEX_OK.\<close>

fun is_ok :: "'e + 'a \<Rightarrow> bool" where
  "is_ok (Inl _) = False"
| "is_ok (Inr _) = True"

lemma is_ok_iff [err_simps]: "is_ok r \<longleftrightarrow> (\<exists>x. r = Inr x)"
  by (cases r) auto

section \<open>Lists\<close>

lemma nth_list_update_if [simp]:
  "i < length xs \<Longrightarrow> xs[j := v] ! i = (if i = j then v else xs ! i)"
  by (simp add: nth_list_update)

lemma list_eq_nthI: "length xs = length ys \<Longrightarrow> (\<And>i. i < length ys \<Longrightarrow> xs ! i = ys ! i) \<Longrightarrow> xs = ys"
  by (simp add: list_eq_iff_nth_eq)

lemma list_all_update: "list_all P xs \<Longrightarrow> P v \<Longrightarrow> list_all P (xs[i := v])"
  by (auto simp: list_all_iff dest!: set_update_subset_insert [THEN subsetD])

end
