(* ===== verification/Ternary.thy ===== *)
theory Ternary imports Reflex_Prelude begin

text \<open>
  Balanced ternary words: vm/ternary.c and vm/include/reflex_ternary.h.

  A trit is the C enum \<open>reflex_trit_t\<close>, an int that is -1, 0 or +1 when valid; a tryte9 or a
  word18 is its array of trits, least significant first, modelled as a list whose length is
  the array's. \<open>tval\<close> is the integer a trit array denotes, and the arithmetic, comparison,
  conversion and packing routines are proved against it.
\<close>

section \<open>Types and constants\<close>

abbreviation (input) "REFLEX_TRIT_NEG \<equiv> (-1 :: int)"
abbreviation (input) "REFLEX_TRIT_ZERO \<equiv> (0 :: int)"
abbreviation (input) "REFLEX_TRIT_POS \<equiv> (1 :: int)"

type_synonym trit = int
type_synonym tryte9 = "trit list"
type_synonym word18 = "trit list"

definition REFLEX_TRYTE9_TRITS :: nat where "REFLEX_TRYTE9_TRITS = 9"
definition REFLEX_WORD18_TRITS :: nat where "REFLEX_WORD18_TRITS = 18"
definition REFLEX_PACKED_TRYTE9_BYTES :: nat where "REFLEX_PACKED_TRYTE9_BYTES = 3"
definition REFLEX_PACKED_WORD18_BYTES :: nat where "REFLEX_PACKED_WORD18_BYTES = 5"

lemmas trit_consts [simp] =
  REFLEX_TRYTE9_TRITS_def REFLEX_WORD18_TRITS_def
  REFLEX_PACKED_TRYTE9_BYTES_def REFLEX_PACKED_WORD18_BYTES_def

section \<open>Codes and validity\<close>

definition reflex_trit_to_code :: "trit \<Rightarrow> u8" where
  "reflex_trit_to_code t =
     (if t = REFLEX_TRIT_NEG then 0
      else if t = REFLEX_TRIT_ZERO then 1
      else if t = REFLEX_TRIT_POS then 2
      else 3)"

definition reflex_code_to_trit :: "u8 \<Rightarrow> trit result" where
  "reflex_code_to_trit code =
     (let k = code AND 3 in
      if k = 0 then Inr REFLEX_TRIT_NEG
      else if k = 1 then Inr REFLEX_TRIT_ZERO
      else if k = 2 then Inr REFLEX_TRIT_POS
      else Inl REFLEX_ERR_INVALID_RESPONSE)"

definition reflex_trit_is_valid :: "int \<Rightarrow> bool" where
  "reflex_trit_is_valid value \<longleftrightarrow> value \<ge> REFLEX_TRIT_NEG \<and> value \<le> REFLEX_TRIT_POS"

fun reflex_validate_trits :: "trit list \<Rightarrow> unit result" where
  "reflex_validate_trits [] = Inr ()"
| "reflex_validate_trits (t # ts) =
     (if reflex_trit_is_valid t then reflex_validate_trits ts else Inl REFLEX_ERR_INVALID_ARG)"

definition reflex_tryte9_is_valid :: "tryte9 \<Rightarrow> bool" where
  "reflex_tryte9_is_valid v \<longleftrightarrow> reflex_validate_trits v = Inr ()"

definition reflex_word18_is_valid :: "word18 \<Rightarrow> bool" where
  "reflex_word18_is_valid v \<longleftrightarrow> reflex_validate_trits v = Inr ()"

definition reflex_tryte9_equal :: "tryte9 \<Rightarrow> tryte9 \<Rightarrow> bool" where
  "reflex_tryte9_equal lhs rhs \<longleftrightarrow> lhs = rhs"

definition reflex_word18_equal :: "word18 \<Rightarrow> word18 \<Rightarrow> bool" where
  "reflex_word18_equal lhs rhs \<longleftrightarrow> lhs = rhs"

definition reflex_word18_zero :: word18 where
  "reflex_word18_zero = replicate REFLEX_WORD18_TRITS REFLEX_TRIT_ZERO"

section \<open>Packing\<close>

text \<open>
  The loop of \<open>reflex_pack_trits\<close>: trit \<open>i\<close> goes to bits \<open>2i mod 8\<close> of byte \<open>2i div 8\<close>.
\<close>

fun pack_loop :: "trit list \<Rightarrow> nat \<Rightarrow> u8 list \<Rightarrow> u8 list result" where
  "pack_loop [] i out = Inr out"
| "pack_loop (t # ts) i out =
     (let bit_index = i * 2; shift = bit_index mod 8; code = reflex_trit_to_code t;
          byte_index = bit_index div 8
      in if code = 3 then Inl REFLEX_ERR_INVALID_ARG
         else if \<not> byte_index < length out then Inl REFLEX_ERR_INVALID_SIZE
         else let out1 = out[byte_index := out ! byte_index OR push_bit shift code]
              in if shift > 6 then
                   (if \<not> byte_index + 1 < length out then Inl REFLEX_ERR_INVALID_SIZE
                    else pack_loop ts (Suc i)
                      (out1[byte_index + 1 := out1 ! (byte_index + 1) OR drop_bit (8 - shift) code]))
                 else pack_loop ts (Suc i) out1)"

definition reflex_pack_trits :: "trit list \<Rightarrow> nat \<Rightarrow> u8 list result" where
  "reflex_pack_trits trits out_len = pack_loop trits 0 (replicate out_len 0)"

text \<open>The loop of \<open>reflex_unpack_trits\<close>: \<open>n\<close> trits from trit \<open>i\<close> on.\<close>

fun unpack_loop :: "u8 list \<Rightarrow> nat \<Rightarrow> nat \<Rightarrow> trit list result" where
  "unpack_loop inp i 0 = Inr []"
| "unpack_loop inp i (Suc n) =
     (let bit_index = i * 2; byte_index = bit_index div 8; shift = bit_index mod 8
      in if \<not> byte_index < length inp then Inl REFLEX_ERR_INVALID_SIZE
         else let code = drop_bit shift (inp ! byte_index) AND 3
              in if shift > 6 \<and> \<not> byte_index + 1 < length inp then Inl REFLEX_ERR_INVALID_SIZE
                 else let code2 = (if shift > 6
                                   then code OR (push_bit (8 - shift) (inp ! (byte_index + 1)) AND 3)
                                   else code)
                      in rbind (reflex_code_to_trit code2)
                           (\<lambda>t. rbind (unpack_loop inp (Suc i) n) (\<lambda>ts. Inr (t # ts))))"

definition reflex_unpack_trits :: "u8 list \<Rightarrow> nat \<Rightarrow> trit list result" where
  "reflex_unpack_trits inp trit_count = unpack_loop inp 0 trit_count"

definition reflex_tryte9_pack :: "tryte9 \<Rightarrow> u8 list result" where
  "reflex_tryte9_pack v = reflex_pack_trits v REFLEX_PACKED_TRYTE9_BYTES"

definition reflex_tryte9_unpack :: "u8 list \<Rightarrow> tryte9 result" where
  "reflex_tryte9_unpack inp = reflex_unpack_trits inp REFLEX_TRYTE9_TRITS"

definition reflex_word18_pack :: "word18 \<Rightarrow> u8 list result" where
  "reflex_word18_pack v = reflex_pack_trits v REFLEX_PACKED_WORD18_BYTES"

definition reflex_word18_unpack :: "u8 list \<Rightarrow> word18 result" where
  "reflex_word18_unpack inp = reflex_unpack_trits inp REFLEX_WORD18_TRITS"

section \<open>Comparison and arithmetic\<close>

fun compare_loop :: "word18 \<Rightarrow> word18 \<Rightarrow> nat \<Rightarrow> trit" where
  "compare_loop lhs rhs 0 = REFLEX_TRIT_ZERO"
| "compare_loop lhs rhs (Suc i) =
     (if lhs ! i < rhs ! i then REFLEX_TRIT_NEG
      else if lhs ! i > rhs ! i then REFLEX_TRIT_POS
      else compare_loop lhs rhs i)"

definition reflex_word18_compare :: "word18 \<Rightarrow> word18 \<Rightarrow> trit result" where
  "reflex_word18_compare lhs rhs =
     (if \<not> reflex_word18_is_valid lhs then Inl REFLEX_ERR_INVALID_ARG
      else if \<not> reflex_word18_is_valid rhs then Inl REFLEX_ERR_INVALID_ARG
      else Inr (compare_loop lhs rhs REFLEX_WORD18_TRITS))"

text \<open>The digit and the carry of one column.\<close>

definition reflex_normalize_sum :: "int \<Rightarrow> trit \<times> int" where
  "reflex_normalize_sum s =
     (if s > REFLEX_TRIT_POS then (s - 3, 1)
      else if s < REFLEX_TRIT_NEG then (s + 3, -1)
      else (s, 0))"

fun add_loop :: "trit list \<Rightarrow> trit list \<Rightarrow> int \<Rightarrow> trit list \<times> int" where
  "add_loop (a # as) (b # bs) carry =
     (let (t, carry1) = reflex_normalize_sum (a + b + carry);
          (ts, carry2) = add_loop as bs carry1
      in (t # ts, carry2))"
| "add_loop _ _ carry = ([], carry)"

definition reflex_word18_add :: "word18 \<Rightarrow> word18 \<Rightarrow> word18 result" where
  "reflex_word18_add lhs rhs =
     (if \<not> reflex_word18_is_valid lhs then Inl REFLEX_ERR_INVALID_ARG
      else if \<not> reflex_word18_is_valid rhs then Inl REFLEX_ERR_INVALID_ARG
      else let (res, carry) = add_loop lhs rhs 0
           in if carry \<noteq> 0 then Inl REFLEX_ERR_INVALID_STATE else Inr res)"

definition reflex_word18_subtract :: "word18 \<Rightarrow> word18 \<Rightarrow> word18 result" where
  "reflex_word18_subtract lhs rhs =
     (if \<not> reflex_word18_is_valid lhs then Inl REFLEX_ERR_INVALID_ARG
      else if \<not> reflex_word18_is_valid rhs then Inl REFLEX_ERR_INVALID_ARG
      else reflex_word18_add lhs (map uminus rhs))"

definition reflex_word18_select :: "trit \<Rightarrow> word18 \<Rightarrow> word18 \<Rightarrow> word18 \<Rightarrow> word18 result" where
  "reflex_word18_select selector negative zero positive =
     (if \<not> reflex_trit_is_valid selector then Inl REFLEX_ERR_INVALID_ARG
      else if \<not> reflex_word18_is_valid negative then Inl REFLEX_ERR_INVALID_ARG
      else if \<not> reflex_word18_is_valid zero then Inl REFLEX_ERR_INVALID_ARG
      else if \<not> reflex_word18_is_valid positive then Inl REFLEX_ERR_INVALID_ARG
      else Inr (if selector = REFLEX_TRIT_NEG then negative
                else if selector = REFLEX_TRIT_ZERO then zero
                else positive))"

section \<open>Conversion to and from int32\<close>

text \<open>
  \<open>smod\<close> and \<open>sdiv\<close> truncate towards zero, as C's \<open>%\<close> and \<open>/\<close> on a signed operand do. The
  loop returns the digits and what is left of the value.
\<close>

fun from_int32_loop :: "nat \<Rightarrow> int \<Rightarrow> trit list \<times> int" where
  "from_int32_loop 0 remaining = ([], remaining)"
| "from_int32_loop (Suc n) remaining =
     (let remainder = remaining smod 3;
          remaining1 = remaining sdiv 3;
          (digit, remaining2) =
            (if remainder = 2 then (-1, remaining1 + 1)
             else if remainder = -2 then (1, remaining1 - 1)
             else (remainder, remaining1));
          (ts, rest) = from_int32_loop n remaining2
      in (digit # ts, rest))"

definition reflex_word18_from_int32 :: "int \<Rightarrow> word18 result" where
  "reflex_word18_from_int32 v =
     (let (scratch, remaining) = from_int32_loop REFLEX_WORD18_TRITS v
      in if remaining = 0 then Inr scratch else Inl REFLEX_ERR_INVALID_SIZE)"

fun to_int32_loop :: "trit list \<Rightarrow> int \<Rightarrow> int \<Rightarrow> int" where
  "to_int32_loop [] res place = res"
| "to_int32_loop (t # ts) res place = to_int32_loop ts (res + t * place) (place * 3)"

definition reflex_word18_to_int32 :: "word18 \<Rightarrow> int result" where
  "reflex_word18_to_int32 v =
     (if \<not> reflex_word18_is_valid v then Inl REFLEX_ERR_INVALID_ARG
      else Inr (to_int32_loop v 0 1))"


section \<open>The value of a trit array\<close>

definition trits_ok :: "trit list \<Rightarrow> bool" where
  "trits_ok ts \<longleftrightarrow> list_all reflex_trit_is_valid ts"

definition word18_ok :: "word18 \<Rightarrow> bool" where
  "word18_ok w \<longleftrightarrow> length w = REFLEX_WORD18_TRITS \<and> reflex_word18_is_valid w"

definition tryte9_ok :: "tryte9 \<Rightarrow> bool" where
  "tryte9_ok w \<longleftrightarrow> length w = REFLEX_TRYTE9_TRITS \<and> reflex_tryte9_is_valid w"

fun tval :: "trit list \<Rightarrow> int" where
  "tval [] = 0"
| "tval (t # ts) = t + 3 * tval ts"

definition word18_max :: int where "word18_max = 193710244"

lemma validate_iff: "reflex_validate_trits ts = Inr () \<longleftrightarrow> trits_ok ts"
  by (induction ts) (auto simp: trits_ok_def)

lemma validity_simps [simp]:
  "reflex_word18_is_valid w \<longleftrightarrow> trits_ok w" "reflex_tryte9_is_valid w \<longleftrightarrow> trits_ok w"
  by (simp_all add: reflex_word18_is_valid_def reflex_tryte9_is_valid_def validate_iff)

lemma trits_ok_simps [simp]:
  "trits_ok []"
  "trits_ok (t # ts) \<longleftrightarrow> -1 \<le> t \<and> t \<le> 1 \<and> trits_ok ts"
  "trits_ok (as @ bs) \<longleftrightarrow> trits_ok as \<and> trits_ok bs"
  "trits_ok (replicate n t) \<longleftrightarrow> n = 0 \<or> (-1 \<le> t \<and> t \<le> 1)"
  by (auto simp: trits_ok_def reflex_trit_is_valid_def list_all_iff)

lemma trits_ok_nth: "trits_ok ts \<Longrightarrow> i < length ts \<Longrightarrow> -1 \<le> ts ! i \<and> ts ! i \<le> 1"
  by (auto simp: trits_ok_def list_all_iff reflex_trit_is_valid_def dest!: bspec [OF _ nth_mem])

lemma trits_ok_take: "trits_ok ts \<Longrightarrow> trits_ok (take n ts)"
  by (auto simp: trits_ok_def list_all_iff dest: in_set_takeD)

lemma trits_ok_uminus [simp]: "trits_ok (map uminus ts) \<longleftrightarrow> trits_ok ts"
  by (induction ts) auto

lemma word18_ok_zero [simp]: "word18_ok reflex_word18_zero"
  by (simp add: word18_ok_def reflex_word18_zero_def)

lemma tval_uminus [simp]: "tval (map uminus ts) = - tval ts"
  by (induction ts) auto

lemma tval_replicate0 [simp]: "tval (replicate n 0) = 0"
  by (induction n) auto

lemma tval_append: "tval (as @ bs) = tval as + 3 ^ length as * tval bs"
  by (induction as) (auto simp: algebra_simps)

lemma tval_bound: "trits_ok ts \<Longrightarrow> 2 * \<bar>tval ts\<bar> \<le> 3 ^ length ts - 1"
proof (induction ts)
  case (Cons t ts)
  then have "2 * \<bar>tval ts\<bar> \<le> 3 ^ length ts - 1" and "\<bar>t\<bar> \<le> 1" by auto
  moreover have "\<bar>t + 3 * tval ts\<bar> \<le> \<bar>t\<bar> + 3 * \<bar>tval ts\<bar>" by simp
  ultimately show ?case by simp
qed simp

lemma tval_inj:
  "length as = length bs \<Longrightarrow> trits_ok as \<Longrightarrow> trits_ok bs \<Longrightarrow> tval as = tval bs \<Longrightarrow> as = bs"
proof (induction as bs rule: list_induct2)
  case (Cons a as b bs)
  from Cons.prems have "-1 \<le> a" "a \<le> 1" "-1 \<le> b" "b \<le> 1" "a + 3 * tval as = b + 3 * tval bs"
    by auto
  then have "a = b \<and> tval as = tval bs" by presburger
  with Cons show ?case by simp
qed simp

text \<open>A digit string plus a carry beyond its top column: the carry is zero iff the value fits.\<close>

lemma carry_zero_iff:
  assumes "trits_ok ts" and "v = tval ts + 3 ^ length ts * c"
  shows "c = 0 \<longleftrightarrow> 2 * \<bar>v\<bar> \<le> 3 ^ length ts - 1"
proof
  assume "c = 0" with assms tval_bound [OF assms(1)] show "2 * \<bar>v\<bar> \<le> 3 ^ length ts - 1" by simp
next
  let ?p = "3 ^ length ts :: int"
  assume fit: "2 * \<bar>v\<bar> \<le> ?p - 1"
  show "c = 0"
  proof (rule ccontr)
    assume "c \<noteq> 0"
    then have "?p * 1 \<le> ?p * \<bar>c\<bar>" by (intro mult_left_mono) auto
    moreover have "?p * \<bar>c\<bar> = \<bar>v - tval ts\<bar>" using assms(2) by (simp add: abs_mult)
    moreover have "2 * \<bar>tval ts\<bar> \<le> ?p - 1" using assms(1) by (rule tval_bound)
    ultimately show False using fit by linarith
  qed
qed

lemma word18_max_iff: "2 * \<bar>v\<bar> \<le> 3 ^ 18 - 1 \<longleftrightarrow> \<bar>v\<bar> \<le> word18_max" for v :: int
  by (simp add: word18_max_def)

lemma word18_bound: "word18_ok w \<Longrightarrow> \<bar>tval w\<bar> \<le> word18_max"
  using tval_bound [of w] by (simp add: word18_ok_def word18_max_def)

section \<open>Arithmetic agrees with the integers\<close>

lemma normalize_sum_spec:
  "-3 \<le> s \<Longrightarrow> s \<le> 3 \<Longrightarrow> reflex_normalize_sum s = (t, c) \<Longrightarrow>
   -1 \<le> t \<and> t \<le> 1 \<and> -1 \<le> c \<and> c \<le> 1 \<and> s = t + 3 * c"
  by (auto simp: reflex_normalize_sum_def split: if_splits)

lemma add_loop_spec:
  "length as = length bs \<Longrightarrow> trits_ok as \<Longrightarrow> trits_ok bs \<Longrightarrow> -1 \<le> carry \<Longrightarrow> carry \<le> 1 \<Longrightarrow>
   add_loop as bs carry = (ts, c) \<Longrightarrow>
   length ts = length as \<and> trits_ok ts \<and> tval as + tval bs + carry = tval ts + 3 ^ length ts * c"
proof (induction as bs arbitrary: carry ts c rule: list_induct2)
  case (Cons a as b bs)
  obtain t c1 where n: "reflex_normalize_sum (a + b + carry) = (t, c1)" by fastforce
  obtain us c2 where r: "add_loop as bs c1 = (us, c2)" by fastforce
  have s: "-1 \<le> t" "t \<le> 1" "-1 \<le> c1" "c1 \<le> 1" "a + b + carry = t + 3 * c1"
    using normalize_sum_spec [OF _ _ n] Cons.prems by auto
  have "length us = length as \<and> trits_ok us \<and> tval as + tval bs + c1 = tval us + 3 ^ length us * c2"
    using Cons.IH [OF _ _ s(3) s(4) r] Cons.prems by auto
  with s n r Cons.prems(5) show ?case by auto
qed auto

lemma add_loop_word18:
  assumes "word18_ok a" "word18_ok b"
  shows "\<exists>ts c. add_loop a b 0 = (ts, c) \<and> length ts = 18 \<and> trits_ok ts \<and>
           tval a + tval b = tval ts + 3 ^ 18 * c \<and> (c = 0 \<longleftrightarrow> \<bar>tval a + tval b\<bar> \<le> word18_max)"
proof -
  obtain ts c where l: "add_loop a b 0 = (ts, c)" by fastforce
  from add_loop_spec [OF _ _ _ _ _ l] assms
  have s: "length ts = 18" "trits_ok ts" "tval a + tval b = tval ts + 3 ^ length ts * c"
    by (auto simp: word18_ok_def)
  from carry_zero_iff [OF s(2,3)] s(1) have "c = 0 \<longleftrightarrow> \<bar>tval a + tval b\<bar> \<le> word18_max"
    by (simp add: word18_max_def)
  with s l show ?thesis by auto
qed

lemma add_fits:
  assumes "word18_ok a" "word18_ok b" "\<bar>tval a + tval b\<bar> \<le> word18_max"
  shows "\<exists>c. reflex_word18_add a b = Inr c \<and> word18_ok c \<and> tval c = tval a + tval b"
  using add_loop_word18 [OF assms(1,2)] assms
  by (auto simp: reflex_word18_add_def word18_ok_def)

lemma add_overflows:
  assumes "word18_ok a" "word18_ok b" "\<bar>tval a + tval b\<bar> > word18_max"
  shows "reflex_word18_add a b = Inl REFLEX_ERR_INVALID_STATE"
  using add_loop_word18 [OF assms(1,2)] assms
  by (auto simp: reflex_word18_add_def word18_ok_def)

lemma word18_ok_uminus: "word18_ok b \<Longrightarrow> word18_ok (map uminus b)"
  by (simp add: word18_ok_def)

lemma subtract_eq_add:
  "word18_ok a \<Longrightarrow> word18_ok b \<Longrightarrow> reflex_word18_subtract a b = reflex_word18_add a (map uminus b)"
  by (simp add: reflex_word18_subtract_def word18_ok_def)

lemma sdiv_smod_3:
  fixes r :: int
  shows "r = 3 * (r sdiv 3) + r smod 3" "-2 \<le> r smod 3" "r smod 3 \<le> 2"
proof -
  show e: "r = 3 * (r sdiv 3) + r smod 3"
    by (rule mult_sdiv_smod_eq [symmetric])
  show "-2 \<le> r smod 3" "r smod 3 \<le> 2"
    using smod_int_range [of 3 r] by auto
qed

lemma from_int32_loop_spec:
  "from_int32_loop n r = (ts, rest) \<Longrightarrow>
   length ts = n \<and> trits_ok ts \<and> r = tval ts + 3 ^ length ts * rest"
proof (induction n arbitrary: r ts rest)
  case (Suc n)
  note d = sdiv_smod_3 [of r]
  define q :: int where
    "q = (if r smod 3 = 2 then r sdiv 3 + 1 else if r smod 3 = -2 then r sdiv 3 - 1 else r sdiv 3)"
  define t :: int where
    "t = (if r smod 3 = 2 then -1 else if r smod 3 = -2 then 1 else r smod 3)"
  have tq: "-1 \<le> t" "t \<le> 1" "r = t + 3 * q"
    using d by (auto simp: t_def q_def)
  obtain us where us: "from_int32_loop n q = (us, rest)" "ts = t # us"
    using Suc.prems by (auto simp: Let_def q_def t_def split: prod.splits if_splits)
  with Suc.IH [OF us(1)] tq show ?case by auto
qed simp

lemma to_int32_loop_eq: "to_int32_loop ts res place = res + place * tval ts"
  by (induction ts arbitrary: res place) (auto simp: algebra_simps)

lemma to_int32_ok: "word18_ok w \<Longrightarrow> reflex_word18_to_int32 w = Inr (tval w)"
  by (simp add: reflex_word18_to_int32_def to_int32_loop_eq word18_ok_def)

lemma from_int32_fits:
  assumes "\<bar>v\<bar> \<le> word18_max"
  shows "\<exists>w. reflex_word18_from_int32 v = Inr w \<and> word18_ok w \<and> tval w = v"
proof -
  obtain ts c where l: "from_int32_loop 18 v = (ts, c)" by fastforce
  note s = from_int32_loop_spec [OF l]
  with assms carry_zero_iff [of ts v c] have "c = 0" by (simp add: word18_max_def)
  with l s show ?thesis by (auto simp: reflex_word18_from_int32_def word18_ok_def)
qed

lemma from_int32_too_big:
  assumes "\<bar>v\<bar> > word18_max"
  shows "reflex_word18_from_int32 v = Inl REFLEX_ERR_INVALID_SIZE"
proof -
  obtain ts c where l: "from_int32_loop 18 v = (ts, c)" by fastforce
  note s = from_int32_loop_spec [OF l]
  with assms carry_zero_iff [of ts v c] have "c \<noteq> 0" by (simp add: word18_max_def)
  with l show ?thesis by (auto simp: reflex_word18_from_int32_def)
qed

lemma from_int32_Inr:
  "reflex_word18_from_int32 v = Inr w \<Longrightarrow> word18_ok w \<and> tval w = v"
  using from_int32_fits [of v] from_int32_too_big [of v] by (cases "\<bar>v\<bar> \<le> word18_max") auto

lemma compare_loop_sgn:
  assumes "length a = length b" "trits_ok a" "trits_ok b"
  shows "n \<le> length a \<Longrightarrow> compare_loop a b n = sgn (tval (take n a) - tval (take n b))"
proof (induction n)
  case (Suc n)
  let ?A = "tval (take n a)" let ?B = "tval (take n b)"
  let ?p = "3 ^ n :: int"
  have t: "tval (take (Suc n) a) = ?A + ?p * a ! n" "tval (take (Suc n) b) = ?B + ?p * b ! n"
    using Suc.prems assms(1) by (simp_all add: take_Suc_conv_app_nth tval_append)
  have bA: "2 * \<bar>?A\<bar> \<le> ?p - 1" and bB: "2 * \<bar>?B\<bar> \<le> ?p - 1"
    using tval_bound [OF trits_ok_take [OF assms(2)], of n]
      tval_bound [OF trits_ok_take [OF assms(3)], of n] Suc.prems assms(1)
    by (simp_all add: min_def)
  consider "a ! n < b ! n" | "a ! n = b ! n" | "a ! n > b ! n" by linarith
  then show ?case
  proof cases
    case 1
    then have "?p * (a ! n + 1) \<le> ?p * b ! n" by (intro mult_left_mono) auto
    with bA bB t have "tval (take (Suc n) a) - tval (take (Suc n) b) < 0"
      by (simp add: algebra_simps)
    with 1 show ?thesis by simp
  next
    case 2 with Suc t show ?thesis by simp
  next
    case 3
    then have "?p * (b ! n + 1) \<le> ?p * a ! n" by (intro mult_left_mono) auto
    with bA bB t have "tval (take (Suc n) a) - tval (take (Suc n) b) > 0"
      by (simp add: algebra_simps)
    with 3 show ?thesis by simp
  qed
qed simp

lemma compare_sgn:
  "word18_ok a \<Longrightarrow> word18_ok b \<Longrightarrow> reflex_word18_compare a b = Inr (sgn (tval a - tval b))"
  using compare_loop_sgn [of a b 18]
  by (simp add: reflex_word18_compare_def word18_ok_def)

lemma select_ok:
  "reflex_word18_select s n z p = Inr w \<Longrightarrow> w \<in> {n, z, p} \<and> trits_ok w"
  by (auto simp: reflex_word18_select_def split: if_splits)


section \<open>Packing agrees with the two-bit fields\<close>

text \<open>Field \<open>j\<close> of a packed buffer: the two bits that trit \<open>j\<close> occupies.\<close>

definition field2 :: "u8 list \<Rightarrow> nat \<Rightarrow> u8" where
  "field2 out j = drop_bit (2 * (j mod 4)) (out ! (j div 4)) AND 3"

lemma trit_index [simp]:
  "i * 2 mod 8 = 2 * (i mod 4)" "i * 2 div 8 = i div 4" for i :: nat
  using mult_mod_right [of 2 i 4] div_mult_mult1 [of 2 i 4] by (simp_all add: mult.commute)

lemma shift_le_6 [simp]: "\<not> 6 < 2 * (i mod 4)" for i :: nat
  using mod_less_divisor [of 4 i] by linarith

lemma trit_code_cases:
  "reflex_trit_is_valid t \<Longrightarrow> reflex_trit_to_code t = 0 \<and> t = -1 \<or> reflex_trit_to_code t = 1 \<and> t = 0
     \<or> reflex_trit_to_code t = 2 \<and> t = 1"
  by (auto simp: reflex_trit_to_code_def reflex_trit_is_valid_def)

lemma code_trit_code [simp]:
  "reflex_trit_is_valid t \<Longrightarrow> reflex_code_to_trit (reflex_trit_to_code t) = Inr t"
  by (drule trit_code_cases) (auto simp: reflex_code_to_trit_def Let_def)

lemma code_and_3 [simp]: "reflex_code_to_trit (c AND 3) = reflex_code_to_trit c"
  by (simp add: reflex_code_to_trit_def and.assoc)

lemma to_code_and_3 [simp]: "reflex_trit_to_code t AND 3 = reflex_trit_to_code t"
  by (simp add: reflex_trit_to_code_def)

lemma to_code_eq_3 [simp]: "reflex_trit_to_code t = 3 \<longleftrightarrow> \<not> reflex_trit_is_valid t"
  by (auto simp: reflex_trit_to_code_def reflex_trit_is_valid_def)

lemma code_to_trit_Inr:
  "reflex_code_to_trit c = Inr t \<Longrightarrow> reflex_trit_is_valid t \<and> reflex_trit_to_code t = c AND 3"
  by (auto simp: reflex_code_to_trit_def Let_def reflex_trit_to_code_def reflex_trit_is_valid_def
      split: if_splits)

lemma bit_3_int [simp]: "bit (3 :: int) k \<longleftrightarrow> k < 2"
proof -
  have "(3 :: int) = mask 2" by (simp add: mask_eq_exp_minus_1)
  then show ?thesis using bit_mask_iff [of 2 k, where 'a = int] by simp
qed

lemma bit_3_u8: "bit (3 :: u8) k \<longleftrightarrow> k < 2"
  by auto

lemma bit_field2: "bit (field2 out j) k \<longleftrightarrow> k < 2 \<and> bit (out ! (j div 4)) (2 * (j mod 4) + k)"
  by (auto simp: field2_def bit_and_iff bit_drop_bit_eq bit_3_u8)

lemma field2_set:
  assumes "i div 4 < length out" "j div 4 < length out" "c AND 3 = c"
  shows "field2 (out[i div 4 := out ! (i div 4) OR push_bit (2 * (i mod 4)) c]) j =
           (if j = i then field2 out j OR c else field2 out j)"
proof -
  have c: "bit c n \<Longrightarrow> n < 2" for n
    using assms(3) by (metis bit_3_u8 bit_and_iff)
  have ne: "i = j" if "i div 4 = j div 4" "k < 2" "2 * (i mod 4) \<le> 2 * (j mod 4) + k"
      "2 * (j mod 4) + k - 2 * (i mod 4) < 2" for k
  proof -
    from that have "i mod 4 = j mod 4" by linarith
    with that(1) show ?thesis by (metis div_mult_mod_eq)
  qed
  show ?thesis
  proof (rule bit_eqI)
    fix k assume "possible_bit TYPE(u8) k"
    then have k8: "k < 8" by (simp add: possible_bit_word)
    show "bit (field2 (out[i div 4 := out ! (i div 4) OR push_bit (2 * (i mod 4)) c]) j) k =
          bit (if j = i then field2 out j OR c else field2 out j) k"
    proof (cases "i div 4 = j div 4 \<and> k < 2")
      case True
      define m where "m = 2 * (j mod 4) + k"
      have m: "m < 8" using True mod_less_divisor [of 4 j] unfolding m_def by linarith
      have p: "bit (push_bit (2 * (i mod 4)) c) m \<longleftrightarrow> i = j \<and> bit c k"
      proof
        assume "bit (push_bit (2 * (i mod 4)) c) m"
        then have le: "2 * (i mod 4) \<le> m" and b: "bit c (m - 2 * (i mod 4))"
          by (auto simp: bit_push_bit_iff)
        from ne [of k] True le c [OF b] have "i = j" by (simp add: m_def)
        with b show "i = j \<and> bit c k" by (simp add: m_def)
      next
        assume "i = j \<and> bit c k"
        then show "bit (push_bit (2 * (i mod 4)) c) m"
          using m by (simp add: bit_push_bit_iff m_def)
      qed
      have "out[i div 4 := out ! (i div 4) OR push_bit (2 * (i mod 4)) c] ! (j div 4)
            = out ! (j div 4) OR push_bit (2 * (i mod 4)) c"
        using True assms(1) by simp
      then have "bit (field2 (out[i div 4 := out ! (i div 4) OR push_bit (2 * (i mod 4)) c]) j) k
            \<longleftrightarrow> bit (out ! (j div 4)) m \<or> (i = j \<and> bit c k)"
        using True p by (simp add: bit_field2 bit_or_iff m_def)
      moreover have "bit (field2 out j) k \<longleftrightarrow> bit (out ! (j div 4)) m"
        using True by (simp add: bit_field2 m_def)
      ultimately show ?thesis by (auto simp: bit_or_iff)
    next
      case False
      then show ?thesis using assms c [of k] by (auto simp: bit_field2 bit_or_iff)
    qed
  qed
qed

lemma pack_loop_spec:
  assumes "trits_ok ts" "i + length ts \<le> 4 * length out"
  shows "\<exists>out'. pack_loop ts i out = Inr out' \<and> length out' = length out \<and>
     (\<forall>j < 4 * length out. field2 out' j =
        (if i \<le> j \<and> j < i + length ts then field2 out j OR reflex_trit_to_code (ts ! (j - i))
         else field2 out j))"
  using assms
proof (induction ts arbitrary: i out)
  case (Cons t ts)
  let ?c = "reflex_trit_to_code t"
  let ?o = "out[i div 4 := out ! (i div 4) OR push_bit (2 * (i mod 4)) ?c]"
  have v: "reflex_trit_is_valid t" and ib: "i div 4 < length out"
    using Cons.prems by (auto simp: reflex_trit_is_valid_def)
  obtain out' where o: "pack_loop ts (Suc i) ?o = Inr out'" "length out' = length out"
    and f: "\<forall>j < 4 * length out. field2 out' j =
        (if Suc i \<le> j \<and> j < Suc i + length ts then field2 ?o j OR reflex_trit_to_code (ts ! (j - Suc i))
         else field2 ?o j)"
    using Cons.IH [of "Suc i" ?o] Cons.prems by auto
  have "field2 out' j =
        (if i \<le> j \<and> j < i + length (t # ts) then field2 out j OR reflex_trit_to_code ((t # ts) ! (j - i))
         else field2 out j)" if j: "j < 4 * length out" for j
  proof -
    have jb: "j div 4 < length out" using j by simp
    note fs = field2_set [OF ib jb to_code_and_3 [of t]]
    show ?thesis
      using f [rule_format, OF j] fs by (auto simp: nth_Cons')
  qed
  with v ib o show ?case by (simp add: Let_def)
qed auto

lemma pack_loop_invalid:
  "\<not> trits_ok ts \<Longrightarrow> i + length ts \<le> 4 * length out \<Longrightarrow> pack_loop ts i out = Inl REFLEX_ERR_INVALID_ARG"
  by (induction ts arbitrary: i out) (auto simp: Let_def reflex_trit_is_valid_def)

lemma unpack_loop_Inr:
  "i + n \<le> 4 * length inp \<Longrightarrow> length ts = n \<Longrightarrow>
   (\<And>j. j < n \<Longrightarrow> reflex_code_to_trit (field2 inp (i + j)) = Inr (ts ! j)) \<Longrightarrow>
   unpack_loop inp i n = Inr ts"
proof (induction n arbitrary: i ts)
  case (Suc n)
  obtain t us where ts: "ts = t # us" using Suc.prems(2) by (cases ts) auto
  have "unpack_loop inp (Suc i) n = Inr us"
    using Suc.IH [of "Suc i" us] Suc.prems ts by fastforce
  moreover have "reflex_code_to_trit (drop_bit (2 * (i mod 4)) (inp ! (i div 4))) = Inr t"
    using Suc.prems(3) [of 0] ts by (simp add: field2_def)
  ultimately show ?case using Suc.prems(1) ts by (simp add: Let_def)
qed simp

lemma unpack_loop_sound:
  "unpack_loop inp i n = Inr ts \<Longrightarrow>
   length ts = n \<and> trits_ok ts \<and> (\<forall>j < n. field2 inp (i + j) = reflex_trit_to_code (ts ! j))"
proof (induction n arbitrary: i ts)
  case (Suc n)
  from Suc.prems obtain t us where t: "reflex_code_to_trit (drop_bit (2 * (i mod 4)) (inp ! (i div 4))) = Inr t"
    and us: "unpack_loop inp (Suc i) n = Inr us" and ts: "ts = t # us"
    by (auto simp: Let_def err_simps split: if_splits)
  note code_to_trit_Inr [OF t] Suc.IH [OF us]
  then show ?case using ts
    by (auto simp: nth_Cons reflex_trit_is_valid_def field2_def split: nat.splits)
qed simp

lemma byte_eq_fields:
  fixes a b :: u8
  assumes "\<And>m. m < 4 \<Longrightarrow> drop_bit (2 * m) a AND 3 = drop_bit (2 * m) b AND 3"
  shows "a = b"
proof (rule bit_eqI)
  fix n assume "possible_bit TYPE(u8) n"
  then have "n < 8" by (simp add: possible_bit_word)
  then have m: "n div 2 < 4" by simp
  have "bit (drop_bit (2 * (n div 2)) a AND 3) (n mod 2) = bit (drop_bit (2 * (n div 2)) b AND 3) (n mod 2)"
    using assms [OF m] by simp
  then show "bit a n = bit b n"
    by (auto simp: bit_and_iff bit_drop_bit_eq bit_3_u8)
qed

lemma packed_eqI:
  assumes "length a = length b" "\<And>j. j < 4 * length b \<Longrightarrow> field2 a j = field2 b j"
  shows "a = b"
proof (rule list_eq_nthI [OF assms(1)])
  fix i assume i: "i < length b"
  show "a ! i = b ! i"
  proof (rule byte_eq_fields)
    fix m :: nat assume m: "m < 4"
    have "field2 a (4 * i + m) = field2 b (4 * i + m)" using assms(2) [of "4 * i + m"] i m by simp
    then show "drop_bit (2 * m) (a ! i) AND 3 = drop_bit (2 * m) (b ! i) AND 3"
      using m by (simp add: field2_def)
  qed
qed

lemma field2_zeros [simp]: "j < 4 * n \<Longrightarrow> field2 (replicate n 0) j = 0"
  by (simp add: field2_def less_mult_imp_div_less)

lemma pack_fields:
  assumes "trits_ok ts" "length ts \<le> 4 * n"
  shows "\<exists>out. reflex_pack_trits ts n = Inr out \<and> length out = n \<and>
     (\<forall>j < 4 * n. field2 out j = (if j < length ts then reflex_trit_to_code (ts ! j) else 0))"
  using pack_loop_spec [of ts 0 "replicate n 0"] assms
  by (auto simp: reflex_pack_trits_def)

lemma unpack_pack:
  assumes "trits_ok ts" "length ts \<le> 4 * n" "reflex_pack_trits ts n = Inr out"
  shows "reflex_unpack_trits out (length ts) = Inr ts"
proof -
  from pack_fields [OF assms(1,2)] assms(2,3)
  have l: "length out = n" and f: "\<And>j. j < length ts \<Longrightarrow> field2 out j = reflex_trit_to_code (ts ! j)"
    by auto
  have "reflex_code_to_trit (field2 out (0 + j)) = Inr (ts ! j)" if "j < length ts" for j
    using f [OF that] trits_ok_nth [OF assms(1) that] by (simp add: reflex_trit_is_valid_def)
  then show ?thesis
    unfolding reflex_unpack_trits_def using l assms(2) by (intro unpack_loop_Inr) auto
qed

lemma pack_unpack:
  assumes "reflex_unpack_trits inp k = Inr ts" "k \<le> 4 * length inp"
    and "\<And>j. k \<le> j \<Longrightarrow> j < 4 * length inp \<Longrightarrow> field2 inp j = 0"
  shows "reflex_pack_trits ts (length inp) = Inr inp"
proof -
  from unpack_loop_sound [of inp 0 k ts] assms(1)
  have s: "length ts = k" "trits_ok ts" "\<And>j. j < k \<Longrightarrow> field2 inp j = reflex_trit_to_code (ts ! j)"
    by (auto simp: reflex_unpack_trits_def)
  from pack_fields [of ts "length inp"] s assms(2)
  obtain out where o: "reflex_pack_trits ts (length inp) = Inr out" "length out = length inp"
    "\<And>j. j < 4 * length inp \<Longrightarrow> field2 out j = (if j < k then reflex_trit_to_code (ts ! j) else 0)"
    by auto
  have "out = inp"
    by (rule packed_eqI) (use o s assms(3) in \<open>auto simp: not_less\<close>)
  with o show ?thesis by simp
qed

lemma word18_unpack_ok: "reflex_word18_unpack inp = Inr w \<Longrightarrow> word18_ok w"
  using unpack_loop_sound [of inp 0 18 w]
  by (simp add: reflex_word18_unpack_def reflex_unpack_trits_def word18_ok_def)


section \<open>Properties\<close>

text \<open>
  C7: word18 addition is exact integer addition with overflow detection. For valid operands
  the result denotes the sum and is valid exactly when the sum fits in 18 trits; otherwise
  the code reports REFLEX_ERR_INVALID_STATE.
\<close>

theorem word18_add_exact:
  assumes "word18_ok a" "word18_ok b"
  shows "case reflex_word18_add a b of
           Inr c \<Rightarrow> word18_ok c \<and> tval c = tval a + tval b
         | Inl e \<Rightarrow> e = REFLEX_ERR_INVALID_STATE \<and> \<bar>tval a + tval b\<bar> > word18_max"
  using add_fits [OF assms] add_overflows [OF assms]
  by (cases "\<bar>tval a + tval b\<bar> \<le> word18_max") auto

theorem word18_add_exact_witness:
  "word18_ok (replicate 18 1) \<and>
   (case reflex_word18_add (replicate 18 1) (replicate 18 1) of
      Inr c \<Rightarrow> word18_ok c \<and> tval c = tval (replicate 18 1) + tval (replicate 18 1)
    | Inl e \<Rightarrow> e = REFLEX_ERR_INVALID_STATE
               \<and> \<bar>tval (replicate 18 1) + tval (replicate 18 1)\<bar> > word18_max)"
proof -
  have ok: "word18_ok (replicate 18 1)" by (simp add: word18_ok_def)
  show ?thesis using ok word18_add_exact [OF ok ok] by simp
qed

text \<open>
  Subtraction is exact as well, with the same overflow report: subtracting goes through
  the negated right operand and never loses a carry.
\<close>

theorem word18_subtract_exact:
  assumes "word18_ok a" "word18_ok b"
  shows "case reflex_word18_subtract a b of
           Inr c \<Rightarrow> word18_ok c \<and> tval c = tval a - tval b
         | Inl e \<Rightarrow> e = REFLEX_ERR_INVALID_STATE \<and> \<bar>tval a - tval b\<bar> > word18_max"
proof -
  note b' = word18_ok_uminus [OF assms(2)]
  show ?thesis
    using add_fits [OF assms(1) b'] add_overflows [OF assms(1) b'] subtract_eq_add [OF assms]
    by (cases "\<bar>tval a - tval b\<bar> \<le> word18_max") auto
qed

theorem word18_subtract_exact_witness:
  "case reflex_word18_subtract reflex_word18_zero (replicate 18 1) of
     Inr c \<Rightarrow> word18_ok c \<and> tval c = tval reflex_word18_zero - tval (replicate 18 1)
   | Inl e \<Rightarrow> e = REFLEX_ERR_INVALID_STATE
              \<and> \<bar>tval reflex_word18_zero - tval (replicate 18 1)\<bar> > word18_max"
  by (rule word18_subtract_exact) (simp_all add: word18_ok_def reflex_word18_zero_def)

text \<open>
  Int32 conversion is a bijection between the valid words and the integers of magnitude
  at most (3^18 - 1)/2. A value in range converts and converts back; a value outside is
  refused with REFLEX_ERR_INVALID_SIZE; every valid word is the image of its own value.
\<close>

theorem word18_int32_roundtrip:
  "(case reflex_word18_from_int32 v of
      Inr w \<Rightarrow> word18_ok w \<and> reflex_word18_to_int32 w = Inr v
    | Inl e \<Rightarrow> e = REFLEX_ERR_INVALID_SIZE \<and> \<bar>v\<bar> > word18_max)
   \<and> (word18_ok u \<longrightarrow> (\<exists>n. reflex_word18_to_int32 u = Inr n \<and> reflex_word18_from_int32 n = Inr u))"
proof
  show "case reflex_word18_from_int32 v of
      Inr w \<Rightarrow> word18_ok w \<and> reflex_word18_to_int32 w = Inr v
    | Inl e \<Rightarrow> e = REFLEX_ERR_INVALID_SIZE \<and> \<bar>v\<bar> > word18_max"
    using from_int32_fits [of v] from_int32_too_big [of v]
    by (cases "\<bar>v\<bar> \<le> word18_max") (auto simp: to_int32_ok)
  show "word18_ok u \<longrightarrow> (\<exists>n. reflex_word18_to_int32 u = Inr n \<and> reflex_word18_from_int32 n = Inr u)"
  proof
    assume u: "word18_ok u"
    from from_int32_fits [OF word18_bound [OF u]] obtain w
      where w: "reflex_word18_from_int32 (tval u) = Inr w" "word18_ok w" "tval w = tval u" by blast
    with u have "w = u" by (intro tval_inj) (auto simp: word18_ok_def)
    with w to_int32_ok [OF u] show "\<exists>n. reflex_word18_to_int32 u = Inr n \<and> reflex_word18_from_int32 n = Inr u"
      by auto
  qed
qed

theorem word18_int32_roundtrip_witness:
  "word18_ok (replicate 18 1) \<and>
   (\<exists>n. reflex_word18_to_int32 (replicate 18 1) = Inr n \<and> reflex_word18_from_int32 n = Inr (replicate 18 1))"
proof -
  have ok: "word18_ok (replicate 18 1)" by (simp add: word18_ok_def)
  show ?thesis using ok word18_int32_roundtrip [of 0 "replicate 18 1"] by blast
qed

text \<open>
  the most-significant-first trit comparison decides the integer order: it reports the
  sign of the difference of the two values.
\<close>

theorem word18_compare_order:
  assumes "word18_ok a" "word18_ok b"
  shows "reflex_word18_compare a b = Inr (sgn (tval a - tval b))"
  using assms by (rule compare_sgn)

theorem word18_compare_order_witness:
  "reflex_word18_compare (replicate 18 1) reflex_word18_zero
     = Inr (sgn (tval (replicate 18 1) - tval reflex_word18_zero))"
  by (rule word18_compare_order) (simp_all add: word18_ok_def reflex_word18_zero_def)

text \<open>
  Packing. A word is packed exactly when every trit is valid; the packed bytes unpack to
  the same word; and the packed form is canonical: five bytes whose padding field pairs are
  zero and that unpack at all are the packing of what they unpack to.
\<close>

theorem word18_pack_roundtrip:
  assumes len: "length w = 18"
  shows "(case reflex_word18_pack w of
            Inr bytes \<Rightarrow> word18_ok w \<and> length bytes = 5 \<and> reflex_word18_unpack bytes = Inr w
          | Inl e \<Rightarrow> e = REFLEX_ERR_INVALID_ARG \<and> \<not> word18_ok w)
   \<and> (length bs = 5 \<and> field2 bs 18 = 0 \<and> field2 bs 19 = 0 \<and> reflex_word18_unpack bs = Inr w
        \<longrightarrow> reflex_word18_pack w = Inr bs)"
proof
  show "case reflex_word18_pack w of
            Inr bytes \<Rightarrow> word18_ok w \<and> length bytes = 5 \<and> reflex_word18_unpack bytes = Inr w
          | Inl e \<Rightarrow> e = REFLEX_ERR_INVALID_ARG \<and> \<not> word18_ok w"
  proof (cases "trits_ok w")
    case True
    from pack_fields [OF True, of 5] len obtain out
      where o: "reflex_pack_trits w 5 = Inr out" "length out = 5" by auto
    from unpack_pack [OF True _ o(1)] len have "reflex_unpack_trits out 18 = Inr w" by simp
    with o True len show ?thesis
      by (simp add: reflex_word18_pack_def reflex_word18_unpack_def word18_ok_def)
  next
    case False
    then show ?thesis using pack_loop_invalid [OF False, of 0 "replicate 5 0"] len
      by (simp add: reflex_word18_pack_def reflex_pack_trits_def word18_ok_def)
  qed
  show "length bs = 5 \<and> field2 bs 18 = 0 \<and> field2 bs 19 = 0 \<and> reflex_word18_unpack bs = Inr w
        \<longrightarrow> reflex_word18_pack w = Inr bs"
  proof (intro impI, elim conjE)
    assume b: "length bs = 5" "field2 bs 18 = 0" "field2 bs 19 = 0" "reflex_word18_unpack bs = Inr w"
    have "field2 bs j = 0" if "18 \<le> j" "j < 4 * length bs" for j
    proof -
      have "j = 18 \<or> j = 19" using that b(1) by linarith
      with b show ?thesis by auto
    qed
    with pack_unpack [of bs 18 w] b show "reflex_word18_pack w = Inr bs"
      by (simp add: reflex_word18_unpack_def reflex_word18_pack_def)
  qed
qed

theorem word18_pack_roundtrip_witness:
  "case reflex_word18_pack (replicate 18 1) of
     Inr bytes \<Rightarrow> word18_ok (replicate 18 1) \<and> length bytes = 5
                  \<and> reflex_word18_unpack bytes = Inr (replicate 18 1)
   | Inl e \<Rightarrow> e = REFLEX_ERR_INVALID_ARG \<and> \<not> word18_ok (replicate 18 1)"
  using word18_pack_roundtrip [of "replicate 18 1" "[]"] by simp

end
