(* ===== verification/VM_Mmu.thy ===== *)
theory VM_Mmu imports Ternary begin

text \<open>
  The VM's memory management unit: vm/mmu.c and vm/include/reflex_vm_mem.h, with the two raw
  accessors of vm/interpreter.c that go through it.

  Host memory is an explicit store from buffer identities to word arrays; a region names its
  buffer, so the pointer that translation returns is a buffer and an offset into it.
  Addresses are 32-bit in the code. The only arithmetic on them is guarded by the wrap-around
  check of \<open>reflex_vm_mmu_add_region\<close>, which is written out here, so they are naturals.
\<close>

section \<open>Regions and translation\<close>

datatype reflex_mem_type = REFLEX_MEM_PRIVATE | REFLEX_MEM_SHARED

record reflex_mem_region =
  buffer :: nat
  rlength :: nat
  rtype :: reflex_mem_type
  base_addr :: nat

record reflex_vm_mmu =
  regions :: "reflex_mem_region list"

type_synonym hostmem = "nat \<Rightarrow> word18 list"

definition REFLEX_MEM_MAX_REGIONS :: nat where "REFLEX_MEM_MAX_REGIONS = 4"
definition UINT32_MAX :: nat where "UINT32_MAX = 4294967295"

definition reflex_vm_mmu_init :: reflex_vm_mmu where
  "reflex_vm_mmu_init = \<lparr>regions = []\<rparr>"

fun overlaps_any :: "nat \<Rightarrow> nat \<Rightarrow> reflex_mem_region list \<Rightarrow> bool" where
  "overlaps_any new_start new_end [] = False"
| "overlaps_any new_start new_end (r # rs) =
     (if new_start < base_addr r + rlength r \<and> new_end > base_addr r then True
      else overlaps_any new_start new_end rs)"

text \<open>The buffer argument is the option: NULL is refused.\<close>

definition reflex_vm_mmu_add_region ::
    "reflex_vm_mmu \<Rightarrow> nat option \<Rightarrow> nat \<Rightarrow> reflex_mem_type \<Rightarrow> nat \<Rightarrow> reflex_vm_mmu result" where
  "reflex_vm_mmu_add_region mmu buf len ty base =
     (case buf of
        None \<Rightarrow> Inl REFLEX_ERR_INVALID_ARG
      | Some b \<Rightarrow>
          if \<not> length (regions mmu) < REFLEX_MEM_MAX_REGIONS then Inl REFLEX_ERR_NO_MEM
          else if \<not> UINT32_MAX - base \<ge> len then Inl REFLEX_ERR_INVALID_SIZE
          else if overlaps_any base (base + len) (regions mmu) then Inl REFLEX_ERR_INVALID_STATE
          else Inr (mmu\<lparr>regions := regions mmu @
                 [\<lparr>buffer = b, rlength = len, rtype = ty, base_addr = base\<rparr>]\<rparr>))"

fun translate_in :: "reflex_mem_region list \<Rightarrow> nat \<Rightarrow> (nat \<times> nat) result" where
  "translate_in [] vm_addr = Inl REFLEX_ERR_NOT_FOUND"
| "translate_in (r # rs) vm_addr =
     (if vm_addr \<ge> base_addr r \<and> vm_addr < base_addr r + rlength r
      then Inr (buffer r, vm_addr - base_addr r)
      else translate_in rs vm_addr)"

definition reflex_vm_mmu_translate :: "reflex_vm_mmu \<Rightarrow> nat \<Rightarrow> (nat \<times> nat) result" where
  "reflex_vm_mmu_translate mmu vm_addr = translate_in (regions mmu) vm_addr"

definition reflex_vm_mem_get_raw :: "reflex_vm_mmu \<Rightarrow> hostmem \<Rightarrow> nat \<Rightarrow> word18 result" where
  "reflex_vm_mem_get_raw mmu hm index =
     rbind (reflex_vm_mmu_translate mmu index) (\<lambda>(b, off). Inr (hm b ! off))"

definition reflex_vm_mem_set_raw ::
    "reflex_vm_mmu \<Rightarrow> hostmem \<Rightarrow> nat \<Rightarrow> word18 \<Rightarrow> hostmem result" where
  "reflex_vm_mem_set_raw mmu hm index w =
     rbind (reflex_vm_mmu_translate mmu index) (\<lambda>(b, off). Inr (hm(b := (hm b)[off := w])))"

section \<open>Well-formed translation\<close>

definition in_region :: "reflex_mem_region \<Rightarrow> nat \<Rightarrow> bool" where
  "in_region r a \<longleftrightarrow> base_addr r \<le> a \<and> a < base_addr r + rlength r"

text \<open>
  What \<open>reflex_vm_mmu_add_region\<close> keeps: at most four regions, none wrapping the address
  space, no address in two of them. The callers' part is that every region has its own
  buffer and the buffer is at least as long as the region.
\<close>

definition regions_disjoint :: "reflex_mem_region list \<Rightarrow> bool" where
  "regions_disjoint rs \<longleftrightarrow>
     (\<forall>i < length rs. \<forall>j < length rs. \<forall>a. in_region (rs ! i) a \<and> in_region (rs ! j) a \<longrightarrow> i = j)"

definition mmu_ok :: "reflex_vm_mmu \<Rightarrow> bool" where
  "mmu_ok mmu \<longleftrightarrow> length (regions mmu) \<le> REFLEX_MEM_MAX_REGIONS
     \<and> (\<forall>r \<in> set (regions mmu). base_addr r + rlength r \<le> UINT32_MAX)
     \<and> regions_disjoint (regions mmu)"

definition host_ok :: "reflex_vm_mmu \<Rightarrow> hostmem \<Rightarrow> bool" where
  "host_ok mmu hm \<longleftrightarrow> distinct (map buffer (regions mmu))
     \<and> (\<forall>r \<in> set (regions mmu). rlength r \<le> length (hm (buffer r)))"

definition mapped :: "reflex_vm_mmu \<Rightarrow> nat \<Rightarrow> bool" where
  "mapped mmu a \<longleftrightarrow> (\<exists>r \<in> set (regions mmu). in_region r a)"

lemma mmu_ok_init [simp]: "mmu_ok reflex_vm_mmu_init" "host_ok reflex_vm_mmu_init hm"
  by (auto simp: mmu_ok_def host_ok_def reflex_vm_mmu_init_def regions_disjoint_def)

lemma translate_in_Inr:
  "translate_in rs a = Inr (b, off) \<Longrightarrow>
   \<exists>r \<in> set rs. in_region r a \<and> b = buffer r \<and> off = a - base_addr r \<and> off < rlength r"
  by (induction rs) (auto simp: in_region_def split: if_splits)

lemma translate_in_Inl: "translate_in rs a = Inl e \<longleftrightarrow> e = REFLEX_ERR_NOT_FOUND \<and> \<not> (\<exists>r \<in> set rs. in_region r a)"
  by (induction rs) (auto simp: in_region_def)

lemma translate_cases:
  "(\<exists>b off. reflex_vm_mmu_translate mmu a = Inr (b, off) \<and> mapped mmu a)
   \<or> (reflex_vm_mmu_translate mmu a = Inl REFLEX_ERR_NOT_FOUND \<and> \<not> mapped mmu a)"
proof (cases "reflex_vm_mmu_translate mmu a")
  case (Inl e)
  then show ?thesis by (auto simp: reflex_vm_mmu_translate_def mapped_def translate_in_Inl)
next
  case (Inr p)
  obtain b off where "p = (b, off)" by fastforce
  with Inr translate_in_Inr [of "regions mmu" a b off] show ?thesis
    by (auto simp: reflex_vm_mmu_translate_def mapped_def)
qed

lemma translate_inj:
  assumes "host_ok mmu hm" and "reflex_vm_mmu_translate mmu a = Inr (b, off)"
    and "reflex_vm_mmu_translate mmu a' = Inr (b, off)"
  shows "a = a'"
proof -
  from assms(2) obtain r where r: "r \<in> set (regions mmu)" "in_region r a" "b = buffer r" "off = a - base_addr r"
    by (auto simp: reflex_vm_mmu_translate_def dest: translate_in_Inr)
  from assms(3) obtain r' where r': "r' \<in> set (regions mmu)" "in_region r' a'" "b = buffer r'" "off = a' - base_addr r'"
    by (auto simp: reflex_vm_mmu_translate_def dest: translate_in_Inr)
  have "r = r'" using assms(1) r r' by (auto simp: host_ok_def distinct_map dest: inj_onD)
  with r r' show ?thesis by (auto simp: in_region_def)
qed

lemma translate_in_bounds:
  "host_ok mmu hm \<Longrightarrow> reflex_vm_mmu_translate mmu a = Inr (b, off) \<Longrightarrow> off < length (hm b)"
  by (fastforce simp: reflex_vm_mmu_translate_def host_ok_def dest: translate_in_Inr)

section \<open>Memory as a partial function from addresses\<close>

definition mem_read :: "reflex_vm_mmu \<Rightarrow> hostmem \<Rightarrow> nat \<Rightarrow> word18 option" where
  "mem_read mmu hm a = (case reflex_vm_mem_get_raw mmu hm a of Inl _ \<Rightarrow> None | Inr w \<Rightarrow> Some w)"

lemma get_raw_iff:
  "reflex_vm_mem_get_raw mmu hm a =
     (case mem_read mmu hm a of None \<Rightarrow> Inl REFLEX_ERR_NOT_FOUND | Some w \<Rightarrow> Inr w)"
  using translate_cases [of mmu a] by (auto simp: mem_read_def reflex_vm_mem_get_raw_def)

lemma mem_read_None [simp]: "mem_read mmu hm a = None \<longleftrightarrow> \<not> mapped mmu a"
  using translate_cases [of mmu a] by (auto simp: mem_read_def reflex_vm_mem_get_raw_def)

lemma get_raw_unmapped: "\<not> mapped mmu a \<Longrightarrow> reflex_vm_mem_get_raw mmu hm a = Inl REFLEX_ERR_NOT_FOUND"
  using translate_cases [of mmu a] by (auto simp: reflex_vm_mem_get_raw_def)

lemma set_raw_unmapped: "\<not> mapped mmu a \<Longrightarrow> reflex_vm_mem_set_raw mmu hm a w = Inl REFLEX_ERR_NOT_FOUND"
  using translate_cases [of mmu a] by (auto simp: reflex_vm_mem_set_raw_def)

lemma set_raw_mapped:
  assumes "host_ok mmu hm" "mapped mmu a"
  shows "\<exists>hm'. reflex_vm_mem_set_raw mmu hm a w = Inr hm' \<and> host_ok mmu hm'
           \<and> mem_read mmu hm' = (mem_read mmu hm)(a \<mapsto> w)"
proof -
  from translate_cases [of mmu a] assms(2) obtain b off
    where t: "reflex_vm_mmu_translate mmu a = Inr (b, off)" by auto
  let ?h = "hm(b := (hm b)[off := w])"
  have "reflex_vm_mem_set_raw mmu hm a w = Inr ?h" using t by (simp add: reflex_vm_mem_set_raw_def)
  moreover have "host_ok mmu ?h" using assms(1) by (auto simp: host_ok_def)
  moreover have "mem_read mmu ?h = (mem_read mmu hm)(a \<mapsto> w)"
  proof
    fix a'
    show "mem_read mmu ?h a' = ((mem_read mmu hm)(a \<mapsto> w)) a'"
    proof (cases "a' = a")
      case True
      with t translate_in_bounds [OF assms(1) t] show ?thesis
        by (simp add: mem_read_def reflex_vm_mem_get_raw_def)
    next
      case False
      have "?h b' ! off' = hm b' ! off'" if t': "reflex_vm_mmu_translate mmu a' = Inr (b', off')" for b' off'
      proof (cases "b' = b")
        case True
        with t' False translate_inj [OF assms(1) t] have "off' \<noteq> off" by auto
        with True show ?thesis by simp
      qed simp
      with False translate_cases [of mmu a'] show ?thesis
        by (auto simp: mem_read_def reflex_vm_mem_get_raw_def)
    qed
  qed
  ultimately show ?thesis by blast
qed

section \<open>Adding a region\<close>

lemma overlaps_any_iff:
  "overlaps_any s e rs \<longleftrightarrow> (\<exists>r \<in> set rs. s < base_addr r + rlength r \<and> e > base_addr r)"
  by (induction rs) auto

lemma add_region_ok:
  assumes "mmu_ok mmu" and "reflex_vm_mmu_add_region mmu (Some b) len ty base = Inr mmu'" and "base \<le> UINT32_MAX"
  shows "mmu_ok mmu'"
proof -
  let ?n = "\<lparr>buffer = b, rlength = len, rtype = ty, base_addr = base\<rparr>"
  from assms(2) have m: "regions mmu' = regions mmu @ [?n]" and c: "length (regions mmu) < REFLEX_MEM_MAX_REGIONS"
    and w: "len \<le> UINT32_MAX - base" and o: "\<not> overlaps_any base (base + len) (regions mmu)"
    by (auto simp: reflex_vm_mmu_add_region_def split: if_splits)
  have clash: "\<not> in_region ?n a" if "r \<in> set (regions mmu)" "in_region r a" for r a
    using that o by (fastforce simp: overlaps_any_iff in_region_def)
  have "regions_disjoint (regions mmu')"
    unfolding regions_disjoint_def
  proof (intro allI impI, elim conjE)
    fix i j a
    assume i: "i < length (regions mmu')" and j: "j < length (regions mmu')"
      and ri: "in_region (regions mmu' ! i) a" and rj: "in_region (regions mmu' ! j) a"
    have old: "regions_disjoint (regions mmu)" using assms(1) by (simp add: mmu_ok_def)
    show "i = j"
      using i j ri rj m old clash
      by (auto simp: nth_append less_Suc_eq regions_disjoint_def dest: nth_mem split: if_splits)
  qed
  then show ?thesis using assms(1,3) m c w by (auto simp: mmu_ok_def)
qed

text \<open>
  the MMU hands out a disjoint address map. Adding a region to a well-formed unit either
  refuses with the reason, leaving the map alone, or keeps it well-formed; every old address
  translates as before and exactly the new range becomes mapped, onto the new buffer.
\<close>

theorem mmu_add_region_disjoint:
  assumes "mmu_ok mmu" "base \<le> UINT32_MAX"
  shows "case reflex_vm_mmu_add_region mmu (Some b) len ty base of
     Inl e \<Rightarrow> (e = REFLEX_ERR_NO_MEM \<and> length (regions mmu) = REFLEX_MEM_MAX_REGIONS)
            \<or> (e = REFLEX_ERR_INVALID_SIZE \<and> base + len > UINT32_MAX)
            \<or> (e = REFLEX_ERR_INVALID_STATE \<and> overlaps_any base (base + len) (regions mmu))
   | Inr mmu' \<Rightarrow> mmu_ok mmu'
       \<and> (\<forall>a. reflex_vm_mmu_translate mmu' a =
            (if mapped mmu a then reflex_vm_mmu_translate mmu a
             else if base \<le> a \<and> a < base + len then Inr (b, a - base)
             else Inl REFLEX_ERR_NOT_FOUND))"
proof (cases "reflex_vm_mmu_add_region mmu (Some b) len ty base")
  case (Inl e)
  then show ?thesis using assms
    by (auto simp: reflex_vm_mmu_add_region_def mmu_ok_def split: if_splits)
next
  case (Inr mmu')
  then have m: "regions mmu' = regions mmu @ [\<lparr>buffer = b, rlength = len, rtype = ty, base_addr = base\<rparr>]"
    by (auto simp: reflex_vm_mmu_add_region_def split: if_splits)
  have app: "translate_in (rs @ [n]) a =
      (case translate_in rs a of Inr p \<Rightarrow> Inr p | Inl _ \<Rightarrow> translate_in [n] a)" for rs n a
    by (induction rs) auto
  have "reflex_vm_mmu_translate mmu' a =
            (if mapped mmu a then reflex_vm_mmu_translate mmu a
             else if base \<le> a \<and> a < base + len then Inr (b, a - base)
             else Inl REFLEX_ERR_NOT_FOUND)" for a
    using translate_cases [of mmu a] by (auto simp: reflex_vm_mmu_translate_def m app)
  with Inr add_region_ok [OF assms(1) Inr assms(2)] show ?thesis by auto
qed

theorem mmu_add_region_disjoint_witness:
  "case reflex_vm_mmu_add_region reflex_vm_mmu_init (Some 1) 8 REFLEX_MEM_PRIVATE 0 of
     Inl e \<Rightarrow> False
   | Inr mmu' \<Rightarrow> mmu_ok mmu' \<and> reflex_vm_mmu_translate mmu' 3 = Inr (1, 3)"
  using mmu_add_region_disjoint [where mmu = reflex_vm_mmu_init and base = 0 and b = 1 and len = 8
      and ty = REFLEX_MEM_PRIVATE]
  by (auto simp: reflex_vm_mmu_add_region_def reflex_vm_mmu_init_def mapped_def UINT32_MAX_def
      REFLEX_MEM_MAX_REGIONS_def mmu_ok_def regions_disjoint_def)

end
