(* ===== verification/VM_Cache.thy ===== *)
theory VM_Cache imports VM_Mmu begin

text \<open>
  The VM's soft cache: vm/cache.c and vm/include/reflex_cache.h. Sixteen direct-mapped
  write-back lines over the MMU, in the I / E / M states.

  \<open>vmem\<close> is the memory side of a VM instance: its MMU, the host store, and the optional
  cache (None is the NULL pointer: direct MMU access). Every operation returns the result
  and the state it leaves, also when it fails, because a failing eviction has already
  counted its miss. \<open>view\<close> is the memory a program sees through the cache; the operations
  are proved to be reads and writes of that view, so a cached program cannot tell the cache
  from flat memory.
\<close>

section \<open>State\<close>

datatype reflex_cache_state = REFLEX_CACHE_I | REFLEX_CACHE_E | REFLEX_CACHE_M

record reflex_cache_line =
  tag :: nat
  lstate :: reflex_cache_state
  lvalue :: word18

record reflex_cache =
  sets :: "reflex_cache_line list"
  hits :: u32
  misses :: u32
  evictions :: u32

record vmem =
  vmmu :: reflex_vm_mmu
  host :: hostmem
  vcache :: "reflex_cache option"

definition REFLEX_CACHE_SET_COUNT :: nat where "REFLEX_CACHE_SET_COUNT = 16"

definition reflex_cache_get_index :: "nat \<Rightarrow> nat" where
  "reflex_cache_get_index addr = addr mod REFLEX_CACHE_SET_COUNT"

definition reflex_cache_init :: reflex_cache where
  "reflex_cache_init =
     \<lparr>sets = replicate REFLEX_CACHE_SET_COUNT \<lparr>tag = 0, lstate = REFLEX_CACHE_I, lvalue = reflex_word18_zero\<rparr>,
      hits = 0, misses = 0, evictions = 0\<rparr>"

section \<open>Operations\<close>

definition put_line :: "reflex_cache \<Rightarrow> nat \<Rightarrow> reflex_cache_line \<Rightarrow> reflex_cache" where
  "put_line c ix l = c\<lparr>sets := (sets c)[ix := l]\<rparr>"

text \<open>Write a line's word back through the MMU; the caller supplies the state to report.\<close>

definition write_back :: "vmem \<Rightarrow> reflex_cache_line \<Rightarrow> vmem result" where
  "write_back m l = rbind (reflex_vm_mem_set_raw (vmmu m) (host m) (tag l) (lvalue l))
                      (\<lambda>h. Inr (m\<lparr>host := h\<rparr>))"

definition reflex_cache_load :: "vmem \<Rightarrow> nat \<Rightarrow> word18 result \<times> vmem" where
  "reflex_cache_load m addr =
     (case vcache m of
        None \<Rightarrow> (Inl REFLEX_ERR_INVALID_ARG, m)
      | Some c \<Rightarrow>
          let ix = reflex_cache_get_index addr; line = sets c ! ix in
          if lstate line \<noteq> REFLEX_CACHE_I \<and> tag line = addr
          then (Inr (lvalue line), m\<lparr>vcache := Some (c\<lparr>hits := hits c + 1\<rparr>)\<rparr>)
          else
            let c1 = c\<lparr>misses := misses c + 1\<rparr>;
                c2 = (if lstate line = REFLEX_CACHE_M then c1\<lparr>evictions := evictions c1 + 1\<rparr> else c1);
                m2 = m\<lparr>vcache := Some c2\<rparr>
            in case (if lstate line = REFLEX_CACHE_M then write_back m2 line else Inr m2) of
                 Inl e \<Rightarrow> (Inl e, m2)
               | Inr m3 \<Rightarrow>
                   (case reflex_vm_mem_get_raw (vmmu m3) (host m3) addr of
                      Inl e \<Rightarrow> (Inl e, m3)
                    | Inr w \<Rightarrow> (Inr w, m3\<lparr>vcache := Some (put_line c2 ix
                          \<lparr>tag = addr, lstate = REFLEX_CACHE_E, lvalue = w\<rparr>)\<rparr>)))"

definition reflex_cache_store :: "vmem \<Rightarrow> nat \<Rightarrow> word18 \<Rightarrow> unit result \<times> vmem" where
  "reflex_cache_store m addr w =
     (case vcache m of
        None \<Rightarrow> (Inl REFLEX_ERR_INVALID_ARG, m)
      | Some c \<Rightarrow>
          let ix = reflex_cache_get_index addr; line = sets c ! ix;
              dirty = (lstate line = REFLEX_CACHE_M \<and> tag line \<noteq> addr);
              c2 = (if dirty then c\<lparr>evictions := evictions c + 1\<rparr> else c);
              m2 = m\<lparr>vcache := Some c2\<rparr>
          in case (if dirty then write_back m2 line else Inr m2) of
               Inl e \<Rightarrow> (Inl e, m2)
             | Inr m3 \<Rightarrow> (Inr (), m3\<lparr>vcache := Some (put_line c2 ix
                   \<lparr>tag = addr, lstate = REFLEX_CACHE_M, lvalue = w\<rparr>)\<rparr>))"

definition reflex_cache_flush :: "vmem \<Rightarrow> nat \<Rightarrow> unit result \<times> vmem" where
  "reflex_cache_flush m addr =
     (case vcache m of
        None \<Rightarrow> (Inl REFLEX_ERR_INVALID_ARG, m)
      | Some c \<Rightarrow>
          let ix = reflex_cache_get_index addr; line = sets c ! ix in
          if lstate line = REFLEX_CACHE_M \<and> tag line = addr then
            (case write_back m line of
               Inl e \<Rightarrow> (Inl e, m)
             | Inr m2 \<Rightarrow> (Inr (), m2\<lparr>vcache := Some (put_line c ix (line\<lparr>lstate := REFLEX_CACHE_E\<rparr>))\<rparr>))
          else (Inr (), m))"

text \<open>The discarding invalidate: a dirty line is dropped.\<close>

definition reflex_cache_invalidate :: "vmem \<Rightarrow> nat \<Rightarrow> unit result \<times> vmem" where
  "reflex_cache_invalidate m addr =
     (case vcache m of
        None \<Rightarrow> (Inl REFLEX_ERR_INVALID_ARG, m)
      | Some c \<Rightarrow>
          let ix = reflex_cache_get_index addr; line = sets c ! ix in
          if tag line = addr
          then (Inr (), m\<lparr>vcache := Some (put_line c ix (line\<lparr>lstate := REFLEX_CACHE_I\<rparr>))\<rparr>)
          else (Inr (), m))"

definition reflex_cache_flush_invalidate :: "vmem \<Rightarrow> nat \<Rightarrow> unit result \<times> vmem" where
  "reflex_cache_flush_invalidate m addr =
     (case reflex_cache_flush m addr of
        (Inl e, m1) \<Rightarrow> (Inl e, m1)
      | (Inr _, m1) \<Rightarrow> reflex_cache_invalidate m1 addr)"

text \<open>The loop of \<open>reflex_cache_flush_all\<close> over the lines \<open>i, i + 1, \<dots>\<close>, \<open>n\<close> of them left.\<close>

fun flush_lines :: "vmem \<Rightarrow> reflex_cache \<Rightarrow> nat \<Rightarrow> nat \<Rightarrow> unit result \<times> vmem" where
  "flush_lines m c i 0 = (Inr (), m)"
| "flush_lines m c i (Suc n) =
     (let line = sets c ! i in
      if lstate line = REFLEX_CACHE_M then
        (case write_back m line of
           Inl e \<Rightarrow> (Inl e, m)
         | Inr m2 \<Rightarrow>
             let c2 = put_line c i (line\<lparr>lstate := REFLEX_CACHE_E\<rparr>)
             in flush_lines (m2\<lparr>vcache := Some c2\<rparr>) c2 (Suc i) n)
      else flush_lines m c (Suc i) n)"

definition reflex_cache_flush_all :: "vmem \<Rightarrow> unit result \<times> vmem" where
  "reflex_cache_flush_all m =
     (case vcache m of
        None \<Rightarrow> (Inl REFLEX_ERR_INVALID_ARG, m)
      | Some c \<Rightarrow> flush_lines m c 0 REFLEX_CACHE_SET_COUNT)"

definition reflex_vm_host_write :: "vmem \<Rightarrow> nat \<Rightarrow> word18 \<Rightarrow> unit result \<times> vmem" where
  "reflex_vm_host_write m addr w =
     (case reflex_vm_mem_set_raw (vmmu m) (host m) addr w of
        Inl e \<Rightarrow> (Inl e, m)
      | Inr h \<Rightarrow>
          let m1 = m\<lparr>host := h\<rparr> in
          if vcache m1 \<noteq> None then reflex_cache_invalidate m1 addr else (Inr (), m1))"

section \<open>The view through the cache and the coherence invariant\<close>

abbreviation raw :: "vmem \<Rightarrow> nat \<Rightarrow> word18 option" where
  "raw m \<equiv> mem_read (vmmu m) (host m)"

definition line_of :: "vmem \<Rightarrow> nat \<Rightarrow> reflex_cache_line option" where
  "line_of m a = (case vcache m of
       None \<Rightarrow> None
     | Some c \<Rightarrow> let l = sets c ! reflex_cache_get_index a in
         if lstate l \<noteq> REFLEX_CACHE_I \<and> tag l = a then Some l else None)"

definition view :: "vmem \<Rightarrow> nat \<Rightarrow> word18 option" where
  "view m a = (case line_of m a of Some l \<Rightarrow> Some (lvalue l) | None \<Rightarrow> raw m a)"

text \<open>
  A valid line sits in its own set, names a mapped address, and while exclusive (clean)
  equals memory. Only a modified line may differ.
\<close>

definition line_ok :: "vmem \<Rightarrow> nat \<Rightarrow> reflex_cache_line \<Rightarrow> bool" where
  "line_ok m ix l \<longleftrightarrow> (lstate l \<noteq> REFLEX_CACHE_I \<longrightarrow>
      reflex_cache_get_index (tag l) = ix \<and> mapped (vmmu m) (tag l)
      \<and> (lstate l = REFLEX_CACHE_E \<longrightarrow> raw m (tag l) = Some (lvalue l)))"

definition cache_ok :: "vmem \<Rightarrow> bool" where
  "cache_ok m \<longleftrightarrow> host_ok (vmmu m) (host m) \<and>
     (case vcache m of None \<Rightarrow> True
      | Some c \<Rightarrow> length (sets c) = REFLEX_CACHE_SET_COUNT
          \<and> (\<forall>ix < REFLEX_CACHE_SET_COUNT. line_ok m ix (sets c ! ix)))"


lemma put_line_simps [simp]: "sets (put_line c ix l) = (sets c)[ix := l]"
  by (simp add: put_line_def)

lemma get_index_less [simp]: "reflex_cache_get_index a < REFLEX_CACHE_SET_COUNT"
  by (simp add: reflex_cache_get_index_def REFLEX_CACHE_SET_COUNT_def)

lemma get_index_eq: "reflex_cache_get_index a = a mod 16"
  by (simp add: reflex_cache_get_index_def REFLEX_CACHE_SET_COUNT_def)

lemma view_no_cache [simp]: "vcache m = None \<Longrightarrow> view m = raw m"
  by (rule ext) (simp add: view_def line_of_def)

lemma view_cache:
  "vcache m = Some c \<Longrightarrow> view m a =
     (let l = sets c ! reflex_cache_get_index a in
      if lstate l \<noteq> REFLEX_CACHE_I \<and> tag l = a then Some (lvalue l) else raw m a)"
  by (simp add: view_def line_of_def Let_def)

lemma cache_okD:
  "cache_ok m \<Longrightarrow> host_ok (vmmu m) (host m)"
  "cache_ok m \<Longrightarrow> vcache m = Some c \<Longrightarrow> length (sets c) = REFLEX_CACHE_SET_COUNT"
  "cache_ok m \<Longrightarrow> vcache m = Some c \<Longrightarrow> ix < REFLEX_CACHE_SET_COUNT \<Longrightarrow> line_ok m ix (sets c ! ix)"
  by (auto simp: cache_ok_def)

text \<open>Addresses outside the map are invisible through the cache too.\<close>

lemma view_None:
  assumes "cache_ok m" shows "view m a = None \<longleftrightarrow> \<not> mapped (vmmu m) a"
proof (cases "vcache m")
  case (Some c)
  with cache_okD(3) [OF assms Some get_index_less [of a]] show ?thesis
    by (auto simp: view_cache Let_def line_ok_def)
qed simp

lemma write_back_spec:
  assumes "host_ok (vmmu m) (host m)" "mapped (vmmu m) (tag l)"
  shows "\<exists>h. write_back m l = Inr (m\<lparr>host := h\<rparr>) \<and> host_ok (vmmu m) h
           \<and> mem_read (vmmu m) h = (raw m)(tag l \<mapsto> lvalue l)"
proof -
  from set_raw_mapped [OF assms, of "lvalue l"] obtain h
    where "reflex_vm_mem_set_raw (vmmu m) (host m) (tag l) (lvalue l) = Inr h" "host_ok (vmmu m) h"
      "mem_read (vmmu m) h = (raw m)(tag l \<mapsto> lvalue l)" by auto
  then show ?thesis by (intro exI [of _ h]) (simp add: write_back_def)
qed

text \<open>The eviction step of load and store: a dirty line reaches memory, a clean one costs nothing.\<close>

lemma evict_spec:
  assumes ok: "cache_ok m" and c: "vcache m = Some c" and ix: "ix < REFLEX_CACHE_SET_COUNT"
    and d: "dirty \<Longrightarrow> lstate (sets c ! ix) = REFLEX_CACHE_M"
  shows "\<exists>m3. (if dirty then write_back (m\<lparr>vcache := Some c2\<rparr>) (sets c ! ix) else Inr (m\<lparr>vcache := Some c2\<rparr>)) = Inr m3
    \<and> vmmu m3 = vmmu m \<and> vcache m3 = Some c2 \<and> host_ok (vmmu m) (host m3)
    \<and> raw m3 = (if dirty then (raw m)(tag (sets c ! ix) \<mapsto> lvalue (sets c ! ix)) else raw m)"
proof (cases dirty)
  case True
  let ?m = "m\<lparr>vcache := Some c2\<rparr>"
  from d True cache_okD(3) [OF ok c ix] have "mapped (vmmu ?m) (tag (sets c ! ix))" by (simp add: line_ok_def)
  moreover have "host_ok (vmmu ?m) (host ?m)" using cache_okD(1) [OF ok] by simp
  ultimately obtain h where "write_back ?m (sets c ! ix) = Inr (?m\<lparr>host := h\<rparr>)" "host_ok (vmmu ?m) h"
    "mem_read (vmmu ?m) h = (raw ?m)(tag (sets c ! ix) \<mapsto> lvalue (sets c ! ix))"
    using write_back_spec by blast
  with True show ?thesis by simp
qed (use cache_okD(1) [OF ok] in simp)

text \<open>
  The one fact behind every operation: one line is replaced, and memory outside its set is
  as it was. All other sets show what they showed.
\<close>

lemma replace_line_gen:
  assumes ok: "cache_ok m" and c: "vcache m = Some c" and ix: "ix < REFLEX_CACHE_SET_COUNT"
    and mm: "vmmu m' = vmmu m" and c': "vcache m' = Some c'" "sets c' = (sets c)[ix := l']"
    and h: "host_ok (vmmu m) (host m')"
    and same: "\<And>a. reflex_cache_get_index a \<noteq> ix \<Longrightarrow> raw m' a = raw m a"
    and l': "line_ok m' ix l'"
  shows "cache_ok m' \<and> view m' = (\<lambda>a. if reflex_cache_get_index a = ix
            then (if lstate l' \<noteq> REFLEX_CACHE_I \<and> tag l' = a then Some (lvalue l') else raw m' a)
            else view m a)"
proof -
  let ?L = "sets c ! ix"
  note len = cache_okD(2) [OF ok c]
  have "line_ok m' i (sets c' ! i)" if "i < REFLEX_CACHE_SET_COUNT" for i
  proof (cases "i = ix")
    case True with l' c' len ix show ?thesis by simp
  next
    case False
    with c' have "sets c' ! i = sets c ! i" by simp
    with cache_okD(3) [OF ok c that] same False mm show ?thesis by (auto simp: line_ok_def)
  qed
  then have "cache_ok m'" using c' len h mm by (simp add: cache_ok_def)
  moreover have "view m' a = (if reflex_cache_get_index a = ix
            then (if lstate l' \<noteq> REFLEX_CACHE_I \<and> tag l' = a then Some (lvalue l') else raw m' a)
            else view m a)" for a
    using c c' len ix same by (auto simp: view_cache Let_def)
  ultimately show ?thesis by auto
qed

text \<open>
  The form the cache's own operations need: one line is replaced, after the old one was written
  back if it was dirty. All other sets show what they showed.
\<close>

lemma replace_line:
  assumes ok: "cache_ok m" and c: "vcache m = Some c" and ix: "ix < REFLEX_CACHE_SET_COUNT"
    and mm: "vmmu m' = vmmu m" and c': "vcache m' = Some c'" "sets c' = (sets c)[ix := l']"
    and h: "host_ok (vmmu m) (host m')"
    and raw': "raw m' = raw m \<or> (lstate (sets c ! ix) = REFLEX_CACHE_M
                  \<and> raw m' = (raw m)(tag (sets c ! ix) \<mapsto> lvalue (sets c ! ix)))"
    and l': "line_ok m' ix l'"
  shows "cache_ok m' \<and> view m' = (\<lambda>a. if reflex_cache_get_index a = ix
            then (if lstate l' \<noteq> REFLEX_CACHE_I \<and> tag l' = a then Some (lvalue l') else raw m' a)
            else view m a)"
  using raw' cache_okD(3) [OF ok c ix]
  by (intro replace_line_gen [OF ok c ix mm c' h _ l']) (auto simp: line_ok_def)

section \<open>Each operation against the view\<close>

lemma load_hit:
  assumes "cache_ok m" "line_of m a = Some l"
  shows "\<exists>m'. reflex_cache_load m a = (Inr (lvalue l), m') \<and> cache_ok m' \<and> view m' = view m
            \<and> vmmu m' = vmmu m \<and> vcache m' \<noteq> None"
proof -
  from assms(2) obtain c where c: "vcache m = Some c" by (auto simp: line_of_def split: option.splits)
  define c' where "c' = c\<lparr>hits := hits c + 1\<rparr>"
  define m' where "m' = m\<lparr>vcache := Some c'\<rparr>"
  have "reflex_cache_load m a = (Inr (lvalue l), m')"
    using assms(2) c by (auto simp: reflex_cache_load_def line_of_def Let_def m'_def c'_def split: if_splits)
  moreover have "cache_ok m'"
    using assms(1) c by (simp add: cache_ok_def m'_def c'_def line_ok_def)
  moreover have "view m' = view m"
    using c by (auto simp: view_cache m'_def c'_def Let_def fun_eq_iff)
  ultimately show ?thesis by (auto simp: m'_def)
qed

lemma load_miss:
  assumes ok: "cache_ok m" and c: "vcache m = Some c" and miss: "line_of m a = None" and a: "mapped (vmmu m) a"
  shows "\<exists>m' w. reflex_cache_load m a = (Inr w, m') \<and> view m a = Some w \<and> cache_ok m' \<and> view m' = view m
            \<and> vmmu m' = vmmu m \<and> vcache m' \<noteq> None"
proof -
  let ?ix = "reflex_cache_get_index a"
  let ?L = "sets c ! ?ix"
  let ?d = "lstate ?L = REFLEX_CACHE_M"
  let ?c1 = "c\<lparr>misses := misses c + 1\<rparr>"
  define c2 where "c2 = (if ?d then ?c1\<lparr>evictions := evictions ?c1 + 1\<rparr> else ?c1)"
  have nm: "\<not> (lstate ?L \<noteq> REFLEX_CACHE_I \<and> tag ?L = a)"
    using miss c by (auto simp: line_of_def Let_def split: if_splits)
  obtain m3 where ev: "(if ?d then write_back (m\<lparr>vcache := Some c2\<rparr>) ?L else Inr (m\<lparr>vcache := Some c2\<rparr>)) = Inr m3"
    and m3: "vmmu m3 = vmmu m" "vcache m3 = Some c2" "host_ok (vmmu m) (host m3)"
      "raw m3 = (if ?d then (raw m)(tag ?L \<mapsto> lvalue ?L) else raw m)"
    using evict_spec [OF ok c get_index_less [of a], of ?d c2] by blast
  from a obtain w where w: "raw m a = Some w" by (cases "raw m a") auto
  have w3: "raw m3 a = Some w" using w nm m3(4) by auto
  let ?l = "\<lparr>tag = a, lstate = REFLEX_CACHE_E, lvalue = w\<rparr>"
  define m' where "m' = m3\<lparr>vcache := Some (put_line c2 ?ix ?l)\<rparr>"
  have "reflex_cache_load m a = (Inr w, m')"
    unfolding reflex_cache_load_def Let_def c option.case if_not_P [OF nm] c2_def [symmetric] ev sum.case
    using w3 m3(1) by (simp add: get_raw_iff m'_def)
  moreover have sets2: "sets c2 = sets c" by (simp add: c2_def)
  have r: "cache_ok m' \<and> view m' = (\<lambda>a'. if reflex_cache_get_index a' = ?ix
            then (if a = a' then Some w else raw m' a') else view m a')"
    using replace_line [OF ok c get_index_less [of a], of m' "put_line c2 ?ix ?l" ?l] m3 w3 a sets2
    by (auto simp: m'_def line_ok_def)
  moreover have "view m' = view m"
  proof
    fix a'
    have "raw m' = raw m3" using m3 by (simp add: m'_def)
    with r w nm c m3(4) cache_okD(3) [OF ok c get_index_less [of a]] show "view m' a' = view m a'"
      by (cases "lstate ?L") (auto simp: view_cache Let_def line_ok_def)
  qed
  moreover have "view m a = Some w" using c nm w by (auto simp: view_cache Let_def)
  ultimately show ?thesis using m3(1) by (auto simp: m'_def)
qed

lemma load_unmapped:
  assumes ok: "cache_ok m" and c: "vcache m = Some c" and a: "\<not> mapped (vmmu m) a"
  shows "\<exists>m'. reflex_cache_load m a = (Inl REFLEX_ERR_NOT_FOUND, m') \<and> vmmu m' = vmmu m"
proof -
  let ?L = "sets c ! reflex_cache_get_index a"
  let ?d = "lstate ?L = REFLEX_CACHE_M"
  let ?c1 = "c\<lparr>misses := misses c + 1\<rparr>"
  define c2 where "c2 = (if ?d then ?c1\<lparr>evictions := evictions ?c1 + 1\<rparr> else ?c1)"
  have nm: "\<not> (lstate ?L \<noteq> REFLEX_CACHE_I \<and> tag ?L = a)"
    using cache_okD(3) [OF ok c get_index_less [of a]] a by (auto simp: line_ok_def)
  obtain m3 where ev: "(if ?d then write_back (m\<lparr>vcache := Some c2\<rparr>) ?L else Inr (m\<lparr>vcache := Some c2\<rparr>)) = Inr m3"
    and m3: "vmmu m3 = vmmu m"
    using evict_spec [OF ok c get_index_less [of a], of ?d c2] by blast
  have "reflex_vm_mem_get_raw (vmmu m3) (host m3) a = Inl REFLEX_ERR_NOT_FOUND" using a m3 by (simp add: get_raw_unmapped)
  then have "reflex_cache_load m a = (Inl REFLEX_ERR_NOT_FOUND, m3)"
    unfolding reflex_cache_load_def Let_def c option.case if_not_P [OF nm] c2_def [symmetric] ev sum.case
    by simp
  with m3 show ?thesis by simp
qed

lemma cache_store_spec:
  assumes ok: "cache_ok m" and c: "vcache m = Some c" and a: "mapped (vmmu m) a"
  shows "\<exists>m'. reflex_cache_store m a w = (Inr (), m') \<and> cache_ok m' \<and> view m' = (view m)(a \<mapsto> w)
            \<and> vmmu m' = vmmu m \<and> vcache m' \<noteq> None"
proof -
  let ?ix = "reflex_cache_get_index a"
  let ?L = "sets c ! ?ix"
  let ?d = "lstate ?L = REFLEX_CACHE_M \<and> tag ?L \<noteq> a"
  let ?l = "\<lparr>tag = a, lstate = REFLEX_CACHE_M, lvalue = w\<rparr>"
  define c2 where "c2 = (if ?d then c\<lparr>evictions := evictions c + 1\<rparr> else c)"
  obtain m3 where ev: "(if ?d then write_back (m\<lparr>vcache := Some c2\<rparr>) ?L else Inr (m\<lparr>vcache := Some c2\<rparr>)) = Inr m3"
    and m3: "vmmu m3 = vmmu m" "vcache m3 = Some c2" "host_ok (vmmu m) (host m3)"
      "raw m3 = (if ?d then (raw m)(tag ?L \<mapsto> lvalue ?L) else raw m)"
    using evict_spec [OF ok c get_index_less [of a], of ?d c2] by blast
  define m' where "m' = m3\<lparr>vcache := Some (put_line c2 ?ix ?l)\<rparr>"
  have st: "reflex_cache_store m a w = (Inr (), m')"
    unfolding reflex_cache_store_def Let_def c option.case c2_def [symmetric] ev sum.case m'_def ..
  have sets2: "sets c2 = sets c" by (simp add: c2_def)
  have r: "cache_ok m' \<and> view m' = (\<lambda>a'. if reflex_cache_get_index a' = ?ix
            then (if a = a' then Some w else raw m' a') else view m a')"
    using replace_line [OF ok c get_index_less [of a], of m' "put_line c2 ?ix ?l" ?l] m3 a sets2
    by (auto simp: m'_def line_ok_def)
  have "view m' a' = ((view m)(a \<mapsto> w)) a'" for a'
  proof -
    have "raw m' = raw m3" using m3 by (simp add: m'_def)
    with r c m3(4) cache_okD(3) [OF ok c get_index_less [of a]] show ?thesis
      by (cases "lstate ?L") (auto simp: view_cache Let_def line_ok_def)
  qed
  with st r m3(1) show ?thesis by (auto simp: m'_def)
qed

text \<open>
  Cleaning one line, as flush does for the line of an address and \<open>flush_all\<close> for each
  index: memory receives the word, the view does not change.
\<close>

lemma clean_line:
  assumes ok: "cache_ok m" and c: "vcache m = Some c" and ix: "ix < REFLEX_CACHE_SET_COUNT"
    and M: "lstate (sets c ! ix) = REFLEX_CACHE_M"
  shows "\<exists>m2. write_back m (sets c ! ix) = Inr m2 \<and> vmmu m2 = vmmu m
    \<and> raw m2 = (raw m)(tag (sets c ! ix) \<mapsto> lvalue (sets c ! ix))
    \<and> cache_ok (m2\<lparr>vcache := Some (put_line c ix ((sets c ! ix)\<lparr>lstate := REFLEX_CACHE_E\<rparr>))\<rparr>)
    \<and> view (m2\<lparr>vcache := Some (put_line c ix ((sets c ! ix)\<lparr>lstate := REFLEX_CACHE_E\<rparr>))\<rparr>) = view m"
proof -
  let ?L = "sets c ! ix"
  let ?l = "?L\<lparr>lstate := REFLEX_CACHE_E\<rparr>"
  note Lok = cache_okD(3) [OF ok c ix]
  from M Lok have mp: "mapped (vmmu m) (tag ?L)" by (simp add: line_ok_def)
  obtain h where h: "write_back m ?L = Inr (m\<lparr>host := h\<rparr>)" "host_ok (vmmu m) h"
    "mem_read (vmmu m) h = (raw m)(tag ?L \<mapsto> lvalue ?L)"
    using write_back_spec [OF cache_okD(1) [OF ok] mp] by blast
  define m' where "m' = m\<lparr>host := h, vcache := Some (put_line c ix ?l)\<rparr>"
  have r: "cache_ok m' \<and> view m' = (\<lambda>a'. if reflex_cache_get_index a' = ix
            then (if tag ?L = a' then Some (lvalue ?L) else raw m' a') else view m a')"
    using replace_line [OF ok c ix, of m' "put_line c ix ?l" ?l] h mp M Lok
    by (auto simp: m'_def line_ok_def)
  have "view m' a' = view m a'" for a'
  proof -
    have "raw m' = (raw m)(tag ?L \<mapsto> lvalue ?L)" using h by (simp add: m'_def)
    with r c M show ?thesis by (auto simp: view_cache Let_def)
  qed
  then have "view m' = view m" by blast
  with h r show ?thesis by (simp add: m'_def)
qed

lemma cache_flush_spec:
  assumes ok: "cache_ok m" and c: "vcache m = Some c"
  shows "\<exists>m'. reflex_cache_flush m a = (Inr (), m') \<and> cache_ok m' \<and> view m' = view m
            \<and> vmmu m' = vmmu m \<and> vcache m' \<noteq> None \<and> raw m' a = view m a"
proof (cases "lstate (sets c ! reflex_cache_get_index a) = REFLEX_CACHE_M \<and> tag (sets c ! reflex_cache_get_index a) = a")
  case False
  then have "reflex_cache_flush m a = (Inr (), m)"
    using c by (auto simp: reflex_cache_flush_def Let_def)
  moreover have "raw m a = view m a"
    using False c cache_okD(3) [OF ok c get_index_less [of a]]
    by (cases "lstate (sets c ! reflex_cache_get_index a)") (auto simp: view_cache Let_def line_ok_def)
  ultimately show ?thesis using ok c by auto
next
  case True
  let ?ix = "reflex_cache_get_index a"
  from True obtain m2 where m2: "write_back m (sets c ! ?ix) = Inr m2" "vmmu m2 = vmmu m"
      "raw m2 = (raw m)(tag (sets c ! ?ix) \<mapsto> lvalue (sets c ! ?ix))"
    and ok2: "cache_ok (m2\<lparr>vcache := Some (put_line c ?ix ((sets c ! ?ix)\<lparr>lstate := REFLEX_CACHE_E\<rparr>))\<rparr>)"
      "view (m2\<lparr>vcache := Some (put_line c ?ix ((sets c ! ?ix)\<lparr>lstate := REFLEX_CACHE_E\<rparr>))\<rparr>) = view m"
    using clean_line [OF ok c get_index_less [of a]] by blast
  have "view m a = Some (lvalue (sets c ! ?ix))" using c True by (simp add: view_cache)
  with c m2 ok2 True show ?thesis by (simp add: reflex_cache_flush_def Let_def)
qed

lemma cache_invalidate_spec:
  assumes ok: "cache_ok m" and c: "vcache m = Some c"
  shows "\<exists>m'. reflex_cache_invalidate m a = (Inr (), m') \<and> cache_ok m' \<and> view m' = (view m)(a := raw m a)
            \<and> vmmu m' = vmmu m \<and> host m' = host m \<and> vcache m' \<noteq> None"
proof (cases "tag (sets c ! reflex_cache_get_index a) = a")
  case False
  then have "reflex_cache_invalidate m a = (Inr (), m)" "view m a = raw m a"
    using c by (auto simp: reflex_cache_invalidate_def Let_def view_cache)
  with ok c show ?thesis by (metis fun_upd_triv option.distinct(1))
next
  case True
  let ?ix = "reflex_cache_get_index a"
  let ?l = "(sets c ! ?ix)\<lparr>lstate := REFLEX_CACHE_I\<rparr>"
  define m' where "m' = m\<lparr>vcache := Some (put_line c ?ix ?l)\<rparr>"
  have i: "reflex_cache_invalidate m a = (Inr (), m')"
    using c True by (simp add: reflex_cache_invalidate_def Let_def m'_def)
  have r: "cache_ok m' \<and> view m' = (\<lambda>a'. if reflex_cache_get_index a' = ?ix then raw m' a' else view m a')"
    using replace_line [OF ok c get_index_less [of a], of m' "put_line c ?ix ?l" ?l] cache_okD(1) [OF ok]
    by (auto simp: m'_def line_ok_def)
  have "view m' a' = ((view m)(a := raw m a)) a'" for a'
    using r c True by (cases "reflex_cache_get_index a' = ?ix") (auto simp: view_cache Let_def m'_def)
  with i r show ?thesis by (auto simp: m'_def)
qed

lemma flush_invalidate_spec:
  assumes ok: "cache_ok m" and c: "vcache m = Some c"
  shows "\<exists>m'. reflex_cache_flush_invalidate m a = (Inr (), m') \<and> cache_ok m' \<and> view m' = view m
            \<and> vmmu m' = vmmu m \<and> vcache m' \<noteq> None"
proof -
  from cache_flush_spec [OF ok c, of a] obtain m1 c1
    where m1: "reflex_cache_flush m a = (Inr (), m1)" "cache_ok m1" "view m1 = view m" "vmmu m1 = vmmu m"
      "vcache m1 = Some c1" "raw m1 a = view m a" by auto
  from cache_invalidate_spec [OF m1(2,5), of a] obtain m2 where "reflex_cache_invalidate m1 a = (Inr (), m2)"
    "cache_ok m2" "view m2 = (view m1)(a := raw m1 a)" "vmmu m2 = vmmu m1" "vcache m2 \<noteq> None" by blast
  with m1 show ?thesis by (simp add: reflex_cache_flush_invalidate_def)
qed


lemma flush_lines_spec:
  "\<lbrakk> cache_ok m; vcache m = Some c; i + n = REFLEX_CACHE_SET_COUNT;
     \<forall>j < i. lstate (sets c ! j) \<noteq> REFLEX_CACHE_M \<rbrakk>
   \<Longrightarrow> \<exists>m' c'. flush_lines m c i n = (Inr (), m') \<and> cache_ok m' \<and> view m' = view m \<and> vmmu m' = vmmu m
        \<and> vcache m' = Some c' \<and> (\<forall>j < REFLEX_CACHE_SET_COUNT. lstate (sets c' ! j) \<noteq> REFLEX_CACHE_M)"
proof (induction n arbitrary: m c i)
  case 0
  then show ?case by simp
next
  case (Suc n)
  then have i: "i < REFLEX_CACHE_SET_COUNT" by simp
  have len: "length (sets c) = REFLEX_CACHE_SET_COUNT" using cache_okD(2) [OF Suc.prems(1,2)] .
  show ?case
  proof (cases "lstate (sets c ! i) = REFLEX_CACHE_M")
    case False
    with Suc.prems have "\<forall>j < Suc i. lstate (sets c ! j) \<noteq> REFLEX_CACHE_M" by (auto simp: less_Suc_eq)
    with Suc.IH [of m c "Suc i"] Suc.prems False show ?thesis by simp
  next
    case True
    let ?c2 = "put_line c i ((sets c ! i)\<lparr>lstate := REFLEX_CACHE_E\<rparr>)"
    obtain m2 where m2: "write_back m (sets c ! i) = Inr m2" "vmmu m2 = vmmu m"
      "cache_ok (m2\<lparr>vcache := Some ?c2\<rparr>)" "view (m2\<lparr>vcache := Some ?c2\<rparr>) = view m"
      using clean_line [OF Suc.prems(1,2) i True] by blast
    have "\<forall>j < Suc i. lstate (sets ?c2 ! j) \<noteq> REFLEX_CACHE_M"
      using Suc.prems(4) len i by (auto simp: less_Suc_eq)
    with Suc.IH [of "m2\<lparr>vcache := Some ?c2\<rparr>" ?c2 "Suc i"] Suc.prems(3) m2 True show ?thesis by (simp add: Let_def)
  qed
qed

lemma clean_view_raw:
  assumes "cache_ok m" "vcache m = Some c" "\<forall>j < REFLEX_CACHE_SET_COUNT. lstate (sets c ! j) \<noteq> REFLEX_CACHE_M"
  shows "raw m = view m"
proof
  fix a
  from assms(3) have "lstate (sets c ! reflex_cache_get_index a) \<noteq> REFLEX_CACHE_M" by simp
  with cache_okD(3) [OF assms(1,2) get_index_less [of a]] assms(2) show "raw m a = view m a"
    by (cases "lstate (sets c ! reflex_cache_get_index a)") (auto simp: view_cache Let_def line_ok_def)
qed

lemma cache_flush_all_spec:
  assumes "cache_ok m" "vcache m = Some c"
  shows "\<exists>m'. reflex_cache_flush_all m = (Inr (), m') \<and> cache_ok m' \<and> view m' = view m \<and> vmmu m' = vmmu m
           \<and> raw m' = view m"
proof -
  obtain m' c' where "flush_lines m c 0 REFLEX_CACHE_SET_COUNT = (Inr (), m')" "cache_ok m'" "view m' = view m"
    "vmmu m' = vmmu m" "vcache m' = Some c'" "\<forall>j < REFLEX_CACHE_SET_COUNT. lstate (sets c' ! j) \<noteq> REFLEX_CACHE_M"
    using flush_lines_spec [OF assms, of 0 REFLEX_CACHE_SET_COUNT] by auto
  then show ?thesis using clean_view_raw [of m' c'] assms(2) by (simp add: reflex_cache_flush_all_def)
qed

lemma host_write_spec:
  assumes ok: "cache_ok m" and a: "mapped (vmmu m) a"
  shows "\<exists>m'. reflex_vm_host_write m a w = (Inr (), m') \<and> cache_ok m' \<and> vmmu m' = vmmu m
           \<and> view m' = (view m)(a \<mapsto> w)"
proof -
  obtain h where h: "reflex_vm_mem_set_raw (vmmu m) (host m) a w = Inr h" "host_ok (vmmu m) h"
    "mem_read (vmmu m) h = (raw m)(a \<mapsto> w)"
    using set_raw_mapped [OF cache_okD(1) [OF ok] a] by blast
  show ?thesis
  proof (cases "vcache m")
    case None
    with h show ?thesis by (simp add: reflex_vm_host_write_def Let_def cache_ok_def)
  next
    case (Some c)
    let ?ix = "reflex_cache_get_index a"
    let ?L = "sets c ! ?ix"
    let ?l = "if tag ?L = a then ?L\<lparr>lstate := REFLEX_CACHE_I\<rparr> else ?L"
    let ?c' = "if tag ?L = a then put_line c ?ix ?l else c"
    define m' where "m' = m\<lparr>host := h, vcache := Some ?c'\<rparr>"
    have w: "reflex_vm_host_write m a w = (Inr (), m')"
      using h Some by (cases m) (auto simp: reflex_vm_host_write_def reflex_cache_invalidate_def Let_def m'_def)
    have r: "cache_ok m' \<and> view m' = (\<lambda>a'. if reflex_cache_get_index a' = ?ix
            then (if lstate ?l \<noteq> REFLEX_CACHE_I \<and> tag ?l = a' then Some (lvalue ?l) else raw m' a') else view m a')"
      by (rule replace_line_gen [OF ok Some get_index_less [of a], of m' ?c' ?l])
        (use h cache_okD(3) [OF ok Some get_index_less [of a]] in \<open>auto simp: m'_def line_ok_def\<close>)
    have "view m' a' = ((view m)(a \<mapsto> w)) a'" for a'
      using r Some h by (auto simp: view_cache Let_def m'_def)
    with w r show ?thesis by (auto simp: m'_def)
  qed
qed

section \<open>The memory interface of the interpreter\<close>

text \<open>What TLD and TST do with the optional cache.\<close>

definition vm_mem_load :: "vmem \<Rightarrow> nat \<Rightarrow> word18 result \<times> vmem" where
  "vm_mem_load m addr =
     (if vcache m \<noteq> None then reflex_cache_load m addr
      else (reflex_vm_mem_get_raw (vmmu m) (host m) addr, m))"

definition vm_mem_store :: "vmem \<Rightarrow> nat \<Rightarrow> word18 \<Rightarrow> unit result \<times> vmem" where
  "vm_mem_store m addr w =
     (if vcache m \<noteq> None then reflex_cache_store m addr w
      else case reflex_vm_mem_set_raw (vmmu m) (host m) addr w of
             Inl e \<Rightarrow> (Inl e, m)
           | Inr h \<Rightarrow> (Inr (), m\<lparr>host := h\<rparr>))"

text \<open>
  A program's memory traffic, and what it should see of a flat memory: the words loaded
  and the memory left.
\<close>

datatype mem_op = MLoad nat | MStore nat word18

fun run_mem :: "('m \<Rightarrow> nat \<Rightarrow> word18 result \<times> 'm) \<Rightarrow> ('m \<Rightarrow> nat \<Rightarrow> word18 \<Rightarrow> unit result \<times> 'm)
    \<Rightarrow> 'm \<Rightarrow> mem_op list \<Rightarrow> word18 list result \<times> 'm" where
  "run_mem ld st m [] = (Inr [], m)"
| "run_mem ld st m (MLoad a # ops) =
     (case ld m a of
        (Inl e, m1) \<Rightarrow> (Inl e, m1)
      | (Inr w, m1) \<Rightarrow> (case run_mem ld st m1 ops of
            (Inl e, m2) \<Rightarrow> (Inl e, m2)
          | (Inr ws, m2) \<Rightarrow> (Inr (w # ws), m2)))"
| "run_mem ld st m (MStore a w # ops) =
     (case st m a w of
        (Inl e, m1) \<Rightarrow> (Inl e, m1)
      | (Inr _, m1) \<Rightarrow> run_mem ld st m1 ops)"

fun flat_run :: "(nat \<Rightarrow> word18 option) \<Rightarrow> mem_op list \<Rightarrow> word18 list" where
  "flat_run f [] = []"
| "flat_run f (MLoad a # ops) = the (f a) # flat_run f ops"
| "flat_run f (MStore a w # ops) = flat_run (f(a \<mapsto> w)) ops"

fun flat_mem :: "(nat \<Rightarrow> word18 option) \<Rightarrow> mem_op list \<Rightarrow> nat \<Rightarrow> word18 option" where
  "flat_mem f [] = f"
| "flat_mem f (MLoad a # ops) = flat_mem f ops"
| "flat_mem f (MStore a w # ops) = flat_mem (f(a \<mapsto> w)) ops"

fun mem_op_addr :: "mem_op \<Rightarrow> nat" where
  "mem_op_addr (MLoad a) = a"
| "mem_op_addr (MStore a w) = a"

text \<open>The contract the interpreter needs of its memory, cached or not.\<close>

locale vm_memory =
  fixes ld :: "'m \<Rightarrow> nat \<Rightarrow> word18 result \<times> 'm"
    and st :: "'m \<Rightarrow> nat \<Rightarrow> word18 \<Rightarrow> unit result \<times> 'm"
    and vw :: "'m \<Rightarrow> nat \<Rightarrow> word18 option"
    and inv :: "'m \<Rightarrow> bool"
  assumes ld_ok: "inv m \<Longrightarrow> vw m a = Some w \<Longrightarrow> \<exists>m'. ld m a = (Inr w, m') \<and> inv m' \<and> vw m' = vw m"
    and st_ok: "inv m \<Longrightarrow> vw m a \<noteq> None \<Longrightarrow> \<exists>m'. st m a w = (Inr (), m') \<and> inv m' \<and> vw m' = (vw m)(a \<mapsto> w)"
begin

lemma run_mem_flat:
  "\<lbrakk> inv m; \<forall>x \<in> set ops. vw m (mem_op_addr x) \<noteq> None \<rbrakk> \<Longrightarrow>
   \<exists>m'. run_mem ld st m ops = (Inr (flat_run (vw m) ops), m') \<and> inv m' \<and> vw m' = flat_mem (vw m) ops"
proof (induction ops arbitrary: m)
  case (Cons x ops)
  show ?case
  proof (cases x)
    case (MLoad a)
    with Cons.prems obtain w where w: "vw m a = Some w" by auto
    from ld_ok [OF Cons.prems(1) w] obtain m1 where m1: "ld m a = (Inr w, m1)" "inv m1" "vw m1 = vw m" by blast
    with Cons.IH [OF m1(2)] Cons.prems MLoad w show ?thesis by auto
  next
    case (MStore a w)
    with Cons.prems have "vw m a \<noteq> None" by simp
    from st_ok [OF Cons.prems(1) this] obtain m1
      where m1: "st m a w = (Inr (), m1)" "inv m1" "vw m1 = (vw m)(a \<mapsto> w)" by blast
    then have "\<forall>x \<in> set ops. vw m1 (mem_op_addr x) \<noteq> None" using Cons.prems(2) by simp
    note IH = Cons.IH [OF m1(2) this, unfolded m1(3)]
    from IH show ?thesis unfolding MStore using m1(1) by (simp del: fun_upd_apply)
  qed
qed simp

end

lemma vm_mem_load_spec:
  assumes ok: "cache_ok m" and a: "view m a = Some w"
  shows "\<exists>m'. vm_mem_load m a = (Inr w, m') \<and> cache_ok m' \<and> view m' = view m \<and> vmmu m' = vmmu m
           \<and> (vcache m' = None \<longleftrightarrow> vcache m = None)"
proof (cases "vcache m")
  case None
  with a ok show ?thesis by (simp add: vm_mem_load_def get_raw_iff)
next
  case (Some c)
  show ?thesis
  proof (cases "line_of m a")
    case None
    have "mapped (vmmu m) a" using a view_None [OF ok, of a] by simp
    from load_miss [OF ok Some None this] Some a show ?thesis by (auto simp: vm_mem_load_def)
  next
    case (Some l)
    from load_hit [OF ok Some] \<open>vcache m = Some c\<close> a Some show ?thesis
      by (auto simp: vm_mem_load_def view_def)
  qed
qed

lemma vm_mem_store_spec:
  assumes ok: "cache_ok m" and a: "view m a \<noteq> None"
  shows "\<exists>m'. vm_mem_store m a w = (Inr (), m') \<and> cache_ok m' \<and> view m' = (view m)(a \<mapsto> w) \<and> vmmu m' = vmmu m
           \<and> (vcache m' = None \<longleftrightarrow> vcache m = None)"
proof (cases "vcache m")
  case (Some c)
  have "mapped (vmmu m) a" using a view_None [OF ok, of a] by simp
  from cache_store_spec [OF ok Some this, of w] Some show ?thesis by (auto simp: vm_mem_store_def)
next
  case None
  have mp: "mapped (vmmu m) a" using a view_None [OF ok, of a] by simp
  obtain h where "reflex_vm_mem_set_raw (vmmu m) (host m) a w = Inr h" "host_ok (vmmu m) h"
    "mem_read (vmmu m) h = (raw m)(a \<mapsto> w)"
    using set_raw_mapped [OF cache_okD(1) [OF ok] mp] by blast
  with None show ?thesis by (simp add: vm_mem_store_def cache_ok_def)
qed

interpretation cached: vm_memory vm_mem_load vm_mem_store view "\<lambda>m. cache_ok m \<and> vcache m \<noteq> None \<and> vmmu m = mm"
  by unfold_locales (use vm_mem_load_spec vm_mem_store_spec in fastforce)+

interpretation direct: vm_memory vm_mem_load vm_mem_store view "\<lambda>m. cache_ok m \<and> vcache m = None \<and> vmmu m = mm"
  by unfold_locales (use vm_mem_load_spec vm_mem_store_spec in fastforce)+

text \<open>
  C2: the soft cache is invisible to a program. A sequence of loads and stores on mapped
  addresses reads exactly the same words through a fresh cache as directly through the MMU,
  and flushing the cache afterwards leaves in host memory exactly what the direct run left
  there. No load or store of either run fails.
\<close>

theorem cache_transparent:
  assumes "host_ok mm h" and "\<forall>x \<in> set ops. mapped mm (mem_op_addr x)"
  shows "\<exists>ws md mc mf.
     run_mem vm_mem_load vm_mem_store \<lparr>vmmu = mm, host = h, vcache = None\<rparr> ops = (Inr ws, md)
     \<and> run_mem vm_mem_load vm_mem_store \<lparr>vmmu = mm, host = h, vcache = Some reflex_cache_init\<rparr> ops = (Inr ws, mc)
     \<and> reflex_cache_flush_all mc = (Inr (), mf)
     \<and> mem_read mm (host mf) = mem_read mm (host md)"
proof -
  let ?d = "\<lparr>vmmu = mm, host = h, vcache = None\<rparr>"
  let ?c = "\<lparr>vmmu = mm, host = h, vcache = Some reflex_cache_init\<rparr>"
  have vd: "view ?d = mem_read mm h" by simp
  have vc: "view ?c = mem_read mm h"
    by (rule ext) (simp add: view_cache reflex_cache_init_def)
  have okd: "cache_ok ?d \<and> vcache ?d = None \<and> vmmu ?d = mm" using assms(1) by (simp add: cache_ok_def)
  have okc: "cache_ok ?c \<and> vcache ?c \<noteq> None \<and> vmmu ?c = mm"
    using assms(1) by (simp add: cache_ok_def reflex_cache_init_def line_ok_def)
  have "\<forall>x \<in> set ops. view ?d (mem_op_addr x) \<noteq> None" "\<forall>x \<in> set ops. view ?c (mem_op_addr x) \<noteq> None"
    using assms(2) by (simp_all add: vd vc)
  with direct.run_mem_flat [OF okd] cached.run_mem_flat [OF okc] obtain md mc
    where md: "run_mem vm_mem_load vm_mem_store ?d ops = (Inr (flat_run (mem_read mm h) ops), md)"
      "cache_ok md \<and> vcache md = None \<and> vmmu md = mm" "view md = flat_mem (mem_read mm h) ops"
    and mc: "run_mem vm_mem_load vm_mem_store ?c ops = (Inr (flat_run (mem_read mm h) ops), mc)"
      "cache_ok mc \<and> vcache mc \<noteq> None \<and> vmmu mc = mm" "view mc = flat_mem (mem_read mm h) ops"
    unfolding vd vc by blast
  from mc(2) obtain c where c: "vcache mc = Some c" by blast
  obtain mf where "reflex_cache_flush_all mc = (Inr (), mf)" "raw mf = view mc" "vmmu mf = vmmu mc"
    using cache_flush_all_spec [of mc c] mc(2) c by auto
  then show ?thesis using md mc by force
qed

theorem cache_transparent_witness:
  "\<exists>ws md mc mf.
     run_mem vm_mem_load vm_mem_store \<lparr>vmmu = \<lparr>regions = [\<lparr>buffer = 1, rlength = 40, rtype = REFLEX_MEM_PRIVATE, base_addr = 0\<rparr>]\<rparr>,
        host = (\<lambda>_. replicate 40 reflex_word18_zero), vcache = None\<rparr>
        [MStore 3 (replicate 18 1), MStore 19 (replicate 18 0), MLoad 3] = (Inr ws, md)
     \<and> run_mem vm_mem_load vm_mem_store \<lparr>vmmu = \<lparr>regions = [\<lparr>buffer = 1, rlength = 40, rtype = REFLEX_MEM_PRIVATE, base_addr = 0\<rparr>]\<rparr>,
        host = (\<lambda>_. replicate 40 reflex_word18_zero), vcache = Some reflex_cache_init\<rparr>
        [MStore 3 (replicate 18 1), MStore 19 (replicate 18 0), MLoad 3] = (Inr ws, mc)
     \<and> reflex_cache_flush_all mc = (Inr (), mf)
     \<and> mem_read \<lparr>regions = [\<lparr>buffer = 1, rlength = 40, rtype = REFLEX_MEM_PRIVATE, base_addr = 0\<rparr>]\<rparr> (host mf)
        = mem_read \<lparr>regions = [\<lparr>buffer = 1, rlength = 40, rtype = REFLEX_MEM_PRIVATE, base_addr = 0\<rparr>]\<rparr> (host md)"
  by (rule cache_transparent) (auto simp: host_ok_def mapped_def in_region_def)

text \<open>
  host-initiated writes stay coherent. After \<open>reflex_vm_host_write\<close> the program reads
  the written word at that address, cached or not, and every other address reads as before,
  whatever dirty lines the cache held.
\<close>

theorem host_write_coherent:
  assumes "cache_ok m" "mapped (vmmu m) a"
  shows "\<exists>m' m''. reflex_vm_host_write m a w = (Inr (), m') \<and> cache_ok m'
           \<and> view m' = (view m)(a \<mapsto> w) \<and> vm_mem_load m' a = (Inr w, m'')"
proof -
  obtain m' where m': "reflex_vm_host_write m a w = (Inr (), m')" "cache_ok m'" "view m' = (view m)(a \<mapsto> w)"
    using host_write_spec [OF assms] by blast
  with vm_mem_load_spec [OF m'(2), of a w] show ?thesis by auto
qed

theorem host_write_coherent_witness:
  "\<exists>m' m''. reflex_vm_host_write \<lparr>vmmu = \<lparr>regions = [\<lparr>buffer = 1, rlength = 40, rtype = REFLEX_MEM_SHARED, base_addr = 0\<rparr>]\<rparr>,
        host = (\<lambda>_. replicate 40 reflex_word18_zero), vcache = Some reflex_cache_init\<rparr> 5 (replicate 18 1) = (Inr (), m')
      \<and> vm_mem_load m' 5 = (Inr (replicate 18 1), m'')"
  using host_write_coherent [where a = 5 and w = "replicate 18 1" and
      m = "\<lparr>vmmu = \<lparr>regions = [\<lparr>buffer = 1, rlength = 40, rtype = REFLEX_MEM_SHARED, base_addr = 0\<rparr>]\<rparr>,
        host = (\<lambda>_. replicate 40 reflex_word18_zero), vcache = Some reflex_cache_init\<rparr>"]
  by (fastforce simp: cache_ok_def host_ok_def mapped_def in_region_def reflex_cache_init_def line_ok_def)

end
