(* ===== verification/KQueue.thy ===== *)
theory KQueue imports Reflex_Prelude begin

text \<open>
  The kernel's fixed-capacity message queue: kernel/reflex_kqueue.c and
  kernel/reflex_kqueue.h. A ring of \<open>qlength\<close> slots with a write index \<open>head\<close>, a read index
  \<open>tail\<close> and a fill \<open>count\<close>, allocated from a static pool of sixteen control blocks.

  A slot holds one item: the code copies exactly \<open>item_size\<close> bytes at \<open>slot * item_size\<close>, so
  slots never overlap and the byte array is a list of items. Storage None is the NULL
  pointer; what \<open>malloc\<close> answers is an argument of the creation. The counters are 32-bit in
  the code and naturals here: \<open>queue_ok\<close> keeps head, tail and count at most \<open>qlength\<close>, itself
  a 32-bit value, and a head below the capacity plus one does not wrap.
\<close>

section \<open>Control blocks and the pool\<close>

record 'a reflex_kqueue =
  storage :: "'a list option"
  qlength :: nat
  item_size :: nat
  count :: nat
  head :: nat
  tail :: nat
  in_use :: bool

definition REFLEX_KQUEUE_MAX :: nat where "REFLEX_KQUEUE_MAX = 16"

definition KQ_UINT32_MAX :: nat where "KQ_UINT32_MAX = 4294967295"

text \<open>The zeroed block of the static pool, and of \<open>reflex_kqueue_destroy\<close>.\<close>

definition kqueue_zero :: "'a reflex_kqueue" where
  "kqueue_zero = \<lparr>storage = None, qlength = 0, item_size = 0, count = 0, head = 0, tail = 0, in_use = False\<rparr>"

fun first_free :: "'a reflex_kqueue list \<Rightarrow> nat \<Rightarrow> nat option" where
  "first_free [] i = None"
| "first_free (q # qs) i = (if \<not> in_use q then Some i else first_free qs (Suc i))"

definition reflex_kqueue_create ::
    "'a list option \<Rightarrow> 'a reflex_kqueue list \<Rightarrow> nat \<Rightarrow> nat \<Rightarrow> nat option \<times> 'a reflex_kqueue list" where
  "reflex_kqueue_create malloc pool len isz =
     (if len = 0 \<or> isz = 0 then (None, pool)
      else if len > KQ_UINT32_MAX div isz then (None, pool)
      else case first_free pool 0 of
        None \<Rightarrow> (None, pool)
      | Some i \<Rightarrow>
          (case malloc of
             None \<Rightarrow> (None, pool)
           | Some mem \<Rightarrow> (Some i, pool[i := \<lparr>storage = Some mem, qlength = len, item_size = isz,
                 count = 0, head = 0, tail = 0, in_use = True\<rparr>])))"

section \<open>Ring operations\<close>

text \<open>The queue pointer is an option: NULL is a legal argument of every operation.\<close>

definition reflex_kqueue_destroy :: "'a reflex_kqueue option \<Rightarrow> 'a reflex_kqueue option" where
  "reflex_kqueue_destroy q = (case q of None \<Rightarrow> None | Some _ \<Rightarrow> Some kqueue_zero)"

definition reflex_kqueue_try_send ::
    "'a reflex_kqueue option \<Rightarrow> 'a option \<Rightarrow> bool \<times> 'a reflex_kqueue option" where
  "reflex_kqueue_try_send q item =
     (case q of
        None \<Rightarrow> (False, q)
      | Some k \<Rightarrow>
          (case storage k of
             None \<Rightarrow> (False, q)
           | Some mem \<Rightarrow>
               (case item of
                  None \<Rightarrow> (False, q)
                | Some x \<Rightarrow>
                    if count k \<ge> qlength k then (False, q)
                    else (True, Some (k\<lparr>storage := Some (mem[head k := x]),
                                        head := (head k + 1) mod qlength k,
                                        count := count k + 1\<rparr>)))))"

text \<open>The boolean argument says whether the caller supplied a buffer; without one the head is discarded.\<close>

definition reflex_kqueue_try_recv ::
    "'a reflex_kqueue option \<Rightarrow> bool \<Rightarrow> bool \<times> 'a option \<times> 'a reflex_kqueue option" where
  "reflex_kqueue_try_recv q wants =
     (case q of
        None \<Rightarrow> (False, None, q)
      | Some k \<Rightarrow>
          (case storage k of
             None \<Rightarrow> (False, None, q)
           | Some mem \<Rightarrow>
               if count k = 0 then (False, None, q)
               else (True, (if wants then Some (mem ! tail k) else None),
                     Some (k\<lparr>tail := (tail k + 1) mod qlength k, count := count k - 1\<rparr>))))"

definition reflex_kqueue_count :: "'a reflex_kqueue option \<Rightarrow> nat" where
  "reflex_kqueue_count q = (case q of None \<Rightarrow> 0 | Some k \<Rightarrow> count k)"

definition reflex_kqueue_is_full :: "'a reflex_kqueue option \<Rightarrow> bool" where
  "reflex_kqueue_is_full q = (case q of None \<Rightarrow> True | Some k \<Rightarrow> count k \<ge> qlength k)"

definition reflex_kqueue_is_empty :: "'a reflex_kqueue option \<Rightarrow> bool" where
  "reflex_kqueue_is_empty q = (case q of None \<Rightarrow> True | Some k \<Rightarrow> count k = 0)"

definition reflex_kqueue_reset :: "'a reflex_kqueue option \<Rightarrow> 'a reflex_kqueue option" where
  "reflex_kqueue_reset q = (case q of None \<Rightarrow> None | Some k \<Rightarrow> Some (k\<lparr>count := 0, head := 0, tail := 0\<rparr>))"

section \<open>Invariant and abstraction\<close>

definition queue_ok :: "'a reflex_kqueue \<Rightarrow> bool" where
  "queue_ok k \<longleftrightarrow> in_use k \<and> 0 < qlength k \<and> qlength k \<le> KQ_UINT32_MAX \<and> count k \<le> qlength k
     \<and> tail k < qlength k \<and> head k = (tail k + count k) mod qlength k
     \<and> (case storage k of None \<Rightarrow> False | Some mem \<Rightarrow> length mem = qlength k)"

text \<open>The items held, oldest first.\<close>

definition contents :: "'a reflex_kqueue \<Rightarrow> 'a list" where
  "contents k = (case storage k of
       None \<Rightarrow> []
     | Some mem \<Rightarrow> map (\<lambda>i. mem ! ((tail k + i) mod qlength k)) [0..<count k])"

lemma ring_index_inj:
  assumes "i < n" "j < n" "(t + i) mod n = (t + j) mod (n::nat)" shows "i = j"
proof -
  have *: "i = j" if "i \<le> j" "i < n" "j < n" "(t + i) mod n = (t + j) mod n" for i j :: nat
  proof -
    from that(1,4) have "n dvd (t + j) - (t + i)" using mod_eq_dvd_iff_nat [of "t + i" "t + j" n] by simp
    then have "n dvd j - i" by simp
    with that(3) show ?thesis using that(1) by (auto dest: dvd_imp_le)
  qed
  from assms * [of i j] * [of j i] show ?thesis by (cases "i \<le> j") auto
qed

lemma contents_length: "queue_ok k \<Longrightarrow> length (contents k) = count k"
  by (auto simp: contents_def queue_ok_def split: option.splits)

lemma queue_ok_count: "queue_ok k \<Longrightarrow> count k \<le> qlength k"
  by (simp add: queue_ok_def)

text \<open>Creation hands out an empty, well-formed queue in a block that was free.\<close>

lemma first_free_Some: "first_free qs j = Some i \<Longrightarrow> j \<le> i \<and> i - j < length qs \<and> \<not> in_use (qs ! (i - j))"
proof (induction qs arbitrary: j)
  case (Cons q qs)
  show ?case
  proof (cases "in_use q")
    case True
    with Cons have "Suc j \<le> i \<and> i - Suc j < length qs \<and> \<not> in_use (qs ! (i - Suc j))" by simp
    moreover from this have "i - j = Suc (i - Suc j)" by arith
    ultimately show ?thesis by simp
  next
    case False
    with Cons.prems show ?thesis by simp
  qed
qed simp

lemma create_ok:
  assumes "reflex_kqueue_create malloc pool len isz = (Some i, pool')"
    and "\<And>mem. malloc = Some mem \<Longrightarrow> length mem = len" and "len \<le> KQ_UINT32_MAX"
  shows "i < length pool \<and> \<not> in_use (pool ! i) \<and> length pool' = length pool
    \<and> (\<forall>j < length pool. j \<noteq> i \<longrightarrow> pool' ! j = pool ! j)
    \<and> queue_ok (pool' ! i) \<and> contents (pool' ! i) = [] \<and> qlength (pool' ! i) = len"
proof -
  from assms(1) obtain mem where m: "malloc = Some mem" "first_free pool 0 = Some i" "len > 0"
    and p: "pool' = pool[i := \<lparr>storage = Some mem, qlength = len, item_size = isz,
                 count = 0, head = 0, tail = 0, in_use = True\<rparr>]"
    by (auto simp: reflex_kqueue_create_def split: if_splits option.splits)
  with first_free_Some [OF m(2)] assms(2) [OF m(1)] assms(3) show ?thesis
    by (auto simp: queue_ok_def contents_def)
qed

lemma send_ok:
  assumes ok: "queue_ok k" and room: "length (contents k) < qlength k"
  shows "\<exists>k'. reflex_kqueue_try_send (Some k) (Some x) = (True, Some k') \<and> queue_ok k'
            \<and> contents k' = contents k @ [x] \<and> qlength k' = qlength k"
proof -
  from ok obtain mem where mem: "storage k = Some mem" "length mem = qlength k"
    by (auto simp: queue_ok_def split: option.splits)
  have c: "count k < qlength k" using ok room by (simp add: contents_length)
  have n: "0 < qlength k" and t: "tail k < qlength k" and h: "head k = (tail k + count k) mod qlength k"
    using ok by (auto simp: queue_ok_def)
  define k' where "k' = k\<lparr>storage := Some (mem[head k := x]), head := (head k + 1) mod qlength k, count := count k + 1\<rparr>"
  have s: "reflex_kqueue_try_send (Some k) (Some x) = (True, Some k')"
    using mem c by (simp add: reflex_kqueue_try_send_def k'_def)
  have "queue_ok k'" using ok mem c n by (simp add: queue_ok_def k'_def h mod_simps add.assoc)
  moreover have "contents k' = contents k @ [x]"
  proof (rule nth_equalityI)
    show "length (contents k') = length (contents k @ [x])"
      using \<open>queue_ok k'\<close> ok by (simp add: contents_length) (simp add: k'_def)
    fix i assume "i < length (contents k')"
    then have i: "i < Suc (count k)" using \<open>queue_ok k'\<close> by (simp add: contents_length) (simp add: k'_def)
    have "(tail k + i) mod qlength k = head k \<longleftrightarrow> i = count k"
      using ring_index_inj [of i "qlength k" "count k" "tail k"] i c h by auto
    moreover have "(tail k + i) mod qlength k < length mem" using n mem by simp
    ultimately show "contents k' ! i = (contents k @ [x]) ! i"
      using i ok mem by (auto simp: contents_def k'_def nth_append less_Suc_eq simp del: upt_Suc)
  qed
  ultimately show ?thesis using s by (auto simp: k'_def)
qed

lemma send_full:
  assumes "queue_ok k" "length (contents k) = qlength k"
  shows "reflex_kqueue_try_send (Some k) (Some x) = (False, Some k)"
  using assms by (auto simp: contents_length reflex_kqueue_try_send_def split: option.splits)

lemma recv_ok:
  assumes ok: "queue_ok k" and ne: "contents k = x # xs"
  shows "\<exists>k'. reflex_kqueue_try_recv (Some k) w = (True, if w then Some x else None, Some k') \<and> queue_ok k'
            \<and> contents k' = xs \<and> qlength k' = qlength k"
proof -
  from ok obtain mem where mem: "storage k = Some mem" "length mem = qlength k"
    by (auto simp: queue_ok_def split: option.splits)
  have n: "0 < qlength k" and t: "tail k < qlength k" and h: "head k = (tail k + count k) mod qlength k"
    using ok by (auto simp: queue_ok_def)
  have "count k = Suc (length xs)" using contents_length [OF ok] ne by simp
  then have c: "count k \<noteq> 0" and up: "[0..<count k] = 0 # map Suc [0..<length xs]"
    by (simp_all add: upt_conv_Cons map_Suc_upt del: upt_Suc)
  define k' where "k' = k\<lparr>tail := (tail k + 1) mod qlength k, count := count k - 1\<rparr>"
  from ne mem up t have x: "x = mem ! tail k" and xs: "xs = map (\<lambda>i. mem ! ((tail k + Suc i) mod qlength k)) [0..<length xs]"
    by (auto simp: contents_def comp_def)
  have s: "reflex_kqueue_try_recv (Some k) w = (True, if w then Some x else None, Some k')"
    using mem c x by (simp add: reflex_kqueue_try_recv_def k'_def)
  have "(tail k + count k) mod qlength k = ((tail k + 1) mod qlength k + (count k - 1)) mod qlength k"
  proof -
    have "((tail k + 1) mod qlength k + (count k - 1)) mod qlength k = (tail k + 1 + (count k - 1)) mod qlength k"
      by (rule mod_add_left_eq)
    with c show ?thesis by simp
  qed
  then have "queue_ok k'" using ok mem n h by (auto simp: queue_ok_def k'_def)
  moreover have "contents k' = xs"
    by (subst xs) (simp add: contents_def k'_def mem \<open>count k = Suc (length xs)\<close> mod_simps del: upt_Suc)
  ultimately show ?thesis using s by (auto simp: k'_def)
qed

lemma recv_empty: "queue_ok k \<Longrightarrow> contents k = [] \<Longrightarrow> reflex_kqueue_try_recv (Some k) w = (False, None, Some k)"
  using contents_length [of k] by (auto simp: reflex_kqueue_try_recv_def split: option.splits)

lemma reset_ok: "queue_ok k \<Longrightarrow> \<exists>k'. reflex_kqueue_reset (Some k) = Some k' \<and> queue_ok k' \<and> contents k' = []"
  by (auto simp: reflex_kqueue_reset_def queue_ok_def contents_def split: option.splits)

section \<open>The contract: a bounded first-in first-out queue\<close>

datatype 'a queue_op = QSend 'a | QRecv

fun run_queue :: "('q \<Rightarrow> 'a \<Rightarrow> bool \<times> 'q) \<Rightarrow> ('q \<Rightarrow> 'a option \<times> 'q) \<Rightarrow> 'q \<Rightarrow> 'a queue_op list
    \<Rightarrow> (bool + 'a option) list \<times> 'q" where
  "run_queue snd_op rcv_op q [] = ([], q)"
| "run_queue snd_op rcv_op q (QSend x # ops) =
     (let (b, q1) = snd_op q x; (rs, q2) = run_queue snd_op rcv_op q1 ops in (Inl b # rs, q2))"
| "run_queue snd_op rcv_op q (QRecv # ops) =
     (let (r, q1) = rcv_op q; (rs, q2) = run_queue snd_op rcv_op q1 ops in (Inr r # rs, q2))"

text \<open>The specification: a list of at most \<open>n\<close> items.\<close>

definition list_send :: "nat \<Rightarrow> 'a list \<Rightarrow> 'a \<Rightarrow> bool \<times> 'a list" where
  "list_send n xs x = (if length xs < n then (True, xs @ [x]) else (False, xs))"

definition list_recv :: "'a list \<Rightarrow> 'a option \<times> 'a list" where
  "list_recv xs = (case xs of [] \<Rightarrow> (None, []) | x # ys \<Rightarrow> (Some x, ys))"

locale bounded_queue =
  fixes snd_op :: "'q \<Rightarrow> 'a \<Rightarrow> bool \<times> 'q"
    and rcv_op :: "'q \<Rightarrow> 'a option \<times> 'q"
    and items :: "'q \<Rightarrow> 'a list"
    and cap :: nat
    and inv :: "'q \<Rightarrow> bool"
  assumes snd_law: "inv q \<Longrightarrow> inv (snd (snd_op q x))
        \<and> (fst (snd_op q x), items (snd (snd_op q x))) = list_send cap (items q) x"
    and rcv_law: "inv q \<Longrightarrow> inv (snd (rcv_op q))
        \<and> (fst (rcv_op q), items (snd (rcv_op q))) = list_recv (items q)"
    and within: "inv q \<Longrightarrow> length (items q) \<le> cap"
begin

lemma run_refines:
  "inv q \<Longrightarrow> inv (snd (run_queue snd_op rcv_op q ops))
     \<and> (fst (run_queue snd_op rcv_op q ops), items (snd (run_queue snd_op rcv_op q ops)))
         = run_queue (list_send cap) list_recv (items q) ops"
proof (induction ops arbitrary: q)
  case (Cons x ops)
  show ?case
  proof (cases x)
    case (QSend a)
    obtain b q1 where s: "snd_op q a = (b, q1)" by fastforce
    with snd_law [OF Cons.prems, of a] have "inv q1" "list_send cap (items q) a = (b, items q1)" by simp_all
    with Cons.IH [of q1] QSend s show ?thesis
      by (auto simp: case_prod_beta Let_def prod_eq_iff)
  next
    case QRecv
    obtain r q1 where s: "rcv_op q = (r, q1)" by fastforce
    with rcv_law [OF Cons.prems] have "inv q1" "list_recv (items q) = (r, items q1)" by simp_all
    with Cons.IH [of q1] QRecv s show ?thesis
      by (auto simp: case_prod_beta Let_def prod_eq_iff)
  qed
qed simp

end

text \<open>The ring's operations in the shape of the contract.\<close>

definition kq_send :: "'a reflex_kqueue \<Rightarrow> 'a \<Rightarrow> bool \<times> 'a reflex_kqueue" where
  "kq_send k x = (let (b, q) = reflex_kqueue_try_send (Some k) (Some x) in (b, the q))"

definition kq_recv :: "'a reflex_kqueue \<Rightarrow> 'a option \<times> 'a reflex_kqueue" where
  "kq_recv k = (let (b, r, q) = reflex_kqueue_try_recv (Some k) True in (r, the q))"

interpretation kq: bounded_queue kq_send kq_recv contents n "\<lambda>k. queue_ok k \<and> qlength k = n"
proof (unfold_locales, goal_cases)
  case (1 k x)
  then show ?case
    using send_ok [of k x] send_full [of k x] contents_length [of k] queue_ok_count [of k]
    by (cases "length (contents k) < qlength k") (auto simp: kq_send_def list_send_def)
next
  case (2 k)
  then show ?case
    using recv_empty [of k True] recv_ok [of k _ _ True]
    by (cases "contents k") (fastforce simp: kq_recv_def list_recv_def)+
next
  case (3 k)
  then show ?case using contents_length [of k] by (simp add: queue_ok_def)
qed

text \<open>
  The ring is a bounded first-in first-out queue. Any sequence of sends and receives on
  a well-formed ring answers exactly as a list of at most \<open>qlength\<close> items answers (a send is
  refused only when full, a receive only when empty, and receives return the accepted items
  in order), and leaves a well-formed ring holding that list. Wrap-around of head and tail
  never shows.
\<close>

theorem kqueue_fifo:
  assumes "queue_ok k"
  shows "queue_ok (snd (run_queue kq_send kq_recv k ops))
    \<and> (fst (run_queue kq_send kq_recv k ops), contents (snd (run_queue kq_send kq_recv k ops)))
        = run_queue (list_send (qlength k)) list_recv (contents k) ops"
  using kq.run_refines [of k "qlength k" ops] assms by simp

theorem kqueue_fifo_witness:
  "fst (run_queue kq_send kq_recv \<lparr>storage = Some [7, 8], qlength = 2, item_size = 4, count = 1, head = 0, tail = 1, in_use = True\<rparr>
      [QSend 9, QSend 10, QRecv, QRecv, QRecv]) = [Inl True, Inl False, Inr (Some (8::nat)), Inr (Some 9), Inr None]"
  using kqueue_fifo [where k = "\<lparr>storage = Some [7, 8::nat], qlength = 2, item_size = 4, count = 1, head = 0, tail = 1, in_use = True\<rparr>"
      and ops = "[QSend 9, QSend 10, QRecv, QRecv, QRecv]"]
  by (simp add: queue_ok_def contents_def KQ_UINT32_MAX_def list_send_def list_recv_def prod_eq_iff)

text \<open>
  The pool hands out distinct queues. Creation succeeds only with a non-zero capacity
  whose byte size fits 32 bits, takes a control block nobody uses, leaves the others alone and
  returns an empty queue; it fails only for a zero or oversized capacity, an exhausted pool or
  a failed allocation, and then the pool is unchanged.
\<close>

theorem kqueue_create_spec:
  assumes "\<And>mem. malloc = Some mem \<Longrightarrow> length mem = len" and "len \<le> KQ_UINT32_MAX"
  shows "case reflex_kqueue_create malloc pool len isz of
      (Some i, pool') \<Rightarrow> i < length pool \<and> \<not> in_use (pool ! i) \<and> length pool' = length pool
          \<and> (\<forall>j < length pool. j \<noteq> i \<longrightarrow> pool' ! j = pool ! j)
          \<and> queue_ok (pool' ! i) \<and> contents (pool' ! i) = [] \<and> qlength (pool' ! i) = len \<and> len * isz \<le> KQ_UINT32_MAX
    | (None, pool') \<Rightarrow> pool' = pool \<and> (len = 0 \<or> len * isz = 0 \<or> len * isz > KQ_UINT32_MAX
          \<or> (\<forall>q \<in> set pool. in_use q) \<or> malloc = None)"
proof (cases "reflex_kqueue_create malloc pool len isz")
  case (Pair r pool')
  have none: "first_free qs j = None \<Longrightarrow> \<forall>q \<in> set qs. in_use q" for qs :: "'a reflex_kqueue list" and j
    by (induction qs arbitrary: j) (auto split: if_splits)
  show ?thesis
  proof (cases r)
    case None
    have big: "isz > 0 \<Longrightarrow> len > KQ_UINT32_MAX div isz \<Longrightarrow> len * isz > KQ_UINT32_MAX"
      using div_less_iff_less_mult [of isz KQ_UINT32_MAX len] by simp
    have "pool' = pool \<and> (len = 0 \<or> len * isz = 0 \<or> len * isz > KQ_UINT32_MAX
          \<or> (\<forall>q \<in> set pool. in_use q) \<or> malloc = None)"
      using Pair None big none [of pool 0]
      by (auto simp: reflex_kqueue_create_def split: if_splits option.splits)
    then show ?thesis using Pair None by simp
  next
    case (Some i)
    with Pair have "isz > 0" "\<not> len > KQ_UINT32_MAX div isz"
      by (auto simp: reflex_kqueue_create_def split: if_splits)
    then have "len * isz \<le> KQ_UINT32_MAX"
      using less_eq_div_iff_mult_less_eq [of isz len KQ_UINT32_MAX] by simp
    with Pair Some create_ok [of malloc pool len isz i pool'] assms show ?thesis by simp
  qed
qed

theorem kqueue_create_spec_witness:
  "case reflex_kqueue_create (Some [0, 0, 0::nat]) [kqueue_zero, kqueue_zero] 3 4 of
      (Some i, pool') \<Rightarrow> queue_ok (pool' ! i) \<and> contents (pool' ! i) = [] \<and> i = 0
    | (None, pool') \<Rightarrow> False"
  using kqueue_create_spec [where malloc = "Some [0, 0, 0::nat]" and len = 3 and pool = "[kqueue_zero, kqueue_zero]" and isz = 4]
  by (simp add: KQ_UINT32_MAX_def reflex_kqueue_create_def kqueue_zero_def)

end
