(* ===== verification/Fabric.thy ===== *)
theory Fabric imports KQueue Ternary begin

text \<open>
  The inter-node message fabric: core/fabric.c and core/include/reflex_fabric.h, over the
  queue interface of kernel/reflex_task_reflex.c. Eight inboxes of 32 messages each.

  Every call of the fabric passes a zero timeout. \<open>queue_wait\<close> of kernel/reflex_sched.c then
  makes one attempt and reports REFLEX_ERR_TIMEOUT, without parking the caller; that single
  attempt is \<open>reflex_queue_send\<close> and \<open>reflex_queue_recv\<close> here.
\<close>

section \<open>Messages and state\<close>

datatype reflex_channel = REFLEX_CHAN_CRITICAL | REFLEX_CHAN_SYSTEM | REFLEX_CHAN_TELEM

record reflex_message =
  msg_to :: u8
  msg_from :: u8
  msg_op :: u8
  channel :: reflex_channel
  correlation_id :: u32
  payload :: word18

record fabric_state =
  queues :: "reflex_message reflex_kqueue list"
  s_node_inboxes :: "nat option list"
  s_reflex_fabric_ready :: bool

definition REFLEX_FABRIC_QUEUE_LEN :: nat where "REFLEX_FABRIC_QUEUE_LEN = 32"
definition REFLEX_NODE_MAX :: nat where "REFLEX_NODE_MAX = 8"

text \<open>Three bytes, two 32-bit fields and eighteen trits of four bytes each (an enum), padded to a multiple of four.\<close>

definition REFLEX_MESSAGE_SIZE :: nat where "REFLEX_MESSAGE_SIZE = 84"

definition fabric_boot :: fabric_state where
  "fabric_boot = \<lparr>queues = replicate REFLEX_KQUEUE_MAX kqueue_zero,
     s_node_inboxes = replicate REFLEX_NODE_MAX None, s_reflex_fabric_ready = False\<rparr>"

section \<open>The queue interface at timeout zero\<close>

definition reflex_queue_send ::
    "'a reflex_kqueue list \<Rightarrow> nat option \<Rightarrow> 'a \<Rightarrow> unit result \<times> 'a reflex_kqueue list" where
  "reflex_queue_send qs h item =
     (case h of
        None \<Rightarrow> (Inl REFLEX_ERR_INVALID_ARG, qs)
      | Some i \<Rightarrow>
          (case reflex_kqueue_try_send (Some (qs ! i)) (Some item) of
             (True, Some q) \<Rightarrow> (Inr (), qs[i := q])
           | _ \<Rightarrow> (Inl REFLEX_ERR_TIMEOUT, qs)))"

definition reflex_queue_recv ::
    "'a reflex_kqueue list \<Rightarrow> nat option \<Rightarrow> 'a result \<times> 'a reflex_kqueue list" where
  "reflex_queue_recv qs h =
     (case h of
        None \<Rightarrow> (Inl REFLEX_ERR_INVALID_ARG, qs)
      | Some i \<Rightarrow>
          (case reflex_kqueue_try_recv (Some (qs ! i)) True of
             (True, Some m, Some q) \<Rightarrow> (Inr m, qs[i := q])
           | _ \<Rightarrow> (Inl REFLEX_ERR_NOT_FOUND, qs)))"

section \<open>The fabric\<close>

text \<open>The creation loop over the nodes; \<open>malloc i\<close> is what the allocator answers node \<open>i\<close>.\<close>

fun fabric_init_loop :: "(nat \<Rightarrow> reflex_message list option) \<Rightarrow> fabric_state \<Rightarrow> nat \<Rightarrow> nat \<Rightarrow> bool \<times> fabric_state" where
  "fabric_init_loop malloc f i 0 = (True, f)"
| "fabric_init_loop malloc f i (Suc n) =
     (let (h, qs) = reflex_kqueue_create (malloc i) (queues f) REFLEX_FABRIC_QUEUE_LEN REFLEX_MESSAGE_SIZE;
          f1 = f\<lparr>queues := qs, s_node_inboxes := (s_node_inboxes f)[i := h]\<rparr>
      in if h = None then (False, f1) else fabric_init_loop malloc f1 (Suc i) n)"

definition reflex_fabric_init :: "(nat \<Rightarrow> reflex_message list option) \<Rightarrow> fabric_state \<Rightarrow> unit result \<times> fabric_state" where
  "reflex_fabric_init malloc f =
     (case fabric_init_loop malloc f 0 REFLEX_NODE_MAX of
        (False, f1) \<Rightarrow> (Inl REFLEX_ERR_NO_MEM, f1)
      | (True, f1) \<Rightarrow> (Inr (), f1\<lparr>s_reflex_fabric_ready := True\<rparr>))"

definition reflex_fabric_send :: "fabric_state \<Rightarrow> reflex_message \<Rightarrow> unit result \<times> fabric_state" where
  "reflex_fabric_send f msg =
     (if \<not> s_reflex_fabric_ready f then (Inl REFLEX_ERR_INVALID_STATE, f)
      else if \<not> unat (msg_to msg) < REFLEX_NODE_MAX then (Inl REFLEX_ERR_INVALID_ARG, f)
      else case reflex_queue_send (queues f) (s_node_inboxes f ! unat (msg_to msg)) msg of
             (Inl e, qs) \<Rightarrow>
               (if channel msg = REFLEX_CHAN_TELEM then Inr () else Inl REFLEX_ERR_TIMEOUT, f\<lparr>queues := qs\<rparr>)
           | (Inr _, qs) \<Rightarrow> (Inr (), f\<lparr>queues := qs\<rparr>))"

definition reflex_fabric_recv :: "fabric_state \<Rightarrow> u8 \<Rightarrow> reflex_message result \<times> fabric_state" where
  "reflex_fabric_recv f node_id =
     (if \<not> s_reflex_fabric_ready f then (Inl REFLEX_ERR_INVALID_STATE, f)
      else if \<not> unat node_id < REFLEX_NODE_MAX then (Inl REFLEX_ERR_INVALID_ARG, f)
      else case reflex_queue_recv (queues f) (s_node_inboxes f ! unat node_id) of
             (Inl e, qs) \<Rightarrow> (Inl REFLEX_ERR_NOT_FOUND, f\<lparr>queues := qs\<rparr>)
           | (Inr m, qs) \<Rightarrow> (Inr m, f\<lparr>queues := qs\<rparr>))"

section \<open>Invariant and abstraction: one bounded list per node\<close>

definition fabric_ok :: "fabric_state \<Rightarrow> bool" where
  "fabric_ok f \<longleftrightarrow> s_reflex_fabric_ready f \<and> length (s_node_inboxes f) = REFLEX_NODE_MAX
     \<and> (\<forall>n < REFLEX_NODE_MAX. \<exists>i. s_node_inboxes f ! n = Some i \<and> i < length (queues f)
           \<and> queue_ok (queues f ! i) \<and> qlength (queues f ! i) = REFLEX_FABRIC_QUEUE_LEN)
     \<and> distinct (s_node_inboxes f)"

definition inbox :: "fabric_state \<Rightarrow> nat \<Rightarrow> reflex_message list" where
  "inbox f n = (if n < REFLEX_NODE_MAX then contents (queues f ! the (s_node_inboxes f ! n)) else [])"

lemma fabric_okE:
  assumes "fabric_ok f" "n < REFLEX_NODE_MAX"
  obtains i where "s_node_inboxes f ! n = Some i" "i < length (queues f)" "queue_ok (queues f ! i)"
    "qlength (queues f ! i) = REFLEX_FABRIC_QUEUE_LEN" "inbox f n = contents (queues f ! i)"
  using assms by (auto simp: fabric_ok_def inbox_def)

text \<open>Replacing the queue of one node.\<close>

lemma fabric_update:
  assumes ok: "fabric_ok f" and n: "n < REFLEX_NODE_MAX" and i: "s_node_inboxes f ! n = Some i"
    and q: "queue_ok q" "qlength q = REFLEX_FABRIC_QUEUE_LEN"
  shows "fabric_ok (f\<lparr>queues := (queues f)[i := q]\<rparr>)"
    and "inbox (f\<lparr>queues := (queues f)[i := q]\<rparr>) = (inbox f)(n := contents q)"
proof -
  have il: "i < length (queues f)" using fabric_okE [OF ok n] i by fastforce
  have other: "\<exists>j. s_node_inboxes f ! m = Some j \<and> j \<noteq> i" if m: "m < REFLEX_NODE_MAX" "m \<noteq> n" for m
  proof -
    obtain j where j: "s_node_inboxes f ! m = Some j" using fabric_okE [OF ok m(1)] by blast
    have "s_node_inboxes f ! m \<noteq> s_node_inboxes f ! n"
      using ok m n nth_eq_iff_index_eq [of "s_node_inboxes f" m n] by (simp add: fabric_ok_def)
    with i j show ?thesis by simp
  qed
  show "fabric_ok (f\<lparr>queues := (queues f)[i := q]\<rparr>)"
    using ok q by (fastforce simp: fabric_ok_def)
  show "inbox (f\<lparr>queues := (queues f)[i := q]\<rparr>) = (inbox f)(n := contents q)"
  proof
    fix m
    show "inbox (f\<lparr>queues := (queues f)[i := q]\<rparr>) m = ((inbox f)(n := contents q)) m"
      using other [of m] n i il by (auto simp: inbox_def)
  qed
qed

text \<open>The specification: bounded lists, with the telemetry exception.\<close>

type_synonym inboxes = "nat \<Rightarrow> reflex_message list"

definition spec_send :: "inboxes \<Rightarrow> reflex_message \<Rightarrow> unit result \<times> inboxes" where
  "spec_send b msg =
     (let n = unat (msg_to msg) in
      if n \<ge> 8 then (Inl REFLEX_ERR_INVALID_ARG, b)
      else if length (b n) < 32 then (Inr (), b(n := b n @ [msg]))
      else (if channel msg = REFLEX_CHAN_TELEM then Inr () else Inl REFLEX_ERR_TIMEOUT, b))"

definition spec_recv :: "inboxes \<Rightarrow> u8 \<Rightarrow> reflex_message result \<times> inboxes" where
  "spec_recv b node =
     (if unat node \<ge> 8 then (Inl REFLEX_ERR_INVALID_ARG, b)
      else case b (unat node) of [] \<Rightarrow> (Inl REFLEX_ERR_NOT_FOUND, b)
         | m # ms \<Rightarrow> (Inr m, b(unat node := ms)))"

lemma send_refines:
  assumes ok: "fabric_ok f"
  shows "fabric_ok (snd (reflex_fabric_send f msg))
    \<and> (fst (reflex_fabric_send f msg), inbox (snd (reflex_fabric_send f msg))) = spec_send (inbox f) msg"
proof (cases "unat (msg_to msg) < REFLEX_NODE_MAX")
  case False
  with ok show ?thesis by (simp add: reflex_fabric_send_def spec_send_def fabric_ok_def Let_def REFLEX_NODE_MAX_def)
next
  case True
  let ?n = "unat (msg_to msg)"
  have r: "s_reflex_fabric_ready f" using ok by (simp add: fabric_ok_def)
  from fabric_okE [OF ok True] obtain i where i: "s_node_inboxes f ! ?n = Some i" "queue_ok (queues f ! i)"
    "qlength (queues f ! i) = REFLEX_FABRIC_QUEUE_LEN" "inbox f ?n = contents (queues f ! i)" by metis
  show ?thesis
  proof (cases "length (inbox f ?n) < REFLEX_FABRIC_QUEUE_LEN")
    case room: True
    then obtain k' where k': "reflex_kqueue_try_send (Some (queues f ! i)) (Some msg) = (True, Some k')"
      "queue_ok k'" "contents k' = inbox f ?n @ [msg]" "qlength k' = REFLEX_FABRIC_QUEUE_LEN"
      using send_ok [OF i(2), of msg] i by auto
    have "reflex_fabric_send f msg = (Inr (), f\<lparr>queues := (queues f)[i := k']\<rparr>)"
      using r True i k' by (simp add: reflex_fabric_send_def reflex_queue_send_def)
    with fabric_update [OF ok True i(1) k'(2,4)] True room k'(3) show ?thesis
      by (simp add: spec_send_def Let_def REFLEX_NODE_MAX_def REFLEX_FABRIC_QUEUE_LEN_def)
  next
    case full: False
    then have "length (contents (queues f ! i)) = qlength (queues f ! i)"
      using i contents_length [OF i(2)] queue_ok_count [OF i(2)] by simp
    from send_full [OF i(2) this] have
      "reflex_fabric_send f msg = (if channel msg = REFLEX_CHAN_TELEM then Inr () else Inl REFLEX_ERR_TIMEOUT, f)"
      using r True i by (simp add: reflex_fabric_send_def reflex_queue_send_def)
    with ok True full show ?thesis
      by (simp add: spec_send_def Let_def REFLEX_NODE_MAX_def REFLEX_FABRIC_QUEUE_LEN_def)
  qed
qed

lemma recv_refines:
  assumes ok: "fabric_ok f"
  shows "fabric_ok (snd (reflex_fabric_recv f node))
    \<and> (fst (reflex_fabric_recv f node), inbox (snd (reflex_fabric_recv f node))) = spec_recv (inbox f) node"
proof (cases "unat node < REFLEX_NODE_MAX")
  case False
  with ok show ?thesis by (simp add: reflex_fabric_recv_def spec_recv_def fabric_ok_def REFLEX_NODE_MAX_def)
next
  case True
  have r: "s_reflex_fabric_ready f" using ok by (simp add: fabric_ok_def)
  from fabric_okE [OF ok True] obtain i where i: "s_node_inboxes f ! unat node = Some i" "queue_ok (queues f ! i)"
    "qlength (queues f ! i) = REFLEX_FABRIC_QUEUE_LEN" "inbox f (unat node) = contents (queues f ! i)" by metis
  show ?thesis
  proof (cases "inbox f (unat node)")
    case Nil
    then have "reflex_fabric_recv f node = (Inl REFLEX_ERR_NOT_FOUND, f)"
      using r True i recv_empty [OF i(2), of True] by (simp add: reflex_fabric_recv_def reflex_queue_recv_def)
    with Nil ok True show ?thesis by (simp add: spec_recv_def REFLEX_NODE_MAX_def)
  next
    case (Cons m ms)
    then obtain k' where k': "reflex_kqueue_try_recv (Some (queues f ! i)) True = (True, Some m, Some k')"
      "queue_ok k'" "contents k' = ms" "qlength k' = REFLEX_FABRIC_QUEUE_LEN"
      using recv_ok [OF i(2), of m ms True] i by auto
    have "reflex_fabric_recv f node = (Inr m, f\<lparr>queues := (queues f)[i := k']\<rparr>)"
      using r True i k' by (simp add: reflex_fabric_recv_def reflex_queue_recv_def)
    with fabric_update [OF ok True i(1) k'(2,4)] True Cons k'(3) show ?thesis
      by (simp add: spec_recv_def REFLEX_NODE_MAX_def)
  qed
qed

section \<open>Initialisation\<close>

lemma first_free_at:
  "\<lbrakk> k < length qs; \<forall>j < k. in_use (qs ! j); \<not> in_use (qs ! k) \<rbrakk> \<Longrightarrow> first_free qs b = Some (b + k)"
proof (induction qs arbitrary: k b)
  case (Cons q qs)
  show ?case
  proof (cases k)
    case 0 with Cons.prems show ?thesis by simp
  next
    case (Suc k')
    have "\<forall>j < k'. in_use (qs ! j)" using Cons.prems(2) Suc by fastforce
    moreover have "in_use q" using Cons.prems(2) Suc by fastforce
    ultimately show ?thesis using Cons.IH [of k' "Suc b"] Cons.prems Suc by simp
  qed
qed simp

definition init_inv :: "fabric_state \<Rightarrow> nat \<Rightarrow> bool" where
  "init_inv f i \<longleftrightarrow> length (queues f) = REFLEX_KQUEUE_MAX \<and> length (s_node_inboxes f) = REFLEX_NODE_MAX
     \<and> (\<forall>j < i. s_node_inboxes f ! j = Some j \<and> queue_ok (queues f ! j)
           \<and> qlength (queues f ! j) = REFLEX_FABRIC_QUEUE_LEN \<and> contents (queues f ! j) = [])
     \<and> (\<forall>j. i \<le> j \<and> j < REFLEX_KQUEUE_MAX \<longrightarrow> \<not> in_use (queues f ! j))"

lemma init_loop_ok:
  assumes "\<And>i. \<exists>mem. malloc i = Some mem \<and> length mem = REFLEX_FABRIC_QUEUE_LEN"
  shows "\<lbrakk> init_inv f i; i + n = REFLEX_NODE_MAX \<rbrakk> \<Longrightarrow>
    \<exists>f'. fabric_init_loop malloc f i n = (True, f') \<and> init_inv f' REFLEX_NODE_MAX"
proof (induction n arbitrary: f i)
  case (Suc n)
  obtain mem where mem: "malloc i = Some mem" "length mem = REFLEX_FABRIC_QUEUE_LEN" using assms by blast
  have il: "i < REFLEX_NODE_MAX" "i < REFLEX_KQUEUE_MAX" using Suc.prems(2) by (auto simp: REFLEX_NODE_MAX_def REFLEX_KQUEUE_MAX_def)
  let ?k = "\<lparr>storage = Some mem, qlength = REFLEX_FABRIC_QUEUE_LEN, item_size = REFLEX_MESSAGE_SIZE,
                 count = 0, head = 0, tail = 0, in_use = True\<rparr>"
  let ?f = "f\<lparr>queues := (queues f)[i := ?k], s_node_inboxes := (s_node_inboxes f)[i := Some i]\<rparr>"
  have "first_free (queues f) 0 = Some i"
    using first_free_at [of i "queues f" 0] Suc.prems(1) il by (simp add: init_inv_def queue_ok_def)
  then have c: "reflex_kqueue_create (malloc i) (queues f) REFLEX_FABRIC_QUEUE_LEN REFLEX_MESSAGE_SIZE
      = (Some i, (queues f)[i := ?k])"
    using mem by (simp add: reflex_kqueue_create_def REFLEX_FABRIC_QUEUE_LEN_def REFLEX_MESSAGE_SIZE_def KQ_UINT32_MAX_def)
  have k: "queue_ok ?k" "contents ?k = []"
    using mem(2) by (simp_all add: queue_ok_def contents_def REFLEX_FABRIC_QUEUE_LEN_def KQ_UINT32_MAX_def)
  have "init_inv ?f (Suc i)"
    using Suc.prems(1) il k by (auto simp: init_inv_def less_Suc_eq)
  with Suc.IH [of ?f "Suc i"] Suc.prems(2) c show ?case by simp
qed auto

lemma init_ok:
  assumes "\<And>i. \<exists>mem. malloc i = Some mem \<and> length mem = REFLEX_FABRIC_QUEUE_LEN"
  shows "\<exists>f. reflex_fabric_init malloc fabric_boot = (Inr (), f) \<and> fabric_ok f \<and> inbox f = (\<lambda>n. [])"
proof -
  have "init_inv fabric_boot 0" by (auto simp: init_inv_def fabric_boot_def kqueue_zero_def)
  with init_loop_ok [of malloc fabric_boot 0 REFLEX_NODE_MAX] assms obtain f
    where f: "fabric_init_loop malloc fabric_boot 0 REFLEX_NODE_MAX = (True, f)" "init_inv f REFLEX_NODE_MAX" by fastforce
  let ?f = "f\<lparr>s_reflex_fabric_ready := True\<rparr>"
  have "reflex_fabric_init malloc fabric_boot = (Inr (), ?f)" using f by (simp add: reflex_fabric_init_def)
  moreover have "fabric_ok ?f"
    using f(2) by (auto simp: fabric_ok_def init_inv_def distinct_conv_nth REFLEX_NODE_MAX_def REFLEX_KQUEUE_MAX_def)
  moreover have "inbox ?f = (\<lambda>n. [])" using f(2) by (auto simp: inbox_def init_inv_def)
  ultimately show ?thesis by blast
qed

text \<open>
  The fabric comes up empty. At boot, with the allocator answering, initialisation
  succeeds and leaves eight distinct well-formed inboxes, all empty.
\<close>

theorem fabric_init_ok:
  assumes "\<And>i. \<exists>mem. malloc i = Some mem \<and> length mem = REFLEX_FABRIC_QUEUE_LEN"
  shows "\<exists>f. reflex_fabric_init malloc fabric_boot = (Inr (), f) \<and> fabric_ok f \<and> inbox f = (\<lambda>n. [])"
  using init_ok [OF assms] .

theorem fabric_init_ok_witness:
  "\<exists>f. reflex_fabric_init (\<lambda>i. Some (replicate 32 \<lparr>msg_to = 0, msg_from = 0, msg_op = 0, channel = REFLEX_CHAN_SYSTEM,
       correlation_id = 0, payload = reflex_word18_zero\<rparr>)) fabric_boot = (Inr (), f) \<and> fabric_ok f \<and> inbox f = (\<lambda>n. [])"
  by (rule fabric_init_ok) (simp add: REFLEX_FABRIC_QUEUE_LEN_def)

section \<open>Delivery\<close>

datatype fabric_op = FSend reflex_message | FRecv u8

text \<open>
  A run of the fabric, recording per node what it received and, of what was sent to it with
  an OK answer, everything but telemetry.
\<close>

fun fabric_run :: "fabric_state \<Rightarrow> fabric_op list \<Rightarrow> (u8 \<times> reflex_message) list \<times> reflex_message list \<times> fabric_state" where
  "fabric_run f [] = ([], [], f)"
| "fabric_run f (FSend m # ops) =
     (let (r, f1) = reflex_fabric_send f m; (rs, ss, f2) = fabric_run f1 ops
      in (rs, (if is_ok r then [m] else []) @ ss, f2))"
| "fabric_run f (FRecv n # ops) =
     (let (r, f1) = reflex_fabric_recv f n; (rs, ss, f2) = fabric_run f1 ops
      in ((case r of Inr m \<Rightarrow> [(n, m)] | Inl _ \<Rightarrow> []) @ rs, ss, f2))"

definition reliable :: "reflex_message list \<Rightarrow> reflex_message list" where
  "reliable ms = filter (\<lambda>m. channel m \<noteq> REFLEX_CHAN_TELEM) ms"

definition received_at :: "u8 \<Rightarrow> (u8 \<times> reflex_message) list \<Rightarrow> reflex_message list" where
  "received_at n rs = map snd (filter (\<lambda>p. fst p = n) rs)"

definition sent_to :: "u8 \<Rightarrow> reflex_message list \<Rightarrow> reflex_message list" where
  "sent_to n ms = filter (\<lambda>m. msg_to m = n) ms"

lemma reliable_simps [simp]:
  "reliable [] = []" "reliable (xs @ ys) = reliable xs @ reliable ys"
  "reliable (x # xs) = (if channel x = REFLEX_CHAN_TELEM then reliable xs else x # reliable xs)"
  "received_at n [] = []" "received_at n (p # rs) = (if fst p = n then snd p # received_at n rs else received_at n rs)"
  "sent_to n [] = []" "sent_to n (m # ms) = (if msg_to m = n then m # sent_to n ms else sent_to n ms)"
  by (auto simp: reliable_def received_at_def sent_to_def)

lemma delivery:
  "fabric_ok f \<Longrightarrow> fabric_run f ops = (rs, ss, f') \<Longrightarrow>
   fabric_ok f' \<and> reliable (inbox f (unat n)) @ reliable (sent_to n ss)
      = reliable (received_at n rs) @ reliable (inbox f' (unat n))"
proof (induction ops arbitrary: f rs ss f')
  case (Cons x ops)
  show ?case
  proof (cases x)
    case (FSend m)
    obtain r f1 where s: "reflex_fabric_send f m = (r, f1)" by fastforce
    obtain rs1 ss1 f2 where t: "fabric_run f1 ops = (rs1, ss1, f2)" using prod_cases3 by blast
    have f1: "fabric_ok f1" and sp: "spec_send (inbox f) m = (r, inbox f1)"
      using send_refines [OF Cons.prems(1), of m] s by simp_all
    have e: "rs = rs1" "ss = (if is_ok r then [m] else []) @ ss1" "f' = f2" using Cons.prems(2) FSend s t by auto
    have "reliable (inbox f (unat n)) @ reliable (sent_to n (if is_ok r then [m] else [])) = reliable (inbox f1 (unat n))"
      using sp [symmetric] by (auto simp: spec_send_def Let_def split: if_splits dest: unsigned_word_eqI)
    then have "reliable (inbox f (unat n)) @ reliable (sent_to n ss) = reliable (inbox f1 (unat n)) @ reliable (sent_to n ss1)"
      using e by (auto split: if_splits)
    with Cons.IH [OF f1 t] e show ?thesis by simp
  next
    case (FRecv k)
    obtain r f1 where s: "reflex_fabric_recv f k = (r, f1)" by fastforce
    obtain rs1 ss1 f2 where t: "fabric_run f1 ops = (rs1, ss1, f2)" using prod_cases3 by blast
    have f1: "fabric_ok f1" and sp: "spec_recv (inbox f) k = (r, inbox f1)"
      using recv_refines [OF Cons.prems(1), of k] s by simp_all
    have e: "rs = (case r of Inr m \<Rightarrow> [(k, m)] | Inl _ \<Rightarrow> []) @ rs1" "ss = ss1" "f' = f2"
      using Cons.prems(2) FRecv s t by auto
    have "reliable (inbox f (unat n))
        = reliable (received_at n (case r of Inr m \<Rightarrow> [(k, m)] | Inl _ \<Rightarrow> [])) @ reliable (inbox f1 (unat n))"
      using sp [symmetric] by (auto simp: spec_recv_def split: if_splits list.splits dest: unsigned_word_eqI)
    with Cons.IH [OF f1 t] e show ?thesis by (cases r) (auto split: if_splits)
  qed
qed simp

text \<open>
  C8: the fabric neither loses, duplicates, reorders nor misroutes. From an initialised, empty
  fabric, after any interleaving of sends and receives by any nodes, the critical and system
  messages accepted for a node are exactly those it has received, in order, followed by those
  waiting in its inbox. Only telemetry may be dropped although its send answered OK.
\<close>

theorem fabric_reliable_delivery:
  assumes "fabric_ok f" and "inbox f (unat n) = []" and "fabric_run f ops = (rs, ss, f')"
  shows "reliable (sent_to n ss) = reliable (received_at n rs) @ reliable (inbox f' (unat n))"
  using delivery [OF assms(1,3), of n] assms(2) by simp

theorem fabric_reliable_delivery_witness:
  "\<exists>f rs ss f'. reflex_fabric_init (\<lambda>i. Some (replicate 32 \<lparr>msg_to = 0, msg_from = 0, msg_op = 0, channel = REFLEX_CHAN_SYSTEM,
       correlation_id = 0, payload = reflex_word18_zero\<rparr>)) fabric_boot = (Inr (), f)
     \<and> fabric_run f [FSend \<lparr>msg_to = 7, msg_from = 0, msg_op = 5, channel = REFLEX_CHAN_SYSTEM,
          correlation_id = 0, payload = reflex_word18_zero\<rparr>, FRecv 7] = (rs, ss, f')
     \<and> reliable (sent_to 7 ss) = reliable (received_at 7 rs) @ reliable (inbox f' (unat (7::u8)))"
proof -
  let ?m = "\<lparr>msg_to = 0, msg_from = 0, msg_op = 0, channel = REFLEX_CHAN_SYSTEM,
       correlation_id = 0, payload = reflex_word18_zero\<rparr> :: reflex_message"
  obtain f where f: "reflex_fabric_init (\<lambda>i. Some (replicate 32 ?m)) fabric_boot = (Inr (), f)" "fabric_ok f" "inbox f = (\<lambda>n. [])"
    using init_ok [of "\<lambda>i. Some (replicate 32 ?m)"] by (auto simp: REFLEX_FABRIC_QUEUE_LEN_def)
  let ?ops = "[FSend (?m\<lparr>msg_to := 7, msg_op := 5\<rparr>), FRecv 7]"
  obtain rs ss f' where r: "fabric_run f ?ops = (rs, ss, f')" using prod_cases3 by blast
  have "reliable (sent_to 7 ss) = reliable (received_at 7 rs) @ reliable (inbox f' (unat (7::u8)))"
    by (rule fabric_reliable_delivery [OF f(2) _ r]) (simp add: f(3))
  with f(1) r show ?thesis by simp
qed

end
