(* ===== verification/VM_Interp.thy ===== *)
theory VM_Interp imports VM_Cache Fabric begin

text \<open>
  The ternary VM: vm/interpreter.c over the state of vm/include/reflex_vm_state.h and the
  instruction set of vm/include/reflex_vm_opcode.h.

  A step takes the world (message fabric, GOOSE substrate, host services) and the VM and
  returns the error code with both updated. It answers None exactly where the C code would
  have undefined behaviour: a read or write of a register past the register file, a write past
  the route manifest, or the use of an integer that a failed conversion left uninitialised.

  The GOOSE operations that TROUTE and TSENSE call are a parameter, a record of functions on
  the substrate's own state.
\<close>

section \<open>Instructions\<close>

datatype reflex_vm_opcode =
    TNOP | TLDI | TMOV | TLD | TST | TADD | TSUB | TCMP | TSEL | TJMP | TBRNEG | TBRZERO | TBRPOS
  | TSEND | TRECV | TFLUSH | TINV | TSYS | THALT | TROUTE | TBIAS | TSENSE | BAD_OPCODE nat

record reflex_vm_instruction =
  opcode :: reflex_vm_opcode
  dst :: nat
  src_a :: nat
  src_b :: nat
  imm :: int

definition REFLEX_VM_REGISTER_COUNT :: nat where "REFLEX_VM_REGISTER_COUNT = 8"
definition REFLEX_VM_COMPARE_TRIT_INDEX :: nat where "REFLEX_VM_COMPARE_TRIT_INDEX = 0"
definition REFLEX_VM_MAX_ROUTES :: nat where "REFLEX_VM_MAX_ROUTES = 4"

section \<open>VM state and its world\<close>

datatype reflex_vm_status =
  REFLEX_VM_STATUS_READY | REFLEX_VM_STATUS_RUNNING | REFLEX_VM_STATUS_HALTED | REFLEX_VM_STATUS_FAULTED

datatype reflex_vm_fault_kind =
    REFLEX_VM_FAULT_NONE | REFLEX_VM_FAULT_INVALID_OPCODE | REFLEX_VM_FAULT_INVALID_REGISTER
  | REFLEX_VM_FAULT_INVALID_IMMEDIATE | REFLEX_VM_FAULT_PC_OUT_OF_RANGE
  | REFLEX_VM_FAULT_ARITHMETIC_OVERFLOW | REFLEX_VM_FAULT_INVALID_SYSCALL
  | REFLEX_VM_FAULT_INVALID_MEMORY_ACCESS

text \<open>The part of a GOOSE route the VM writes, and of a cell it reads.\<close>

record vm_route =
  rname :: string
  source_coord :: tryte9
  sink_coord :: tryte9
  orientation :: int

record vm_cell =
  ccoord :: tryte9
  cstate :: int

record 'g goose_ops =
  g_get_cell :: "'g \<Rightarrow> string \<Rightarrow> vm_cell option \<times> 'g"
  g_get_cell_by_coord :: "'g \<Rightarrow> tryte9 \<Rightarrow> vm_cell option"
  g_apply_route :: "'g \<Rightarrow> vm_route \<Rightarrow> 'g"

text \<open>
  The host side: \<open>clock n\<close> is the n-th reading of \<open>reflex_hal_time_us\<close>, \<open>reads\<close> how many were
  taken; what was printed and waited for is recorded; the configuration answers are given.
\<close>

record 'g world =
  fabric :: fabric_state
  goose :: 'g
  clock :: "nat \<Rightarrow> nat"
  reads :: nat
  console :: "int list"
  delays :: "nat list"
  cfg_device_name :: "string result"
  cfg_log_level :: "int result"

type_synonym 'w syscall_fn = "'w \<Rightarrow> int \<Rightarrow> word18 \<Rightarrow> word18 \<Rightarrow> word18 result \<times> 'w"

record 'w reflex_vm_state =
  status :: reflex_vm_status
  fault :: reflex_vm_fault_kind
  ip :: nat
  steps_executed :: u32
  registers :: "word18 list"
  program :: "reflex_vm_instruction list option"
  owns_program :: bool
  mem :: vmem
  owned_private_memory :: "nat option"
  owned_private_memory_count :: nat
  node_id :: u8
  syscall_handler :: "'w syscall_fn option"
  route_manifest :: "vm_route list"
  route_count :: nat

type_synonym 'g vm = "'g world reflex_vm_state"

definition program_length :: "'g vm \<Rightarrow> nat" where
  "program_length vm = (case program vm of None \<Rightarrow> 0 | Some p \<Rightarrow> length p)"

section \<open>Helpers\<close>

definition vm_fault :: "'g vm \<Rightarrow> reflex_vm_fault_kind \<Rightarrow> unit result \<times> 'g vm" where
  "vm_fault vm k = (Inl REFLEX_FAIL, vm\<lparr>status := REFLEX_VM_STATUS_FAULTED, fault := k\<rparr>)"

text \<open>
  The last check returns the fault number PC_OUT_OF_RANGE, 4, as the error code and leaves
  the VM as it is.
\<close>

definition reflex_vm_validate_state :: "'g vm \<Rightarrow> unit result" where
  "reflex_vm_validate_state vm =
     (case program vm of
        None \<Rightarrow> Inl REFLEX_ERR_INVALID_STATE
      | Some p \<Rightarrow>
          if \<not> length p > 0 then Inl REFLEX_ERR_INVALID_STATE
          else if \<not> ip vm < length p then Inl (RAW_ERR 4)
          else Inr ())"

definition reflex_vm_register_index_valid :: "nat \<Rightarrow> bool" where
  "reflex_vm_register_index_valid index \<longleftrightarrow> index < REFLEX_VM_REGISTER_COUNT"

definition reflex_vm_branch_trit :: "word18 \<Rightarrow> int" where
  "reflex_vm_branch_trit w = w ! REFLEX_VM_COMPARE_TRIT_INDEX"

definition reflex_vm_jump :: "'g vm \<Rightarrow> int \<Rightarrow> unit result \<times> 'g vm" where
  "reflex_vm_jump vm target =
     (if target < 0 \<or> nat target \<ge> program_length vm then vm_fault vm REFLEX_VM_FAULT_PC_OUT_OF_RANGE
      else (Inr (), vm\<lparr>ip := nat target\<rparr>))"

text \<open>The operands each opcode has checked; the opcodes not listed are not checked at all.\<close>

definition operands_valid :: "reflex_vm_instruction \<Rightarrow> bool" where
  "operands_valid i =
     (let v = reflex_vm_register_index_valid in
      case opcode i of
        TNOP \<Rightarrow> True
      | THALT \<Rightarrow> True
      | TLDI \<Rightarrow> v (dst i)
      | TMOV \<Rightarrow> v (dst i) \<and> v (src_a i)
      | TADD \<Rightarrow> v (dst i) \<and> v (src_a i) \<and> v (src_b i)
      | TSUB \<Rightarrow> v (dst i) \<and> v (src_a i) \<and> v (src_b i)
      | TCMP \<Rightarrow> v (dst i) \<and> v (src_a i) \<and> v (src_b i)
      | TSEL \<Rightarrow> v (dst i) \<and> v (src_a i) \<and> v (src_b i)
      | TJMP \<Rightarrow> True
      | TSYS \<Rightarrow> v (dst i) \<and> v (src_a i) \<and> v (src_b i)
      | TBRNEG \<Rightarrow> v (src_a i)
      | TBRZERO \<Rightarrow> v (src_a i)
      | TBRPOS \<Rightarrow> v (src_a i)
      | TSENSE \<Rightarrow> v (src_a i)
      | TINV \<Rightarrow> v (src_a i)
      | TROUTE \<Rightarrow> v (dst i) \<and> v (src_a i) \<and> v (src_b i)
      | TBIAS \<Rightarrow> v (dst i) \<and> v (src_a i)
      | TLD \<Rightarrow> v (dst i) \<and> v (src_a i)
      | TST \<Rightarrow> v (dst i) \<and> v (src_a i)
      | TSEND \<Rightarrow> v (dst i) \<and> v (src_a i)
      | TRECV \<Rightarrow> v (dst i)
      | TFLUSH \<Rightarrow> True
      | BAD_OPCODE _ \<Rightarrow> True)"

definition reflex_vm_validate_registers :: "'g vm \<Rightarrow> reflex_vm_instruction \<Rightarrow> unit result \<times> 'g vm" where
  "reflex_vm_validate_registers vm i =
     (if operands_valid i then (Inr (), vm) else vm_fault vm REFLEX_VM_FAULT_INVALID_REGISTER)"

definition reflex_vm_reset :: "'g vm \<Rightarrow> 'g vm" where
  "reflex_vm_reset vm =
     vm\<lparr>registers := replicate REFLEX_VM_REGISTER_COUNT reflex_word18_zero,
        status := REFLEX_VM_STATUS_READY, fault := REFLEX_VM_FAULT_NONE, ip := 0, steps_executed := 0\<rparr>"

definition set_reg :: "'g vm \<Rightarrow> nat \<Rightarrow> word18 \<Rightarrow> 'g vm" where
  "set_reg vm r w = vm\<lparr>registers := (registers vm)[r := w]\<rparr>"

text \<open>The accesses of the opcodes to the register file and the route manifest, None past their ends.\<close>

definition with_reg :: "'g vm \<Rightarrow> nat \<Rightarrow> (word18 \<Rightarrow> 'x option) \<Rightarrow> 'x option" where
  "with_reg vm r f = (if r < length (registers vm) then f (registers vm ! r) else None)"

definition set_route :: "'g vm \<Rightarrow> nat \<Rightarrow> vm_route \<Rightarrow> 'g vm option" where
  "set_route vm n r = (if n < length (route_manifest vm) then Some (vm\<lparr>route_manifest := (route_manifest vm)[n := r]\<rparr>) else None)"

text \<open>The cast of an int32 to uint32, as a natural.\<close>

definition to_uint32 :: "int \<Rightarrow> nat" where "to_uint32 v = nat (v mod 4294967296)"

text \<open>
  A NUL-terminated name from VM memory, read past the cache. The character buffer is the
  result; as a C string it ends at its first NUL. None: a word that is not a word18 leaves
  the character undefined.
\<close>

fun get_string_loop :: "vmem \<Rightarrow> nat \<Rightarrow> nat \<Rightarrow> string result option" where
  "get_string_loop m addr 0 = Some (Inr [])"
| "get_string_loop m addr (Suc n) =
     (case reflex_vm_mem_get_raw (vmmu m) (host m) (addr mod 4294967296) of
        Inl _ \<Rightarrow> Some (Inl REFLEX_FAIL)
      | Inr w \<Rightarrow>
          (case reflex_word18_to_int32 w of
             Inl _ \<Rightarrow> None
           | Inr v \<Rightarrow>
               if v = 0 then Some (Inr [])
               else (case get_string_loop m (addr + 1) n of
                       Some (Inr s) \<Rightarrow> Some (Inr (char_of (nat (v mod 256)) # s))
                     | r \<Rightarrow> r)))"

definition reflex_vm_get_string :: "vmem \<Rightarrow> nat \<Rightarrow> nat \<Rightarrow> string result option" where
  "reflex_vm_get_string m addr max_len =
     (case get_string_loop m addr (max_len - 1) of
        Some (Inr s) \<Rightarrow> Some (Inr (takeWhile (\<lambda>c. c \<noteq> CHR 0x00) s))
      | r \<Rightarrow> r)"

section \<open>The opcode groups\<close>

text \<open>\<open>Break\<close> leaves the switch for the common tail of the step; \<open>Return\<close> leaves the function.\<close>

datatype outcome = Break | Return "unit result"

text \<open>A fault returned from inside the switch.\<close>

definition fault_out :: "'w \<Rightarrow> 'g vm \<Rightarrow> reflex_vm_fault_kind \<Rightarrow> (outcome \<times> 'w \<times> 'g vm) option" where
  "fault_out w vm k = (let (r, vm1) = vm_fault vm k in Some (Return r, w, vm1))"

definition jump_out :: "'w \<Rightarrow> 'g vm \<Rightarrow> int \<Rightarrow> (outcome \<times> 'w \<times> 'g vm) option" where
  "jump_out w vm target = (let (r, vm1) = reflex_vm_jump vm target in Some (Return r, w, vm1))"

definition put_reg :: "'w \<Rightarrow> 'g vm \<Rightarrow> nat \<Rightarrow> word18 \<Rightarrow> (outcome \<times> 'w \<times> 'g vm) option" where
  "put_reg w vm d x = (if d < length (registers vm) then Some (Break, w, set_reg vm d x) else None)"

fun alu_out :: "'w \<Rightarrow> 'g vm \<Rightarrow> nat \<Rightarrow> reflex_vm_fault_kind \<Rightarrow> word18 result \<Rightarrow> (outcome \<times> 'w \<times> 'g vm) option" where
  "alu_out w vm d k (Inl e) = fault_out w vm k"
| "alu_out w vm d k (Inr x) = put_reg w vm d x"

definition exec_alu :: "reflex_vm_instruction \<Rightarrow> 'w \<Rightarrow> 'g vm \<Rightarrow> (outcome \<times> 'w \<times> 'g vm) option" where
  "exec_alu i w vm =
     (case opcode i of
        TLDI \<Rightarrow> alu_out w vm (dst i) REFLEX_VM_FAULT_INVALID_IMMEDIATE (reflex_word18_from_int32 (imm i))
      | TMOV \<Rightarrow> with_reg vm (src_a i) (\<lambda>a. put_reg w vm (dst i) a)
      | TADD \<Rightarrow> with_reg vm (src_a i) (\<lambda>a. with_reg vm (src_b i) (\<lambda>b.
          alu_out w vm (dst i) REFLEX_VM_FAULT_ARITHMETIC_OVERFLOW (reflex_word18_add a b)))
      | TSUB \<Rightarrow> with_reg vm (src_a i) (\<lambda>a. with_reg vm (src_b i) (\<lambda>b.
          alu_out w vm (dst i) REFLEX_VM_FAULT_ARITHMETIC_OVERFLOW (reflex_word18_subtract a b)))
      | TCMP \<Rightarrow> with_reg vm (src_a i) (\<lambda>a. with_reg vm (src_b i) (\<lambda>b.
          case reflex_word18_compare a b of
            Inl _ \<Rightarrow> fault_out w vm REFLEX_VM_FAULT_ARITHMETIC_OVERFLOW
          | Inr c \<Rightarrow> put_reg w vm (dst i) (reflex_word18_zero[REFLEX_VM_COMPARE_TRIT_INDEX := c])))
      | TSEL \<Rightarrow>
          (let neg_reg = nat (imm i AND 7); pos_reg = nat (drop_bit 3 (imm i) AND 7) in
           if neg_reg \<ge> REFLEX_VM_REGISTER_COUNT \<or> pos_reg \<ge> REFLEX_VM_REGISTER_COUNT
           then fault_out w vm REFLEX_VM_FAULT_INVALID_REGISTER
           else with_reg vm (src_a i) (\<lambda>a. with_reg vm neg_reg (\<lambda>n. with_reg vm (src_b i) (\<lambda>b. with_reg vm pos_reg (\<lambda>p.
             alu_out w vm (dst i) REFLEX_VM_FAULT_ARITHMETIC_OVERFLOW (reflex_word18_select (reflex_vm_branch_trit a) n b p))))))
      | _ \<Rightarrow> Some (Break, w, vm))"

definition exec_branch :: "reflex_vm_instruction \<Rightarrow> 'w \<Rightarrow> 'g vm \<Rightarrow> (outcome \<times> 'w \<times> 'g vm) option" where
  "exec_branch i w vm =
     (let branch_if = (\<lambda>t. with_reg vm (src_a i) (\<lambda>a.
            if reflex_vm_branch_trit a = t then jump_out w vm (imm i) else Some (Break, w, vm))) in
      case opcode i of
        TJMP \<Rightarrow> jump_out w vm (imm i)
      | TBRNEG \<Rightarrow> branch_if REFLEX_TRIT_NEG
      | TBRZERO \<Rightarrow> branch_if REFLEX_TRIT_ZERO
      | TBRPOS \<Rightarrow> branch_if REFLEX_TRIT_POS
      | _ \<Rightarrow> Some (Break, w, vm))"

definition exec_fabric :: "reflex_vm_instruction \<Rightarrow> 'g world \<Rightarrow> 'g vm \<Rightarrow> (outcome \<times> 'g world \<times> 'g vm) option" where
  "exec_fabric i w vm =
     (case opcode i of
        TSEND \<Rightarrow> with_reg vm (dst i) (\<lambda>d.
           case reflex_word18_to_int32 d of
             Inl e \<Rightarrow> Some (Return (Inl e), w, vm)
           | Inr target_node \<Rightarrow>
               if target_node < 0 \<or> target_node > 255 then fault_out w vm REFLEX_VM_FAULT_INVALID_IMMEDIATE
               else with_reg vm (src_a i) (\<lambda>a.
                  let msg = \<lparr>msg_to = word_of_int target_node, msg_from = node_id vm, msg_op = word_of_int (imm i),
                             channel = REFLEX_CHAN_SYSTEM, correlation_id = 0, payload = a\<rparr>;
                      (r, fb) = reflex_fabric_send (fabric w) msg;
                      w1 = w\<lparr>fabric := fb\<rparr>
                  in if is_ok r then Some (Break, w1, vm) else fault_out w1 vm REFLEX_VM_FAULT_INVALID_SYSCALL))
      | TRECV \<Rightarrow>
          (let (r, fb) = reflex_fabric_recv (fabric w) (node_id vm); w1 = w\<lparr>fabric := fb\<rparr> in
           case r of
             Inr m \<Rightarrow> put_reg w1 vm (dst i) (payload m)
           | Inl e \<Rightarrow>
               if e = REFLEX_ERR_NOT_FOUND then put_reg w1 vm (dst i) reflex_word18_zero
               else Some (Break, w1, vm))
      | _ \<Rightarrow> Some (Break, w, vm))"

definition exec_sys :: "reflex_vm_instruction \<Rightarrow> 'g world \<Rightarrow> 'g vm \<Rightarrow> (outcome \<times> 'g world \<times> 'g vm) option" where
  "exec_sys i w vm =
     (case opcode i of
        TSYS \<Rightarrow>
          (case syscall_handler vm of
             None \<Rightarrow> fault_out w vm REFLEX_VM_FAULT_INVALID_SYSCALL
           | Some h \<Rightarrow> with_reg vm (src_a i) (\<lambda>a. with_reg vm (src_b i) (\<lambda>b.
               let (r, w1) = h w (imm i) a b in alu_out w1 vm (dst i) REFLEX_VM_FAULT_INVALID_SYSCALL r)))
      | THALT \<Rightarrow> Some (Break, w, vm\<lparr>status := REFLEX_VM_STATUS_HALTED\<rparr>)
      | _ \<Rightarrow> Some (Break, w, vm))"

text \<open>Only TLD and TST look at the result of the memory operation; TFLUSH and TINV drop it.\<close>

definition exec_mem :: "reflex_vm_instruction \<Rightarrow> 'w \<Rightarrow> 'g vm \<Rightarrow> (outcome \<times> 'w \<times> 'g vm) option" where
  "exec_mem i w vm =
     (case opcode i of
        TLD \<Rightarrow> with_reg vm (src_a i) (\<lambda>a.
          case reflex_word18_to_int32 a of
             Inl e \<Rightarrow> Some (Return (Inl e), w, vm)
           | Inr addr \<Rightarrow>
               (let (r, m) = vm_mem_load (mem vm) (to_uint32 addr)
                in alu_out w (vm\<lparr>mem := m\<rparr>) (dst i) REFLEX_VM_FAULT_INVALID_MEMORY_ACCESS r))
      | TST \<Rightarrow> with_reg vm (dst i) (\<lambda>d.
          case reflex_word18_to_int32 d of
             Inl e \<Rightarrow> Some (Return (Inl e), w, vm)
           | Inr addr \<Rightarrow> with_reg vm (src_a i) (\<lambda>a.
                let (r, m) = vm_mem_store (mem vm) (to_uint32 addr) a
                in if is_ok r then Some (Break, w, vm\<lparr>mem := m\<rparr>)
                   else fault_out w (vm\<lparr>mem := m\<rparr>) REFLEX_VM_FAULT_INVALID_MEMORY_ACCESS))
      | TFLUSH \<Rightarrow> with_reg vm (src_a i) (\<lambda>a.
          case reflex_word18_to_int32 a of
             Inl e \<Rightarrow> Some (Return (Inl e), w, vm)
           | Inr addr \<Rightarrow>
               Some (Break, w, if vcache (mem vm) \<noteq> None
                               then vm\<lparr>mem := snd (reflex_cache_flush (mem vm) (to_uint32 addr))\<rparr> else vm))
      | TINV \<Rightarrow> with_reg vm (src_a i) (\<lambda>a.
          case reflex_word18_to_int32 a of
             Inl e \<Rightarrow> Some (Return (Inl e), w, vm)
           | Inr addr \<Rightarrow>
               Some (Break, w, if vcache (mem vm) \<noteq> None
                               then vm\<lparr>mem := snd (reflex_cache_flush_invalidate (mem vm) (to_uint32 addr))\<rparr> else vm))
      | _ \<Rightarrow> Some (Break, w, vm))"

text \<open>A small constant into the destination; the conversion of 1 and -1 cannot fail.\<close>

definition put_small :: "'w \<Rightarrow> 'g vm \<Rightarrow> nat \<Rightarrow> int \<Rightarrow> (outcome \<times> 'w \<times> 'g vm) option" where
  "put_small w vm d v = (case reflex_word18_from_int32 v of Inl _ \<Rightarrow> Some (Break, w, vm) | Inr x \<Rightarrow> put_reg w vm d x)"

text \<open>A cell named by VM memory or by the first nine trits of a register.\<close>

definition cell_by_name :: "'g goose_ops \<Rightarrow> 'g world \<Rightarrow> string \<Rightarrow> vm_cell option \<times> 'g world" where
  "cell_by_name G w nm = (let (c, g) = g_get_cell G (goose w) nm in (c, w\<lparr>goose := g\<rparr>))"

definition route_ends ::
    "'g goose_ops \<Rightarrow> reflex_vm_instruction \<Rightarrow> 'g world \<Rightarrow> 'g vm
      \<Rightarrow> (vm_cell option \<times> vm_cell option \<times> 'g world) option" where
  "route_ends G i w vm =
     with_reg vm (src_a i) (\<lambda>a. with_reg vm (src_b i) (\<lambda>b.
      if imm i = 0 then
        (case (reflex_word18_to_int32 a, reflex_word18_to_int32 b) of
           (Inr src_addr, Inr sink_addr) \<Rightarrow>
             (case reflex_vm_get_string (mem vm) (to_uint32 src_addr) 16 of
                None \<Rightarrow> None
              | Some (Inl _) \<Rightarrow> Some (None, None, w)
              | Some (Inr src_name) \<Rightarrow>
                  (case reflex_vm_get_string (mem vm) (to_uint32 sink_addr) 16 of
                     None \<Rightarrow> None
                   | Some (Inl _) \<Rightarrow> Some (None, None, w)
                   | Some (Inr sink_name) \<Rightarrow>
                       (let (src, w1) = cell_by_name G w src_name; (snk, w2) = cell_by_name G w1 sink_name
                        in Some (src, snk, w2))))
         | _ \<Rightarrow> None)
      else Some (g_get_cell_by_coord G (goose w) (take 9 a), g_get_cell_by_coord G (goose w) (take 9 b), w)))"

definition vm_route_name :: "nat \<Rightarrow> string" where
  "vm_route_name n = ''vm_r'' @ [char_of (48 + n)]"

definition exec_goose :: "'g goose_ops \<Rightarrow> reflex_vm_instruction \<Rightarrow> 'g world \<Rightarrow> 'g vm \<Rightarrow> (outcome \<times> 'g world \<times> 'g vm) option" where
  "exec_goose G i w vm =
     (case opcode i of
        TROUTE \<Rightarrow>
          (case route_ends G i w vm of
             None \<Rightarrow> None
           | Some (Some source, Some sink, w1) \<Rightarrow>
               if route_count vm < REFLEX_VM_MAX_ROUTES then
                 (let n = route_count vm + 1;
                      r = \<lparr>rname = vm_route_name n, source_coord = ccoord source, sink_coord = ccoord sink, orientation = 1\<rparr>
                  in case set_route vm (route_count vm) r of
                       None \<Rightarrow> None
                     | Some vm1 \<Rightarrow> put_small (w1\<lparr>goose := g_apply_route G (goose w1) r\<rparr>) (vm1\<lparr>route_count := n\<rparr>) (dst i) 1)
               else put_small w1 vm (dst i) (-1)
           | Some (_, _, w1) \<Rightarrow> put_small w1 vm (dst i) (-1))
      | TBIAS \<Rightarrow> with_reg vm (src_a i) (\<lambda>a. with_reg vm (src_b i) (\<lambda>b.
           case (reflex_word18_to_int32 a, reflex_word18_to_int32 b) of
             (Inr route_idx, Inr bias) \<Rightarrow>
               if route_idx \<ge> 0 \<and> nat route_idx < route_count vm then
                 (case set_route vm (nat route_idx) ((route_manifest vm ! nat route_idx)\<lparr>orientation := bias\<rparr>) of
                    None \<Rightarrow> None
                  | Some vm1 \<Rightarrow> put_small w vm1 (dst i) 1)
               else put_small w vm (dst i) (-1)
           | _ \<Rightarrow> None))
      | TSENSE \<Rightarrow> with_reg vm (src_a i) (\<lambda>a.
          let put = (\<lambda>c w1. put_reg w1 vm (dst i) (reflex_word18_zero[0 := (case c of None \<Rightarrow> 0 | Some cl \<Rightarrow> cstate cl)]))
          in if imm i = 0 then
             (case reflex_word18_to_int32 a of
                Inl _ \<Rightarrow> None
              | Inr name_addr \<Rightarrow>
                  (case reflex_vm_get_string (mem vm) (to_uint32 name_addr) 16 of
                     None \<Rightarrow> None
                   | Some (Inl _) \<Rightarrow> put None w
                   | Some (Inr nm) \<Rightarrow> (let (c, w1) = cell_by_name G w nm in put c w1)))
           else put (g_get_cell_by_coord G (goose w) (take 9 a)) w)
      | _ \<Rightarrow> Some (Break, w, vm))"

section \<open>The step and the run\<close>

definition exec_instruction ::
    "'g goose_ops \<Rightarrow> reflex_vm_instruction \<Rightarrow> 'g world \<Rightarrow> 'g vm \<Rightarrow> (outcome \<times> 'g world \<times> 'g vm) option" where
  "exec_instruction G i w vm =
     (case opcode i of
        TNOP \<Rightarrow> Some (Break, w, vm)
      | TLDI \<Rightarrow> exec_alu i w vm
      | TMOV \<Rightarrow> exec_alu i w vm
      | TADD \<Rightarrow> exec_alu i w vm
      | TSUB \<Rightarrow> exec_alu i w vm
      | TCMP \<Rightarrow> exec_alu i w vm
      | TSEL \<Rightarrow> exec_alu i w vm
      | TJMP \<Rightarrow> exec_branch i w vm
      | TBRNEG \<Rightarrow> exec_branch i w vm
      | TBRZERO \<Rightarrow> exec_branch i w vm
      | TBRPOS \<Rightarrow> exec_branch i w vm
      | TSEND \<Rightarrow> exec_fabric i w vm
      | TRECV \<Rightarrow> exec_fabric i w vm
      | TSYS \<Rightarrow> exec_sys i w vm
      | THALT \<Rightarrow> exec_sys i w vm
      | TLD \<Rightarrow> exec_mem i w vm
      | TST \<Rightarrow> exec_mem i w vm
      | TFLUSH \<Rightarrow> exec_mem i w vm
      | TINV \<Rightarrow> exec_mem i w vm
      | TROUTE \<Rightarrow> exec_goose G i w vm
      | TBIAS \<Rightarrow> exec_goose G i w vm
      | TSENSE \<Rightarrow> exec_goose G i w vm
      | BAD_OPCODE _ \<Rightarrow> fault_out w vm REFLEX_VM_FAULT_INVALID_OPCODE)"

text \<open>The check of \<open>ip\<close> after the status checks can no longer fire and is kept as in the code.\<close>

definition reflex_vm_step :: "'g goose_ops \<Rightarrow> 'g world \<Rightarrow> 'g vm \<Rightarrow> (unit result \<times> 'g world \<times> 'g vm) option" where
  "reflex_vm_step G w vm =
     (case reflex_vm_validate_state vm of
        Inl e \<Rightarrow> Some (Inl e, w, vm)
      | Inr _ \<Rightarrow>
          if status vm = REFLEX_VM_STATUS_HALTED then Some (Inl REFLEX_ERR_INVALID_STATE, w, vm)
          else if status vm = REFLEX_VM_STATUS_FAULTED then Some (Inl REFLEX_FAIL, w, vm)
          else if ip vm \<ge> program_length vm then
            (let (r, vm1) = vm_fault vm REFLEX_VM_FAULT_PC_OUT_OF_RANGE in Some (r, w, vm1))
          else
            let i = the (program vm) ! ip vm;
                (r, vm1) = reflex_vm_validate_registers (vm\<lparr>status := REFLEX_VM_STATUS_RUNNING\<rparr>) i
            in case r of
                 Inl e \<Rightarrow> Some (Inl e, w, vm1)
               | Inr _ \<Rightarrow>
                   (case exec_instruction G i w (vm1\<lparr>ip := ip vm1 + 1, steps_executed := steps_executed vm1 + 1\<rparr>) of
                      None \<Rightarrow> None
                    | Some (Return r1, w1, vm2) \<Rightarrow> Some (r1, w1, vm2)
                    | Some (Break, w1, vm2) \<Rightarrow>
                        Some (Inr (), w1, if status vm2 = REFLEX_VM_STATUS_RUNNING
                                          then vm2\<lparr>status := REFLEX_VM_STATUS_READY\<rparr> else vm2)))"

definition reflex_hal_time_us :: "'g world \<Rightarrow> nat \<times> 'g world" where
  "reflex_hal_time_us w = (clock w (reads w), w\<lparr>reads := reads w + 1\<rparr>)"

text \<open>The unsigned 64-bit difference of two clock readings.\<close>

definition elapsed_us :: "nat \<Rightarrow> nat \<Rightarrow> nat" where
  "elapsed_us now started = nat ((int now - int started) mod 2 ^ 64)"

text \<open>The loop, with \<open>n\<close> steps of the budget left.\<close>

fun run_loop :: "'g goose_ops \<Rightarrow> nat \<Rightarrow> nat \<Rightarrow> nat \<Rightarrow> 'g world \<Rightarrow> 'g vm \<Rightarrow> (unit result \<times> 'g world \<times> 'g vm) option" where
  "run_loop G 0 budget_us started_us w vm =
     Some (if status vm = REFLEX_VM_STATUS_HALTED then Inr () else Inl REFLEX_ERR_TIMEOUT, w, vm)"
| "run_loop G (Suc n) budget_us started_us w vm =
     (if status vm = REFLEX_VM_STATUS_HALTED then Some (Inr (), w, vm)
      else case reflex_vm_step G w vm of
             None \<Rightarrow> None
           | Some (Inl e, w1, vm1) \<Rightarrow> Some (Inl e, w1, vm1)
           | Some (Inr _, w1, vm1) \<Rightarrow>
               if budget_us \<noteq> 0 then
                 (let (now, w2) = reflex_hal_time_us w1
                  in if elapsed_us now started_us \<ge> budget_us then Some (Inl REFLEX_ERR_TIMEOUT, w2, vm1)
                     else run_loop G n budget_us started_us w2 vm1)
               else run_loop G n budget_us started_us w1 vm1)"

definition reflex_vm_run_bounded ::
    "'g goose_ops \<Rightarrow> nat \<Rightarrow> nat \<Rightarrow> 'g world \<Rightarrow> 'g vm \<Rightarrow> (unit result \<times> 'g world \<times> 'g vm) option" where
  "reflex_vm_run_bounded G max_steps budget_us w vm =
     (if \<not> max_steps > 0 then Some (Inl REFLEX_ERR_INVALID_ARG, w, vm)
      else case reflex_vm_validate_state vm of
        Inl e \<Rightarrow> Some (Inl e, w, vm)
      | Inr _ \<Rightarrow>
          (let (started_us, w1) = (if budget_us \<noteq> 0 then reflex_hal_time_us w else (0, w))
           in run_loop G max_steps budget_us started_us w1 vm))"

definition reflex_vm_run :: "'g goose_ops \<Rightarrow> nat \<Rightarrow> 'g world \<Rightarrow> 'g vm \<Rightarrow> (unit result \<times> 'g world \<times> 'g vm) option" where
  "reflex_vm_run G max_steps w vm = reflex_vm_run_bounded G max_steps 0 w vm"

text \<open>Unload withdraws the VM's routes, forgets what it owned and resets the rest.\<close>

fun withdraw_routes :: "'g goose_ops \<Rightarrow> 'g \<Rightarrow> vm_route list \<Rightarrow> nat \<Rightarrow> nat \<Rightarrow> 'g \<times> vm_route list" where
  "withdraw_routes G g rs i 0 = (g, rs)"
| "withdraw_routes G g rs i (Suc n) =
     (let r = (rs ! i)\<lparr>orientation := REFLEX_TRIT_ZERO\<rparr>
      in withdraw_routes G (g_apply_route G g r) (rs[i := r]) (Suc i) n)"

definition reflex_vm_unload :: "'g goose_ops \<Rightarrow> 'g world \<Rightarrow> 'g vm \<Rightarrow> 'g world \<times> 'g vm" where
  "reflex_vm_unload G w vm =
     (let (g, rs) = withdraw_routes G (goose w) (route_manifest vm) 0 (route_count vm)
      in (w\<lparr>goose := g\<rparr>,
          reflex_vm_reset (vm\<lparr>route_manifest := rs, route_count := 0, program := None, owns_program := False,
             owned_private_memory := None, owned_private_memory_count := 0,
             mem := (mem vm)\<lparr>vmmu := reflex_vm_mmu_init\<rparr>\<rparr>)))"

end
