(* ===== verification/VM_Safety.thy ===== *)
theory VM_Safety imports VM_Interp begin

text \<open>
  What the interpreter promises: on a well-formed VM whose program names registers only,
  every step and every bounded run has a defined result and keeps the VM well-formed; a run
  takes at most its budget of steps; halted and faulted machines stay put.
\<close>

section \<open>Memory keeps valid words\<close>

definition words_ok :: "vmem \<Rightarrow> bool" where
  "words_ok m \<longleftrightarrow> host_ok (vmmu m) (host m) \<and> (\<forall>b. \<forall>x \<in> set (host m b). word18_ok x)
     \<and> (case vcache m of None \<Rightarrow> True
        | Some c \<Rightarrow> length (sets c) = REFLEX_CACHE_SET_COUNT \<and> (\<forall>l \<in> set (sets c). word18_ok (lvalue l)))"

lemma words_ok_cache:
  "words_ok m \<Longrightarrow> vcache m = Some c \<Longrightarrow> word18_ok (lvalue (sets c ! reflex_cache_get_index a))"
  by (auto simp: words_ok_def)

lemma get_raw_word:
  assumes "words_ok m" "reflex_vm_mem_get_raw (vmmu m) (host m) a = Inr w" shows "word18_ok w"
proof -
  from assms(2) obtain b off where "reflex_vm_mmu_translate (vmmu m) a = Inr (b, off)" "w = host m b ! off"
    by (auto simp: reflex_vm_mem_get_raw_def err_simps)
  moreover from this have "off < length (host m b)"
    using assms(1) translate_in_bounds by (auto simp: words_ok_def)
  moreover from this have "host m b ! off \<in> set (host m b)" by simp
  ultimately show ?thesis using assms(1) unfolding words_ok_def by blast
qed

lemma set_raw_words:
  assumes "words_ok m" "word18_ok w" "reflex_vm_mem_set_raw (vmmu m) (host m) a w = Inr h"
  shows "words_ok (m\<lparr>host := h\<rparr>)"
proof -
  from assms(3) obtain b off where h: "h = (host m)(b := (host m b)[off := w])"
    by (auto simp: reflex_vm_mem_set_raw_def err_simps)
  have "word18_ok x" if "x \<in> set (h b')" for b' x
    using that assms(1,2) set_update_subset_insert [of "host m b" off w]
    unfolding h words_ok_def by (cases "b' = b") auto
  moreover have "host_ok (vmmu m) h" using assms(1) by (auto simp: words_ok_def host_ok_def h)
  ultimately show ?thesis using assms(1) by (simp add: words_ok_def)
qed

lemma write_back_words:
  "\<lbrakk> words_ok m; word18_ok (lvalue l); write_back m l = Inr m' \<rbrakk> \<Longrightarrow> words_ok m' \<and> vcache m' = vcache m"
  using set_raw_words by (fastforce simp: write_back_def err_simps)

lemma words_ok_put:
  assumes "words_ok m" "vcache m = Some c" "sets c2 = (sets c)[ix := l]" "word18_ok (lvalue l)"
  shows "words_ok (m\<lparr>vcache := Some c2\<rparr>)"
  using assms set_update_subset_insert [of "sets c" ix l] by (auto simp: words_ok_def)

lemma words_ok_counters:
  "words_ok m \<Longrightarrow> vcache m = Some c \<Longrightarrow> sets c2 = sets c \<Longrightarrow> words_ok (m\<lparr>vcache := Some c2\<rparr>)"
  by (simp add: words_ok_def)

lemma load_words:
  assumes "words_ok m" "vm_mem_load m a = (r, m')"
  shows "words_ok m' \<and> (\<forall>w. r = Inr w \<longrightarrow> word18_ok w)"
proof (cases "vcache m")
  case None
  with assms get_raw_word [OF assms(1)] show ?thesis by (auto simp: vm_mem_load_def)
next
  case (Some c)
  let ?L = "sets c ! reflex_cache_get_index a"
  let ?c1 = "c\<lparr>misses := misses c + 1\<rparr>"
  let ?c2 = "if lstate ?L = REFLEX_CACHE_M then ?c1\<lparr>evictions := evictions ?c1 + 1\<rparr> else ?c1"
  note L = words_ok_cache [OF assms(1) Some, of a]
  have m2: "words_ok (m\<lparr>vcache := Some ?c2\<rparr>)" by (rule words_ok_counters [OF assms(1) Some]) simp
  have hit: "words_ok (m\<lparr>vcache := Some (c\<lparr>hits := hits c + 1\<rparr>)\<rparr>)" by (rule words_ok_counters [OF assms(1) Some]) simp
  have ld: "reflex_cache_load m a = (r, m')" using assms(2) Some by (simp add: vm_mem_load_def)
  show ?thesis
  proof (cases "lstate ?L \<noteq> REFLEX_CACHE_I \<and> tag ?L = a")
    case True
    with ld Some hit L show ?thesis by (auto simp: reflex_cache_load_def Let_def)
  next
    case False
    show ?thesis
    proof (cases "if lstate ?L = REFLEX_CACHE_M then write_back (m\<lparr>vcache := Some ?c2\<rparr>) ?L else Inr (m\<lparr>vcache := Some ?c2\<rparr>)")
      case (Inl e)
      then have "m' = m\<lparr>vcache := Some ?c2\<rparr> \<and> r = Inl e"
        using ld unfolding reflex_cache_load_def Let_def Some option.case if_not_P [OF False] by simp
      with m2 show ?thesis by simp
    next
      case (Inr m3)
      then have m3: "words_ok m3" "vcache m3 = Some ?c2"
        using write_back_words [OF m2 L] m2 by (auto split: if_splits)
      have l2: "(case reflex_vm_mem_get_raw (vmmu m3) (host m3) a of
                      Inl e \<Rightarrow> (Inl e, m3)
                    | Inr w \<Rightarrow> (Inr w, m3\<lparr>vcache := Some (put_line ?c2 (reflex_cache_get_index a)
                          \<lparr>tag = a, lstate = REFLEX_CACHE_E, lvalue = w\<rparr>)\<rparr>)) = (r, m')"
        using ld Inr unfolding reflex_cache_load_def Let_def Some option.case if_not_P [OF False] by simp
      then show ?thesis
        using m3 get_raw_word [OF m3(1)] words_ok_put [OF m3 put_line_simps]
        by (auto split: sum.splits)
    qed
  qed
qed

lemma store_words:
  assumes "words_ok m" "word18_ok w" "vm_mem_store m a w = (r, m')"
  shows "words_ok m'"
proof (cases "vcache m")
  case None
  with assms set_raw_words [OF assms(1,2), of a] show ?thesis
    by (auto simp: vm_mem_store_def split: sum.splits)
next
  case (Some c)
  let ?L = "sets c ! reflex_cache_get_index a"
  let ?d = "lstate ?L = REFLEX_CACHE_M \<and> tag ?L \<noteq> a"
  let ?c2 = "if ?d then c\<lparr>evictions := evictions c + 1\<rparr> else c"
  note L = words_ok_cache [OF assms(1) Some, of a]
  have m2: "words_ok (m\<lparr>vcache := Some ?c2\<rparr>)" by (rule words_ok_counters [OF assms(1) Some]) simp
  have st: "reflex_cache_store m a w = (r, m')" using assms(3) Some by (simp add: vm_mem_store_def)
  show ?thesis
  proof (cases "if ?d then write_back (m\<lparr>vcache := Some ?c2\<rparr>) ?L else Inr (m\<lparr>vcache := Some ?c2\<rparr>)")
    case (Inl e)
    then have "m' = m\<lparr>vcache := Some ?c2\<rparr>"
      using st unfolding reflex_cache_store_def Let_def Some option.case by simp
    with m2 show ?thesis by simp
  next
    case (Inr m3)
    then have m3: "words_ok m3" "vcache m3 = Some ?c2"
      using write_back_words [OF m2 L] m2 by (auto split: if_splits)
    have "m' = m3\<lparr>vcache := Some (put_line ?c2 (reflex_cache_get_index a) \<lparr>tag = a, lstate = REFLEX_CACHE_M, lvalue = w\<rparr>)\<rparr>"
      using st Inr unfolding reflex_cache_store_def Let_def Some option.case by simp
    with words_ok_put [OF m3 put_line_simps] assms(2) show ?thesis by simp
  qed
qed

lemma flush_words:
  assumes "words_ok m" shows "words_ok (snd (reflex_cache_flush m a))"
proof (cases "vcache m")
  case None
  with assms show ?thesis by (simp add: reflex_cache_flush_def)
next
  case (Some c)
  let ?L = "sets c ! reflex_cache_get_index a"
  note L = words_ok_cache [OF assms Some, of a]
  have "words_ok (m2\<lparr>vcache := Some (put_line c (reflex_cache_get_index a) (?L\<lparr>lstate := REFLEX_CACHE_E\<rparr>))\<rparr>)"
    if "write_back m ?L = Inr m2" for m2
    using write_back_words [OF assms L that] words_ok_put [of m2 c, OF _ _ put_line_simps] Some L by auto
  with assms Some show ?thesis by (simp add: reflex_cache_flush_def Let_def split: sum.splits)
qed

lemma invalidate_words:
  assumes "words_ok m" shows "words_ok (snd (reflex_cache_invalidate m a))"
proof (cases "vcache m")
  case None
  with assms show ?thesis by (simp add: reflex_cache_invalidate_def)
next
  case (Some c)
  with words_ok_cache [OF assms Some, of a] words_ok_put [OF assms Some put_line_simps] assms
  show ?thesis by (auto simp: reflex_cache_invalidate_def Let_def)
qed

lemma flush_invalidate_words:
  assumes "words_ok m" shows "words_ok (snd (reflex_cache_flush_invalidate m a))"
  using flush_words [OF assms, of a] invalidate_words [of "snd (reflex_cache_flush m a)" a]
  by (auto simp: reflex_cache_flush_invalidate_def split: prod.splits sum.splits)

lemmas mem_words = load_words store_words flush_words flush_invalidate_words


section \<open>The invariant of a VM and of its world\<close>

definition vm_ok :: "'g vm \<Rightarrow> bool" where
  "vm_ok vm \<longleftrightarrow> length (registers vm) = REFLEX_VM_REGISTER_COUNT \<and> (\<forall>w \<in> set (registers vm). word18_ok w)
     \<and> words_ok (mem vm) \<and> length (route_manifest vm) = REFLEX_VM_MAX_ROUTES \<and> route_count vm \<le> REFLEX_VM_MAX_ROUTES"

text \<open>The operands that the register check skips. The packed image format cannot exceed them: its fields are three bits.\<close>

definition instruction_safe :: "reflex_vm_instruction \<Rightarrow> bool" where
  "instruction_safe i \<longleftrightarrow> (case opcode i of
       TFLUSH \<Rightarrow> src_a i < REFLEX_VM_REGISTER_COUNT
     | TBIAS \<Rightarrow> src_b i < REFLEX_VM_REGISTER_COUNT
     | TSENSE \<Rightarrow> dst i < REFLEX_VM_REGISTER_COUNT
     | _ \<Rightarrow> True)"

definition program_safe :: "'g vm \<Rightarrow> bool" where
  "program_safe vm \<longleftrightarrow> (case program vm of None \<Rightarrow> True | Some p \<Rightarrow> list_all instruction_safe p)"

definition inboxes_ok :: "fabric_state \<Rightarrow> bool" where
  "inboxes_ok f \<longleftrightarrow> fabric_ok f \<and> (\<forall>n. \<forall>m \<in> set (inbox f n). word18_ok (payload m))"

text \<open>A substrate whose cells are in a ternary state, and a host handler that answers words.\<close>

definition goose_ok :: "'g goose_ops \<Rightarrow> bool" where
  "goose_ok G \<longleftrightarrow> (\<forall>g s c. fst (g_get_cell G g s) = Some c \<longrightarrow> reflex_trit_is_valid (cstate c))
     \<and> (\<forall>g x c. g_get_cell_by_coord G g x = Some c \<longrightarrow> reflex_trit_is_valid (cstate c))"

definition handler_ok :: "'g world syscall_fn option \<Rightarrow> bool" where
  "handler_ok h \<longleftrightarrow> (case h of None \<Rightarrow> True
     | Some f \<Rightarrow> \<forall>w n a b. fabric (snd (f w n a b)) = fabric w
          \<and> (\<forall>x. fst (f w n a b) = Inr x \<longrightarrow> word18_ok a \<longrightarrow> word18_ok b \<longrightarrow> word18_ok x))"

text \<open>What an instruction keeps: the outcome of executing it is defined, and this holds of it.\<close>

definition keeps :: "'g vm \<Rightarrow> (outcome \<times> 'g world \<times> 'g vm) option \<Rightarrow> bool" where
  "keeps vm r \<longleftrightarrow> (\<exists>out w' vm'. r = Some (out, w', vm') \<and> vm_ok vm' \<and> inboxes_ok (fabric w')
     \<and> program vm' = program vm \<and> syscall_handler vm' = syscall_handler vm \<and> steps_executed vm' = steps_executed vm
     \<and> node_id vm' = node_id vm)"

lemma reg_ok: "vm_ok vm \<Longrightarrow> r < REFLEX_VM_REGISTER_COUNT \<Longrightarrow> word18_ok (registers vm ! r)"
  by (simp add: vm_ok_def)

lemma access_ok:
  "vm_ok vm \<Longrightarrow> r < REFLEX_VM_REGISTER_COUNT \<Longrightarrow> with_reg vm r f = f (registers vm ! r)"
  "vm_ok vm \<Longrightarrow> r < REFLEX_VM_REGISTER_COUNT \<Longrightarrow> put_reg w vm r x = Some (Break, w, set_reg vm r x)"
  "vm_ok vm \<Longrightarrow> n < REFLEX_VM_MAX_ROUTES \<Longrightarrow> set_route vm n rt = Some (vm\<lparr>route_manifest := (route_manifest vm)[n := rt]\<rparr>)"
  by (simp_all add: vm_ok_def with_reg_def put_reg_def set_route_def)

lemma set_reg_ok [inv_intros]: "vm_ok vm \<Longrightarrow> word18_ok x \<Longrightarrow> vm_ok (set_reg vm r x)"
  using set_update_subset_insert [of "registers vm" r x] by (auto simp: vm_ok_def set_reg_def)

lemma set_reg_simps [simp]:
  "program (set_reg vm r x) = program vm" "syscall_handler (set_reg vm r x) = syscall_handler vm"
  "steps_executed (set_reg vm r x) = steps_executed vm" "node_id (set_reg vm r x) = node_id vm"
  "mem (set_reg vm r x) = mem vm" "status (set_reg vm r x) = status vm" "ip (set_reg vm r x) = ip vm"
  by (simp_all add: set_reg_def)

lemma keeps_fault: "vm_ok vm' \<Longrightarrow> inboxes_ok (fabric w) \<Longrightarrow> program vm' = program vm \<Longrightarrow>
    syscall_handler vm' = syscall_handler vm \<Longrightarrow> steps_executed vm' = steps_executed vm \<Longrightarrow> node_id vm' = node_id vm
    \<Longrightarrow> keeps vm (fault_out w vm' k)"
  by (simp add: keeps_def fault_out_def vm_fault_def vm_ok_def)

lemma keeps_same: "vm_ok vm \<Longrightarrow> inboxes_ok (fabric w) \<Longrightarrow> keeps vm (Some (out, w, vm))"
  by (simp add: keeps_def)

lemma keeps_jump: "vm_ok vm \<Longrightarrow> inboxes_ok (fabric w) \<Longrightarrow> keeps vm (jump_out w vm t)"
  by (simp add: keeps_def jump_out_def reflex_vm_jump_def vm_fault_def vm_ok_def)

lemma keeps_alu:
  assumes "vm_ok vm'" "inboxes_ok (fabric w)" "program vm' = program vm" "syscall_handler vm' = syscall_handler vm"
    "steps_executed vm' = steps_executed vm" "node_id vm' = node_id vm" and "\<And>x. r = Inr x \<Longrightarrow> word18_ok x"
    and "d < REFLEX_VM_REGISTER_COUNT"
  shows "keeps vm (alu_out w vm' d k r)"
proof (cases r)
  case (Inl e)
  with keeps_fault [OF assms(1-6)] show ?thesis by simp
next
  case (Inr x)
  with assms set_reg_ok [OF assms(1), of x d] show ?thesis by (simp add: keeps_def access_ok)
qed

lemma keeps_put:
  assumes "vm_ok vm'" "inboxes_ok (fabric w)" "program vm' = program vm" "syscall_handler vm' = syscall_handler vm"
    "steps_executed vm' = steps_executed vm" "node_id vm' = node_id vm" and "word18_ok x" "d < REFLEX_VM_REGISTER_COUNT"
  shows "keeps vm (put_reg w vm' d x)"
  using keeps_alu [OF assms(1-6), of "Inr x" d] assms(7,8) by simp

lemma keeps_small:
  assumes "vm_ok vm'" "inboxes_ok (fabric w)" "program vm' = program vm" "syscall_handler vm' = syscall_handler vm"
    "steps_executed vm' = steps_executed vm" "node_id vm' = node_id vm" and "d < REFLEX_VM_REGISTER_COUNT"
  shows "keeps vm (put_small w vm' d v)"
  using keeps_put [OF assms(1-6) _ assms(7)] assms from_int32_Inr [of v] by (auto simp: put_small_def keeps_def split: sum.splits)

lemmas keeps_intros = keeps_same keeps_jump keeps_alu keeps_fault

lemma add_ok: "reflex_word18_add a b = Inr x \<Longrightarrow> word18_ok a \<Longrightarrow> word18_ok b \<Longrightarrow> word18_ok x"
  by (cases "\<bar>tval a + tval b\<bar> \<le> word18_max") (use add_fits [of a b] add_overflows [of a b] in fastforce)+


lemma sub_ok: "reflex_word18_subtract a b = Inr x \<Longrightarrow> word18_ok a \<Longrightarrow> word18_ok b \<Longrightarrow> word18_ok x"
  by (simp add: subtract_eq_add) (rule add_ok [OF _ _ word18_ok_uminus])

lemma trit_word_ok: "reflex_trit_is_valid t \<Longrightarrow> word18_ok (reflex_word18_zero[0 := t])"
  using word18_ok_zero by (auto simp: word18_ok_def trits_ok_def intro: list_all_update)

lemma to_int32_of: "word18_ok w \<Longrightarrow> reflex_word18_to_int32 w = Inr (tval w)"
  by (rule to_int32_ok)

text \<open>One lemma per opcode group.\<close>

lemma alu_keeps:
  assumes ok: "vm_ok vm" "inboxes_ok (fabric w)" and v: "operands_valid i"
  shows "keeps vm (exec_alu i w vm)"
proof -
  have R: "r < REFLEX_VM_REGISTER_COUNT \<Longrightarrow> word18_ok (registers vm ! r)" for r by (rule reg_ok [OF ok(1)])
  have sgn: "reflex_trit_is_valid (sgn (n :: int))" for n by (simp add: reflex_trit_is_valid_def sgn_if)
  note V = operands_valid_def reflex_vm_register_index_valid_def Let_def
  show ?thesis
  proof (cases "opcode i")
    case TSEL
    have "word18_ok x" if "reflex_word18_select t (registers vm ! n) b (registers vm ! p) = Inr x"
      "word18_ok b" "n < REFLEX_VM_REGISTER_COUNT" "p < REFLEX_VM_REGISTER_COUNT" for x t n b p
      using select_ok [OF that(1)] that R by auto
    with TSEL v R ok show ?thesis
      by (auto simp: exec_alu_def V access_ok [OF ok(1)] intro!: keeps_intros)
  next
    case TCMP
    with v R ok show ?thesis
      by (auto simp: exec_alu_def V compare_sgn access_ok(1) [OF ok(1)] REFLEX_VM_COMPARE_TRIT_INDEX_def intro!: keeps_put trit_word_ok sgn)
  qed (use v R ok in \<open>auto simp: exec_alu_def V access_ok(1) [OF ok(1)] dest: from_int32_Inr add_ok sub_ok intro!: keeps_intros keeps_put\<close>)
qed

lemma branch_keeps:
  "vm_ok vm \<Longrightarrow> inboxes_ok (fabric w) \<Longrightarrow> operands_valid i \<Longrightarrow> keeps vm (exec_branch i w vm)"
  by (cases "opcode i") (auto simp: exec_branch_def operands_valid_def reflex_vm_register_index_valid_def Let_def access_ok intro!: keeps_intros)

lemma vm_ok_mem: "vm_ok vm \<Longrightarrow> words_ok m \<Longrightarrow> vm_ok (vm\<lparr>mem := m\<rparr>)"
  by (simp add: vm_ok_def)

lemma mem_keeps:
  assumes ok: "vm_ok vm" "inboxes_ok (fabric w)" and v: "operands_valid i" and s: "instruction_safe i"
  shows "keeps vm (exec_mem i w vm)"
proof -
  have R: "r < REFLEX_VM_REGISTER_COUNT \<Longrightarrow> word18_ok (registers vm ! r)" for r by (rule reg_ok [OF ok(1)])
  have m: "words_ok (mem vm)" using ok(1) by (simp add: vm_ok_def)
  show ?thesis
  proof (cases "opcode i")
    case TLD
    obtain r m' where l: "vm_mem_load (mem vm) (to_uint32 (tval (registers vm ! src_a i))) = (r, m')" by fastforce
    with load_words [OF m l] TLD v R ok show ?thesis
      by (auto simp: exec_mem_def operands_valid_def reflex_vm_register_index_valid_def to_int32_of access_ok
          intro!: keeps_alu vm_ok_mem)
  next
    case TST
    obtain r m' where l: "vm_mem_store (mem vm) (to_uint32 (tval (registers vm ! dst i))) (registers vm ! src_a i) = (r, m')"
      by fastforce
    have "words_ok m'" using store_words [OF m _ l] TST v R
      by (auto simp: operands_valid_def reflex_vm_register_index_valid_def)
    with l TST v R ok show ?thesis
      by (auto simp: exec_mem_def operands_valid_def reflex_vm_register_index_valid_def to_int32_of access_ok keeps_def
          intro!: vm_ok_mem keeps_fault [unfolded keeps_def])
  next
    case TFLUSH
    with s R ok flush_words [OF m] show ?thesis
      by (auto simp: exec_mem_def instruction_safe_def reflex_vm_register_index_valid_def to_int32_of access_ok keeps_def
          intro!: vm_ok_mem)
  next
    case TINV
    with v R ok flush_invalidate_words [OF m] show ?thesis
      by (auto simp: exec_mem_def operands_valid_def reflex_vm_register_index_valid_def to_int32_of access_ok keeps_def
          intro!: vm_ok_mem)
  qed (use ok in \<open>simp_all add: exec_mem_def keeps_def\<close>)
qed

lemma inboxes_send:
  assumes "inboxes_ok f" "word18_ok (payload msg)"
  shows "inboxes_ok (snd (reflex_fabric_send f msg))"
  using send_refines [of f msg] assms
  by (auto simp: inboxes_ok_def spec_send_def Let_def prod_eq_iff split: if_splits)

lemma inboxes_recv:
  assumes "inboxes_ok f"
  shows "inboxes_ok (snd (reflex_fabric_recv f n)) \<and> (\<forall>m. fst (reflex_fabric_recv f n) = Inr m \<longrightarrow> word18_ok (payload m))"
proof -
  have "\<forall>m \<in> set (inbox f (unat n)). word18_ok (payload m)" using assms by (simp add: inboxes_ok_def)
  with recv_refines [of f n] assms show ?thesis
    by (cases "inbox f (unat n)") (auto simp: inboxes_ok_def spec_recv_def prod_eq_iff split: if_splits)
qed

lemma fabric_keeps:
  assumes ok: "vm_ok vm" "inboxes_ok (fabric w)" and v: "operands_valid i"
  shows "keeps vm (exec_fabric i w vm)"
proof -
  have R: "r < REFLEX_VM_REGISTER_COUNT \<Longrightarrow> word18_ok (registers vm ! r)" for r by (rule reg_ok [OF ok(1)])
  show ?thesis
  proof (cases "opcode i")
    case TSEND
    let ?msg = "\<lparr>msg_to = word_of_int (tval (registers vm ! dst i)), msg_from = node_id vm, msg_op = word_of_int (imm i),
                 channel = REFLEX_CHAN_SYSTEM, correlation_id = 0, payload = registers vm ! src_a i\<rparr>"
    obtain r fb where s: "reflex_fabric_send (fabric w) ?msg = (r, fb)" by fastforce
    have "inboxes_ok fb" using inboxes_send [OF ok(2), of ?msg] s R TSEND v
      by (simp add: operands_valid_def reflex_vm_register_index_valid_def)
    with s TSEND v R ok show ?thesis
      by (auto simp: exec_fabric_def operands_valid_def reflex_vm_register_index_valid_def to_int32_of Let_def access_ok keeps_def
          intro!: keeps_fault [unfolded keeps_def])
  next
    case TRECV
    obtain r fb where s: "reflex_fabric_recv (fabric w) (node_id vm) = (r, fb)" by fastforce
    with inboxes_recv [OF ok(2), of "node_id vm"] TRECV v ok show ?thesis
      by (auto simp: exec_fabric_def Let_def operands_valid_def reflex_vm_register_index_valid_def intro!: keeps_put keeps_same split: sum.splits)
  qed (use ok in \<open>simp_all add: exec_fabric_def keeps_def\<close>)
qed

lemma sys_keeps:
  assumes ok: "vm_ok vm" "inboxes_ok (fabric w)" and v: "operands_valid i" and h: "handler_ok (syscall_handler vm)"
  shows "keeps vm (exec_sys i w vm)"
proof (cases "opcode i")
  case TSYS
  have R: "r < REFLEX_VM_REGISTER_COUNT \<Longrightarrow> word18_ok (registers vm ! r)" for r by (rule reg_ok [OF ok(1)])
  show ?thesis
  proof (cases "syscall_handler vm")
    case None
    with TSYS ok show ?thesis by (simp add: exec_sys_def keeps_fault)
  next
    case (Some f)
    obtain r w1 where f: "f w (imm i) (registers vm ! src_a i) (registers vm ! src_b i) = (r, w1)" by fastforce
    have a: "word18_ok (registers vm ! src_a i)" "word18_ok (registers vm ! src_b i)"
      using R v TSYS by (simp_all add: operands_valid_def reflex_vm_register_index_valid_def)
    have "fabric (snd (f w n x y)) = fabric w"
      "fst (f w n x y) = Inr z \<Longrightarrow> word18_ok x \<Longrightarrow> word18_ok y \<Longrightarrow> word18_ok z" for n x y z
      using h Some by (simp_all add: handler_ok_def)
    from this [of "imm i" "registers vm ! src_a i" "registers vm ! src_b i"] a
    have "fabric w1 = fabric w" "\<And>x. r = Inr x \<Longrightarrow> word18_ok x" by (simp_all add: f)
    with TSYS Some f ok v show ?thesis
      by (auto simp: exec_sys_def operands_valid_def reflex_vm_register_index_valid_def access_ok intro!: keeps_alu)
  qed
qed (use ok in \<open>simp_all add: exec_sys_def keeps_def vm_ok_def\<close>)

lemma get_string_defined:
  assumes "words_ok m" shows "\<exists>r. reflex_vm_get_string m a n = Some r"
proof -
  have "get_string_loop m a k \<noteq> None" for k
  proof (induction k arbitrary: a)
    case (Suc k)
    show ?case
    proof (cases "reflex_vm_mem_get_raw (vmmu m) (host m) (a mod 4294967296)")
      case (Inr x)
      with to_int32_of [OF get_raw_word [OF assms Inr]] Suc.IH [of "a + 1"] show ?thesis
        by (auto split: sum.splits)
    qed simp
  qed simp
  then show ?thesis by (auto simp: reflex_vm_get_string_def split: option.splits sum.splits)
qed

lemma cell_by_name_simps:
  "cell_by_name G w nm = (c, w') \<Longrightarrow> fabric w' = fabric w"
  "goose_ok G \<Longrightarrow> cell_by_name G w nm = (Some c', w') \<Longrightarrow> reflex_trit_is_valid (cstate c')"
  by (auto simp: cell_by_name_def goose_ok_def split: prod.splits) (metis fst_conv)

lemma route_ends_defined:
  assumes "vm_ok vm" "src_a i < REFLEX_VM_REGISTER_COUNT" "src_b i < REFLEX_VM_REGISTER_COUNT"
  shows "\<exists>a b w'. route_ends G i w vm = Some (a, b, w') \<and> fabric w' = fabric w"
proof -
  have m: "words_ok (mem vm)" using assms(1) by (simp add: vm_ok_def)
  show ?thesis
    using to_int32_of [OF reg_ok [OF assms(1,2)]] to_int32_of [OF reg_ok [OF assms(1,3)]]
      get_string_defined [OF m, of "to_uint32 (tval (registers vm ! src_a i))" 16]
      get_string_defined [OF m, of "to_uint32 (tval (registers vm ! src_b i))" 16]
    by (auto simp: route_ends_def cell_by_name_def access_ok [OF assms(1)] assms(2,3) Let_def split: sum.splits prod.splits)
qed

lemma goose_keeps:
  assumes ok: "vm_ok vm" "inboxes_ok (fabric w)" and v: "operands_valid i" and s: "instruction_safe i" and g: "goose_ok G"
  shows "keeps vm (exec_goose G i w vm)"
proof -
  have R: "r < REFLEX_VM_REGISTER_COUNT \<Longrightarrow> word18_ok (registers vm ! r)" for r by (rule reg_ok [OF ok(1)])
  have m: "words_ok (mem vm)" using ok(1) by (simp add: vm_ok_def)
  show ?thesis
  proof (cases "opcode i")
    case TROUTE
    obtain a b w' where e: "route_ends G i w vm = Some (a, b, w')" "fabric w' = fabric w"
      using route_ends_defined [OF ok(1), of i G w] TROUTE v
      by (auto simp: operands_valid_def reflex_vm_register_index_valid_def Let_def)
    have d: "dst i < REFLEX_VM_REGISTER_COUNT" using TROUTE v by (simp add: operands_valid_def reflex_vm_register_index_valid_def)
    have "vm_ok (vm\<lparr>route_manifest := (route_manifest vm)[n := x], route_count := k\<rparr>)" if "k \<le> REFLEX_VM_MAX_ROUTES" for n x k
      using ok(1) that by (simp add: vm_ok_def)
    with e TROUTE ok d show ?thesis
      by (cases a; cases b) (auto simp: exec_goose_def Let_def access_ok(3) [OF ok(1)] intro!: keeps_small)
  next
    case TBIAS
    have "vm_ok (vm\<lparr>route_manifest := (route_manifest vm)[n := x]\<rparr>)" "route_count vm \<le> REFLEX_VM_MAX_ROUTES" for n x using ok(1) by (simp_all add: vm_ok_def)
    with TBIAS v s R ok show ?thesis
      by (auto simp: exec_goose_def operands_valid_def instruction_safe_def reflex_vm_register_index_valid_def
          to_int32_of access_ok [OF ok(1)] intro!: keeps_small)
  next
    case TSENSE
    have a: "src_a i < REFLEX_VM_REGISTER_COUNT" "dst i < REFLEX_VM_REGISTER_COUNT"
      using TSENSE v s by (auto simp: operands_valid_def instruction_safe_def reflex_vm_register_index_valid_def Let_def)
    have z: "reflex_trit_is_valid 0" by (simp add: reflex_trit_is_valid_def)
    obtain r where r: "reflex_vm_get_string (mem vm) (to_uint32 (tval (registers vm ! src_a i))) 16 = Some r"
      using get_string_defined [OF m] by blast
    have P: "keeps vm (put_reg w1 vm (dst i) (reflex_word18_zero[0 := (case c of None \<Rightarrow> 0 | Some cl \<Rightarrow> cstate cl)]))"
      if "fabric w1 = fabric w" "\<And>cl. c = Some cl \<Longrightarrow> reflex_trit_is_valid (cstate cl)" for w1 :: "'a world" and c
      using that ok z a(2) by (auto intro!: keeps_put trit_word_ok split: option.splits)
    show ?thesis
    proof (cases "imm i = 0")
      case imm0: True
      note t = to_int32_of [OF reg_ok [OF ok(1) a(1)]]
      show ?thesis
      proof (cases r)
        case (Inl e)
        with TSENSE a r t P [of w None] imm0 show ?thesis
          by (simp add: exec_goose_def Let_def access_ok(1) [OF ok(1)])
      next
        case (Inr nm)
        obtain c w1 where c: "cell_by_name G w nm = (c, w1)" by fastforce
        have "keeps vm (put_reg w1 vm (dst i) (reflex_word18_zero[0 := (case c of None \<Rightarrow> 0 | Some cl \<Rightarrow> cstate cl)]))"
          by (rule P) (use c cell_by_name_simps(1) cell_by_name_simps(2) [OF g] in blast)+
        with TSENSE a r t Inr c imm0 show ?thesis
          by (simp add: exec_goose_def Let_def access_ok(1) [OF ok(1)])
      qed
    next
      case False
      let ?c = "g_get_cell_by_coord G (goose w) (take 9 (registers vm ! src_a i))"
      have "keeps vm (put_reg w vm (dst i) (reflex_word18_zero[0 := (case ?c of None \<Rightarrow> 0 | Some cl \<Rightarrow> cstate cl)]))"
        by (rule P) (use g in \<open>auto simp: goose_ok_def\<close>)
      with TSENSE a False show ?thesis
        by (simp add: exec_goose_def Let_def access_ok(1) [OF ok(1)])
    qed
  qed (use ok in \<open>simp_all add: exec_goose_def keeps_def\<close>)
qed


section \<open>The step\<close>

text \<open>At most \<open>n\<close> steps were counted between two states of a VM.\<close>

definition within_steps :: "nat \<Rightarrow> 'g vm \<Rightarrow> 'g vm \<Rightarrow> bool" where
  "within_steps n vm vm' \<longleftrightarrow> (\<exists>k \<le> n. steps_executed vm' = steps_executed vm + of_nat k)"

lemma within_steps_intros:
  "steps_executed vm' = steps_executed vm \<Longrightarrow> within_steps n vm vm'"
  "steps_executed vm' = steps_executed vm + 1 \<Longrightarrow> within_steps (Suc n) vm vm'"
  by (auto simp: within_steps_def intro: exI [of _ "0::nat"] exI [of _ "1::nat"])

lemma within_steps_trans: "within_steps (Suc 0) vm vm1 \<Longrightarrow> within_steps n vm1 vm2 \<Longrightarrow> within_steps (Suc n) vm vm2"
  unfolding within_steps_def
proof (elim exE conjE)
  fix k j :: nat
  assume "k \<le> Suc 0" "steps_executed vm1 = steps_executed vm + of_nat k" "j \<le> n" "steps_executed vm2 = steps_executed vm1 + of_nat j"
  then show "\<exists>i \<le> Suc n. steps_executed vm2 = steps_executed vm + of_nat i" by (intro exI [of _ "k + j"]) simp
qed

lemma within_steps_mono: "within_steps n vm vm' \<Longrightarrow> n \<le> m \<Longrightarrow> within_steps m vm vm'"
  unfolding within_steps_def using le_trans by blast

definition vm_good :: "'g goose_ops \<Rightarrow> 'g world \<Rightarrow> 'g vm \<Rightarrow> bool" where
  "vm_good G w vm \<longleftrightarrow> goose_ok G \<and> vm_ok vm \<and> inboxes_ok (fabric w) \<and> program_safe vm \<and> handler_ok (syscall_handler vm)"

lemma exec_keeps:
  assumes "goose_ok G" "vm_ok vm" "inboxes_ok (fabric w)" "operands_valid i" "instruction_safe i"
    "handler_ok (syscall_handler vm)"
  shows "keeps vm (exec_instruction G i w vm)"
  using assms alu_keeps [OF assms(2-4)] branch_keeps [OF assms(2-4)] mem_keeps [OF assms(2-5)]
    fabric_keeps [OF assms(2-4)] sys_keeps [OF assms(2-4,6)] goose_keeps [OF assms(2-5,1)]
    keeps_fault [OF assms(2,3)] keeps_same [OF assms(2,3)]
  by (cases "opcode i") (simp_all add: exec_instruction_def)

lemma program_safe_nth: "program_safe vm \<Longrightarrow> ip vm < program_length vm \<Longrightarrow> instruction_safe (the (program vm) ! ip vm)"
  by (auto simp: program_safe_def program_length_def list_all_length split: option.splits)

lemma validate_state_Inr: "reflex_vm_validate_state vm = Inr () \<longleftrightarrow> ip vm < program_length vm"
  by (auto simp: reflex_vm_validate_state_def program_length_def split: option.splits)

lemma step_good:
  assumes "vm_good G w vm"
  shows "\<exists>r w' vm'. reflex_vm_step G w vm = Some (r, w', vm') \<and> vm_good G w' vm' \<and> program vm' = program vm
    \<and> within_steps (Suc 0) vm vm'"
proof (cases "reflex_vm_validate_state vm")
  case (Inl e)
  with assms show ?thesis by (auto simp: reflex_vm_step_def intro!: within_steps_intros(1))
next
  case (Inr u)
  then have ip: "ip vm < program_length vm" by (simp add: validate_state_Inr flip: validate_state_Inr)
  let ?i = "the (program vm) ! ip vm"
  let ?r = "vm\<lparr>status := REFLEX_VM_STATUS_RUNNING\<rparr>"
  let ?x = "?r\<lparr>ip := ip ?r + 1, steps_executed := steps_executed ?r + 1\<rparr>"
  from assms have g: "goose_ok G" "vm_ok vm" "inboxes_ok (fabric w)" "program_safe vm" "handler_ok (syscall_handler vm)"
    by (simp_all add: vm_good_def)
  have upd: "program_safe vm' = program_safe vm" if "program vm' = program vm" for vm' :: "'a vm"
    using that by (simp add: program_safe_def)
  show ?thesis
  proof (cases "status vm \<in> {REFLEX_VM_STATUS_HALTED, REFLEX_VM_STATUS_FAULTED}")
    case True
    with Inr assms show ?thesis by (auto simp: reflex_vm_step_def intro!: within_steps_intros(1))
  next
    case running: False
    show ?thesis
    proof (cases "operands_valid ?i")
      case False
      have "vm_good G w (?r\<lparr>status := REFLEX_VM_STATUS_FAULTED, fault := REFLEX_VM_FAULT_INVALID_REGISTER\<rparr>)"
        using g by (simp add: vm_good_def vm_ok_def program_safe_def)
      with False running Inr ip show ?thesis
        by (auto simp: reflex_vm_step_def reflex_vm_validate_registers_def vm_fault_def Let_def intro!: within_steps_intros(1))
    next
      case True
      have "keeps ?x (exec_instruction G ?i w ?x)"
        by (rule exec_keeps) (use g True program_safe_nth [OF g(4) ip] in \<open>simp_all add: vm_ok_def\<close>)
      then obtain out w' vm' where e: "exec_instruction G ?i w ?x = Some (out, w', vm')" and k: "vm_ok vm'" "inboxes_ok (fabric w')"
        "program vm' = program vm" "syscall_handler vm' = syscall_handler vm" "steps_executed vm' = steps_executed vm + 1"
        by (auto simp: keeps_def)
      have good: "vm_good G w' vm'" using g k upd [OF k(3)] by (simp add: vm_good_def)
      have good': "vm_good G w' (vm'\<lparr>status := s\<rparr>)" for s
        using good by (simp add: vm_good_def vm_ok_def program_safe_def)
      show ?thesis
        using e running Inr ip True good good' k(3,5)
        by (cases out) (auto simp: reflex_vm_step_def reflex_vm_validate_registers_def Let_def intro!: within_steps_intros(2))
    qed
  qed
qed

text \<open>
  C1: no VM program has undefined behaviour. From a well-formed VM whose program names only
  registers r0 to r7 in the operands the register check skips (TFLUSH src_a, TBIAS src_b, TSENSE
  dst), a step has a defined result, so it reads and writes no register past the eight, no route
  past the four of the manifest and no integer left unset, and it leaves the VM, its memory words,
  its registers and the fabric's messages well-formed, with the same program.
\<close>

theorem vm_step_safe:
  assumes "vm_good G w vm"
  shows "\<exists>r w' vm'. reflex_vm_step G w vm = Some (r, w', vm') \<and> vm_good G w' vm' \<and> program vm' = program vm
    \<and> length (registers vm') = 8 \<and> (\<forall>x \<in> set (registers vm'). reflex_word18_is_valid x \<and> length x = 18)"
proof -
  obtain r w' vm' where s: "reflex_vm_step G w vm = Some (r, w', vm')" "vm_good G w' vm'" "program vm' = program vm"
    using step_good [OF assms] by blast
  then show ?thesis by (fastforce simp: vm_good_def vm_ok_def REFLEX_VM_REGISTER_COUNT_def word18_ok_def)
qed


text \<open>A concrete machine for the witnesses: no substrate, an initialised fabric, a given program.\<close>

definition idle_goose :: "unit goose_ops" where
  "idle_goose = \<lparr>g_get_cell = (\<lambda>g _. (None, g)), g_get_cell_by_coord = (\<lambda>_ _. None), g_apply_route = (\<lambda>g _. g)\<rparr>"

definition blank_message :: reflex_message where
  "blank_message = \<lparr>msg_to = 0, msg_from = 0, msg_op = 0, channel = REFLEX_CHAN_SYSTEM, correlation_id = 0,
     payload = reflex_word18_zero\<rparr>"

definition idle_world :: "unit world" where
  "idle_world = \<lparr>fabric = snd (reflex_fabric_init (\<lambda>i. Some (replicate 32 blank_message)) fabric_boot), goose = (),
     clock = (\<lambda>n. 1000 * n), reads = 0, console = [], delays = [], cfg_device_name = Inr ''reflex-os'', cfg_log_level = Inr 3\<rparr>"

text \<open>The zero-initialised VM that the code declares static, with a program.\<close>

definition vm_with_program :: "reflex_vm_instruction list \<Rightarrow> 'g vm" where
  "vm_with_program p = \<lparr>status = REFLEX_VM_STATUS_READY, fault = REFLEX_VM_FAULT_NONE, ip = 0, steps_executed = 0,
     registers = replicate REFLEX_VM_REGISTER_COUNT reflex_word18_zero, program = Some p, owns_program = False,
     mem = \<lparr>vmmu = reflex_vm_mmu_init, host = (\<lambda>_. []), vcache = None\<rparr>, owned_private_memory = None,
     owned_private_memory_count = 0, node_id = 0, syscall_handler = None,
     route_manifest = replicate REFLEX_VM_MAX_ROUTES \<lparr>rname = [], source_coord = [], sink_coord = [], orientation = 0\<rparr>,
     route_count = 0\<rparr>"

lemma idle_world_ok: "inboxes_ok (fabric idle_world)"
  using init_ok [of "\<lambda>i. Some (replicate 32 blank_message)"]
  by (auto simp: idle_world_def inboxes_ok_def REFLEX_FABRIC_QUEUE_LEN_def)

lemma vm_with_program_good:
  "list_all instruction_safe p \<Longrightarrow> vm_good idle_goose idle_world (vm_with_program p)"
  using idle_world_ok
  by (simp add: vm_good_def vm_ok_def vm_with_program_def idle_goose_def goose_ok_def words_ok_def program_safe_def
      handler_ok_def REFLEX_VM_MAX_ROUTES_def)

theorem vm_step_safe_witness:
  "\<exists>r w' vm'. reflex_vm_step idle_goose idle_world
      (vm_with_program [\<lparr>opcode = TSENSE, dst = 7, src_a = 0, src_b = 0, imm = 1\<rparr>]) = Some (r, w', vm')
    \<and> length (registers vm') = 8"
  using vm_step_safe [OF vm_with_program_good, of "[\<lparr>opcode = TSENSE, dst = 7, src_a = 0, src_b = 0, imm = 1\<rparr>]"]
  by (fastforce simp: instruction_safe_def REFLEX_VM_REGISTER_COUNT_def)

section \<open>The bounded run\<close>

lemma vm_good_world: "vm_good G w vm \<Longrightarrow> fabric w' = fabric w \<Longrightarrow> vm_good G w' vm"
  by (simp add: vm_good_def)

lemma run_loop_good:
  "vm_good G w vm \<Longrightarrow> \<exists>r w' vm'. run_loop G n budget started w vm = Some (r, w', vm') \<and> vm_good G w' vm'
     \<and> program vm' = program vm \<and> within_steps n vm vm'
     \<and> (r = Inr () \<longrightarrow> status vm' = REFLEX_VM_STATUS_HALTED)"
proof (induction n arbitrary: w vm)
  case 0
  then show ?case by (simp add: within_steps_intros(1))
next
  case (Suc n)
  show ?case
  proof (cases "status vm = REFLEX_VM_STATUS_HALTED")
    case True
    with Suc.prems show ?thesis by (simp add: within_steps_intros(1))
  next
    case False
    obtain r w1 vm1 where s: "reflex_vm_step G w vm = Some (r, w1, vm1)" "vm_good G w1 vm1" "program vm1 = program vm"
      "within_steps (Suc 0) vm vm1" using step_good [OF Suc.prems] by blast
    let ?w2 = "snd (reflex_hal_time_us w1)"
    have g2: "vm_good G ?w2 vm1" by (rule vm_good_world [OF s(2)]) (simp add: reflex_hal_time_us_def)
    have stop: "within_steps (Suc n) vm vm1" by (rule within_steps_mono [OF s(4)]) simp
    show ?thesis
    proof (cases r)
      case (Inl e)
      with s stop False show ?thesis by simp
    next
      case (Inr u)
      show ?thesis
      proof (cases "budget \<noteq> 0 \<and> elapsed_us (fst (reflex_hal_time_us w1)) started \<ge> budget")
        case True
        with s g2 stop Inr False show ?thesis by (simp add: case_prod_beta Let_def)
      next
        case cont: False
        let ?w3 = "if budget \<noteq> 0 then ?w2 else w1"
        have "vm_good G ?w3 vm1" using g2 s(2) by simp
        from Suc.IH [OF this] obtain r' w' vm' where i: "run_loop G n budget started ?w3 vm1 = Some (r', w', vm')"
          "vm_good G w' vm'" "program vm' = program vm1" "within_steps n vm1 vm'"
          "r' = Inr () \<longrightarrow> status vm' = REFLEX_VM_STATUS_HALTED" by blast
        have "run_loop G (Suc n) budget started w vm = Some (r', w', vm')"
          using s(1) Inr False cont i(1) by (auto simp: case_prod_beta Let_def)
        with i s(3) within_steps_trans [OF s(4) i(4)] show ?thesis by simp
      qed
    qed
  qed
qed

lemma run_bounded_good:
  assumes "vm_good G w vm"
  shows "\<exists>r w' vm'. reflex_vm_run_bounded G max_steps budget_us w vm = Some (r, w', vm') \<and> vm_good G w' vm'
     \<and> within_steps max_steps vm vm'
     \<and> (r = Inr () \<longrightarrow> status vm' = REFLEX_VM_STATUS_HALTED)"
proof -
  let ?t = "if budget_us \<noteq> 0 then reflex_hal_time_us w else (0, w)"
  have "vm_good G (snd ?t) vm" by (rule vm_good_world [OF assms]) (simp add: reflex_hal_time_us_def)
  from run_loop_good [OF this, of max_steps budget_us "fst ?t"] obtain r w' vm'
    where l: "run_loop G max_steps budget_us (fst ?t) (snd ?t) vm = Some (r, w', vm')" "vm_good G w' vm'"
      "within_steps max_steps vm vm'" "r = Inr () \<longrightarrow> status vm' = REFLEX_VM_STATUS_HALTED" by blast
  show ?thesis
  proof (cases "max_steps > 0 \<and> reflex_vm_validate_state vm = Inr ()")
    case True
    with l show ?thesis by (simp add: reflex_vm_run_bounded_def case_prod_beta Let_def)
  next
    case False
    with assms show ?thesis
      by (cases "reflex_vm_validate_state vm") (auto simp: reflex_vm_run_bounded_def intro!: within_steps_intros(1))
  qed
qed

lemma run_bounded_defined: "vm_good G w vm \<Longrightarrow> reflex_vm_run_bounded G n b w vm \<noteq> None"
  using run_bounded_good [of G w vm n b] by auto

text \<open>
  C15: a bounded run always returns, and within its budget. Whatever the program, from a
  well-formed VM the run has a defined result, executes at most \<open>max_steps\<close> instructions,
  leaves a well-formed VM, and answers OK only for a halted one.
\<close>

theorem vm_run_bounded_returns:
  assumes "vm_good G w vm"
  shows "\<exists>r w' vm'. reflex_vm_run_bounded G max_steps budget_us w vm = Some (r, w', vm') \<and> vm_good G w' vm'
     \<and> within_steps max_steps vm vm'
     \<and> (r = Inr () \<longrightarrow> status vm' = REFLEX_VM_STATUS_HALTED)"
  using run_bounded_good [OF assms] .

theorem vm_run_bounded_returns_witness:
  "\<exists>r w' vm'. reflex_vm_run_bounded idle_goose 1000 500 idle_world
      (vm_with_program [\<lparr>opcode = TJMP, dst = 0, src_a = 0, src_b = 0, imm = 0\<rparr>]) = Some (r, w', vm')"
  using vm_run_bounded_returns [OF vm_with_program_good, of "[\<lparr>opcode = TJMP, dst = 0, src_a = 0, src_b = 0, imm = 0\<rparr>]" 1000 500]
  by (fastforce simp: instruction_safe_def)

section \<open>Stopping\<close>

text \<open>
  A stopped machine stays stopped. A halted or faulted VM answers every step with an
  error and neither it nor the world changes.
\<close>

theorem vm_stopped_stays:
  assumes "status vm \<in> {REFLEX_VM_STATUS_HALTED, REFLEX_VM_STATUS_FAULTED}"
  shows "\<exists>e. reflex_vm_step G w vm = Some (Inl e, w, vm)"
  using assms by (auto simp: reflex_vm_step_def split: sum.splits)

theorem vm_stopped_stays_witness:
  "\<exists>e. reflex_vm_step idle_goose idle_world ((vm_with_program [])\<lparr>status := REFLEX_VM_STATUS_HALTED\<rparr>)
     = Some (Inl e, idle_world, (vm_with_program [])\<lparr>status := REFLEX_VM_STATUS_HALTED\<rparr>)"
  by (rule vm_stopped_stays) simp

text \<open>
  Running off the end is not a fault. A VM whose instruction pointer has reached the end
  of its program answers a step with the number 4, the fault code used as an error code, and
  is left exactly as it was: its status is not FAULTED, so a caller that watches the status
  never sees the program stop.
\<close>

theorem vm_run_off_end_not_faulted:
  assumes "program vm = Some p" "p \<noteq> []" "length p \<le> ip vm"
  shows "reflex_vm_step G w vm = Some (Inl (RAW_ERR 4), w, vm)
    \<and> (n > 0 \<longrightarrow> reflex_vm_run G n w vm = Some (Inl (RAW_ERR 4), w, vm))"
  using assms by (simp add: reflex_vm_step_def reflex_vm_validate_state_def reflex_vm_run_def reflex_vm_run_bounded_def)

theorem vm_run_off_end_not_faulted_witness:
  "reflex_vm_step idle_goose idle_world ((vm_with_program [\<lparr>opcode = TNOP, dst = 0, src_a = 0, src_b = 0, imm = 0\<rparr>])\<lparr>ip := 1\<rparr>)
    = Some (Inl (RAW_ERR 4), idle_world, (vm_with_program [\<lparr>opcode = TNOP, dst = 0, src_a = 0, src_b = 0, imm = 0\<rparr>])\<lparr>ip := 1\<rparr>)"
  using vm_run_off_end_not_faulted [where p = "[\<lparr>opcode = TNOP, dst = 0, src_a = 0, src_b = 0, imm = 0\<rparr>]"
      and vm = "(vm_with_program [\<lparr>opcode = TNOP, dst = 0, src_a = 0, src_b = 0, imm = 0\<rparr>])\<lparr>ip := 1\<rparr>"
      and G = idle_goose and w = idle_world]
  by (simp add: vm_with_program_def)

end
