(* ===== verification/VM_Syscall.thy ===== *)
theory VM_Syscall imports VM_Safety begin

text \<open>
  The default TSYS handler: vm/syscall.c. It prints, reads the clock, reads two configuration
  values and delays; everything it does to the host is recorded in the world.
\<close>

datatype reflex_vm_syscall = SYS_LOG | SYS_UPTIME | SYS_CONFIG_GET | SYS_DELAY | SYS_OTHER int

definition syscall_of_imm :: "int \<Rightarrow> reflex_vm_syscall" where
  "syscall_of_imm n = (if n = 0 then SYS_LOG else if n = 1 then SYS_UPTIME else if n = 2 then SYS_CONFIG_GET
     else if n = 3 then SYS_DELAY else SYS_OTHER n)"

definition REFLEX_VM_CONFIG_DEVICE_NAME_LENGTH :: int where "REFLEX_VM_CONFIG_DEVICE_NAME_LENGTH = 0"
definition REFLEX_VM_CONFIG_LOG_LEVEL :: int where "REFLEX_VM_CONFIG_LOG_LEVEL = 1"

text \<open>The C cast of an unsigned 64-bit value to int32.\<close>

definition cast_int32 :: "nat \<Rightarrow> int" where
  "cast_int32 n = (let m = int n mod 2 ^ 32 in if m < 2 ^ 31 then m else m - 2 ^ 32)"

definition reflex_vm_default_syscall_handler :: "'g world \<Rightarrow> int \<Rightarrow> word18 \<Rightarrow> word18 \<Rightarrow> word18 result \<times> 'g world" where
  "reflex_vm_default_syscall_handler w syscall_id a b =
     (case syscall_of_imm syscall_id of
        SYS_LOG \<Rightarrow>
          (case reflex_word18_to_int32 a of
             Inl e \<Rightarrow> (Inl e, w)
           | Inr scalar \<Rightarrow> (reflex_word18_from_int32 0, w\<lparr>console := console w @ [scalar]\<rparr>))
      | SYS_UPTIME \<Rightarrow>
          (let (now, w1) = reflex_hal_time_us w in (reflex_word18_from_int32 (cast_int32 (now div 1000)), w1))
      | SYS_CONFIG_GET \<Rightarrow>
          (case reflex_word18_to_int32 a of
             Inl e \<Rightarrow> (Inl e, w)
           | Inr scalar \<Rightarrow>
               if scalar = REFLEX_VM_CONFIG_DEVICE_NAME_LENGTH then
                 (rbind (cfg_device_name w) (\<lambda>nm. reflex_word18_from_int32 (int (length nm))), w)
               else if scalar = REFLEX_VM_CONFIG_LOG_LEVEL then
                 (rbind (cfg_log_level w) reflex_word18_from_int32, w)
               else (Inl REFLEX_ERR_NOT_SUPPORTED, w))
      | SYS_DELAY \<Rightarrow>
          (case reflex_word18_to_int32 a of
             Inl e \<Rightarrow> (Inl e, w)
           | Inr scalar \<Rightarrow>
               if \<not> scalar \<ge> 0 then (Inl REFLEX_ERR_INVALID_ARG, w)
               else (reflex_word18_from_int32 0, w\<lparr>delays := delays w @ [nat scalar]\<rparr>))
      | SYS_OTHER _ \<Rightarrow> (Inl REFLEX_ERR_NOT_SUPPORTED, w))"

definition reflex_vm_set_syscall_handler :: "'g vm \<Rightarrow> 'g world syscall_fn option \<Rightarrow> 'g vm" where
  "reflex_vm_set_syscall_handler vm h = vm\<lparr>syscall_handler := h\<rparr>"

definition reflex_vm_use_default_syscalls :: "'g vm \<Rightarrow> 'g vm" where
  "reflex_vm_use_default_syscalls vm = reflex_vm_set_syscall_handler vm (Some reflex_vm_default_syscall_handler)"

lemma default_handler_world:
  "fabric (snd (reflex_vm_default_syscall_handler w n a b)) = fabric w"
  "goose (snd (reflex_vm_default_syscall_handler w n a b)) = goose w"
  by (auto simp: reflex_vm_default_syscall_handler_def reflex_hal_time_us_def Let_def
      split: reflex_vm_syscall.split sum.split)

lemma default_handler_word:
  "fst (reflex_vm_default_syscall_handler w n a b) = Inr x \<Longrightarrow> word18_ok x"
  by (auto simp: reflex_vm_default_syscall_handler_def reflex_hal_time_us_def Let_def err_simps
      dest: from_int32_Inr split: reflex_vm_syscall.splits sum.splits if_splits)

lemma default_handler_ok: "handler_ok (syscall_handler (reflex_vm_use_default_syscalls vm))"
  using default_handler_world(1) default_handler_word
  by (auto simp: handler_ok_def reflex_vm_use_default_syscalls_def reflex_vm_set_syscall_handler_def)

lemma use_default_good: "vm_good G w vm \<Longrightarrow> vm_good G w (reflex_vm_use_default_syscalls vm)"
  using default_handler_ok [of vm]
  by (auto simp: vm_good_def vm_ok_def program_safe_def reflex_vm_use_default_syscalls_def reflex_vm_set_syscall_handler_def)

text \<open>
  the host is protected from the program. Whatever selector and operands a program passes,
  the default handler leaves the fabric and the substrate alone, answers only valid words, and
  never delays by more than the largest word18: every recorded delay is the program's own
  non-negative value, a negative one is refused.
\<close>

theorem default_syscall_contained:
  assumes "word18_ok a"
  shows "let (r, w') = reflex_vm_default_syscall_handler w n a b in
      fabric w' = fabric w \<and> goose w' = goose w \<and> (\<forall>x. r = Inr x \<longrightarrow> word18_ok x)
      \<and> (delays w' = delays w \<or> (n = 3 \<and> 0 \<le> tval a \<and> delays w' = delays w @ [nat (tval a)] \<and> nat (tval a) \<le> 193710244))
      \<and> (n = 3 \<and> tval a < 0 \<longrightarrow> r = Inl REFLEX_ERR_INVALID_ARG \<and> w' = w)"
  using default_handler_world [of w n a b] default_handler_word [of w n a b] word18_bound [OF assms]
  by (auto simp: reflex_vm_default_syscall_handler_def syscall_of_imm_def reflex_hal_time_us_def Let_def
      to_int32_ok [OF assms] word18_max_def split: if_splits)

theorem default_syscall_contained_witness:
  "let (r, w') = reflex_vm_default_syscall_handler idle_world 3 ((-1) # replicate 17 0) reflex_word18_zero in
      r = Inl REFLEX_ERR_INVALID_ARG \<and> w' = idle_world"
proof -
  have "word18_ok ((-1) # replicate 17 0)" by code_simp
  from default_syscall_contained [OF this, of idle_world 3 reflex_word18_zero] show ?thesis
    by (simp add: case_prod_beta Let_def)
qed

end
