(* ===== verification/VM_Crc.thy ===== *)
theory VM_Crc imports Reflex_Prelude begin

text \<open>
  The image checksum: \<open>reflex_vm_crc32\<close> of vm/loader.c, the bitwise CRC-32 with the reflected
  polynomial, on 32-bit words. The lemmas make every stage injective, so a single corrupted
  byte always changes the checksum.
\<close>

section \<open>The code\<close>

definition crc_bit :: "u32 \<Rightarrow> u32" where
  "crc_bit crc = (let mask = 0 - (crc AND 1) in drop_bit 1 crc XOR (0xEDB88320 AND mask))"

fun crc_bits :: "nat \<Rightarrow> u32 \<Rightarrow> u32" where
  "crc_bits 0 crc = crc"
| "crc_bits (Suc n) crc = crc_bits n (crc_bit crc)"

definition crc_byte :: "u32 \<Rightarrow> u8 \<Rightarrow> u32" where
  "crc_byte crc b = crc_bits 8 (crc XOR ucast b)"

fun crc_loop :: "u32 \<Rightarrow> u8 list \<Rightarrow> u32" where
  "crc_loop crc [] = crc"
| "crc_loop crc (b # bs) = crc_loop (crc_byte crc b) bs"

definition reflex_vm_crc32 :: "u8 list \<Rightarrow> u32" where
  "reflex_vm_crc32 data = NOT (crc_loop 0xFFFFFFFF data)"

section \<open>Every stage is injective\<close>

lemma crc_mask: "0 - (c AND 1) = (if bit c 0 then - 1 else (0 :: u32))"
  by (cases "odd c") (simp_all add: and_one_eq bit_0 odd_iff_mod_2_eq_one even_iff_mod_2_eq_zero)

lemma xor_cancel: "(a :: 'a :: len word) XOR p = b XOR p \<longleftrightarrow> a = b"
  by (metis xor.assoc xor.right_neutral xor_self_eq)

lemma xor_cancel2: "(p :: 'a :: len word) XOR a = p XOR b \<longleftrightarrow> a = b"
  by (simp add: xor.commute [of p] xor_cancel)

lemma crc_bit_if: "crc_bit c = (if bit c 0 then drop_bit 1 c XOR 0xEDB88320 else drop_bit 1 c)"
  unfolding crc_bit_def Let_def crc_mask by simp

text \<open>The top bit of the result tells which branch was taken.\<close>

lemma crc_bit_top: "bit (crc_bit c) 31 \<longleftrightarrow> bit c 0"
  by (auto simp: crc_bit_if bit_simps dest: bit_imp_le_length)

lemma shiftr_eq: "drop_bit 1 (a :: u32) = drop_bit 1 b \<Longrightarrow> bit a 0 = bit b 0 \<Longrightarrow> a = b"
proof (rule bit_word_eqI)
  fix n
  assume s: "drop_bit 1 a = drop_bit 1 b" and z: "bit a 0 = bit b 0" and n: "n < LENGTH(32)"
  show "bit a n = bit b n"
  proof (cases n)
    case (Suc m)
    have "bit (drop_bit 1 a) m = bit (drop_bit 1 b) m" using s by simp
    with Suc show ?thesis by (simp add: bit_simps)
  qed (use z in simp)
qed

lemma crc_bit_inj: assumes "crc_bit a = crc_bit b" shows "a = b"
proof -
  have z: "bit a 0 = bit b 0" using crc_bit_top [of a] crc_bit_top [of b] assms by simp
  with assms have "drop_bit 1 a = drop_bit 1 b" by (auto simp: crc_bit_if xor_cancel split: if_splits)
  with z show ?thesis by (rule shiftr_eq [rotated])
qed

lemma crc_bits_inj: "crc_bits n a = crc_bits n b \<Longrightarrow> a = b"
  by (induction n arbitrary: a b) (auto dest: crc_bit_inj)

lemma crc_byte_inj: "crc_byte a x = crc_byte b x \<Longrightarrow> a = b"
  unfolding crc_byte_def by (drule crc_bits_inj) (simp add: xor_cancel)

lemma crc_byte_inj2: "crc_byte a x = crc_byte a y \<Longrightarrow> x = y"
proof -
  assume "crc_byte a x = crc_byte a y"
  then have "a XOR ucast x = a XOR ucast y" unfolding crc_byte_def by (rule crc_bits_inj)
  then have "(ucast x :: u32) = ucast y" by (simp add: xor_cancel2)
  then have u: "bit (ucast x :: u32) n = bit (ucast y :: u32) n" for n by simp
  show "x = y"
  proof (rule bit_word_eqI)
    fix n assume "n < LENGTH(8)"
    with u [of n] show "bit x n = bit y n" by (simp add: bit_ucast_iff)
  qed
qed

lemma crc_loop_inj: "crc_loop a bs = crc_loop b bs \<Longrightarrow> a = b"
  by (induction bs arbitrary: a b) (auto dest: crc_byte_inj)

lemma crc_loop_append: "crc_loop c (xs @ ys) = crc_loop (crc_loop c xs) ys"
  by (induction xs arbitrary: c) auto

lemma crc_byte_change: "x \<noteq> y \<Longrightarrow> reflex_vm_crc32 (pre @ x # post) \<noteq> reflex_vm_crc32 (pre @ y # post)"
  using crc_loop_inj crc_byte_inj2 by (fastforce simp: reflex_vm_crc32_def crc_loop_append)

text \<open>
  The checksum catches every single-byte corruption. Two payloads that differ in exactly
  one byte never have the same checksum, at any length and position.
\<close>

theorem crc32_detects_byte_change:
  assumes "x \<noteq> y"
  shows "reflex_vm_crc32 (pre @ x # post) \<noteq> reflex_vm_crc32 (pre @ y # post)"
  using crc_byte_change [OF assms] .

theorem crc32_detects_byte_change_witness:
  "reflex_vm_crc32 ([1, 2] @ 3 # [4]) \<noteq> reflex_vm_crc32 ([1, 2] @ 7 # [4])"
  by (rule crc32_detects_byte_change) simp

lemma crc_bits_8: "crc_bits 8 c = crc_bit (crc_bit (crc_bit (crc_bit (crc_bit (crc_bit (crc_bit (crc_bit c)))))))"
  by (simp add: numeral_eq_Suc)

lemma crc_bit_num:
  "crc_bit (numeral n) = (if odd (numeral n :: u32) then drop_bit 1 (numeral n) XOR 0xEDB88320 else drop_bit 1 (numeral n))"
  by (simp add: crc_bit_if bit_0)

text \<open>
  The checksum is the standard CRC-32: on the ASCII digits 1 to 9 it is the published
  check value, and it is zero on the empty payload.
\<close>

theorem crc32_check_value:
  "reflex_vm_crc32 [0x31, 0x32, 0x33, 0x34, 0x35, 0x36, 0x37, 0x38, 0x39] = 0xCBF43926 \<and> reflex_vm_crc32 [] = 0"
  by (simp add: reflex_vm_crc32_def crc_byte_def crc_bits_8 crc_bit_num)

end
