(* ===== verification/VM_Loader.thy ===== *)
theory VM_Loader imports VM_Crc VM_Safety begin

text \<open>
  Program images: vm/loader.c and vm/include/reflex_vm_loader.h. Validation of a decoded
  image, loading it, and loading the packed binary format of version 2. The encoder is the
  one of tools/tasm.py.

  Multi-byte fields are copied out of the buffer with \<open>memcpy\<close> on little-endian targets. The
  two allocations of \<open>reflex_vm_load_binary\<close> are arguments: whether the instruction array is
  granted, and the identity of the data buffer if it is.
\<close>

section \<open>Images\<close>

record reflex_vm_image =
  img_magic :: u32
  img_version :: u16
  entry_ip :: nat
  instructions :: "reflex_vm_instruction list option"
  private_memory :: "nat option"
  private_memory_count :: nat

definition REFLEX_VM_IMAGE_MAGIC :: u32 where "REFLEX_VM_IMAGE_MAGIC = 0x52465856"
definition REFLEX_VM_PACKED_INSTRUCTION_BYTES :: nat where "REFLEX_VM_PACKED_INSTRUCTION_BYTES = 4"

definition instruction_count :: "reflex_vm_image \<Rightarrow> nat" where
  "instruction_count im = (case instructions im of None \<Rightarrow> 0 | Some is \<Rightarrow> length is)"

section \<open>Validation\<close>

fun reflex_vm_loader_opcode_valid :: "reflex_vm_opcode \<Rightarrow> bool" where
  "reflex_vm_loader_opcode_valid (BAD_OPCODE _) = False"
| "reflex_vm_loader_opcode_valid _ = True"

definition reflex_vm_loader_register_valid :: "nat \<Rightarrow> bool" where
  "reflex_vm_loader_register_valid index \<longleftrightarrow> index < REFLEX_VM_REGISTER_COUNT"

definition reflex_vm_loader_syscall_valid :: "int \<Rightarrow> bool" where
  "reflex_vm_loader_syscall_valid n \<longleftrightarrow> n \<ge> 0 \<and> n \<le> 3"

definition reflex_vm_loader_target_in_range :: "int \<Rightarrow> nat \<Rightarrow> bool" where
  "reflex_vm_loader_target_in_range n icount \<longleftrightarrow> n \<ge> 0 \<and> nat n < icount"

definition reflex_vm_loader_instruction_fields_valid :: "reflex_vm_instruction \<Rightarrow> bool" where
  "reflex_vm_loader_instruction_fields_valid i =
     (let v = reflex_vm_loader_register_valid in
      case opcode i of
        TNOP \<Rightarrow> True
      | TJMP \<Rightarrow> True
      | THALT \<Rightarrow> True
      | TSYS \<Rightarrow> v (dst i) \<and> v (src_a i) \<and> v (src_b i)
      | TLDI \<Rightarrow> v (dst i)
      | TMOV \<Rightarrow> v (dst i) \<and> v (src_a i)
      | TADD \<Rightarrow> v (dst i) \<and> v (src_a i) \<and> v (src_b i)
      | TSUB \<Rightarrow> v (dst i) \<and> v (src_a i) \<and> v (src_b i)
      | TCMP \<Rightarrow> v (dst i) \<and> v (src_a i) \<and> v (src_b i)
      | TSEL \<Rightarrow> v (dst i) \<and> v (src_a i) \<and> v (src_b i)
      | TBRNEG \<Rightarrow> v (src_a i)
      | TBRZERO \<Rightarrow> v (src_a i)
      | TBRPOS \<Rightarrow> v (src_a i)
      | TFLUSH \<Rightarrow> v (src_a i)
      | TINV \<Rightarrow> v (src_a i)
      | TSEND \<Rightarrow> v (dst i) \<and> v (src_a i)
      | TRECV \<Rightarrow> v (dst i)
      | TLD \<Rightarrow> v (dst i) \<and> v (src_a i)
      | TST \<Rightarrow> v (dst i) \<and> v (src_a i)
      | TSENSE \<Rightarrow> v (dst i) \<and> v (src_a i)
      | TROUTE \<Rightarrow> v (dst i) \<and> v (src_a i) \<and> v (src_b i)
      | TBIAS \<Rightarrow> v (dst i) \<and> v (src_a i)
      | BAD_OPCODE _ \<Rightarrow> False)"

definition is_branch :: "reflex_vm_opcode \<Rightarrow> bool" where
  "is_branch op \<longleftrightarrow> op = TJMP \<or> op = TBRNEG \<or> op = TBRZERO \<or> op = TBRPOS"

fun validate_instructions :: "nat \<Rightarrow> reflex_vm_instruction list \<Rightarrow> unit result" where
  "validate_instructions icount [] = Inr ()"
| "validate_instructions icount (i # is) =
     (if \<not> reflex_vm_loader_opcode_valid (opcode i) then Inl REFLEX_ERR_INVALID_RESPONSE
      else if \<not> reflex_vm_loader_instruction_fields_valid i then Inl REFLEX_ERR_INVALID_ARG
      else if is_branch (opcode i) \<and> \<not> reflex_vm_loader_target_in_range (imm i) icount then Inl REFLEX_ERR_INVALID_ARG
      else if opcode i = TSYS \<and> \<not> reflex_vm_loader_syscall_valid (imm i) then Inl REFLEX_ERR_INVALID_ARG
      else validate_instructions icount is)"

definition reflex_vm_validate_image :: "reflex_vm_image \<Rightarrow> unit result" where
  "reflex_vm_validate_image im =
     (if img_magic im \<noteq> REFLEX_VM_IMAGE_MAGIC then Inl REFLEX_ERR_INVALID_RESPONSE
      else if \<not> (img_version im = 1 \<or> img_version im = 2) then Inl REFLEX_ERR_INVALID_VERSION
      else case instructions im of
        None \<Rightarrow> Inl REFLEX_ERR_INVALID_ARG
      | Some is \<Rightarrow>
          if \<not> length is > 0 then Inl REFLEX_ERR_INVALID_SIZE
          else if \<not> entry_ip im < length is then Inl REFLEX_ERR_INVALID_ARG
          else if \<not> (private_memory im \<noteq> None \<or> private_memory_count im = 0) then Inl REFLEX_ERR_INVALID_ARG
          else validate_instructions (length is) is)"

definition reflex_vm_load_image ::
    "'g goose_ops \<Rightarrow> 'g world \<Rightarrow> 'g vm \<Rightarrow> reflex_vm_image \<Rightarrow> unit result \<times> 'g world \<times> 'g vm" where
  "reflex_vm_load_image G w vm im =
     (case reflex_vm_validate_image im of
        Inl e \<Rightarrow> (Inl e, w, vm)
      | Inr _ \<Rightarrow>
          let (w1, vm1) = reflex_vm_unload G w vm;
              vm2 = vm1\<lparr>program := instructions im, owns_program := False,
                        owned_private_memory := None, owned_private_memory_count := 0,
                        mem := (mem vm1)\<lparr>vmmu := reflex_vm_mmu_init\<rparr>\<rparr>
          in case (if private_memory_count im > 0
                   then reflex_vm_mmu_add_region (vmmu (mem vm2)) (private_memory im) (private_memory_count im) REFLEX_MEM_PRIVATE 0
                   else Inr (vmmu (mem vm2))) of
               Inl e \<Rightarrow> (Inl e, w1, vm2)
             | Inr mm \<Rightarrow> (Inr (), w1, (reflex_vm_reset (vm2\<lparr>mem := (mem vm2)\<lparr>vmmu := mm\<rparr>\<rparr>))\<lparr>ip := entry_ip im\<rparr>))"

section \<open>The packed format\<close>

definition le16 :: "u8 list \<Rightarrow> nat \<Rightarrow> u16" where
  "le16 b k = ucast (b ! k) OR push_bit 8 (ucast (b ! (k + 1)))"

definition le32 :: "u8 list \<Rightarrow> nat \<Rightarrow> u32" where
  "le32 b k = ucast (b ! k) OR push_bit 8 (ucast (b ! (k + 1)))
      OR push_bit 16 (ucast (b ! (k + 2))) OR push_bit 24 (ucast (b ! (k + 3)))"

definition opcode_names :: "reflex_vm_opcode list" where
  "opcode_names = [TNOP, TLDI, TMOV, TLD, TST, TADD, TSUB, TCMP, TSEL, TJMP, TBRNEG, TBRZERO, TBRPOS,
     TSEND, TRECV, TFLUSH, TINV, TSYS, THALT, TROUTE, TBIAS, TSENSE]"

definition opcode_of_nat :: "nat \<Rightarrow> reflex_vm_opcode" where
  "opcode_of_nat n = (if n < length opcode_names then opcode_names ! n else BAD_OPCODE n)"

definition sign_extend_17 :: "int \<Rightarrow> int" where
  "sign_extend_17 n = (if n AND 0x10000 \<noteq> 0 then n OR NOT 0x1FFFF else n)"

definition decode_instruction :: "u32 \<Rightarrow> reflex_vm_instruction" where
  "decode_instruction packed =
     \<lparr>opcode = opcode_of_nat (unat (packed AND 0x3F)),
      dst = unat (drop_bit 6 packed AND 7),
      src_a = unat (drop_bit 9 packed AND 7),
      src_b = unat (drop_bit 12 packed AND 7),
      imm = sign_extend_17 (uint (drop_bit 15 packed))\<rparr>"

definition decode_instructions :: "u8 list \<Rightarrow> nat \<Rightarrow> nat \<Rightarrow> reflex_vm_instruction list" where
  "decode_instructions buf off n =
     map (\<lambda>i. decode_instruction (le32 buf (off + i * REFLEX_VM_PACKED_INSTRUCTION_BYTES))) [0..<n]"

text \<open>The data words, unpacked until the first that is not a word18; \<open>i\<close> counts up, \<open>n\<close> are left.\<close>

fun unpack_data :: "u8 list \<Rightarrow> nat \<Rightarrow> nat \<Rightarrow> word18 list result" where
  "unpack_data buf off 0 = Inr []"
| "unpack_data buf off (Suc n) =
     rbind (reflex_word18_unpack (take REFLEX_PACKED_WORD18_BYTES (drop off buf)))
       (\<lambda>x. rbind (unpack_data buf (off + REFLEX_PACKED_WORD18_BYTES) n) (\<lambda>xs. Inr (x # xs)))"

text \<open>The header fields and the payload they announce.\<close>

definition bin_entry_ip :: "u8 list \<Rightarrow> nat" where "bin_entry_ip buf = unat (le16 buf 10)"
definition bin_instr_count :: "u8 list \<Rightarrow> nat" where "bin_instr_count buf = unat (le16 buf 12)"
definition bin_data_count :: "u8 list \<Rightarrow> nat" where "bin_data_count buf = unat (le16 buf 14)"

definition bin_payload_len :: "u8 list \<Rightarrow> nat" where
  "bin_payload_len buf = bin_instr_count buf * REFLEX_VM_PACKED_INSTRUCTION_BYTES
      + bin_data_count buf * REFLEX_PACKED_WORD18_BYTES"

definition bin_payload :: "u8 list \<Rightarrow> u8 list" where
  "bin_payload buf = take (bin_payload_len buf) (drop 16 buf)"

text \<open>The final assignments: the program, what the VM owns, its memory map, a reset and the entry point.\<close>

definition commit_binary ::
    "'g vm \<Rightarrow> reflex_vm_instruction list \<Rightarrow> nat option \<Rightarrow> word18 list \<Rightarrow> reflex_vm_mmu \<Rightarrow> nat \<Rightarrow> 'g vm" where
  "commit_binary vm instrs data_buf data_words mm eip =
     (reflex_vm_reset (vm\<lparr>program := Some instrs, owns_program := True,
        owned_private_memory := data_buf, owned_private_memory_count := length data_words,
        mem := (mem vm)\<lparr>vmmu := mm, host := (case data_buf of
             Some b \<Rightarrow> (host (mem vm))(b := data_words)
           | None \<Rightarrow> host (mem vm))\<rparr>\<rparr>))\<lparr>ip := eip\<rparr>"

text \<open>
  From the checked payload on: allocate, decode, unpack, validate, map. A failure leaves an
  empty memory map and returns its error.
\<close>

definition load_payload :: "bool \<Rightarrow> nat option \<Rightarrow> 'g vm \<Rightarrow> u8 list \<Rightarrow> reflex_err + 'g vm" where
  "load_payload alloc_instrs alloc_data vm buf =
     (if \<not> alloc_instrs then Inl REFLEX_ERR_NO_MEM
      else
        let instrs = decode_instructions buf 16 (bin_instr_count buf);
            data_buf = (if bin_data_count buf > 0 then alloc_data else None) in
        if bin_data_count buf > 0 \<and> data_buf = None then Inl REFLEX_ERR_NO_MEM
        else rbind (unpack_data buf (16 + bin_instr_count buf * REFLEX_VM_PACKED_INSTRUCTION_BYTES) (bin_data_count buf))
          (\<lambda>data_words. rbind (reflex_vm_validate_image
                \<lparr>img_magic = REFLEX_VM_IMAGE_MAGIC, img_version = le16 buf 4, entry_ip = bin_entry_ip buf,
                 instructions = Some instrs, private_memory = data_buf, private_memory_count = bin_data_count buf\<rparr>)
            (\<lambda>_. rbind (if bin_data_count buf > 0
                        then reflex_vm_mmu_add_region reflex_vm_mmu_init data_buf (bin_data_count buf) REFLEX_MEM_PRIVATE 0
                        else Inr reflex_vm_mmu_init)
              (\<lambda>mm. Inr (commit_binary vm instrs data_buf data_words mm (bin_entry_ip buf))))))"

definition reflex_vm_load_binary ::
    "bool \<Rightarrow> nat option \<Rightarrow> 'g goose_ops \<Rightarrow> 'g world \<Rightarrow> 'g vm \<Rightarrow> u8 list \<Rightarrow> unit result \<times> 'g world \<times> 'g vm" where
  "reflex_vm_load_binary alloc_instrs alloc_data G w0 vm0 buf =
     (if \<not> length buf \<ge> 16 then (Inl REFLEX_ERR_INVALID_SIZE, w0, vm0)
      else
        let (w, vm) = reflex_vm_unload G w0 vm0 in
        if le32 buf 0 \<noteq> REFLEX_VM_IMAGE_MAGIC then (Inl REFLEX_ERR_INVALID_RESPONSE, w, vm)
        else if le16 buf 4 \<noteq> 2 then (Inl REFLEX_ERR_INVALID_VERSION, w, vm)
        else if \<not> length buf \<ge> 16 + bin_payload_len buf then (Inl REFLEX_ERR_INVALID_SIZE, w, vm)
        else if reflex_vm_crc32 (bin_payload buf) \<noteq> le32 buf 6 then (Inl REFLEX_ERR_INVALID_CRC, w, vm)
        else case load_payload alloc_instrs alloc_data vm buf of
               Inl e \<Rightarrow> (Inl e, w, vm\<lparr>mem := (mem vm)\<lparr>vmmu := reflex_vm_mmu_init\<rparr>\<rparr>)
             | Inr vm1 \<Rightarrow> (Inr (), w, vm1))"

text \<open>An instruction in one line.\<close>

definition ins :: "reflex_vm_opcode \<Rightarrow> nat \<Rightarrow> nat \<Rightarrow> nat \<Rightarrow> int \<Rightarrow> reflex_vm_instruction" where
  "ins op d a b n = \<lparr>opcode = op, dst = d, src_a = a, src_b = b, imm = n\<rparr>"

section \<open>The assembler's encoder\<close>

definition opcode_id :: "reflex_vm_opcode \<Rightarrow> nat" where
  "opcode_id op = (case op of BAD_OPCODE n \<Rightarrow> n
     | TNOP \<Rightarrow> 0 | TLDI \<Rightarrow> 1 | TMOV \<Rightarrow> 2 | TLD \<Rightarrow> 3 | TST \<Rightarrow> 4 | TADD \<Rightarrow> 5 | TSUB \<Rightarrow> 6 | TCMP \<Rightarrow> 7 | TSEL \<Rightarrow> 8
     | TJMP \<Rightarrow> 9 | TBRNEG \<Rightarrow> 10 | TBRZERO \<Rightarrow> 11 | TBRPOS \<Rightarrow> 12 | TSEND \<Rightarrow> 13 | TRECV \<Rightarrow> 14 | TFLUSH \<Rightarrow> 15
     | TINV \<Rightarrow> 16 | TSYS \<Rightarrow> 17 | THALT \<Rightarrow> 18 | TROUTE \<Rightarrow> 19 | TBIAS \<Rightarrow> 20 | TSENSE \<Rightarrow> 21)"

definition tasm_encode :: "reflex_vm_instruction \<Rightarrow> int option" where
  "tasm_encode i =
     (if imm i < - (2 ^ 16) \<or> imm i > 2 ^ 16 - 1 then None
      else Some ((int (opcode_id (opcode i)) AND 0x3F) OR push_bit 6 (int (dst i) AND 7)
             OR push_bit 9 (int (src_a i) AND 7) OR push_bit 12 (int (src_b i) AND 7)
             OR push_bit 15 (imm i AND 0x1FFFF)))"


section \<open>Decoding inverts the assembler\<close>

lemma and_mask_3: "(x :: u32) AND 7 = take_bit 3 x" "(n :: int) AND 7 = take_bit 3 n"
  by (simp_all add: take_bit_eq_mask mask_eq_exp_minus_1)

lemma and_mask_6: "(x :: u32) AND 0x3F = take_bit 6 x" "(n :: int) AND 0x3F = take_bit 6 n"
  by (simp_all add: take_bit_eq_mask mask_eq_exp_minus_1)

lemma and_mask_17: "(n :: int) AND 0x1FFFF = take_bit 17 n"
  by (simp add: take_bit_eq_mask mask_eq_exp_minus_1)

lemma unat_take_bit_less: "unat (take_bit n (x :: u32)) < 2 ^ n"
  by (simp add: unsigned_take_bit_eq take_bit_nat_less_exp)

lemma decode_regs: "dst (decode_instruction p) < 8" "src_a (decode_instruction p) < 8" "src_b (decode_instruction p) < 8"
  using unat_take_bit_less [of 3] by (simp_all add: decode_instruction_def and_mask_3)

lemma opcode_id_lt: "reflex_vm_loader_opcode_valid op \<Longrightarrow> opcode_id op < 22 \<and> opcode_of_nat (opcode_id op) = op"
  by (cases op) (simp_all add: opcode_id_def opcode_of_nat_def opcode_names_def)

lemma sign_extend_17_take_bit:
  assumes "- (2 ^ 16) \<le> n" "n < 2 ^ 16" shows "sign_extend_17 (take_bit 17 n) = n"
proof (cases "n < 0")
  case True
  have "take_bit 17 n = (n + 131072) mod 131072" by (simp add: take_bit_eq_mod)
  also have "\<dots> = n + 131072" by (rule mod_pos_pos_trivial) (use assms True in simp_all)
  finally have t: "take_bit 17 n = n + 131072" .
  have "(n + 131072) div 65536 = 1"
    by (rule int_div_pos_eq [where r = "n + 65536"]) (use assms True in simp_all)
  then have b: "bit (take_bit 17 n) 16" unfolding t by (simp add: bit_iff_odd)
  have "take_bit 17 n OR NOT 0x1FFFF = n"
  proof (rule bit_eqI)
    fix k
    have m: "(0x1FFFF :: int) = mask 17" by (simp add: mask_eq_exp_minus_1)
    have "bit (NOT 0x1FFFF :: int) k \<longleftrightarrow> 17 \<le> k"
      unfolding m by (auto simp: bit_not_iff bit_mask_iff)
    moreover have "bit n k" if "17 \<le> k"
    proof -
      have "n div 2 ^ k = - 1"
      proof -
        have "(2::int) ^ 17 \<le> 2 ^ k" using that by (rule power_increasing) simp
        then have "- (2 ^ k) \<le> n" using assms by simp
        with True show ?thesis by (intro int_div_pos_eq [where r = "n + 2 ^ k"]) simp_all
      qed
      then show ?thesis by (simp add: bit_iff_odd)
    qed
    ultimately show "bit (take_bit 17 n OR NOT 0x1FFFF) k = bit n k"
      by (auto simp: bit_or_iff bit_take_bit_iff)
  qed
  moreover have "take_bit 17 n AND 0x10000 \<noteq> 0"
  proof
    assume z: "take_bit 17 n AND 0x10000 = 0"
    have "bit (0x10000 :: int) 16" by (simp add: bit_iff_odd)
    with b have "bit (take_bit 17 n AND 0x10000) 16" by (simp only: bit_and_iff simp_thms)
    with z show False by simp
  qed
  ultimately show ?thesis by (simp add: sign_extend_17_def)
next
  case False
  then have "take_bit 17 n = n" using assms by (simp add: take_bit_int_eq_self)
  moreover have "n AND 0x10000 = 0"
  proof -
    have "\<not> bit n 16" using False assms by (simp add: bit_iff_odd)
    then have "n AND 2 ^ 16 = 0" by (simp only: and_exp_eq_0_iff_not_bit simp_thms)
    then show ?thesis by simp
  qed
  ultimately show ?thesis by (simp add: sign_extend_17_def)
qed

text \<open>The five fields of a packed word, read back one by one.\<close>

lemma packed_fields:
  fixes p :: int
  assumes "p = take_bit 6 a OR push_bit 6 (take_bit 3 b) OR push_bit 9 (take_bit 3 c) OR push_bit 12 (take_bit 3 d)
             OR push_bit 15 (take_bit 17 e)"
  shows "take_bit 32 p = p" "take_bit 6 p = take_bit 6 a" "take_bit 3 (drop_bit 6 p) = take_bit 3 b"
    "take_bit 3 (drop_bit 9 p) = take_bit 3 c" "take_bit 3 (drop_bit 12 p) = take_bit 3 d"
    "drop_bit 15 p = take_bit 17 e"
proof -
  have r: "n - 6 < 3 \<and> 6 \<le> n \<longleftrightarrow> 6 \<le> n \<and> n < 9" "n - 9 < 3 \<and> 9 \<le> n \<longleftrightarrow> 9 \<le> n \<and> n < 12"
    "n - 12 < 3 \<and> 12 \<le> n \<longleftrightarrow> 12 \<le> n \<and> n < 15" "n - 15 < 17 \<and> 15 \<le> n \<longleftrightarrow> 15 \<le> n \<and> n < 32" for n :: nat
    by arith+
  have B: "bit p n \<longleftrightarrow> n < 6 \<and> bit a n \<or> 6 \<le> n \<and> n < 9 \<and> bit b (n - 6) \<or> 9 \<le> n \<and> n < 12 \<and> bit c (n - 9)
      \<or> 12 \<le> n \<and> n < 15 \<and> bit d (n - 12) \<or> 15 \<le> n \<and> n < 32 \<and> bit e (n - 15)" for n
    unfolding assms bit_or_iff bit_push_bit_iff_int bit_take_bit_iff using r [of n] by blast
  show "take_bit 32 p = p" by (rule bit_eqI) (auto simp: bit_take_bit_iff B)
  show "take_bit 6 p = take_bit 6 a" by (rule bit_eqI) (auto simp: bit_take_bit_iff B)
  show "take_bit 3 (drop_bit 6 p) = take_bit 3 b" by (rule bit_eqI) (auto simp: bit_take_bit_iff bit_drop_bit_eq B)
  show "take_bit 3 (drop_bit 9 p) = take_bit 3 c" by (rule bit_eqI) (auto simp: bit_take_bit_iff bit_drop_bit_eq B)
  show "take_bit 3 (drop_bit 12 p) = take_bit 3 d" by (rule bit_eqI) (auto simp: bit_take_bit_iff bit_drop_bit_eq B)
  show "drop_bit 15 p = take_bit 17 e" by (rule bit_eqI) (auto simp: bit_take_bit_iff bit_drop_bit_eq B)
qed

lemma nat_take_bit_small: "n < 2 ^ k \<Longrightarrow> nat (take_bit k (int n)) = n"
  by (simp add: take_bit_eq_mod flip: zmod_int)

text \<open>
  C17: the loader reads what the assembler wrote. Every instruction the packed format can hold,
  with register operands r0 to r7 and an immediate of 17 signed bits, is encoded by tools/tasm.py
  into a 32-bit word that the loader decodes to exactly that instruction; the assembler refuses
  any larger immediate instead of truncating it.
\<close>

theorem tasm_decode_roundtrip:
  assumes "reflex_vm_loader_opcode_valid (opcode i)" "dst i < 8" "src_a i < 8" "src_b i < 8"
  shows "case tasm_encode i of
      None \<Rightarrow> imm i < - 65536 \<or> 65535 < imm i
    | Some p \<Rightarrow> 0 \<le> p \<and> p < 2 ^ 32 \<and> decode_instruction (word_of_int p) = i"
proof (cases "tasm_encode i")
  case None
  then show ?thesis by (auto simp: tasm_encode_def split: if_splits)
next
  case (Some p)
  let ?a = "int (opcode_id (opcode i))"
  from Some have im: "- (2 ^ 16) \<le> imm i" "imm i < 2 ^ 16"
    and p: "p = take_bit 6 ?a OR push_bit 6 (take_bit 3 (int (dst i))) OR push_bit 9 (take_bit 3 (int (src_a i)))
             OR push_bit 12 (take_bit 3 (int (src_b i))) OR push_bit 15 (take_bit 17 (imm i))"
    by (auto simp: tasm_encode_def and_mask_3 and_mask_6 and_mask_17 split: if_splits)
  note f = packed_fields [OF p]
  have u: "uint (word_of_int p :: u32) = p" using f(1) by (simp add: uint_word_of_int_eq)
  have rng: "0 \<le> p" "p < 2 ^ 32" using f(1) take_bit_int_less_exp [of 32 p] take_bit_nonnegative [of 32 p] by simp_all
  have lt: "opcode_id (opcode i) < 2 ^ 6" using opcode_id_lt [OF assms(1)] by simp
  have fld: "unat (take_bit k (drop_bit j (word_of_int p :: u32))) = nat (take_bit k (drop_bit j p))" for k j
  proof -
    have "uint (take_bit k (drop_bit j (word_of_int p :: u32))) = take_bit k (drop_bit j p)"
      using f(1) by (simp add: unsigned_take_bit_eq unsigned_drop_bit_eq u)
    then show ?thesis by (simp only: flip: nat_uint_eq)
  qed
  have sh: "uint (drop_bit 15 (word_of_int p :: u32)) = drop_bit 15 p"
    using f(1) by (simp add: unsigned_drop_bit_eq u)
  have "decode_instruction (word_of_int p) = i"
    using fld [of 6 0] fld [of 3 6] fld [of 3 9] fld [of 3 12] f lt assms opcode_id_lt [OF assms(1)] sign_extend_17_take_bit [OF im]
    by (simp add: decode_instruction_def and_mask_3 and_mask_6 nat_take_bit_small sh)
  with Some rng show ?thesis by simp
qed

theorem tasm_decode_roundtrip_witness:
  "case tasm_encode (ins TLDI 3 0 0 (-5)) of None \<Rightarrow> False
    | Some p \<Rightarrow> decode_instruction (word_of_int p) = ins TLDI 3 0 0 (-5)"
  using tasm_decode_roundtrip [of "ins TLDI 3 0 0 (-5)"]
  by (simp add: ins_def split: option.splits)


section \<open>What loading guarantees\<close>

lemma validate_instructions_Inr:
  "validate_instructions n is = Inr () \<longleftrightarrow>
     (\<forall>i \<in> set is. reflex_vm_loader_opcode_valid (opcode i) \<and> reflex_vm_loader_instruction_fields_valid i
        \<and> (is_branch (opcode i) \<longrightarrow> reflex_vm_loader_target_in_range (imm i) n)
        \<and> (opcode i = TSYS \<longrightarrow> reflex_vm_loader_syscall_valid (imm i)))"
  by (induction "is") auto

lemma decode_safe: "instruction_safe (decode_instruction p)"
  using decode_regs [of p] by (auto simp: instruction_safe_def REFLEX_VM_REGISTER_COUNT_def split: reflex_vm_opcode.split)

lemma unpack_data_ok: "unpack_data buf off n = Inr xs \<Longrightarrow> length xs = n \<and> (\<forall>x \<in> set xs. word18_ok x)"
  by (induction n arbitrary: off xs) (auto simp: err_simps dest: word18_unpack_ok)

lemma withdraw_length: "length (snd (withdraw_routes G g rs i n)) = length rs"
  by (induction n arbitrary: g rs i) (simp_all add: Let_def)

lemma unload_good:
  assumes "vm_good G w vm" "reflex_vm_unload G w vm = (w1, vm1)"
  shows "vm_good G w1 vm1 \<and> program vm1 = None \<and> status vm1 = REFLEX_VM_STATUS_READY \<and> vmmu (mem vm1) = reflex_vm_mmu_init
     \<and> vcache (mem vm1) = vcache (mem vm)"
  using assms
  by (auto simp: reflex_vm_unload_def reflex_vm_reset_def vm_good_def vm_ok_def words_ok_def program_safe_def withdraw_length case_prod_beta)

text \<open>The memory of a loaded binary: one region at address zero over a fresh buffer.\<close>

lemma add_first_region:
  "reflex_vm_mmu_add_region reflex_vm_mmu_init (Some b) n ty 0 = Inr mm \<Longrightarrow>
     mm = \<lparr>regions = [\<lparr>buffer = b, rlength = n, rtype = ty, base_addr = 0\<rparr>]\<rparr>"
  by (auto simp: reflex_vm_mmu_add_region_def reflex_vm_mmu_init_def split: if_splits)

lemma load_payload_success:
  assumes "load_payload ai ad vm buf = Inr vm1"
  obtains ws mm db where "vm1 = commit_binary vm (decode_instructions buf 16 (bin_instr_count buf)) db ws mm (bin_entry_ip buf)"
    "unpack_data buf (16 + bin_instr_count buf * 4) (bin_data_count buf) = Inr ws"
    "bin_entry_ip buf < bin_instr_count buf"
    "validate_instructions (bin_instr_count buf) (decode_instructions buf 16 (bin_instr_count buf)) = Inr ()"
    "bin_data_count buf = 0 \<and> db = None \<and> mm = reflex_vm_mmu_init
      \<or> (\<exists>b. db = Some b \<and> mm = \<lparr>regions = [\<lparr>buffer = b, rlength = bin_data_count buf, rtype = REFLEX_MEM_PRIVATE, base_addr = 0\<rparr>]\<rparr>)"
  using assms
  by (fastforce simp: load_payload_def Let_def err_simps reflex_vm_validate_image_def decode_instructions_def
      REFLEX_VM_PACKED_INSTRUCTION_BYTES_def dest: add_first_region split: if_splits)

lemma load_binary_success:
  assumes "reflex_vm_load_binary ai ad G w0 vm0 buf = (Inr (), w, vm)"
  obtains vm1 where "reflex_vm_unload G w0 vm0 = (w, vm1)" "load_payload ai ad vm1 buf = Inr vm"
    "16 + bin_payload_len buf \<le> length buf" "reflex_vm_crc32 (bin_payload buf) = le32 buf 6"
proof -
  obtain w1 vm1 where u: "reflex_vm_unload G w0 vm0 = (w1, vm1)" by fastforce
  with assms have "w1 = w" "load_payload ai ad vm1 buf = Inr vm" "16 + bin_payload_len buf \<le> length buf"
    "reflex_vm_crc32 (bin_payload buf) = le32 buf 6"
    by (auto simp: reflex_vm_load_binary_def split: if_splits sum.splits)
  with u show thesis by (intro that) simp_all
qed

lemma commit_good:
  assumes g: "vm_good G w vm" and prog: "list_all instruction_safe is" and ws: "\<forall>x \<in> set ws. word18_ok x"
    and mm: "db = None \<and> mm = reflex_vm_mmu_init
      \<or> (\<exists>b. db = Some b \<and> mm = \<lparr>regions = [\<lparr>buffer = b, rlength = length ws, rtype = REFLEX_MEM_PRIVATE, base_addr = 0\<rparr>]\<rparr>)"
  shows "vm_good G w (commit_binary vm is db ws mm eip)"
proof -
  define m' where "m' = (mem vm)\<lparr>vmmu := mm, host := (case db of Some b \<Rightarrow> (host (mem vm))(b := ws) | None \<Rightarrow> host (mem vm))\<rparr>"
  have w: "words_ok (mem vm)" using g by (simp add: vm_good_def vm_ok_def)
  have "host_ok (vmmu m') (host m')" using mm by (auto simp: m'_def host_ok_def reflex_vm_mmu_init_def)
  moreover have "\<forall>x \<in> set (host m' b). word18_ok x" for b
    using w ws by (cases db) (auto simp: m'_def words_ok_def)
  ultimately have "words_ok m'" using w by (simp add: words_ok_def m'_def)
  then show ?thesis
    using g prog by (simp add: commit_binary_def reflex_vm_reset_def vm_good_def vm_ok_def program_safe_def m'_def)
qed

lemma load_binary_good:
  assumes g: "vm_good G w0 vm0" and l: "reflex_vm_load_binary ai ad G w0 vm0 buf = (Inr (), w, vm)"
  shows "vm_good G w vm \<and> status vm = REFLEX_VM_STATUS_READY \<and> fault vm = REFLEX_VM_FAULT_NONE
    \<and> ip vm = bin_entry_ip buf \<and> ip vm < program_length vm
    \<and> program vm = Some (decode_instructions buf 16 (bin_instr_count buf))
    \<and> (\<forall>i \<in> set (the (program vm)). is_branch (opcode i) \<longrightarrow> 0 \<le> imm i \<and> nat (imm i) < program_length vm)"
proof -
  obtain vm1 where u: "reflex_vm_unload G w0 vm0 = (w, vm1)" and p: "load_payload ai ad vm1 buf = Inr vm"
    using load_binary_success [OF l] by blast
  let ?is = "decode_instructions buf 16 (bin_instr_count buf)"
  obtain ws mm db where c: "vm = commit_binary vm1 ?is db ws mm (bin_entry_ip buf)"
    and ws: "unpack_data buf (16 + bin_instr_count buf * 4) (bin_data_count buf) = Inr ws"
    and e: "bin_entry_ip buf < bin_instr_count buf"
    and v: "validate_instructions (bin_instr_count buf) ?is = Inr ()"
    and mm: "bin_data_count buf = 0 \<and> db = None \<and> mm = reflex_vm_mmu_init
      \<or> (\<exists>b. db = Some b \<and> mm = \<lparr>regions = [\<lparr>buffer = b, rlength = bin_data_count buf, rtype = REFLEX_MEM_PRIVATE, base_addr = 0\<rparr>]\<rparr>)"
    by (rule load_payload_success [OF p])
  have safe: "list_all instruction_safe ?is" by (auto simp: list_all_iff decode_instructions_def decode_safe)
  have len: "length ?is = bin_instr_count buf" by (simp add: decode_instructions_def)
  have wl: "bin_data_count buf = length ws" and wo: "\<forall>x \<in> set ws. word18_ok x" using unpack_data_ok [OF ws] by simp_all
  have mm': "db = None \<and> mm = reflex_vm_mmu_init
      \<or> (\<exists>b. db = Some b \<and> mm = \<lparr>regions = [\<lparr>buffer = b, rlength = length ws, rtype = REFLEX_MEM_PRIVATE, base_addr = 0\<rparr>]\<rparr>)"
    using mm unfolding wl by blast
  have "vm_good G w vm" unfolding c by (rule commit_good [OF conjunct1 [OF unload_good [OF g u]] safe wo mm'])
  moreover have "status vm = REFLEX_VM_STATUS_READY" "fault vm = REFLEX_VM_FAULT_NONE" "ip vm = bin_entry_ip buf" "program vm = Some ?is"
    unfolding c commit_binary_def reflex_vm_reset_def by simp_all
  moreover have "\<forall>i \<in> set ?is. is_branch (opcode i) \<longrightarrow> 0 \<le> imm i \<and> nat (imm i) < bin_instr_count buf"
    using v by (simp add: validate_instructions_Inr reflex_vm_loader_target_in_range_def)
  ultimately show ?thesis using e len by (simp add: program_length_def)
qed

text \<open>A one-instruction image, THALT, as the assembler writes it.\<close>

definition halt_image :: "u8 list" where
  "halt_image = [86, 88, 70, 82, 2, 0, 8, 64, 84, 219, 0, 0, 1, 0, 0, 0, 18, 0, 0, 0]"

lemma load_halt_image:
  "\<exists>w vm. reflex_vm_load_binary True None idle_goose idle_world (vm_with_program []) halt_image = (Inr (), w, vm)"
proof -
  have f: "le32 halt_image 0 = REFLEX_VM_IMAGE_MAGIC" "le16 halt_image 4 = 2" "bin_instr_count halt_image = 1"
    "bin_data_count halt_image = 0" "bin_entry_ip halt_image = 0" "le32 halt_image 6 = 3679731720" "bin_payload_len halt_image = 4"
    "length halt_image = 20"
    by (simp_all add: halt_image_def le32_def le16_def bin_instr_count_def bin_data_count_def bin_entry_ip_def
        bin_payload_len_def REFLEX_VM_IMAGE_MAGIC_def REFLEX_VM_PACKED_INSTRUCTION_BYTES_def)
  have crc: "reflex_vm_crc32 (bin_payload halt_image) = 3679731720"
    unfolding bin_payload_def f(7)
    by (simp add: halt_image_def reflex_vm_crc32_def crc_byte_def crc_bits_8 crc_bit_num)
  have dec: "decode_instructions halt_image 16 1 = [ins THALT 0 0 0 0]"
    by (simp add: decode_instructions_def halt_image_def le32_def decode_instruction_def opcode_of_nat_def opcode_names_def
        sign_extend_17_def ins_def)
  have "\<exists>vm'. load_payload True None vm halt_image = Inr vm'" for vm :: "unit vm"
    by (simp add: load_payload_def f dec [unfolded One_nat_def] dec Let_def reflex_vm_validate_image_def ins_def is_branch_def
        reflex_vm_loader_instruction_fields_valid_def)
  then show ?thesis
    by (simp add: reflex_vm_load_binary_def f crc case_prod_beta) (metis sum.case(2))
qed

text \<open>
  C6: whatever the loader accepts runs safely. If a packed binary loads, whatever bytes it was
  made of, then the VM is ready at an entry point inside the program, every branch targets an
  instruction of the program, and every bounded run of it has a defined result: no register
  index, memory word or route index of an accepted image leads to undefined behaviour.
\<close>

theorem loaded_binary_runs_safely:
  assumes "vm_good G w0 vm0" and "reflex_vm_load_binary ai ad G w0 vm0 buf = (Inr (), w, vm)"
  shows "status vm = REFLEX_VM_STATUS_READY \<and> ip vm < program_length vm
    \<and> (\<forall>i \<in> set (the (program vm)). is_branch (opcode i) \<longrightarrow> 0 \<le> imm i \<and> nat (imm i) < program_length vm)
    \<and> (\<forall>n budget. reflex_vm_run_bounded G n budget w vm \<noteq> None)"
  using load_binary_good [OF assms] run_bounded_defined by metis

theorem loaded_binary_runs_safely_witness:
  "\<exists>w vm. reflex_vm_load_binary True None idle_goose idle_world (vm_with_program []) halt_image = (Inr (), w, vm)
     \<and> reflex_vm_run_bounded idle_goose 10 0 w vm \<noteq> None"
  using load_halt_image loaded_binary_runs_safely [OF vm_with_program_good [of "[]"]] by fastforce

text \<open>
  C16: a corrupted image is not loaded. If an image loads, then the same image with any one byte
  of its payload changed is refused with INVALID_CRC, and the VM is left without a program.
\<close>

theorem load_binary_rejects_corruption:
  assumes "reflex_vm_load_binary ai ad G w0 vm0 buf = (Inr (), w, vm)"
    and "16 \<le> k" "k < 16 + bin_payload_len buf" "x \<noteq> buf ! k"
  shows "\<exists>w' vm'. reflex_vm_load_binary ai ad G w0 vm0 (buf[k := x]) = (Inl REFLEX_ERR_INVALID_CRC, w', vm') \<and> program vm' = None"
proof -
  obtain vm1 where u: "reflex_vm_unload G w0 vm0 = (w, vm1)" and len: "16 + bin_payload_len buf \<le> length buf"
    and crc: "reflex_vm_crc32 (bin_payload buf) = le32 buf 6" using load_binary_success [OF assms(1)] by blast
  have hd: "le32 buf 0 = REFLEX_VM_IMAGE_MAGIC" "le16 buf 4 = 2"
    using assms(1) u by (auto simp: reflex_vm_load_binary_def split: if_splits)
  have k: "k < length buf" using assms(3) len by simp
  have same: "le32 (buf[k := x]) j = le32 buf j" "le16 (buf[k := x]) i = le16 buf i" if "j \<le> 12" "i \<le> 14" for i j
    using that assms(2) by (simp_all add: le32_def le16_def)
  have pl: "bin_payload_len (buf[k := x]) = bin_payload_len buf"
    using same(2) [of 0 12] same(2) [of 0 14] by (simp add: bin_payload_len_def bin_instr_count_def bin_data_count_def)
  let ?d = "take (bin_payload_len buf) (drop 16 buf)"
  have d: "bin_payload (buf[k := x]) = ?d[k - 16 := x]"
    using assms(2) by (simp add: bin_payload_def pl drop_update_swap take_update_swap)
  have kd: "k - 16 < length ?d" using assms(2,3) len by auto
  have "?d ! (k - 16) = buf ! k" using assms(2,3) len by simp
  then have s: "?d = take (k - 16) ?d @ buf ! k # drop (Suc (k - 16)) ?d" using id_take_nth_drop [OF kd] by simp
  have "reflex_vm_crc32 (bin_payload (buf[k := x])) \<noteq> reflex_vm_crc32 (bin_payload buf)"
    using crc_byte_change [OF assms(4)] s upd_conv_take_nth_drop [OF kd, of x] by (metis bin_payload_def d)
  with crc hd same(1) [of 0 0] same(1) [of 6 0] same(2) [of 0 4] pl len u show ?thesis
    by (auto simp: reflex_vm_load_binary_def reflex_vm_unload_def reflex_vm_reset_def case_prod_beta)
qed

theorem load_binary_rejects_corruption_witness:
  "\<exists>w' vm'. reflex_vm_load_binary True None idle_goose idle_world (vm_with_program []) (halt_image[16 := 19])
     = (Inl REFLEX_ERR_INVALID_CRC, w', vm')"
proof -
  obtain w vm where l: "reflex_vm_load_binary True None idle_goose idle_world (vm_with_program []) halt_image = (Inr (), w, vm)"
    using load_halt_image by blast
  have "bin_payload_len halt_image = 4" "19 \<noteq> halt_image ! 16"
    by (simp_all add: halt_image_def le16_def bin_instr_count_def bin_data_count_def
        bin_payload_len_def REFLEX_VM_PACKED_INSTRUCTION_BYTES_def)
  with load_binary_rejects_corruption [OF l, of 16 19] show ?thesis by auto
qed

text \<open>
  The version 1 loader lets an unchecked register through. An image whose only fault is
  a TBIAS with bias register 200 is validated and loads, and stepping it reads the register
  file out of bounds: the step has no defined result.
\<close>

theorem v1_image_tbias_out_of_bounds:
  "let im = \<lparr>img_magic = REFLEX_VM_IMAGE_MAGIC, img_version = 1, entry_ip = 0,
             instructions = Some [\<lparr>opcode = TBIAS, dst = 0, src_a = 0, src_b = 200, imm = 0\<rparr>],
             private_memory = None, private_memory_count = 0\<rparr>
   in case reflex_vm_load_image G w (vm_with_program []) im of
        (Inr _, w1, vm1) \<Rightarrow> reflex_vm_step G w1 vm1 = None
      | (Inl _, _, _) \<Rightarrow> False"
  by (simp add: reflex_vm_load_image_def reflex_vm_validate_image_def Let_def case_prod_beta
      reflex_vm_loader_instruction_fields_valid_def reflex_vm_loader_register_valid_def REFLEX_VM_REGISTER_COUNT_def
      is_branch_def reflex_vm_step_def reflex_vm_validate_state_def reflex_vm_reset_def program_length_def
      reflex_vm_validate_registers_def operands_valid_def reflex_vm_register_index_valid_def exec_instruction_def
      exec_goose_def with_reg_def)

end
