(* ===== verification/VM_Task.thy ===== *)
theory VM_Task imports VM_Syscall VM_Loader begin

text \<open>
  The VM's hosting task: vm/task_runtime.c. Starting from an image or a binary, the body of
  the task's loop, stopping with its bounded wait, and the service hooks.

  The teardown handshake between the task and a stopper is a step relation over the shared
  flags, one step per access of the code, in any interleaving.
\<close>

section \<open>The runtime\<close>

record reflex_vm_task_config =
  cname :: "string option"
  steps_per_slice :: nat
  delay_ms :: nat
  stack_size :: nat
  priority :: int

record 'g vm_task_runtime =
  rt_vm :: "'g vm"
  handle :: "nat option"
  image :: "reflex_vm_image option"
  config :: reflex_vm_task_config
  running :: bool
  stop_requested :: bool
  finished :: bool

definition config_zero :: reflex_vm_task_config where
  "config_zero = \<lparr>cname = None, steps_per_slice = 0, delay_ms = 0, stack_size = 0, priority = 0\<rparr>"

definition reflex_vm_task_apply_defaults :: "reflex_vm_task_config \<Rightarrow> reflex_vm_task_config" where
  "reflex_vm_task_apply_defaults c =
     (let c1 = (if steps_per_slice c = 0 then c\<lparr>steps_per_slice := 2\<rparr> else c);
          c2 = (if delay_ms c1 = 0 then c1\<lparr>delay_ms := 20\<rparr> else c1);
          c3 = (if stack_size c2 = 0 then c2\<lparr>stack_size := 4096\<rparr> else c2);
          c4 = (if priority c3 = 0 then c3\<lparr>priority := 5\<rparr> else c3)
      in if cname c4 = None then c4\<lparr>cname := Some ''reflex-vm''\<rparr> else c4)"

text \<open>The zeroed VM of \<open>memset\<close>: no program, no handler, no cache, empty memory map.\<close>

definition vm_zero :: "(nat \<Rightarrow> word18 list) \<Rightarrow> 'g vm" where
  "vm_zero h = (vm_with_program [])\<lparr>program := None, mem := \<lparr>vmmu = reflex_vm_mmu_init, host = h, vcache = None\<rparr>\<rparr>"

definition reflex_vm_task_runtime_init :: "'g vm_task_runtime \<Rightarrow> 'g vm_task_runtime" where
  "reflex_vm_task_runtime_init rt =
     \<lparr>rt_vm = vm_zero (host (mem (rt_vm rt))), handle = None, image = None, config = config_zero, running = False,
      stop_requested = False, finished = False\<rparr>"

section \<open>Starting\<close>

definition effective_config :: "reflex_vm_task_config option \<Rightarrow> reflex_vm_task_config" where
  "effective_config c = reflex_vm_task_apply_defaults (case c of None \<Rightarrow> config_zero | Some k \<Rightarrow> k)"

definition REFLEX_NODE_VM :: u8 where "REFLEX_NODE_VM = 7"

text \<open>The assignments both starters make before they load.\<close>

definition claim_runtime :: "'g vm_task_runtime \<Rightarrow> reflex_vm_image option \<Rightarrow> reflex_vm_task_config \<Rightarrow> 'g vm_task_runtime" where
  "claim_runtime rt im c =
     rt\<lparr>image := im, config := c, running := True, stop_requested := False, finished := False,
        rt_vm := reflex_vm_use_default_syscalls ((rt_vm rt)\<lparr>node_id := REFLEX_NODE_VM\<rparr>)\<rparr>"

text \<open>\<open>create\<close> is the handle that \<open>reflex_task_create\<close> answers, None when it fails.\<close>

definition reflex_vm_task_start ::
    "nat option \<Rightarrow> 'g goose_ops \<Rightarrow> 'g world \<Rightarrow> 'g vm_task_runtime \<Rightarrow> reflex_vm_image \<Rightarrow> reflex_vm_task_config option
      \<Rightarrow> unit result \<times> 'g world \<times> 'g vm_task_runtime" where
  "reflex_vm_task_start create G w rt im c =
     (if running rt then (Inl REFLEX_ERR_INVALID_STATE, w, rt)
      else case reflex_vm_validate_image im of
        Inl e \<Rightarrow> (Inl e, w, rt)
      | Inr _ \<Rightarrow>
          let rt1 = claim_runtime rt (Some im) (effective_config c);
              (r, w1, vm1) = reflex_vm_load_image G w (rt_vm rt1) im;
              rt2 = rt1\<lparr>rt_vm := vm1\<rparr>
          in case r of
               Inl e \<Rightarrow> (Inl e, w1, rt2)
             | Inr _ \<Rightarrow>
                 (case create of
                    None \<Rightarrow> (Inl REFLEX_FAIL, w1, rt2\<lparr>running := False, handle := None\<rparr>)
                  | Some h \<Rightarrow> (Inr (), w1, rt2\<lparr>handle := Some h\<rparr>)))"

definition reflex_vm_task_start_binary ::
    "nat option \<Rightarrow> bool \<Rightarrow> nat option \<Rightarrow> 'g goose_ops \<Rightarrow> 'g world \<Rightarrow> 'g vm_task_runtime \<Rightarrow> u8 list \<Rightarrow> reflex_vm_task_config option
      \<Rightarrow> unit result \<times> 'g world \<times> 'g vm_task_runtime" where
  "reflex_vm_task_start_binary create ai ad G w rt buf c =
     (if \<not> length buf > 0 then (Inl REFLEX_ERR_INVALID_ARG, w, rt)
      else if running rt then (Inl REFLEX_ERR_INVALID_STATE, w, rt)
      else
        let rt1 = claim_runtime rt None (effective_config c);
            (r, w1, vm1) = reflex_vm_load_binary ai ad G w (rt_vm rt1) buf;
            rt2 = rt1\<lparr>rt_vm := vm1\<rparr>
        in case r of
             Inl e \<Rightarrow> (Inl e, w1, rt2)
           | Inr _ \<Rightarrow>
               (case create of
                  None \<Rightarrow>
                    (let (w2, vm2) = reflex_vm_unload G w1 vm1
                     in (Inl REFLEX_FAIL, w2, rt2\<lparr>running := False, handle := None, rt_vm := vm2\<rparr>))
                | Some h \<Rightarrow> (Inr (), w1, rt2\<lparr>handle := Some h\<rparr>)))"

definition reflex_vm_task_is_running :: "'g vm_task_runtime \<Rightarrow> bool" where
  "reflex_vm_task_is_running rt = running rt"

section \<open>The task's loop\<close>

text \<open>
  One pass of the loop: whether it goes round again, and the state. A delay is recorded in
  the world.
\<close>

definition task_delay :: "'g world \<Rightarrow> nat \<Rightarrow> 'g world" where
  "task_delay w ms = w\<lparr>delays := delays w @ [ms]\<rparr>"

definition vm_task_pass :: "'g goose_ops \<Rightarrow> 'g world \<Rightarrow> 'g vm_task_runtime \<Rightarrow> (bool \<times> 'g world \<times> 'g vm_task_runtime) option" where
  "vm_task_pass G w rt =
     (if \<not> running rt then Some (False, w, rt)
      else if status (rt_vm rt) = REFLEX_VM_STATUS_HALTED \<or> status (rt_vm rt) = REFLEX_VM_STATUS_FAULTED
      then Some (False, w, rt\<lparr>running := False\<rparr>)
      else case reflex_vm_run G (steps_per_slice (config rt)) w (rt_vm rt) of
        None \<Rightarrow> None
      | Some (r, w1, vm1) \<Rightarrow>
          let rt1 = rt\<lparr>rt_vm := vm1\<rparr> in
          if r = Inl REFLEX_ERR_TIMEOUT then Some (True, task_delay w1 (delay_ms (config rt)), rt1)
          else if status vm1 = REFLEX_VM_STATUS_READY then Some (True, task_delay w1 (delay_ms (config rt)), rt1)
          else Some (True, w1, rt1))"

text \<open>\<open>n\<close> passes of the loop, or fewer if it ends.\<close>

fun vm_task_passes :: "'g goose_ops \<Rightarrow> nat \<Rightarrow> 'g world \<Rightarrow> 'g vm_task_runtime \<Rightarrow> (bool \<times> 'g world \<times> 'g vm_task_runtime) option" where
  "vm_task_passes G 0 w rt = Some (True, w, rt)"
| "vm_task_passes G (Suc n) w rt =
     (case vm_task_pass G w rt of
        None \<Rightarrow> None
      | Some (False, w1, rt1) \<Rightarrow> Some (False, w1, rt1)
      | Some (True, w1, rt1) \<Rightarrow> vm_task_passes G n w1 rt1)"

section \<open>Stopping\<close>

text \<open>
  The stopper's view: while it sleeps the task runs, so every delay applies the next element
  of a schedule of changes to the runtime. The result says whether the handle was deleted.
\<close>

definition REFLEX_VM_TASK_STOP_TIMEOUT_MS :: nat where "REFLEX_VM_TASK_STOP_TIMEOUT_MS = 2000"
definition REFLEX_VM_TASK_STOP_POLL_MS :: nat where "REFLEX_VM_TASK_STOP_POLL_MS = 10"

function stop_wait :: "(nat \<Rightarrow> 'g vm_task_runtime \<Rightarrow> 'g vm_task_runtime) \<Rightarrow> nat \<Rightarrow> 'g vm_task_runtime \<Rightarrow> nat \<times> 'g vm_task_runtime" where
  "stop_wait env waited rt =
     (if \<not> finished rt \<and> handle rt \<noteq> None \<and> waited < REFLEX_VM_TASK_STOP_TIMEOUT_MS
      then stop_wait env (waited + REFLEX_VM_TASK_STOP_POLL_MS) (env waited rt)
      else (waited, rt))"
  by pat_completeness auto

termination
  by (relation "measure (\<lambda>(env, waited, rt). REFLEX_VM_TASK_STOP_TIMEOUT_MS - waited)")
    (auto simp: REFLEX_VM_TASK_STOP_TIMEOUT_MS_def REFLEX_VM_TASK_STOP_POLL_MS_def)

declare stop_wait.simps [simp del]

definition reflex_vm_task_stop ::
    "(nat \<Rightarrow> 'g vm_task_runtime \<Rightarrow> 'g vm_task_runtime) \<Rightarrow> 'g vm_task_runtime
      \<Rightarrow> unit result \<times> nat option \<times> 'g vm_task_runtime" where
  "reflex_vm_task_stop env rt0 =
     (let (waited, rt) = stop_wait env 0 (rt0\<lparr>stop_requested := True, running := False\<rparr>) in
      if \<not> finished rt \<and> handle rt \<noteq> None then (Inl REFLEX_ERR_TIMEOUT, None, rt)
      else if handle rt \<noteq> None then (Inr (), handle rt, rt\<lparr>handle := None\<rparr>)
      else (Inr (), None, rt))"

section \<open>Service hooks\<close>

datatype reflex_service_status =
    REFLEX_SERVICE_STATUS_STOPPED | REFLEX_SERVICE_STATUS_STARTED | REFLEX_SERVICE_STATUS_FAULTED

definition reflex_vm_task_service_init :: "'g vm_task_runtime \<Rightarrow> 'g vm_task_runtime" where
  "reflex_vm_task_service_init rt =
     (let cache = vcache (mem (rt_vm rt)); rt1 = reflex_vm_task_runtime_init rt
      in rt1\<lparr>rt_vm := (rt_vm rt1)\<lparr>mem := (mem (rt_vm rt1))\<lparr>vcache := cache\<rparr>\<rparr>\<rparr>)"

definition reflex_vm_task_service_start ::
    "nat option \<Rightarrow> 'g goose_ops \<Rightarrow> 'g world \<Rightarrow> 'g vm_task_runtime \<Rightarrow> unit result \<times> 'g world \<times> 'g vm_task_runtime" where
  "reflex_vm_task_service_start create G w rt =
     (case image rt of
        None \<Rightarrow> (Inr (), w, rt)
      | Some im \<Rightarrow> reflex_vm_task_start create G w rt im (Some (config rt)))"

definition reflex_vm_task_service_stop ::
    "(nat \<Rightarrow> 'g vm_task_runtime \<Rightarrow> 'g vm_task_runtime) \<Rightarrow> 'g vm_task_runtime
      \<Rightarrow> unit result \<times> nat option \<times> 'g vm_task_runtime" where
  "reflex_vm_task_service_stop env rt = reflex_vm_task_stop env rt"

definition reflex_vm_task_service_status :: "'g vm_task_runtime option \<Rightarrow> reflex_service_status" where
  "reflex_vm_task_service_status rt =
     (case rt of
        None \<Rightarrow> REFLEX_SERVICE_STATUS_STOPPED
      | Some r \<Rightarrow>
          if status (rt_vm r) = REFLEX_VM_STATUS_FAULTED then REFLEX_SERVICE_STATUS_FAULTED
          else if handle r \<noteq> None then REFLEX_SERVICE_STATUS_STARTED else REFLEX_SERVICE_STATUS_STOPPED)"

section \<open>Start and stop against their contracts\<close>

lemma stop_wait_exit:
  "stop_wait env waited rt = (t, rt') \<Longrightarrow> finished rt' \<or> handle rt' = None \<or> t \<ge> REFLEX_VM_TASK_STOP_TIMEOUT_MS"
  by (induction env waited rt rule: stop_wait.induct) (subst (asm) stop_wait.simps, auto split: if_splits)

lemma stop_wait_bound:
  "stop_wait env waited rt = (t, rt') \<Longrightarrow> waited mod 10 = 0 \<Longrightarrow> waited \<le> 2000 \<Longrightarrow> t \<le> 2000"
proof (induction env waited rt rule: stop_wait.induct)
  case (1 env waited rt)
  show ?case
  proof (cases "\<not> finished rt \<and> handle rt \<noteq> None \<and> waited < REFLEX_VM_TASK_STOP_TIMEOUT_MS")
    case True
    then have "stop_wait env (waited + REFLEX_VM_TASK_STOP_POLL_MS) (env waited rt) = (t, rt')"
      using 1(2) by (subst (asm) stop_wait.simps) simp
    moreover have "waited + 10 \<le> 2000"
    proof -
      have "waited < 2000" using True by (simp add: REFLEX_VM_TASK_STOP_TIMEOUT_MS_def)
      with 1(3) show ?thesis by presburger
    qed
    ultimately show ?thesis using 1(1) [OF True] 1(3) by (simp add: REFLEX_VM_TASK_STOP_POLL_MS_def)
  next
    case False
    with 1(2,4) show ?thesis by (subst (asm) stop_wait.simps) auto
  qed
qed

text \<open>
  Stopping is bounded and honest. Whatever the task does meanwhile, a stop returns after at
  most 2000 ms of waiting; it answers OK only with the handle cleared, deletes a task only when
  that task has published that it finished, and answers TIMEOUT, deleting nothing, only while
  the task still holds its handle and has not finished.
\<close>

theorem vm_task_stop_bounded:
  "fst (stop_wait env 0 (rt\<lparr>stop_requested := True, running := False\<rparr>)) \<le> 2000
   \<and> (case reflex_vm_task_stop env rt of
        (Inr _, deleted, rt') \<Rightarrow> handle rt' = None \<and> (deleted \<noteq> None \<longrightarrow> finished rt')
      | (Inl e, deleted, rt') \<Rightarrow> e = REFLEX_ERR_TIMEOUT \<and> deleted = None \<and> handle rt' \<noteq> None \<and> \<not> finished rt')"
proof -
  obtain t rt' where s: "stop_wait env 0 (rt\<lparr>stop_requested := True, running := False\<rparr>) = (t, rt')" by fastforce
  with stop_wait_bound [OF s] show ?thesis by (auto simp: reflex_vm_task_stop_def)
qed

definition retiring_runtime :: "unit vm_task_runtime" where
  "retiring_runtime = \<lparr>rt_vm = vm_with_program [], handle = Some 1, image = None, config = effective_config None,
     running = True, stop_requested = False, finished = False\<rparr>"

theorem vm_task_stop_bounded_witness:
  "case reflex_vm_task_stop (\<lambda>_ r. r\<lparr>finished := True\<rparr>) retiring_runtime of
     (Inr _, deleted, rt') \<Rightarrow> handle rt' = None \<and> deleted = Some 1 \<and> finished rt' | _ \<Rightarrow> False"
proof -
  let ?env = "\<lambda>_ r. r\<lparr>finished := True\<rparr>"
  have w: "stop_wait ?env 0 (retiring_runtime\<lparr>stop_requested := True, running := False\<rparr>)
      = (10, retiring_runtime\<lparr>stop_requested := True, running := False, finished := True\<rparr>)"
    by (subst stop_wait.simps, subst stop_wait.simps)
      (simp add: retiring_runtime_def REFLEX_VM_TASK_STOP_TIMEOUT_MS_def REFLEX_VM_TASK_STOP_POLL_MS_def)
  have "\<exists>r. reflex_vm_task_stop ?env retiring_runtime = (Inr (), Some 1, r)"
    using w by (simp add: reflex_vm_task_stop_def retiring_runtime_def)
  with vm_task_stop_bounded [of ?env retiring_runtime] show ?thesis by auto
qed

text \<open>
  A failed binary load wedges the runtime. If \<open>reflex_vm_load_binary\<close> refuses the buffer,
  the start reports the error but leaves \<open>running\<close> set although no task was created, so that
  every later start is refused with INVALID_STATE until somebody calls stop.
\<close>

theorem vm_task_failed_start_wedges:
  assumes "\<not> running rt" "reflex_vm_task_start_binary create ai ad G w rt buf c = (Inl e, w1, rt1)"
    "buf \<noteq> []" "create \<noteq> None"
  shows "running rt1 \<and> handle rt1 = handle rt
    \<and> reflex_vm_task_start create' G w2 rt1 im c' = (Inl REFLEX_ERR_INVALID_STATE, w2, rt1)
    \<and> reflex_vm_task_start_binary create' ai' ad' G w2 rt1 (b # bs) c' = (Inl REFLEX_ERR_INVALID_STATE, w2, rt1)"
proof -
  have "running rt1 \<and> handle rt1 = handle rt"
    using assms
    by (auto simp: reflex_vm_task_start_binary_def claim_runtime_def Let_def case_prod_beta split: sum.splits)
  then show ?thesis by (simp add: reflex_vm_task_start_def reflex_vm_task_start_binary_def)
qed

theorem vm_task_failed_start_wedges_witness:
  "\<exists>e w1 rt1. reflex_vm_task_start_binary (Some 1) True None idle_goose idle_world
       (reflex_vm_task_runtime_init \<lparr>rt_vm = vm_zero (\<lambda>_. []), handle = None, image = None, config = config_zero, running = False,
          stop_requested = False, finished = False\<rparr>) [0] None = (Inl e, w1, rt1)
     \<and> running rt1 \<and> handle rt1 = None"
proof -
  let ?rt = "reflex_vm_task_runtime_init \<lparr>rt_vm = vm_zero (\<lambda>_. []), handle = None, image = None, config = config_zero, running = False,
          stop_requested = False, finished = False\<rparr> :: unit vm_task_runtime"
  have "\<exists>w1 rt1. reflex_vm_task_start_binary (Some 1) True None idle_goose idle_world ?rt [0] None
      = (Inl REFLEX_ERR_INVALID_SIZE, w1, rt1)"
    by (simp add: reflex_vm_task_start_binary_def reflex_vm_task_runtime_init_def reflex_vm_load_binary_def Let_def)
  then obtain w1 rt1 where s: "reflex_vm_task_start_binary (Some 1) True None idle_goose idle_world ?rt [0] None
      = (Inl REFLEX_ERR_INVALID_SIZE, w1, rt1)" by blast
  have "\<not> running ?rt" "handle ?rt = None" by (simp_all add: reflex_vm_task_runtime_init_def)
  with vm_task_failed_start_wedges [OF _ s] s show ?thesis by auto
qed

text \<open>
  A program that runs off its end never retires. Once the VM's instruction pointer is past
  the program, with the VM not halted or faulted, every further pass of the task's loop changes
  nothing but the delays it has slept: the task stays running for ever and the service status
  keeps reporting it as started.
\<close>

theorem vm_task_spins_off_end:
  assumes "running rt" "status (rt_vm rt) = REFLEX_VM_STATUS_READY" "program (rt_vm rt) = Some p" "p \<noteq> []"
    "length p \<le> ip (rt_vm rt)" "steps_per_slice (config rt) > 0" "handle rt \<noteq> None"
  shows "\<exists>ds. vm_task_passes G n w rt = Some (True, w\<lparr>delays := delays w @ ds\<rparr>, rt)
    \<and> reflex_vm_task_service_status (Some rt) = REFLEX_SERVICE_STATUS_STARTED"
proof -
  have run: "reflex_vm_run G (steps_per_slice (config rt)) w (rt_vm rt) = Some (Inl (RAW_ERR 4), w, rt_vm rt)" for w
    using assms by (simp add: reflex_vm_run_def reflex_vm_run_bounded_def reflex_vm_validate_state_def)
  have pass: "vm_task_pass G w rt = Some (True, task_delay w (delay_ms (config rt)), rt)" for w
    using assms run by (simp add: vm_task_pass_def)
  have "\<exists>ds. vm_task_passes G n w rt = Some (True, w\<lparr>delays := delays w @ ds\<rparr>, rt)"
  proof (induction n arbitrary: w)
    case 0
    show ?case by (auto intro!: exI [of _ "[]"])
  next
    case (Suc n)
    obtain ds where "vm_task_passes G n (task_delay w (delay_ms (config rt))) rt
        = Some (True, (task_delay w (delay_ms (config rt)))\<lparr>delays := delays (task_delay w (delay_ms (config rt))) @ ds\<rparr>, rt)"
      using Suc by blast
    with pass [of w] show ?case by (auto simp: task_delay_def intro!: exI [of _ "delay_ms (config rt) # ds"])
  qed
  with assms show ?thesis by (auto simp: reflex_vm_task_service_status_def)
qed

theorem vm_task_spins_off_end_witness:
  "\<exists>ds w. vm_task_passes idle_goose 1000 idle_world
      \<lparr>rt_vm = (vm_with_program [ins TNOP 0 0 0 0])\<lparr>ip := 1\<rparr>, handle = Some 1, image = None,
       config = effective_config None, running = True, stop_requested = False, finished = False\<rparr>
    = Some (True, w, \<lparr>rt_vm = (vm_with_program [ins TNOP 0 0 0 0])\<lparr>ip := 1\<rparr>, handle = Some 1, image = None,
       config = effective_config None, running = True, stop_requested = False, finished = False\<rparr>)"
  using vm_task_spins_off_end [where p = "[ins TNOP 0 0 0 0]" and n = 1000 and G = idle_goose and w = idle_world and
      rt = "\<lparr>rt_vm = (vm_with_program [ins TNOP 0 0 0 0])\<lparr>ip := 1\<rparr>, handle = Some 1, image = None,
       config = effective_config None, running = True, stop_requested = False, finished = False\<rparr>"]
  by (auto simp: vm_with_program_def effective_config_def reflex_vm_task_apply_defaults_def config_zero_def Let_def)


section \<open>The teardown handshake\<close>

text \<open>
  The last statements of the task against the statements of a stopper, in any interleaving.
  The task publishes \<open>finished\<close>, reads \<open>stop_requested\<close>, and either parks or clears the
  handle and deletes itself. The stopper sets \<open>stop_requested\<close>, waits, reads the handle,
  clears it and deletes the task it read; after a timeout it may stop again. \<open>deletes\<close> counts the
  delete calls on the task.
\<close>

datatype task_pc = T_Running | T_Published | T_Parked | T_Clearing | T_Deleting | T_Gone
datatype stop_pc = S_Idle | S_Waiting | S_Seen | S_Cleared | S_Yielding | S_Done | S_TimedOut

record handshake =
  tpc :: task_pc
  spc :: stop_pc
  h_requested :: bool
  h_finished :: bool
  h_handle :: bool
  deletes :: nat

definition handshake_init :: handshake where
  "handshake_init = \<lparr>tpc = T_Running, spc = S_Idle, h_requested = False, h_finished = False, h_handle = True, deletes = 0\<rparr>"

inductive hs_step :: "handshake \<Rightarrow> handshake \<Rightarrow> bool" where
  t_publish: "tpc s = T_Running \<Longrightarrow> hs_step s (s\<lparr>tpc := T_Published, h_finished := True\<rparr>)"
| t_park: "tpc s = T_Published \<Longrightarrow> h_requested s \<Longrightarrow> hs_step s (s\<lparr>tpc := T_Parked\<rparr>)"
| t_alone: "tpc s = T_Published \<Longrightarrow> \<not> h_requested s \<Longrightarrow> hs_step s (s\<lparr>tpc := T_Clearing\<rparr>)"
| t_clear: "tpc s = T_Clearing \<Longrightarrow> hs_step s (s\<lparr>tpc := T_Deleting, h_handle := False\<rparr>)"
| t_delete: "tpc s = T_Deleting \<Longrightarrow> hs_step s (s\<lparr>tpc := T_Gone, deletes := deletes s + 1\<rparr>)"
| s_request: "spc s = S_Idle \<Longrightarrow> hs_step s (s\<lparr>spc := S_Waiting, h_requested := True\<rparr>)"
| s_timeout: "spc s = S_Waiting \<Longrightarrow> \<not> h_finished s \<Longrightarrow> h_handle s \<Longrightarrow> hs_step s (s\<lparr>spc := S_TimedOut\<rparr>)"
| s_read: "spc s = S_Waiting \<Longrightarrow> h_finished s \<Longrightarrow> h_handle s \<Longrightarrow> hs_step s (s\<lparr>spc := S_Seen\<rparr>)"
| s_gone: "spc s = S_Waiting \<Longrightarrow> \<not> h_handle s \<Longrightarrow> hs_step s (s\<lparr>spc := S_Yielding\<rparr>)"
| s_clear: "spc s = S_Seen \<Longrightarrow> hs_step s (s\<lparr>spc := S_Cleared, h_handle := False\<rparr>)"
| s_delete: "spc s = S_Cleared \<Longrightarrow> hs_step s (s\<lparr>spc := S_Done, tpc := T_Gone, deletes := deletes s + 1\<rparr>)"
| s_again: "spc s = S_TimedOut \<Longrightarrow> hs_step s (s\<lparr>spc := S_Waiting, h_requested := True\<rparr>)"
| s_reaped: "spc s = S_Yielding \<Longrightarrow> hs_step s (s\<lparr>spc := S_Done\<rparr>)"

inductive_cases hs_stepE: "hs_step s s'"

definition hs_reach :: "handshake \<Rightarrow> handshake \<Rightarrow> bool" where
  "hs_reach s s' = hs_step\<^sup>*\<^sup>* s s'"

text \<open>
  When the request comes before the task reads the flag, the task can only park, and the stopper is
  the one that deletes it.
\<close>

definition hs_inv :: "handshake \<Rightarrow> bool" where
  "hs_inv s \<longleftrightarrow> h_requested s \<and> spc s \<notin> {S_Idle, S_Yielding}
     \<and> (case tpc s of
          T_Running \<Rightarrow> \<not> h_finished s \<and> deletes s = 0 \<and> h_handle s \<and> spc s \<in> {S_Waiting, S_TimedOut}
        | T_Published \<Rightarrow> h_finished s \<and> deletes s = 0
        | T_Parked \<Rightarrow> h_finished s \<and> deletes s = 0
        | T_Gone \<Rightarrow> deletes s = 1 \<and> spc s = S_Done
        | _ \<Rightarrow> False)
     \<and> (h_handle s \<longleftrightarrow> spc s \<in> {S_Waiting, S_Seen, S_TimedOut})
     \<and> (spc s = S_Done \<longrightarrow> tpc s = T_Gone)"

lemma hs_inv_step: "hs_step s s' \<Longrightarrow> hs_inv s \<Longrightarrow> hs_inv s'"
  by (erule hs_stepE) (auto simp: hs_inv_def split: task_pc.splits)

lemma hs_inv_reach: "hs_reach s s' \<Longrightarrow> hs_inv s \<Longrightarrow> hs_inv s'"
  unfolding hs_reach_def by (induction rule: rtranclp_induct) (auto intro: hs_inv_step)

text \<open>Before the request: the task alone.\<close>

definition hs_alone :: "handshake \<Rightarrow> bool" where
  "hs_alone s \<longleftrightarrow> (spc s = S_Idle \<longrightarrow> \<not> h_requested s \<and> tpc s \<noteq> T_Parked
     \<and> (tpc s \<in> {T_Running, T_Published} \<longrightarrow> h_finished s = (tpc s = T_Published) \<and> h_handle s \<and> deletes s = 0))"

lemma hs_before:
  assumes "hs_reach handshake_init s"
  shows "hs_alone s \<and> (spc s \<noteq> S_Idle \<longrightarrow> h_requested s)"
  using assms unfolding hs_reach_def
proof (induction rule: rtranclp_induct)
  case base
  then show ?case by (simp add: hs_alone_def handshake_init_def)
next
  case (step s s')
  then show ?case by (elim conjE hs_stepE) (auto simp: hs_alone_def)
qed

lemma hs_requested:
  assumes "hs_reach handshake_init s" "hs_step s s'" "spc s = S_Idle" "spc s' = S_Waiting" "tpc s' \<in> {T_Running, T_Published}"
  shows "hs_inv s'"
  using hs_before [OF assms(1)] assms(2-5) by (elim hs_stepE) (auto simp: hs_alone_def hs_inv_def)

lemma hs_reach_steps:
  "hs_reach s s" "hs_step s s1 \<Longrightarrow> hs_reach s1 s2 \<Longrightarrow> hs_reach s s2"
  by (auto simp: hs_reach_def intro: converse_rtranclp_into_rtranclp)

lemma hs_can_finish:
  assumes "hs_inv s"
  shows "\<exists>s'. hs_reach s s' \<and> spc s' = S_Done"
proof -
  have 1: "\<exists>s'. hs_reach s s' \<and> spc s' = S_Done" if "spc s \<in> {S_Cleared, S_Done}" for s
    using that s_delete [of s] hs_reach_steps by (cases "spc s = S_Done") fastforce+
  have 2: "\<exists>s'. hs_reach s s' \<and> spc s' = S_Done" if "spc s = S_Seen" for s
    using s_clear [OF that] 1 [of "s\<lparr>spc := S_Cleared, h_handle := False\<rparr>"] hs_reach_steps(2) by fastforce
  have 3: "\<exists>s'. hs_reach s s' \<and> spc s' = S_Done" if "spc s = S_Waiting" "h_finished s" "h_handle s" for s
    using s_read [OF that] 2 [of "s\<lparr>spc := S_Seen\<rparr>"] hs_reach_steps(2) by fastforce
  have 4: "\<exists>s'. hs_reach s s' \<and> spc s' = S_Done" if "spc s = S_Waiting" "hs_inv s" for s
  proof (cases "h_finished s")
    case True
    then show ?thesis using 3 that by (simp add: hs_inv_def)
  next
    case False
    then have "tpc s = T_Running" "h_handle s" using that by (auto simp: hs_inv_def split: task_pc.splits)
    then show ?thesis using t_publish 3 [of "s\<lparr>tpc := T_Published, h_finished := True\<rparr>"] that(1) hs_reach_steps(2) by fastforce
  qed
  have 5: "\<exists>s'. hs_reach s s' \<and> spc s' = S_Done" if "spc s = S_TimedOut" "hs_inv s" for s
    using s_again [OF that(1)] 4 [of "s\<lparr>spc := S_Waiting, h_requested := True\<rparr>"] hs_inv_step [OF s_again [OF that(1)] that(2)] hs_reach_steps(2)
    by fastforce
  show ?thesis using 1 2 4 5 assms by (cases "spc s") (auto simp: hs_inv_def)
qed

text \<open>
  C18: a stopper that asks before the task has read the flag, whether the task has published its end
  by then or not, is the only one to delete it. In every interleaving that follows, repeated stops
  after a timeout included, there is at most one delete; there is one exactly when the stop is
  done, of a task that had published its end; while it is not done, for a timeout above all, nothing
  is deleted; and it can always still be done.
\<close>

theorem handshake_single_delete:
  assumes "hs_reach handshake_init s0" "hs_step s0 s1" "spc s0 = S_Idle" "spc s1 = S_Waiting" "tpc s1 \<in> {T_Running, T_Published}"
    "hs_reach s1 s"
  shows "deletes s = (if spc s = S_Done then 1 else 0) \<and> (spc s = S_Done \<longrightarrow> tpc s = T_Gone \<and> \<not> h_handle s)
    \<and> (spc s = S_TimedOut \<longrightarrow> h_handle s \<and> tpc s \<in> {T_Running, T_Published, T_Parked})
    \<and> (\<exists>s'. hs_reach s s' \<and> spc s' = S_Done)"
proof -
  have i: "hs_inv s" by (rule hs_inv_reach [OF assms(6) hs_requested [OF assms(1-5)]])
  then show ?thesis using hs_can_finish [OF i] by (auto simp: hs_inv_def split: task_pc.splits)
qed

theorem handshake_single_delete_witness:
  "\<exists>s. hs_step (handshake_init\<lparr>tpc := T_Published, h_finished := True\<rparr>) s \<and> spc s = S_Waiting \<and> deletes s = 0
    \<and> (\<exists>s'. hs_reach s s' \<and> spc s' = S_Done)"
proof -
  let ?s0 = "handshake_init\<lparr>tpc := T_Published, h_finished := True\<rparr>"
  let ?s1 = "?s0\<lparr>spc := S_Waiting, h_requested := True\<rparr>"
  have "hs_step handshake_init ?s0" by (rule t_publish) (simp add: handshake_init_def)
  then have r: "hs_reach handshake_init ?s0" by (simp add: hs_reach_def)
  have q: "hs_step ?s0 ?s1" by (rule s_request) (simp add: handshake_init_def)
  have "spc ?s0 = S_Idle" "spc ?s1 = S_Waiting" "tpc ?s1 \<in> {T_Running, T_Published}" by (simp_all add: handshake_init_def)
  from handshake_single_delete [OF r q this hs_reach_steps(1)] q show ?thesis by (intro exI [of _ ?s1]) simp
qed

text \<open>
  Asking too late can delete the task twice. If the task read \<open>stop_requested\<close> before the
  stopper set it, the stopper can still find \<open>finished\<close> set and the handle not yet cleared:
  the task then deletes itself between the stopper's read of the handle and its delete, and
  the stopper deletes the handle of a task that no longer exists.
\<close>

theorem handshake_double_delete_reachable:
  "\<exists>s. hs_reach handshake_init s \<and> deletes s = 2"
proof -
  let ?s1 = "handshake_init\<lparr>tpc := T_Published, h_finished := True\<rparr>"
  let ?s2 = "?s1\<lparr>tpc := T_Clearing\<rparr>"
  let ?s3 = "?s2\<lparr>spc := S_Waiting, h_requested := True\<rparr>"
  let ?s4 = "?s3\<lparr>spc := S_Seen\<rparr>"
  let ?s5 = "?s4\<lparr>spc := S_Cleared, h_handle := False\<rparr>"
  let ?s6 = "?s5\<lparr>tpc := T_Deleting, h_handle := False\<rparr>"
  let ?s7 = "?s6\<lparr>tpc := T_Gone, deletes := deletes ?s6 + 1\<rparr>"
  let ?s8 = "?s7\<lparr>spc := S_Done, tpc := T_Gone, deletes := deletes ?s7 + 1\<rparr>"
  note i = handshake_init_def
  have "hs_step handshake_init ?s1" by (rule t_publish) (simp add: i)
  moreover have "hs_step ?s1 ?s2" by (rule t_alone) (simp_all add: i)
  moreover have "hs_step ?s2 ?s3" by (rule s_request) (simp add: i)
  moreover have "hs_step ?s3 ?s4" by (rule s_read) (simp_all add: i)
  moreover have "hs_step ?s4 ?s5" by (rule s_clear) simp
  moreover have "hs_step ?s5 ?s6" by (rule t_clear) simp
  moreover have "hs_step ?s6 ?s7" by (rule t_delete) simp
  moreover have "hs_step ?s7 ?s8" by (rule s_delete) simp
  ultimately have "hs_reach handshake_init ?s8"
    unfolding hs_reach_def by (meson converse_rtranclp_into_rtranclp rtranclp.rtrancl_refl)
  moreover have "deletes ?s8 = 2" by (simp add: i)
  ultimately show ?thesis by blast
qed

end
