(* ===== verification/Probe_Table.thy ===== *)
theory Probe_Table imports Reflex_Prelude begin

text \<open>
  Open addressing with linear probing and backward-shift deletion: the loops that
  components/goose/goose_lattice.c and components/goose/goose_registry.c each contain. The two
  copies differ in what a slot matches and where a slot's key belongs; those are arguments of
  the loops here. A slot is a 16-bit index or the empty mark.

  The locale \<open>probe_table\<close> is the contract the loops rely on (a hash inside the table) and
  proves once, for any key type, that lookups, insertions and removals treat the slots as a
  finite map.
\<close>

section \<open>The loops\<close>

definition EMPTY :: int where "EMPTY = -1"

text \<open>\<open>b++; if (b == n) b = 0;\<close>\<close>

definition next_slot :: "nat \<Rightarrow> nat \<Rightarrow> nat" where
  "next_slot n b = (if b + 1 = n then 0 else b + 1)"

text \<open>Probe from \<open>b\<close> for at most \<open>fuel\<close> buckets; an empty bucket ends the run.\<close>

fun probe_find :: "nat \<Rightarrow> (int \<Rightarrow> bool) \<Rightarrow> int list \<Rightarrow> nat \<Rightarrow> nat \<Rightarrow> int" where
  "probe_find n m slots b 0 = EMPTY"
| "probe_find n m slots b (Suc fuel) =
     (if slots ! b = EMPTY then EMPTY
      else if m (slots ! b) then slots ! b
      else probe_find n m slots (next_slot n b) fuel)"

fun probe_insert :: "nat \<Rightarrow> (int \<Rightarrow> bool) \<Rightarrow> int list \<Rightarrow> nat \<Rightarrow> nat \<Rightarrow> int \<Rightarrow> bool \<times> int list" where
  "probe_insert n m slots b 0 v = (False, slots)"
| "probe_insert n m slots b (Suc fuel) v =
     (if slots ! b = EMPTY then (True, slots[b := v])
      else if m (slots ! b) then (True, slots[b := v])
      else probe_insert n m slots (next_slot n b) fuel v)"

text \<open>The bucket that holds the key, for removal.\<close>

fun probe_locate :: "nat \<Rightarrow> (int \<Rightarrow> bool) \<Rightarrow> int list \<Rightarrow> nat \<Rightarrow> nat \<Rightarrow> nat option" where
  "probe_locate n m slots b 0 = None"
| "probe_locate n m slots b (Suc fuel) =
     (if slots ! b = EMPTY then None
      else if m (slots ! b) then Some b
      else probe_locate n m slots (next_slot n b) fuel)"

definition movable :: "nat \<Rightarrow> nat \<Rightarrow> nat \<Rightarrow> bool" where
  "movable hole j home =
     (if hole \<le> j then home \<le> hole \<or> home > j else home \<le> hole \<and> home > j)"

text \<open>Close the run behind \<open>hole\<close>, scanning from \<open>j\<close>; a slot that is not live is dropped.\<close>

fun close_run :: "nat \<Rightarrow> (int \<Rightarrow> bool) \<Rightarrow> (int \<Rightarrow> nat) \<Rightarrow> int list \<Rightarrow> nat \<Rightarrow> nat \<Rightarrow> nat \<Rightarrow> int list" where
  "close_run n live home slots hole j 0 = slots"
| "close_run n live home slots hole j (Suc fuel) =
     (let j1 = next_slot n j in
      if slots ! j1 = EMPTY then slots
      else if \<not> live (slots ! j1) then close_run n live home (slots[j1 := EMPTY]) hole j1 fuel
      else if movable hole j1 (home (slots ! j1))
      then close_run n live home (slots[hole := slots ! j1, j1 := EMPTY]) j1 j1 fuel
      else close_run n live home slots hole j1 fuel)"

definition probe_remove :: "nat \<Rightarrow> (int \<Rightarrow> bool) \<Rightarrow> (int \<Rightarrow> bool) \<Rightarrow> (int \<Rightarrow> nat) \<Rightarrow> int list \<Rightarrow> nat \<Rightarrow> int list" where
  "probe_remove n m live home slots b =
     (case probe_locate n m slots b n of
        None \<Rightarrow> slots
      | Some hole \<Rightarrow> close_run n live home (slots[hole := EMPTY]) hole hole n)"

section \<open>Cyclic distance\<close>

definition dist :: "nat \<Rightarrow> nat \<Rightarrow> nat \<Rightarrow> nat" where
  "dist n a b = (if a \<le> b then b - a else n + b - a)"

lemma dist_less: "a < n \<Longrightarrow> b < n \<Longrightarrow> dist n a b < n"
  by (auto simp: dist_def)

lemma dist_self [simp]: "dist n a a = 0" by (simp add: dist_def)

lemma dist_inj: "a < n \<Longrightarrow> b < n \<Longrightarrow> c < n \<Longrightarrow> dist n a b = dist n a c \<Longrightarrow> b = c"
  by (auto simp: dist_def split: if_splits)

lemma dist_0: "a < n \<Longrightarrow> b < n \<Longrightarrow> dist n a b = 0 \<longleftrightarrow> a = b"
  by (auto simp: dist_def)

lemma next_slot_less: "b < n \<Longrightarrow> next_slot n b < n"
  by (simp add: next_slot_def)

lemma dist_next: "a < n \<Longrightarrow> b < n \<Longrightarrow> next_slot n b \<noteq> a \<Longrightarrow> dist n a (next_slot n b) = dist n a b + 1"
  by (auto simp: dist_def next_slot_def split: if_splits)

lemma dist_next_left: "b < n \<Longrightarrow> c < n \<Longrightarrow> b \<noteq> c \<Longrightarrow> dist n (next_slot n b) c = dist n b c - 1"
  by (auto simp: dist_def next_slot_def split: if_splits)

lemma movable_iff:
  assumes "hole < n" "j < n" "home < n" "j \<noteq> hole"
  shows "movable hole j home \<longleftrightarrow> \<not> (0 < dist n hole home \<and> dist n hole home \<le> dist n hole j)"
  using assms by (auto simp: movable_def dist_def)

text \<open>Every bucket from \<open>h\<close> up to, but not including, \<open>q\<close> is in use; \<open>path_mod\<close> excuses one bucket.\<close>

definition path_ok :: "nat \<Rightarrow> int list \<Rightarrow> nat \<Rightarrow> nat \<Rightarrow> bool" where
  "path_ok n slots h q \<longleftrightarrow> (\<forall>x < n. dist n h x < dist n h q \<longrightarrow> slots ! x \<noteq> EMPTY)"

definition path_mod :: "nat \<Rightarrow> int list \<Rightarrow> nat \<Rightarrow> nat \<Rightarrow> nat \<Rightarrow> bool" where
  "path_mod n slots hole h q \<longleftrightarrow> (\<forall>x < n. dist n h x < dist n h q \<longrightarrow> x = hole \<or> slots ! x \<noteq> EMPTY)"

lemma path_crosses:
  assumes "hole < n" "h < n" "q < n" "x < n" "dist n h hole < dist n h q" "0 < dist n hole x" "dist n hole x < dist n hole q"
  shows "dist n h x < dist n h q"
  using assms by (auto simp: dist_def split: if_splits)

lemma path_avoids:
  assumes "hole < n" "h < n" "q < n" "0 < dist n hole h" "dist n hole h \<le> dist n hole q"
  shows "\<not> dist n h hole < dist n h q"
  using assms by (auto simp: dist_def split: if_splits)

lemma path_prefix:
  assumes "hole < n" "h < n" "q < n" "\<not> (0 < dist n hole h \<and> dist n hole h \<le> dist n hole q)" "q \<noteq> hole" "x < n" "dist n h x < dist n h hole"
  shows "dist n h x < dist n h q"
  using assms by (auto simp: dist_def split: if_splits)


section \<open>Well-formed tables\<close>

text \<open>
  Every slot in use is live, reachable from its home bucket without crossing an empty one, and
  the only one with its key.
\<close>

definition table_inv :: "nat \<Rightarrow> (int \<Rightarrow> 'k) \<Rightarrow> ('k \<Rightarrow> nat) \<Rightarrow> (int \<Rightarrow> bool) \<Rightarrow> int list \<Rightarrow> bool" where
  "table_inv n key hash live slots \<longleftrightarrow> 0 < n \<and> length slots = n
     \<and> (\<forall>p < n. slots ! p \<noteq> EMPTY \<longrightarrow> live (slots ! p) \<and> path_ok n slots (hash (key (slots ! p))) p)
     \<and> (\<forall>p < n. \<forall>q < n. slots ! p \<noteq> EMPTY \<and> slots ! q \<noteq> EMPTY \<and> key (slots ! p) = key (slots ! q) \<longrightarrow> p = q)"

definition stored :: "nat \<Rightarrow> int list \<Rightarrow> int \<Rightarrow> bool" where
  "stored n slots v \<longleftrightarrow> v \<noteq> EMPTY \<and> (\<exists>p < n. slots ! p = v)"

definition free_slot :: "nat \<Rightarrow> int list \<Rightarrow> bool" where
  "free_slot n slots \<longleftrightarrow> (\<exists>e < n. slots ! e = EMPTY)"

lemma table_invD:
  "table_inv n key hash live slots \<Longrightarrow> 0 < n"
  "table_inv n key hash live slots \<Longrightarrow> length slots = n"
  "table_inv n key hash live slots \<Longrightarrow> p < n \<Longrightarrow> slots ! p \<noteq> EMPTY \<Longrightarrow> live (slots ! p)"
  "table_inv n key hash live slots \<Longrightarrow> p < n \<Longrightarrow> slots ! p \<noteq> EMPTY \<Longrightarrow> path_ok n slots (hash (key (slots ! p))) p"
  "table_inv n key hash live slots \<Longrightarrow> p < n \<Longrightarrow> q < n \<Longrightarrow> slots ! p \<noteq> EMPTY \<Longrightarrow> slots ! q \<noteq> EMPTY
     \<Longrightarrow> key (slots ! p) = key (slots ! q) \<Longrightarrow> p = q"
  by (simp_all add: table_inv_def)

text \<open>Numbered entries below the number of buckets never fill the table.\<close>

lemma table_free:
  assumes inv: "table_inv n key hash live slots" and live: "\<And>v. live v \<Longrightarrow> 0 \<le> v \<and> nat v < c" and c: "c < n"
  shows "free_slot n slots"
proof (rule ccontr)
  assume no: "\<not> free_slot n slots"
  let ?f = "\<lambda>p. nat (slots ! p)"
  have ne: "slots ! p \<noteq> EMPTY" if "p < n" for p using no that by (auto simp: free_slot_def)
  have lv: "0 \<le> slots ! p \<and> nat (slots ! p) < c" if "p < n" for p
    by (rule live [OF table_invD(3) [OF inv that ne [OF that]]])
  have inj: "inj_on ?f {..< n}"
  proof (rule inj_onI)
    fix p q assume p: "p \<in> {..< n}" and q: "q \<in> {..< n}" and "?f p = ?f q"
    then have "slots ! p = slots ! q" using lv [of p] lv [of q] by auto
    with table_invD(5) [OF inv] ne p q show "p = q" by simp
  qed
  have "?f ` {..< n} \<subseteq> {..< c}" using lv by auto
  from card_inj_on_le [OF inj this] c show False by simp
qed

text \<open>A table survives every change of what it does not hold.\<close>

lemma table_inv_cong:
  assumes ti: "table_inv n key hash live slots" and same: "\<And>v. stored n slots v \<Longrightarrow> key' v = key v \<and> live' v"
  shows "table_inv n key' hash live' slots"
proof -
  have key: "key' (slots ! p) = key (slots ! p)" "live' (slots ! p)" if "p < n" "slots ! p \<noteq> EMPTY" for p
    using same [of "slots ! p"] that unfolding stored_def by blast+
  show ?thesis
    unfolding table_inv_def
  proof (intro conjI allI impI)
    fix p assume p: "p < n" "slots ! p \<noteq> EMPTY"
    show "live' (slots ! p)" by (rule key(2) [OF p])
    show "path_ok n slots (hash (key' (slots ! p))) p" unfolding key(1) [OF p] by (rule table_invD(4) [OF ti p])
  next
    fix p q assume p: "p < n" "q < n" and pq: "slots ! p \<noteq> EMPTY \<and> slots ! q \<noteq> EMPTY \<and> key' (slots ! p) = key' (slots ! q)"
    then have ne: "slots ! p \<noteq> EMPTY" "slots ! q \<noteq> EMPTY" by blast+
    from pq have "key (slots ! p) = key (slots ! q)" unfolding key(1) [OF p(1) ne(1)] key(1) [OF p(2) ne(2)] by blast
    from table_invD(5) [OF ti p ne this] show "p = q" .
  next
    show "0 < n" "length slots = n" using table_invD(1,2) [OF ti] .
  qed
qed

lemma find_locate:
  "probe_find n m slots b fuel = (case probe_locate n m slots b fuel of None \<Rightarrow> EMPTY | Some p \<Rightarrow> slots ! p)"
  by (induction n m slots b fuel rule: probe_find.induct) auto

lemma insert_located:
  "probe_locate n m slots b fuel = Some p \<Longrightarrow> probe_insert n m slots b fuel v = (True, slots[p := v])"
  by (induction n m slots b fuel rule: probe_locate.induct) (auto split: if_splits)

lemma locate_Some: "probe_locate n m slots b fuel = Some p \<Longrightarrow> b < n \<Longrightarrow> p < n \<and> slots ! p \<noteq> EMPTY \<and> m (slots ! p)"
  by (induction n m slots b fuel rule: probe_locate.induct) (auto simp: next_slot_less split: if_splits)

locale probe_table =
  fixes n :: nat and key :: "int \<Rightarrow> 'k" and hash :: "'k \<Rightarrow> nat" and live :: "int \<Rightarrow> bool"
  assumes hash_less: "0 < n \<Longrightarrow> hash k < n"
begin

lemma locate_hit:
  assumes inv: "table_inv n key hash live slots" and p: "p < n" "slots ! p \<noteq> EMPTY" "key (slots ! p) = k"
    and m: "\<And>v. v \<noteq> EMPTY \<Longrightarrow> m v \<longleftrightarrow> live v \<and> key v = k"
  shows "b < n \<Longrightarrow> dist n (hash k) b \<le> dist n (hash k) p \<Longrightarrow> dist n b p < fuel \<Longrightarrow> probe_locate n m slots b fuel = Some p"
proof (induction fuel arbitrary: b)
  case (Suc fuel)
  have n: "0 < n" using inv by (simp add: table_inv_def)
  have live: "live (slots ! p)" and path: "path_ok n slots (hash k) p" using inv p by (auto simp: table_inv_def)
  show ?case
  proof (cases "b = p")
    case True
    with p m live show ?thesis by simp
  next
    case False
    let ?h = "hash k"
    have "dist n ?h b \<noteq> dist n ?h p" using dist_inj [OF hash_less [OF n] Suc.prems(1) p(1)] False by blast
    then have lt: "dist n ?h b < dist n ?h p" using Suc.prems(2) by simp
    then have ne: "slots ! b \<noteq> EMPTY" using path Suc.prems(1) by (simp add: path_ok_def)
    have "key (slots ! b) \<noteq> k" using inv p Suc.prems(1) ne False by (auto simp: table_inv_def)
    with m [OF ne] have nm: "\<not> m (slots ! b)" by simp
    have nb: "next_slot n b < n" by (rule next_slot_less [OF Suc.prems(1)])
    have "next_slot n b \<noteq> ?h"
    proof
      assume "next_slot n b = ?h"
      then have "dist n ?h b = n - 1" using Suc.prems(1) by (auto simp: dist_def next_slot_def split: if_splits)
      with lt dist_less [OF hash_less [OF n] p(1), of k] show False by simp
    qed
    then have "dist n ?h (next_slot n b) \<le> dist n ?h p"
      using dist_next [OF hash_less [OF n] Suc.prems(1)] lt by simp
    moreover have "dist n (next_slot n b) p < fuel"
      using dist_next_left [OF Suc.prems(1) p(1) False] Suc.prems(3) dist_0 [OF Suc.prems(1) p(1)] False by simp
    ultimately show ?thesis using Suc.IH [OF nb] ne nm by simp
  qed
qed simp

lemma locate_home:
  assumes "table_inv n key hash live slots" "p < n" "slots ! p \<noteq> EMPTY" "key (slots ! p) = k"
    and "\<And>v. v \<noteq> EMPTY \<Longrightarrow> m v \<longleftrightarrow> live v \<and> key v = k"
  shows "probe_locate n m slots (hash k) n = Some p"
proof -
  have n: "0 < n" using assms(1) by (simp add: table_inv_def)
  show ?thesis by (rule locate_hit [OF assms hash_less [OF n]]) (simp_all add: dist_less hash_less n assms(2))
qed

text \<open>A lookup finds the slot stored under a key and nothing else.\<close>

lemma find_hit:
  assumes "table_inv n key hash live slots" "stored n slots v" "key v = k"
    and "\<And>v. v \<noteq> EMPTY \<Longrightarrow> m v \<longleftrightarrow> live v \<and> key v = k"
  shows "probe_find n m slots (hash k) n = v"
  using assms(2,3) locate_home [OF assms(1) _ _ _ assms(4)] by (auto simp: stored_def find_locate)

lemma locate_miss:
  assumes "0 < n" "\<And>v. stored n slots v \<Longrightarrow> key v \<noteq> k"
    and "\<And>v. v \<noteq> EMPTY \<Longrightarrow> m v \<longleftrightarrow> live v \<and> key v = k"
  shows "probe_locate n m slots (hash k) n = None"
proof (cases "probe_locate n m slots (hash k) n")
  case (Some p)
  from locate_Some [OF Some hash_less [OF assms(1)]] assms(2) [of "slots ! p"] assms(3) [of "slots ! p"]
  show ?thesis by (auto simp: stored_def)
qed simp

lemma find_miss:
  assumes "0 < n" "\<And>v. stored n slots v \<Longrightarrow> key v \<noteq> k"
    and "\<And>v. v \<noteq> EMPTY \<Longrightarrow> m v \<longleftrightarrow> live v \<and> key v = k"
  shows "probe_find n m slots (hash k) n = EMPTY"
  by (simp add: find_locate locate_miss [OF assms])

lemma insert_empty:
  assumes e: "e < n" "slots ! e = EMPTY" and n: "0 < n"
    and nm: "\<And>p. p < n \<Longrightarrow> slots ! p \<noteq> EMPTY \<Longrightarrow> \<not> m (slots ! p)"
  shows "b < n \<Longrightarrow> path_ok n slots (hash k) b \<Longrightarrow> dist n (hash k) b \<le> dist n (hash k) e \<Longrightarrow> dist n b e < fuel \<Longrightarrow>
    \<exists>e' < n. slots ! e' = EMPTY \<and> path_ok n slots (hash k) e' \<and> probe_insert n m slots b fuel v = (True, slots[e' := v])"
proof (induction fuel arbitrary: b)
  case (Suc fuel)
  let ?h = "hash k"
  note h = hash_less [OF n, of k]
  show ?case
  proof (cases "slots ! b = EMPTY")
    case True
    with Suc.prems show ?thesis by auto
  next
    case False
    then have be: "b \<noteq> e" using e by auto
    then have lt: "dist n ?h b < dist n ?h e" using Suc.prems(3) dist_inj [OF h Suc.prems(1) e(1)] by (metis le_neq_implies_less)
    have nh: "next_slot n b \<noteq> ?h"
    proof
      assume "next_slot n b = ?h"
      then have "dist n ?h b = n - 1" using Suc.prems(1) by (auto simp: dist_def next_slot_def split: if_splits)
      with lt dist_less [OF h e(1)] show False by simp
    qed
    have d: "dist n ?h (next_slot n b) = dist n ?h b + 1" by (rule dist_next [OF h Suc.prems(1) nh])
    have "path_ok n slots ?h (next_slot n b)"
      unfolding path_ok_def d
    proof (intro allI impI)
      fix x assume x: "x < n" "dist n ?h x < dist n ?h b + 1"
      show "slots ! x \<noteq> EMPTY"
      proof (cases "x = b")
        case False
        with x dist_inj [OF h x(1) Suc.prems(1)] have "dist n ?h x < dist n ?h b" by fastforce
        with Suc.prems(2) x show ?thesis by (simp add: path_ok_def)
      qed (use \<open>slots ! b \<noteq> EMPTY\<close> in simp)
    qed
    moreover have "dist n (next_slot n b) e < fuel"
      using dist_next_left [OF Suc.prems(1) e(1) be] Suc.prems(4) dist_0 [OF Suc.prems(1) e(1)] be by simp
    ultimately show ?thesis
      using Suc.IH [OF next_slot_less [OF Suc.prems(1)]] d lt nm [OF Suc.prems(1) False] False by simp
  qed
qed simp

lemma table_inv_update:
  assumes inv: "table_inv n key hash live slots" and p: "p < n" and v: "v \<noteq> EMPTY" "live v"
    and path: "path_ok n slots (hash (key v)) p"
    and others: "\<And>q. q < n \<Longrightarrow> q \<noteq> p \<Longrightarrow> slots ! q \<noteq> EMPTY \<Longrightarrow> key (slots ! q) \<noteq> key v"
  shows "table_inv n key hash live (slots[p := v])"
    and "stored n (slots[p := v]) u \<longleftrightarrow> u = v \<or> (\<exists>q < n. q \<noteq> p \<and> slots ! q = u \<and> u \<noteq> EMPTY)"
proof -
  define s where "s = slots[p := v]"
  have n: "0 < n" "length slots = n" using inv by (auto simp: table_inv_def)
  have get: "s ! q = (if q = p then v else slots ! q)" if "q < n" for q
    using that n by (simp add: s_def)
  have mono: "path_ok n s h q" if "path_ok n slots h q" for h q
    using that v(1) get unfolding path_ok_def by metis
  have "live (s ! q) \<and> path_ok n s (hash (key (s ! q))) q" if "q < n" "s ! q \<noteq> EMPTY" for q
    using that get [OF that(1)] mono path v inv by (cases "q = p") (auto simp: table_inv_def)
  moreover have "q = r" if "q < n" "r < n" "s ! q \<noteq> EMPTY" "s ! r \<noteq> EMPTY" "key (s ! q) = key (s ! r)" for q r
  proof -
    have old: "slots ! q \<noteq> EMPTY \<Longrightarrow> slots ! r \<noteq> EMPTY \<Longrightarrow> key (slots ! q) = key (slots ! r) \<Longrightarrow> q = r"
      using inv that(1,2) by (simp add: table_inv_def)
    show ?thesis
      using that get [OF that(1)] get [OF that(2)] others [OF that(1)] others [OF that(2)] old
      by (cases "q = p"; cases "r = p") auto
  qed
  ultimately have "table_inv n key hash live s" using n by (auto simp: table_inv_def s_def)
  then show "table_inv n key hash live (slots[p := v])" by (simp add: s_def)
  have "stored n s u \<longleftrightarrow> u = v \<or> (\<exists>q < n. q \<noteq> p \<and> slots ! q = u \<and> u \<noteq> EMPTY)"
    unfolding stored_def using get p v(1) by metis
  then show "stored n (slots[p := v]) u \<longleftrightarrow> u = v \<or> (\<exists>q < n. q \<noteq> p \<and> slots ! q = u \<and> u \<noteq> EMPTY)" by (simp add: s_def)
qed

text \<open>Insertion maps the key to the new slot and leaves every other key alone.\<close>

lemma insert_spec:
  assumes inv: "table_inv n key hash live slots" and v: "v \<noteq> EMPTY" "live v" "key v = k"
    and room: "free_slot n slots \<or> (\<exists>u. stored n slots u \<and> key u = k)"
    and m: "\<And>v. v \<noteq> EMPTY \<Longrightarrow> m v \<longleftrightarrow> live v \<and> key v = k"
  shows "\<exists>s'. probe_insert n m slots (hash k) n v = (True, s') \<and> table_inv n key hash live s'
    \<and> (\<forall>u. stored n s' u \<longleftrightarrow> u = v \<or> stored n slots u \<and> key u \<noteq> k)"
proof -
  have n: "0 < n" using inv by (auto simp: table_inv_def)
  have "\<exists>p < n. probe_insert n m slots (hash k) n v = (True, slots[p := v]) \<and> path_ok n slots (hash k) p
      \<and> (\<forall>q < n. q \<noteq> p \<and> slots ! q \<noteq> EMPTY \<longrightarrow> key (slots ! q) \<noteq> k) \<and> (slots ! p \<noteq> EMPTY \<longrightarrow> key (slots ! p) = k)"
  proof (cases "\<exists>u. stored n slots u \<and> key u = k")
    case True
    then obtain p where p: "p < n" "slots ! p \<noteq> EMPTY" "key (slots ! p) = k" by (auto simp: stored_def)
    have "probe_insert n m slots (hash k) n v = (True, slots[p := v])"
      by (rule insert_located [OF locate_home [where m = m and k = k, OF inv p m]])
    moreover have "path_ok n slots (hash k) p" using table_invD(4) [OF inv p(1,2)] p(3) by simp
    moreover have "key (slots ! q) \<noteq> k" if "q < n" "q \<noteq> p" "slots ! q \<noteq> EMPTY" for q
      using table_invD(5) [OF inv that(1) p(1) that(3) p(2)] that(2) p(3) by auto
    ultimately show ?thesis using p by (intro exI [of _ p]) simp
  next
    case False
    then obtain e where e: "e < n" "slots ! e = EMPTY" using room by (auto simp: free_slot_def)
    have ab: "key (slots ! p) \<noteq> k" if "p < n" "slots ! p \<noteq> EMPTY" for p
      using False that by (auto simp: stored_def)
    have nm: "p < n \<Longrightarrow> slots ! p \<noteq> EMPTY \<Longrightarrow> \<not> m (slots ! p)" for p
      using ab m by blast
    have "path_ok n slots (hash k) (hash k)" by (simp add: path_ok_def)
    moreover have "dist n (hash k) e < n" by (rule dist_less [OF hash_less [OF n] e(1)])
    moreover have "dist n (hash k) (hash k) \<le> dist n (hash k) e" by simp
    ultimately have "\<exists>e' < n. slots ! e' = EMPTY \<and> path_ok n slots (hash k) e'
        \<and> probe_insert n m slots (hash k) n v = (True, slots[e' := v])"
      using insert_empty [where e = e and slots = slots and m = m and b = "hash k" and k = k and fuel = n and v = v,
          OF e n nm hash_less [OF n]] by blast
    then obtain e' where e': "e' < n" "slots ! e' = EMPTY" "path_ok n slots (hash k) e'"
      "probe_insert n m slots (hash k) n v = (True, slots[e' := v])" by blast
    show ?thesis by (rule exI [of _ e']) (use e' ab in simp)
  qed
  then obtain p where p: "p < n" "probe_insert n m slots (hash k) n v = (True, slots[p := v])" "path_ok n slots (hash k) p"
    and o: "\<And>q. q < n \<Longrightarrow> q \<noteq> p \<Longrightarrow> slots ! q \<noteq> EMPTY \<Longrightarrow> key (slots ! q) \<noteq> k"
    and pk: "slots ! p \<noteq> EMPTY \<Longrightarrow> key (slots ! p) = k" by blast
  have inv': "table_inv n key hash live (slots[p := v])"
    by (rule table_inv_update(1) [OF inv p(1) v(1,2)]) (simp_all add: v(3) p(3) o)
  have u: "stored n (slots[p := v]) w \<longleftrightarrow> w = v \<or> (\<exists>q < n. q \<noteq> p \<and> slots ! q = w \<and> w \<noteq> EMPTY)" for w
    by (rule table_inv_update(2) [OF inv p(1) v(1,2)]) (simp_all add: v(3) p(3) o)
  have w: "(\<exists>q < n. q \<noteq> p \<and> slots ! q = w \<and> w \<noteq> EMPTY) \<longleftrightarrow> stored n slots w \<and> key w \<noteq> k" for w
  proof
    assume "\<exists>q < n. q \<noteq> p \<and> slots ! q = w \<and> w \<noteq> EMPTY"
    then obtain q where "q < n" "q \<noteq> p" "slots ! q = w" "w \<noteq> EMPTY" by blast
    with o [of q] show "stored n slots w \<and> key w \<noteq> k" by (auto simp: stored_def)
  next
    assume "stored n slots w \<and> key w \<noteq> k"
    then obtain q where "q < n" "slots ! q = w" "w \<noteq> EMPTY" "key w \<noteq> k" by (auto simp: stored_def)
    with pk show "\<exists>q < n. q \<noteq> p \<and> slots ! q = w \<and> w \<noteq> EMPTY" by (intro exI [of _ q]) auto
  qed
  show ?thesis by (rule exI [of _ "slots[p := v]"]) (simp add: p(2) inv' u w)
qed

end

text \<open>
  What the loop that closes a run keeps: entries between the hole and the scan position are
  reachable, all others are reachable once the hole is excused, and an empty bucket lies
  ahead, so the scan ends before it has gone round.
\<close>

definition closing :: "nat \<Rightarrow> (int \<Rightarrow> nat) \<Rightarrow> int list \<Rightarrow> nat \<Rightarrow> nat \<Rightarrow> nat \<Rightarrow> bool" where
  "closing n home slots hole j e \<longleftrightarrow> length slots = n \<and> hole < n \<and> j < n \<and> e < n \<and> slots ! hole = EMPTY
     \<and> slots ! e = EMPTY \<and> e \<noteq> hole \<and> (j = hole \<or> slots ! j \<noteq> EMPTY)
     \<and> (\<forall>q < n. slots ! q \<noteq> EMPTY \<longrightarrow> path_mod n slots hole (home (slots ! q)) q)
     \<and> (\<forall>q < n. slots ! q \<noteq> EMPTY \<and> 0 < dist n hole q \<and> dist n hole q \<le> dist n hole j
           \<longrightarrow> path_ok n slots (home (slots ! q)) q)"

lemma closing_stop:
  assumes c: "closing n home slots hole j e" and home: "\<And>v. home v < n" and stop: "slots ! next_slot n j = EMPTY"
    and q: "q < n" "slots ! q \<noteq> EMPTY"
  shows "path_ok n slots (home (slots ! q)) q"
proof (cases "dist n hole q \<le> dist n hole j")
  case True
  from c have h: "hole < n" "slots ! hole = EMPTY" by (auto simp: closing_def)
  with q have "0 < dist n hole q" using dist_0 [OF h(1) q(1)] by auto
  with True c q show ?thesis by (auto simp: closing_def)
next
  case False
  let ?h = "home (slots ! q)"
  let ?j = "next_slot n j"
  from c have h: "hole < n" and j: "j < n" by (auto simp: closing_def)
  have jn: "?j < n" by (rule next_slot_less [OF j])
  have pm: "path_mod n slots hole ?h q" using c q by (simp add: closing_def)
  have jh: "?j \<noteq> hole"
  proof
    assume "?j = hole"
    then have "dist n hole j = n - 1" using j by (auto simp: dist_def next_slot_def split: if_splits)
    with False dist_less [OF h q(1)] show False by simp
  qed
  have dj: "dist n hole ?j = dist n hole j + 1" by (rule dist_next [OF h j jh])
  have "?j \<noteq> q" using stop q by auto
  with dj False dist_inj [OF h jn q(1)] have lt: "dist n hole ?j < dist n hole q" by fastforce
  have "\<not> dist n ?h hole < dist n ?h q"
  proof
    assume a: "dist n ?h hole < dist n ?h q"
    have "dist n ?h ?j < dist n ?h q" by (rule path_crosses [OF h home q(1) jn a]) (use dj lt in simp_all)
    with pm jn jh stop show False by (auto simp: path_mod_def)
  qed
  with pm show ?thesis by (auto simp: path_mod_def path_ok_def)
qed

lemma closing_skip:
  assumes c: "closing n home slots hole j e" and home: "\<And>v. home v < n" and ne: "slots ! next_slot n j \<noteq> EMPTY"
    and stay: "\<not> movable hole (next_slot n j) (home (slots ! next_slot n j))"
  shows "closing n home slots hole (next_slot n j) e"
proof -
  let ?j = "next_slot n j"
  from c have h: "hole < n" "slots ! hole = EMPTY" and j: "j < n" by (auto simp: closing_def)
  have jn: "?j < n" by (rule next_slot_less [OF j])
  have jh: "?j \<noteq> hole" using ne h by auto
  have dj: "dist n hole ?j = dist n hole j + 1" by (rule dist_next [OF h(1) j jh])
  have "path_ok n slots (home (slots ! q)) q" if q: "q < n" "slots ! q \<noteq> EMPTY" "0 < dist n hole q" "dist n hole q \<le> dist n hole ?j" for q
  proof (cases "q = ?j")
    case True
    have pm: "path_mod n slots hole (home (slots ! q)) q" using c q by (simp add: closing_def)
    have "0 < dist n hole (home (slots ! q)) \<and> dist n hole (home (slots ! q)) \<le> dist n hole q"
      using stay movable_iff [OF h(1) jn home jh] True by blast
    then have "\<not> dist n (home (slots ! q)) hole < dist n (home (slots ! q)) q"
      using path_avoids [OF h(1) home q(1)] by blast
    with pm show ?thesis by (auto simp: path_mod_def path_ok_def)
  next
    case False
    with dist_inj [OF h(1) q(1) jn] q(4) dj have "dist n hole q \<le> dist n hole j" by fastforce
    with c q show ?thesis by (simp add: closing_def)
  qed
  with c ne jn show ?thesis by (simp add: closing_def)
qed

lemma closing_move:
  assumes c: "closing n home slots hole j e" and home: "\<And>v. home v < n" and ne: "slots ! next_slot n j \<noteq> EMPTY"
    and mv: "movable hole (next_slot n j) (home (slots ! next_slot n j))"
  shows "closing n home (slots[hole := slots ! next_slot n j, next_slot n j := EMPTY]) (next_slot n j) (next_slot n j) e"
proof -
  let ?j = "next_slot n j"
  define s where "s = slots[hole := slots ! ?j, ?j := EMPTY]"
  from c have h: "hole < n" "slots ! hole = EMPTY" and j: "j < n" and len: "length slots = n"
    and e: "e < n" "slots ! e = EMPTY" "e \<noteq> hole" by (auto simp: closing_def)
  have jn: "?j < n" by (rule next_slot_less [OF j])
  have jh: "?j \<noteq> hole" using ne h by auto
  have get: "s ! q = (if q = ?j then EMPTY else if q = hole then slots ! ?j else slots ! q)" if "q < n" for q
    using that len by (simp add: s_def)
  have up: "x = ?j \<or> s ! x \<noteq> EMPTY" if "x < n" "x = hole \<or> slots ! x \<noteq> EMPTY" for x
    using that get [OF that(1)] ne by auto
  have "path_mod n s ?j (home (s ! q)) q" if q: "q < n" "s ! q \<noteq> EMPTY" for q
  proof (cases "q = hole")
    case True
    let ?h = "home (slots ! ?j)"
    have sq: "s ! q = slots ! ?j" using get [OF q(1)] True jh by simp
    have pm: "path_mod n slots hole ?h ?j" using c jn ne by (simp add: closing_def)
    have nb: "\<not> (0 < dist n hole ?h \<and> dist n hole ?h \<le> dist n hole ?j)"
      using mv movable_iff [OF h(1) jn home jh] by blast
    have "path_mod n s ?j ?h hole"
      unfolding path_mod_def
    proof (intro allI impI)
      fix x assume x: "x < n" "dist n ?h x < dist n ?h hole"
      have "dist n ?h x < dist n ?h ?j" by (rule path_prefix [OF h(1) home jn nb jh x])
      with pm x(1) have "x = hole \<or> slots ! x \<noteq> EMPTY" by (simp add: path_mod_def)
      with up [OF x(1)] show "x = ?j \<or> s ! x \<noteq> EMPTY" by blast
    qed
    with sq True show ?thesis by simp
  next
    case False
    then have "q \<noteq> ?j" "s ! q = slots ! q" "slots ! q \<noteq> EMPTY" using get [OF q(1)] q(2) by (auto split: if_splits)
    with c q(1) have "path_mod n slots hole (home (slots ! q)) q" by (simp add: closing_def)
    then show ?thesis unfolding path_mod_def \<open>s ! q = slots ! q\<close> using up by blast
  qed
  moreover have "s ! ?j = EMPTY" "s ! e = EMPTY" "e \<noteq> ?j" using get [OF jn] get [OF e(1)] e ne by auto
  moreover have "length s = n" by (simp add: s_def len)
  ultimately have "closing n home s ?j ?j e" using jn e(1) by (auto simp: closing_def)
  then show ?thesis by (simp add: s_def)
qed

text \<open>Moving an entry into the hole changes neither what is stored nor that keys are unique.\<close>

definition keys_unique :: "nat \<Rightarrow> (int \<Rightarrow> 'k) \<Rightarrow> int list \<Rightarrow> bool" where
  "keys_unique n key slots \<longleftrightarrow>
     (\<forall>p < n. \<forall>q < n. slots ! p \<noteq> EMPTY \<and> slots ! q \<noteq> EMPTY \<and> key (slots ! p) = key (slots ! q) \<longrightarrow> p = q)"

lemma move_stored:
  assumes "length slots = n" "hole < n" "j < n" "slots ! hole = EMPTY" "slots ! j \<noteq> EMPTY"
  shows "stored n (slots[hole := slots ! j, j := EMPTY]) u \<longleftrightarrow> stored n slots u"
proof -
  have jh: "j \<noteq> hole" using assms by auto
  have get: "slots[hole := slots ! j, j := EMPTY] ! q = (if q = j then EMPTY else if q = hole then slots ! j else slots ! q)"
    if "q < n" for q using that assms(1) by simp
  show ?thesis
  proof
    assume "stored n (slots[hole := slots ! j, j := EMPTY]) u"
    then obtain q where q: "q < n" "u \<noteq> EMPTY" "slots[hole := slots ! j, j := EMPTY] ! q = u" by (auto simp: stored_def)
    with get [OF q(1)] assms show "stored n slots u" by (auto simp: stored_def split: if_splits)
  next
    assume "stored n slots u"
    then obtain q where q: "q < n" "u \<noteq> EMPTY" "slots ! q = u" by (auto simp: stored_def)
    show "stored n (slots[hole := slots ! j, j := EMPTY]) u"
    proof (cases "q = j")
      case True
      with q assms get [OF assms(2)] jh show ?thesis by (auto simp: stored_def intro: exI [of _ hole])
    next
      case False
      with q assms(4) get [OF q(1)] show ?thesis by (auto simp: stored_def intro!: exI [of _ q])
    qed
  qed
qed

lemma move_unique:
  assumes "length slots = n" "hole < n" "j < n" "slots ! hole = EMPTY" "slots ! j \<noteq> EMPTY" "keys_unique n key slots"
  shows "keys_unique n key (slots[hole := slots ! j, j := EMPTY])"
proof -
  define s where "s = slots[hole := slots ! j, j := EMPTY]"
  have get: "s ! q = (if q = j then EMPTY else if q = hole then slots ! j else slots ! q)" if "q < n" for q
    using that assms(1) by (simp add: s_def)
  have "p = q" if "p < n" "q < n" "s ! p \<noteq> EMPTY" "s ! q \<noteq> EMPTY" "key (s ! p) = key (s ! q)" for p q
  proof -
    let ?f = "\<lambda>x. if x = hole then j else x"
    have o: "s ! p = slots ! ?f p" "s ! q = slots ! ?f q" "?f p < n" "?f q < n" "p \<noteq> j" "q \<noteq> j"
      using get [OF that(1)] get [OF that(2)] that assms(3) by (auto split: if_splits)
    have "slots ! ?f p \<noteq> EMPTY \<and> slots ! ?f q \<noteq> EMPTY \<and> key (slots ! ?f p) = key (slots ! ?f q)"
      using that(3-5) unfolding o(1,2) by blast
    with assms(6) o(3,4) have "?f p = ?f q" unfolding keys_unique_def by blast
    with o(5,6) show ?thesis by (auto split: if_splits)
  qed
  then show ?thesis unfolding keys_unique_def s_def [symmetric] by blast
qed

lemma close_run_spec:
  assumes home: "\<And>v. home v < n"
  shows "\<lbrakk> closing n home slots hole j e; \<And>u. stored n slots u \<Longrightarrow> live u; keys_unique n key slots; dist n j e \<le> fuel \<rbrakk> \<Longrightarrow>
    let s = close_run n live home slots hole j fuel in
      length s = n \<and> keys_unique n key s \<and> (\<forall>u. stored n s u \<longleftrightarrow> stored n slots u) \<and> s ! e = EMPTY
      \<and> (\<forall>q < n. s ! q \<noteq> EMPTY \<longrightarrow> path_ok n s (home (s ! q)) q)"
proof (induction fuel arbitrary: slots hole j)
  case 0
  then have "j = e" using dist_0 [of j n e] by (auto simp: closing_def)
  with 0 show ?case by (auto simp: closing_def)
next
  case (Suc fuel)
  let ?j = "next_slot n j"
  note c = Suc.prems(1)
  from c have h: "hole < n" "slots ! hole = EMPTY" and j: "j < n" and len: "length slots = n"
    and e: "e < n" "slots ! e = EMPTY" "e \<noteq> hole" "j \<noteq> e" by (auto simp: closing_def)
  have jn: "?j < n" by (rule next_slot_less [OF j])
  have d: "dist n ?j e \<le> fuel" using dist_next_left [OF j e(1,4)] Suc.prems(4) by simp
  show ?case
  proof (cases "slots ! ?j = EMPTY")
    case True
    with closing_stop [OF c home True] Suc.prems(3) len e show ?thesis by (simp add: Let_def)
  next
    case False
    then have st: "stored n slots (slots ! ?j)" using jn by (auto simp: stored_def)
    with Suc.prems(2) have lv: "live (slots ! ?j)" by blast
    show ?thesis
    proof (cases "movable hole ?j (home (slots ! ?j))")
      case mv: True
      let ?s = "slots[hole := slots ! ?j, ?j := EMPTY]"
      have same: "stored n ?s u \<longleftrightarrow> stored n slots u" for u by (rule move_stored [OF len h(1) jn h(2) False])
      have "let s = close_run n live home ?s ?j ?j fuel in
        length s = n \<and> keys_unique n key s \<and> (\<forall>u. stored n s u \<longleftrightarrow> stored n ?s u) \<and> s ! e = EMPTY
        \<and> (\<forall>q < n. s ! q \<noteq> EMPTY \<longrightarrow> path_ok n s (home (s ! q)) q)"
        by (rule Suc.IH [OF closing_move [OF c home False mv] _ move_unique [OF len h(1) jn h(2) False Suc.prems(3)] d])
          (use same Suc.prems(2) in blast)
      with mv lv False same show ?thesis by (simp add: Let_def)
    next
      case False
      from Suc.IH [OF closing_skip [OF c home \<open>slots ! ?j \<noteq> EMPTY\<close> False] Suc.prems(2,3) d] lv False \<open>slots ! ?j \<noteq> EMPTY\<close>
      show ?thesis by (simp add: Let_def)
    qed
  qed
qed

context probe_table
begin

text \<open>Removal forgets one key and leaves every other reachable.\<close>

lemma remove_spec:
  assumes inv: "table_inv n key hash live slots" and room: "free_slot n slots"
    and m: "\<And>v. v \<noteq> EMPTY \<Longrightarrow> m v \<longleftrightarrow> live v \<and> key v = k"
  shows "let s = probe_remove n m live (\<lambda>v. hash (key v)) slots (hash k) in
    table_inv n key hash live s \<and> free_slot n s \<and> (\<forall>u. stored n s u \<longleftrightarrow> stored n slots u \<and> key u \<noteq> k)"
proof -
  have n: "0 < n" and len: "length slots = n" using inv by (auto simp: table_inv_def)
  show ?thesis
  proof (cases "\<exists>u. stored n slots u \<and> key u = k")
    case False
    have "probe_locate n m slots (hash k) n = None" by (rule locate_miss [where m = m and k = k, OF n _ m]) (use False in auto)
    then have "probe_remove n m live (\<lambda>v. hash (key v)) slots (hash k) = slots" by (simp add: probe_remove_def)
    with False inv room show ?thesis by (auto simp: Let_def)
  next
    case True
    then obtain p where p: "p < n" "slots ! p \<noteq> EMPTY" "key (slots ! p) = k" by (auto simp: stored_def)
    have l: "probe_locate n m slots (hash k) n = Some p" by (rule locate_home [where m = m and k = k, OF inv p m])
    obtain e where e: "e < n" "slots ! e = EMPTY" using room by (auto simp: free_slot_def)
    let ?s = "slots[p := EMPTY]"
    have get: "?s ! q = (if q = p then EMPTY else slots ! q)" if "q < n" for q using that len by simp
    have uniq: "q = p" if "q < n" "slots ! q \<noteq> EMPTY" "key (slots ! q) = k" for q
      using table_invD(5) [OF inv that(1) p(1) that(2) p(2)] that(3) p(3) by simp
    have st: "stored n ?s u \<longleftrightarrow> stored n slots u \<and> key u \<noteq> k" for u
    proof
      assume "stored n ?s u"
      then obtain q where q: "q < n" "?s ! q = u" "u \<noteq> EMPTY" unfolding stored_def by blast
      then have "q \<noteq> p" "slots ! q = u" using get [OF q(1)] by (auto split: if_splits)
      moreover from this have "key u \<noteq> k" using uniq [OF q(1)] q(3) by auto
      ultimately show "stored n slots u \<and> key u \<noteq> k" using q(1,3) unfolding stored_def by blast
    next
      assume "stored n slots u \<and> key u \<noteq> k"
      then obtain q where q: "q < n" "slots ! q = u" "u \<noteq> EMPTY" "key u \<noteq> k" unfolding stored_def by blast
      then have "?s ! q = u" using get [OF q(1)] p(3) by (auto split: if_splits)
      with q(1,3) show "stored n ?s u" unfolding stored_def by blast
    qed
    have pm: "path_mod n ?s p (hash (key (?s ! q))) q" if "q < n" "?s ! q \<noteq> EMPTY" for q
    proof -
      have "slots ! q \<noteq> EMPTY" "?s ! q = slots ! q" using get [OF that(1)] that(2) by (auto split: if_splits)
      with table_invD(4) [OF inv that(1)] have "path_ok n slots (hash (key (?s ! q))) q" by simp
      then have "x < n \<Longrightarrow> dist n (hash (key (?s ! q))) x < dist n (hash (key (?s ! q))) q \<Longrightarrow> slots ! x \<noteq> EMPTY" for x
        by (simp add: path_ok_def)
      moreover have "x = p \<or> ?s ! x \<noteq> EMPTY" if "x < n" "slots ! x \<noteq> EMPTY" for x
        using get [OF that(1)] that(2) by (auto split: if_splits)
      ultimately show ?thesis unfolding path_mod_def by blast
    qed
    have c: "closing n (\<lambda>v. hash (key v)) ?s p p e"
    proof -
      have "?s ! p = EMPTY" "?s ! e = EMPTY" "e \<noteq> p" using get [OF p(1)] get [OF e(1)] e p(2) by auto
      moreover have "length ?s = n" using len by simp
      moreover have "\<forall>q < n. ?s ! q \<noteq> EMPTY \<and> 0 < dist n p q \<and> dist n p q \<le> dist n p p
          \<longrightarrow> path_ok n ?s (hash (key (?s ! q))) q" by auto
      ultimately show ?thesis unfolding closing_def using pm p(1) e(1) by blast
    qed
    have ku: "keys_unique n key ?s"
      unfolding keys_unique_def
    proof (intro allI impI, elim conjE)
      fix a b assume ab: "a < n" "b < n" "?s ! a \<noteq> EMPTY" "?s ! b \<noteq> EMPTY" "key (?s ! a) = key (?s ! b)"
      then have "?s ! a = slots ! a" "?s ! b = slots ! b" using get [OF ab(1)] get [OF ab(2)] by (auto split: if_splits)
      with ab table_invD(5) [OF inv ab(1,2)] show "a = b" by simp
    qed
    have lv: "live u" if "stored n ?s u" for u
    proof -
      from that st [of u] obtain q where "q < n" "slots ! q = u" "u \<noteq> EMPTY" by (auto simp: stored_def)
      with table_invD(3) [OF inv, of q] show ?thesis by simp
    qed
    have "dist n p e \<le> n" using dist_less [OF p(1) e(1)] by simp
    define s where "s = close_run n live (\<lambda>v. hash (key v)) ?s p p n"
    have r: "length s = n" "keys_unique n key s" "\<And>u. stored n s u \<longleftrightarrow> stored n ?s u" "s ! e = EMPTY"
      "\<And>q. q < n \<Longrightarrow> s ! q \<noteq> EMPTY \<Longrightarrow> path_ok n s (hash (key (s ! q))) q"
      using close_run_spec [OF hash_less [OF n] c lv ku \<open>dist n p e \<le> n\<close>] by (simp_all add: s_def Let_def)
    have "live (s ! q)" if "q < n" "s ! q \<noteq> EMPTY" for q
    proof -
      have "stored n s (s ! q)" using that by (auto simp: stored_def)
      then show ?thesis using r(3) [of "s ! q"] lv [of "s ! q"] by simp
    qed
    then have "table_inv n key hash live s"
      unfolding table_inv_def using n r(1,5) r(2) [unfolded keys_unique_def] by simp
    moreover have "free_slot n s" using e(1) r(4) by (auto simp: free_slot_def)
    moreover have "probe_remove n m live (\<lambda>v. hash (key v)) slots (hash k) = s" using l by (simp add: probe_remove_def s_def)
    ultimately show ?thesis by (simp add: Let_def r(3) st)
  qed
qed

lemma find_spec:
  assumes "table_inv n key hash live slots" "\<And>v. v \<noteq> EMPTY \<Longrightarrow> m v \<longleftrightarrow> live v \<and> key v = k"
  shows "probe_find n m slots (hash k) n = v \<longleftrightarrow>
    (stored n slots v \<and> key v = k) \<or> (v = EMPTY \<and> (\<forall>u. stored n slots u \<longrightarrow> key u \<noteq> k))"
proof (cases "\<exists>u. stored n slots u \<and> key u = k")
  case True
  then obtain u where u: "stored n slots u" "key u = k" by blast
  have hit: "probe_find n m slots (hash k) n = x" if "stored n slots x" "key x = k" for x
    by (rule find_hit [OF assms(1) that assms(2)])
  from hit [OF u] u hit show ?thesis by metis
next
  case False
  have "0 < n" using assms(1) by (simp add: table_inv_def)
  then have "probe_find n m slots (hash k) n = EMPTY"
    by (rule find_miss [OF _ _ assms(2)]) (use False in blast)
  with False show ?thesis by metis
qed

end

end
