(* ===== verification/Lattice.thy ===== *)
theory Lattice imports Probe_Table Ternary begin

text \<open>
  The coordinate index of the GOOSE fabric: components/goose/goose_lattice.c. An open-addressed
  table of cell numbers keyed by the cells' own coordinates. The loops are those of
  \<open>Probe_Table\<close>; here are the hash, the match and the guards, and the locale's contract
  interpreted on them.
\<close>

section \<open>Cells and coordinates\<close>

record goose_cell =
  coord :: tryte9
  state :: int
  ctype :: nat
  peer_id :: u8
  hardware_addr :: u32
  bit_mask :: u32

definition goose_coord_equal :: "tryte9 \<Rightarrow> tryte9 \<Rightarrow> bool" where
  "goose_coord_equal a b \<longleftrightarrow> list_all (\<lambda>i. a ! i = b ! i) [0..<9]"

text \<open>The base-3 positional mix of the nine trits, in 32 bits.\<close>

definition goose_lattice_hash :: "tryte9 \<Rightarrow> nat \<Rightarrow> nat" where
  "goose_lattice_hash c bucket_count =
     unat (foldl (\<lambda>(h :: u32) i. h * 3 + word_of_int (c ! i + 1)) 0 [0..<9]) mod bucket_count"

definition goose_lattice_clear :: "int list \<Rightarrow> nat \<Rightarrow> int list" where
  "goose_lattice_clear slots bucket_count = replicate bucket_count EMPTY @ drop bucket_count slots"

section \<open>The index\<close>

definition cell_live :: "nat \<Rightarrow> int \<Rightarrow> bool" where
  "cell_live cell_count idx \<longleftrightarrow> 0 \<le> idx \<and> nat idx < cell_count"

definition slot_matches :: "goose_cell list \<Rightarrow> nat \<Rightarrow> tryte9 \<Rightarrow> int \<Rightarrow> bool" where
  "slot_matches cells cell_count c idx =
     (if idx = EMPTY then False
      else if idx < 0 \<or> nat idx \<ge> cell_count then False
      else goose_coord_equal (coord (cells ! nat idx)) c)"

definition goose_lattice_find :: "int list \<Rightarrow> nat \<Rightarrow> goose_cell list \<Rightarrow> nat \<Rightarrow> tryte9 \<Rightarrow> int" where
  "goose_lattice_find slots bucket_count cells cell_count c =
     (if bucket_count = 0 then EMPTY
      else probe_find bucket_count (slot_matches cells cell_count c) slots
             (goose_lattice_hash c bucket_count) bucket_count)"

definition goose_lattice_insert ::
    "int list \<Rightarrow> nat \<Rightarrow> goose_cell list \<Rightarrow> nat \<Rightarrow> tryte9 \<Rightarrow> int \<Rightarrow> bool \<times> int list" where
  "goose_lattice_insert slots bucket_count cells cell_count c cell_idx =
     (if bucket_count = 0 then (False, slots)
      else probe_insert bucket_count (slot_matches cells cell_count c) slots
             (goose_lattice_hash c bucket_count) bucket_count cell_idx)"

definition cell_home :: "goose_cell list \<Rightarrow> nat \<Rightarrow> int \<Rightarrow> nat" where
  "cell_home cells bucket_count idx = goose_lattice_hash (coord (cells ! nat idx)) bucket_count"

definition goose_lattice_remove :: "int list \<Rightarrow> nat \<Rightarrow> goose_cell list \<Rightarrow> nat \<Rightarrow> tryte9 \<Rightarrow> int list" where
  "goose_lattice_remove slots bucket_count cells cell_count c =
     (if bucket_count = 0 then slots
      else probe_remove bucket_count (slot_matches cells cell_count c) (cell_live cell_count)
             (cell_home cells bucket_count) slots (goose_lattice_hash c bucket_count))"

section \<open>The contract on this table\<close>

text \<open>A coordinate as a key: what the equality test and the hash both look at.\<close>

definition coord_key :: "tryte9 \<Rightarrow> int list" where
  "coord_key c = map (\<lambda>i. c ! i) [0..<9]"

lemma coord_equal_key: "goose_coord_equal a b \<longleftrightarrow> coord_key a = coord_key b"
  by (auto simp: goose_coord_equal_def coord_key_def list_all_iff)

lemma coord_key_idem: "coord_key (coord_key c) = coord_key c"
  by (auto simp: coord_key_def intro!: nth_equalityI)

lemma lattice_hash_key: "goose_lattice_hash (coord_key c) n = goose_lattice_hash c n"
proof -
  have "foldl (\<lambda>(h :: u32) i. h * 3 + word_of_int (coord_key c ! i + 1)) a is
      = foldl (\<lambda>h i. h * 3 + word_of_int (c ! i + 1)) a is" if "\<forall>i \<in> set is. i < 9" for a "is"
    using that by (induction "is" arbitrary: a) (auto simp: coord_key_def simp del: upt_Suc)
  then show ?thesis by (simp add: goose_lattice_hash_def)
qed

definition cell_key :: "goose_cell list \<Rightarrow> int \<Rightarrow> int list" where
  "cell_key cells idx = coord_key (coord (cells ! nat idx))"

definition lattice_ok :: "int list \<Rightarrow> nat \<Rightarrow> goose_cell list \<Rightarrow> nat \<Rightarrow> bool" where
  "lattice_ok slots n cells count \<longleftrightarrow>
     table_inv n (cell_key cells) (\<lambda>k. goose_lattice_hash k n) (cell_live count) slots"

interpretation lattice: probe_table n "cell_key cells" "\<lambda>k. goose_lattice_hash k n" "cell_live count"
    for n :: nat and cells :: "goose_cell list" and count :: nat
  by unfold_locales (simp add: goose_lattice_hash_def)

lemma slot_matches_key: "v \<noteq> EMPTY \<Longrightarrow> slot_matches cells count c v \<longleftrightarrow> cell_live count v \<and> cell_key cells v = coord_key c"
  by (auto simp: slot_matches_def cell_live_def cell_key_def coord_equal_key)

lemma lattice_find_iff:
  assumes "lattice_ok slots n cells count"
  shows "goose_lattice_find slots n cells count c = v \<longleftrightarrow>
    (stored n slots v \<and> cell_key cells v = coord_key c) \<or> (v = EMPTY \<and> (\<forall>u. stored n slots u \<longrightarrow> cell_key cells u \<noteq> coord_key c))"
  using lattice.find_spec [OF assms [unfolded lattice_ok_def] slot_matches_key, of c v] table_invD(1) [OF assms [unfolded lattice_ok_def]]
  by (simp add: goose_lattice_find_def lattice_hash_key)

text \<open>The lookup is a function of what is stored.\<close>

lemma lattice_find_cong:
  assumes "lattice_ok s n cells count" "lattice_ok t n cells count"
    and "\<And>u. cell_key cells u = coord_key c \<Longrightarrow> stored n s u \<longleftrightarrow> stored n t u"
  shows "goose_lattice_find s n cells count c = goose_lattice_find t n cells count c"
proof -
  let ?v = "goose_lattice_find t n cells count c"
  from lattice_find_iff [OF assms(2), of c ?v]
  have "(stored n t ?v \<and> cell_key cells ?v = coord_key c) \<or> (?v = EMPTY \<and> (\<forall>u. stored n t u \<longrightarrow> cell_key cells u \<noteq> coord_key c))"
    by simp
  then have "(stored n s ?v \<and> cell_key cells ?v = coord_key c) \<or> (?v = EMPTY \<and> (\<forall>u. stored n s u \<longrightarrow> cell_key cells u \<noteq> coord_key c))"
    using assms(3) by blast
  with lattice_find_iff [OF assms(1), of c ?v] show ?thesis by simp
qed

lemma clear_ok: "length slots = n \<Longrightarrow> 0 < n \<Longrightarrow> lattice_ok (goose_lattice_clear slots n) n cells count"
  by (simp add: lattice_ok_def table_inv_def goose_lattice_clear_def)

lemma lattice_free: "lattice_ok slots n cells count \<Longrightarrow> count < n \<Longrightarrow> free_slot n slots"
  unfolding lattice_ok_def by (erule table_free [where c = count]) (auto simp: cell_live_def)

lemma lattice_cong:
  "lattice_ok slots n cells count \<Longrightarrow> (\<And>v. stored n slots v \<Longrightarrow> cell_key cells' v = cell_key cells v \<and> cell_live count' v)
    \<Longrightarrow> lattice_ok slots n cells' count'"
  unfolding lattice_ok_def by (rule table_inv_cong)

text \<open>What insertion and removal leave in the table.\<close>

lemma lattice_insert_run:
  assumes "lattice_ok slots n cells count" "free_slot n slots" "cell_live count idx"
    and "goose_coord_equal (coord (cells ! nat idx)) c"
  obtains s where "goose_lattice_insert slots n cells count c idx = (True, s)" "lattice_ok s n cells count"
    "\<And>u. stored n s u \<longleftrightarrow> u = idx \<or> stored n slots u \<and> cell_key cells u \<noteq> coord_key c"
proof -
  have n: "0 < n" using assms(1) table_invD(1) by (auto simp: lattice_ok_def)
  have idx: "idx \<noteq> EMPTY" using assms(3) by (auto simp: cell_live_def EMPTY_def)
  have key: "cell_key cells idx = coord_key c" using assms(4) by (simp add: cell_key_def coord_equal_key)
  show ?thesis
    using lattice.insert_spec [OF assms(1) [unfolded lattice_ok_def] idx assms(3) key disjI1 [OF assms(2)] slot_matches_key] n that
    by (auto simp: lattice_ok_def goose_lattice_insert_def lattice_hash_key)
qed

lemma lattice_remove_run:
  fixes c
  assumes "lattice_ok slots n cells count" "free_slot n slots"
  defines "s \<equiv> goose_lattice_remove slots n cells count c"
  shows "lattice_ok s n cells count" "free_slot n s"
    "stored n s u \<longleftrightarrow> stored n slots u \<and> cell_key cells u \<noteq> coord_key c"
proof -
  have n: "0 < n" using assms(1) table_invD(1) by (auto simp: lattice_ok_def)
  have hm: "cell_home cells n = (\<lambda>v. goose_lattice_hash (cell_key cells v) n)"
    by (rule ext) (simp add: cell_home_def cell_key_def lattice_hash_key)
  show "lattice_ok s n cells count" "free_slot n s" "stored n s u \<longleftrightarrow> stored n slots u \<and> cell_key cells u \<noteq> coord_key c"
    using lattice.remove_spec [OF assms(1) [unfolded lattice_ok_def] assms(2) slot_matches_key, of c] n
    by (simp_all add: s_def goose_lattice_remove_def hm lattice_hash_key lattice_ok_def Let_def)
qed

text \<open>
  Inserting maps exactly one coordinate. In a well-formed index with an empty bucket,
  inserting a live cell under its coordinate succeeds, keeps the index well-formed, and
  afterwards a lookup answers the cell for that coordinate and what it answered before for
  every other, however the hash made them collide.
\<close>

theorem lattice_insert_map:
  assumes "lattice_ok slots n cells count" "free_slot n slots" "cell_live count idx"
    and "goose_coord_equal (coord (cells ! nat idx)) c"
  shows "\<exists>s. goose_lattice_insert slots n cells count c idx = (True, s) \<and> lattice_ok s n cells count
    \<and> (\<forall>c'. goose_lattice_find s n cells count c' =
          (if goose_coord_equal c' c then idx else goose_lattice_find slots n cells count c'))"
proof -
  have idx: "idx \<noteq> EMPTY" using assms(3) by (auto simp: cell_live_def EMPTY_def)
  have key: "cell_key cells idx = coord_key c" using assms(4) by (simp add: cell_key_def coord_equal_key)
  obtain s where s: "goose_lattice_insert slots n cells count c idx = (True, s)"
    "lattice_ok s n cells count" "\<And>u. stored n s u \<longleftrightarrow> u = idx \<or> stored n slots u \<and> cell_key cells u \<noteq> coord_key c"
    using lattice_insert_run [OF assms] by metis
  have "goose_lattice_find s n cells count c' = (if goose_coord_equal c' c then idx else goose_lattice_find slots n cells count c')" for c'
  proof (cases "goose_coord_equal c' c")
    case True
    with lattice_find_iff [OF s(2), of c' idx] s(3) key idx show ?thesis by (simp add: coord_equal_key)
  next
    case False
    then have "goose_lattice_find s n cells count c' = goose_lattice_find slots n cells count c'"
      by (intro lattice_find_cong [OF s(2) assms(1)]) (auto simp: s(3) key coord_equal_key)
    with False show ?thesis by simp
  qed
  with s show ?thesis by blast
qed

text \<open>
  C9: removing closes the gap. In a well-formed index with an empty bucket, removing a
  coordinate keeps the index well-formed, makes its lookup miss, and leaves the lookup of
  every other coordinate as it was: backward-shift deletion strands nobody.
\<close>

theorem lattice_remove_map:
  assumes "lattice_ok slots n cells count" "free_slot n slots"
  shows "let s = goose_lattice_remove slots n cells count c in lattice_ok s n cells count \<and> free_slot n s
    \<and> (\<forall>c'. goose_lattice_find s n cells count c' =
          (if goose_coord_equal c' c then EMPTY else goose_lattice_find slots n cells count c'))"
proof -
  define s where "s = goose_lattice_remove slots n cells count c"
  note s = lattice_remove_run [OF assms, of c, folded s_def]
  have "goose_lattice_find s n cells count c' = (if goose_coord_equal c' c then EMPTY else goose_lattice_find slots n cells count c')" for c'
  proof (cases "goose_coord_equal c' c")
    case True
    with lattice_find_iff [OF s(1), of c' EMPTY] s(3) show ?thesis by (simp add: coord_equal_key)
  next
    case False
    then have "goose_lattice_find s n cells count c' = goose_lattice_find slots n cells count c'"
      by (intro lattice_find_cong [OF s(1) assms(1)]) (auto simp: s(3) coord_equal_key)
    with False show ?thesis by simp
  qed
  with s show ?thesis by (simp add: s_def Let_def)
qed

text \<open>Three cells that all hash to bucket 1 of a table of four.\<close>

definition crowded_cells :: "goose_cell list" where
  "crowded_cells = map (\<lambda>c. \<lparr>coord = c, state = 0, ctype = 0, peer_id = 0, hardware_addr = 0, bit_mask = 0\<rparr>)
     [[0, 0, 0, 0, 0, 0, 0, 0, 0], [0, 0, 0, 0, 0, 0, 0, 1, 1], [1, 1, 0, 0, 0, 0, 0, 0, 0]]"

lemma upto_nine: "[0..<9] = [0, 1, 2, 3, 4, 5, 6, 7, 8]"
  by (simp add: upt_rec)

lemma crowded_hash:
  "goose_lattice_hash [0, 0, 0, 0, 0, 0, 0, 0, 0] 4 = 1" "goose_lattice_hash [0, 0, 0, 0, 0, 0, 0, 1, 1] 4 = 1"
  "goose_lattice_hash [1, 1, 0, 0, 0, 0, 0, 0, 0] 4 = 1"
  by (simp_all add: goose_lattice_hash_def upto_nine)

lemma crowded_ok: "lattice_ok [EMPTY, EMPTY, EMPTY, EMPTY] 4 crowded_cells 3"
  using clear_ok [of "[EMPTY, EMPTY, EMPTY, EMPTY]" 4] by (simp add: goose_lattice_clear_def eval_nat_numeral)

lemma crowded_free: "free_slot 4 [EMPTY, EMPTY, EMPTY, EMPTY]"
  unfolding free_slot_def by (rule exI [of _ 0]) simp

lemma crowded_second: "cell_live 3 1" "goose_coord_equal (coord (crowded_cells ! nat 1)) [0, 0, 0, 0, 0, 0, 0, 1, 1]"
    "goose_coord_equal [0, 0, 0, 0, 0, 0, 0, 1, 1] [0, 0, 0, 0, 0, 0, 0, 1, 1]"
  by code_simp+

theorem lattice_insert_map_witness:
  "\<exists>s. goose_lattice_insert [EMPTY, EMPTY, EMPTY, EMPTY] 4 crowded_cells 3 [0, 0, 0, 0, 0, 0, 0, 1, 1] 1 = (True, s)
     \<and> goose_lattice_find s 4 crowded_cells 3 [0, 0, 0, 0, 0, 0, 0, 1, 1] = 1"
  using lattice_insert_map [OF crowded_ok crowded_free crowded_second(1,2)] crowded_second(3) by metis

text \<open>A run of three colliding cells, with its middle removed.\<close>

definition crowded_table :: "int list" where
  "crowded_table = [EMPTY, 0, 1, 2]"

lemma crowded_table_ok: "lattice_ok crowded_table 4 crowded_cells 3"
proof -
  have s: "p < 4 \<Longrightarrow> p = 0 \<or> p = 1 \<or> p = 2 \<or> p = (3 :: nat)" for p by linarith
  have k: "goose_lattice_hash (cell_key crowded_cells v) 4 = 1" if "v = 0 \<or> v = 1 \<or> v = 2" for v
    using that crowded_hash by (auto simp: cell_key_def lattice_hash_key crowded_cells_def)
  have l: "cell_live 3 v" if "v = 0 \<or> v = 1 \<or> v = 2" for v using that by (auto simp: cell_live_def)
  have d: "cell_key crowded_cells 0 \<noteq> cell_key crowded_cells 1" "cell_key crowded_cells 0 \<noteq> cell_key crowded_cells 2"
      "cell_key crowded_cells 1 \<noteq> cell_key crowded_cells 2"
    by code_simp+
  have path: "path_ok 4 crowded_table 1 p" if "p < 4" "p \<noteq> 0" for p
    unfolding path_ok_def
  proof (intro allI impI)
    fix x :: nat assume "x < 4" "dist 4 1 x < dist 4 1 p"
    with that s [of x] s [of p] show "crowded_table ! x \<noteq> EMPTY" by (auto simp: crowded_table_def dist_def EMPTY_def)
  qed
  have v: "crowded_table ! p \<noteq> EMPTY \<Longrightarrow> p \<noteq> 0 \<and> (crowded_table ! p = 0 \<or> crowded_table ! p = 1 \<or> crowded_table ! p = 2)" if "p < 4" for p
    using s [OF that] by (auto simp: crowded_table_def)
  have u: "p = q" if "p < 4" "q < 4" "crowded_table ! p \<noteq> EMPTY" "crowded_table ! q \<noteq> EMPTY"
      "cell_key crowded_cells (crowded_table ! p) = cell_key crowded_cells (crowded_table ! q)" for p q
    using s [OF that(1)] s [OF that(2)] that(3-5) d by (auto simp: crowded_table_def)
  have "\<forall>p < 4. crowded_table ! p \<noteq> EMPTY \<longrightarrow> cell_live 3 (crowded_table ! p)
      \<and> path_ok 4 crowded_table (goose_lattice_hash (cell_key crowded_cells (crowded_table ! p)) 4) p"
    using v l k path by metis
  moreover have "length crowded_table = 4" by (simp add: crowded_table_def)
  ultimately show ?thesis unfolding lattice_ok_def table_inv_def using u by simp
qed

theorem lattice_remove_map_witness:
  "goose_lattice_find (goose_lattice_remove crowded_table 4 crowded_cells 3 [0, 0, 0, 0, 0, 0, 0, 1, 1]) 4 crowded_cells 3
      [0, 0, 0, 0, 0, 0, 0, 1, 1] = EMPTY"
proof -
  have "free_slot 4 crowded_table" unfolding free_slot_def by (rule exI [of _ 0]) (simp add: crowded_table_def)
  from lattice_remove_map [OF crowded_table_ok this] crowded_second(3) show ?thesis by (simp add: Let_def)
qed

end
