(* ===== verification/Registry.thy ===== *)
theory Registry imports Lattice begin

text \<open>
  The goonies registry of components/goose/goose_registry.c and goose_registry.h: a compact
  array of name/coordinate entries with two open-addressed indexes, one per key kind, which
  follow the entries through every insertion, re-keying and swap-with-last removal. The probe
  loops are those of \<open>Probe_Table\<close>; a C string is the list of its bytes before the NUL.
\<close>

section \<open>State\<close>

definition GOOSE_REGISTRY_NAME_MAX :: nat where "GOOSE_REGISTRY_NAME_MAX = 96"

type_synonym cstring = "u8 list"

record goose_registry_entry =
  ename :: cstring
  ecoord :: tryte9

record goose_registry =
  entries :: "goose_registry_entry list"
  capacity :: nat
  count :: nat
  by_name :: "int list"
  by_coord :: "int list"
  buckets :: nat

datatype key_kind = KEY_NAME | KEY_COORD

datatype key = Name_key cstring | Coord_key tryte9

text \<open>The cast \<open>(int16_t)n\<close>.\<close>

definition idx16 :: "nat \<Rightarrow> int" where
  "idx16 n = sint (word_of_nat n :: 16 word)"

section \<open>Keys\<close>

definition goose_registry_name_hash :: "cstring \<Rightarrow> nat \<Rightarrow> nat" where
  "goose_registry_name_hash name bucket_count =
     (if bucket_count = 0 then 0
      else unat (foldl (\<lambda>(h :: u32) p. (h XOR ucast p) * 16777619) 2166136261 name) mod bucket_count)"

fun key_hash :: "key \<Rightarrow> nat \<Rightarrow> nat" where
  "key_hash (Name_key name) n = goose_registry_name_hash name n"
| "key_hash (Coord_key c) n = goose_lattice_hash c n"

text \<open>\<open>strncmp(a, b, m) == 0\<close> on strings without embedded NULs.\<close>

definition strncmp_eq :: "cstring \<Rightarrow> cstring \<Rightarrow> nat \<Rightarrow> bool" where
  "strncmp_eq a b m \<longleftrightarrow> take m a = take m b"

fun key_matches :: "goose_registry_entry \<Rightarrow> key \<Rightarrow> bool" where
  "key_matches e (Name_key name) = strncmp_eq (ename e) name GOOSE_REGISTRY_NAME_MAX"
| "key_matches e (Coord_key c) = goose_coord_equal (ecoord e) c"

definition reg_live :: "goose_registry \<Rightarrow> int \<Rightarrow> bool" where
  "reg_live reg idx \<longleftrightarrow> \<not> (idx < 0 \<or> nat idx \<ge> count reg)"

definition entry_matches :: "goose_registry \<Rightarrow> int \<Rightarrow> key \<Rightarrow> bool" where
  "entry_matches reg idx k = (if \<not> reg_live reg idx then False else key_matches (entries reg ! nat idx) k)"

fun entry_key :: "goose_registry_entry \<Rightarrow> key_kind \<Rightarrow> key" where
  "entry_key e KEY_NAME = Name_key (ename e)"
| "entry_key e KEY_COORD = Coord_key (ecoord e)"

definition key_of :: "goose_registry \<Rightarrow> int \<Rightarrow> key_kind \<Rightarrow> key" where
  "key_of reg idx kind = entry_key (entries reg ! nat idx) kind"

section \<open>One index\<close>

definition idx_find :: "goose_registry \<Rightarrow> int list \<Rightarrow> key \<Rightarrow> int" where
  "idx_find reg slots k =
     probe_find (buckets reg) (\<lambda>v. entry_matches reg v k) slots (key_hash k (buckets reg)) (buckets reg)"

definition idx_insert :: "goose_registry \<Rightarrow> int list \<Rightarrow> key \<Rightarrow> int \<Rightarrow> int list" where
  "idx_insert reg slots k v =
     snd (probe_insert (buckets reg) (\<lambda>u. entry_matches reg u k) slots (key_hash k (buckets reg)) (buckets reg) v)"

definition idx_remove :: "goose_registry \<Rightarrow> int list \<Rightarrow> key \<Rightarrow> key_kind \<Rightarrow> int list" where
  "idx_remove reg slots k kind =
     probe_remove (buckets reg) (\<lambda>u. entry_matches reg u k) (reg_live reg)
       (\<lambda>u. key_hash (key_of reg u kind) (buckets reg)) slots (key_hash k (buckets reg))"

section \<open>Operations\<close>

definition goose_registry_init ::
    "goose_registry_entry list \<Rightarrow> nat \<Rightarrow> int list \<Rightarrow> int list \<Rightarrow> nat \<Rightarrow> goose_registry" where
  "goose_registry_init ents cap names coords n =
     \<lparr>entries = ents, capacity = cap, count = 0, by_name = replicate n EMPTY @ drop n names,
      by_coord = replicate n EMPTY @ drop n coords, buckets = n\<rparr>"

text \<open>The indexing step shared by insertion, the move of a removal, and the rebuild.\<close>

definition index_entry :: "goose_registry \<Rightarrow> int \<Rightarrow> goose_registry" where
  "index_entry reg idx =
     reg\<lparr>by_name := idx_insert reg (by_name reg) (key_of reg idx KEY_NAME) idx,
         by_coord := idx_insert reg (by_coord reg) (key_of reg idx KEY_COORD) idx\<rparr>"

definition unindex_entry :: "goose_registry \<Rightarrow> int \<Rightarrow> goose_registry" where
  "unindex_entry reg idx =
     reg\<lparr>by_name := idx_remove reg (by_name reg) (key_of reg idx KEY_NAME) KEY_NAME,
         by_coord := idx_remove reg (by_coord reg) (key_of reg idx KEY_COORD) KEY_COORD\<rparr>"

definition goose_registry_reindex :: "goose_registry \<Rightarrow> goose_registry" where
  "goose_registry_reindex reg =
     foldl (\<lambda>r i. index_entry r (idx16 i))
       (reg\<lparr>by_name := replicate (buckets reg) EMPTY @ drop (buckets reg) (by_name reg),
            by_coord := replicate (buckets reg) EMPTY @ drop (buckets reg) (by_coord reg)\<rparr>)
       [0..<count reg]"

definition goose_registry_find_name :: "goose_registry \<Rightarrow> cstring \<Rightarrow> int" where
  "goose_registry_find_name reg name = idx_find reg (by_name reg) (Name_key name)"

definition goose_registry_find_coord :: "goose_registry \<Rightarrow> tryte9 \<Rightarrow> int" where
  "goose_registry_find_coord reg c = idx_find reg (by_coord reg) (Coord_key c)"

definition goose_registry_add :: "goose_registry \<Rightarrow> cstring \<Rightarrow> tryte9 \<Rightarrow> int \<times> goose_registry" where
  "goose_registry_add reg name c =
     (if count reg \<ge> capacity reg then (EMPTY, reg)
      else if length name \<ge> GOOSE_REGISTRY_NAME_MAX then (EMPTY, reg)
      else let idx = idx16 (count reg);
               reg1 = reg\<lparr>entries := (entries reg)[nat idx :=
                              \<lparr>ename = take (GOOSE_REGISTRY_NAME_MAX - 1) name, ecoord = c\<rparr>],
                          count := count reg + 1\<rparr>
           in (idx, index_entry reg1 idx))"

definition goose_registry_set_coord :: "goose_registry \<Rightarrow> int \<Rightarrow> tryte9 \<Rightarrow> goose_registry" where
  "goose_registry_set_coord reg idx c =
     (if idx < 0 \<or> nat idx \<ge> count reg then reg
      else if goose_coord_equal (ecoord (entries reg ! nat idx)) c then reg
      else let reg1 = reg\<lparr>by_coord := idx_remove reg (by_coord reg) (key_of reg idx KEY_COORD) KEY_COORD\<rparr>;
               reg2 = reg1\<lparr>entries := (entries reg1)[nat idx := (entries reg1 ! nat idx)\<lparr>ecoord := c\<rparr>]\<rparr>
           in reg2\<lparr>by_coord := idx_insert reg2 (by_coord reg2) (key_of reg2 idx KEY_COORD) idx\<rparr>)"

definition zero_entry :: goose_registry_entry where
  "zero_entry = \<lparr>ename = [], ecoord = replicate 9 0\<rparr>"

definition goose_registry_remove_coord :: "goose_registry \<Rightarrow> tryte9 \<Rightarrow> bool \<times> goose_registry" where
  "goose_registry_remove_coord reg c =
     (if count reg = 0 then (False, reg)
      else let idx = goose_registry_find_coord reg c in
        if idx = EMPTY then (False, reg)
        else let last = idx16 (count reg - 1);
                 reg1 = unindex_entry reg idx;
                 reg2 = (if idx \<noteq> last
                         then let r = unindex_entry reg1 last;
                                  r' = r\<lparr>entries := (entries r)[nat idx := entries r ! nat last],
                                         count := count r - 1\<rparr>
                              in index_entry r' idx
                         else reg1\<lparr>count := count reg1 - 1\<rparr>)
             in (True, reg2\<lparr>entries := (entries reg2)[count reg2 := zero_entry]\<rparr>))"

section \<open>The contract on either index\<close>

text \<open>Keys up to what the comparisons look at.\<close>

fun norm :: "key \<Rightarrow> key" where
  "norm (Name_key name) = Name_key name"
| "norm (Coord_key c) = Coord_key (coord_key c)"

definition rkey :: "goose_registry_entry list \<Rightarrow> key_kind \<Rightarrow> int \<Rightarrow> key" where
  "rkey es kind v = norm (entry_key (es ! nat v) kind)"

lemma key_hash_norm [simp]: "key_hash (norm k) n = key_hash k n"
  by (cases k) (simp_all add: lattice_hash_key)

lemma key_hash_less: "0 < n \<Longrightarrow> key_hash k n < n"
  by (cases k) (simp_all add: goose_registry_name_hash_def goose_lattice_hash_def)

interpretation reg: probe_table n "rkey es kind" "\<lambda>k. key_hash k n" live
    for n :: nat and es :: "goose_registry_entry list" and kind :: key_kind and live :: "int \<Rightarrow> bool"
  by unfold_locales (rule key_hash_less)

text \<open>
  \<open>index_ok reg kind slots S\<close>: the bucket array \<open>slots\<close> is a well-formed table of the entries'
  keys of one kind, and holds exactly the entries in \<open>S\<close>.
\<close>

definition index_ok :: "goose_registry \<Rightarrow> key_kind \<Rightarrow> int list \<Rightarrow> (int \<Rightarrow> bool) \<Rightarrow> bool" where
  "index_ok reg kind slots S \<longleftrightarrow>
     table_inv (buckets reg) (rkey (entries reg) kind) (\<lambda>k. key_hash k (buckets reg)) (reg_live reg) slots
     \<and> (\<forall>v. stored (buckets reg) slots v \<longleftrightarrow> S v)"

definition names_fit :: "goose_registry \<Rightarrow> bool" where
  "names_fit reg \<longleftrightarrow> (\<forall>i < count reg. length (ename (entries reg ! i)) < GOOSE_REGISTRY_NAME_MAX)"

fun same_kind :: "key_kind \<Rightarrow> key \<Rightarrow> bool" where
  "same_kind KEY_NAME (Name_key _) = True"
| "same_kind KEY_COORD (Coord_key _) = True"
| "same_kind _ _ = False"

lemma matches_rkey:
  assumes "names_fit reg" "same_kind kind k"
  shows "entry_matches reg v k \<longleftrightarrow> reg_live reg v \<and> rkey (entries reg) kind v = norm k"
proof (cases "reg_live reg v")
  case True
  then have "length (ename (entries reg ! nat v)) < GOOSE_REGISTRY_NAME_MAX"
    using assms(1) by (auto simp: names_fit_def reg_live_def)
  then have "take GOOSE_REGISTRY_NAME_MAX (ename (entries reg ! nat v)) = take GOOSE_REGISTRY_NAME_MAX n
      \<longleftrightarrow> ename (entries reg ! nat v) = n" for n
    by (metis length_take min.absorb_iff2 not_less take_all nat_less_le min_def le_cases)
  with True assms(2) show ?thesis
    by (cases k; cases kind) (simp_all add: entry_matches_def strncmp_eq_def rkey_def coord_equal_key)
qed (simp add: entry_matches_def)

lemma index_find:
  assumes "index_ok reg kind slots S" "names_fit reg" "same_kind kind k"
  shows "idx_find reg slots k = v \<longleftrightarrow>
    (S v \<and> rkey (entries reg) kind v = norm k) \<or> (v = EMPTY \<and> (\<forall>u. S u \<longrightarrow> rkey (entries reg) kind u \<noteq> norm k))"
  using reg.find_spec [of "buckets reg" "entries reg" kind "reg_live reg" slots "\<lambda>v. entry_matches reg v k" "norm k" v]
    assms(1) matches_rkey [OF assms(2,3)]
  by (simp add: index_ok_def idx_find_def)

lemma index_live: "index_ok reg kind slots S \<Longrightarrow> S v \<Longrightarrow> reg_live reg v"
  unfolding index_ok_def stored_def by (metis table_invD(3))

lemma index_unique:
  assumes "index_ok reg kind slots S" "S u" "S v" "rkey (entries reg) kind u = rkey (entries reg) kind v"
  shows "u = v"
proof -
  from assms obtain p q where "p < buckets reg" "q < buckets reg" "slots ! p = u" "slots ! q = v" "u \<noteq> EMPTY" "v \<noteq> EMPTY"
    by (metis index_ok_def stored_def)
  with assms(1,4) table_invD(5) [of "buckets reg" "rkey (entries reg) kind" _ _ slots p q] show ?thesis
    by (auto simp: index_ok_def)
qed

text \<open>With more buckets than live entries a bucket is free.\<close>

lemma index_free:
  assumes "index_ok reg kind slots S" "count reg < buckets reg"
  shows "free_slot (buckets reg) slots"
  using assms by (intro table_free [where c = "count reg" and live = "reg_live reg"]) (auto simp: index_ok_def reg_live_def)

text \<open>Both operations on any key, whether or not the index holds it.\<close>

lemma index_remove_key:
  assumes "index_ok reg kind slots S" "names_fit reg" "count reg < buckets reg"
  shows "index_ok reg kind (idx_remove reg slots (key_of reg v kind) kind)
    (\<lambda>u. S u \<and> rkey (entries reg) kind u \<noteq> rkey (entries reg) kind v)"
proof -
  let ?k = "key_of reg v kind" and ?n = "buckets reg"
  have sk: "same_kind kind ?k" by (cases kind) (simp_all add: key_of_def)
  have home: "(\<lambda>u. key_hash (key_of reg u kind) ?n) = (\<lambda>u. key_hash (rkey (entries reg) kind u) ?n)"
    by (simp add: rkey_def key_of_def)
  define s where "s = idx_remove reg slots ?k kind"
  have "table_inv ?n (rkey (entries reg) kind) (\<lambda>k. key_hash k ?n) (reg_live reg) s
      \<and> (\<forall>u. stored ?n s u \<longleftrightarrow> stored ?n slots u \<and> rkey (entries reg) kind u \<noteq> norm ?k)"
    using reg.remove_spec [of ?n "entries reg" kind "reg_live reg" slots "\<lambda>u. entry_matches reg u ?k" "norm ?k"]
      assms(1) index_free [OF assms(1,3)] matches_rkey [OF assms(2) sk]
    by (simp add: index_ok_def s_def idx_remove_def home Let_def)
  moreover have "norm ?k = rkey (entries reg) kind v" by (simp add: rkey_def key_of_def)
  ultimately show ?thesis using assms(1) by (simp add: index_ok_def s_def)
qed

lemma index_insert_key:
  assumes "index_ok reg kind slots S" "names_fit reg" "count reg < buckets reg" "reg_live reg v"
  shows "index_ok reg kind (idx_insert reg slots (key_of reg v kind) v)
    (\<lambda>u. u = v \<or> S u \<and> rkey (entries reg) kind u \<noteq> rkey (entries reg) kind v)"
proof -
  let ?k = "key_of reg v kind" and ?n = "buckets reg"
  have sk: "same_kind kind ?k" by (cases kind) (simp_all add: key_of_def)
  have k: "rkey (entries reg) kind v = norm ?k" by (simp add: rkey_def key_of_def)
  have v: "v \<noteq> EMPTY" using assms(4) by (auto simp: reg_live_def EMPTY_def)
  from reg.insert_spec [of ?n "entries reg" kind "reg_live reg" slots v "norm ?k" "\<lambda>u. entry_matches reg u ?k"]
    assms(1,4) index_free [OF assms(1,3)] matches_rkey [OF assms(2) sk] k v
  obtain s where s: "probe_insert ?n (\<lambda>u. entry_matches reg u ?k) slots (key_hash ?k ?n) ?n v = (True, s)"
    "table_inv ?n (rkey (entries reg) kind) (\<lambda>k. key_hash k ?n) (reg_live reg) s"
    "\<And>u. stored ?n s u \<longleftrightarrow> u = v \<or> stored ?n slots u \<and> rkey (entries reg) kind u \<noteq> norm ?k"
    by (auto simp: index_ok_def)
  have "stored ?n slots u \<longleftrightarrow> S u" for u using assms(1) by (simp add: index_ok_def)
  moreover have "idx_insert reg slots ?k v = s" by (simp only: idx_insert_def s(1) snd_conv)
  ultimately show ?thesis unfolding index_ok_def using s(2,3) k by simp
qed

lemma index_remove:
  assumes "index_ok reg kind slots S" "names_fit reg" "count reg < buckets reg" "S v"
  shows "index_ok reg kind (idx_remove reg slots (key_of reg v kind) kind) (\<lambda>u. S u \<and> u \<noteq> v)"
  using index_remove_key [OF assms(1-3), of v] index_unique [OF assms(1) _ assms(4)]
  by (auto simp: index_ok_def)

lemma index_insert:
  assumes "index_ok reg kind slots S" "names_fit reg" "count reg < buckets reg" "reg_live reg v"
    and "\<And>u. S u \<Longrightarrow> rkey (entries reg) kind u \<noteq> rkey (entries reg) kind v"
  shows "index_ok reg kind (idx_insert reg slots (key_of reg v kind) v) (\<lambda>u. u = v \<or> S u)"
  using index_insert_key [OF assms(1-4)] assms(5) by (auto simp: index_ok_def)

text \<open>An index survives every change of the entries it does not hold.\<close>

lemma index_cong:
  assumes "index_ok reg kind slots S" "buckets reg' = buckets reg"
    and "\<And>v. S v \<Longrightarrow> rkey (entries reg') kind v = rkey (entries reg) kind v \<and> reg_live reg' v"
  shows "index_ok reg' kind slots S"
proof -
  from assms(1) have ti: "table_inv (buckets reg) (rkey (entries reg) kind) (\<lambda>k. key_hash k (buckets reg)) (reg_live reg) slots"
    and st: "\<And>v. stored (buckets reg) slots v \<longleftrightarrow> S v" by (auto simp: index_ok_def)
  have "table_inv (buckets reg) (rkey (entries reg') kind) (\<lambda>k. key_hash k (buckets reg)) (reg_live reg') slots"
    using table_inv_cong [OF ti] assms(3) st by blast
  with st assms(2) show ?thesis by (simp add: index_ok_def)
qed

lemma index_weaken: "index_ok reg kind slots S \<Longrightarrow> (\<And>v. S v \<longleftrightarrow> T v) \<Longrightarrow> index_ok reg kind slots T"
  unfolding index_ok_def by simp

lemma index_clear:
  assumes "0 < buckets reg" "length slots = buckets reg"
  shows "index_ok reg kind (replicate (buckets reg) EMPTY @ drop (buckets reg) slots) (\<lambda>v. False)"
  using assms by (auto simp: index_ok_def table_inv_def stored_def)

section \<open>Both indexes\<close>

fun slots_of :: "goose_registry \<Rightarrow> key_kind \<Rightarrow> int list" where
  "slots_of reg KEY_NAME = by_name reg"
| "slots_of reg KEY_COORD = by_coord reg"

definition both_ok :: "goose_registry \<Rightarrow> (int \<Rightarrow> bool) \<Rightarrow> bool" where
  "both_ok reg S \<longleftrightarrow> (\<forall>kind. index_ok reg kind (slots_of reg kind) S)"

lemma index_ok_only: "entries reg' = entries reg \<Longrightarrow> count reg' = count reg \<Longrightarrow> buckets reg' = buckets reg
    \<Longrightarrow> index_ok reg' kind slots S = index_ok reg kind slots S"
  by (simp add: index_ok_def reg_live_def [abs_def])

lemma index_entry_frame [simp]:
  "entries (index_entry reg v) = entries reg" "count (index_entry reg v) = count reg"
  "buckets (index_entry reg v) = buckets reg" "capacity (index_entry reg v) = capacity reg"
  "entries (unindex_entry reg v) = entries reg" "count (unindex_entry reg v) = count reg"
  "buckets (unindex_entry reg v) = buckets reg" "capacity (unindex_entry reg v) = capacity reg"
  by (simp_all add: index_entry_def unindex_entry_def)

lemma index_entry_slots:
  "slots_of (index_entry reg v) kind = idx_insert reg (slots_of reg kind) (key_of reg v kind) v"
  "slots_of (unindex_entry reg v) kind = idx_remove reg (slots_of reg kind) (key_of reg v kind) kind"
  by (cases kind; simp add: index_entry_def unindex_entry_def)+

lemma index_entry_ok:
  assumes "both_ok reg S" "names_fit reg" "count reg < buckets reg" "reg_live reg v"
    and "\<And>kind u. S u \<Longrightarrow> rkey (entries reg) kind u \<noteq> rkey (entries reg) kind v"
  shows "both_ok (index_entry reg v) (\<lambda>u. u = v \<or> S u)"
  unfolding both_ok_def
proof (intro allI)
  fix kind
  from assms(1) have "index_ok reg kind (slots_of reg kind) S" by (simp add: both_ok_def)
  from index_insert [OF this assms(2-5)]
  show "index_ok (index_entry reg v) kind (slots_of (index_entry reg v) kind) (\<lambda>u. u = v \<or> S u)"
    unfolding index_entry_slots by (subst index_ok_only [of _ reg]) simp_all
qed

lemma unindex_entry_ok:
  assumes "both_ok reg S" "names_fit reg" "count reg < buckets reg" "S v"
  shows "both_ok (unindex_entry reg v) (\<lambda>u. S u \<and> u \<noteq> v)"
  unfolding both_ok_def
proof (intro allI)
  fix kind
  from assms(1) have "index_ok reg kind (slots_of reg kind) S" by (simp add: both_ok_def)
  from index_remove [OF this assms(2-4)]
  show "index_ok (unindex_entry reg v) kind (slots_of (unindex_entry reg v) kind) (\<lambda>u. S u \<and> u \<noteq> v)"
    unfolding index_entry_slots by (subst index_ok_only [of _ reg]) simp_all
qed

lemma both_cong:
  assumes "both_ok reg S" "buckets reg' = buckets reg" "by_name reg' = by_name reg" "by_coord reg' = by_coord reg"
    and "\<And>kind v. S v \<Longrightarrow> rkey (entries reg') kind v = rkey (entries reg) kind v \<and> reg_live reg' v"
  shows "both_ok reg' S"
  unfolding both_ok_def
proof (intro allI)
  fix kind
  have "slots_of reg' kind = slots_of reg kind" using assms(3,4) by (cases kind) simp_all
  with index_cong [OF _ assms(2,5)] assms(1) show "index_ok reg' kind (slots_of reg' kind) S"
    by (simp add: both_ok_def)
qed

lemma both_weaken: "both_ok reg S \<Longrightarrow> (\<And>v. S v \<longleftrightarrow> T v) \<Longrightarrow> both_ok reg T"
  unfolding both_ok_def using index_weaken by blast

lemma both_unique:
  "both_ok reg S \<Longrightarrow> S u \<Longrightarrow> S v \<Longrightarrow> rkey (entries reg) kind u = rkey (entries reg) kind v \<Longrightarrow> u = v"
  using index_unique unfolding both_ok_def by blast

lemma both_live: "both_ok reg S \<Longrightarrow> S v \<Longrightarrow> reg_live reg v"
  using index_live unfolding both_ok_def by blast

section \<open>The invariant and the map\<close>

definition registry_ok :: "goose_registry \<Rightarrow> bool" where
  "registry_ok reg \<longleftrightarrow> count reg \<le> capacity reg \<and> capacity reg < buckets reg \<and> capacity reg \<le> 32767
     \<and> length (entries reg) = capacity reg \<and> names_fit reg \<and> both_ok reg (reg_live reg)"

text \<open>
  The part that survives when two names share a coordinate: the name index is exact, the
  coordinate index well-formed but only holds one of the entries of a coordinate.
\<close>

definition names_ok :: "goose_registry \<Rightarrow> bool" where
  "names_ok reg \<longleftrightarrow> count reg \<le> capacity reg \<and> capacity reg < buckets reg \<and> capacity reg \<le> 32767
     \<and> length (entries reg) = capacity reg \<and> names_fit reg
     \<and> index_ok reg KEY_NAME (by_name reg) (reg_live reg) \<and> (\<exists>S. index_ok reg KEY_COORD (by_coord reg) S)"

text \<open>What a caller of the name lookup gets: the coordinate of the entry found.\<close>

definition resolve :: "goose_registry \<Rightarrow> cstring \<Rightarrow> tryte9 option" where
  "resolve reg name =
     (let i = goose_registry_find_name reg name in
      if i = EMPTY then None else Some (ecoord (entries reg ! nat i)))"

lemma idx16_small: "n \<le> 32767 \<Longrightarrow> idx16 n = int n"
  by (simp add: idx16_def signed_of_nat signed_take_bit_int_eq_self)

lemma live_bounds: "reg_live reg v \<longleftrightarrow> (\<exists>i < count reg. v = int i)"
  by (auto simp: reg_live_def intro!: exI [of _ "nat v"])

lemma both_ok_iff:
  "both_ok reg S \<longleftrightarrow> index_ok reg KEY_NAME (by_name reg) S \<and> index_ok reg KEY_COORD (by_coord reg) S"
  unfolding both_ok_def by (metis key_kind.exhaust slots_of.simps)

lemma registry_ok_parts:
  assumes "registry_ok reg"
  shows "count reg \<le> capacity reg" "count reg < buckets reg" "capacity reg \<le> 32767" "length (entries reg) = capacity reg"
    "names_fit reg" "both_ok reg (reg_live reg)"
  using assms by (auto simp: registry_ok_def)

lemma registry_names_ok: "registry_ok reg \<Longrightarrow> names_ok reg"
  unfolding registry_ok_def names_ok_def both_ok_iff by blast

lemma names_find_iff:
  assumes "names_ok reg"
  shows "goose_registry_find_name reg name = v \<longleftrightarrow>
    (reg_live reg v \<and> ename (entries reg ! nat v) = name)
    \<or> (v = EMPTY \<and> (\<forall>u. reg_live reg u \<longrightarrow> ename (entries reg ! nat u) \<noteq> name))"
proof -
  have "index_ok reg KEY_NAME (by_name reg) (reg_live reg)" "names_fit reg"
    using assms by (simp_all add: names_ok_def)
  from index_find [OF this, of "Name_key name" v] show ?thesis
    by (simp add: rkey_def goose_registry_find_name_def)
qed

lemmas find_name_iff = names_find_iff [OF registry_names_ok]

lemma find_coord_iff:
  assumes "registry_ok reg"
  shows "goose_registry_find_coord reg c = v \<longleftrightarrow>
    (reg_live reg v \<and> goose_coord_equal (ecoord (entries reg ! nat v)) c)
    \<or> (v = EMPTY \<and> (\<forall>u. reg_live reg u \<longrightarrow> \<not> goose_coord_equal (ecoord (entries reg ! nat u)) c))"
proof -
  have "index_ok reg KEY_COORD (by_coord reg) (reg_live reg)" "names_fit reg"
    using assms by (simp_all add: registry_ok_def both_ok_iff)
  from index_find [OF this, of "Coord_key c" v] show ?thesis
    by (simp add: rkey_def goose_registry_find_coord_def coord_equal_key)
qed

lemma names_unique: "names_ok reg \<Longrightarrow> reg_live reg u \<Longrightarrow> reg_live reg v \<Longrightarrow>
    ename (entries reg ! nat u) = ename (entries reg ! nat v) \<Longrightarrow> u = v"
  using index_unique [of reg KEY_NAME "by_name reg" "reg_live reg" u v] by (simp add: names_ok_def rkey_def)

lemma coord_unique: "registry_ok reg \<Longrightarrow> reg_live reg u \<Longrightarrow> reg_live reg v \<Longrightarrow>
    goose_coord_equal (ecoord (entries reg ! nat u)) (ecoord (entries reg ! nat v)) \<Longrightarrow> u = v"
  using both_unique [of reg "reg_live reg" u v KEY_COORD] by (simp add: registry_ok_def rkey_def coord_equal_key)

lemma not_live_EMPTY: "\<not> reg_live reg EMPTY"
  by (simp add: reg_live_def EMPTY_def)

lemma names_resolve_iff:
  assumes ok: "names_ok reg"
  shows "resolve reg name = Some c \<longleftrightarrow>
    (\<exists>v. reg_live reg v \<and> ename (entries reg ! nat v) = name \<and> ecoord (entries reg ! nat v) = c)"
proof -
  define v where "v = goose_registry_find_name reg name"
  from names_find_iff [OF ok, of name v] v_def
  have "(reg_live reg v \<and> ename (entries reg ! nat v) = name)
    \<or> (v = EMPTY \<and> (\<forall>u. reg_live reg u \<longrightarrow> ename (entries reg ! nat u) \<noteq> name))"
    by blast
  then consider "reg_live reg v" "ename (entries reg ! nat v) = name"
    | "v = EMPTY" "\<And>u. reg_live reg u \<Longrightarrow> ename (entries reg ! nat u) \<noteq> name"
    by blast
  then show ?thesis
  proof cases
    case 1
    then have "v \<noteq> EMPTY" using not_live_EMPTY by blast
    then have "resolve reg name = Some (ecoord (entries reg ! nat v))" by (simp add: resolve_def v_def [symmetric])
    moreover have "u = v" if "reg_live reg u" "ename (entries reg ! nat u) = name" for u
      by (rule names_unique [OF ok that(1) 1(1)]) (simp only: that(2) 1(2))
    ultimately show ?thesis using 1 by (metis option.inject)
  next
    case 2
    then have "resolve reg name = None" by (simp add: resolve_def v_def [symmetric])
    with 2(2) show ?thesis by (metis option.discI)
  qed
qed

lemma names_resolve_None:
  assumes "names_ok reg"
  shows "resolve reg name = None \<longleftrightarrow> (\<forall>v. reg_live reg v \<longrightarrow> ename (entries reg ! nat v) \<noteq> name)"
  using names_resolve_iff [OF assms, of name] by (metis not_None_eq)

lemmas resolve_iff = names_resolve_iff [OF registry_names_ok]
lemmas resolve_None = names_resolve_None [OF registry_names_ok]

lemma same_lookup: "(\<And>x. a = Some x \<longleftrightarrow> b = Some x) \<Longrightarrow> a = b"
  by (cases a; cases b) auto

section \<open>Operations preserve the registry and act on it as on a map\<close>

lemma registry_init_ok:
  assumes "cap < n" "cap \<le> 32767" "length es = cap" "length ns = n" "length cs = n"
  shows "registry_ok (goose_registry_init es cap ns cs n)" "resolve (goose_registry_init es cap ns cs n) = Map.empty"
proof -
  let ?r = "goose_registry_init es cap ns cs n"
  have f: "\<not> reg_live ?r v" for v by (simp add: reg_live_def goose_registry_init_def)
  have "both_ok ?r (\<lambda>v. False)"
    using assms index_clear [of ?r ns KEY_NAME] index_clear [of ?r cs KEY_COORD]
    by (simp add: both_ok_iff goose_registry_init_def)
  then have "both_ok ?r (reg_live ?r)" by (rule both_weaken) (simp add: f)
  with assms show ok: "registry_ok ?r"
    by (simp add: registry_ok_def) (simp add: goose_registry_init_def names_fit_def)
  show "resolve ?r = Map.empty" by (rule ext) (simp add: resolve_None [OF ok] f)
qed

lemma add_run:
  assumes ok: "registry_ok reg" and room: "count reg < capacity reg" and fits: "length name < GOOSE_REGISTRY_NAME_MAX"
    and fresh: "resolve reg name = None" "goose_registry_find_coord reg c = EMPTY"
  obtains r where "goose_registry_add reg name c = (int (count reg), r)" "registry_ok r"
    "count r = count reg + 1" "entries r = (entries reg)[count reg := \<lparr>ename = name, ecoord = c\<rparr>]"
proof -
  let ?i = "int (count reg)" and ?e = "\<lparr>ename = name, ecoord = c\<rparr>"
  define r1 where "r1 = reg\<lparr>entries := (entries reg)[count reg := ?e], count := count reg + 1\<rparr>"
  define r where "r = index_entry r1 ?i"
  note P = registry_ok_parts [OF ok]
  have len: "count reg < length (entries reg)" using room P(4) by simp
  have get: "entries r1 ! j = (if j = count reg then ?e else entries reg ! j)" if "j \<le> count reg" for j
    using that len by (simp add: r1_def)
  have live1: "reg_live r1 v \<longleftrightarrow> v = ?i \<or> reg_live reg v" for v
    by (auto simp: reg_live_def r1_def)
  have old: "entries r1 ! nat v = entries reg ! nat v" if "reg_live reg v" for v
    using get [of "nat v"] that by (auto simp: reg_live_def)
  have new: "entries r1 ! nat ?i = ?e" using get [of "count reg"] by simp
  have "both_ok r1 (reg_live reg)"
    by (rule both_cong [OF P(6)]) (simp_all add: r1_def [THEN arg_cong [where f = buckets]] live1 old rkey_def, simp_all add: r1_def)
  moreover have nf: "names_fit r1"
    unfolding names_fit_def
  proof (intro allI impI)
    fix i assume "i < count r1"
    then have "i \<le> count reg" by (simp add: r1_def)
    with get [OF this] fits P(5) show "length (ename (entries r1 ! i)) < GOOSE_REGISTRY_NAME_MAX"
      by (auto simp: names_fit_def)
  qed
  moreover have b: "count r1 < buckets r1" using ok room by (simp add: r1_def registry_ok_def)
  moreover have "reg_live r1 ?i" by (simp add: live1)
  moreover have "rkey (entries r1) kind u \<noteq> rkey (entries r1) kind ?i" if "reg_live reg u" for kind u
  proof (cases kind)
    case KEY_NAME
    have "ename (entries reg ! nat u) \<noteq> name" using fresh(1) resolve_None [OF ok] that by blast
    with KEY_NAME old [OF that] new show ?thesis by (simp add: rkey_def)
  next
    case KEY_COORD
    have "\<not> goose_coord_equal (ecoord (entries reg ! nat u)) c"
      using fresh(2) find_coord_iff [OF ok, of c EMPTY] that not_live_EMPTY by blast
    with KEY_COORD old [OF that] new show ?thesis by (simp add: rkey_def coord_equal_key)
  qed
  ultimately have "both_ok r (\<lambda>u. u = ?i \<or> reg_live reg u)"
    unfolding r_def by (rule index_entry_ok)
  then have "both_ok r (reg_live r)"
    by (rule both_weaken) (simp only: live1 [symmetric], simp add: reg_live_def r_def)
  moreover have "names_fit r" using nf by (simp add: names_fit_def r_def)
  ultimately have "registry_ok r" using ok room len by (simp add: registry_ok_def r_def r1_def)
  moreover have "goose_registry_add reg name c = (?i, r)"
    using room fits P(1,3) by (simp add: goose_registry_add_def idx16_small Let_def r_def r1_def)
  moreover have "count r = count reg + 1" "entries r = (entries reg)[count reg := ?e]"
    by (simp_all add: r_def r1_def)
  ultimately show ?thesis using that by blast
qed

text \<open>
  Registering a name binds it and nothing else. On a well-formed registry with room, a name
  that fits and is absent, and a coordinate no entry holds: the operation answers the next
  index, both indexes find it there, the registry stays well-formed, and the map from names to
  coordinates changes at that name only.
\<close>

theorem registry_add_map:
  assumes ok: "registry_ok reg" and room: "count reg < capacity reg" and fits: "length name < GOOSE_REGISTRY_NAME_MAX"
    and fresh: "resolve reg name = None" "goose_registry_find_coord reg c = EMPTY"
  shows "let (i, r) = goose_registry_add reg name c in registry_ok r \<and> i = int (count reg)
    \<and> goose_registry_find_name r name = i \<and> goose_registry_find_coord r c = i
    \<and> resolve r = (resolve reg)(name \<mapsto> c)"
proof -
  let ?i = "int (count reg)" and ?e = "\<lparr>ename = name, ecoord = c\<rparr>"
  obtain r where add: "goose_registry_add reg name c = (?i, r)" and rok: "registry_ok r"
    and cnt: "count r = count reg + 1" and ent: "entries r = (entries reg)[count reg := ?e]"
    using add_run [OF assms] .
  have len: "count reg < length (entries reg)" using room registry_ok_parts(4) [OF ok] by simp
  have live: "reg_live r v \<longleftrightarrow> v = ?i \<or> reg_live reg v" for v
    by (auto simp: reg_live_def cnt)
  have new: "entries r ! nat ?i = ?e" using len by (simp add: ent)
  have old: "entries r ! nat v = entries reg ! nat v" if "reg_live reg v" for v
    using that by (auto simp: reg_live_def ent)
  have fn: "goose_registry_find_name r name = ?i"
    using find_name_iff [OF rok, of name ?i] live new by simp
  have fc: "goose_registry_find_coord r c = ?i"
    using find_coord_iff [OF rok, of c ?i] live new by (simp add: coord_equal_key)
  have "resolve r n = ((resolve reg)(name \<mapsto> c)) n" for n
  proof (cases "n = name")
    case True
    have "?i \<noteq> EMPTY" by (simp add: EMPTY_def)
    with True fn new show ?thesis by (simp add: resolve_def)
  next
    case False
    have "resolve r n = Some x \<longleftrightarrow> resolve reg n = Some x" for x
      unfolding resolve_iff [OF rok] resolve_iff [OF ok] live using old new False by fastforce
    then have "resolve r n = resolve reg n" by (rule same_lookup)
    with False show ?thesis by simp
  qed
  with add rok fn fc show ?thesis by auto
qed

lemma remove_run:
  assumes ok: "registry_ok reg" and idx: "goose_registry_find_coord reg c = int i" "i < count reg"
  obtains r where "goose_registry_remove_coord reg c = (True, r)" "registry_ok r" "count r = count reg - 1"
    "\<And>j. j < count r \<Longrightarrow> entries r ! j = entries reg ! (if j = i then count reg - 1 else j)"
proof -
  note P = registry_ok_parts [OF ok]
  let ?l = "count reg - 1"
  have l: "idx16 ?l = int ?l" using P(1,3) by (intro idx16_small) simp
  have ne: "int i \<noteq> EMPTY" by (simp add: EMPTY_def)
  have live: "reg_live reg (int j) \<longleftrightarrow> j < count reg" for j by (auto simp: reg_live_def)
  define r1 where "r1 = unindex_entry reg (int i)"
  have b1: "both_ok r1 (\<lambda>u. reg_live reg u \<and> u \<noteq> int i)"
    unfolding r1_def by (rule unindex_entry_ok [OF P(6,5,2)]) (simp add: live idx(2))
  have f1: "entries r1 = entries reg" "count r1 = count reg" "buckets r1 = buckets reg" "capacity r1 = capacity reg"
    by (simp_all add: r1_def)
  define r2 where "r2 = (if i \<noteq> ?l
      then index_entry ((unindex_entry r1 (int ?l))\<lparr>entries := (entries reg)[i := entries reg ! ?l], count := ?l\<rparr>) (int i)
      else r1\<lparr>count := ?l\<rparr>)"
  have f2: "entries r2 = (if i \<noteq> ?l then (entries reg)[i := entries reg ! ?l] else entries reg)"
      "count r2 = ?l" "buckets r2 = buckets reg" "capacity r2 = capacity reg"
    by (simp_all add: r2_def f1)
  have live2: "reg_live r2 v \<longleftrightarrow> reg_live reg v \<and> v \<noteq> int ?l" for v using idx(2) by (auto simp: reg_live_def f2)
  have b2: "both_ok r2 (reg_live r2)"
  proof (cases "i = ?l")
    case True
    have "both_ok (r1\<lparr>count := ?l\<rparr>) (\<lambda>u. reg_live reg u \<and> u \<noteq> int i)"
      by (rule both_cong [OF b1]) (use True in \<open>auto simp: f1 reg_live_def\<close>)
    then show ?thesis using True live2 by (simp add: r2_def both_weaken)
  next
    case False
    define r3 where "r3 = unindex_entry r1 (int ?l)"
    define r4 where "r4 = r3\<lparr>entries := (entries reg)[i := entries reg ! ?l], count := ?l\<rparr>"
    let ?S = "\<lambda>u. (reg_live reg u \<and> u \<noteq> int i) \<and> u \<noteq> int ?l"
    have b3: "both_ok r3 ?S"
      unfolding r3_def
      by (rule unindex_entry_ok [OF b1]) (use P(2,5) False idx(2) live [of ?l] in \<open>auto simp: names_fit_def f1\<close>)
    have f4: "entries r4 = (entries reg)[i := entries reg ! ?l]" "count r4 = ?l" "buckets r4 = buckets reg"
      by (simp_all add: r4_def r3_def f1)
    have keep: "rkey (entries r4) kind v = rkey (entries reg) kind v" if "?S v" for kind v
    proof -
      have "nat v \<noteq> i" using that by (auto simp: reg_live_def)
      then show ?thesis by (simp add: rkey_def f4)
    qed
    have b4: "both_ok r4 ?S"
      by (rule both_cong [OF b3]) (use keep in \<open>auto simp: r3_def f1 r4_def reg_live_def\<close>)
    have li: "reg_live r4 (int i)" using False idx(2) by (simp add: reg_live_def f4)
    have new: "rkey (entries r4) kind (int i) = rkey (entries reg) kind (int ?l)" for kind
    proof -
      have "i < length (entries reg)" using idx(2) P(1,4) by simp
      then show ?thesis by (simp only: rkey_def f4 nat_int nth_list_update_eq)
    qed
    have nf: "names_fit r4"
      unfolding names_fit_def f4
    proof (intro allI impI)
      fix j assume "j < ?l"
      then show "length (ename ((entries reg)[i := entries reg ! ?l] ! j)) < GOOSE_REGISTRY_NAME_MAX"
        using P(5) idx(2) P(1,4) by (cases "j = i") (auto simp: names_fit_def)
    qed
    have distinct: "rkey (entries r4) kind u \<noteq> rkey (entries r4) kind (int i)" if "?S u" for kind u
    proof
      assume "rkey (entries r4) kind u = rkey (entries r4) kind (int i)"
      then have "rkey (entries reg) kind u = rkey (entries reg) kind (int ?l)" by (simp only: keep [OF that] new)
      then have "u = int ?l" using both_unique [OF P(6)] that live [of ?l] idx(2) by auto
      with that show False by simp
    qed
    have "count r4 < buckets r4" using P(2) by (simp add: f4)
    from index_entry_ok [OF b4 nf this li distinct]
    have "both_ok (index_entry r4 (int i)) (\<lambda>u. u = int i \<or> ?S u)" .
    moreover have "r2 = index_entry r4 (int i)" using False by (simp add: r2_def r4_def r3_def)
    moreover have "u = int i \<or> ?S u \<longleftrightarrow> reg_live r2 u" for u
      using live [of i] live [of ?l] idx(2) False by (auto simp: live2)
    ultimately show ?thesis by (simp add: both_weaken)
  qed
  define r where "r = r2\<lparr>entries := (entries r2)[?l := zero_entry]\<rparr>"
  have ent: "entries r ! j = entries reg ! (if j = i then ?l else j)" if "j < ?l" for j
  proof -
    have "j < length (entries reg)" using that P(1,4) by simp
    with that show ?thesis by (auto simp: r_def f2)
  qed
  have b: "both_ok r (reg_live r2)"
    by (rule both_cong [OF b2]) (auto simp: r_def rkey_def reg_live_def f2)
  have nf: "names_fit r"
    unfolding names_fit_def
  proof (intro allI impI)
    fix j assume "j < count r"
    then have "j < ?l" by (simp add: r_def f2)
    with ent [OF this] P(5) idx(2) show "length (ename (entries r ! j)) < GOOSE_REGISTRY_NAME_MAX"
      by (simp add: names_fit_def)
  qed
  have "reg_live r = reg_live r2" by (rule ext) (simp add: r_def reg_live_def)
  with b have "both_ok r (reg_live r)" by simp
  moreover have fr: "count r = ?l" "capacity r = capacity reg" "buckets r = buckets reg" "length (entries r) = length (entries reg)"
    by (simp_all add: r_def f2)
  moreover have "capacity reg < buckets reg" using ok by (simp add: registry_ok_def)
  ultimately have "registry_ok r" unfolding registry_ok_def fr using nf P(1,3,4) by simp
  have nat_pred: "nat (int (count reg) - 1) = count reg - Suc 0" by linarith
  note \<open>registry_ok r\<close>
  moreover have "goose_registry_remove_coord reg c = (True, r)"
    using idx ne l nat_pred unfolding goose_registry_remove_coord_def Let_def
    by (simp add: r_def r2_def r1_def f1 Let_def)
  moreover have "entries r ! j = entries reg ! (if j = i then ?l else j)" if "j < count r" for j
    using ent that by (simp add: fr(1))
  ultimately show ?thesis by (intro that [OF _ _ fr(1)])
qed

text \<open>
  Where no coordinate is bound twice, removal reports whether some entry held the coordinate, and
  afterwards every name bound to it is absent and every other name resolves as before, the entry
  that was moved down into the hole included.
\<close>

lemma remove_coord_unique:
  assumes ok: "registry_ok reg"
  shows "let (found, r) = goose_registry_remove_coord reg c in registry_ok r
    \<and> found = (goose_registry_find_coord reg c \<noteq> EMPTY) \<and> count r = count reg - (if found then 1 else 0)
    \<and> (\<forall>n. resolve r n = (case resolve reg n of None \<Rightarrow> None
                          | Some c' \<Rightarrow> if goose_coord_equal c' c then None else Some c'))"
proof -
  define v where "v = goose_registry_find_coord reg c"
  have "(reg_live reg v \<and> goose_coord_equal (ecoord (entries reg ! nat v)) c)
    \<or> (v = EMPTY \<and> (\<forall>u. reg_live reg u \<longrightarrow> \<not> goose_coord_equal (ecoord (entries reg ! nat u)) c))"
    using find_coord_iff [OF ok, of c v] v_def by blast
  then show ?thesis
  proof (elim disjE conjE)
    assume v: "v = EMPTY" and none: "\<forall>u. reg_live reg u \<longrightarrow> \<not> goose_coord_equal (ecoord (entries reg ! nat u)) c"
    have "goose_registry_remove_coord reg c = (False, reg)"
      using v v_def by (auto simp: goose_registry_remove_coord_def Let_def)
    moreover have "\<not> goose_coord_equal c' c" if "resolve reg n = Some c'" for n c'
    proof -
      from that resolve_iff [OF ok, of n c'] obtain u where "reg_live reg u" "ecoord (entries reg ! nat u) = c'"
        by auto
      with none show ?thesis by blast
    qed
    ultimately show ?thesis using ok v v_def by (auto split: option.splits)
  next
    assume lv: "reg_live reg v" and eq: "goose_coord_equal (ecoord (entries reg ! nat v)) c"
    define i where "i = nat v"
    have i: "v = int i" "i < count reg" using lv by (auto simp: reg_live_def i_def)
    obtain r where r: "goose_registry_remove_coord reg c = (True, r)" "registry_ok r" "count r = count reg - 1"
      "\<And>j. j < count r \<Longrightarrow> entries r ! j = entries reg ! (if j = i then count reg - 1 else j)"
      using remove_run [OF ok, of c i] i v_def by metis
    have eqi: "goose_coord_equal (ecoord (entries reg ! j)) c \<longleftrightarrow> j = i" if "j < count reg" for j
      using coord_unique [OF ok, of "int j" "int i"] that i eq by (auto simp: reg_live_def coord_equal_key)
    have "resolve r n = Some x \<longleftrightarrow> resolve reg n = Some x \<and> \<not> goose_coord_equal x c" for n x
    proof
      assume "resolve r n = Some x"
      then obtain j where j: "j < count r" "ename (entries r ! j) = n" "ecoord (entries r ! j) = x"
        unfolding resolve_iff [OF r(2)] live_bounds by auto
      let ?j = "if j = i then count reg - 1 else j"
      have "?j < count reg" "?j \<noteq> i" using j(1) r(3) i(2) by (auto split: if_splits)
      then have "\<not> goose_coord_equal x c" "reg_live reg (int ?j)"
        using eqi [of ?j] j r(4) [OF j(1)] by (auto simp: reg_live_def)
      then show "resolve reg n = Some x \<and> \<not> goose_coord_equal x c"
        unfolding resolve_iff [OF ok] using j r(4) [OF j(1)] by (metis nat_int)
    next
      assume a: "resolve reg n = Some x \<and> \<not> goose_coord_equal x c"
      then obtain j where j: "j < count reg" "ename (entries reg ! j) = n" "ecoord (entries reg ! j) = x"
        unfolding resolve_iff [OF ok] live_bounds by auto
      with a eqi [of j] have ji: "j \<noteq> i" by auto
      let ?j = "if j = count reg - 1 then i else j"
      have lt: "?j < count r" using j(1) ji r(3) i(2) by auto
      have "entries r ! ?j = entries reg ! j" using r(4) [OF lt] ji by auto
      moreover have "reg_live r (int ?j)" using lt by (simp add: reg_live_def)
      ultimately show "resolve r n = Some x" unfolding resolve_iff [OF r(2)] using j by (metis nat_int)
    qed
    then have "resolve r n = (case resolve reg n of None \<Rightarrow> None | Some c' \<Rightarrow> if goose_coord_equal c' c then None else Some c')" for n
      by (intro same_lookup) (auto split: option.splits)
    moreover have "v \<noteq> EMPTY" using i by (simp add: EMPTY_def)
    ultimately show ?thesis using r(1-3) v_def by simp
  qed
qed

lemma set_coord_run:
  assumes ok: "registry_ok reg" and i: "i < count reg" and differs: "\<not> goose_coord_equal (ecoord (entries reg ! i)) c"
    and free: "goose_registry_find_coord reg c = EMPTY"
  obtains r where "goose_registry_set_coord reg (int i) c = r" "registry_ok r" "count r = count reg"
    "entries r = (entries reg)[i := (entries reg ! i)\<lparr>ecoord := c\<rparr>]"
proof -
  note P = registry_ok_parts [OF ok]
  have li: "reg_live reg (int i)" using i by (simp add: reg_live_def)
  have len: "i < length (entries reg)" using i P(1,4) by simp
  let ?es = "(entries reg)[i := (entries reg ! i)\<lparr>ecoord := c\<rparr>]"
  define cs where "cs = idx_remove reg (by_coord reg) (key_of reg (int i) KEY_COORD) KEY_COORD"
  define r2 where "r2 = reg\<lparr>by_coord := cs, entries := ?es\<rparr>"
  define r where "r = r2\<lparr>by_coord := idx_insert r2 cs (key_of r2 (int i) KEY_COORD) (int i)\<rparr>"
  have f: "entries r2 = ?es" "count r2 = count reg" "buckets r2 = buckets reg" "by_name r2 = by_name reg"
    by (simp_all add: r2_def)
  have live2: "reg_live r2 v = reg_live reg v" for v by (simp add: reg_live_def f)
  have idx: "index_ok reg KEY_NAME (by_name reg) (reg_live reg)" "index_ok reg KEY_COORD (by_coord reg) (reg_live reg)"
    using P(6) by (auto simp: both_ok_iff)
  have "index_ok reg KEY_COORD cs (\<lambda>u. reg_live reg u \<and> u \<noteq> int i)"
    unfolding cs_def by (rule index_remove [OF idx(2) P(5,2) li])
  then have c1: "index_ok r2 KEY_COORD cs (\<lambda>u. reg_live reg u \<and> u \<noteq> int i)"
    by (rule index_cong) (auto simp: f live2 rkey_def reg_live_def nth_list_update)
  have n1: "index_ok r2 KEY_NAME (by_name reg) (reg_live reg)"
    by (rule index_cong [OF idx(1)]) (use len in \<open>auto simp: f live2 rkey_def nth_list_update\<close>)
  have nf: "names_fit r2" using P(5) len by (auto simp: names_fit_def f nth_list_update)
  have distinct: "rkey (entries r2) KEY_COORD u \<noteq> rkey (entries r2) KEY_COORD (int i)"
    if "reg_live reg u \<and> u \<noteq> int i" for u
  proof -
    have "\<not> goose_coord_equal (ecoord (entries reg ! nat u)) c"
      using free find_coord_iff [OF ok, of c EMPTY] that not_live_EMPTY by blast
    moreover have "nat u \<noteq> i" using that by (auto simp: reg_live_def)
    ultimately show ?thesis using len by (simp add: rkey_def f coord_equal_key nth_list_update)
  qed
  have "count r2 < buckets r2" using P(2) by (simp add: f)
  from index_insert [OF c1 nf this _ distinct] li live2
  have "index_ok r2 KEY_COORD (by_coord r) (\<lambda>u. u = int i \<or> reg_live reg u \<and> u \<noteq> int i)"
    by (simp add: r_def)
  then have "index_ok r2 KEY_COORD (by_coord r) (reg_live reg)"
    by (rule index_weaken) (use li in blast)
  moreover have "entries r = entries r2" "count r = count r2" "buckets r = buckets r2" by (simp_all add: r_def)
  note index_ok_only [OF this]
  moreover have "by_name r = by_name reg" by (simp add: r_def f)
  ultimately have "both_ok r (reg_live reg)" unfolding both_ok_iff using n1 by simp
  moreover have "reg_live r = reg_live reg" by (rule ext) (simp add: r_def reg_live_def f)
  moreover have "names_fit r" using nf by (simp add: names_fit_def r_def f)
  ultimately have "registry_ok r" using ok by (simp add: registry_ok_def) (simp add: r_def r2_def)
  moreover have "goose_registry_set_coord reg (int i) c = r"
    using i differs by (simp add: goose_registry_set_coord_def Let_def r_def r2_def cs_def)
  moreover have "count r = count reg" "entries r = ?es" by (simp_all add: r_def f)
  ultimately show ?thesis using that by blast
qed

text \<open>
  re-keying moves one binding. Pointing a live entry at a coordinate no entry holds keeps
  the registry well-formed, makes the coordinate index answer that entry for the new
  coordinate, and changes the map at the entry's own name only.
\<close>

theorem registry_set_coord_map:
  assumes ok: "registry_ok reg" and live: "reg_live reg idx" and free: "goose_registry_find_coord reg c = EMPTY"
  shows "let r = goose_registry_set_coord reg idx c in registry_ok r \<and> goose_registry_find_coord r c = idx
    \<and> resolve r = (resolve reg)(ename (entries reg ! nat idx) \<mapsto> c)"
proof -
  obtain i where i: "idx = int i" "i < count reg" using live by (auto simp: live_bounds)
  note P = registry_ok_parts [OF ok]
  have "\<not> goose_coord_equal (ecoord (entries reg ! i)) c"
    using free find_coord_iff [OF ok, of c EMPTY] live not_live_EMPTY i(1) by (metis nat_int)
  from set_coord_run [OF ok i(2) this free] obtain r where r: "goose_registry_set_coord reg idx c = r" "registry_ok r"
    "count r = count reg" "entries r = (entries reg)[i := (entries reg ! i)\<lparr>ecoord := c\<rparr>]"
    unfolding i(1) by blast
  have len: "i < length (entries reg)" using i P(1,4) by simp
  have lv: "reg_live r v = reg_live reg v" for v by (simp add: reg_live_def r(3))
  have new: "entries r ! i = (entries reg ! i)\<lparr>ecoord := c\<rparr>" using len by (simp add: r(4))
  have old: "entries r ! nat v = entries reg ! nat v" if "reg_live reg v" "v \<noteq> idx" for v
    using that by (auto simp: r(4) i(1) reg_live_def)
  have fc: "goose_registry_find_coord r c = idx"
    using find_coord_iff [OF r(2), of c idx] live lv new i(1) by (simp add: coord_equal_key)
  have "resolve r n = ((resolve reg)(ename (entries reg ! i) \<mapsto> c)) n" for n
  proof (cases "n = ename (entries reg ! i)")
    case True
    have "resolve r n = Some c"
      unfolding resolve_iff [OF r(2)] lv using live new True i(1) by (metis goose_registry_entry.select_convs(1,2)
          goose_registry_entry.surjective goose_registry_entry.update_convs(2) nat_int)
    with True show ?thesis by simp
  next
    case False
    have "(reg_live reg v \<and> ename (entries r ! nat v) = n \<and> ecoord (entries r ! nat v) = x)
        \<longleftrightarrow> (reg_live reg v \<and> ename (entries reg ! nat v) = n \<and> ecoord (entries reg ! nat v) = x)" for v x
      using old [of v] new False i(1) by (cases "v = idx") auto
    then have "resolve r n = Some x \<longleftrightarrow> resolve reg n = Some x" for x
      unfolding resolve_iff [OF r(2)] resolve_iff [OF ok] lv by simp
    then have "resolve r n = resolve reg n" by (rule same_lookup)
    with False show ?thesis by simp
  qed
  with r fc i(1) show ?thesis by auto
qed

lemma reindex_prefix:
  assumes "both_ok reg (\<lambda>v. False)" "names_fit reg" "count reg < buckets reg" "count reg \<le> 32767"
    and "\<And>kind u v. reg_live reg u \<Longrightarrow> reg_live reg v \<Longrightarrow> rkey (entries reg) kind u = rkey (entries reg) kind v \<Longrightarrow> u = v"
  shows "k \<le> count reg \<Longrightarrow> let r = foldl (\<lambda>r i. index_entry r (idx16 i)) reg [0..<k] in
    both_ok r (\<lambda>v. \<exists>i < k. v = int i) \<and> entries r = entries reg \<and> count r = count reg
      \<and> buckets r = buckets reg \<and> capacity r = capacity reg"
proof (induction k)
  case (Suc k)
  define r where "r = foldl (\<lambda>r i. index_entry r (idx16 i)) reg [0..<k]"
  have r: "both_ok r (\<lambda>v. \<exists>i < k. v = int i)" "entries r = entries reg" "count r = count reg"
      "buckets r = buckets reg" "capacity r = capacity reg"
    using Suc by (simp_all add: r_def Let_def)
  have k: "idx16 k = int k" using Suc.prems assms(4) by (intro idx16_small) simp
  have live: "reg_live r v = reg_live reg v" for v by (simp add: reg_live_def r(3))
  have distinct: "rkey (entries r) kind u \<noteq> rkey (entries r) kind (int k)" if "\<exists>i < k. u = int i" for kind u
    using assms(5) [of u "int k" kind] that Suc.prems by (auto simp: r(2) live_bounds)
  have nf: "names_fit r" using assms(2) by (simp add: names_fit_def r)
  have "both_ok (index_entry r (int k)) (\<lambda>u. u = int k \<or> (\<exists>i < k. u = int i))"
    by (rule index_entry_ok [OF r(1) nf _ _ distinct]) (use Suc.prems assms(3) in \<open>simp_all add: live live_bounds r\<close>)
  then have "both_ok (index_entry r (int k)) (\<lambda>u. \<exists>i < Suc k. u = int i)"
    by (rule both_weaken) (auto simp: less_Suc_eq)
  with r k show ?case by (simp add: Let_def r_def)
qed (use assms(1) in \<open>simp add: Let_def\<close>)

text \<open>
  The rebuild restores the invariant from the entries alone. Whatever the two bucket arrays
  held, if the live entries have pairwise different names and coordinates and fit their
  bounds, reindexing gives a well-formed registry with the same entries.
\<close>

theorem registry_reindex_restores:
  assumes "count reg \<le> capacity reg" "capacity reg < buckets reg" "capacity reg \<le> 32767" "length (entries reg) = capacity reg"
    and "length (by_name reg) = buckets reg" "length (by_coord reg) = buckets reg" "names_fit reg"
    and "inj_on (\<lambda>i. ename (entries reg ! i)) {..< count reg}"
    and "inj_on (\<lambda>i. coord_key (ecoord (entries reg ! i))) {..< count reg}"
  shows "registry_ok (goose_registry_reindex reg) \<and> entries (goose_registry_reindex reg) = entries reg
    \<and> count (goose_registry_reindex reg) = count reg"
proof -
  let ?n = "buckets reg"
  define r0 where "r0 = reg\<lparr>by_name := replicate ?n EMPTY @ drop ?n (by_name reg), by_coord := replicate ?n EMPTY @ drop ?n (by_coord reg)\<rparr>"
  have f: "entries r0 = entries reg" "count r0 = count reg" "buckets r0 = ?n" "capacity r0 = capacity reg"
      "by_name r0 = replicate (buckets r0) EMPTY @ drop (buckets r0) (by_name reg)"
      "by_coord r0 = replicate (buckets r0) EMPTY @ drop (buckets r0) (by_coord reg)"
    by (simp_all add: r0_def)
  have b0: "both_ok r0 (\<lambda>v. False)"
    unfolding both_ok_iff f(5,6) using assms(2,5,6) by (intro conjI index_clear) (simp_all add: f(3))
  have uniq: "u = v" if "reg_live r0 u" "reg_live r0 v" "rkey (entries r0) kind u = rkey (entries r0) kind v" for kind u v
  proof -
    from that(1,2) obtain i j where ij: "u = int i" "v = int j" "i < count reg" "j < count reg"
      by (auto simp: live_bounds f)
    with that(3) have "i = j"
      using inj_onD [OF assms(8), of i j] inj_onD [OF assms(9), of i j]
      by (cases kind) (simp_all add: rkey_def f)
    with ij show ?thesis by simp
  qed
  define r where "r = goose_registry_reindex reg"
  have "names_fit r0" "count r0 < buckets r0" "count r0 \<le> 32767" using assms by (simp_all add: names_fit_def f)
  from reindex_prefix [OF b0 this uniq order_refl]
  have r: "both_ok r (\<lambda>v. \<exists>i < count reg. v = int i)" "entries r = entries reg" "count r = count reg"
      "buckets r = ?n" "capacity r = capacity reg"
    by (simp_all add: f Let_def r_def goose_registry_reindex_def r0_def)
  from r(1) have "both_ok r (reg_live r)" by (rule both_weaken) (auto simp: live_bounds r(3))
  moreover have "names_fit r" using assms(7) by (simp add: names_fit_def r)
  ultimately show ?thesis using assms(1-4) by (simp add: registry_ok_def r_def [symmetric] r)
qed

section \<open>Witnesses\<close>

definition demo0 :: goose_registry where
  "demo0 = goose_registry_init (replicate 2 zero_entry) 2 [7, 7, 7] [7, 7, 7] 3"

definition demo1 :: goose_registry where
  "demo1 = snd (goose_registry_add demo0 [97] [1, 0, 0, 0, 0, 0, 0, 0, 0])"

lemma demo0_ok: "registry_ok demo0" "resolve demo0 n = None" "goose_registry_find_coord demo0 c = EMPTY"
proof -
  show ok: "registry_ok demo0" unfolding demo0_def by (rule registry_init_ok) simp_all
  show "resolve demo0 n = None" unfolding demo0_def by (subst registry_init_ok(2)) simp_all
  show "goose_registry_find_coord demo0 c = EMPTY"
    using find_coord_iff [OF ok, of c EMPTY] by (simp add: reg_live_def demo0_def goose_registry_init_def)
qed

lemma demo0_frame: "count demo0 = 0" "capacity demo0 = 2" "entries demo0 = [zero_entry, zero_entry]"
  by (simp_all add: demo0_def goose_registry_init_def numeral_2_eq_2)

lemma demo1_facts: "registry_ok demo1" "count demo1 = 1" "entries demo1 ! 0 = \<lparr>ename = [97], ecoord = [1, 0, 0, 0, 0, 0, 0, 0, 0]\<rparr>"
proof -
  have "count demo0 < capacity demo0" "length [97 :: u8] < GOOSE_REGISTRY_NAME_MAX"
    by (simp_all add: demo0_frame GOOSE_REGISTRY_NAME_MAX_def)
  from add_run [OF demo0_ok(1) this demo0_ok(2,3)] obtain r where
    "goose_registry_add demo0 [97] [1, 0, 0, 0, 0, 0, 0, 0, 0] = (int (count demo0), r)" "registry_ok r"
    "count r = count demo0 + 1" "entries r = (entries demo0)[count demo0 := \<lparr>ename = [97], ecoord = [1, 0, 0, 0, 0, 0, 0, 0, 0]\<rparr>]"
    by blast
  then show "registry_ok demo1" "count demo1 = 1" "entries demo1 ! 0 = \<lparr>ename = [97], ecoord = [1, 0, 0, 0, 0, 0, 0, 0, 0]\<rparr>"
    by (simp_all add: demo1_def demo0_frame)
qed

theorem registry_add_map_witness:
  "resolve (snd (goose_registry_add demo0 [97] [1, 0, 0, 0, 0, 0, 0, 0, 0])) [97] = Some [1, 0, 0, 0, 0, 0, 0, 0, 0]"
proof -
  have "count demo0 < capacity demo0" "length [97 :: u8] < GOOSE_REGISTRY_NAME_MAX"
    by (simp_all add: demo0_frame GOOSE_REGISTRY_NAME_MAX_def)
  from registry_add_map [OF demo0_ok(1) this demo0_ok(2,3), of "[1, 0, 0, 0, 0, 0, 0, 0, 0]"] show ?thesis
    by (auto simp: Let_def split: prod.splits)
qed

lemma demo1_binds: "resolve demo1 [97] = Some [1, 0, 0, 0, 0, 0, 0, 0, 0]"
proof -
  have "reg_live demo1 0" by (simp add: reg_live_def demo1_facts(2))
  with resolve_iff [OF demo1_facts(1)] demo1_facts(3) show ?thesis
    by (metis goose_registry_entry.select_convs nat_0)
qed

theorem registry_set_coord_map_witness:
  "resolve (goose_registry_set_coord demo1 0 [0, 1, 0, 0, 0, 0, 0, 0, 0]) [97] = Some [0, 1, 0, 0, 0, 0, 0, 0, 0]"
proof -
  have live: "reg_live demo1 v \<longleftrightarrow> v = 0" for v using demo1_facts(2) by (auto simp: reg_live_def)
  have "\<not> goose_coord_equal [1, 0, 0, 0, 0, 0, 0, 0, 0] [0, 1, 0, 0, 0, 0, 0, 0, 0]" by code_simp
  then have "goose_registry_find_coord demo1 [0, 1, 0, 0, 0, 0, 0, 0, 0] = EMPTY"
    using find_coord_iff [OF demo1_facts(1), of "[0, 1, 0, 0, 0, 0, 0, 0, 0]" EMPTY] demo1_facts(3) by (simp add: live)
  from registry_set_coord_map [OF demo1_facts(1) _ this, of 0] show ?thesis
    by (simp add: live demo1_facts(3) Let_def)
qed

theorem registry_reindex_restores_witness:
  "registry_ok (goose_registry_reindex (demo1\<lparr>by_name := [0, 0, 5], by_coord := [-1, -1, -1]\<rparr>))"
proof -
  let ?r = "demo1\<lparr>by_name := [0, 0, 5], by_coord := [-1, -1, -1]\<rparr>"
  note P = registry_ok_parts [OF demo1_facts(1)]
  have b: "buckets demo1 = 3" "capacity demo1 = 2"
    by (simp_all add: demo1_def goose_registry_add_def demo0_def goose_registry_init_def Let_def
        GOOSE_REGISTRY_NAME_MAX_def)
  have "names_fit ?r" using P(5) by (simp add: names_fit_def)
  then show ?thesis
    using registry_reindex_restores [of ?r] P(4) demo1_facts(2) b by (simp add: lessThan_Suc)
qed

end
