(* ===== verification/Service_Manager.thy ===== *)
theory Service_Manager imports VM_Task begin

text \<open>
  The service manager of core/service_manager.c and core/include/reflex_service.h: a table of
  at most sixteen descriptors with optional lifecycle hooks, start and stop in registration
  order and its reverse, and the watchdog that restarts faulted services under a doubling
  backoff.

  A hook is a function on the state \<open>'w\<close> the services live in (a descriptor's hooks with its
  context pointer already applied); hooks do not re-enter the manager. A log line the code
  emits is part of an operation's answer where a theorem speaks of it.
\<close>

section \<open>State\<close>

type_synonym 'w hook = "'w \<Rightarrow> unit result \<times> 'w"
type_synonym u64 = "64 word"

record 'w reflex_service_desc =
  sname :: string
  init :: "'w hook option"
  start :: "'w hook option"
  stop :: "'w hook option"
  sstatus :: "('w \<Rightarrow> reflex_service_status \<times> 'w) option"

definition REFLEX_SERVICE_MAX :: nat where "REFLEX_SERVICE_MAX = 16"

text \<open>\<open>services\<close> is the registered prefix of the descriptor array; its length is the count.\<close>

record 'w service_manager =
  services :: "'w reflex_service_desc list"
  manager_ready :: bool
  restart_backoff_ms :: "u32 list"
  restart_count :: "u32 list"
  next_restart_us :: "u64 list"

definition service_manager_boot :: "'w service_manager" where
  "service_manager_boot = \<lparr>services = [], manager_ready = False, restart_backoff_ms = replicate REFLEX_SERVICE_MAX 0,
     restart_count = replicate REFLEX_SERVICE_MAX 0, next_restart_us = replicate REFLEX_SERVICE_MAX 0\<rparr>"

section \<open>Registration and accessors\<close>

definition reflex_service_manager_init :: "'w service_manager \<Rightarrow> unit result \<times> 'w service_manager" where
  "reflex_service_manager_init m =
     (Inr (), m\<lparr>services := [], restart_backoff_ms := replicate REFLEX_SERVICE_MAX 0,
        restart_count := replicate REFLEX_SERVICE_MAX 0, next_restart_us := replicate REFLEX_SERVICE_MAX 0,
        manager_ready := True\<rparr>)"

definition reflex_service_register ::
    "'w service_manager \<Rightarrow> 'w \<Rightarrow> 'w reflex_service_desc option \<Rightarrow> unit result \<times> 'w service_manager \<times> 'w" where
  "reflex_service_register m w service =
     (if \<not> manager_ready m then (Inl REFLEX_ERR_INVALID_STATE, m, w)
      else case service of
        None \<Rightarrow> (Inl REFLEX_ERR_INVALID_ARG, m, w)
      | Some svc \<Rightarrow>
          if \<not> length (services m) < REFLEX_SERVICE_MAX then (Inl REFLEX_ERR_NO_MEM, m, w)
          else let m1 = m\<lparr>services := services m @ [svc]\<rparr> in
            (case init svc of
               None \<Rightarrow> (Inr (), m1, w)
             | Some f \<Rightarrow> (case f w of (Inl e, w1) \<Rightarrow> (Inl e, m1, w1) | (Inr _, w1) \<Rightarrow> (Inr (), m1, w1))))"

definition reflex_service_get_count :: "'w service_manager \<Rightarrow> nat" where
  "reflex_service_get_count m = length (services m)"

definition reflex_service_get_by_index :: "'w service_manager \<Rightarrow> nat \<Rightarrow> 'w reflex_service_desc option" where
  "reflex_service_get_by_index m index =
     (if index \<ge> length (services m) then None else Some (services m ! index))"

section \<open>Starting and stopping everything\<close>

text \<open>
  One pass over descriptors in the order given, calling one hook of each; the state is the first
  error so far and the tallies the summary line reports.
\<close>

fun hook_pass :: "('w reflex_service_desc \<Rightarrow> 'w hook option) \<Rightarrow> 'w reflex_service_desc list \<Rightarrow> unit result \<times> nat \<times> nat \<Rightarrow> 'w
    \<Rightarrow> (unit result \<times> nat \<times> nat) \<times> 'w" where
  "hook_pass sel [] acc w = (acc, w)"
| "hook_pass sel (svc # rest) (first_err, good, bad) w =
     (case sel svc of
        None \<Rightarrow> hook_pass sel rest (first_err, good, bad) w
      | Some f \<Rightarrow>
          (case f w of
             (Inr _, w1) \<Rightarrow> hook_pass sel rest (first_err, good + 1, bad) w1
           | (Inl e, w1) \<Rightarrow> hook_pass sel rest (if is_ok first_err then Inl e else first_err, good, bad + 1) w1))"

definition reflex_service_start_all :: "'w service_manager \<Rightarrow> 'w \<Rightarrow> unit result \<times> 'w" where
  "reflex_service_start_all m w =
     (if \<not> manager_ready m then (Inl REFLEX_ERR_INVALID_STATE, w)
      else case hook_pass start (services m) (Inr (), 0, 0) w of ((first_err, started, failed), w1) \<Rightarrow> (first_err, w1))"

definition reflex_service_stop_all :: "'w service_manager \<Rightarrow> 'w \<Rightarrow> unit result \<times> 'w" where
  "reflex_service_stop_all m w =
     (if \<not> manager_ready m then (Inl REFLEX_ERR_INVALID_STATE, w)
      else case hook_pass stop (rev (services m)) (Inr (), 0, 0) w of ((first_err, stopped, failed), w1) \<Rightarrow> (first_err, w1))"

section \<open>The watchdog\<close>

definition WATCHDOG_BACKOFF_INIT_MS :: u32 where "WATCHDOG_BACKOFF_INIT_MS = 1000"
definition WATCHDOG_BACKOFF_MAX_MS :: u32 where "WATCHDOG_BACKOFF_MAX_MS = 30000"

definition next_backoff :: "u32 \<Rightarrow> u32" where
  "next_backoff b =
     (if b = 0 then WATCHDOG_BACKOFF_INIT_MS
      else if b < WATCHDOG_BACKOFF_MAX_MS then b * 2 else b)"

text \<open>The line the watchdog logs when it restarts a service: which, attempt, backoff.\<close>

record restart_line =
  line_index :: nat
  line_attempt :: u32
  line_backoff :: u32

definition watchdog_service ::
    "'w service_manager \<Rightarrow> 'w \<Rightarrow> u64 \<Rightarrow> nat \<Rightarrow> restart_line list \<times> 'w service_manager \<times> 'w" where
  "watchdog_service m w now i =
     (case (sstatus (services m ! i), start (services m ! i)) of
        (Some status_of, Some start_of) \<Rightarrow>
          (case status_of w of (st, w1) \<Rightarrow>
            if st \<noteq> REFLEX_SERVICE_STATUS_FAULTED then
              (if restart_count m ! i > 0 \<and> st = REFLEX_SERVICE_STATUS_STARTED
               then ([], m\<lparr>restart_count := (restart_count m)[i := 0], restart_backoff_ms := (restart_backoff_ms m)[i := 0]\<rparr>, w1)
               else ([], m, w1))
            else if next_restart_us m ! i > now then ([], m, w1)
            else
              let b = next_backoff (restart_backoff_ms m ! i);
                  w2 = (case stop (services m ! i) of None \<Rightarrow> w1 | Some f \<Rightarrow> snd (f w1));
                  w3 = snd (start_of w2)
              in ([\<lparr>line_index = i, line_attempt = restart_count m ! i + 1, line_backoff = b\<rparr>],
                  m\<lparr>restart_backoff_ms := (restart_backoff_ms m)[i := b],
                    restart_count := (restart_count m)[i := restart_count m ! i + 1],
                    next_restart_us := (next_restart_us m)[i := now + ucast b * 1000]\<rparr>, w3))
      | _ \<Rightarrow> ([], m, w))"

fun watchdog_loop :: "'w service_manager \<Rightarrow> 'w \<Rightarrow> u64 \<Rightarrow> nat list \<Rightarrow> restart_line list \<times> 'w service_manager \<times> 'w" where
  "watchdog_loop m w now [] = ([], m, w)"
| "watchdog_loop m w now (i # is) =
     (case watchdog_service m w now i of (lines, m1, w1) \<Rightarrow>
       case watchdog_loop m1 w1 now is of (later, m2, w2) \<Rightarrow> (lines @ later, m2, w2))"

definition reflex_service_watchdog_tick ::
    "'w service_manager \<Rightarrow> 'w \<Rightarrow> u64 \<Rightarrow> restart_line list \<times> 'w service_manager \<times> 'w" where
  "reflex_service_watchdog_tick m w now =
     (if \<not> manager_ready m then ([], m, w)
      else watchdog_loop m w now [0..<length (services m)])"

text \<open>The ticks of a run, at the times given, the rest of the system acting between them.\<close>

fun watchdog_run :: "(nat \<Rightarrow> 'w \<Rightarrow> 'w) \<Rightarrow> 'w service_manager \<Rightarrow> 'w \<Rightarrow> u64 list \<Rightarrow> (u64 \<times> restart_line) list" where
  "watchdog_run env m w [] = []"
| "watchdog_run env m w (now # later) =
     (case reflex_service_watchdog_tick m (env (length later) w) now of
        (lines, m1, w1) \<Rightarrow> map (\<lambda>l. (now, l)) lines @ watchdog_run env m1 w1 later)"

section \<open>Invariants of the watchdog\<close>

definition manager_ok :: "'w service_manager \<Rightarrow> bool" where
  "manager_ok m \<longleftrightarrow> length (services m) \<le> REFLEX_SERVICE_MAX \<and> length (restart_backoff_ms m) = REFLEX_SERVICE_MAX
     \<and> length (restart_count m) = REFLEX_SERVICE_MAX \<and> length (next_restart_us m) = REFLEX_SERVICE_MAX"

text \<open>The backoff that belongs to a number of restarts in a row.\<close>

definition ladder :: "nat \<Rightarrow> nat" where
  "ladder a = (if a = 0 then 0 else 1000 * 2 ^ min (a - 1) 5)"

definition slot_ok :: "nat \<Rightarrow> 'w service_manager \<Rightarrow> nat \<Rightarrow> bool" where
  "slot_ok k m i \<longleftrightarrow> unat (restart_count m ! i) \<le> k
     \<and> unat (restart_backoff_ms m ! i) = ladder (unat (restart_count m ! i))"

text \<open>A watchdog well-formed after at most \<open>k\<close> restarts of any one service.\<close>

definition watchdog_ok :: "nat \<Rightarrow> 'w service_manager \<Rightarrow> bool" where
  "watchdog_ok k m \<longleftrightarrow> manager_ok m \<and> (\<forall>i < REFLEX_SERVICE_MAX. slot_ok k m i)"

lemma ladder_bounds: "ladder a \<le> 32000" "a \<noteq> 0 \<Longrightarrow> 1000 \<le> ladder a"
proof -
  have "(2 :: nat) ^ min (a - 1) 5 \<le> 2 ^ 5" by (rule power_increasing) simp_all
  then show "ladder a \<le> 32000" by (simp add: ladder_def)
qed (simp add: ladder_def)

lemma ladder_next:
  assumes "unat b = ladder a"
  shows "unat (next_backoff b) = ladder (Suc a)"
proof -
  consider "a = 0" | "0 < a" "a < 6" | "6 \<le> a" by linarith
  then show ?thesis
  proof cases
    case 1
    with assms have "b = 0" by (simp add: ladder_def unat_eq_zero)
    with 1 show ?thesis by (simp add: next_backoff_def WATCHDOG_BACKOFF_INIT_MS_def ladder_def)
  next
    case 2
    then have "a = 1 \<or> a = 2 \<or> a = 3 \<or> a = 4 \<or> a = 5" by linarith
    with assms have "(a = 1 \<and> b = 1000) \<or> (a = 2 \<and> b = 2000) \<or> (a = 3 \<and> b = 4000) \<or> (a = 4 \<and> b = 8000) \<or> (a = 5 \<and> b = 16000)"
      by (auto simp: ladder_def word_unat_eq_iff)
    then show ?thesis by (auto simp: next_backoff_def WATCHDOG_BACKOFF_MAX_MS_def ladder_def)
  next
    case 3
    then have "min (a - 1) 5 = 5" "min (Suc a - 1) 5 = (5 :: nat)" by auto
    with 3 assms have "b = 32000" "ladder (Suc a) = 32000" by (simp_all add: ladder_def word_unat_eq_iff)
    then show ?thesis by (simp add: next_backoff_def WATCHDOG_BACKOFF_MAX_MS_def)
  qed
qed

lemma unat_Suc_small: "Suc (unat (x :: u32)) < 2 ^ 32 \<Longrightarrow> unat (x + 1) = Suc (unat x)"
  by (simp add: unat_word_ariths)

lemma slot_ok_mono: "slot_ok k m i \<Longrightarrow> k \<le> k' \<Longrightarrow> slot_ok k' m i"
  by (simp add: slot_ok_def)

text \<open>Nothing but the three counters of the services in \<open>S\<close> changed.\<close>

definition touched :: "nat set \<Rightarrow> 'w service_manager \<Rightarrow> 'w service_manager \<Rightarrow> bool" where
  "touched S m m1 \<longleftrightarrow> manager_ok m1 \<and> services m1 = services m \<and> manager_ready m1 = manager_ready m
     \<and> (\<forall>j. j \<notin> S \<longrightarrow> restart_count m1 ! j = restart_count m ! j \<and> restart_backoff_ms m1 ! j = restart_backoff_ms m ! j
           \<and> next_restart_us m1 ! j = next_restart_us m ! j)"

text \<open>What a logged restart says about the state before and after.\<close>

definition line_ok :: "u64 \<Rightarrow> 'w service_manager \<Rightarrow> 'w service_manager \<Rightarrow> restart_line \<Rightarrow> bool" where
  "line_ok now m m1 l \<longleftrightarrow> line_index l < REFLEX_SERVICE_MAX
     \<and> unat (line_backoff l) = ladder (unat (line_attempt l)) \<and> line_attempt l \<noteq> 0
     \<and> next_restart_us m ! line_index l \<le> now
     \<and> next_restart_us m1 ! line_index l = now + ucast (line_backoff l) * 1000"

lemma touched_refl: "manager_ok m \<Longrightarrow> touched S m m"
  by (simp add: touched_def)

lemma touched_slot: "touched S m m1 \<Longrightarrow> j \<notin> S \<Longrightarrow> slot_ok k m1 j = slot_ok k m j"
  by (simp add: touched_def slot_ok_def)

lemma service_step:
  assumes ok: "manager_ok m" and i: "i < REFLEX_SERVICE_MAX" and slot: "slot_ok k m i" and k: "Suc k < 2 ^ 32"
    and run: "watchdog_service m w now i = (ls, m1, w1)"
  shows "touched {i} m m1 \<and> slot_ok (Suc k) m1 i
    \<and> (ls = [] \<and> next_restart_us m1 ! i = next_restart_us m ! i \<or> (\<exists>l. ls = [l] \<and> line_index l = i \<and> line_ok now m m1 l))"
proof -
  let ?reset = "m\<lparr>restart_count := (restart_count m)[i := 0], restart_backoff_ms := (restart_backoff_ms m)[i := 0]\<rparr>"
  define b where "b = next_backoff (restart_backoff_ms m ! i)"
  let ?l = "\<lparr>line_index = i, line_attempt = restart_count m ! i + 1, line_backoff = b\<rparr>"
  let ?fired = "m\<lparr>restart_backoff_ms := (restart_backoff_ms m)[i := b],
      restart_count := (restart_count m)[i := restart_count m ! i + 1],
      next_restart_us := (next_restart_us m)[i := now + ucast b * 1000]\<rparr>"
  have "(ls = [] \<and> m1 = m) \<or> (ls = [] \<and> m1 = ?reset) \<or> (ls = [?l] \<and> m1 = ?fired \<and> next_restart_us m ! i \<le> now)"
  proof (cases "sstatus (services m ! i)")
    case None
    with run show ?thesis by (simp add: watchdog_service_def)
  next
    case (Some status_of)
    obtain st w2 where st: "status_of w = (st, w2)" by fastforce
    show ?thesis
    proof (cases "start (services m ! i)")
      case None
      with Some run show ?thesis by (simp add: watchdog_service_def)
    next
      case go: (Some start_of)
      show ?thesis
        using run unfolding watchdog_service_def Some go option.case prod.case st Let_def b_def [symmetric] not_less [symmetric]
        by (simp split: if_splits)
    qed
  qed
  then consider "ls = []" "m1 = m" | "ls = []" "m1 = ?reset" | "ls = [?l]" "m1 = ?fired" "next_restart_us m ! i \<le> now"
    by blast
  then show ?thesis
  proof cases
    case 1
    with ok slot show ?thesis by (simp add: touched_refl slot_ok_mono)
  next
    case 2
    have "touched {i} m ?reset" using ok by (simp add: touched_def manager_ok_def)
    moreover have "slot_ok (Suc k) ?reset i" using i ok by (simp add: slot_ok_def manager_ok_def ladder_def)
    ultimately show ?thesis using 2 by simp
  next
    case 3
    have a: "unat (restart_count m ! i + 1) = Suc (unat (restart_count m ! i))"
      using slot k unat_Suc_small [of "restart_count m ! i"] by (simp add: slot_ok_def)
    have ub: "unat b = ladder (Suc (unat (restart_count m ! i)))"
      unfolding b_def by (rule ladder_next) (use slot in \<open>simp add: slot_ok_def\<close>)
    have "touched {i} m ?fired" using ok by (simp add: touched_def manager_ok_def)
    moreover have "slot_ok (Suc k) ?fired i" using i ok a ub slot by (simp add: slot_ok_def manager_ok_def)
    moreover have "line_ok now m ?fired ?l"
      using i ok a ub 3(3) by (auto simp: line_ok_def manager_ok_def)
    ultimately show ?thesis using 3 by simp
  qed
qed

text \<open>What one pass over the services \<open>S\<close> did.\<close>

definition pass_ok :: "nat \<Rightarrow> u64 \<Rightarrow> nat set \<Rightarrow> 'w service_manager \<Rightarrow> restart_line list \<Rightarrow> 'w service_manager \<Rightarrow> bool" where
  "pass_ok k now S m ls m1 \<longleftrightarrow> touched S m m1 \<and> (\<forall>i \<in> S. slot_ok (Suc k) m1 i)
     \<and> distinct (map line_index ls) \<and> (\<forall>l \<in> set ls. line_index l \<in> S \<and> line_ok now m m1 l)
     \<and> (\<forall>i \<in> S. i \<notin> line_index ` set ls \<longrightarrow> next_restart_us m1 ! i = next_restart_us m ! i)"

lemma line_ok_cong:
  assumes "line_ok now m m1 l" "line_index l \<notin> S" "touched S m1 m2"
  shows "line_ok now m m2 l"
  using assms by (simp add: line_ok_def touched_def)

lemma line_ok_cong_left:
  assumes "line_ok now m1 m2 l" "line_index l \<notin> S" "touched S m m1"
  shows "line_ok now m m2 l"
  using assms by (simp add: line_ok_def touched_def)

lemma loop_pass:
  assumes "Suc k < 2 ^ 32"
  shows "\<lbrakk> manager_ok m; distinct is; \<forall>i \<in> set is. i < REFLEX_SERVICE_MAX \<and> slot_ok k m i;
      watchdog_loop m w now is = (ls, m1, w1) \<rbrakk> \<Longrightarrow> pass_ok k now (set is) m ls m1"
proof (induction "is" arbitrary: m w ls m1 w1)
  case Nil
  then show ?case by (simp add: pass_ok_def touched_refl)
next
  case (Cons i "is")
  obtain l1 ma wa where one: "watchdog_service m w now i = (l1, ma, wa)" by (metis prod_cases3)
  obtain l2 mb wb where rest: "watchdog_loop ma wa now is = (l2, mb, wb)" by (metis prod_cases3)
  have r: "ls = l1 @ l2" "m1 = mb" using Cons.prems(4) one rest by simp_all
  have t: "touched {i} m ma" "slot_ok (Suc k) ma i"
    and ls: "l1 = [] \<and> next_restart_us ma ! i = next_restart_us m ! i \<or> (\<exists>l. l1 = [l] \<and> line_index l = i \<and> line_ok now m ma l)"
    using service_step [OF Cons.prems(1) _ _ assms one] Cons.prems(3) by auto
  have ni: "i \<notin> set is" using Cons.prems(2) by simp
  have slots: "\<forall>j \<in> set is. j < REFLEX_SERVICE_MAX \<and> slot_ok k ma j"
  proof
    fix j assume j: "j \<in> set is"
    with ni have "j \<notin> {i}" by auto
    from touched_slot [OF t(1) this, of k] j Cons.prems(3) show "j < REFLEX_SERVICE_MAX \<and> slot_ok k ma j" by simp
  qed
  have "manager_ok ma" using t(1) by (simp add: touched_def)
  from Cons.IH [OF this _ slots rest] Cons.prems(2) have p: "pass_ok k now (set is) ma l2 mb" by simp
  then have tb: "touched (set is) ma mb" by (simp add: pass_ok_def)
  have "touched (set (i # is)) m mb" using t(1) tb by (simp add: touched_def)
  moreover have "slot_ok (Suc k) mb i" using touched_slot [OF tb ni] t(2) by simp
  moreover have "line_index l \<in> set (i # is) \<and> line_ok now m mb l" if l: "l \<in> set (l1 @ l2)" for l
  proof (cases "l \<in> set l2")
    case True
    with p have li: "line_index l \<in> set is" "line_ok now ma mb l" by (auto simp: pass_ok_def)
    with ni line_ok_cong_left [OF li(2) _ t(1)] show ?thesis by auto
  next
    case False
    with l ls have li: "line_index l = i" "line_ok now m ma l" by auto
    with ni line_ok_cong [OF li(2) _ tb] show ?thesis by auto
  qed
  moreover have "distinct (map line_index (l1 @ l2))" using ls p ni by (auto simp: pass_ok_def)
  moreover have "next_restart_us mb ! j = next_restart_us m ! j" if j: "j \<in> set (i # is)" "j \<notin> line_index ` set (l1 @ l2)" for j
  proof (cases "j = i")
    case True
    with j ls have "next_restart_us ma ! i = next_restart_us m ! i" by auto
    with True tb ni show ?thesis by (simp add: touched_def)
  next
    case False
    with j p t(1) show ?thesis by (auto simp: pass_ok_def touched_def)
  qed
  ultimately show ?case using p by (auto simp: pass_ok_def r)
qed

lemma tick_pass:
  assumes ok: "watchdog_ok k m" and k: "Suc k < 2 ^ 32" and run: "reflex_service_watchdog_tick m w now = (ls, m1, w1)"
  shows "watchdog_ok (Suc k) m1 \<and> distinct (map line_index ls) \<and> (\<forall>l \<in> set ls. line_ok now m m1 l)
    \<and> (\<forall>i. i \<notin> line_index ` set ls \<longrightarrow> next_restart_us m1 ! i = next_restart_us m ! i)"
proof (cases "manager_ready m")
  case False
  with run ok show ?thesis by (auto simp: reflex_service_watchdog_tick_def watchdog_ok_def slot_ok_mono)
next
  case True
  have sl: "i < REFLEX_SERVICE_MAX \<Longrightarrow> slot_ok k m i" for i using ok by (simp add: watchdog_ok_def)
  have len: "length (services m) \<le> REFLEX_SERVICE_MAX" "manager_ok m" using ok by (auto simp: watchdog_ok_def manager_ok_def)
  have "pass_ok k now {..<length (services m)} m ls m1"
    using loop_pass [OF k len(2), of "[0..<length (services m)]" w now ls m1 w1] run True sl len(1)
    by (simp add: reflex_service_watchdog_tick_def lessThan_atLeast0)
  then have p: "touched {..<length (services m)} m m1" "\<forall>i < length (services m). slot_ok (Suc k) m1 i"
      "distinct (map line_index ls)" "\<forall>l \<in> set ls. line_ok now m m1 l"
      "\<forall>i < length (services m). i \<notin> line_index ` set ls \<longrightarrow> next_restart_us m1 ! i = next_restart_us m ! i"
    by (auto simp: pass_ok_def)
  have "slot_ok (Suc k) m1 i" if "i < REFLEX_SERVICE_MAX" for i
    using p(2) touched_slot [OF p(1), of i] slot_ok_mono [OF sl [OF that], of "Suc k"] by (cases "i < length (services m)") auto
  moreover have "next_restart_us m1 ! i = next_restart_us m ! i" if "i \<notin> line_index ` set ls" for i
    using p(1,5) that by (cases "i < length (services m)") (auto simp: touched_def)
  ultimately show ?thesis using p by (simp add: watchdog_ok_def touched_def)
qed

lemma due_time:
  assumes "unat b = ladder a" "unat now < 2 ^ 63"
  shows "unat (now + ucast (b :: u32) * 1000 :: u64) = unat now + unat b * 1000"
proof -
  have b: "unat b * 1000 < 2 ^ 26" using ladder_bounds(1) [of a] assms(1) by simp
  have "unat (ucast b * 1000 :: u64) = unat b * 1000"
    using b by (simp add: unat_word_ariths unsigned_ucast_eq take_bit_nat_eq_self)
  with b assms(2) show ?thesis by (simp add: unat_word_ariths)
qed

lemma run_spaced:
  assumes times: "\<forall>t \<in> set ts. unat t < 2 ^ 63"
  shows "\<lbrakk> watchdog_ok k m; k + length ts < 2 ^ 32 - 1 \<rbrakk> \<Longrightarrow>
    (\<forall>(t, l) \<in> set (watchdog_run env m w ts). unat (next_restart_us m ! line_index l) \<le> unat t
        \<and> unat (line_backoff l) = ladder (unat (line_attempt l)) \<and> line_attempt l \<noteq> 0)
    \<and> sorted_wrt (\<lambda>(t, l) (t', l'). line_index l = line_index l' \<longrightarrow> unat t + unat (line_backoff l) * 1000 \<le> unat t')
        (watchdog_run env m w ts)"
  using times
proof (induction ts arbitrary: k m w)
  case (Cons now later)
  obtain ls m1 w1 where tick: "reflex_service_watchdog_tick m (env (length later) w) now = (ls, m1, w1)" by (metis prod_cases3)
  have p: "watchdog_ok (Suc k) m1" "distinct (map line_index ls)" "\<And>l. l \<in> set ls \<Longrightarrow> line_ok now m m1 l"
      "\<And>i. i \<notin> line_index ` set ls \<Longrightarrow> next_restart_us m1 ! i = next_restart_us m ! i"
    using tick_pass [OF Cons.prems(1) _ tick] Cons.prems(2) by auto
  define rest where "rest = watchdog_run env m1 w1 later"
  have IH: "\<And>t l. (t, l) \<in> set rest \<Longrightarrow> unat (next_restart_us m1 ! line_index l) \<le> unat t
        \<and> unat (line_backoff l) = ladder (unat (line_attempt l)) \<and> line_attempt l \<noteq> 0"
      "sorted_wrt (\<lambda>(t, l) (t', l'). line_index l = line_index l' \<longrightarrow> unat t + unat (line_backoff l) * 1000 \<le> unat t') rest"
    using Cons.IH [OF p(1), of w1] Cons.prems(2,3) by (auto simp: rest_def)
  have due: "unat (next_restart_us m1 ! line_index l) = unat now + unat (line_backoff l) * 1000"
      "unat (next_restart_us m ! line_index l) \<le> unat now"
      "unat (line_backoff l) = ladder (unat (line_attempt l))" "line_attempt l \<noteq> 0" if "l \<in> set ls" for l
    using p(3) [OF that] due_time [of "line_backoff l" _ now] Cons.prems(3) by (auto simp: line_ok_def word_le_nat_alt)
  have mono: "unat (next_restart_us m ! i) \<le> unat (next_restart_us m1 ! i)" for i
    using due(1,2) p(4) [of i] by (cases "i \<in> line_index ` set ls") fastforce+
  have run: "watchdog_run env m w (now # later) = map (\<lambda>l. (now, l)) ls @ rest" using tick by (simp add: rest_def)
  have "sorted_wrt (\<lambda>l l'. line_index l \<noteq> line_index l') ls" using p(2) by (simp add: distinct_map sorted_wrt_map distinct_conv_nth sorted_wrt_iff_nth_less)
  then have "sorted_wrt (\<lambda>(t, l) (t', l'). line_index l = line_index l' \<longrightarrow> unat t + unat (line_backoff l) * 1000 \<le> unat t') (map (\<lambda>l. (now, l)) ls)"
    by (simp add: sorted_wrt_map) (erule sorted_wrt_mono_rel [rotated], simp)
  moreover have "unat now + unat (line_backoff l) * 1000 \<le> unat t" if "l \<in> set ls" "(t, l') \<in> set rest" "line_index l = line_index l'" for l t l'
    using due(1) [OF that(1)] IH(1) [OF that(2)] that(3) by simp
  ultimately have "sorted_wrt (\<lambda>(t, l) (t', l'). line_index l = line_index l' \<longrightarrow> unat t + unat (line_backoff l) * 1000 \<le> unat t') (map (\<lambda>l. (now, l)) ls @ rest)"
    using IH(2) by (auto simp: sorted_wrt_append)
  moreover have "unat (next_restart_us m ! line_index l) \<le> unat t \<and> unat (line_backoff l) = ladder (unat (line_attempt l)) \<and> line_attempt l \<noteq> 0"
    if "(t, l) \<in> set (map (\<lambda>l. (now, l)) ls @ rest)" for t l
    using that due [of l] IH(1) [of t l] mono [of "line_index l"] by auto
  ultimately show ?case unfolding run by auto
qed simp

section \<open>Properties\<close>

lemma init_watchdog_ok:
  "watchdog_ok 0 (snd (reflex_service_manager_init m))"
  by (auto simp: reflex_service_manager_init_def watchdog_ok_def manager_ok_def slot_ok_def ladder_def REFLEX_SERVICE_MAX_def nth_replicate)

lemma register_watchdog_ok:
  "watchdog_ok k m \<Longrightarrow> watchdog_ok k (fst (snd (reflex_service_register m w svc)))"
  by (auto simp: reflex_service_register_def watchdog_ok_def manager_ok_def slot_ok_def Let_def split: option.splits sum.splits prod.splits)

text \<open>
  C19: a faulted service is restarted under its announced back-off. In any run of fewer than 2^32 - 1
  ticks, with the clock below 2^63 microseconds, however services change state between and during
  them, two restarts of the same service are at least
  the back-off logged with the first apart. The design (docs/prd-service-watchdog.md) asks for
  1000 ms doubled with every attempt in a row and capped at 30000 ms; the back-off is that up to the
  fifth attempt, and from the sixth on it is 32000 ms, 2000 above the cap: the code compares the
  old value with WATCHDOG_BACKOFF_MAX_MS and then doubles it.
\<close>

theorem watchdog_restarts_spaced:
  assumes "watchdog_ok 0 m" "\<forall>t \<in> set ts. unat t < 2 ^ 63" "length ts < 2 ^ 32 - 1"
    and "p < q" "q < length (watchdog_run env m w ts)"
    and "watchdog_run env m w ts ! p = (t, l)" "watchdog_run env m w ts ! q = (t', l')" "line_index l = line_index l'"
  shows "unat t + unat (line_backoff l) * 1000 \<le> unat t'
    \<and> (unat (line_attempt l) \<le> 5 \<longrightarrow> unat (line_backoff l) = min (1000 * 2 ^ (unat (line_attempt l) - 1)) (unat WATCHDOG_BACKOFF_MAX_MS))
    \<and> (5 < unat (line_attempt l) \<longrightarrow> unat (line_backoff l) = unat WATCHDOG_BACKOFF_MAX_MS + 2000)"
proof -
  note r = run_spaced [OF assms(2,1), where env = env and w = w]
  have "(t, l) \<in> set (watchdog_run env m w ts)" using assms(4-6) by (metis nth_mem less_trans)
  with r assms(3) have "unat (line_backoff l) = ladder (unat (line_attempt l))" "line_attempt l \<noteq> 0" by auto
  moreover from this(2) have "unat (line_attempt l) \<noteq> 0" by (simp add: unat_eq_zero)
  moreover have "unat t + unat (line_backoff l) * 1000 \<le> unat t'"
    using sorted_wrt_nth_less [OF conjunct2 [OF r] assms(4,5)] assms(3,6-8) by simp
  ultimately have "unat t + unat (line_backoff l) * 1000 \<le> unat t'"
    "unat (line_backoff l) = 1000 * 2 ^ min (unat (line_attempt l) - 1) 5" "unat (line_attempt l) \<noteq> 0" by (simp_all add: ladder_def)
  moreover have "1000 * 2 ^ min (k - 1) 5 = min (1000 * 2 ^ (k - 1)) (30000 :: nat)" if "k \<le> 5" "k \<noteq> 0" for k :: nat
  proof -
    have "k = 1 \<or> k = 2 \<or> k = 3 \<or> k = 4 \<or> k = 5" using that by linarith
    then show ?thesis by auto
  qed
  moreover have "1000 * 2 ^ min (k - 1) 5 = (32000 :: nat)" if "5 < k" for k :: nat
  proof -
    have "min (k - 1) 5 = 5" using that by simp
    then show ?thesis by simp
  qed
  ultimately show ?thesis by (simp add: WATCHDOG_BACKOFF_MAX_MS_def)
qed

text \<open>One service that never recovers, ticked every second.\<close>

definition stuck_manager :: "unit service_manager" where
  "stuck_manager = (snd (reflex_service_manager_init service_manager_boot))\<lparr>services :=
     [\<lparr>sname = ''temp'', init = None, start = Some (\<lambda>w. (Inl REFLEX_FAIL, w)), stop = None,
       sstatus = Some (\<lambda>w. (REFLEX_SERVICE_STATUS_FAULTED, w))\<rparr>]\<rparr>"

lemma stuck_ok: "watchdog_ok 0 stuck_manager"
  by (auto simp: stuck_manager_def service_manager_boot_def reflex_service_manager_init_def watchdog_ok_def manager_ok_def
      slot_ok_def ladder_def REFLEX_SERVICE_MAX_def nth_replicate)

lemma replicate_16: "replicate 16 x = [x, x, x, x, x, x, x, x, x, x, x, x, x, x, x, x]"
  by (simp add: numeral_eq_Suc)

lemma stuck_run:
  "watchdog_run (\<lambda>_ w. w) stuck_manager () [0, 500000, 1000000]
     = [(0, \<lparr>line_index = 0, line_attempt = 1, line_backoff = 1000\<rparr>),
        (1000000, \<lparr>line_index = 0, line_attempt = 2, line_backoff = 2000\<rparr>)]"
  by (simp add: stuck_manager_def service_manager_boot_def reflex_service_manager_init_def reflex_service_watchdog_tick_def
      watchdog_service_def Let_def next_backoff_def WATCHDOG_BACKOFF_INIT_MS_def WATCHDOG_BACKOFF_MAX_MS_def REFLEX_SERVICE_MAX_def
      replicate_16)

theorem watchdog_restarts_spaced_witness:
  "unat (0 :: u64) + unat (1000 :: u32) * 1000 \<le> unat (1000000 :: u64) \<and> unat (1000 :: u32) = min 1000 (unat WATCHDOG_BACKOFF_MAX_MS)"
  using watchdog_restarts_spaced [OF stuck_ok, of "[0, 500000, 1000000]" 0 1 "\<lambda>_ w. w" "()"] stuck_run by simp

text \<open>The specification of starting: every hook is called, in order, whatever the others answer.\<close>

fun all_outcomes :: "('w reflex_service_desc \<Rightarrow> 'w hook option) \<Rightarrow> 'w reflex_service_desc list \<Rightarrow> 'w \<Rightarrow> unit result list \<times> 'w" where
  "all_outcomes sel [] w = ([], w)"
| "all_outcomes sel (svc # rest) w =
     (case sel svc of
        None \<Rightarrow> all_outcomes sel rest w
      | Some f \<Rightarrow> (case f w of (r, w1) \<Rightarrow> case all_outcomes sel rest w1 of (rs, w2) \<Rightarrow> (r # rs, w2)))"

definition first_error :: "unit result list \<Rightarrow> unit result" where
  "first_error rs = (case find (\<lambda>r. \<not> is_ok r) rs of None \<Rightarrow> Inr () | Some e \<Rightarrow> e)"

lemma hook_pass_outcomes:
  "hook_pass sel svcs (e, g, b) w =
     (case all_outcomes sel svcs w of (rs, w1) \<Rightarrow>
        ((if is_ok e then first_error rs else e, g + length (filter is_ok rs), b + length (filter (\<lambda>r. \<not> is_ok r) rs)), w1))"
proof (induction sel svcs "(e, g, b)" w arbitrary: e g b rule: hook_pass.induct)
  case (1 sel w)
  then show ?case by (cases e) (simp_all add: first_error_def)
next
  case (2 sel svc rest e g b w)
  then show ?case
    by (cases e) (auto simp: first_error_def split: option.splits prod.splits sum.splits)
qed

lemma all_outcomes_length: "length (fst (all_outcomes sel svcs w)) = length (filter (\<lambda>s. sel s \<noteq> None) svcs)"
proof (induction svcs arbitrary: w)
  case (Cons svc rest)
  then show ?case
  proof (cases "sel svc")
    case (Some f)
    obtain r w1 where f: "f w = (r, w1)" by fastforce
    obtain rs w2 where "all_outcomes sel rest w1 = (rs, w2)" by fastforce
    with Cons [of w1] Some f show ?thesis by simp
  qed simp
qed simp

text \<open>
  one service failing does not silence the rest. Starting all services calls the start
  hook of every service that has one, in registration order, each on the state the previous
  ones left, and answers the first error; stopping does the same with the stop hooks in reverse
  order.
\<close>

theorem start_all_reaches_every_service:
  assumes "manager_ready m"
  shows "let (rs, w') = all_outcomes start (services m) w; (qs, v') = all_outcomes stop (rev (services m)) v in
    reflex_service_start_all m w = (first_error rs, w') \<and> length rs = length (filter (\<lambda>s. start s \<noteq> None) (services m))
    \<and> reflex_service_stop_all m v = (first_error qs, v') \<and> length qs = length (filter (\<lambda>s. stop s \<noteq> None) (services m))"
  using assms all_outcomes_length [of start "services m" w] all_outcomes_length [of stop "rev (services m)" v]
  by (auto simp: reflex_service_start_all_def reflex_service_stop_all_def hook_pass_outcomes rev_filter [symmetric] split: prod.splits)

text \<open>A failing service before a good one; the state counts the calls.\<close>

definition mixed_manager :: "nat service_manager" where
  "mixed_manager = \<lparr>services =
     [\<lparr>sname = ''temp'', init = None, start = Some (\<lambda>w. (Inl REFLEX_ERR_NOT_SUPPORTED, w + 1)), stop = None, sstatus = None\<rparr>,
      \<lparr>sname = ''radio'', init = None, start = Some (\<lambda>w. (Inr (), w + 1)), stop = None, sstatus = None\<rparr>],
     manager_ready = True, restart_backoff_ms = [], restart_count = [], next_restart_us = []\<rparr>"

theorem start_all_reaches_every_service_witness:
  "reflex_service_start_all mixed_manager 0 = (Inl REFLEX_ERR_NOT_SUPPORTED, 2)"
proof -
  have "manager_ready mixed_manager" by (simp add: mixed_manager_def)
  from start_all_reaches_every_service [OF this, of 0 0] show ?thesis
    by (simp add: mixed_manager_def first_error_def)
qed

end
