(* ===== verification/Event_Bus.thy ===== *)
theory Event_Bus imports Fabric begin

text \<open>
  The publish-subscribe bus of core/event_bus.c and core/include/reflex_event.h. Publishing
  copies an event into a queue of ten; a task receives one event at a time and calls the
  handler of every subscriber of its type, in subscription order. The queue is the kernel's
  (\<open>KQueue\<close> behind \<open>reflex_queue_send\<close> and \<open>reflex_queue_recv\<close>).

  A handler and its context pointer are one value \<open>'h\<close>; calling it is an argument of the
  delivery. Handlers do not re-enter the bus.
\<close>

section \<open>State\<close>

datatype reflex_event_type =
    REFLEX_EVENT_BOOT_COMPLETE | REFLEX_EVENT_SERVICE_STARTED | REFLEX_EVENT_SERVICE_STOPPED
  | REFLEX_EVENT_SERVICE_FAILED | REFLEX_EVENT_BUTTON_PRESSED | REFLEX_EVENT_BUTTON_RELEASED
  | REFLEX_EVENT_WIFI_CONNECTED | REFLEX_EVENT_WIFI_DISCONNECTED | REFLEX_EVENT_IP_ACQUIRED
  | REFLEX_EVENT_CUSTOM

record 'h reflex_subscriber =
  sub_type :: reflex_event_type
  handler :: 'h

text \<open>The queued event; the handler's view of an event has the same four fields.\<close>

record reflex_queued_event =
  ev_type :: reflex_event_type
  timestamp_ms :: u32
  ev_data :: "u8 list"
  data_len :: nat

definition REFLEX_EVENT_MAX_SUBSCRIBERS :: nat where "REFLEX_EVENT_MAX_SUBSCRIBERS = 16"
definition REFLEX_EVENT_QUEUE_LEN :: nat where "REFLEX_EVENT_QUEUE_LEN = 10"
definition REFLEX_EVENT_DATA_BYTES :: nat where "REFLEX_EVENT_DATA_BYTES = 32"

record 'h event_bus =
  pool :: "reflex_queued_event reflex_kqueue list"
  subscribers :: "'h reflex_subscriber list"
  event_queue :: "nat option"
  event_bus_ready :: bool

section \<open>Operations\<close>

definition reflex_event_bus_init ::
    "reflex_queued_event list option \<Rightarrow> nat \<Rightarrow> 'h event_bus \<Rightarrow> unit result \<times> 'h event_bus" where
  "reflex_event_bus_init malloc event_size b =
     (let (h, qs) = reflex_kqueue_create malloc (pool b) REFLEX_EVENT_QUEUE_LEN event_size;
          b1 = b\<lparr>subscribers := [], event_queue := h, pool := qs\<rparr>
      in if h = None then (Inl REFLEX_ERR_NO_MEM, b1) else (Inr (), b1\<lparr>event_bus_ready := True\<rparr>))"

definition reflex_event_subscribe ::
    "'h event_bus \<Rightarrow> reflex_event_type \<Rightarrow> 'h option \<Rightarrow> unit result \<times> 'h event_bus" where
  "reflex_event_subscribe b ty h =
     (if \<not> event_bus_ready b then (Inl REFLEX_ERR_INVALID_STATE, b)
      else case h of
        None \<Rightarrow> (Inl REFLEX_ERR_INVALID_ARG, b)
      | Some f \<Rightarrow>
          if \<not> length (subscribers b) < REFLEX_EVENT_MAX_SUBSCRIBERS then (Inl REFLEX_ERR_NO_MEM, b)
          else (Inr (), b\<lparr>subscribers := subscribers b @ [\<lparr>sub_type = ty, handler = f\<rparr>]\<rparr>))"

text \<open>
  The queued copy: the initialiser zeroes the buffer, and the caller's bytes overwrite its
  start, at most 32 of them.
\<close>

definition queued_event :: "reflex_event_type \<Rightarrow> u8 list option \<Rightarrow> nat \<Rightarrow> nat \<Rightarrow> reflex_queued_event" where
  "queued_event ty data len now_us =
     (let n = (if len > REFLEX_EVENT_DATA_BYTES then REFLEX_EVENT_DATA_BYTES else len);
          zero = replicate REFLEX_EVENT_DATA_BYTES 0
      in \<lparr>ev_type = ty, timestamp_ms = word_of_nat (now_us div 1000),
          ev_data = (case data of Some bytes \<Rightarrow> if len > 0 then take n bytes @ drop n zero else zero | None \<Rightarrow> zero),
          data_len = n\<rparr>)"

definition reflex_event_publish ::
    "'h event_bus \<Rightarrow> reflex_event_type \<Rightarrow> u8 list option \<Rightarrow> nat \<Rightarrow> nat \<Rightarrow> unit result \<times> 'h event_bus" where
  "reflex_event_publish b ty data len now_us =
     (if \<not> event_bus_ready b then (Inl REFLEX_ERR_INVALID_STATE, b)
      else case reflex_queue_send (pool b) (event_queue b) (queued_event ty data len now_us) of
             (Inl e, qs) \<Rightarrow> (Inl REFLEX_ERR_TIMEOUT, b\<lparr>pool := qs\<rparr>)
           | (Inr _, qs) \<Rightarrow> (Inr (), b\<lparr>pool := qs\<rparr>))"

text \<open>The delivery loop over the subscribers.\<close>

fun deliver_loop :: "('h \<Rightarrow> reflex_queued_event \<Rightarrow> 'w \<Rightarrow> 'w) \<Rightarrow> reflex_queued_event \<Rightarrow> 'h reflex_subscriber list \<Rightarrow> 'w \<Rightarrow> 'w" where
  "deliver_loop call ev [] w = w"
| "deliver_loop call ev (s # ss) w =
     deliver_loop call ev ss (if sub_type s = ev_type ev then call (handler s) ev w else w)"

text \<open>One pass of the event task; with nothing queued it would go on waiting.\<close>

definition reflex_event_task_pass :: "('h \<Rightarrow> reflex_queued_event \<Rightarrow> 'w \<Rightarrow> 'w) \<Rightarrow> 'h event_bus \<Rightarrow> 'w \<Rightarrow> 'h event_bus \<times> 'w" where
  "reflex_event_task_pass call b w =
     (case reflex_queue_recv (pool b) (event_queue b) of
        (Inl e, qs) \<Rightarrow> (b\<lparr>pool := qs\<rparr>, w)
      | (Inr q_ev, qs) \<Rightarrow> (b\<lparr>pool := qs\<rparr>, deliver_loop call q_ev (subscribers b) w))"

section \<open>Invariant and abstraction\<close>

definition bus_ok :: "'h event_bus \<Rightarrow> bool" where
  "bus_ok b \<longleftrightarrow> event_bus_ready b \<and> length (subscribers b) \<le> REFLEX_EVENT_MAX_SUBSCRIBERS
     \<and> (\<exists>i. event_queue b = Some i \<and> i < length (pool b) \<and> queue_ok (pool b ! i)
           \<and> qlength (pool b ! i) = REFLEX_EVENT_QUEUE_LEN)"

definition pending :: "'h event_bus \<Rightarrow> reflex_queued_event list" where
  "pending b = contents (pool b ! the (event_queue b))"

definition deliveries :: "'h event_bus \<Rightarrow> reflex_queued_event \<Rightarrow> ('h \<times> reflex_queued_event) list" where
  "deliveries b ev = map (\<lambda>s. (handler s, ev)) (filter (\<lambda>s. sub_type s = ev_type ev) (subscribers b))"

lemma bus_init_ok:
  assumes "length mem = REFLEX_EVENT_QUEUE_LEN" "reflex_event_bus_init (Some mem) sz b = (Inr (), b1)"
  shows "bus_ok b1" "pending b1 = []" "subscribers b1 = []"
proof -
  obtain h qs where c: "reflex_kqueue_create (Some mem) (pool b) REFLEX_EVENT_QUEUE_LEN sz = (h, qs)" by fastforce
  with assms(2) obtain i where i: "h = Some i" and b1: "b1 = b\<lparr>subscribers := [], event_queue := Some i, pool := qs, event_bus_ready := True\<rparr>"
    by (auto simp: reflex_event_bus_init_def Let_def split: if_splits)
  have len: "REFLEX_EVENT_QUEUE_LEN \<le> KQ_UINT32_MAX" by (simp add: REFLEX_EVENT_QUEUE_LEN_def KQ_UINT32_MAX_def)
  from create_ok [OF c [unfolded i] _ len] assms(1)
  show "bus_ok b1" "pending b1 = []" "subscribers b1 = []" by (auto simp: bus_ok_def pending_def b1)
qed

lemma subscribe_ok: "bus_ok b \<Longrightarrow> bus_ok (snd (reflex_event_subscribe b ty h)) \<and> pending (snd (reflex_event_subscribe b ty h)) = pending b"
  by (auto simp: reflex_event_subscribe_def bus_ok_def pending_def split: option.splits)

lemma publish_step:
  assumes ok: "bus_ok b"
  shows "let ev = queued_event ty data len now_us; (r, b1) = reflex_event_publish b ty data len now_us in
    bus_ok b1 \<and> subscribers b1 = subscribers b
    \<and> (r = Inr () \<and> pending b1 = pending b @ [ev] \<or> r = Inl REFLEX_ERR_TIMEOUT \<and> pending b1 = pending b \<and> length (pending b) = 10)"
proof -
  define ev where "ev = queued_event ty data len now_us"
  obtain i where i: "event_queue b = Some i" "i < length (pool b)" "queue_ok (pool b ! i)" "qlength (pool b ! i) = REFLEX_EVENT_QUEUE_LEN"
    and r: "event_bus_ready b" using ok by (auto simp: bus_ok_def)
  have p: "pending b = contents (pool b ! i)" by (simp add: pending_def i)
  show ?thesis
  proof (cases "length (pending b) < REFLEX_EVENT_QUEUE_LEN")
    case True
    then obtain k where "reflex_kqueue_try_send (Some (pool b ! i)) (Some ev) = (True, Some k)" "queue_ok k"
      "contents k = pending b @ [ev]" "qlength k = REFLEX_EVENT_QUEUE_LEN"
      using send_ok [OF i(3), of ev] i(4) p by auto
    with i r ok show ?thesis
      by (simp add: reflex_event_publish_def reflex_queue_send_def ev_def Let_def bus_ok_def pending_def)
  next
    case False
    have "length (pending b) = count (pool b ! i)" using contents_length [OF i(3)] p by simp
    with False queue_ok_count [OF i(3)] i(4) have full: "length (pending b) = REFLEX_EVENT_QUEUE_LEN" by simp
    then have "reflex_kqueue_try_send (Some (pool b ! i)) (Some ev) = (False, Some (pool b ! i))"
      using send_full [OF i(3)] i(4) p by simp
    with i r ok full show ?thesis
      by (simp add: reflex_event_publish_def reflex_queue_send_def ev_def Let_def REFLEX_EVENT_QUEUE_LEN_def)
  qed
qed

text \<open>A world that records every handler call.\<close>

definition record_call :: "'h \<Rightarrow> reflex_queued_event \<Rightarrow> ('h \<times> reflex_queued_event) list \<Rightarrow> ('h \<times> reflex_queued_event) list" where
  "record_call h ev tr = tr @ [(h, ev)]"

lemma deliver_loop_trace:
  "deliver_loop record_call ev ss tr = tr @ map (\<lambda>s. (handler s, ev)) (filter (\<lambda>s. sub_type s = ev_type ev) ss)"
  by (induction ss arbitrary: tr) (auto simp: record_call_def)

lemma task_pass_step:
  assumes ok: "bus_ok b"
  shows "let (b1, tr1) = reflex_event_task_pass record_call b tr in bus_ok b1 \<and> subscribers b1 = subscribers b
    \<and> (case pending b of [] \<Rightarrow> pending b1 = [] \<and> tr1 = tr
       | ev # evs \<Rightarrow> pending b1 = evs \<and> tr1 = tr @ deliveries b ev)"
proof -
  obtain i where i: "event_queue b = Some i" "i < length (pool b)" "queue_ok (pool b ! i)" "qlength (pool b ! i) = REFLEX_EVENT_QUEUE_LEN"
    using ok by (auto simp: bus_ok_def)
  have p: "pending b = contents (pool b ! i)" by (simp add: pending_def i)
  show ?thesis
  proof (cases "pending b")
    case Nil
    then have "reflex_kqueue_try_recv (Some (pool b ! i)) True = (False, None, Some (pool b ! i))"
      using recv_empty [OF i(3)] p by simp
    with i ok Nil show ?thesis by (simp add: reflex_event_task_pass_def reflex_queue_recv_def)
  next
    case (Cons ev evs)
    then obtain k where "reflex_kqueue_try_recv (Some (pool b ! i)) True = (True, Some ev, Some k)" "queue_ok k"
      "contents k = evs" "qlength k = REFLEX_EVENT_QUEUE_LEN"
      using recv_ok [OF i(3), of ev evs True] i(4) p by auto
    with i ok Cons show ?thesis
      by (simp add: reflex_event_task_pass_def reflex_queue_recv_def deliver_loop_trace deliveries_def bus_ok_def pending_def)
  qed
qed

section \<open>Delivery\<close>

datatype bus_op = Publish reflex_event_type "u8 list option" nat nat | Dispatch

text \<open>A run of the bus: the events whose publication answered OK, the final bus and the trace.\<close>

fun bus_run :: "'h event_bus \<Rightarrow> ('h \<times> reflex_queued_event) list \<Rightarrow> bus_op list
    \<Rightarrow> reflex_queued_event list \<times> 'h event_bus \<times> ('h \<times> reflex_queued_event) list" where
  "bus_run b tr [] = ([], b, tr)"
| "bus_run b tr (Publish ty data len now_us # ops) =
     (case reflex_event_publish b ty data len now_us of (r, b1) \<Rightarrow>
       case bus_run b1 tr ops of (acc, b2, tr2) \<Rightarrow>
         (if is_ok r then queued_event ty data len now_us # acc else acc, b2, tr2))"
| "bus_run b tr (Dispatch # ops) =
     (case reflex_event_task_pass record_call b tr of (b1, tr1) \<Rightarrow> bus_run b1 tr1 ops)"

lemma bus_run_spec:
  assumes "bus_ok b" "bus_run b tr ops = (acc, b1, tr1)"
  shows "bus_ok b1 \<and> subscribers b1 = subscribers b
    \<and> (\<exists>dn. pending b @ acc = dn @ pending b1 \<and> tr1 = tr @ concat (map (deliveries b) dn))"
  using assms
proof (induction b tr ops arbitrary: acc b1 tr1 rule: bus_run.induct)
  case (1 b tr)
  then show ?case by auto
next
  case (2 b tr ty data len now_us ops)
  obtain r b2 where p: "reflex_event_publish b ty data len now_us = (r, b2)" by fastforce
  obtain acc2 b3 tr3 where run: "bus_run b2 tr ops = (acc2, b3, tr3)" by (metis prod_cases3)
  from publish_step [OF 2(2), of ty data len now_us] p
  have s: "bus_ok b2" "subscribers b2 = subscribers b"
    "is_ok r \<and> pending b2 = pending b @ [queued_event ty data len now_us] \<or> \<not> is_ok r \<and> pending b2 = pending b"
    by (auto simp: Let_def)
  have eq: "acc = (if is_ok r then queued_event ty data len now_us # acc2 else acc2)" "b1 = b3" "tr1 = tr3"
    using 2(3) p run by auto
  from 2(1) [OF p [symmetric] s(1) run] have IH: "bus_ok b3" "subscribers b3 = subscribers b2"
    "\<exists>dn. pending b2 @ acc2 = dn @ pending b3 \<and> tr3 = tr @ concat (map (deliveries b2) dn)" by auto
  have d: "deliveries b2 = deliveries b" by (rule ext) (simp add: deliveries_def s(2))
  from s(3) have "pending b @ acc = pending b2 @ acc2" by (auto simp: eq)
  with IH s(2) d show ?case by (auto simp: eq)
next
  case (3 b tr ops)
  obtain b2 tr2 where p: "reflex_event_task_pass record_call b tr = (b2, tr2)" by fastforce
  from task_pass_step [OF 3(2), of tr] p
  have s: "bus_ok b2" "subscribers b2 = subscribers b"
    "case pending b of [] \<Rightarrow> pending b2 = [] \<and> tr2 = tr | ev # evs \<Rightarrow> pending b2 = evs \<and> tr2 = tr @ deliveries b ev"
    by auto
  have run: "bus_run b2 tr2 ops = (acc, b1, tr1)" using 3(3) p by simp
  have d: "deliveries b2 = deliveries b" by (rule ext) (simp add: deliveries_def s(2))
  from 3(1) [OF p [symmetric] s(1) run] d obtain dn where IH: "bus_ok b1" "subscribers b1 = subscribers b2"
    "pending b2 @ acc = dn @ pending b1" "tr1 = tr2 @ concat (map (deliveries b) dn)" by auto
  show ?case
  proof (cases "pending b")
    case Nil
    with s IH show ?thesis by auto
  next
    case (Cons ev evs)
    with s IH have "pending b @ acc = (ev # dn) @ pending b1" "tr1 = tr @ concat (map (deliveries b) (ev # dn))" by auto
    with s(2) IH(1,2) show ?thesis by metis
  qed
qed

text \<open>
  C20: every accepted event is delivered once, in order, to exactly its subscribers. From a
  ready bus with an empty queue, after any interleaving of publications and passes of the
  event task, the accepted events are those already dispatched followed by those still queued,
  and the handler calls made are, event by event in order of publication, one for each
  subscriber of its type in order of subscription.
\<close>

theorem event_bus_delivery:
  assumes "bus_ok b" "pending b = []" "bus_run b [] ops = (accepted, b', calls)"
  shows "\<exists>dn. accepted = dn @ pending b' \<and> calls = concat (map (deliveries b) dn) \<and> bus_ok b'"
  using bus_run_spec [OF assms(1,3)] assms(2) by auto

definition button_bus :: "nat event_bus" where
  "button_bus = \<lparr>pool = [\<lparr>storage = Some (replicate 10 (queued_event REFLEX_EVENT_CUSTOM None 0 0)), qlength = 10, item_size = 48,
       count = 0, head = 0, tail = 0, in_use = True\<rparr>],
     subscribers = [\<lparr>sub_type = REFLEX_EVENT_BUTTON_PRESSED, handler = 7\<rparr>], event_queue = Some 0, event_bus_ready = True\<rparr>"

theorem event_bus_delivery_witness:
  "\<exists>accepted b' calls. bus_run button_bus [] [Publish REFLEX_EVENT_BUTTON_PRESSED None 0 5000, Dispatch] = (accepted, b', calls)
    \<and> (\<exists>dn. accepted = dn @ pending b' \<and> calls = concat (map (deliveries button_bus) dn) \<and> bus_ok b')"
proof -
  obtain accepted b' calls where r: "bus_run button_bus [] [Publish REFLEX_EVENT_BUTTON_PRESSED None 0 5000, Dispatch] = (accepted, b', calls)"
    by (metis prod_cases3)
  have "bus_ok button_bus" "pending button_bus = []"
    by (simp_all add: button_bus_def bus_ok_def pending_def contents_def queue_ok_def KQ_UINT32_MAX_def
        REFLEX_EVENT_QUEUE_LEN_def REFLEX_EVENT_MAX_SUBSCRIBERS_def)
  from event_bus_delivery [OF this r] r show ?thesis by blast
qed

end
