(* ===== verification/Shell.thy ===== *)
theory Shell imports Reflex_Prelude "HOL-Library.Char_ord" begin

text \<open>
  The pure parts of the shell: shell/shell_parse.c (operator input to typed values),
  shell/shell_policy.c (the role a command requires) and shell/shell_outcome.c (the ternary
  outcome of a command). A C string is a list of characters without NUL; an out parameter
  that is untouched on failure is an option.
\<close>

section \<open>Integers\<close>

text \<open>
  \<open>strtol(s, &end, 10)\<close> of the C library on a target whose \<open>long\<close> has 32 bits: the value, what
  follows the number (None when no digit was found and \<open>end\<close> is left at the start), and whether
  the value was out of range.
\<close>

definition LONG_MIN :: int where "LONG_MIN = -2147483648"
definition LONG_MAX :: int where "LONG_MAX = 2147483647"

definition isspace :: "char \<Rightarrow> bool" where
  "isspace c \<longleftrightarrow> (of_char c :: nat) = 32 \<or> 9 \<le> (of_char c :: nat) \<and> (of_char c :: nat) \<le> 13"

definition isdigit :: "char \<Rightarrow> bool" where
  "isdigit c \<longleftrightarrow> 48 \<le> (of_char c :: nat) \<and> (of_char c :: nat) \<le> 57"

definition digits_value :: "string \<Rightarrow> int" where
  "digits_value ds = foldl (\<lambda>n c. n * 10 + (of_char c - 48)) 0 ds"

fun split_sign :: "string \<Rightarrow> bool \<times> string" where
  "split_sign (c # r) = (if c = CHR ''-'' then (True, r) else if c = CHR ''+'' then (False, r) else (False, c # r))"
| "split_sign [] = (False, [])"

definition strtol10 :: "string \<Rightarrow> int \<times> string option \<times> bool" where
  "strtol10 s =
     (let (neg, t) = split_sign (dropWhile isspace s);
          ds = takeWhile isdigit t;
          v = (if neg then - digits_value ds else digits_value ds)
      in if ds = [] then (0, None, False)
         else if v > LONG_MAX then (LONG_MAX, Some (dropWhile isdigit t), True)
         else if v < LONG_MIN then (LONG_MIN, Some (dropWhile isdigit t), True)
         else (v, Some (dropWhile isdigit t), False))"

definition shell_parse_int :: "string \<Rightarrow> int \<Rightarrow> int \<Rightarrow> int option" where
  "shell_parse_int s lo hi =
     (case strtol10 s of (v, end_at, erange) \<Rightarrow>
        if end_at \<noteq> Some [] then None
        else if erange then None
        else if v < lo \<or> v > hi then None
        else Some v)"

definition shell_parse_trit :: "string \<Rightarrow> int option" where
  "shell_parse_trit s = shell_parse_int s (-1) 1"

section \<open>Hexadecimal\<close>

definition hex_nibble :: "char \<Rightarrow> int" where
  "hex_nibble c =
     (let n = of_char c :: int in
      if 48 \<le> n \<and> n \<le> 57 then n - 48
      else if 97 \<le> n \<and> n \<le> 102 then n - 97 + 10
      else if 65 \<le> n \<and> n \<le> 70 then n - 65 + 10
      else -1)"

fun hex_bytes :: "string \<Rightarrow> u8 list" where
  "hex_bytes (a # b # r) = word_of_int (push_bit 4 (hex_nibble a) OR hex_nibble b) # hex_bytes r"
| "hex_bytes _ = []"

definition shell_parse_hex :: "string \<Rightarrow> nat \<Rightarrow> u8 list option" where
  "shell_parse_hex s out_cap =
     (let slen = length s; blen = slen div 2 in
      if slen < 2 \<or> odd slen then None
      else if blen > out_cap then None
      else if \<exists>c \<in> set s. hex_nibble c < 0 then None
      else Some (hex_bytes s))"

section \<open>Roles\<close>

abbreviation (input) "ROLE_OBSERVER \<equiv> (0 :: nat)"
abbreviation (input) "ROLE_AGENT \<equiv> (1 :: nat)"
abbreviation (input) "ROLE_OPERATOR \<equiv> (2 :: nat)"
abbreviation (input) "ROLE_ADMIN \<equiv> (3 :: nat)"

definition s_policy :: "(string \<times> nat) list" where
  "s_policy =
    [(''help'', ROLE_OBSERVER), (''status'', ROLE_OBSERVER), (''reboot'', ROLE_ADMIN),
     (''sleep'', ROLE_ADMIN), (''goonies'', ROLE_OBSERVER), (''atlas'', ROLE_OBSERVER),
     (''led'', ROLE_OBSERVER), (''bonsai'', ROLE_OPERATOR), (''kernel'', ROLE_OBSERVER),
     (''loom'', ROLE_OBSERVER), (''tapestry'', ROLE_OPERATOR), (''services'', ROLE_OBSERVER),
     (''config'', ROLE_OBSERVER), (''temp'', ROLE_OBSERVER), (''snapshot'', ROLE_OBSERVER),
     (''purpose'', ROLE_OBSERVER), (''heartbeat'', ROLE_OBSERVER), (''mesh'', ROLE_OBSERVER),
     (''aura'', ROLE_ADMIN), (''vm'', ROLE_OBSERVER), (''telemetry'', ROLE_OBSERVER),
     (''vitals'', ROLE_OBSERVER), (''auth'', ROLE_OBSERVER)]"

definition shell_policy_count :: nat where
  "shell_policy_count = length s_policy"

definition shell_policy_name :: "nat \<Rightarrow> string option" where
  "shell_policy_name i = (if i < shell_policy_count then Some (fst (s_policy ! i)) else None)"

fun policy_lookup :: "(string \<times> nat) list \<Rightarrow> string \<Rightarrow> nat option" where
  "policy_lookup [] cmd = None"
| "policy_lookup ((name, role) # rest) cmd = (if cmd = name then Some role else policy_lookup rest cmd)"

definition shell_command_known :: "string option \<Rightarrow> bool" where
  "shell_command_known cmd = (case cmd of None \<Rightarrow> False | Some c \<Rightarrow> policy_lookup s_policy c \<noteq> None)"

definition base_min_role :: "string \<Rightarrow> nat" where
  "base_min_role cmd = (case policy_lookup s_policy cmd of None \<Rightarrow> ROLE_ADMIN | Some r \<Rightarrow> r)"

definition subcmd_min_role :: "string \<Rightarrow> nat \<Rightarrow> string list \<Rightarrow> nat" where
  "subcmd_min_role cmd argc argv =
     (if argc < 2 then ROLE_OBSERVER
      else let sub = argv ! 1 in
        if cmd = ''mesh'' then
          (if sub = ''emit'' \<or> sub = ''ping'' \<or> sub = ''posture'' \<or> sub = ''query'' then ROLE_OPERATOR
           else if sub = ''peer'' \<and> argc \<ge> 3 \<and> argv ! 2 = ''add'' then ROLE_ADMIN else ROLE_OBSERVER)
        else if cmd = ''vm'' then
          (if sub = ''run'' \<or> sub = ''stop'' then ROLE_OPERATOR
           else if sub = ''loadhex'' then ROLE_ADMIN else ROLE_OBSERVER)
        else if cmd = ''snapshot'' then
          (if sub = ''save'' \<or> sub = ''load'' then ROLE_AGENT
           else if sub = ''clear'' then ROLE_ADMIN else ROLE_OBSERVER)
        else if cmd = ''purpose'' then (if sub = ''set'' \<or> sub = ''clear'' then ROLE_AGENT else ROLE_OBSERVER)
        else if cmd = ''config'' then (if sub = ''set'' then ROLE_ADMIN else ROLE_OBSERVER)
        else if cmd = ''vitals'' then (if sub = ''override'' \<or> sub = ''clear'' then ROLE_ADMIN else ROLE_OBSERVER)
        else if cmd = ''telemetry'' then (if sub = ''on'' \<or> sub = ''off'' then ROLE_OPERATOR else ROLE_OBSERVER)
        else if cmd = ''led'' then (if sub = ''on'' \<or> sub = ''off'' then ROLE_OPERATOR else ROLE_OBSERVER)
        else if cmd = ''loom'' then (if sub = ''load'' then ROLE_ADMIN else ROLE_OBSERVER)
        else if cmd = ''kernel'' then
          (if sub = ''wdt'' then ROLE_ADMIN
           else if sub = ''tasks'' then ROLE_OBSERVER
           else if sub = ''selftest'' then ROLE_ADMIN else ROLE_OBSERVER)
        else if cmd = ''goonies'' then (if sub = ''read'' then ROLE_OPERATOR else ROLE_OBSERVER)
        else ROLE_OBSERVER)"

definition shell_required_role :: "string option \<Rightarrow> nat \<Rightarrow> string list \<Rightarrow> nat" where
  "shell_required_role cmd argc argv =
     (case cmd of
        None \<Rightarrow> ROLE_ADMIN
      | Some c \<Rightarrow>
          let required = base_min_role c; sub_required = subcmd_min_role c argc argv
          in if sub_required > required then sub_required else required)"

section \<open>Outcomes\<close>

datatype shell_reason =
    SHELL_OK | SHELL_USAGE | SHELL_NONE | SHELL_DENIED | SHELL_INVALID | SHELL_GUARD
  | SHELL_NOTFOUND | SHELL_FAILED | SHELL_OVERFLOW | SHELL_OTHER int

fun outcome_entry :: "shell_reason \<Rightarrow> (string \<times> int) option" where
  "outcome_entry SHELL_OK = Some (''ok'', 1)"
| "outcome_entry SHELL_USAGE = Some (''usage'', 0)"
| "outcome_entry SHELL_NONE = Some (''none'', 0)"
| "outcome_entry SHELL_DENIED = Some (''denied'', -1)"
| "outcome_entry SHELL_INVALID = Some (''invalid'', -1)"
| "outcome_entry SHELL_GUARD = Some (''guard'', -1)"
| "outcome_entry SHELL_NOTFOUND = Some (''notfound'', -1)"
| "outcome_entry SHELL_FAILED = Some (''failed'', -1)"
| "outcome_entry SHELL_OVERFLOW = Some (''overflow'', -1)"
| "outcome_entry (SHELL_OTHER _) = None"

definition shell_outcome_trit :: "shell_reason \<Rightarrow> int" where
  "shell_outcome_trit r = (case outcome_entry r of Some (_, t) \<Rightarrow> t | None \<Rightarrow> -1)"

definition shell_outcome_name :: "shell_reason \<Rightarrow> string" where
  "shell_outcome_name r = (case outcome_entry r of Some (n, _) \<Rightarrow> n | None \<Rightarrow> ''unknown'')"

text \<open>The text written (before its NUL) and the length returned, in a buffer of \<open>cap\<close> bytes.\<close>

definition shell_outcome_format :: "nat \<Rightarrow> shell_reason \<Rightarrow> string option \<times> nat" where
  "shell_outcome_format cap r =
     (if cap = 0 then (None, 0)
      else let t = shell_outcome_trit r;
               trit_txt = (if t > 0 then ''+1'' else if t < 0 then ''-1'' else ''0'');
               txt = ''#R:'' @ trit_txt @ '','' @ shell_outcome_name r; n = length txt
           in (Some (take (cap - 1) txt), if n \<ge> cap then cap - 1 else n))"

section \<open>The integer parser\<close>

text \<open>The texts of a number: white space, at most one sign, and decimal digits to the end.\<close>

definition number_text :: "string \<Rightarrow> int \<Rightarrow> bool" where
  "number_text s v \<longleftrightarrow> (\<exists>ws sg ds. s = ws @ sg @ ds \<and> list_all isspace ws \<and> sg \<in> {'''', ''+'', ''-''}
     \<and> ds \<noteq> [] \<and> list_all isdigit ds \<and> v = (if sg = ''-'' then - digits_value ds else digits_value ds))"

lemma not_isspace: "isdigit c \<Longrightarrow> \<not> isspace c" "\<not> isspace (CHR ''-'')" "\<not> isspace (CHR ''+'')"
  by (auto simp: isspace_def isdigit_def)

lemma not_isdigit: "\<not> isdigit (CHR ''-'')" "\<not> isdigit (CHR ''+'')"
  by (auto simp: isdigit_def)

lemma dropWhile_exact: "list_all P xs \<Longrightarrow> (ys \<noteq> [] \<Longrightarrow> \<not> P (hd ys)) \<Longrightarrow> dropWhile P (xs @ ys) = ys"
  by (induction xs) (auto simp: dropWhile_eq_self_iff)

lemma split_sign_parts: "split_sign t = (neg, u) \<Longrightarrow> \<exists>sg \<in> {'''', ''+'', ''-''}. t = sg @ u \<and> (neg \<longleftrightarrow> sg = ''-'')"
  by (cases t) (auto split: if_splits)

lemma number_text_strtol:
  "number_text s v \<longleftrightarrow> (\<exists>neg t. split_sign (dropWhile isspace s) = (neg, t) \<and> t \<noteq> [] \<and> list_all isdigit t
     \<and> v = (if neg then - digits_value t else digits_value t))" (is "_ \<longleftrightarrow> ?parsed")
proof
  assume "number_text s v"
  then obtain ws sg ds where p: "s = ws @ sg @ ds" "list_all isspace ws" "sg \<in> {'''', ''+'', ''-''}" "ds \<noteq> []"
      "list_all isdigit ds" "v = (if sg = ''-'' then - digits_value ds else digits_value ds)"
    unfolding number_text_def by blast
  from p(4,5) obtain d r where d: "ds = d # r" "isdigit d" by (cases ds) auto
  have "dropWhile isspace s = sg @ ds"
    unfolding p(1) by (rule dropWhile_exact [OF p(2)]) (use p(3) d not_isspace in auto)
  moreover have "split_sign (sg @ ds) = (sg = ''-'', ds)" using p(3) d not_isdigit by auto
  ultimately show ?parsed using p(4-6) by auto
next
  assume ?parsed
  then obtain neg t where t: "split_sign (dropWhile isspace s) = (neg, t)" "t \<noteq> []" "list_all isdigit t"
      "v = (if neg then - digits_value t else digits_value t)" by blast
  from split_sign_parts [OF t(1)] obtain sg where sg: "sg \<in> {'''', ''+'', ''-''}" "dropWhile isspace s = sg @ t" "neg \<longleftrightarrow> sg = ''-''"
    by blast
  have "s = takeWhile isspace s @ sg @ t" using takeWhile_dropWhile_id [of isspace s] sg(2) by simp
  moreover have "list_all isspace (takeWhile isspace s)" by (auto simp: list_all_iff dest: set_takeWhileD)
  ultimately show "number_text s v" unfolding number_text_def using sg t by blast
qed

text \<open>
  the parser accepts exactly the bounded integers. It answers \<open>v\<close> when the text is white
  space, an optional sign and at least one digit up to its very end, denoting \<open>v\<close>, and \<open>v\<close> lies
  within the caller's bounds and within \<open>long\<close>; every other text is rejected, empty input,
  trailing garbage and overflow among them.
\<close>

theorem parse_int_exact:
  "shell_parse_int s lo hi = Some v \<longleftrightarrow> number_text s v \<and> lo \<le> v \<and> v \<le> hi \<and> LONG_MIN \<le> v \<and> v \<le> LONG_MAX"
proof -
  obtain neg t where t: "split_sign (dropWhile isspace s) = (neg, t)" by fastforce
  have all: "dropWhile isdigit t = [] \<longleftrightarrow> list_all isdigit t" by (simp add: list_all_iff)
  show ?thesis
  proof (cases "t \<noteq> [] \<and> list_all isdigit t")
    case True
    then have tw: "takeWhile isdigit t = t" "dropWhile isdigit t = []" by (simp_all add: list_all_iff takeWhile_eq_all_conv)
    define u where "u = (if neg then - digits_value t else digits_value t)"
    have st: "strtol10 s = (if u > LONG_MAX then (LONG_MAX, Some [], True) else if u < LONG_MIN then (LONG_MIN, Some [], True)
        else (u, Some [], False))"
      unfolding strtol10_def t prod.case Let_def tw u_def using True by simp
    have "number_text s v \<longleftrightarrow> v = u" unfolding number_text_strtol using t True by (auto simp: u_def)
    with st show ?thesis by (auto simp: shell_parse_int_def)
  next
    case False
    then have "\<not> number_text s v" unfolding number_text_strtol using t by auto
    moreover have "shell_parse_int s lo hi = None"
    proof (cases "takeWhile isdigit t = []")
      case False
      then have "t \<noteq> []" by auto
      with \<open>\<not> (t \<noteq> [] \<and> list_all isdigit t)\<close> all have "dropWhile isdigit t \<noteq> []" by simp
      with False show ?thesis by (simp add: shell_parse_int_def strtol10_def t Let_def)
    qed (simp add: shell_parse_int_def strtol10_def t Let_def)
    ultimately show ?thesis by simp
  qed
qed

section \<open>The hexadecimal parser\<close>

definition hex_digit :: "nat \<Rightarrow> char" where
  "hex_digit n = char_of (if n < 10 then 48 + n else 87 + n)"

fun hexdump :: "u8 list \<Rightarrow> string" where
  "hexdump [] = []"
| "hexdump (b # bs) = hex_digit (unat b div 16) # hex_digit (unat b mod 16) # hexdump bs"

text \<open>Upper-case hexadecimal letters to lower case.\<close>

definition hex_lower :: "char \<Rightarrow> char" where
  "hex_lower c = (let n = of_char c :: nat in if 65 \<le> n \<and> n \<le> 70 then char_of (n + 32) else c)"

lemma of_char_int: "(of_char c :: int) = int (of_char c)"
  by (cases c) (simp add: of_char_def)

lemma hex_nibble_nat:
  "hex_nibble c = (let n = of_char c :: nat in
      if 48 \<le> n \<and> n \<le> 57 then int n - 48 else if 97 \<le> n \<and> n \<le> 102 then int n - 87
      else if 65 \<le> n \<and> n \<le> 70 then int n - 55 else -1)"
  by (simp add: hex_nibble_def of_char_int Let_def)

lemma hex_nibble_bounds: "hex_nibble c < 16" "hex_nibble c \<ge> -1"
  by (simp_all add: hex_nibble_nat Let_def)

lemma hex_digit_nibble: "n < 16 \<Longrightarrow> hex_nibble (hex_digit n) = int n"
  by (auto simp: hex_nibble_nat hex_digit_def Let_def)

lemma hex_lower_nibble: "hex_nibble c \<ge> 0 \<Longrightarrow> hex_lower c = hex_digit (nat (hex_nibble c))"
proof -
  assume h: "hex_nibble c \<ge> 0"
  define n where "n = (of_char c :: nat)"
  have c: "c = char_of n" by (simp add: n_def)
  from h consider "48 \<le> n" "n \<le> 57" | "97 \<le> n" "n \<le> 102" | "65 \<le> n" "n \<le> 70"
    by (auto simp: hex_nibble_nat n_def [symmetric] Let_def split: if_splits)
  then show ?thesis
  proof cases
    case 1
    then have "hex_nibble c = int (n - 48)" by (simp add: hex_nibble_nat n_def [symmetric])
    moreover from 1 have "n - 48 < 10" by linarith
    ultimately show ?thesis using 1 by (simp add: hex_digit_def hex_lower_def n_def [symmetric] c [symmetric] del: of_nat_diff)
  next
    case 2
    then have "hex_nibble c = int (n - 87)" by (simp add: hex_nibble_nat n_def [symmetric])
    moreover from 2 have "\<not> n - 87 < 10" by linarith
    ultimately show ?thesis using 2 by (simp add: hex_digit_def hex_lower_def n_def [symmetric] c [symmetric] del: of_nat_diff)
  next
    case 3
    then have "hex_nibble c = int (n - 55)" "87 + (n - 55) = n + 32" by (simp_all add: hex_nibble_nat n_def [symmetric])
    moreover from 3 have "\<not> n - 55 < 10" by linarith
    ultimately show ?thesis using 3 by (simp add: hex_digit_def hex_lower_def n_def [symmetric] del: of_nat_diff)
  qed
qed

lemma hex_lower_digit: "n < 16 \<Longrightarrow> hex_lower c = hex_digit n \<Longrightarrow> hex_nibble c = int n"
proof -
  assume n: "n < 16" and eq: "hex_lower c = hex_digit n"
  have "(of_char (hex_lower c) :: nat) = (if n < 10 then 48 + n else 87 + n)"
    unfolding eq using n by (auto simp: hex_digit_def)
  with n show ?thesis
    by (auto simp: hex_lower_def hex_nibble_nat Let_def split: if_splits)
qed

lemma nibbles_byte:
  assumes "0 \<le> a" "a < 16" "0 \<le> b" "b < 16"
  shows "push_bit 4 a OR b = a * 16 + (b :: int)"
proof -
  have "push_bit 4 a OR b = push_bit 4 a + b"
  proof (rule disjunctive_add [symmetric])
    fix n
    have "b = take_bit 4 b" using assms by (simp add: take_bit_int_eq_self)
    then have "bit b n \<Longrightarrow> n < 4" by (metis bit_take_bit_iff)
    then show "\<not> bit (push_bit 4 a) n \<or> \<not> bit b n" by (auto simp: bit_push_bit_iff)
  qed
  then show ?thesis by (simp add: push_bit_eq_mult)
qed

lemma hex_byte:
  assumes "hex_nibble a \<ge> 0" "hex_nibble b \<ge> 0"
  shows "unat (word_of_int (push_bit 4 (hex_nibble a) OR hex_nibble b) :: u8) = nat (hex_nibble a) * 16 + nat (hex_nibble b)"
proof -
  have "push_bit 4 (hex_nibble a) OR hex_nibble b = int (nat (hex_nibble a) * 16 + nat (hex_nibble b))"
    using nibbles_byte [of "hex_nibble a" "hex_nibble b"] assms hex_nibble_bounds [of a] hex_nibble_bounds [of b] by simp
  moreover have "nat (hex_nibble a) * 16 + nat (hex_nibble b) < 256"
    using hex_nibble_bounds [of a] hex_nibble_bounds [of b] by simp
  ultimately show ?thesis by (simp del: of_nat_add of_nat_mult add: unat_of_nat take_bit_nat_eq_self)
qed

lemma div_mod_16: "r < 16 \<Longrightarrow> u = q * 16 + r \<longleftrightarrow> u div 16 = q \<and> u mod 16 = (r :: nat)"
  using div_mult_mod_eq [of u 16] by (metis div_mult_self3 div_less mod_mult_self3 mod_less add_0_right zero_neq_numeral)

lemma hexdump_empty: "[] = hexdump bs \<longleftrightarrow> bs = []"
  by (cases bs) auto

lemma hex_bytes_iff:
  "even (length s) \<Longrightarrow> (\<forall>c \<in> set s. \<not> hex_nibble c < 0) \<and> hex_bytes s = bs \<longleftrightarrow> map hex_lower s = hexdump bs"
proof (induction s arbitrary: bs rule: hex_bytes.induct)
  case (1 a b r)
  show ?case
  proof (cases bs)
    case (Cons x xs)
    have x: "x = word_of_int (push_bit 4 (hex_nibble a) OR hex_nibble b) \<longleftrightarrow>
        unat x div 16 = nat (hex_nibble a) \<and> unat x mod 16 = nat (hex_nibble b)" if "hex_nibble a \<ge> 0" "hex_nibble b \<ge> 0"
    proof -
      have "nat (hex_nibble b) < 16" using hex_nibble_bounds [of b] by simp
      then have "unat x = nat (hex_nibble a) * 16 + nat (hex_nibble b) \<longleftrightarrow> unat x div 16 = nat (hex_nibble a) \<and> unat x mod 16 = nat (hex_nibble b)"
        by (rule div_mod_16)
      then show ?thesis using hex_byte [OF that] by (simp add: word_unat_eq_iff)
    qed
    have d: "hex_lower a = hex_digit (unat x div 16) \<longleftrightarrow> hex_nibble a = int (unat x div 16)"
      "hex_lower b = hex_digit (unat x mod 16) \<longleftrightarrow> hex_nibble b = int (unat x mod 16)"
    proof -
      have "unat x < 256" using unsigned_less [of x, where 'a = nat] by simp
      then have "unat x div 16 < 16" by simp
      then show "hex_lower a = hex_digit (unat x div 16) \<longleftrightarrow> hex_nibble a = int (unat x div 16)"
        using hex_lower_digit [of "unat x div 16" a] hex_lower_nibble [of a] by auto
      show "hex_lower b = hex_digit (unat x mod 16) \<longleftrightarrow> hex_nibble b = int (unat x mod 16)"
        using hex_lower_digit [of "unat x mod 16" b] hex_lower_nibble [of b] by auto
    qed
    have "(\<forall>c \<in> set (a # b # r). \<not> hex_nibble c < 0) \<and> hex_bytes (a # b # r) = bs \<longleftrightarrow>
        \<not> hex_nibble a < 0 \<and> \<not> hex_nibble b < 0 \<and> x = word_of_int (push_bit 4 (hex_nibble a) OR hex_nibble b)
        \<and> map hex_lower r = hexdump xs"
      using 1 Cons by auto
    also have "\<dots> \<longleftrightarrow> map hex_lower (a # b # r) = hexdump bs"
    proof -
      define p q where "p = unat x div 16" and "q = unat x mod 16"
      have "map hex_lower (a # b # r) = hexdump bs \<longleftrightarrow>
          hex_nibble a = int p \<and> hex_nibble b = int q \<and> map hex_lower r = hexdump xs"
        using d Cons by (simp add: p_def q_def)
      moreover have "\<not> hex_nibble a < 0 \<and> \<not> hex_nibble b < 0 \<and> x = word_of_int (push_bit 4 (hex_nibble a) OR hex_nibble b)
          \<longleftrightarrow> hex_nibble a = int p \<and> hex_nibble b = int q"
        using x [folded p_def q_def] by (cases "hex_nibble a \<ge> 0 \<and> hex_nibble b \<ge> 0") auto
      ultimately show ?thesis by metis
    qed
    finally show ?thesis .
  qed auto
qed (auto simp: hexdump_empty)

text \<open>
  Hexadecimal input is decoded exactly or not at all. The parser answers \<open>bs\<close> for precisely
  the texts that are, up to letter case, the hexadecimal dump of \<open>bs\<close>, when \<open>bs\<close> is not empty
  and fits the buffer; a text with any other character, odd length or too many bytes leaves
  the buffer untouched.
\<close>

theorem parse_hex_exact:
  "shell_parse_hex s out_cap = Some bs \<longleftrightarrow> bs \<noteq> [] \<and> length bs \<le> out_cap \<and> map hex_lower s = hexdump bs"
proof -
  have len: "length (hexdump bs) = 2 * length bs" for bs by (induction bs) auto
  have "even (length s) \<and> length bs = length s div 2" if "map hex_lower s = hexdump bs"
    using arg_cong [OF that, of length] by (simp add: len)
  moreover have "shell_parse_hex s out_cap = Some bs \<longleftrightarrow> 2 \<le> length s \<and> even (length s) \<and> length s div 2 \<le> out_cap
      \<and> (\<forall>c \<in> set s. \<not> hex_nibble c < 0) \<and> hex_bytes s = bs"
    by (auto simp: shell_parse_hex_def Let_def)
  ultimately show ?thesis using hex_bytes_iff [of s bs] by (cases bs) auto
qed

section \<open>The role gate\<close>

text \<open>The policy as one table: the sub-commands that need more than their command's base role.\<close>

definition escalations :: "((string \<times> string) \<times> nat) list" where
  "escalations =
    [((''mesh'', ''emit''), 2), ((''mesh'', ''ping''), 2), ((''mesh'', ''posture''), 2), ((''mesh'', ''query''), 2),
     ((''vm'', ''run''), 2), ((''vm'', ''stop''), 2), ((''vm'', ''loadhex''), 3),
     ((''snapshot'', ''save''), 1), ((''snapshot'', ''load''), 1), ((''snapshot'', ''clear''), 3),
     ((''purpose'', ''set''), 1), ((''purpose'', ''clear''), 1), ((''config'', ''set''), 3),
     ((''vitals'', ''override''), 3), ((''vitals'', ''clear''), 3),
     ((''telemetry'', ''on''), 2), ((''telemetry'', ''off''), 2), ((''led'', ''on''), 2), ((''led'', ''off''), 2),
     ((''loom'', ''load''), 3), ((''kernel'', ''wdt''), 3), ((''kernel'', ''selftest''), 3), ((''goonies'', ''read''), 2)]"

definition role_spec :: "string \<Rightarrow> string list \<Rightarrow> nat" where
  "role_spec cmd args =
     max (case map_of s_policy cmd of None \<Rightarrow> ROLE_ADMIN | Some r \<Rightarrow> r)
         (case args of
            [] \<Rightarrow> ROLE_OBSERVER
          | sub # more \<Rightarrow>
              if cmd = ''mesh'' \<and> sub = ''peer'' \<and> (\<exists>rest. more = ''add'' # rest) then ROLE_ADMIN
              else (case map_of escalations (cmd, sub) of None \<Rightarrow> ROLE_OBSERVER | Some r \<Rightarrow> r))"

lemma policy_lookup_map_of: "policy_lookup t cmd = map_of t cmd"
  by (induction t cmd rule: policy_lookup.induct) auto

lemma subcmd_none: "subcmd_min_role cmd 1 [cmd] = ROLE_OBSERVER"
  by (simp add: subcmd_min_role_def)

lemma subcmd_escalation:
  assumes "\<not> (cmd = ''mesh'' \<and> sub = ''peer'' \<and> more \<noteq> [] \<and> more ! 0 = ''add'')"
  shows "subcmd_min_role cmd (length more + 2) (cmd # sub # more) =
    (case map_of escalations (cmd, sub) of None \<Rightarrow> ROLE_OBSERVER | Some r \<Rightarrow> r)"
proof -
  have mesh: "Suc 0 \<le> length more \<and> more ! 0 = ''add'' \<longleftrightarrow> more \<noteq> [] \<and> more ! 0 = ''add''"
    by (cases more) auto
  show ?thesis
  proof (cases "cmd \<in> {''mesh'', ''vm'', ''snapshot'', ''purpose'', ''config'', ''vitals'', ''telemetry'', ''led'', ''loom'', ''kernel'', ''goonies''}")
    case True
    then have "cmd = ''mesh'' \<or> cmd = ''vm'' \<or> cmd = ''snapshot'' \<or> cmd = ''purpose'' \<or> cmd = ''config'' \<or> cmd = ''vitals''
        \<or> cmd = ''telemetry'' \<or> cmd = ''led'' \<or> cmd = ''loom'' \<or> cmd = ''kernel'' \<or> cmd = ''goonies''"
      by (simp only: insert_iff empty_iff simp_thms)
    then show ?thesis
      using assms mesh by (elim disjE) (simp_all add: subcmd_min_role_def escalations_def)
  next
    case False
    then have "map_of escalations (cmd, sub) = None"
      unfolding map_of_eq_None_iff by (auto simp: escalations_def)
    with False show ?thesis by (simp add: subcmd_min_role_def)
  qed
qed

text \<open>
  the gate is the table, and it fails closed. For a command line of any length the required
  role is the larger of the command's base role and the role of its sub-command in the table of
  escalations; a command the policy does not list requires admin.
\<close>

theorem required_role_table:
  "shell_required_role (Some cmd) (length args + 1) (cmd # args) = role_spec cmd args"
proof -
  have base: "base_min_role cmd = (case map_of s_policy cmd of None \<Rightarrow> ROLE_ADMIN | Some r \<Rightarrow> r)"
    by (simp add: base_min_role_def policy_lookup_map_of)
  have "subcmd_min_role cmd (length args + 1) (cmd # args) =
      (case args of [] \<Rightarrow> ROLE_OBSERVER | sub # more \<Rightarrow>
          if cmd = ''mesh'' \<and> sub = ''peer'' \<and> (\<exists>rest. more = ''add'' # rest) then ROLE_ADMIN
          else (case map_of escalations (cmd, sub) of None \<Rightarrow> ROLE_OBSERVER | Some r \<Rightarrow> r))"
  proof (cases args)
    case Nil
    then show ?thesis using subcmd_none by simp
  next
    case (Cons sub more)
    show ?thesis
    proof (cases "cmd = ''mesh'' \<and> sub = ''peer'' \<and> (\<exists>rest. more = ''add'' # rest)")
      case True
      with Cons show ?thesis by (auto simp: subcmd_min_role_def Let_def)
    next
      case False
      then have "\<not> (cmd = ''mesh'' \<and> sub = ''peer'' \<and> more \<noteq> [] \<and> more ! 0 = ''add'')" by (cases more) auto
      from subcmd_escalation [OF this] have "subcmd_min_role cmd (length args + 1) (cmd # args)
          = (case map_of escalations (cmd, sub) of None \<Rightarrow> ROLE_OBSERVER | Some r \<Rightarrow> r)"
        using Cons by (simp add: add.commute)
      with Cons False show ?thesis by (simp only: list.case if_False)
    qed
  qed
  then show ?thesis by (simp add: shell_required_role_def role_spec_def base Let_def max_def)
qed

lemma unlisted_needs_admin: "\<not> shell_command_known (Some cmd) \<Longrightarrow> role_spec cmd args = ROLE_ADMIN"
proof -
  assume "\<not> shell_command_known (Some cmd)"
  then have none: "map_of s_policy cmd = None" by (simp add: shell_command_known_def policy_lookup_map_of)
  have "r \<le> ROLE_ADMIN" if "map_of escalations k = Some r" for k r
    using map_of_SomeD [OF that] by (auto simp: escalations_def)
  then have "(case map_of escalations k of None \<Rightarrow> ROLE_OBSERVER | Some r \<Rightarrow> r) \<le> ROLE_ADMIN" for k
    by (cases "map_of escalations k") auto
  with none show ?thesis by (auto simp: role_spec_def max_def intro!: le_antisym split: list.splits)
qed

section \<open>The result marker\<close>

text \<open>
  The marker tells the truth and is unambiguous. Whatever the buffer, the text written is
  as long as the length returned and fits with its NUL; with sixteen bytes or more, two known
  reasons have different markers, and the marker starts with the success trit exactly for
  \<open>SHELL_OK\<close>, an unknown reason included.
\<close>

theorem outcome_marker_unambiguous:
  "(cap > 0 \<longrightarrow> (\<exists>txt. shell_outcome_format cap r = (Some txt, length txt) \<and> length txt < cap))
   \<and> (cap \<ge> 16 \<longrightarrow> (fst (shell_outcome_format cap r) = Some txt \<longrightarrow> (take 5 txt = ''#R:+1'' \<longleftrightarrow> r = SHELL_OK))
       \<and> (outcome_entry r \<noteq> None \<and> outcome_entry q \<noteq> None \<longrightarrow> (shell_outcome_format cap r = shell_outcome_format cap q \<longleftrightarrow> r = q)))"
proof (intro conjI impI)
  assume "cap > 0"
  then show "\<exists>txt. shell_outcome_format cap r = (Some txt, length txt) \<and> length txt < cap"
    by (auto simp: shell_outcome_format_def Let_def)
next
  assume c: "cap \<ge> 16" and "fst (shell_outcome_format cap r) = Some txt"
  then have "txt = take (cap - 1) (''#R:'' @ (if shell_outcome_trit r > 0 then ''+1'' else if shell_outcome_trit r < 0 then ''-1'' else ''0'')
      @ '','' @ shell_outcome_name r)"
    by (auto simp: shell_outcome_format_def Let_def)
  moreover have "take 5 (take (cap - 1) xs) = take 5 xs" for xs :: string
  proof -
    have "min 5 (cap - 1) = 5" using c by linarith
    then show ?thesis by (simp only: take_take)
  qed
  ultimately show "take 5 txt = ''#R:+1'' \<longleftrightarrow> r = SHELL_OK"
    by (cases r) (auto simp: shell_outcome_trit_def shell_outcome_name_def)
next
  assume c: "cap \<ge> 16" and known: "outcome_entry r \<noteq> None \<and> outcome_entry q \<noteq> None"
  have marker: "fst (shell_outcome_format cap r) = Some (''#R:'' @ (if shell_outcome_trit r > 0 then ''+1'' else if shell_outcome_trit r < 0 then ''-1'' else ''0'') @ '','' @ shell_outcome_name r)"
    if "outcome_entry r \<noteq> None" for r
    using that c by (cases r) (auto simp: shell_outcome_format_def Let_def shell_outcome_trit_def shell_outcome_name_def)
  show "shell_outcome_format cap r = shell_outcome_format cap q \<longleftrightarrow> r = q"
  proof
    assume "shell_outcome_format cap r = shell_outcome_format cap q"
    then have "fst (shell_outcome_format cap r) = fst (shell_outcome_format cap q)" by simp
    then show "r = q"
      unfolding marker [OF conjunct1 [OF known]] marker [OF conjunct2 [OF known]] using known
      by (cases r; cases q) (simp_all add: shell_outcome_trit_def shell_outcome_name_def)
  qed simp
qed

theorem outcome_marker_unambiguous_witness:
  "shell_outcome_format 16 SHELL_OK \<noteq> shell_outcome_format 16 SHELL_DENIED
   \<and> (\<exists>txt. shell_outcome_format 16 SHELL_OK = (Some txt, length txt) \<and> length txt < 16)"
  using outcome_marker_unambiguous [of 16 SHELL_OK "[]" SHELL_DENIED] by simp

end
