(* ===== verification/Policy.thy ===== *)
theory Policy imports Reflex_Prelude begin

text \<open>
  The substrate's pure decisions: components/goose/goose_policy.c and goose_policy.h. A C
  \<open>int\<close> is an \<open>int\<close> (none of the functions computes with it beyond a negation of a
  non-negative value); the counters of the mesh window are 32-bit words and wrap.
\<close>

abbreviation (input) "GOOSE_POLICY_TYPE_HARDWARE_IN \<equiv> (1 :: int)"
abbreviation (input) "GOOSE_POLICY_TYPE_HARDWARE_OUT \<equiv> (2 :: int)"
abbreviation (input) "GOOSE_POLICY_TYPE_SYSTEM_ONLY \<equiv> (4 :: int)"
abbreviation (input) "GOOSE_POLICY_TYPE_PINNED \<equiv> (5 :: int)"
abbreviation (input) "GOOSE_POLICY_TYPE_PURPOSE \<equiv> (9 :: int)"
abbreviation (input) "GOOSE_POLICY_NS_SHADOW \<equiv> (1 :: int)"
abbreviation (input) "GOOSE_POLICY_NS_PEER \<equiv> (-1 :: int)"
abbreviation (input) "GOOSE_POLICY_ENGAGED \<equiv> (1 :: int)"
abbreviation (input) "GOOSE_POLICY_LATENT \<equiv> (0 :: int)"
abbreviation (input) "GOOSE_POLICY_WITHHELD \<equiv> (-1 :: int)"
abbreviation (input) "GOOSE_POLICY_COUPLING_SOFTWARE \<equiv> (1 :: nat)"

section \<open>Decisions\<close>

definition goose_policy_cell_evictable :: "int \<Rightarrow> int \<Rightarrow> bool" where
  "goose_policy_cell_evictable cell_type namespace_trit =
     (if namespace_trit = GOOSE_POLICY_NS_SHADOW \<or> namespace_trit = GOOSE_POLICY_NS_PEER then True
      else if cell_type = GOOSE_POLICY_TYPE_PINNED \<or> cell_type = GOOSE_POLICY_TYPE_SYSTEM_ONLY
              \<or> cell_type = GOOSE_POLICY_TYPE_PURPOSE then False
      else cell_type \<noteq> GOOSE_POLICY_TYPE_HARDWARE_IN \<and> cell_type \<noteq> GOOSE_POLICY_TYPE_HARDWARE_OUT)"

definition goose_policy_disposition :: "bool \<Rightarrow> bool \<Rightarrow> bool \<Rightarrow> bool \<Rightarrow> bool \<Rightarrow> int" where
  "goose_policy_disposition purpose_active has_domain_route in_any_holon in_active_holon pained =
     (if purpose_active \<and> in_any_holon \<and> \<not> in_active_holon then GOOSE_POLICY_WITHHELD
      else if pained \<and> \<not> has_domain_route then GOOSE_POLICY_WITHHELD
      else if purpose_active \<and> has_domain_route then GOOSE_POLICY_ENGAGED
      else GOOSE_POLICY_LATENT)"

definition goose_policy_aggregate :: "int \<Rightarrow> int \<Rightarrow> int" where
  "goose_policy_aggregate engaged_count withheld_count =
     (if engaged_count > 0 then GOOSE_POLICY_ENGAGED
      else if withheld_count > 0 then GOOSE_POLICY_WITHHELD
      else GOOSE_POLICY_LATENT)"

record goose_mesh_window =
  idle_ticks :: u32
  window_arcs :: u32
  window_ticks :: u32
  window_last :: u32

definition goose_policy_mesh_state :: "goose_mesh_window \<Rightarrow> u32 \<Rightarrow> u32 \<Rightarrow> u32 \<Rightarrow> int \<times> goose_mesh_window" where
  "goose_policy_mesh_state w delta isolated_ticks0 sparse_threshold =
     (let isolated = (if isolated_ticks0 < 2 then 2 else isolated_ticks0);
          w1 = (if delta = 0 then w\<lparr>idle_ticks := idle_ticks w + 1\<rparr> else w\<lparr>idle_ticks := 0\<rparr>);
          w2 = w1\<lparr>window_arcs := window_arcs w1 + delta, window_ticks := window_ticks w1 + 1\<rparr>;
          w3 = (if window_ticks w2 \<ge> isolated
                then w2\<lparr>window_last := window_arcs w2, window_arcs := 0, window_ticks := 0\<rparr> else w2)
      in (if idle_ticks w3 \<ge> isolated then GOOSE_POLICY_WITHHELD
          else if window_arcs w3 + window_last w3 \<ge> sparse_threshold then GOOSE_POLICY_ENGAGED
          else GOOSE_POLICY_LATENT, w3))"

definition goose_policy_snap_entry_count :: "nat \<Rightarrow> nat \<Rightarrow> u16" where
  "goose_policy_snap_entry_count route_count max_routes =
     word_of_nat (if route_count < max_routes then route_count else max_routes)"

text \<open>\<open>mac\<close> is None for a null pointer, and otherwise the six bytes of the address.\<close>

definition goose_policy_replay_slot :: "u32 \<Rightarrow> u8 list option \<Rightarrow> u32 \<Rightarrow> u32" where
  "goose_policy_replay_slot nonce mac slot_count =
     (case mac of
        None \<Rightarrow> 0
      | Some m \<Rightarrow>
          if slot_count = 0 then 0
          else let h0 = foldl (\<lambda>h i. (h XOR ucast (m ! i)) * 16777619) 2166136261 [0..<6];
                   h1 = (h0 XOR nonce) * 0x9E3779B1;
                   h2 = h1 XOR drop_bit 16 h1
               in h2 mod slot_count)"

definition goose_policy_loom_route_acceptable :: "int \<Rightarrow> nat \<Rightarrow> bool" where
  "goose_policy_loom_route_acceptable orientation coupling =
     (if orientation < -1 \<or> orientation > 1 then False else coupling = GOOSE_POLICY_COUPLING_SOFTWARE)"

definition goose_policy_clamp_learned_orientation :: "int \<Rightarrow> int" where
  "goose_policy_clamp_learned_orientation v = (if v < -1 \<or> v > 1 then 0 else v)"

definition goose_policy_clamp_hebbian_counter :: "int \<Rightarrow> int \<Rightarrow> int" where
  "goose_policy_clamp_hebbian_counter v counter_max =
     (if counter_max < 0 then 0
      else if v > counter_max then counter_max
      else if v < - counter_max then - counter_max
      else v)"

fun some_byte_differs :: "u8 list \<Rightarrow> u8 \<Rightarrow> bool" where
  "some_byte_differs [] k = False"
| "some_byte_differs (b # bs) k = (if b \<noteq> k then True else some_byte_differs bs k)"

definition goose_policy_key_material_plausible :: "u8 list option \<Rightarrow> bool" where
  "goose_policy_key_material_plausible key =
     (case key of
        None \<Rightarrow> False
      | Some [] \<Rightarrow> False
      | Some (k # ks) \<Rightarrow> some_byte_differs ks k)"

section \<open>What the decisions guarantee\<close>

lemma slot_in_cache: "slot_count \<noteq> 0 \<Longrightarrow> goose_policy_replay_slot nonce mac slot_count < slot_count"
  by (auto simp: goose_policy_replay_slot_def Let_def word_gt_0 intro: word_mod_less_divisor split: option.splits)

lemma clamp_in_range:
  "0 \<le> m \<Longrightarrow> - m \<le> goose_policy_clamp_hebbian_counter v m \<and> goose_policy_clamp_hebbian_counter v m \<le> m"
  "goose_policy_clamp_learned_orientation v \<in> {-1, 0, 1}"
  by (auto simp: goose_policy_clamp_hebbian_counter_def goose_policy_clamp_learned_orientation_def)

lemma clamp_keeps_valid:
  "- m \<le> v \<Longrightarrow> v \<le> m \<Longrightarrow> goose_policy_clamp_hebbian_counter v m = v"
  "v \<in> {-1, 0, 1} \<Longrightarrow> goose_policy_clamp_learned_orientation v = v"
  by (auto simp: goose_policy_clamp_hebbian_counter_def goose_policy_clamp_learned_orientation_def)

lemma some_byte_differs_iff: "some_byte_differs bs k \<longleftrightarrow> (\<exists>b \<in> set bs. b \<noteq> k)"
  by (induction bs) auto

lemma key_plausible_iff: "goose_policy_key_material_plausible (Some ks) \<longleftrightarrow> \<not> (\<exists>k. ks = replicate (length ks) k)"
proof (cases ks)
  case (Cons k r)
  have "(\<exists>j. k # r = replicate (length (k # r)) j) \<longleftrightarrow> (\<forall>b \<in> set r. b = k)"
    by (auto simp: replicate_length_same dest: in_set_replicate [THEN iffD1] intro!: exI [of _ k])
      (metis in_set_replicate)
  with Cons show ?thesis by (auto simp: goose_policy_key_material_plausible_def some_byte_differs_iff)
qed (simp add: goose_policy_key_material_plausible_def)

section \<open>Mesh health over a history\<close>

definition mesh_window_zero :: goose_mesh_window where
  "mesh_window_zero = \<lparr>idle_ticks = 0, window_arcs = 0, window_ticks = 0, window_last = 0\<rparr>"

definition mesh_after :: "u32 \<Rightarrow> u32 \<Rightarrow> u32 list \<Rightarrow> goose_mesh_window" where
  "mesh_after n thr ds = foldl (\<lambda>w d. snd (goose_policy_mesh_state w d n thr)) mesh_window_zero ds"

definition arcs_of :: "u32 list \<Rightarrow> nat" where
  "arcs_of ds = sum_list (map unat ds)"

text \<open>Where the window in progress starts in a history of length \<open>l\<close>.\<close>

definition window_start :: "nat \<Rightarrow> nat \<Rightarrow> nat" where
  "window_start n l = (l div n) * n"

text \<open>The scans since the last arc.\<close>

definition silence :: "u32 list \<Rightarrow> nat" where
  "silence ds = length (takeWhile (\<lambda>d. d = 0) (rev ds))"

definition window_inv :: "nat \<Rightarrow> u32 list \<Rightarrow> goose_mesh_window \<Rightarrow> bool" where
  "window_inv n ds w \<longleftrightarrow> unat (idle_ticks w) = silence ds \<and> unat (window_ticks w) = length ds mod n
     \<and> unat (window_arcs w) = arcs_of (drop (window_start n (length ds)) ds)
     \<and> unat (window_last w) = arcs_of (drop (window_start n (length ds) - n) (take (window_start n (length ds)) ds))"

lemma arcs_of_append [simp]: "arcs_of (xs @ ys) = arcs_of xs + arcs_of ys"
  by (simp add: arcs_of_def)

lemma arcs_of_take_drop: "arcs_of (take k ds) + arcs_of (drop k ds) = arcs_of ds"
  by (simp flip: arcs_of_append)

lemma arcs_of_drop_le: "arcs_of (drop k ds) \<le> arcs_of ds"
  using arcs_of_take_drop [of k ds] by simp

lemma silence_le: "silence ds \<le> length ds"
  by (metis length_rev length_takeWhile_le silence_def)

lemma silence_snoc: "silence (ds @ [d]) = (if d = 0 then silence ds + 1 else 0)"
  by (simp add: silence_def)

lemma start_le: "0 < n \<Longrightarrow> window_start n l \<le> l"
  by (simp add: window_start_def)

lemma start_Suc:
  assumes "0 < n"
  shows "window_start n (Suc l) = (if Suc (l mod n) = n then Suc l else window_start n l)"
proof (cases "Suc (l mod n) = n")
  case True
  then have "Suc l mod n = 0" by (simp add: mod_Suc)
  then have "Suc l div n * n = Suc l" using div_mult_mod_eq [of "Suc l" n] by simp
  with True show ?thesis by (simp add: window_start_def)
next
  case False
  then have "Suc l div n = l div n" using assms by (simp add: div_Suc mod_Suc)
  with False show ?thesis by (simp add: window_start_def)
qed

lemma start_full: "Suc (l mod n) = n \<Longrightarrow> Suc l - n = window_start n l"
proof -
  assume "Suc (l mod n) = n"
  then have "Suc l = l div n * n + n" using div_mult_mod_eq [of l n] by linarith
  then show ?thesis by (simp add: window_start_def)
qed

lemma unat_add_small: "unat (a :: u32) + unat b < 2 ^ 32 \<Longrightarrow> unat (a + b) = unat a + unat b"
  by (simp add: unat_word_ariths)

lemma mesh_step:
  assumes inv: "window_inv (unat n) ds w" and n: "2 \<le> n"
    and len: "length (ds @ [d]) < 2 ^ 32" and arcs: "arcs_of (ds @ [d]) < 2 ^ 32"
  shows "window_inv (unat n) (ds @ [d]) (snd (goose_policy_mesh_state w d n thr))"
    and "fst (goose_policy_mesh_state w d n thr) =
      (if unat n \<le> silence (ds @ [d]) then GOOSE_POLICY_WITHHELD
       else if unat thr \<le> arcs_of (drop (window_start (unat n) (length (ds @ [d])) - unat n) (ds @ [d])) then GOOSE_POLICY_ENGAGED
       else GOOSE_POLICY_LATENT)"
proof -
  let ?n = "unat n" and ?l = "length ds"
  define q where "q = window_start ?n ?l"
  define i' where "i' = (if d = 0 then idle_ticks w + 1 else 0)"
  have n2: "2 \<le> ?n" using n by (simp add: word_le_nat_alt)
  have ql: "q \<le> ?l" using start_le [of ?n ?l] n2 by (simp add: q_def)
  have w: "unat (idle_ticks w) = silence ds" "unat (window_ticks w) = ?l mod ?n" "unat (window_arcs w) = arcs_of (drop q ds)"
      "unat (window_last w) = arcs_of (drop (q - ?n) (take q ds))"
    using inv by (simp_all add: window_inv_def q_def)
  have i: "unat i' = silence (ds @ [d])"
    using w(1) silence_le [of ds] len by (simp add: i'_def silence_snoc unat_add_small)
  have t: "unat (window_ticks w + 1) = Suc (?l mod ?n)"
  proof -
    have "?l < 4294967295" using len by simp
    then have "?l mod ?n < 4294967295" by (rule le_less_trans [OF mod_less_eq_dividend])
    with w(2) show ?thesis by (subst unat_add_small) simp_all
  qed
  have a: "unat (window_arcs w + d) = arcs_of (drop q (ds @ [d]))"
    using w(3) arcs arcs_of_drop_le [of q ds] ql by (subst unat_add_small) (auto simp: arcs_of_def)
  have not2: "\<not> n < 2" using n by simp
  have lm: "Suc (?l mod ?n) \<le> ?n" using n2 by (simp add: Suc_leI)
  define wf where "wf = snd (goose_policy_mesh_state w d n thr)"
  have full: "window_ticks w + 1 \<ge> n \<longleftrightarrow> Suc (?l mod ?n) = ?n"
    using t lm by (auto simp: word_le_nat_alt)
  have st: "window_start ?n (length (ds @ [d])) = (if Suc (?l mod ?n) = ?n then Suc ?l else q)"
    using start_Suc [of ?n ?l] n2 by (simp add: q_def)
  have wf: "wf = (if Suc (?l mod ?n) = ?n
      then w\<lparr>idle_ticks := i', window_last := window_arcs w + d, window_arcs := 0, window_ticks := 0\<rparr>
      else w\<lparr>idle_ticks := i', window_arcs := window_arcs w + d, window_ticks := window_ticks w + 1\<rparr>)"
    using not2 full by (simp add: wf_def goose_policy_mesh_state_def Let_def i'_def)
  have len1: "length (ds @ [d]) mod ?n = (if Suc (?l mod ?n) = ?n then 0 else Suc (?l mod ?n))"
    by (simp add: mod_Suc)
  have inv': "window_inv ?n (ds @ [d]) wf"
  proof (cases "Suc (?l mod ?n) = ?n")
    case True
    then have "Suc ?l - ?n = q" using start_full [of ?l ?n] by (simp add: q_def)
    with True wf i a len1 st show ?thesis by (simp add: window_inv_def arcs_of_def)
  next
    case False
    with wf i a t len1 st w(4) ql show ?thesis by (simp add: window_inv_def)
  qed
  then show "window_inv ?n (ds @ [d]) (snd (goose_policy_mesh_state w d n thr))" by (simp add: wf_def)
  have "unat (window_arcs wf + window_last wf) = arcs_of (drop (window_start ?n (length (ds @ [d])) - ?n) (ds @ [d]))"
  proof -
    define p where "p = window_start ?n (length (ds @ [d]))"
    have "unat (window_arcs wf) + unat (window_last wf) = arcs_of (drop p (ds @ [d])) + arcs_of (drop (p - ?n) (take p (ds @ [d])))"
      using inv' by (simp add: window_inv_def p_def)
    also have "\<dots> = arcs_of (drop (p - ?n) (ds @ [d]))"
    proof -
      have "p \<le> length (ds @ [d])" unfolding p_def by (rule start_le) (use n2 in simp)
      then have "drop (p - ?n) (take p (ds @ [d]) @ drop p (ds @ [d])) = drop (p - ?n) (take p (ds @ [d])) @ drop p (ds @ [d])"
        by (simp only: drop_append) simp
      then have "drop (p - ?n) (ds @ [d]) = drop (p - ?n) (take p (ds @ [d])) @ drop p (ds @ [d])"
        by (simp only: append_take_drop_id)
      then show ?thesis by simp
    qed
    finally have s: "unat (window_arcs wf) + unat (window_last wf) = arcs_of (drop (p - ?n) (ds @ [d]))" .
    moreover have "\<dots> < 2 ^ 32" using arcs_of_drop_le [of "p - ?n" "ds @ [d]"] arcs by linarith
    ultimately show ?thesis by (simp add: unat_add_small p_def)
  qed
  moreover have "idle_ticks wf = i'" by (simp add: wf)
  moreover have "fst (goose_policy_mesh_state w d n thr) =
      (if idle_ticks wf \<ge> n then GOOSE_POLICY_WITHHELD
       else if window_arcs wf + window_last wf \<ge> thr then GOOSE_POLICY_ENGAGED else GOOSE_POLICY_LATENT)"
    using not2 by (simp add: wf_def goose_policy_mesh_state_def Let_def)
  ultimately show "fst (goose_policy_mesh_state w d n thr) =
      (if ?n \<le> silence (ds @ [d]) then GOOSE_POLICY_WITHHELD
       else if unat thr \<le> arcs_of (drop (window_start ?n (length (ds @ [d])) - ?n) (ds @ [d])) then GOOSE_POLICY_ENGAGED
       else GOOSE_POLICY_LATENT)"
    using i by (simp add: word_le_nat_alt)
qed

lemma mesh_after_inv:
  assumes "2 \<le> n"
  shows "length ds < 2 ^ 32 \<Longrightarrow> arcs_of ds < 2 ^ 32 \<Longrightarrow> window_inv (unat n) ds (mesh_after n thr ds)"
proof (induction ds rule: rev_induct)
  case Nil
  then show ?case by (simp add: window_inv_def mesh_after_def mesh_window_zero_def silence_def arcs_of_def)
next
  case (snoc d ds)
  then have "window_inv (unat n) ds (mesh_after n thr ds)" by simp
  from mesh_step(1) [OF this assms snoc.prems] show ?case by (simp add: mesh_after_def)
qed

text \<open>
  Mesh health is a function of the recent history. Starting from a zeroed window, the
  state reported by a scan is isolated exactly when the last \<open>n\<close> scans heard nothing, and
  otherwise connected exactly when the arcs of the window in progress and of the last complete
  window of \<open>n\<close> scans together reach the threshold. So one beacon ends isolation at once, and
  silence of a full period always brings it back.
\<close>

theorem mesh_state_history:
  assumes "2 \<le> n" "length (ds @ [d]) < 2 ^ 32" "arcs_of (ds @ [d]) < 2 ^ 32"
  shows "fst (goose_policy_mesh_state (mesh_after n thr ds) d n thr) =
    (if unat n \<le> silence (ds @ [d]) then GOOSE_POLICY_WITHHELD
     else if unat thr \<le> arcs_of (drop (window_start (unat n) (length (ds @ [d])) - unat n) (ds @ [d])) then GOOSE_POLICY_ENGAGED
     else GOOSE_POLICY_LATENT)"
proof -
  have "length ds < 2 ^ 32" "arcs_of ds < 2 ^ 32" using assms by simp_all
  from mesh_step(2) [OF mesh_after_inv [OF assms(1) this] assms(1-3)] show ?thesis .
qed

theorem mesh_state_history_witness:
  "fst (goose_policy_mesh_state (mesh_after 3 1 [1, 0, 0]) 0 3 1) = GOOSE_POLICY_WITHHELD"
  using mesh_state_history [of 3 "[1, 0, 0]" 0 1] by (simp add: silence_def arcs_of_def)

end
