(* ===== verification/C_Words.thy ===== *)
theory C_Words imports Reflex_Prelude begin

text \<open>
  Arithmetic on 32-bit \<open>size_t\<close> and addresses as naturals: the operations that can leave the
  range, the masks C code aligns with, and little-endian bytes.
\<close>

section \<open>Words\<close>

definition add32 :: "nat \<Rightarrow> nat \<Rightarrow> nat" where "add32 a b = (a + b) mod 2 ^ 32"
definition sub32 :: "nat \<Rightarrow> nat \<Rightarrow> nat" where "sub32 a b = nat ((int a - int b) mod 2 ^ 32)"

text \<open>\<open>x & ~(a - 1)\<close> and \<open>x & (a - 1)\<close> for a size_t \<open>a\<close>.\<close>

definition mask_down :: "nat \<Rightarrow> nat \<Rightarrow> nat" where "mask_down x a = nat (int x AND NOT (int a - 1))"
definition mask_low :: "nat \<Rightarrow> nat \<Rightarrow> nat" where "mask_low x a = nat (int x AND (int a - 1))"

section \<open>Word arithmetic without wrap\<close>

lemma add32_small: "a + b < 2 ^ 32 \<Longrightarrow> add32 a b = a + b"
  by (simp add: add32_def)

lemma sub32_small: "b \<le> a \<Longrightarrow> a < 2 ^ 32 \<Longrightarrow> sub32 a b = a - b"
  by (simp add: sub32_def of_nat_diff flip: of_nat_diff)

lemma int_sub32: "int (sub32 a b) = (int a - int b) mod 2 ^ 32"
  by (simp add: sub32_def)

lemma sub32_less [simp]: "sub32 a b < 2 ^ 32"
  by (simp add: sub32_def nat_less_iff)

lemma sub32_add: "b \<le> a + c \<Longrightarrow> a + c < 2 ^ 32 + b \<Longrightarrow> add32 (sub32 a b) c = a + c - b"
proof -
  assume le: "b \<le> a + c" "a + c < 2 ^ 32 + b"
  have "int (add32 (sub32 a b) c) = ((int a - int b) mod 2 ^ 32 + int c) mod 2 ^ 32"
    by (simp add: add32_def zmod_int int_sub32)
  also have "\<dots> = (int a - int b + int c) mod 2 ^ 32" by (simp add: mod_add_left_eq)
  also have "\<dots> = int a - int b + int c"
  proof (rule mod_pos_pos_trivial)
    show "0 \<le> int a - int b + int c" using le(1) by linarith
    show "int a - int b + int c < 2 ^ 32" using le(2) by simp
  qed
  also have "\<dots> = int (a + c - b)" using le by linarith
  finally show ?thesis by simp
qed

lemma and_not_mask: "(x :: int) AND NOT (2 ^ k - 1) = x - x mod 2 ^ k"
proof -
  have "x AND NOT (mask k) = push_bit k (drop_bit k x)" by (rule bit_eqI) (auto simp: bit_simps)
  then show ?thesis by (simp add: mask_eq_exp_minus_1 push_bit_eq_mult drop_bit_eq_div minus_mod_eq_div_mult)
qed

lemma mask_down_power: "mask_down x (2 ^ k) = x - x mod 2 ^ k"
proof -
  have "int x - int x mod 2 ^ k = int (x - x mod 2 ^ k)"
    by (simp add: of_nat_diff zmod_int)
  then show ?thesis by (simp add: mask_down_def and_not_mask)
qed

lemma mask_low_power: "mask_low x (2 ^ k) = x mod 2 ^ k"
  by (simp add: mask_low_def take_bit_eq_mask [symmetric] mask_eq_exp_minus_1 [symmetric] take_bit_eq_mod)
    (metis nat_int of_nat_mod of_nat_numeral of_nat_power)

lemma mask_8: "mask_down x 8 = x - x mod 8" "mask_low x 8 = x mod 8"
  using mask_down_power [of x 3] mask_low_power [of x 3] by simp_all

text \<open>The test \<open>align & (align - 1)\<close> accepts the powers of two only.\<close>

lemma mask_low_zero: "0 < a \<Longrightarrow> mask_low a a = 0 \<Longrightarrow> \<exists>k. a = 2 ^ k"
proof (induction a rule: less_induct)
  case (less a)
  show ?case
  proof (cases "even a")
    case True
    then obtain b where b: "a = 2 * b" by blast
    have "bit (int b AND (int b - 1)) i = bit (int a AND (int a - 1)) (Suc i)" for i
    proof -
      have "bit (int a - 1) (Suc i) = bit (int b - 1) i"
      proof -
        have "(int a - 1) div 2 = int b - 1" by (simp add: b)
        then show ?thesis by (simp add: bit_Suc)
      qed
      moreover have "bit (int a) (Suc i) = bit (int b) i" by (simp add: b bit_Suc)
      ultimately show ?thesis by (simp add: bit_and_iff)
    qed
    moreover have "int a AND (int a - 1) = 0"
    proof -
      have "int a AND (int a - 1) \<ge> 0" by simp
      with less.prems(2) show ?thesis by (simp add: mask_low_def)
    qed
    ultimately have "int b AND (int b - 1) = 0" by (intro bit_eqI) simp
    then have "mask_low b b = 0" by (simp add: mask_low_def)
    moreover have "b < a" "0 < b" using b less.prems(1) by simp_all
    ultimately obtain k where "b = 2 ^ k" using less.IH by blast
    then have "a = 2 ^ Suc k" using b by simp
    then show ?thesis by blast
  next
    case False
    then have "int a AND (int a - 1) = int a - 1"
      by (intro bit_eqI) (auto simp: bit_and_iff bit_0 even_bit_succ_iff odd_bit_iff_bit_pred)
    then have "a = 1" using less.prems by (simp add: mask_low_def)
    then show ?thesis by (intro exI [of _ 0]) simp
  qed
qed

section \<open>Little-endian bytes\<close>

fun le_value :: "u8 list \<Rightarrow> nat" where
  "le_value [] = 0"
| "le_value (b # bs) = unat b + 256 * le_value bs"

fun le_bytes :: "nat \<Rightarrow> nat \<Rightarrow> u8 list" where
  "le_bytes 0 n = []"
| "le_bytes (Suc k) n = word_of_nat (n mod 256) # le_bytes k (n div 256)"

lemma le_bytes_length [simp]: "length (le_bytes k n) = k"
  by (induction k arbitrary: n) auto

lemma le_value_bytes: "n < 256 ^ k \<Longrightarrow> le_value (le_bytes k n) = n"
proof (induction k arbitrary: n)
  case (Suc k)
  have "unat (word_of_nat (n mod 256) :: u8) = n mod 256" by (simp add: unat_of_nat)
  moreover have "le_value (le_bytes k (n div 256)) = n div 256"
    using Suc.prems by (intro Suc.IH) (simp add: less_mult_imp_div_less mult.commute)
  ultimately show ?case using mod_mult_div_eq [of n 256] by simp
qed simp

end
