(* ===== verification/Kernel_Heap.thy ===== *)
theory Kernel_Heap imports C_Words begin

text \<open>
  The kernel allocator: kernel/reflex_heap.c and include/reflex_heap.h, on the 32-bit target.

  An address and a \<open>size_t\<close> are naturals below \<open>2 ^ 32\<close>, NULL is 0, and the operations that
  can leave that range wrap: \<open>add32\<close> and \<open>sub32\<close>. Memory is what the allocator keeps in it, a
  block header at an address. A header read where no block starts is whatever \<open>mem\<close> holds
  there; the payloads are not modelled, and the one copy the allocator makes (in
  \<open>reflex_heap_realloc\<close>) is a value of its answer. Writing inside a live payload does not
  change a header, so the client's own writes need no operation. The lock keeps each public
  entry point atomic, which one function per entry point expresses.

  A loop along the block chain is a \<open>partial_function (option)\<close>: None is a loop that does
  not end, or the dereference of NULL in \<open>alloc_search\<close>.
\<close>

section \<open>Alignment\<close>

definition ALIGN :: nat where "ALIGN = 8"

definition align_up :: "nat \<Rightarrow> nat" where "align_up n = mask_down (add32 n (ALIGN - 1)) ALIGN"

definition HDR :: nat where "HDR = 16"
definition MIN_PAYLOAD :: nat where "MIN_PAYLOAD = 8"
definition SPLIT_MIN :: nat where "SPLIT_MIN = 24"

section \<open>State\<close>

record block =
  b_prev :: nat
  b_next :: nat
  b_size :: nat
  b_used :: nat

record reflex_heap =
  mem :: "nat \<Rightarrow> block"
  s_region_lo :: nat
  s_region_hi :: nat
  s_first :: nat
  s_total :: nat
  s_free :: nat
  s_min_free :: nat
  s_ready :: bool

definition set_prev :: "nat \<Rightarrow> nat \<Rightarrow> reflex_heap \<Rightarrow> reflex_heap" where
  "set_prev b v h = h\<lparr>mem := (mem h)(b := (mem h b)\<lparr>b_prev := v\<rparr>)\<rparr>"
definition set_next :: "nat \<Rightarrow> nat \<Rightarrow> reflex_heap \<Rightarrow> reflex_heap" where
  "set_next b v h = h\<lparr>mem := (mem h)(b := (mem h b)\<lparr>b_next := v\<rparr>)\<rparr>"
definition set_size :: "nat \<Rightarrow> nat \<Rightarrow> reflex_heap \<Rightarrow> reflex_heap" where
  "set_size b v h = h\<lparr>mem := (mem h)(b := (mem h b)\<lparr>b_size := v\<rparr>)\<rparr>"
definition set_used :: "nat \<Rightarrow> nat \<Rightarrow> reflex_heap \<Rightarrow> reflex_heap" where
  "set_used b v h = h\<lparr>mem := (mem h)(b := (mem h b)\<lparr>b_used := v\<rparr>)\<rparr>"

abbreviation "prev_of h b \<equiv> b_prev (mem h b)"
abbreviation "next_of h b \<equiv> b_next (mem h b)"
abbreviation "size_of h b \<equiv> b_size (mem h b)"
abbreviation "used_of h b \<equiv> b_used (mem h b)"

definition payload_of :: "nat \<Rightarrow> nat" where "payload_of b = add32 b HDR"
definition block_of :: "nat \<Rightarrow> nat" where "block_of p = sub32 p HDR"

definition size_is_sane :: "nat \<Rightarrow> bool" where
  "size_is_sane sz \<longleftrightarrow> sz \<le> 4294967295 - (ALIGN - 1) - HDR"

definition plausible_payload :: "reflex_heap \<Rightarrow> nat \<Rightarrow> bool" where
  "plausible_payload h p =
     (if \<not> s_ready h \<or> p = 0 then False
      else if p < add32 (s_region_lo h) HDR \<or> p \<ge> s_region_hi h then False
      else if mask_low p ALIGN \<noteq> 0 then False
      else True)"

definition note_free_change :: "reflex_heap \<Rightarrow> reflex_heap" where
  "note_free_change h = (if s_free h < s_min_free h then h\<lparr>s_min_free := s_free h\<rparr> else h)"

section \<open>Operations\<close>

text \<open>The statics before the first call, and the region handed over.\<close>

definition reflex_heap_init :: "reflex_heap \<Rightarrow> nat \<Rightarrow> nat \<Rightarrow> reflex_heap" where
  "reflex_heap_init h base sz =
     (let h0 = h\<lparr>s_first := 0, s_region_lo := 0, s_region_hi := 0, s_total := 0, s_free := 0, s_min_free := 0,
                 s_ready := False\<rparr>;
          start = mask_down (add32 base (ALIGN - 1)) ALIGN;
          lost = sub32 start base in
      if base = 0 \<or> sz < HDR + MIN_PAYLOAD then h0
      else if sz \<le> add32 (add32 lost HDR) MIN_PAYLOAD then h0
      else
        let usable = mask_down (sub32 sz lost) ALIGN; b = start; bsize = sub32 usable HDR;
            h1 = set_used b 0 (set_size b bsize (set_next b 0 (set_prev b 0 h0)))
        in h1\<lparr>s_region_lo := start, s_region_hi := add32 start usable, s_first := b, s_total := bsize,
              s_free := bsize, s_min_free := bsize, s_ready := True\<rparr>)"

definition reflex_heap_ready :: "reflex_heap \<Rightarrow> bool" where
  "reflex_heap_ready h = s_ready h"

definition reflex_heap_owns :: "reflex_heap \<Rightarrow> nat \<Rightarrow> bool" where
  "reflex_heap_owns h p \<longleftrightarrow> s_ready h \<and> p \<ge> s_region_lo h \<and> p < s_region_hi h"

definition split :: "reflex_heap \<Rightarrow> nat \<Rightarrow> nat \<Rightarrow> reflex_heap" where
  "split h b want =
     (let rest = sub32 (size_of h b) want in
      if rest < SPLIT_MIN then h
      else
        let tail = add32 (payload_of b) want;
            h1 = set_prev tail b (set_used tail 0 (set_size tail (sub32 rest HDR) h));
            h2 = set_next tail (next_of h1 b) h1;
            h3 = (if next_of h2 b \<noteq> 0 then set_prev (next_of h2 b) tail h2 else h2);
            h4 = set_size b want (set_next b tail h3)
        in h4\<lparr>s_free := sub32 (s_free h4) HDR\<rparr>)"

definition coalesce_forward :: "reflex_heap \<Rightarrow> nat \<Rightarrow> reflex_heap" where
  "coalesce_forward h b =
     (let n = next_of h b in
      if n = 0 \<or> used_of h n \<noteq> 0 then h
      else
        let h1 = set_size b (add32 (size_of h b) (add32 HDR (size_of h n))) h;
            h2 = set_next b (next_of h1 n) h1;
            h3 = (if next_of h2 n \<noteq> 0 then set_prev (next_of h2 n) b h2 else h2)
        in h3\<lparr>s_free := add32 (s_free h3) HDR\<rparr>)"

text \<open>Step to the next aligned address until the gap below it is none or large enough for a block.\<close>

partial_function (option) gap_loop :: "nat \<Rightarrow> nat \<Rightarrow> nat \<Rightarrow> nat option" where
  "gap_loop align pay aligned =
     (let gap = sub32 aligned pay in
      if gap \<noteq> 0 \<and> gap < SPLIT_MIN then gap_loop align pay (add32 aligned align) else Some gap)"

definition block_gap :: "nat \<Rightarrow> nat \<Rightarrow> nat option" where
  "block_gap align pay = gap_loop align pay (mask_down (add32 pay (align - 1)) align)"

text \<open>The end of a successful search: the block \<open>b\<close> is big enough and starts where it must.\<close>

definition take_block :: "reflex_heap \<Rightarrow> nat \<Rightarrow> nat \<Rightarrow> nat \<times> reflex_heap" where
  "take_block h b want =
     (let h1 = set_used b 1 (split h b want);
          h2 = note_free_change (h1\<lparr>s_free := sub32 (s_free h1) (size_of h1 b)\<rparr>)
      in (payload_of b, h2))"

partial_function (option) alloc_search :: "nat \<Rightarrow> nat \<Rightarrow> nat \<Rightarrow> reflex_heap \<Rightarrow> (nat \<times> reflex_heap) option" where
  "alloc_search align want b h =
     (if b = 0 then Some (0, h)
      else if used_of h b \<noteq> 0 then alloc_search align want (next_of h b) h
      else Option.bind (block_gap align (payload_of b)) (\<lambda>gap.
        if gap = 0 then
          (if size_of h b < want then alloc_search align want (next_of h b) h
           else Some (take_block h b want))
        else if size_of h b < add32 gap want then alloc_search align want (next_of h b) h
        else
          let h1 = split h b (sub32 gap HDR); b1 = next_of h1 b in
          if b1 = 0 then None
          else if used_of h1 b1 \<noteq> 0 \<or> size_of h1 b1 < want then alloc_search align want (next_of h1 b1) h1
          else Some (take_block h1 b1 want)))"

definition want_of :: "nat \<Rightarrow> nat" where
  "want_of sz = (let want = align_up sz in if want < MIN_PAYLOAD then MIN_PAYLOAD else want)"

definition alloc_locked :: "reflex_heap \<Rightarrow> nat \<Rightarrow> nat \<Rightarrow> (nat \<times> reflex_heap) option" where
  "alloc_locked h align sz =
     (if \<not> s_ready h \<or> sz = 0 \<or> \<not> size_is_sane sz then Some (0, h)
      else alloc_search (if align < ALIGN then ALIGN else align) (want_of sz) (s_first h) h)"

definition reflex_heap_alloc :: "reflex_heap \<Rightarrow> nat \<Rightarrow> (nat \<times> reflex_heap) option" where
  "reflex_heap_alloc h sz = alloc_locked h ALIGN sz"

definition reflex_heap_alloc_aligned :: "reflex_heap \<Rightarrow> nat \<Rightarrow> nat \<Rightarrow> (nat \<times> reflex_heap) option" where
  "reflex_heap_alloc_aligned h align sz =
     (if align = 0 \<or> mask_low align align \<noteq> 0 then Some (0, h) else alloc_locked h align sz)"

definition free_locked :: "reflex_heap \<Rightarrow> nat \<Rightarrow> reflex_heap" where
  "free_locked h p =
     (let b = block_of p in
      if used_of h b = 0 then h
      else
        let h1 = set_used b 0 h;
            h2 = h1\<lparr>s_free := add32 (s_free h1) (size_of h1 b)\<rparr>;
            h3 = coalesce_forward h2 b
        in if prev_of h3 b \<noteq> 0 \<and> used_of h3 (prev_of h3 b) = 0 then coalesce_forward h3 (prev_of h3 b) else h3)"

definition reflex_heap_free :: "reflex_heap \<Rightarrow> nat \<Rightarrow> reflex_heap" where
  "reflex_heap_free h p = (if \<not> plausible_payload h p then h else free_locked h p)"

definition reflex_heap_block_size :: "reflex_heap \<Rightarrow> nat \<Rightarrow> nat" where
  "reflex_heap_block_size h p = (if \<not> plausible_payload h p then 0 else size_of h (block_of p))"

text \<open>A split of a block in use gives its tail back, and joins it to a free block behind it.\<close>

definition trim :: "reflex_heap \<Rightarrow> nat \<Rightarrow> nat \<Rightarrow> reflex_heap" where
  "trim h b want =
     (let before = size_of h b; h1 = split h b want in
      if size_of h1 b \<noteq> before then
        let h2 = h1\<lparr>s_free := add32 (s_free h1) (sub32 before (size_of h1 b))\<rparr> in
        if next_of h2 b \<noteq> 0 \<and> used_of h2 (next_of h2 b) = 0 then coalesce_forward h2 (next_of h2 b) else h2
      else h1)"

record copy_request =
  copy_to :: nat
  copy_from :: nat
  copy_bytes :: nat

definition reflex_heap_realloc :: "reflex_heap \<Rightarrow> nat \<Rightarrow> nat \<Rightarrow> (nat \<times> copy_request option \<times> reflex_heap) option" where
  "reflex_heap_realloc h p sz =
     (if p = 0 then map_option (\<lambda>(q, h1). (q, None, h1)) (reflex_heap_alloc h sz)
      else if sz = 0 then Some (0, None, reflex_heap_free h p)
      else if \<not> s_ready h \<or> \<not> size_is_sane sz then Some (0, None, h)
      else if \<not> plausible_payload h p then Some (0, None, h)
      else
        let b = block_of p; want = want_of sz in
        if want \<le> size_of h b then Some (p, None, note_free_change (trim h b want))
        else
          let n = next_of h b in
          if n \<noteq> 0 \<and> used_of h n = 0 \<and> add32 (add32 (size_of h b) HDR) (size_of h n) \<ge> want then
            let h1 = h\<lparr>s_free := sub32 (s_free h) (size_of h n)\<rparr>;
                h2 = set_size b (add32 (size_of h1 b) (add32 HDR (size_of h1 n))) h1;
                h3 = set_next b (next_of h2 n) h2;
                h4 = (if next_of h3 n \<noteq> 0 then set_prev (next_of h3 n) b h3 else h3)
            in Some (p, None, note_free_change (trim h4 b want))
          else
            let old = size_of h b in
            map_option (\<lambda>(q, h1).
              if q \<noteq> 0 then (q, Some \<lparr>copy_to = q, copy_from = p, copy_bytes = (if old < sz then old else sz)\<rparr>,
                              free_locked h1 p)
              else (0, None, h1)) (alloc_locked h ALIGN sz))"

definition reflex_heap_free_bytes :: "reflex_heap \<Rightarrow> nat" where
  "reflex_heap_free_bytes h = s_free h"

definition reflex_heap_min_free_bytes :: "reflex_heap \<Rightarrow> nat" where
  "reflex_heap_min_free_bytes h = s_min_free h"

record reflex_heap_stats =
  total_bytes :: nat
  free_bytes :: nat
  min_free_bytes :: nat
  largest_free :: nat
  blocks_total :: nat
  blocks_free :: nat

partial_function (option) stats_loop :: "reflex_heap \<Rightarrow> nat \<Rightarrow> reflex_heap_stats \<Rightarrow> reflex_heap_stats option" where
  "stats_loop h b out =
     (if b = 0 then Some out
      else
        let out1 = out\<lparr>blocks_total := blocks_total out + 1\<rparr>;
            out2 = (if used_of h b = 0
                    then out1\<lparr>blocks_free := blocks_free out1 + 1,
                              largest_free := (if size_of h b > largest_free out1 then size_of h b else largest_free out1)\<rparr>
                    else out1)
        in stats_loop h (next_of h b) out2)"

definition reflex_heap_get_stats :: "reflex_heap \<Rightarrow> reflex_heap_stats option" where
  "reflex_heap_get_stats h =
     stats_loop h (s_first h)
       \<lparr>total_bytes = s_total h, free_bytes = s_free h, min_free_bytes = s_min_free h, largest_free = 0,
        blocks_total = 0, blocks_free = 0\<rparr>"

record audit =
  a_ok :: bool
  a_free_seen :: nat
  a_span :: nat
  a_prev :: nat
  a_last :: nat

text \<open>One round of the audit's loop body, at block \<open>b\<close>.\<close>

definition audit_block :: "reflex_heap \<Rightarrow> nat \<Rightarrow> audit \<Rightarrow> audit" where
  "audit_block h b a =
     \<lparr>a_ok = a_ok a \<and> prev_of h b = a_prev a \<and> mask_low (size_of h b) ALIGN = 0 \<and> used_of h b \<le> 1
         \<and> (next_of h b \<noteq> 0 \<longrightarrow> next_of h b = add32 (payload_of b) (size_of h b)
              \<and> \<not> (used_of h b = 0 \<and> used_of h (next_of h b) = 0)),
      a_free_seen = (if used_of h b = 0 then add32 (a_free_seen a) (size_of h b) else a_free_seen a),
      a_span = add32 (a_span a) (add32 HDR (size_of h b)),
      a_prev = b,
      a_last = b\<rparr>"

partial_function (option) audit_loop :: "reflex_heap \<Rightarrow> nat \<Rightarrow> audit \<Rightarrow> audit option" where
  "audit_loop h b a =
     (if b = 0 \<or> \<not> a_ok a then Some a else audit_loop h (next_of h b) (audit_block h b a))"

definition reflex_heap_check :: "reflex_heap \<Rightarrow> bool option" where
  "reflex_heap_check h =
     map_option (\<lambda>a. a_ok a \<and> a_free_seen a = s_free h
         \<and> (a_last a \<noteq> 0 \<longrightarrow> add32 (payload_of (a_last a)) (size_of h (a_last a)) = s_region_hi h)
         \<and> a_span a = sub32 (s_region_hi h) (s_region_lo h))
       (audit_loop h (s_first h)
         \<lparr>a_ok = s_ready h \<and> s_first h = s_region_lo h, a_free_seen = 0, a_span = 0, a_prev = 0, a_last = 0\<rparr>)"

declare gap_loop.simps [code] alloc_search.simps [code] stats_loop.simps [code] audit_loop.simps [code]

end
