(* ===== verification/Heap_Layout.thy ===== *)
theory Heap_Layout imports Kernel_Heap begin

text \<open>
  The shape of the heap and how \<open>split\<close> and \<open>coalesce_forward\<close> change it. A heap is read
  as the list of its blocks in address order, a size and a use flag each; addresses and links
  follow from the sizes, since the blocks tile the region.
\<close>

lemma power_two_8: "8 \<le> (2 :: nat) ^ k \<Longrightarrow> 8 dvd (2 :: nat) ^ k"
proof -
  assume "8 \<le> (2 :: nat) ^ k"
  then have "(2 :: nat) ^ 3 \<le> 2 ^ k" by simp
  then have "3 \<le> k" by (simp only: power_increasing_iff)
  then have "(2 :: nat) ^ 3 dvd 2 ^ k" by (rule le_imp_power_dvd)
  then show ?thesis by simp
qed

section \<open>The block list\<close>

type_synonym blocks = "(nat \<times> bool) list"

definition extent :: "blocks \<Rightarrow> nat" where
  "extent bs = sum_list (map (\<lambda>(s, u). 16 + s) bs)"

lemma extent_simps [simp]: "extent [] = 0" "extent ((s, u) # bs) = 16 + s + extent bs" "extent (xs @ ys) = extent xs + extent ys"
  by (simp_all add: extent_def)

fun seg :: "(nat \<Rightarrow> block) \<Rightarrow> nat \<Rightarrow> nat \<Rightarrow> blocks \<Rightarrow> nat \<Rightarrow> bool" where
  "seg m p a [] n = True"
| "seg m p a ((s, u) # bs) n \<longleftrightarrow>
     m a = \<lparr>b_prev = p, b_next = (if bs = [] then n else a + 16 + s), b_size = s, b_used = (if u then 1 else 0)\<rparr>
     \<and> seg m a (a + 16 + s) bs n"

fun last_addr :: "nat \<Rightarrow> nat \<Rightarrow> blocks \<Rightarrow> nat" where
  "last_addr p a [] = p"
| "last_addr p a ((s, u) # bs) = last_addr a (a + 16 + s) bs"

lemma seg_append:
  "seg m p a (xs @ ys) n \<longleftrightarrow> seg m p a xs (if ys = [] then n else a + extent xs) \<and> seg m (last_addr p a xs) (a + extent xs) ys n"
  by (induction xs arbitrary: p a) (auto simp: add.assoc)

lemma last_addr_append [simp]: "last_addr p a (xs @ ys) = last_addr (last_addr p a xs) (a + extent xs) ys"
  by (induction xs arbitrary: p a) (auto simp: add.assoc)

lemma seg_frame: "(\<And>x. a \<le> x \<Longrightarrow> x < a + extent bs \<Longrightarrow> m' x = m x) \<Longrightarrow> seg m' p a bs n \<longleftrightarrow> seg m p a bs n"
proof (induction bs arbitrary: p a)
  case (Cons b bs)
  obtain s u where b: "b = (s, u)" by fastforce
  have "m' a = m a" by (rule Cons.prems) (simp_all add: b)
  moreover have "seg m' q (a + 16 + s) bs n = seg m q (a + 16 + s) bs n" for q
    by (rule Cons.IH) (rule Cons.prems, simp_all add: b)
  ultimately show ?case by (simp add: b)
qed simp

text \<open>The neighbour's back link is the only field outside a block that an operation on it writes.\<close>

lemma seg_relink:
  assumes "seg m p a bs n" "bs \<noteq> []" "m' a = (m a)\<lparr>b_prev := q\<rparr>" "\<And>x. a < x \<Longrightarrow> x < a + extent bs \<Longrightarrow> m' x = m x"
  shows "seg m' q a bs n"
proof -
  obtain s u r where b: "bs = (s, u) # r" using assms(2) by (cases bs) auto
  have "seg m' a (a + 16 + s) r n \<longleftrightarrow> seg m a (a + 16 + s) r n"
    by (rule seg_frame) (rule assms(4), simp_all add: b)
  with assms(1,3) show ?thesis by (simp add: b)
qed

lemma last_addr_less: "xs \<noteq> [] \<Longrightarrow> a \<le> last_addr p a xs \<and> last_addr p a xs + 16 \<le> a + extent xs"
proof (induction xs arbitrary: p a)
  case (Cons x xs)
  obtain s u where "x = (s, u)" by fastforce
  with Cons.IH [of "a + 16 + s" a] show ?case by (cases xs) auto
qed simp

text \<open>
  The structure of the heap: its chain tiles the region, every size is a positive multiple of
  the alignment, and the region does not reach the end of the address space.
\<close>

definition tiles :: "reflex_heap \<Rightarrow> blocks \<Rightarrow> bool" where
  "tiles h bs \<longleftrightarrow> s_ready h \<and> 0 < s_region_lo h \<and> s_region_lo h mod 8 = 0 \<and> s_first h = s_region_lo h
     \<and> bs \<noteq> [] \<and> s_region_hi h = s_region_lo h + extent bs \<and> s_region_hi h < 2 ^ 32
     \<and> seg (mem h) 0 (s_region_lo h) bs 0 \<and> (\<forall>(s, u) \<in> set bs. 8 \<le> s \<and> s mod 8 = 0)"

definition same_region :: "reflex_heap \<Rightarrow> reflex_heap \<Rightarrow> bool" where
  "same_region h h' \<longleftrightarrow> s_region_lo h' = s_region_lo h \<and> s_region_hi h' = s_region_hi h \<and> s_first h' = s_first h
     \<and> s_ready h' = s_ready h \<and> s_total h' = s_total h"

lemma same_region_refl [simp]: "same_region h h"
  by (simp add: same_region_def)

lemma same_region_trans [trans]: "same_region a b \<Longrightarrow> same_region b c \<Longrightarrow> same_region a c"
  by (simp add: same_region_def)

lemma tiles_cong: "tiles h bs \<Longrightarrow> same_region h h' \<Longrightarrow> mem h' = mem h \<Longrightarrow> tiles h' bs"
  by (simp add: tiles_def same_region_def)

text \<open>Reading the block in the middle of the list.\<close>

lemma tiles_mid:
  assumes "tiles h (xs @ (s, u) # ys)" "b = s_region_lo h + extent xs"
  shows "mem h b = \<lparr>b_prev = last_addr 0 (s_region_lo h) xs, b_next = (if ys = [] then 0 else b + 16 + s), b_size = s,
      b_used = (if u then 1 else 0)\<rparr>"
    and "0 < b" "b mod 8 = 0" "b + 16 + s + extent ys < 2 ^ 32" "8 \<le> s" "s mod 8 = 0" "payload_of b = b + 16"
proof -
  show "mem h b = \<lparr>b_prev = last_addr 0 (s_region_lo h) xs, b_next = (if ys = [] then 0 else b + 16 + s), b_size = s,
      b_used = (if u then 1 else 0)\<rparr>" "0 < b" "8 \<le> s" "s mod 8 = 0"
    using assms by (auto simp: tiles_def seg_append)
  show l: "b + 16 + s + extent ys < 2 ^ 32" using assms by (simp add: tiles_def)
  then show "payload_of b = b + 16" by (simp add: payload_of_def HDR_def add32_small)
  have "extent xs mod 8 = 0" if "\<forall>(s, u) \<in> set xs. 8 \<le> s \<and> s mod 8 = 0" for xs
    using that
  proof (induction xs)
    case (Cons x xs)
    obtain t v where "x = (t, v)" by fastforce
    with Cons have "8 dvd t" "8 dvd extent xs" by (auto simp: mod_eq_0_iff_dvd)
    moreover have "8 dvd (16 :: nat)" by simp
    ultimately have "8 dvd extent (x # xs)" using \<open>x = (t, v)\<close> by (simp only: extent_simps dvd_add)
    then show ?case by (simp only: mod_eq_0_iff_dvd)
  qed simp
  then have "extent xs mod 8 = 0" using assms(1) by (simp add: tiles_def)
  then show "b mod 8 = 0" using assms by (auto simp: tiles_def mod_eq_0_iff_dvd)
qed

lemma tilesI:
  assumes "tiles h bs0" "same_region h h'" "seg (mem h') 0 (s_region_lo h) bs 0" "extent bs = extent bs0" "bs \<noteq> []"
    "\<forall>(s, u) \<in> set bs. 8 \<le> s \<and> s mod 8 = 0"
  shows "tiles h' bs"
  using assms by (simp add: tiles_def same_region_def)

lemma tiles_seg:
  assumes "tiles h (xs @ ys)"
  shows "seg (mem h) 0 (s_region_lo h) xs (if ys = [] then 0 else s_region_lo h + extent xs)"
    "seg (mem h) (last_addr 0 (s_region_lo h) xs) (s_region_lo h + extent xs) ys 0"
    "\<forall>(s, u) \<in> set xs. 8 \<le> s \<and> s mod 8 = 0" "\<forall>(s, u) \<in> set ys. 8 \<le> s \<and> s mod 8 = 0"
  using assms by (simp_all add: tiles_def seg_append)

lemma tiles_rest:
  assumes "tiles h (xs @ ms @ ys)" "b = s_region_lo h + extent xs" "ms \<noteq> []"
  shows "seg (mem h) (last_addr 0 b ms) (b + extent ms) ys 0" "seg (mem h) 0 (s_region_lo h) xs b"
    "\<forall>(s, u) \<in> set xs. 8 \<le> s \<and> s mod 8 = 0" "\<forall>(s, u) \<in> set ys. 8 \<le> s \<and> s mod 8 = 0"
proof -
  have "last_addr (last_addr 0 (s_region_lo h) xs) b ms = last_addr 0 b ms" using assms(3) by (cases ms) auto
  then show "seg (mem h) (last_addr 0 b ms) (b + extent ms) ys 0"
    using tiles_seg(2) [OF assms(1)] assms(2) by (simp add: seg_append)
  show "seg (mem h) 0 (s_region_lo h) xs b" using tiles_seg(1) [OF assms(1)] assms(2,3) by simp
  show "\<forall>(s, u) \<in> set xs. 8 \<le> s \<and> s mod 8 = 0" "\<forall>(s, u) \<in> set ys. 8 \<le> s \<and> s mod 8 = 0"
    using assms(1) by (auto simp: tiles_def)
qed

text \<open>A memory in which the blocks \<open>ms\<close> at \<open>b\<close> of \<open>xs @ ms @ ys\<close> became the blocks \<open>zs\<close>.\<close>

lemma tiles_replace:
  assumes t: "tiles h (xs @ ms @ ys)" and b: "b = s_region_lo h + extent xs" and ms: "ms \<noteq> []"
    and r: "same_region h h'"
    and e: "extent zs = extent ms" "zs \<noteq> []" "\<forall>(s, u) \<in> set zs. 8 \<le> s \<and> s mod 8 = 0"
    and zs: "seg (mem h') (last_addr 0 (s_region_lo h) xs) b zs (if ys = [] then 0 else b + extent ms)"
    and low: "\<And>x. x < b \<Longrightarrow> mem h' x = mem h x"
    and link: "ys \<noteq> [] \<Longrightarrow> mem h' (b + extent ms) = (mem h (b + extent ms))\<lparr>b_prev := last_addr 0 b zs\<rparr>"
    and high: "\<And>x. b + extent ms < x \<Longrightarrow> mem h' x = mem h x"
  shows "tiles h' (xs @ zs @ ys)"
proof (rule tilesI [OF t r])
  note rest = tiles_rest [OF t b ms]
  have "seg (mem h') 0 (s_region_lo h) xs b \<longleftrightarrow> seg (mem h) 0 (s_region_lo h) xs b"
    by (rule seg_frame) (rule low, simp add: b)
  then have xs: "seg (mem h') 0 (s_region_lo h) xs b" using rest(2) by simp
  have ys: "seg (mem h') (last_addr 0 b zs) (b + extent ms) ys 0"
  proof (cases "ys = []")
    case False
    from seg_relink [OF rest(1) False link [OF False] high] show ?thesis by simp
  qed simp
  have la: "last_addr (last_addr 0 (s_region_lo h) xs) b zs = last_addr 0 b zs"
    using e(2) by (cases zs) auto
  show "seg (mem h') 0 (s_region_lo h) (xs @ zs @ ys) 0"
    using zs xs ys la e(1,2) by (cases "ys = []") (simp_all add: seg_append b add.assoc)
  show "extent (xs @ zs @ ys) = extent (xs @ ms @ ys)" using e(1) by simp
  show "xs @ zs @ ys \<noteq> []" using e(2) by simp
  show "\<forall>(s, u) \<in> set (xs @ zs @ ys). 8 \<le> s \<and> s mod 8 = 0"
    using rest(3,4) e(3) by auto
qed

lemmas heap_defs = set_prev_def set_next_def set_size_def set_used_def

lemma set_used_simps [simp]:
  "same_region h (set_used b v h)" "s_free (set_used b v h) = s_free h" "s_min_free (set_used b v h) = s_min_free h"
  "s_region_lo (set_used b v h) = s_region_lo h"
  by (simp_all add: set_used_def same_region_def)

section \<open>Split and coalesce\<close>

lemma split_declined:
  assumes "tiles h (xs @ (s, u) # ys)" "b = s_region_lo h + extent xs" "want \<le> s" "s < want + 24"
  shows "split h b want = h"
  using tiles_mid [OF assms(1,2)] assms(3,4) by (simp add: split_def Let_def sub32_small SPLIT_MIN_def)

lemma split_tiles:
  assumes t: "tiles h (xs @ (s, u) # ys)" and b: "b = s_region_lo h + extent xs"
    and w: "want + 24 \<le> s" "8 \<le> want" "want mod 8 = 0"
  shows "tiles (split h b want) (xs @ (want, u) # (s - want - 16, False) # ys)"
    and "same_region h (split h b want)"
    and "s_free (split h b want) = sub32 (s_free h) 16" and "s_min_free (split h b want) = s_min_free h"
proof -
  note mid = tiles_mid [OF t b]
  have rest: "sub32 (size_of h b) want = s - want" using mid(1,4) w(1) by (simp add: sub32_small)
  have rest16: "sub32 (s - want) HDR = s - want - 16" using mid(4) w(1) by (simp add: sub32_small HDR_def)
  have tail: "add32 (payload_of b) want = b + 16 + want" using mid(4,7) w(1) by (simp add: add32_small)
  define T where "T = b + 16 + want"
  define N where "N = (if ys = [] then 0 else b + 16 + s)"
  have ne: "T \<noteq> b" "N \<noteq> b" "N \<noteq> T" "b < T" "T < b + 16 + s" using w(1) mid(2) by (auto simp: T_def N_def)
  define h1 where "h1 = set_prev T b (set_used T 0 (set_size T (s - want - 16) h))"
  define h2 where "h2 = set_next T N h1"
  define h3 where "h3 = (if N \<noteq> 0 then set_prev N T h2 else h2)"
  define h4 where "h4 = set_size b want (set_next b T h3)"
  have n1: "next_of h1 b = N" "next_of h2 b = N" using ne mid(1) by (simp_all add: h1_def h2_def heap_defs N_def)
  have big: "(s - want < SPLIT_MIN) = False" using w(1) by (simp add: SPLIT_MIN_def)
  have eq: "split h b want = h4\<lparr>s_free := sub32 (s_free h4) HDR\<rparr>"
    by (simp only: split_def Let_def rest rest16 tail T_def [symmetric] h1_def [symmetric] n1 h2_def [symmetric]
        h3_def [symmetric] h4_def [symmetric] big if_False)
  have m1: "mem h2 = (mem h)(T := \<lparr>b_prev = b, b_next = N, b_size = s - want - 16, b_used = 0\<rparr>)"
    by (cases "mem h T") (simp add: h2_def h1_def heap_defs)
  have m: "mem (split h b want) = (\<lambda>x. if x = b then (mem h b)\<lparr>b_size := want, b_next := T\<rparr>
      else if x = T then \<lparr>b_prev = b, b_next = N, b_size = s - want - 16, b_used = 0\<rparr>
      else if x = N \<and> N \<noteq> 0 then (mem h N)\<lparr>b_prev := T\<rparr> else mem h x)"
    using ne by (cases "N = 0") (auto simp: eq h4_def h3_def m1 heap_defs fun_eq_iff)
  have nz: "N \<noteq> 0 \<longleftrightarrow> ys \<noteq> []" using mid(2) by (simp add: N_def)
  have f4: "same_region h h4" "s_free h4 = s_free h" "s_min_free h4 = s_min_free h"
    by (simp_all add: h4_def h3_def h2_def h1_def heap_defs same_region_def)
  show r: "same_region h (split h b want)" using f4(1) by (simp add: eq same_region_def)
  show "s_free (split h b want) = sub32 (s_free h) 16" "s_min_free (split h b want) = s_min_free h"
    using f4 by (simp_all add: eq HDR_def)
  have t': "tiles h (xs @ [(s, u)] @ ys)" using t by simp
  have "tiles (split h b want) (xs @ [(want, u), (s - want - 16, False)] @ ys)"
  proof (rule tiles_replace [OF t' b _ r])
    show "extent [(want, u), (s - want - 16, False)] = extent [(s, u)]" using w(1) by simp
    have "(s - want - 16) mod 8 = 0" using mid(6) w(3) by (simp add: mod_eq_0_iff_dvd dvd_diff_nat)
    then show "\<forall>(s, u) \<in> set [(want, u), (s - want - 16, False)]. 8 \<le> s \<and> s mod 8 = 0" using w by auto
    show "seg (mem (split h b want)) (last_addr 0 (s_region_lo h) xs) b [(want, u), (s - want - 16, False)]
        (if ys = [] then 0 else b + extent [(s, u)])"
      using ne mid(1) by (simp add: m T_def N_def)
    show "mem (split h b want) x = mem h x" if "x < b" for x using that ne by (auto simp: m N_def)
    show "mem (split h b want) x = mem h x" if "b + extent [(s, u)] < x" for x using that ne by (auto simp: m N_def)
    show "mem (split h b want) (b + extent [(s, u)]) = (mem h (b + extent [(s, u)]))\<lparr>b_prev := last_addr 0 b [(want, u), (s - want - 16, False)]\<rparr>"
      if "ys \<noteq> []"
    proof -
      have "N = b + extent [(s, u)]" "N \<noteq> 0" using that nz by (simp_all add: N_def)
      then show ?thesis using ne by (simp add: m T_def)
    qed
  qed simp_all
  then show "tiles (split h b want) (xs @ (want, u) # (s - want - 16, False) # ys)" by simp
qed

lemma coalesce_declined:
  assumes "tiles h (xs @ (s, u) # ys)" "b = s_region_lo h + extent xs" "ys = [] \<or> snd (hd ys)"
  shows "coalesce_forward h b = h"
proof (cases ys)
  case Nil
  with tiles_mid [OF assms(1,2)] show ?thesis by (simp add: coalesce_forward_def)
next
  case (Cons y zs)
  obtain t v where y: "y = (t, v)" by fastforce
  have "tiles h ((xs @ [(s, u)]) @ (t, v) # zs)" using assms(1) by (simp add: Cons y)
  from tiles_mid(1) [OF this refl] have "used_of h (b + 16 + s) = 1"
    using assms(2,3) by (simp add: Cons y add.assoc)
  with tiles_mid(1) [OF assms(1,2)] show ?thesis by (simp add: coalesce_forward_def Cons)
qed

lemma coalesce_tiles:
  assumes t: "tiles h (xs @ (s, u) # (s2, False) # ys)" and b: "b = s_region_lo h + extent xs"
  shows "tiles (coalesce_forward h b) (xs @ (s + 16 + s2, u) # ys)"
    and "same_region h (coalesce_forward h b)"
    and "s_free (coalesce_forward h b) = add32 (s_free h) 16" and "s_min_free (coalesce_forward h b) = s_min_free h"
proof -
  note mid = tiles_mid [OF t b]
  define n where "n = b + 16 + s"
  define N where "N = (if ys = [] then 0 else n + 16 + s2)"
  have "tiles h ((xs @ [(s, u)]) @ (s2, False) # ys)" using t by simp
  note mid2 = tiles_mid [OF this refl]
  have n: "s_region_lo h + extent (xs @ [(s, u)]) = n" by (simp add: n_def b)
  have mn: "mem h n = \<lparr>b_prev = b, b_next = N, b_size = s2, b_used = 0\<rparr>"
    using mid2(1) unfolding n N_def by (simp add: b)
  have ne: "n \<noteq> b" "n \<noteq> 0" "N \<noteq> b" "N \<noteq> n" "b < n" using mid(2) by (auto simp: n_def N_def)
  have bn: "next_of h b = n" "size_of h b = s" using mid(1) by (simp_all add: n_def)
  have sum: "add32 s (add32 HDR s2) = s + 16 + s2"
    using mid(4) by (simp add: HDR_def add32_small)
  define h1 where "h1 = set_size b (s + 16 + s2) h"
  define h2 where "h2 = set_next b N h1"
  define h3 where "h3 = (if N \<noteq> 0 then set_prev N b h2 else h2)"
  have n1: "next_of h1 n = N" "next_of h2 n = N" using ne mn by (simp_all add: h1_def h2_def heap_defs)
  have go: "(n = 0 \<or> (0 :: nat) \<noteq> 0) = False" using ne by simp
  have eq: "coalesce_forward h b = h3\<lparr>s_free := add32 (s_free h3) HDR\<rparr>"
    by (simp only: coalesce_forward_def Let_def bn go if_False mn block.simps sum h1_def [symmetric] n1
        h2_def [symmetric] h3_def [symmetric])
  have m: "mem (coalesce_forward h b) = (\<lambda>x. if x = b then (mem h b)\<lparr>b_size := s + 16 + s2, b_next := N\<rparr>
      else if x = N \<and> N \<noteq> 0 then (mem h N)\<lparr>b_prev := b\<rparr> else mem h x)"
    using ne by (cases "N = 0") (auto simp: eq h3_def h2_def h1_def heap_defs fun_eq_iff)
  have f: "same_region h h3" "s_free h3 = s_free h" "s_min_free h3 = s_min_free h"
    by (simp_all add: h3_def h2_def h1_def heap_defs same_region_def)
  show r: "same_region h (coalesce_forward h b)" using f(1) by (simp add: eq same_region_def)
  show "s_free (coalesce_forward h b) = add32 (s_free h) 16" "s_min_free (coalesce_forward h b) = s_min_free h"
    using f by (simp_all add: eq HDR_def)
  have t': "tiles h (xs @ [(s, u), (s2, False)] @ ys)" using t by simp
  have "tiles (coalesce_forward h b) (xs @ [(s + 16 + s2, u)] @ ys)"
  proof (rule tiles_replace [OF t' b _ r])
    have "(s + 16 + s2) mod 8 = 0" using mid(6) mid2(6) by (simp add: mod_eq_0_iff_dvd)
    then show "\<forall>(s, u) \<in> set [(s + 16 + s2, u)]. 8 \<le> s \<and> s mod 8 = 0" by simp
    show "seg (mem (coalesce_forward h b)) (last_addr 0 (s_region_lo h) xs) b [(s + 16 + s2, u)]
        (if ys = [] then 0 else b + extent [(s, u), (s2, False)])"
      using mid(1) by (simp add: m N_def n_def)
    show "mem (coalesce_forward h b) x = mem h x" if "x < b" for x using that ne by (auto simp: m N_def)
    show "mem (coalesce_forward h b) x = mem h x" if "b + extent [(s, u), (s2, False)] < x" for x
      using that ne by (auto simp: m N_def n_def)
    show "mem (coalesce_forward h b) (b + extent [(s, u), (s2, False)])
        = (mem h (b + extent [(s, u), (s2, False)]))\<lparr>b_prev := last_addr 0 b [(s + 16 + s2, u)]\<rparr>" if "ys \<noteq> []"
    proof -
      have "N = b + extent [(s, u), (s2, False)]" "N \<noteq> 0" using that ne by (simp_all add: N_def n_def)
      then show ?thesis using ne by (simp add: m)
    qed
  qed simp_all
  then show "tiles (coalesce_forward h b) (xs @ (s + 16 + s2, u) # ys)" by simp
qed

end
