(* ===== verification/Heap_Alloc.thy ===== *)
theory Heap_Alloc imports Heap_Layout begin

text \<open>
  The allocator keeps its heap well-formed, and what allocation, release and resizing do to
  the set of live payloads.
\<close>

section \<open>The invariant\<close>

definition free_sum :: "blocks \<Rightarrow> nat" where
  "free_sum bs = sum_list (map (\<lambda>(s, u). if u then 0 else s) bs)"

lemma free_sum_simps [simp]:
  "free_sum [] = 0" "free_sum ((s, u) # bs) = (if u then 0 else s) + free_sum bs" "free_sum (xs @ ys) = free_sum xs + free_sum ys"
  by (simp_all add: free_sum_def)

lemma free_sum_le: "free_sum bs \<le> extent bs"
  by (induction bs) auto

definition sep :: "blocks \<Rightarrow> bool" where
  "sep bs = successively (\<lambda>x y. snd x \<or> snd y) bs"

lemma sep_simps [simp]: "sep []" "sep [x]" "sep (x # y # bs) \<longleftrightarrow> (snd x \<or> snd y) \<and> sep (y # bs)"
  by (simp_all add: sep_def)

lemma sep_append: "sep (xs @ ys) \<longleftrightarrow> sep xs \<and> sep ys \<and> (xs = [] \<or> ys = [] \<or> snd (last xs) \<or> snd (hd ys))"
  by (auto simp: sep_def successively_append_iff)

lemma sep_Cons: "sep (x # ys) \<longleftrightarrow> sep ys \<and> (ys = [] \<or> snd x \<or> snd (hd ys))"
  by (cases ys) auto

text \<open>
  \<open>heap_rep h bs\<close>: the heap \<open>h\<close> is laid out as \<open>bs\<close>, no two free blocks are neighbours, and
  the counters count.
\<close>

definition heap_rep :: "reflex_heap \<Rightarrow> blocks \<Rightarrow> bool" where
  "heap_rep h bs \<longleftrightarrow> tiles h bs \<and> sep bs \<and> s_free h = free_sum bs \<and> s_min_free h \<le> s_free h"

lemma heap_repI: "tiles h bs \<Longrightarrow> sep bs \<Longrightarrow> s_free h = free_sum bs \<Longrightarrow> s_min_free h \<le> s_free h \<Longrightarrow> heap_rep h bs"
  by (simp add: heap_rep_def)

lemma heap_repD:
  assumes "heap_rep h bs"
  shows "tiles h bs" "sep bs" "s_free h = free_sum bs" "s_min_free h \<le> s_free h" "s_free h < 2 ^ 32"
  using assms free_sum_le [of bs] by (auto simp: heap_rep_def tiles_def)

lemma seg_unique: "seg m p a xs 0 \<Longrightarrow> seg m q a ys 0 \<Longrightarrow> xs \<noteq> [] \<Longrightarrow> ys \<noteq> [] \<Longrightarrow> xs = ys"
proof (induction xs arbitrary: p q a ys)
  case (Cons x xs)
  obtain s u where x: "x = (s, u)" by fastforce
  obtain t v zs where y: "ys = (t, v) # zs" using Cons.prems(4) by (cases ys) auto
  have "\<lparr>b_prev = p, b_next = (if xs = [] then 0 else a + 16 + s), b_size = s, b_used = (if u then 1 else 0)\<rparr>
      = \<lparr>b_prev = q, b_next = (if zs = [] then 0 else a + 16 + t), b_size = t, b_used = (if v then 1 else 0)\<rparr>"
    using Cons.prems(1,2) unfolding x y seg.simps by metis
  then have s: "s = t" "u = v" "xs = [] \<longleftrightarrow> zs = []"
    by (simp_all split: if_splits)
  show ?case
  proof (cases "xs = []")
    case False
    with Cons.IH [of a "a + 16 + s" a zs] Cons.prems(1,2) s show ?thesis by (simp add: x y)
  qed (use s x y in simp)
qed simp

lemma tiles_unique: "tiles h bs \<Longrightarrow> tiles h bs' \<Longrightarrow> bs = bs'"
  by (rule seg_unique [of "mem h" 0 "s_region_lo h" _ 0]) (simp_all add: tiles_def)

text \<open>The live payloads of a layout: address and size.\<close>

fun payloads :: "nat \<Rightarrow> blocks \<Rightarrow> (nat \<times> nat) set" where
  "payloads a [] = {}"
| "payloads a ((s, u) # bs) = (if u then {(a + 16, s)} else {}) \<union> payloads (a + 16 + s) bs"

lemma payloads_append [simp]: "payloads a (xs @ ys) = payloads a xs \<union> payloads (a + extent xs) ys"
  by (induction xs arbitrary: a) (auto simp: add.assoc)

lemma payloads_bounds: "(p, s) \<in> payloads a bs \<Longrightarrow> a + 16 \<le> p \<and> p + s \<le> a + extent bs"
proof (induction bs arbitrary: a)
  case (Cons b bs)
  obtain t u where b: "b = (t, u)" by fastforce
  show ?case
  proof (cases "(p, s) \<in> payloads (a + 16 + t) bs")
    case True
    from Cons.IH [OF this] show ?thesis by (simp add: b)
  next
    case False
    with Cons.prems show ?thesis by (auto simp: b split: if_splits)
  qed
qed simp

lemma payloads_disjoint:
  "(p, s) \<in> payloads a bs \<Longrightarrow> (q, t) \<in> payloads a bs \<Longrightarrow> (p, s) = (q, t) \<or> p + s + 16 \<le> q \<or> q + t + 16 \<le> p"
proof (induction bs arbitrary: a)
  case (Cons b bs)
  obtain r u where b: "b = (r, u)" by fastforce
  let ?a = "a + 16 + r"
  have "(x, y) \<in> payloads ?a bs \<Longrightarrow> ?a + 16 \<le> x" for x y using payloads_bounds by blast
  note lo = this
  consider "(p, s) \<in> payloads ?a bs" "(q, t) \<in> payloads ?a bs" | "(p, s) = (a + 16, r)" | "(q, t) = (a + 16, r)"
    using Cons.prems by (auto simp: b split: if_splits)
  then show ?case
  proof cases
    case 1
    then show ?thesis by (rule Cons.IH)
  next
    case 2
    then show ?thesis using Cons.prems(2) lo [of q t] by (auto simp: b split: if_splits)
  next
    case 3
    then show ?thesis using Cons.prems(1) lo [of p s] by (auto simp: b split: if_splits)
  qed
qed simp

lemma payloads_split: "(p, s) \<in> payloads a bs \<Longrightarrow> \<exists>xs ys. bs = xs @ (s, True) # ys \<and> p = a + extent xs + 16"
proof (induction bs arbitrary: a)
  case (Cons b bs)
  obtain t u where b: "b = (t, u)" by fastforce
  show ?case
  proof (cases "(p, s) \<in> payloads (a + 16 + t) bs")
    case True
    then obtain xs ys where "bs = xs @ (s, True) # ys" "p = a + 16 + t + extent xs + 16" using Cons.IH by blast
    then have "b # bs = (b # xs) @ (s, True) # ys" "p = a + extent (b # xs) + 16" by (simp_all add: b)
    then show ?thesis by blast
  next
    case False
    with Cons.prems have "u" "p = a + 16" "s = t" by (auto simp: b split: if_splits)
    then have "b # bs = [] @ (s, True) # bs" "p = a + extent [] + 16" by (simp_all add: b)
    then show ?thesis by blast
  qed
qed simp

section \<open>Where an aligned payload can start\<close>

text \<open>
  A gap of \<open>g\<close> bytes below the payload is possible when it is none or holds a block of its
  own and the payload is then aligned. The code takes the least such gap.
\<close>

definition gap_possible :: "nat \<Rightarrow> nat \<Rightarrow> nat \<Rightarrow> bool" where
  "gap_possible al pay g \<longleftrightarrow> (g = 0 \<or> 24 \<le> g) \<and> (pay + g) mod al = 0"

lemma gap_loop_least:
  assumes "8 \<le> al" "al < 2 ^ 32 - 24" "pay < 2 ^ 32"
  shows "(pay + g) mod al = 0 \<Longrightarrow> g < al + 24 \<Longrightarrow> (\<And>g'. g' < g \<Longrightarrow> \<not> gap_possible al pay g') \<Longrightarrow>
    \<exists>r. gap_loop al pay (add32 pay g) = Some r \<and> gap_possible al pay r \<and> r < al + 24 \<and> (\<forall>g' < r. \<not> gap_possible al pay g')"
proof (induction "24 - g" arbitrary: g rule: less_induct)
  case less
  have g: "sub32 (add32 pay g) pay = g"
  proof -
    have "int (sub32 (add32 pay g) pay) = ((int pay + int g) mod 2 ^ 32 - int pay) mod 2 ^ 32"
      by (simp add: int_sub32 add32_def zmod_int)
    also have "\<dots> = int g mod 2 ^ 32" by (simp add: mod_diff_left_eq)
    also have "\<dots> = int g" using less.prems(2) assms(2) by simp
    finally show ?thesis by simp
  qed
  show ?case
  proof (cases "g \<noteq> 0 \<and> g < 24")
    case True
    have "add32 (add32 pay g) al = add32 pay (g + al)"
      by (simp add: add32_def mod_add_left_eq add.assoc)
    then have "gap_loop al pay (add32 pay g) = gap_loop al pay (add32 pay (g + al))"
      by (subst gap_loop.simps) (simp add: g True SPLIT_MIN_def Let_def)
    moreover have "\<exists>r. gap_loop al pay (add32 pay (g + al)) = Some r \<and> gap_possible al pay r \<and> r < al + 24 \<and> (\<forall>g' < r. \<not> gap_possible al pay g')"
    proof (rule less.hyps)
      show "24 - (g + al) < 24 - g" using True assms(1) by linarith
      show "(pay + (g + al)) mod al = 0" using less.prems(1) by (simp add: add.assoc [symmetric])
      show "g + al < al + 24" using True by simp
      show "\<not> gap_possible al pay g'" if "g' < g + al" for g'
      proof (cases "g' < g")
        case False
        then obtain d where "g' = g + d" using le_Suc_ex [of g g'] by auto
        with that have d: "g' = g + d" "d < al" by simp_all
        have "(pay + g') mod al = d"
        proof -
          have "(pay + g') mod al = ((pay + g) mod al + d) mod al" by (simp add: d(1) mod_add_left_eq add.assoc)
          then show ?thesis using less.prems(1) d(2) by simp
        qed
        then show ?thesis using True d by (auto simp: gap_possible_def)
      qed (rule less.prems(3))
    qed
    ultimately show ?thesis by simp
  next
    case False
    then have "gap_loop al pay (add32 pay g) = Some g"
      by (subst gap_loop.simps) (auto simp: g SPLIT_MIN_def Let_def)
    moreover have "gap_possible al pay g" using False less.prems(1) by (auto simp: gap_possible_def)
    ultimately show ?thesis using less.prems(2,3) by blast
  qed
qed

lemma round_down_mod: "(al :: nat) dvd m \<Longrightarrow> 0 < m \<Longrightarrow> y mod m - (y mod m) mod al = (y - y mod al) mod m"
proof -
  assume d: "al dvd m" "0 < m"
  have e: "(y mod m) mod al = y mod al" using d(1) by (rule mod_mod_cancel)
  have le: "y mod al \<le> y mod m" using e mod_less_eq_dividend [of "y mod m" al] by simp
  have "y = m * (y div m) + y mod m" by simp
  then have "y - y mod al = m * (y div m) + (y mod m - y mod al)" using le by linarith
  then have "(y - y mod al) mod m = (y mod m - y mod al) mod m" by simp
  also have "\<dots> = y mod m - y mod al" using d(2) by (simp add: less_imp_diff_less)
  finally show ?thesis using e by simp
qed

lemma block_gap_least:
  assumes al: "al = 2 ^ k" "8 \<le> al" "al < 2 ^ 32 - 24" and pay: "pay < 2 ^ 32"
  shows "\<exists>g. block_gap al pay = Some g \<and> gap_possible al pay g \<and> g < al + 24 \<and> (\<forall>g' < g. \<not> gap_possible al pay g')"
proof -
  define y where "y = pay + (al - 1)"
  define g where "g = y - y mod al - pay"
  have "(2 :: nat) ^ k < 2 ^ 32" using al(1,3) by simp
  then have "k < 32" by (simp only: power_strict_increasing_iff)
  then have dvd: "al dvd 2 ^ 32" using al(1) le_imp_power_dvd [of k 32 2] by simp
  have ym: "y mod al < al" using al(2) by simp
  have le: "pay \<le> y - y mod al" using ym al(2) unfolding y_def by linarith
  have pg: "pay + g = y - y mod al" using le by (simp add: g_def)
  have gal: "g < al" using pg al(2) by (simp add: y_def)
  have mul: "(pay + g) mod al = 0" using pg by (simp add: minus_mod_eq_mult_div)
  have "mask_down (add32 pay (al - 1)) al = y mod 2 ^ 32 - (y mod 2 ^ 32) mod al"
    unfolding al(1) mask_down_power by (simp add: add32_def y_def al(1))
  also have "\<dots> = add32 pay g" using round_down_mod [OF dvd, of y] pg by (simp add: add32_def)
  finally have "block_gap al pay = gap_loop al pay (add32 pay g)" by (simp add: block_gap_def)
  moreover have "\<not> gap_possible al pay g'" if "g' < g" for g'
  proof
    assume "gap_possible al pay g'"
    then have "al dvd pay + g'" "al dvd pay + g" using mul by (auto simp: gap_possible_def mod_eq_0_iff_dvd)
    then have "al dvd (pay + g) - (pay + g')" by (rule dvd_diff_nat [rotated])
    then have "al dvd g - g'" by simp
    then show False using that gal by (metis dvd_imp_le less_imp_diff_less not_less zero_less_diff)
  qed
  ultimately show ?thesis using gap_loop_least [OF al(2,3) pay mul] gal by auto
qed

section \<open>Taking a block\<close>

text \<open>What a free block of \<open>s\<close> bytes becomes when \<open>want\<close> of them are taken.\<close>

definition taken :: "nat \<Rightarrow> nat \<Rightarrow> blocks" where
  "taken s want = (if s < want + 24 then [(s, True)] else [(want, True), (s - want - 16, False)])"

lemma set_used_tiles:
  assumes t: "tiles h (xs @ (s, u) # ys)" and b: "b = s_region_lo h + extent xs"
  shows "tiles (set_used b (if v then 1 else 0) h) (xs @ (s, v) # ys)"
proof -
  note mid = tiles_mid [OF t b]
  let ?h = "set_used b (if v then 1 else 0) h"
  have t': "tiles h (xs @ [(s, u)] @ ys)" using t by simp
  note rest = tiles_rest [OF t' b]
  have r1: "seg (mem h) b (b + 16 + s) ys 0" using rest(1) by (simp add: add.assoc)
  have "seg (mem ?h) 0 (s_region_lo h) xs b \<longleftrightarrow> seg (mem h) 0 (s_region_lo h) xs b"
    by (rule seg_frame) (simp add: set_used_def b)
  moreover have "seg (mem ?h) b (b + 16 + s) ys 0 \<longleftrightarrow> seg (mem h) b (b + 16 + s) ys 0"
    by (rule seg_frame) (simp add: set_used_def)
  moreover have "mem ?h b = (mem h b)\<lparr>b_used := (if v then 1 else 0)\<rparr>" by (simp add: set_used_def)
  ultimately have "seg (mem ?h) 0 (s_region_lo h) (xs @ (s, v) # ys) 0"
    using rest(2) r1 mid(1) by (simp add: seg_append b [symmetric])
  with t show ?thesis by (intro tilesI [OF t]) (auto simp: tiles_def)
qed

lemma take_block_tiles:
  assumes t: "tiles h (xs @ (s, False) # ys)" and b: "b = s_region_lo h + extent xs"
    and w: "want \<le> s" "8 \<le> want" "want mod 8 = 0" and f: "s \<le> s_free h" "s_free h < 2 ^ 32"
  shows "fst (take_block h b want) = b + 16"
    and "tiles (snd (take_block h b want)) (xs @ taken s want @ ys)"
    and "same_region h (snd (take_block h b want))"
    and "s_free (snd (take_block h b want)) = s_free h - s + free_sum (taken s want)"
    and "s_min_free (snd (take_block h b want)) = min (s_min_free h) (s_free (snd (take_block h b want)))"
proof -
  show "fst (take_block h b want) = b + 16"
    using tiles_mid(7) [OF t b] by (simp add: take_block_def Let_def)
  define h1 where "h1 = set_used b 1 (split h b want)"
  have core: "tiles h1 (xs @ taken s want @ ys) \<and> same_region h h1 \<and> s_min_free h1 = s_min_free h
      \<and> sub32 (s_free h1) (size_of h1 b) = s_free h - s + free_sum (taken s want)"
  proof (cases "s < want + 24")
    case True
    then have sp: "split h b want = h" using split_declined [OF t b w(1)] by simp
    have "tiles h1 (xs @ (s, True) # ys)" using set_used_tiles [OF t b, of True] by (simp add: h1_def sp)
    moreover have "size_of h1 b = s" using tiles_mid(1) [OF t b] by (simp add: h1_def sp set_used_def)
    ultimately show ?thesis using True f by (simp add: taken_def h1_def sp sub32_small)
  next
    case False
    then have "want + 24 \<le> s" by simp
    note sp = split_tiles [OF t b this w(2,3)]
    have b': "b = s_region_lo (split h b want) + extent xs" using b sp(2) by (simp add: same_region_def)
    have "tiles h1 (xs @ (want, True) # (s - want - 16, False) # ys)"
      using set_used_tiles [OF sp(1) b', of True] by (simp add: h1_def)
    moreover have "size_of h1 b = want" using tiles_mid(1) [OF sp(1) b'] by (simp add: h1_def set_used_def)
    moreover have "same_region h h1" using sp(2) by (simp add: h1_def same_region_def set_used_def)
    ultimately show ?thesis using False f w sp(3,4)
      by (simp add: taken_def h1_def sub32_small)
  qed
  define h2 where "h2 = h1\<lparr>s_free := sub32 (s_free h1) (size_of h1 b)\<rparr>"
  have r: "snd (take_block h b want) = note_free_change h2"
    by (simp add: take_block_def Let_def h1_def h2_def)
  have n: "same_region h2 (note_free_change h2)" "mem (note_free_change h2) = mem h2" "s_free (note_free_change h2) = s_free h2"
      "s_min_free (note_free_change h2) = min (s_min_free h2) (s_free h2)"
    by (auto simp: note_free_change_def same_region_def)
  have h2: "same_region h1 h2" "mem h2 = mem h1" "s_min_free h2 = s_min_free h1"
    by (simp_all add: h2_def same_region_def)
  have t1: "tiles h1 (xs @ taken s want @ ys)" using core by simp
  have t2: "tiles h2 (xs @ taken s want @ ys)" by (rule tiles_cong [OF t1 h2(1,2)])
  show "tiles (snd (take_block h b want)) (xs @ taken s want @ ys)" unfolding r by (rule tiles_cong [OF t2 n(1,2)])
  show "same_region h (snd (take_block h b want))"
    unfolding r using core h2(1) n(1) by (meson same_region_trans)
  show "s_free (snd (take_block h b want)) = s_free h - s + free_sum (taken s want)"
    unfolding r using core n(3) by (simp add: h2_def)
  show "s_min_free (snd (take_block h b want)) = min (s_min_free h) (s_free (snd (take_block h b want)))"
    unfolding r using core n(3,4) h2(3) by simp
qed

section \<open>The search\<close>

text \<open>The blocks a free block of \<open>s\<close> bytes becomes when \<open>want\<close> are taken above a gap of \<open>g\<close>.\<close>

definition carve :: "nat \<Rightarrow> nat \<Rightarrow> nat \<Rightarrow> blocks" where
  "carve g s want = (if g = 0 then [] else [(g - 16, False)]) @ taken (s - g) want"

lemma carve_extent: "g = 0 \<or> 16 \<le> g \<Longrightarrow> g + want \<le> s \<Longrightarrow> extent (carve g s want) = 16 + s"
  by (auto simp: carve_def taken_def)

lemma carve_sep:
  "sep (xs @ (s, False) # ys) \<Longrightarrow> sep (xs @ carve g s want @ ys)"
  by (auto simp: sep_append sep_Cons carve_def taken_def)

lemma carve_payloads:
  "payloads b (carve g s want) = {(b + 16 + g, if s - g < want + 24 then s - g else want)}" if "g = 0 \<or> 16 \<le> g"
  using that by (auto simp: carve_def taken_def)

text \<open>What both callers ask for: a power of two and a rounded size, small enough together.\<close>

definition request_ok :: "nat \<Rightarrow> nat \<Rightarrow> bool" where
  "request_ok al want \<longleftrightarrow> (\<exists>k. al = 2 ^ k) \<and> 8 \<le> al \<and> al < 2 ^ 32 - 24 \<and> 8 \<le> want \<and> want mod 8 = 0 \<and> want < 2 ^ 32
     \<and> (al = 8 \<or> al + want + 24 \<le> 2 ^ 32)"

text \<open>The gap the search finds below the payload of the block at \<open>b\<close>.\<close>

definition least_gap :: "nat \<Rightarrow> nat \<Rightarrow> nat \<Rightarrow> bool" where
  "least_gap al pay g \<longleftrightarrow> gap_possible al pay g \<and> (\<forall>g' < g. \<not> gap_possible al pay g')"

lemma request_gap:
  assumes r: "request_ok al want" and pay: "pay < 2 ^ 32" "pay mod 8 = 0"
  obtains g where "block_gap al pay = Some g" "least_gap al pay g" "g = 0 \<or> 24 \<le> g" "g mod 8 = 0"
    "g \<noteq> 0 \<Longrightarrow> g + want < 2 ^ 32"
proof -
  from r obtain k where k: "al = 2 ^ k" "8 \<le> al" "al < 2 ^ 32 - 24" unfolding request_ok_def by blast
  obtain g where g: "block_gap al pay = Some g" "gap_possible al pay g" "g < al + 24" "\<forall>g' < g. \<not> gap_possible al pay g'"
    using block_gap_least [OF k pay(1)] by blast
  have "8 dvd al" using power_two_8 k(1,2) by simp
  moreover have "al dvd pay + g" using g(2) by (simp add: gap_possible_def mod_eq_0_iff_dvd)
  ultimately have "8 dvd pay + g" by (rule dvd_trans)
  then have "g mod 8 = 0" using pay(2) by (simp add: dvd_add_right_iff mod_eq_0_iff_dvd)
  moreover have "g + want < 2 ^ 32" if "g \<noteq> 0"
  proof (cases "al = 8")
    case True
    then have "gap_possible al pay 0" using pay(2) by (simp add: gap_possible_def)
    with g(4) that show ?thesis by blast
  next
    case False
    with r g(3) show ?thesis by (auto simp: request_ok_def)
  qed
  ultimately show ?thesis using g that by (auto simp: least_gap_def gap_possible_def)
qed

lemma search_used:
  assumes "tiles h (xs @ (s, True) # ys)" "b = s_region_lo h + extent xs"
  shows "alloc_search al want b h = alloc_search al want (if ys = [] then 0 else b + 16 + s) h"
  using tiles_mid [OF assms] by (subst alloc_search.simps) simp

lemma search_small:
  assumes t: "tiles h (xs @ (s, False) # ys)" and b: "b = s_region_lo h + extent xs"
    and r: "request_ok al want" and g: "least_gap al (b + 16) g" "s < g + want"
  shows "alloc_search al want b h = alloc_search al want (if ys = [] then 0 else b + 16 + s) h"
proof -
  note mid = tiles_mid [OF t b]
  have pay: "b + 16 < 2 ^ 32" "(b + 16) mod 8 = 0" using mid(3,4) by (auto simp: mod_eq_0_iff_dvd)
  obtain g1 where g1: "block_gap al (b + 16) = Some g1" "least_gap al (b + 16) g1" "g1 \<noteq> 0 \<Longrightarrow> g1 + want < 2 ^ 32"
    using request_gap [OF r pay] by metis
  have "g1 = g" using g(1) g1(2) unfolding least_gap_def by (meson linorder_neqE_nat)
  then show ?thesis
    using mid(1,2,7) g1 g(2) by (subst alloc_search.simps) (simp add: add32_small)
qed

lemma search_here:
  assumes rep: "heap_rep h (xs @ (s, False) # ys)" and b: "b = s_region_lo h + extent xs"
    and r: "request_ok al want" and g: "least_gap al (b + 16) g" "g + want \<le> s"
  obtains h' where "alloc_search al want b h = Some (b + 16 + g, h')" "heap_rep h' (xs @ carve g s want @ ys)" "same_region h h'"
proof -
  note t = heap_repD(1) [OF rep]
  note mid = tiles_mid [OF t b]
  have pay: "b + 16 < 2 ^ 32" "(b + 16) mod 8 = 0" using mid(3,4) by (auto simp: mod_eq_0_iff_dvd)
  obtain g1 where g1: "block_gap al (b + 16) = Some g1" "least_gap al (b + 16) g1" "g1 = 0 \<or> 24 \<le> g1" "g1 mod 8 = 0"
      "g1 \<noteq> 0 \<Longrightarrow> g1 + want < 2 ^ 32"
    using request_gap [OF r pay] by metis
  have gg: "g1 = g" using g(1) g1(2) unfolding least_gap_def by (meson linorder_neqE_nat)
  have want: "8 \<le> want" "want mod 8 = 0" using r by (simp_all add: request_ok_def)
  have free: "s_free h = free_sum xs + s + free_sum ys" using heap_repD(3) [OF rep] by simp
  have fl: "s_free h < 2 ^ 32" using heap_repD(5) [OF rep] .
  have start: "(if b = 0 then Some (0, h) else if used_of h b \<noteq> 0 then X else Y) = Y" for X Y :: "(nat \<times> reflex_heap) option"
    using mid(1,2) by simp
  show ?thesis
  proof (cases "g = 0")
    case True
    note tk = take_block_tiles [OF t b _ want _ fl]
    have ws: "want \<le> s" "s \<le> s_free h" using g(2) True free by simp_all
    note tk = tk [OF ws]
    have "alloc_search al want b h = Some (take_block h b want)"
      using mid(1,2,7) g1 gg True ws by (subst alloc_search.simps) simp
    moreover have "heap_rep (snd (take_block h b want)) (xs @ carve g s want @ ys)"
    proof (rule heap_repI)
      show "tiles (snd (take_block h b want)) (xs @ carve g s want @ ys)" using tk(2) True by (simp add: carve_def)
      show "sep (xs @ carve g s want @ ys)" by (rule carve_sep [OF heap_repD(2) [OF rep]])
      show "s_free (snd (take_block h b want)) = free_sum (xs @ carve g s want @ ys)" using tk(4) free True by (simp add: carve_def)
      show "s_min_free (snd (take_block h b want)) \<le> s_free (snd (take_block h b want))" using tk(5) by simp
    qed
    ultimately show ?thesis using that tk(1,3) True by (metis add.right_neutral prod.collapse)
  next
    case False
    then have g24: "24 \<le> g" "g mod 8 = 0" "g + want < 2 ^ 32" using g1 gg by simp_all
    have sub: "sub32 g HDR = g - 16" using g24 by (simp add: sub32_small HDR_def)
    have w1: "g - 16 + 24 \<le> s" "8 \<le> g - 16" "(g - 16) mod 8 = 0" using g24 g(2) want by (simp_all add: mod_eq_0_iff_dvd dvd_diff_nat)
    define h1 where "h1 = split h b (g - 16)"
    note sp = split_tiles [OF t b w1, folded h1_def]
    have "s - (g - 16) - 16 = s - g" using g24(1) by simp
    then have t1: "tiles h1 (xs @ (g - 16, False) # (s - g, False) # ys)" using sp(1) by simp
    have lo: "s_region_lo h1 = s_region_lo h" using sp(2) by (simp add: same_region_def)
    have b1: "b + g = s_region_lo h1 + extent (xs @ [(g - 16, False)])" using lo b g24(1) by simp
    have t2: "tiles h1 ((xs @ [(g - 16, False)]) @ (s - g, False) # ys)" using t1 by simp
    note mid1 = tiles_mid [OF t1, of b] and mid2 = tiles_mid [OF t2 b1]
    have n1: "next_of h1 b = b + g" using mid1(1) lo b g24(1) by simp
    have f1: "s_free h1 = s_free h - 16" using sp(3) free fl g(2) g24(1) by (simp add: sub32_small)
    have ws: "want \<le> s - g" "s - g \<le> s_free h1" "s_free h1 < 2 ^ 32" using g(2) free f1 fl g24(1) by simp_all
    note tk = take_block_tiles [OF t2 b1 ws(1) want ws(2,3)]
    define h2 where "h2 = snd (take_block h1 (b + g) want)"
    have "alloc_search al want b h = Some (take_block h1 (b + g) want)"
      using mid(1,2,7) g1(1) gg False g(2) g24(3) sub mid2(1,2) ws(1)
      by (subst alloc_search.simps) (simp add: add32_small h1_def [symmetric] n1)
    then have "alloc_search al want b h = Some (b + 16 + g, h2)"
      using tk(1) by (simp add: h2_def prod_eq_iff)
    moreover have "heap_rep h2 (xs @ carve g s want @ ys)"
    proof (rule heap_repI)
      show "tiles h2 (xs @ carve g s want @ ys)" using tk(2) False by (simp add: carve_def h2_def)
      show "sep (xs @ carve g s want @ ys)" by (rule carve_sep [OF heap_repD(2) [OF rep]])
      show "s_free h2 = free_sum (xs @ carve g s want @ ys)"
        using tk(4) f1 free False g(2) g24(1) by (simp add: carve_def h2_def)
      show "s_min_free h2 \<le> s_free h2" using tk(5) by (simp add: h2_def)
    qed
    moreover have "same_region h h2" using sp(2) tk(3) unfolding h2_def by (rule same_region_trans)
    ultimately show ?thesis using that by blast
  qed
qed

fun no_room :: "nat \<Rightarrow> nat \<Rightarrow> nat \<Rightarrow> blocks \<Rightarrow> bool" where
  "no_room al want a [] = True"
| "no_room al want a ((s, u) # bs) \<longleftrightarrow>
     (u \<or> (\<forall>g. gap_possible al (a + 16) g \<longrightarrow> s < g + want)) \<and> no_room al want (a + 16 + s) bs"

lemma search_from:
  assumes r: "request_ok al want"
  shows "heap_rep h (xs @ ys) \<Longrightarrow>
    (alloc_search al want (if ys = [] then 0 else s_region_lo h + extent xs) h = Some (0, h) \<and> no_room al want (s_region_lo h + extent xs) ys)
    \<or> (\<exists>us s vs g h'. ys = us @ (s, False) # vs \<and> gap_possible al (s_region_lo h + extent (xs @ us) + 16) g \<and> g + want \<le> s
        \<and> alloc_search al want (if ys = [] then 0 else s_region_lo h + extent xs) h = Some (s_region_lo h + extent (xs @ us) + 16 + g, h')
        \<and> heap_rep h' ((xs @ us) @ carve g s want @ vs) \<and> same_region h h')"
proof (induction ys arbitrary: xs)
  case Nil
  show ?case by (subst alloc_search.simps) simp
next
  case (Cons y ys)
  obtain s u where y: "y = (s, u)" by fastforce
  let ?b = "s_region_lo h + extent xs"
  have rep: "heap_rep h (xs @ (s, u) # ys)" using Cons.prems by (simp add: y)
  note t = heap_repD(1) [OF rep]
  note mid = tiles_mid [OF t refl]
  have pay: "?b + 16 < 2 ^ 32" "(?b + 16) mod 8 = 0" using mid(3,4) by (auto simp: mod_eq_0_iff_dvd)
  obtain g where g: "least_gap al (?b + 16) g" using request_gap [OF r pay] by metis
  have skip: ?case if "alloc_search al want ?b h = alloc_search al want (if ys = [] then 0 else ?b + 16 + s) h"
      and "u \<or> (\<forall>g. gap_possible al (?b + 16) g \<longrightarrow> s < g + want)"
  proof -
    have "heap_rep h ((xs @ [(s, u)]) @ ys)" using rep by simp
    from Cons.IH [OF this] show ?thesis
    proof
      assume a: "alloc_search al want (if ys = [] then 0 else s_region_lo h + extent (xs @ [(s, u)])) h = Some (0, h)
        \<and> no_room al want (s_region_lo h + extent (xs @ [(s, u)])) ys"
      show ?thesis by (rule disjI1) (cases "ys = []"; use a that in \<open>simp add: y add.assoc\<close>)
    next
      assume "\<exists>us s' vs g h'. ys = us @ (s', False) # vs \<and> gap_possible al (s_region_lo h + extent ((xs @ [(s, u)]) @ us) + 16) g
        \<and> g + want \<le> s'
        \<and> alloc_search al want (if ys = [] then 0 else s_region_lo h + extent (xs @ [(s, u)])) h
            = Some (s_region_lo h + extent ((xs @ [(s, u)]) @ us) + 16 + g, h')
        \<and> heap_rep h' (((xs @ [(s, u)]) @ us) @ carve g s' want @ vs) \<and> same_region h h'"
      then obtain us s' vs g h' where i: "ys = us @ (s', False) # vs"
          "gap_possible al (s_region_lo h + extent ((xs @ [(s, u)]) @ us) + 16) g" "g + want \<le> s'"
          "alloc_search al want (if ys = [] then 0 else s_region_lo h + extent (xs @ [(s, u)])) h
            = Some (s_region_lo h + extent ((xs @ [(s, u)]) @ us) + 16 + g, h')"
          "heap_rep h' (((xs @ [(s, u)]) @ us) @ carve g s' want @ vs)" "same_region h h'"
        by blast
      show ?thesis
        by (rule disjI2, rule exI [of _ "(s, u) # us"], rule exI [of _ s'], rule exI [of _ vs], rule exI [of _ g], rule exI [of _ h'])
          (cases "ys = []"; use i that(1) in \<open>simp add: y add.assoc\<close>)
    qed
  qed
  consider "u" | "\<not> u" "s < g + want" | "\<not> u" "g + want \<le> s" by linarith
  then show ?case
  proof cases
    case 1
    then have "tiles h (xs @ (s, True) # ys)" using t by simp
    from skip [OF search_used [OF this refl]] 1 show ?thesis by simp
  next
    case 2
    then have "tiles h (xs @ (s, False) # ys)" using t by simp
    moreover have "\<forall>g'. gap_possible al (?b + 16) g' \<longrightarrow> s < g' + want"
    proof (intro allI impI)
      fix g' assume "gap_possible al (?b + 16) g'"
      then have "g \<le> g'" using g unfolding least_gap_def by (meson not_le)
      then show "s < g' + want" using 2(2) by linarith
    qed
    ultimately show ?thesis using skip [OF search_small [OF _ refl r g 2(2)]] by blast
  next
    case 3
    then have rep': "heap_rep h (xs @ (s, False) # ys)" using rep by simp
    obtain h' where h': "alloc_search al want ?b h = Some (?b + 16 + g, h')" "heap_rep h' (xs @ carve g s want @ ys)" "same_region h h'"
      using search_here [OF rep' refl r g 3(2)] .
    show ?thesis
      by (rule disjI2, rule exI [of _ "[]"], rule exI [of _ s], rule exI [of _ ys], rule exI [of _ g], rule exI [of _ h'])
        (use h' 3 g in \<open>simp add: y least_gap_def\<close>)
  qed
qed

lemma want_of_bounds:
  assumes "0 < n" "size_is_sane n"
  shows "n \<le> want_of n" "want_of n < n + 8" "want_of n mod 8 = 0" "8 \<le> want_of n" "want_of n < 2 ^ 32"
proof -
  have n: "n \<le> 4294967272" using assms(2) by (simp add: size_is_sane_def ALIGN_def HDR_def)
  have "align_up n = (n + 7) - (n + 7) mod 8"
    using n by (simp add: align_up_def ALIGN_def mask_8 add32_small)
  then have a: "align_up n = 8 * ((n + 7) div 8)" by (simp add: minus_mod_eq_mult_div)
  have "(n + 7) mod 8 < 8" "8 * ((n + 7) div 8) + (n + 7) mod 8 = n + 7" by simp_all
  then have b: "n \<le> align_up n" "align_up n < n + 8" using a by linarith+
  have "8 \<le> align_up n" using a b(1) assms(1) by simp
  then have w: "want_of n = align_up n" by (simp add: want_of_def MIN_PAYLOAD_def)
  show "n \<le> want_of n" "want_of n < n + 8" "8 \<le> want_of n" using w b \<open>8 \<le> align_up n\<close> by simp_all
  show "want_of n mod 8 = 0" using w a by simp
  show "want_of n < 2 ^ 32"
  proof -
    have "(n + 7) div 8 \<le> 536870909" using n by simp
    then show ?thesis using w a by simp
  qed
qed

section \<open>What the operations do to the live payloads\<close>

definition live :: "reflex_heap \<Rightarrow> (nat \<times> nat) set" where
  "live h = {q. \<exists>bs. tiles h bs \<and> q \<in> payloads (s_region_lo h) bs}"

text \<open>The free blocks: where the payload would start, and its size.\<close>

definition holes :: "reflex_heap \<Rightarrow> (nat \<times> nat) set" where
  "holes h = {(p, s). \<exists>xs ys. tiles h (xs @ (s, False) # ys) \<and> p = s_region_lo h + extent xs + 16}"

definition heap_ok :: "reflex_heap \<Rightarrow> bool" where
  "heap_ok h \<longleftrightarrow> (\<exists>bs. heap_rep h bs)"

lemma live_eq: "tiles h bs \<Longrightarrow> live h = payloads (s_region_lo h) bs"
  unfolding live_def using tiles_unique by blast

lemma no_room_holes:
  "no_room al want (a + extent us) (xs @ (s, False) # ys) \<Longrightarrow> gap_possible al (a + extent us + extent xs + 16) g \<Longrightarrow> s < g + want"
proof (induction xs arbitrary: us)
  case (Cons x xs)
  obtain t u where x: "x = (t, u)" by fastforce
  from Cons.prems(1) have "no_room al want (a + extent (us @ [(t, u)])) (xs @ (s, False) # ys)"
    by (simp add: x add.assoc)
  moreover have "gap_possible al (a + extent (us @ [(t, u)]) + extent xs + 16) g"
    using Cons.prems(2) by (simp add: x add.assoc)
  ultimately show ?case by (rule Cons.IH)
qed simp

definition alloc_result :: "reflex_heap \<Rightarrow> nat \<Rightarrow> nat \<Rightarrow> nat \<Rightarrow> reflex_heap \<Rightarrow> bool" where
  "alloc_result h al n p h' \<longleftrightarrow> heap_ok h' \<and> same_region h h' \<and>
     (if p = 0 then h' = h \<and> (\<forall>(q, s) \<in> holes h. \<forall>g. gap_possible al q g \<longrightarrow> s < g + want_of n)
      else p mod al = 0 \<and> (\<exists>s. n \<le> s \<and> live h' = insert (p, s) (live h)
        \<and> s_region_lo h < p \<and> p + s \<le> s_region_hi h \<and> (\<forall>(q, t) \<in> live h. p + s \<le> q \<or> q + t \<le> p)))"

lemma alloc_resultI:
  assumes "heap_ok h'" "same_region h h'" "p mod al = 0" "n \<le> s" "live h' = insert (p, s) (live h)"
    "s_region_lo h < p" "p + s \<le> s_region_hi h" "\<And>q t. (q, t) \<in> live h \<Longrightarrow> p + s \<le> q \<or> q + t \<le> p"
  shows "alloc_result h al n p h'"
proof -
  have "n \<le> s \<and> live h' = insert (p, s) (live h) \<and> s_region_lo h < p \<and> p + s \<le> s_region_hi h
      \<and> (\<forall>(q, t) \<in> live h. p + s \<le> q \<or> q + t \<le> p)"
    using assms by blast
  then have "\<exists>s. n \<le> s \<and> live h' = insert (p, s) (live h) \<and> s_region_lo h < p \<and> p + s \<le> s_region_hi h
      \<and> (\<forall>(q, t) \<in> live h. p + s \<le> q \<or> q + t \<le> p)" by (rule exI)
  with assms show ?thesis unfolding alloc_result_def by simp
qed

lemma alloc_locked_spec:
  assumes ok: "heap_ok h" and n: "0 < n" "size_is_sane n" and r: "request_ok (if al < 8 then 8 else al) (want_of n)"
  shows "\<exists>p h'. alloc_locked h al n = Some (p, h') \<and> alloc_result h (if al < 8 then 8 else al) n p h'"
proof -
  let ?al = "if al < 8 then 8 else al" and ?w = "want_of n" and ?lo = "s_region_lo h"
  obtain bs where rep: "heap_rep h bs" using ok by (auto simp: heap_ok_def)
  note t = heap_repD(1) [OF rep]
  have start: "alloc_locked h al n = alloc_search ?al ?w ?lo h"
    using t n by (simp add: alloc_locked_def tiles_def ALIGN_def)
  have "heap_rep h ([] @ bs)" using rep by simp
  note sf = search_from [OF r this]
  have "bs \<noteq> []" using t by (simp add: tiles_def)
  then have "(if bs = [] then 0 else ?lo) = ?lo" by simp
  note sf [unfolded append_Nil extent_simps(1) add_0_right this]
  then consider "alloc_search ?al ?w ?lo h = Some (0, h)" "no_room ?al ?w ?lo bs"
    | us s vs g h' where "bs = us @ (s, False) # vs" "gap_possible ?al (?lo + extent us + 16) g" "g + ?w \<le> s"
        "alloc_search ?al ?w ?lo h = Some (?lo + extent us + 16 + g, h')" "heap_rep h' (us @ carve g s ?w @ vs)" "same_region h h'"
    by blast
  then show ?thesis
  proof cases
    case 1
    have "s < g + ?w" if "(q, s) \<in> holes h" "gap_possible ?al q g" for q s g
    proof -
      from that(1) obtain xs ys where x: "tiles h (xs @ (s, False) # ys)" "q = ?lo + extent xs + 16"
        by (auto simp: holes_def)
      have "bs = xs @ (s, False) # ys" using tiles_unique [OF t x(1)] .
      with 1(2) that(2) x(2) show ?thesis using no_room_holes [of ?al ?w ?lo "[]" xs s ys g] by simp
    qed
    then have "alloc_result h ?al n 0 h" using ok by (auto simp: alloc_result_def)
    then show ?thesis using start 1(1) by auto
  next
    case (2 us s vs g h')
    let ?p = "?lo + extent us + 16 + g" and ?s = "if s - g < ?w + 24 then s - g else ?w"
    have g: "g = 0 \<or> 16 \<le> g" "(?p) mod ?al = 0" using 2(2) by (auto simp: gap_possible_def)
    have lo: "s_region_lo h' = ?lo" "s_region_hi h' = s_region_hi h" using 2(6) by (simp_all add: same_region_def)
    note t' = heap_repD(1) [OF 2(5)]
    have pl: "live h' = payloads ?lo us \<union> {(?p, ?s)} \<union> payloads (?lo + extent us + 16 + s) vs"
      using live_eq [OF t'] g(1) 2(3) by (simp add: lo carve_payloads carve_extent add.assoc)
    have p0: "live h = payloads ?lo us \<union> payloads (?lo + extent us + 16 + s) vs"
      using live_eq [OF t] by (simp add: 2(1))
    have new: "live h' = insert (?p, ?s) (live h)" unfolding pl p0 by blast
    have "(?p, ?s) \<in> payloads ?lo (us @ carve g s ?w @ vs)" using new live_eq [OF t'] lo by simp
    then have bd: "?p + ?s \<le> s_region_hi h" using payloads_bounds t' lo by (fastforce simp: tiles_def)
    have "n \<le> ?s" using want_of_bounds(1) [OF n] 2(3) by auto
    moreover have "?p + ?s \<le> q \<or> q + r \<le> ?p" if "(q, r) \<in> live h" for q r
    proof -
      from that consider "(q, r) \<in> payloads ?lo us" | "(q, r) \<in> payloads (?lo + extent us + 16 + s) vs" by (auto simp: p0)
      then show ?thesis
      proof cases
        case 1
        from payloads_bounds [OF this] show ?thesis by simp
      next
        case 2
        from payloads_bounds [OF this] \<open>g + ?w \<le> s\<close> show ?thesis by auto
      qed
    qed
    moreover have "heap_ok h'" using 2(5) by (auto simp: heap_ok_def)
    moreover have "?lo < ?p" by simp
    ultimately have "alloc_result h ?al n ?p h'"
      using alloc_resultI [OF _ 2(6) g(2) _ new _ bd] by blast
    then show ?thesis using start 2(4) by auto
  qed
qed

section \<open>Release\<close>

text \<open>Joining a free block at \<open>b\<close> to a free block behind it.\<close>

lemma join_forward:
  assumes t: "tiles h (xs @ (s, False) # ys)" and b: "b = s_region_lo h + extent xs" and y: "sep ys"
    and f: "s_free h = free_sum xs + s + free_sum ys"
  obtains s' zs where "tiles (coalesce_forward h b) (xs @ (s', False) # zs)" "zs = [] \<or> snd (hd zs)" "sep zs"
    "s_free (coalesce_forward h b) = free_sum xs + s' + free_sum zs" "payloads (b + 16 + s') zs = payloads (b + 16 + s) ys"
    "same_region h (coalesce_forward h b)" "s_min_free (coalesce_forward h b) = s_min_free h" "s_free h \<le> s_free (coalesce_forward h b)"
proof (cases "ys = [] \<or> snd (hd ys)")
  case True
  then have "coalesce_forward h b = h" using coalesce_declined [OF t b] by simp
  with True assms that [of s ys] show ?thesis by simp
next
  case False
  then obtain t2 zs where ys: "ys = (t2, False) # zs" by (cases ys) auto
  note co = coalesce_tiles [OF t [unfolded ys] b]
  have "s_free h + 16 < 2 ^ 32"
    using t f free_sum_le [of xs] free_sum_le [of zs] by (simp add: ys tiles_def)
  then have "s_free (coalesce_forward h b) = s_free h + 16" using co(3) by (simp add: add32_small)
  moreover have "zs = [] \<or> snd (hd zs)" "sep zs" using y by (simp_all add: ys sep_Cons)
  ultimately show ?thesis using that [of "s + 16 + t2" zs] co f by (simp add: ys add.assoc)
qed

lemma free_locked_rep:
  assumes rep: "heap_rep h (xs @ (s, True) # ys)" and p: "p = s_region_lo h + extent xs + 16"
  shows "\<exists>bs. heap_rep (free_locked h p) bs \<and> same_region h (free_locked h p)
    \<and> payloads (s_region_lo h) bs = payloads (s_region_lo h) xs \<union> payloads (s_region_lo h + extent xs + 16 + s) ys"
proof -
  define b where "b = s_region_lo h + extent xs"
  note t = heap_repD(1) [OF rep]
  note mid = tiles_mid [OF t b_def]
  have bo: "block_of p = b" using p mid(4) by (simp add: block_of_def b_def HDR_def sub32_small)
  define h1 where "h1 = set_used b 0 h"
  define h2 where "h2 = h1\<lparr>s_free := add32 (s_free h1) (size_of h1 b)\<rparr>"
  define h3 where "h3 = coalesce_forward h2 b"
  have t1: "tiles h1 (xs @ (s, False) # ys)" using set_used_tiles [OF t b_def, of False] by (simp add: h1_def)
  have sz: "size_of h1 b = s" using mid(1) by (simp add: h1_def set_used_def)
  have r2: "same_region h h2" "mem h2 = mem h1" "same_region h1 h2" by (simp_all add: h2_def h1_def same_region_def set_used_def)
  have t2: "tiles h2 (xs @ (s, False) # ys)" by (rule tiles_cong [OF t1 r2(3,2)])
  have lo2: "s_region_lo h2 = s_region_lo h" using r2(1) by (simp add: same_region_def)
  have f: "s_free h = free_sum xs + free_sum ys" using heap_repD(3) [OF rep] by simp
  have "s_free h + s < 2 ^ 32" using f mid(4) free_sum_le [of xs] free_sum_le [of ys] by (simp add: b_def)
  then have f2: "s_free h2 = free_sum xs + s + free_sum ys" using f sz by (simp add: h2_def h1_def add32_small)
  have sep: "sep xs" "sep ys" using heap_repD(2) [OF rep] by (simp_all add: sep_append sep_Cons)
  have b2: "b = s_region_lo h2 + extent xs" by (simp add: b_def lo2)
  obtain s' zs where j: "tiles h3 (xs @ (s', False) # zs)" "zs = [] \<or> snd (hd zs)" "sep zs"
      "s_free h3 = free_sum xs + s' + free_sum zs" "payloads (b + 16 + s') zs = payloads (b + 16 + s) ys"
      "same_region h2 h3" "s_min_free h3 = s_min_free h2" "s_free h2 \<le> s_free h3"
    using join_forward [OF t2 b2 sep(2) f2] unfolding h3_def by blast
  have r3: "same_region h h3" using r2(1) j(6) by (rule same_region_trans)
  have lo3: "s_region_lo h3 = s_region_lo h" using r3 by (simp add: same_region_def)
  have b3: "b = s_region_lo h3 + extent xs" by (simp add: b_def lo3)
  note mid3 = tiles_mid [OF j(1) b3]
  have mf: "s_min_free h3 \<le> s_free h3"
    using heap_repD(4) [OF rep] f f2 j(7,8) by (simp add: h2_def h1_def)
  have fl: "free_locked h p = (if prev_of h3 b \<noteq> 0 \<and> used_of h3 (prev_of h3 b) = 0 then coalesce_forward h3 (prev_of h3 b) else h3)"
    using mid(1) by (simp add: free_locked_def bo Let_def h1_def [symmetric] h2_def [symmetric] h3_def [symmetric])
  have keep: ?thesis if "free_locked h p = h3" "xs = [] \<or> snd (last xs)"
    using that j r3 mf sep by (intro exI [of _ "xs @ (s', False) # zs"]) (auto simp: heap_rep_def sep_append sep_Cons b_def)
  show ?thesis
  proof (cases xs rule: rev_cases)
    case Nil
    with mid3(1) keep fl show ?thesis by simp
  next
    case (snoc us x)
    obtain r v where x: "x = (r, v)" by fastforce
    have tu: "tiles h3 (us @ (r, v) # (s', False) # zs)" using j(1) by (simp add: snoc x)
    note midu = tiles_mid [OF tu refl]
    have pv: "prev_of h3 b = s_region_lo h3 + extent us" using mid3(1) by (simp add: snoc x)
    show ?thesis
    proof (cases v)
      case True
      with midu(1) pv fl have "free_locked h p = h3" by simp
      with keep True show ?thesis by (simp add: snoc x)
    next
      case False
      note co = coalesce_tiles [OF tu refl]
      have e: "free_locked h p = coalesce_forward h3 (s_region_lo h3 + extent us)"
        using midu(1,2) pv fl False by simp
      have "s_free h3 + 16 < 2 ^ 32"
        using tu j(4) free_sum_le [of us] free_sum_le [of zs] False by (simp add: tiles_def snoc x)
      then have "s_free (free_locked h p) = s_free h3 + 16" using co(3) e by (simp add: add32_small)
      then have "heap_rep (free_locked h p) (us @ (r + 16 + s', False) # zs)"
        using co(1,4) j(2,3,4) mf sep(1) False by (auto simp: heap_rep_def e sep_append sep_Cons snoc x)
      moreover have "same_region h (free_locked h p)" using r3 co(2) unfolding e by (rule same_region_trans)
      moreover have "payloads (s_region_lo h) (us @ (r + 16 + s', False) # zs) = payloads (s_region_lo h) xs \<union> payloads (b + 16 + s) ys"
        using j(5) by (simp add: snoc x False b_def add.assoc)
      ultimately show ?thesis unfolding b_def by blast
    qed
  qed
qed

lemma live_split:
  assumes "heap_rep h bs" "(p, s) \<in> live h"
  obtains xs ys where "bs = xs @ (s, True) # ys" "p = s_region_lo h + extent xs + 16"
  using assms payloads_split live_eq [OF heap_repD(1) [OF assms(1)]] by metis

lemma live_plausible:
  assumes "heap_ok h" "(p, s) \<in> live h"
  shows "plausible_payload h p" "p \<noteq> 0" "size_of h (block_of p) = s" "used_of h (block_of p) = 1"
proof -
  obtain bs where rep: "heap_rep h bs" using assms(1) by (auto simp: heap_ok_def)
  obtain xs ys where x: "bs = xs @ (s, True) # ys" "p = s_region_lo h + extent xs + 16" using live_split [OF rep assms(2)] .
  have t: "tiles h (xs @ (s, True) # ys)" using heap_repD(1) [OF rep] x(1) by simp
  note mid = tiles_mid [OF t refl]
  have bo: "block_of p = s_region_lo h + extent xs" using x(2) mid(4) by (simp add: block_of_def HDR_def sub32_small)
  show "size_of h (block_of p) = s" "used_of h (block_of p) = 1" using mid(1) bo by simp_all
  show "p \<noteq> 0" using x(2) by simp
  have "p mod 8 = 0" using mid(3) x(2) by (auto simp: mod_eq_0_iff_dvd)
  moreover have "add32 (s_region_lo h) HDR \<le> p" using mid(4) x(2) by (simp add: HDR_def add32_small)
  moreover have "p < s_region_hi h" using t x(2) mid(5) by (simp add: tiles_def)
  ultimately show "plausible_payload h p"
    using t x(2) by (simp add: plausible_payload_def ALIGN_def mask_8 tiles_def)
qed

lemma free_live:
  assumes ok: "heap_ok h" and l: "(p, s) \<in> live h"
  shows "heap_ok (free_locked h p)" "live (free_locked h p) = live h - {(p, s)}" "same_region h (free_locked h p)"
proof -
  obtain bs where rep: "heap_rep h bs" using ok by (auto simp: heap_ok_def)
  obtain xs ys where x: "bs = xs @ (s, True) # ys" "p = s_region_lo h + extent xs + 16" using live_split [OF rep l] .
  obtain bs' where f: "heap_rep (free_locked h p) bs'" "same_region h (free_locked h p)"
      "payloads (s_region_lo h) bs' = payloads (s_region_lo h) xs \<union> payloads (s_region_lo h + extent xs + 16 + s) ys"
    using free_locked_rep [OF rep [unfolded x(1)] x(2)] by blast
  show "heap_ok (free_locked h p)" using f(1) by (auto simp: heap_ok_def)
  show r: "same_region h (free_locked h p)" by (fact f(2))
  have "live (free_locked h p) = payloads (s_region_lo h) bs'"
    using live_eq [OF heap_repD(1) [OF f(1)]] r by (simp add: same_region_def)
  moreover have "(p, s) \<notin> payloads (s_region_lo h) xs" using payloads_bounds [of p s "s_region_lo h" xs] x(2) by auto
  moreover have "(p, s) \<notin> payloads (s_region_lo h + extent xs + 16 + s) ys"
    using payloads_bounds [of p s "s_region_lo h + extent xs + 16 + s" ys] x(2) by auto
  moreover have "live h = payloads (s_region_lo h) xs \<union> {(p, s)} \<union> payloads (s_region_lo h + extent xs + 16 + s) ys"
    using live_eq [OF heap_repD(1) [OF rep]] by (auto simp: x)
  ultimately show "live (free_locked h p) = live h - {(p, s)}" using f(3) by auto
qed

section \<open>Resizing\<close>

lemma trim_rep:
  assumes t: "tiles h (xs @ (s, True) # ys)" and b: "b = s_region_lo h + extent xs" and sp: "sep xs" "sep ys"
    and w: "want \<le> s" "8 \<le> want" "want mod 8 = 0" and f: "s_free h = free_sum xs + free_sum ys"
  obtains s' zs where "tiles (trim h b want) (xs @ (s', True) # zs)" "want \<le> s'" "sep (xs @ (s', True) # zs)"
    "s_free (trim h b want) = free_sum (xs @ (s', True) # zs)" "payloads (b + 16 + s') zs = payloads (b + 16 + s) ys"
    "same_region h (trim h b want)"
proof (cases "s < want + 24")
  case True
  then have "split h b want = h" using split_declined [OF t b w(1)] by simp
  then have "trim h b want = h" by (simp add: trim_def)
  with assms that [of s ys] show ?thesis by (simp add: sep_append sep_Cons)
next
  case False
  then have w24: "want + 24 \<le> s" by simp
  define h1 where "h1 = split h b want"
  define h2 where "h2 = h1\<lparr>s_free := add32 (s_free h1) (s - want)\<rparr>"
  note sl = split_tiles [OF t b w24 w(2,3), folded h1_def]
  note mid = tiles_mid [OF t b]
  have lo: "s_region_lo h1 = s_region_lo h" using sl(2) by (simp add: same_region_def)
  have b1: "b = s_region_lo h1 + extent xs" by (simp add: b lo)
  note mid1 = tiles_mid [OF sl(1) b1]
  have r: "same_region h1 h2" "mem h2 = mem h1" by (simp_all add: h2_def same_region_def)
  have t2: "tiles h2 ((xs @ [(want, True)]) @ (s - want - 16, False) # ys)"
    using tiles_cong [OF sl(1) r] by simp
  have "free_sum xs + free_sum ys + s < 2 ^ 32"
    using mid(4) free_sum_le [of xs] free_sum_le [of ys] by (simp add: b)
  then have f2: "s_free h2 = free_sum (xs @ [(want, True)]) + (s - want - 16) + free_sum ys"
    using sl(3) f w24 by (simp add: h2_def sub32_add)
  have tail: "b + 16 + want = s_region_lo h2 + extent (xs @ [(want, True)])" by (simp add: b lo h2_def)
  note mid2 = tiles_mid [OF t2 tail]
  have sub: "sub32 s want = s - want" using w(1) mid(4) by (simp add: sub32_small)
  have nx: "next_of h1 b = b + 16 + want" "size_of h1 b = want" using mid1(1) by simp_all
  have u: "used_of h1 (b + 16 + want) = 0" using mid2(1) r(2) by simp
  have sz: "size_of h b = s" using mid(1) by simp
  have go: "trim h b want = coalesce_forward h2 (b + 16 + want)"
    unfolding trim_def Let_def h1_def [symmetric] using nx u sz sub w24 by (simp add: h2_def)
  obtain s' zs where j: "tiles (trim h b want) ((xs @ [(want, True)]) @ (s', False) # zs)" "zs = [] \<or> snd (hd zs)" "sep zs"
      "s_free (trim h b want) = free_sum (xs @ [(want, True)]) + s' + free_sum zs"
      "payloads (b + 16 + want + 16 + s') zs = payloads (b + 16 + want + 16 + (s - want - 16)) ys"
      "same_region h2 (trim h b want)"
    using join_forward [OF t2 tail sp(2) f2] unfolding go by blast
  have "same_region h (trim h b want)" using sl(2) r(1) j(6) by (meson same_region_trans)
  moreover have "b + 16 + want + 16 + (s - want - 16) = b + 16 + s" using w24 by simp
  ultimately show ?thesis
    using that [of want "(s', False) # zs"] j sp(1) by (simp add: sep_append sep_Cons add.assoc)
qed

definition resize_result :: "reflex_heap \<Rightarrow> nat \<Rightarrow> nat \<Rightarrow> nat \<Rightarrow> nat \<Rightarrow> copy_request option \<Rightarrow> reflex_heap \<Rightarrow> bool" where
  "resize_result h p s n p' copy h' \<longleftrightarrow> heap_ok h' \<and> same_region h h' \<and>
     (if p' = 0 then h' = h \<and> copy = None
      else (\<exists>s'. n \<le> s' \<and> live h' = insert (p', s') (live h - {(p, s)})) \<and>
        (if p' = p then copy = None else copy = Some \<lparr>copy_to = p', copy_from = p, copy_bytes = min s n\<rparr>))"

lemma note_free_change_simps:
  "same_region h (note_free_change h)" "mem (note_free_change h) = mem h" "s_free (note_free_change h) = s_free h"
  "s_min_free (note_free_change h) \<le> s_free h"
  by (simp_all add: note_free_change_def same_region_def)

text \<open>The end of both in-place cases: a block of \<open>s\<close> bytes or more is trimmed to the request.\<close>

lemma resize_in_place:
  assumes rep: "heap_rep h0 bs" and l: "bs = xs @ (s0, True) # ys0" "p = s_region_lo h0 + extent xs + 16"
    and t: "tiles h (xs @ (s, True) # ys)" and r: "same_region h0 h" and sp: "sep xs" "sep ys"
    and w: "want_of n \<le> s" "0 < n" "size_is_sane n" and f: "s_free h = free_sum xs + free_sum ys"
    and py: "payloads (s_region_lo h0 + extent xs + 16 + s) ys = payloads (s_region_lo h0 + extent xs + 16 + s0) ys0"
  shows "resize_result h0 p s0 n p None (note_free_change (trim h (p - 16) (want_of n)))"
proof -
  let ?h = "trim h (p - 16) (want_of n)"
  note wb = want_of_bounds [OF w(2,3)]
  have lo: "s_region_lo h = s_region_lo h0" using r by (simp add: same_region_def)
  have b: "p - 16 = s_region_lo h + extent xs" by (simp add: l lo)
  obtain s' zs where j: "tiles ?h (xs @ (s', True) # zs)" "want_of n \<le> s'" "sep (xs @ (s', True) # zs)"
      "s_free ?h = free_sum (xs @ (s', True) # zs)" "payloads (p - 16 + 16 + s') zs = payloads (p - 16 + 16 + s) ys"
      "same_region h ?h"
    using trim_rep [OF t b sp w(1) wb(4,3) f] by blast
  note nf = note_free_change_simps [of ?h]
  have rep': "heap_rep (note_free_change ?h) (xs @ (s', True) # zs)"
    using tiles_cong [OF j(1) nf(1,2)] j(3,4) nf(3,4) by (simp add: heap_rep_def)
  have r': "same_region h0 (note_free_change ?h)" using r j(6) nf(1) by (meson same_region_trans)
  have "live (note_free_change ?h) = insert (p, s') (live h0 - {(p, s0)})"
  proof -
    have "(p, s0) \<notin> payloads (s_region_lo h0) xs" using payloads_bounds [of p s0 "s_region_lo h0" xs] l(2) by auto
    moreover have "(p, s0) \<notin> payloads (s_region_lo h0 + extent xs + 16 + s0) ys0"
      using payloads_bounds [of p s0 "s_region_lo h0 + extent xs + 16 + s0" ys0] l(2) by auto
    moreover have "live h0 = payloads (s_region_lo h0) xs \<union> {(p, s0)} \<union> payloads (s_region_lo h0 + extent xs + 16 + s0) ys0"
      using live_eq [OF heap_repD(1) [OF rep]] by (auto simp: l)
    moreover have "live (note_free_change ?h) = payloads (s_region_lo h0) xs \<union> {(p, s')} \<union> payloads (s_region_lo h0 + extent xs + 16 + s0) ys0"
      using live_eq [OF heap_repD(1) [OF rep']] r' j(5) py by (auto simp: l same_region_def)
    ultimately show ?thesis by auto
  qed
  moreover have "n \<le> s'" using wb(1) j(2) by simp
  ultimately show ?thesis using rep' r' l(2) by (auto simp: resize_result_def heap_ok_def)
qed

lemma plain_request_ok: "0 < n \<Longrightarrow> size_is_sane n \<Longrightarrow> request_ok 8 (want_of n)"
proof -
  assume n: "0 < n" "size_is_sane n"
  have "(8 :: nat) = 2 ^ 3" by simp
  then have "\<exists>k. (8 :: nat) = 2 ^ k" by blast
  with want_of_bounds [OF n] show ?thesis by (simp add: request_ok_def)
qed

lemma resize_moved:
  assumes ok: "heap_ok h" and l: "(p, s) \<in> live h" and n: "0 < n" "size_is_sane n"
  shows "\<exists>q h1. alloc_locked h ALIGN n = Some (q, h1) \<and>
    resize_result h p s n q (if q = 0 then None else Some \<lparr>copy_to = q, copy_from = p, copy_bytes = (if s < n then s else n)\<rparr>)
      (if q = 0 then h1 else free_locked h1 p)"
proof -
  obtain q h1 where a: "alloc_locked h ALIGN n = Some (q, h1)" "alloc_result h 8 n q h1"
    using alloc_locked_spec [OF ok n, of ALIGN] plain_request_ok [OF n] by (auto simp: ALIGN_def)
  show ?thesis
  proof (cases "q = 0")
    case True
    with a show ?thesis by (auto simp: alloc_result_def resize_result_def)
  next
    case False
    obtain t where t: "n \<le> t" "live h1 = insert (q, t) (live h)" "q + t \<le> p \<or> p + s \<le> q"
      using a(2) False l by (auto simp: alloc_result_def)
    have ok1: "heap_ok h1" "same_region h h1" using a(2) by (simp_all add: alloc_result_def)
    have l1: "(p, s) \<in> live h1" using l t(2) by simp
    note fr = free_live [OF ok1(1) l1]
    have "0 < s"
    proof -
      obtain bs where rep: "heap_rep h bs" using ok by (auto simp: heap_ok_def)
      obtain xs ys where "bs = xs @ (s, True) # ys" using live_split [OF rep l] by metis
      with heap_repD(1) [OF rep] show ?thesis by (auto simp: tiles_def)
    qed
    then have "q \<noteq> p" using t(1,3) n(1) by linarith
    then have "live (free_locked h1 p) = insert (q, t) (live h - {(p, s)})" using fr(2) t(2) by auto
    moreover have "same_region h (free_locked h1 p)" using ok1(2) fr(3) by (rule same_region_trans)
    ultimately show ?thesis using a(1) False fr(1) t(1) \<open>q \<noteq> p\<close> by (auto simp: resize_result_def)
  qed
qed

lemma realloc_live:
  assumes ok: "heap_ok h" and l: "(p, s) \<in> live h" and n: "0 < n" "size_is_sane n"
  shows "\<exists>p' copy h'. reflex_heap_realloc h p n = Some (p', copy, h') \<and> resize_result h p s n p' copy h'"
proof -
  let ?w = "want_of n" and ?b = "block_of p" and ?lo = "s_region_lo h"
  note pl = live_plausible [OF ok l]
  note wb = want_of_bounds [OF n]
  obtain bs where rep: "heap_rep h bs" using ok by (auto simp: heap_ok_def)
  obtain xs ys where x: "bs = xs @ (s, True) # ys" "p = ?lo + extent xs + 16" using live_split [OF rep l] .
  note rep' = rep [unfolded x(1)]
  note t = heap_repD(1) [OF rep']
  note mid = tiles_mid [OF t refl]
  have b: "?b = p - 16" using x(2) mid(4) by (simp add: block_of_def HDR_def sub32_small)
  have bl: "?b = ?lo + extent xs" using b x(2) by simp
  have sp: "sep xs" "sep ys" using heap_repD(2) [OF rep'] by (simp_all add: sep_append sep_Cons)
  have f: "s_free h = free_sum xs + free_sum ys" using heap_repD(3) [OF rep'] by simp
  have rdy: "s_ready h" using t by (simp add: tiles_def)
  note guards = pl(2) n rdy pl(1)
  consider "?w \<le> s"
    | t2 zs where "s < ?w" "ys = (t2, False) # zs" "?w \<le> s + 16 + t2"
    | "s < ?w" "\<not> (next_of h ?b \<noteq> 0 \<and> used_of h (next_of h ?b) = 0 \<and> add32 (add32 (size_of h ?b) HDR) (size_of h (next_of h ?b)) \<ge> ?w)"
  proof -
    have "\<exists>t2 zs. ys = (t2, False) # zs \<and> ?w \<le> s + 16 + t2"
      if nz: "next_of h ?b \<noteq> 0" and "used_of h (next_of h ?b) = 0" "add32 (add32 (size_of h ?b) HDR) (size_of h (next_of h ?b)) \<ge> ?w"
    proof -
      obtain t2 v zs where ys: "ys = (t2, v) # zs" using nz mid(1) bl by (cases ys) auto
      have "tiles h ((xs @ [(s, True)]) @ (t2, v) # zs)" using t by (simp add: ys)
      note m2 = tiles_mid [OF this refl]
      have nx: "next_of h ?b = ?lo + extent (xs @ [(s, True)])" "size_of h ?b = s" using mid(1) by (simp_all add: bl ys)
      have "\<not> v" using that(2) m2(1) unfolding nx by (cases v) simp_all
      moreover have "?w \<le> s + 16 + t2" using that(3) m2(1,4) unfolding nx by (simp add: HDR_def add32_small)
      ultimately show ?thesis using ys by simp
    qed
    then show ?thesis using that by (meson not_le)
  qed
  then show ?thesis
  proof cases
    case 1
    have "reflex_heap_realloc h p n = Some (p, None, note_free_change (trim h (p - 16) ?w))"
      using guards 1 pl(3) by (simp add: reflex_heap_realloc_def b [symmetric])
    moreover have "resize_result h p s n p None (note_free_change (trim h (p - 16) ?w))"
      by (rule resize_in_place [OF rep x t _ sp 1 n f]) simp_all
    ultimately show ?thesis by blast
  next
    case (2 t2 zs)
    define h1 where "h1 = h\<lparr>s_free := sub32 (s_free h) t2\<rparr>"
    define h4 where "h4 = (coalesce_forward h1 ?b)\<lparr>s_free := s_free h1\<rparr>"
    have t2f: "t2 \<le> s_free h" "s_free h < 2 ^ 32" using f heap_repD(5) [OF rep] by (simp_all add: 2(2))
    have tt: "tiles h ((xs @ [(s, True)]) @ (t2, False) # zs)" using t by (simp add: 2(2))
    note m2 = tiles_mid [OF tt refl]
    have nx: "next_of h ?b = ?lo + extent (xs @ [(s, True)])" "size_of h ?b = s" using mid(1) by (simp_all add: bl 2(2))
    have m2': "used_of h (next_of h ?b) = 0" "size_of h (next_of h ?b) = t2" "next_of h ?b \<noteq> 0"
      using m2(1,2) unfolding nx by simp_all
    have t1: "tiles h1 (xs @ (s, True) # (t2, False) # zs)"
      using tiles_cong [OF t [unfolded 2(2)], of h1] by (simp add: h1_def same_region_def)
    have lo1: "?b = s_region_lo h1 + extent xs" by (simp add: bl h1_def)
    note co = coalesce_tiles [OF t1 lo1]
    have r4: "same_region h h4" using co(2) by (simp add: h4_def h1_def same_region_def)
    have t4: "tiles h4 (xs @ (s + 16 + t2, True) # zs)"
      using tiles_cong [OF co(1), of h4] by (simp add: h4_def same_region_def)
    have f4: "s_free h4 = free_sum xs + free_sum zs" using t2f f by (simp add: h4_def h1_def sub32_small 2(2))
    have big: "add32 (add32 s HDR) t2 \<ge> ?w" using 2(3) m2(4) by (simp add: HDR_def add32_small)
    have same: "h4 = (let h2 = set_size ?b (add32 (size_of h1 ?b) (add32 HDR (size_of h1 (next_of h ?b)))) h1;
        h3 = set_next ?b (next_of h2 (next_of h ?b)) h2
      in if next_of h3 (next_of h ?b) \<noteq> 0 then set_prev (next_of h3 (next_of h ?b)) ?b h3 else h3)"
      using m2' by (simp add: h4_def coalesce_forward_def Let_def h1_def heap_defs)
    have "reflex_heap_realloc h p n = Some (p, None, note_free_change (trim h4 ?b ?w))"
      using guards 2(1) pl(3) m2' big
      by (simp add: reflex_heap_realloc_def Let_def same h1_def)
    moreover have "resize_result h p s n p None (note_free_change (trim h4 (p - 16) ?w))"
      by (rule resize_in_place [OF rep x t4 r4 sp(1) _ 2(3) n f4])
        (use sp(2) in \<open>simp_all add: 2(2) sep_Cons add.assoc\<close>)
    ultimately show ?thesis unfolding b [symmetric] by blast
  next
    case 3
    obtain q h1 where a: "alloc_locked h ALIGN n = Some (q, h1)"
      "resize_result h p s n q (if q = 0 then None else Some \<lparr>copy_to = q, copy_from = p, copy_bytes = (if s < n then s else n)\<rparr>)
      (if q = 0 then h1 else free_locked h1 p)"
      using resize_moved [OF ok l n] by blast
    have r: "reflex_heap_realloc h p n = map_option (\<lambda>(q, h1).
        if q \<noteq> 0 then (q, Some \<lparr>copy_to = q, copy_from = p, copy_bytes = (if s < n then s else n)\<rparr>, free_locked h1 p)
        else (0, None, h1)) (alloc_locked h ALIGN n)"
      using guards 3 pl(3) unfolding reflex_heap_realloc_def Let_def by auto
    show ?thesis using a by (cases "q = 0") (simp_all add: r)
  qed
qed

end
