(* ===== verification/Heap_Client.thy ===== *)
theory Heap_Client imports Heap_Alloc begin

text \<open>
  The allocator as its clients see it: initialisation, the audit and the statistics, the
  contract as an interface, and what every history of calls keeps.
\<close>

section \<open>Initialisation\<close>

lemma heap_init_ok:
  assumes rdy: "s_ready (reflex_heap_init h0 base n)" and fit: "base + n < 2 ^ 32"
  shows "heap_ok (reflex_heap_init h0 base n)" "live (reflex_heap_init h0 base n) = {}"
    "base \<le> s_region_lo (reflex_heap_init h0 base n)" "s_region_hi (reflex_heap_init h0 base n) \<le> base + n"
proof -
  define start where "start = mask_down (add32 base (ALIGN - 1)) ALIGN"
  define lost where "lost = sub32 start base"
  have g: "base \<noteq> 0" "24 \<le> n" "add32 (add32 lost HDR) MIN_PAYLOAD < n"
    using rdy by (auto simp: reflex_heap_init_def Let_def start_def lost_def HDR_def MIN_PAYLOAD_def split: if_splits)
  have "start = (base + 7) - (base + 7) mod 8"
    using fit g(2) by (simp add: start_def ALIGN_def mask_8 add32_small)
  then have s8: "start = 8 * ((base + 7) div 8)" by (simp add: minus_mod_eq_mult_div)
  have "(base + 7) mod 8 < 8" "8 * ((base + 7) div 8) + (base + 7) mod 8 = base + 7" by simp_all
  then have st: "base \<le> start" "start < base + 8" using s8 by linarith+
  have start8: "start mod 8 = 0" using s8 by simp
  have l: "lost = start - base" using st fit g(2) by (simp add: lost_def sub32_small)
  have big: "start - base + 24 < n" using g(3) l st by (simp add: HDR_def MIN_PAYLOAD_def add32_small)
  define usable where "usable = mask_down (sub32 n lost) ALIGN"
  have "usable = (n - lost) - (n - lost) mod 8"
    using big l fit by (simp add: usable_def ALIGN_def mask_8 sub32_small)
  then have u8: "usable = 8 * ((n - lost) div 8)" by (simp add: minus_mod_eq_mult_div)
  have "(n - lost) mod 8 < 8" "8 * ((n - lost) div 8) + (n - lost) mod 8 = n - lost" by simp_all
  moreover have "3 \<le> (n - lost) div 8" using big l by (simp add: less_eq_div_iff_mult_less_eq)
  ultimately have u: "usable \<le> n - lost" "24 \<le> usable" using u8 by linarith+
  have hi: "start + usable \<le> base + n" using u(1) l st big by linarith
  define b where "b = sub32 usable HDR"
  have bs: "b = usable - 16" using u hi fit by (simp add: b_def HDR_def sub32_small)
  define h1 where "h1 = set_used start 0 (set_size start b (set_next start 0 (set_prev start 0
      (h0\<lparr>s_first := 0, s_region_lo := 0, s_region_hi := 0, s_total := 0, s_free := 0, s_min_free := 0, s_ready := False\<rparr>))))"
  have e: "reflex_heap_init h0 base n = h1\<lparr>s_region_lo := start, s_region_hi := start + usable, s_first := start, s_total := b,
      s_free := b, s_min_free := b, s_ready := True\<rparr>"
    using g hi fit unfolding reflex_heap_init_def Let_def start_def [symmetric] lost_def [symmetric] usable_def [symmetric]
      b_def [symmetric] h1_def [symmetric]
    by (simp add: HDR_def MIN_PAYLOAD_def add32_small)
  have m: "mem h1 start = \<lparr>b_prev = 0, b_next = 0, b_size = b, b_used = 0\<rparr>"
    by (cases "mem h0 start") (simp add: h1_def heap_defs)
  have "8 dvd usable" using u8 by simp
  then have b8: "8 \<le> b" "b mod 8 = 0" using u(2) bs by (simp_all add: mod_eq_0_iff_dvd dvd_diff_nat)
  have t: "tiles (reflex_heap_init h0 base n) [(b, False)]"
    using m start8 b8 st g(1) hi fit u(2) bs by (simp add: tiles_def e)
  then have "heap_rep (reflex_heap_init h0 base n) [(b, False)]" by (simp add: heap_rep_def e)
  then show "heap_ok (reflex_heap_init h0 base n)" by (auto simp: heap_ok_def)
  show "live (reflex_heap_init h0 base n) = {}" using live_eq [OF t] by simp
  show "base \<le> s_region_lo (reflex_heap_init h0 base n)" "s_region_hi (reflex_heap_init h0 base n) \<le> base + n"
    using st hi by (simp_all add: e)
qed

section \<open>The audit\<close>

lemma audit_from:
  "tiles h (xs @ ys) \<Longrightarrow> sep (xs @ ys) \<Longrightarrow>
    audit_loop h (if ys = [] then 0 else s_region_lo h + extent xs)
      \<lparr>a_ok = True, a_free_seen = free_sum xs, a_span = extent xs, a_prev = last_addr 0 (s_region_lo h) xs,
       a_last = last_addr 0 (s_region_lo h) xs\<rparr>
    = Some \<lparr>a_ok = True, a_free_seen = free_sum (xs @ ys), a_span = extent (xs @ ys),
       a_prev = last_addr 0 (s_region_lo h) (xs @ ys), a_last = last_addr 0 (s_region_lo h) (xs @ ys)\<rparr>"
proof (induction ys arbitrary: xs)
  case Nil
  show ?case by (subst audit_loop.simps) simp
next
  case (Cons y ys)
  obtain s u where y: "y = (s, u)" by fastforce
  let ?b = "s_region_lo h + extent xs"
  have t: "tiles h (xs @ (s, u) # ys)" using Cons.prems(1) by (simp add: y)
  note mid = tiles_mid [OF t refl]
  have nf: "\<not> (used_of h ?b = 0 \<and> used_of h (?b + 16 + s) = 0)" if nn: "ys \<noteq> []"
  proof -
    obtain t2 v zs where z: "ys = (t2, v) # zs" using nn by (cases ys) auto
    have "tiles h ((xs @ [(s, u)]) @ (t2, v) # zs)" using t by (simp add: z)
    from tiles_mid(1) [OF this refl] have "used_of h (?b + 16 + s) = (if v then 1 else 0)" by (simp add: add.assoc)
    moreover have "u \<or> v" using Cons.prems(2) by (simp add: y z sep_append sep_Cons)
    ultimately show ?thesis using mid(1) by auto
  qed
  have fits: "extent xs + (16 + s) < 2 ^ 32" "free_sum xs + s < 2 ^ 32"
    using mid(4) free_sum_le [of xs] by linarith+
  have step: "audit_block h ?b \<lparr>a_ok = True, a_free_seen = free_sum xs, a_span = extent xs, a_prev = last_addr 0 (s_region_lo h) xs,
       a_last = last_addr 0 (s_region_lo h) xs\<rparr>
    = \<lparr>a_ok = True, a_free_seen = free_sum (xs @ [(s, u)]), a_span = extent (xs @ [(s, u)]), a_prev = ?b, a_last = ?b\<rparr>"
  proof -
    have "next_of h ?b \<noteq> 0 \<longrightarrow> next_of h ?b = add32 (payload_of ?b) (size_of h ?b)
        \<and> \<not> (used_of h ?b = 0 \<and> used_of h (next_of h ?b) = 0)"
      using mid(1,4,7) nf by (simp add: add32_small)
    moreover have "mask_low (size_of h ?b) ALIGN = 0" using mid(1,6) by (simp add: ALIGN_def mask_8)
    moreover have "add32 HDR s = 16 + s" "add32 (extent xs) (16 + s) = extent xs + (16 + s)" "add32 (free_sum xs) s = free_sum xs + s"
      using fits by (simp_all add: HDR_def add32_small)
    ultimately show ?thesis using mid(1) unfolding audit_block_def by simp
  qed
  have nx: "next_of h ?b = (if ys = [] then 0 else s_region_lo h + extent (xs @ [(s, u)]))"
    using mid(1) by (simp add: add.assoc)
  have la: "last_addr 0 (s_region_lo h) (xs @ [(s, u)]) = ?b" by simp
  have nb: "(?b = 0 \<or> \<not> True) = False" using mid(2) by simp
  have "audit_loop h ?b \<lparr>a_ok = True, a_free_seen = free_sum xs, a_span = extent xs, a_prev = last_addr 0 (s_region_lo h) xs,
       a_last = last_addr 0 (s_region_lo h) xs\<rparr>
    = audit_loop h (next_of h ?b) \<lparr>a_ok = True, a_free_seen = free_sum (xs @ [(s, u)]), a_span = extent (xs @ [(s, u)]),
        a_prev = last_addr 0 (s_region_lo h) (xs @ [(s, u)]), a_last = last_addr 0 (s_region_lo h) (xs @ [(s, u)])\<rparr>"
    by (subst audit_loop.simps) (simp only: step la audit.simps nb if_False)
  also have "\<dots> = Some \<lparr>a_ok = True, a_free_seen = free_sum ((xs @ [(s, u)]) @ ys), a_span = extent ((xs @ [(s, u)]) @ ys),
       a_prev = last_addr 0 (s_region_lo h) ((xs @ [(s, u)]) @ ys), a_last = last_addr 0 (s_region_lo h) ((xs @ [(s, u)]) @ ys)\<rparr>"
    unfolding nx by (rule Cons.IH) (use Cons.prems in \<open>simp_all add: y\<close>)
  finally show ?case by (simp add: y del: last_addr_append)
qed

lemma check_passes: "heap_ok h \<Longrightarrow> reflex_heap_check h = Some True"
proof -
  assume "heap_ok h"
  then obtain bs where rep: "heap_rep h bs" by (auto simp: heap_ok_def)
  note t = heap_repD(1) [OF rep]
  obtain xs s u where bs: "bs = xs @ [(s, u)]" using t by (cases bs rule: rev_cases) (auto simp: tiles_def)
  note mid = tiles_mid [OF t [unfolded bs] refl]
  have "tiles h ([] @ bs)" "sep ([] @ bs)" using t heap_repD(2) [OF rep] by simp_all
  note au = audit_from [OF this]
  have st: "s_ready h" "s_first h = s_region_lo h" "bs \<noteq> []" "s_region_hi h = s_region_lo h + extent bs" "s_region_hi h < 2 ^ 32"
    using t by (simp_all add: tiles_def)
  have au': "audit_loop h (s_first h) \<lparr>a_ok = s_ready h \<and> s_first h = s_region_lo h, a_free_seen = 0, a_span = 0, a_prev = 0, a_last = 0\<rparr>
    = Some \<lparr>a_ok = True, a_free_seen = free_sum bs, a_span = extent bs, a_prev = last_addr 0 (s_region_lo h) bs,
       a_last = last_addr 0 (s_region_lo h) bs\<rparr>"
    using au st by simp
  have la: "last_addr 0 (s_region_lo h) bs = s_region_lo h + extent xs" by (simp add: bs)
  have "add32 (payload_of (s_region_lo h + extent xs)) (size_of h (s_region_lo h + extent xs)) = s_region_hi h"
    using mid(1,4,7) st(4) by (simp add: bs add32_small)
  moreover have "extent bs = sub32 (s_region_hi h) (s_region_lo h)"
    using st(4,5) by (simp add: sub32_small)
  ultimately show ?thesis
    unfolding reflex_heap_check_def au' using heap_repD(3) [OF rep] by (simp add: la)
qed

section \<open>The statistics\<close>

fun hole_set :: "nat \<Rightarrow> blocks \<Rightarrow> (nat \<times> nat) set" where
  "hole_set a [] = {}"
| "hole_set a ((s, u) # bs) = (if u then {} else {(a + 16, s)}) \<union> hole_set (a + 16 + s) bs"

lemma hole_set_append [simp]: "hole_set a (xs @ ys) = hole_set a xs \<union> hole_set (a + extent xs) ys"
  by (induction xs arbitrary: a) (auto simp: add.assoc)

lemma hole_set_above: "(p, s) \<in> hole_set a bs \<Longrightarrow> a + 16 \<le> p"
  by (induction bs arbitrary: a) (fastforce split: if_splits)+

lemma hole_set_split: "(p, s) \<in> hole_set a bs \<longleftrightarrow> (\<exists>xs ys. bs = xs @ (s, False) # ys \<and> p = a + extent xs + 16)"
proof
  show "(p, s) \<in> hole_set a bs \<Longrightarrow> \<exists>xs ys. bs = xs @ (s, False) # ys \<and> p = a + extent xs + 16"
  proof (induction bs arbitrary: a)
    case (Cons b bs)
    obtain t u where b: "b = (t, u)" by fastforce
    show ?case
    proof (cases "(p, s) \<in> hole_set (a + 16 + t) bs")
      case True
      then obtain xs ys where "bs = xs @ (s, False) # ys" "p = a + 16 + t + extent xs + 16" using Cons.IH by blast
      then have "b # bs = (b # xs) @ (s, False) # ys" "p = a + extent (b # xs) + 16" by (simp_all add: b)
      then show ?thesis by blast
    next
      case False
      with Cons.prems have "\<not> u" "p = a + 16" "s = t" by (auto simp: b split: if_splits)
      then have "b # bs = [] @ (s, False) # bs" "p = a + extent [] + 16" by (simp_all add: b)
      then show ?thesis by blast
    qed
  qed simp
qed auto

lemma holes_eq: "tiles h bs \<Longrightarrow> holes h = hole_set (s_region_lo h) bs"
proof -
  assume t: "tiles h bs"
  have "(p, s) \<in> holes h \<longleftrightarrow> (p, s) \<in> hole_set (s_region_lo h) bs" for p s
  proof
    assume "(p, s) \<in> holes h"
    then obtain xs ys where x: "tiles h (xs @ (s, False) # ys)" "p = s_region_lo h + extent xs + 16"
      by (auto simp: holes_def)
    from tiles_unique [OF t x(1)] x(2) show "(p, s) \<in> hole_set (s_region_lo h) bs" by (auto simp: hole_set_split)
  next
    assume "(p, s) \<in> hole_set (s_region_lo h) bs"
    then obtain xs ys where "bs = xs @ (s, False) # ys" "p = s_region_lo h + extent xs + 16"
      by (auto simp: hole_set_split)
    with t show "(p, s) \<in> holes h" by (auto simp: holes_def)
  qed
  then show ?thesis by auto
qed

lemma hole_set_counts: "finite (hole_set a bs) \<and> (\<Sum>(p, s) \<in> hole_set a bs. s) = free_sum bs
    \<and> card (hole_set a bs) = length (filter (\<lambda>(s, u). \<not> u) bs)"
proof (induction bs arbitrary: a)
  case (Cons b bs)
  obtain t u where b: "b = (t, u)" by fastforce
  have "(a + 16, t) \<notin> hole_set (a + 16 + t) bs" using hole_set_above [of "a + 16" t "a + 16 + t" bs] by auto
  with Cons.IH [of "a + 16 + t"] show ?case by (simp add: b)
qed simp

lemma payloads_card: "finite (payloads a bs) \<and> card (payloads a bs) = length (filter (\<lambda>(s, u). u) bs)"
proof (induction bs arbitrary: a)
  case (Cons b bs)
  obtain t u where b: "b = (t, u)" by fastforce
  have "(a + 16, t) \<notin> payloads (a + 16 + t) bs" using payloads_bounds [of "a + 16" t "a + 16 + t" bs] by auto
  with Cons.IH [of "a + 16 + t"] show ?case by (simp add: b)
qed simp

lemma stats_from:
  "tiles h (xs @ ys) \<Longrightarrow> stats_loop h (if ys = [] then 0 else s_region_lo h + extent xs) out
    = Some (out\<lparr>blocks_total := blocks_total out + length ys, blocks_free := blocks_free out + length (filter (\<lambda>(s, u). \<not> u) ys),
        largest_free := Max (insert (largest_free out) (snd ` hole_set (s_region_lo h + extent xs) ys))\<rparr>)"
proof (induction ys arbitrary: xs out)
  case Nil
  show ?case by (subst stats_loop.simps) simp
next
  case (Cons y ys)
  obtain s u where y: "y = (s, u)" by fastforce
  let ?b = "s_region_lo h + extent xs"
  have t: "tiles h (xs @ (s, u) # ys)" using Cons.prems by (simp add: y)
  note mid = tiles_mid [OF t refl]
  define out1 where "out1 = (let o1 = out\<lparr>blocks_total := blocks_total out + 1\<rparr> in
    if u then o1 else o1\<lparr>blocks_free := blocks_free o1 + 1, largest_free := max (largest_free o1) s\<rparr>)"
  have nx: "next_of h ?b = (if ys = [] then 0 else s_region_lo h + extent (xs @ [(s, u)]))"
    using mid(1) by (simp add: add.assoc)
  have fin: "finite (snd ` hole_set (?b + (16 + s)) ys)" using hole_set_counts by (metis finite_imageI)
  have "stats_loop h ?b out = stats_loop h (next_of h ?b) out1"
    using mid(1,2) by (subst stats_loop.simps) (auto simp: Let_def out1_def max_def)
  also have "\<dots> = Some (out1\<lparr>blocks_total := blocks_total out1 + length ys,
        blocks_free := blocks_free out1 + length (filter (\<lambda>(s, u). \<not> u) ys),
        largest_free := Max (insert (largest_free out1) (snd ` hole_set (s_region_lo h + extent (xs @ [(s, u)])) ys))\<rparr>)"
    unfolding nx by (rule Cons.IH) (use t in simp)
  also have "\<dots> = Some (out\<lparr>blocks_total := blocks_total out + length (y # ys),
        blocks_free := blocks_free out + length (filter (\<lambda>(s, u). \<not> u) (y # ys)),
        largest_free := Max (insert (largest_free out) (snd ` hole_set ?b (y # ys)))\<rparr>)"
    using fin by (cases "hole_set (?b + (16 + s)) ys = {}")
      (simp_all add: y out1_def Let_def add.assoc max.commute max.left_commute insert_commute)
  finally show ?case by simp
qed

lemma live_disjoint:
  assumes "heap_ok h" "(p, s) \<in> live h" "(q, t) \<in> live h"
  shows "(p, s) = (q, t) \<or> p + s \<le> q \<or> q + t \<le> p"
proof -
  obtain bs where rep: "heap_rep h bs" using assms(1) by (auto simp: heap_ok_def)
  show ?thesis
    using assms(2,3) payloads_disjoint [of p s "s_region_lo h" bs q t] unfolding live_eq [OF heap_repD(1) [OF rep]] by auto
qed

lemma live_payload_bounds:
  assumes "heap_ok h" "(p, s) \<in> live h"
  shows "s_region_lo h < p" "p + s \<le> s_region_hi h" "p mod 8 = 0" "0 < s"
proof -
  obtain bs where rep: "heap_rep h bs" using assms(1) by (auto simp: heap_ok_def)
  obtain xs ys where x: "bs = xs @ (s, True) # ys" "p = s_region_lo h + extent xs + 16" using live_split [OF rep assms(2)] .
  have t: "tiles h (xs @ (s, True) # ys)" using heap_repD(1) [OF rep] x(1) by simp
  note mid = tiles_mid [OF t refl]
  show "s_region_lo h < p" "0 < s" using x(2) mid(5) by simp_all
  show "p + s \<le> s_region_hi h" using t x(2) by (simp add: tiles_def)
  show "p mod 8 = 0" using mid(3) x(2) by (auto simp: mod_eq_0_iff_dvd)
qed

lemma aligned_request:
  assumes "al \<noteq> 0" "mask_low al al = 0" "0 < n" "al + n \<le> 2 ^ 32 - 64"
  shows "size_is_sane n" "request_ok (if al < 8 then 8 else al) (want_of n)"
proof -
  show s: "size_is_sane n" using assms(4) by (simp add: size_is_sane_def ALIGN_def HDR_def)
  show "request_ok (if al < 8 then 8 else al) (want_of n)"
  proof (cases "al < 8")
    case True
    with plain_request_ok [OF assms(3) s] show ?thesis by simp
  next
    case False
    moreover obtain k where "al = 2 ^ k" using mask_low_zero assms(1,2) by blast
    ultimately show ?thesis
      using want_of_bounds [OF assms(3) s] assms(4) by (auto simp: request_ok_def)
  qed
qed

section \<open>The contract of an allocator\<close>

datatype heap_op = Alloc nat nat | Free nat | Realloc nat nat

text \<open>
  What the client holds: the pointers it was given and has not given back. It may free or
  resize those and NULL, and its aligned requests stay clear of the end of the address space.
\<close>

fun legal :: "heap_op \<Rightarrow> nat set \<Rightarrow> bool" where
  "legal (Alloc al n) held \<longleftrightarrow> al \<le> 8 \<or> al + n \<le> 2 ^ 32 - 64"
| "legal (Free p) held \<longleftrightarrow> p = 0 \<or> p \<in> held"
| "legal (Realloc p n) held \<longleftrightarrow> p = 0 \<or> p \<in> held"

fun client :: "heap_op \<Rightarrow> nat \<Rightarrow> nat set \<Rightarrow> nat set" where
  "client (Alloc al n) p held = (if p = 0 then held else insert p held)"
| "client (Free q) p held = held - {q}"
| "client (Realloc q n) p held =
     (if q = 0 then (if p = 0 then held else insert p held)
      else if n = 0 then held - {q}
      else if p = 0 then held else insert p (held - {q}))"

text \<open>A history of calls from a state \<open>h0\<close>, with what the client holds after it.\<close>

inductive alloc_reach :: "(heap_op \<Rightarrow> 'h \<Rightarrow> (nat \<times> 'h) option) \<Rightarrow> 'h \<Rightarrow> 'h \<Rightarrow> nat set \<Rightarrow> bool"
  for step h0 where
  reach_start: "alloc_reach step h0 h0 {}"
| reach_step: "alloc_reach step h0 h held \<Longrightarrow> legal op held \<Longrightarrow> step op h = Some (p, h')
    \<Longrightarrow> alloc_reach step h0 h' (client op p held)"

locale allocator =
  fixes step :: "heap_op \<Rightarrow> 'h \<Rightarrow> (nat \<times> 'h) option"
    and ok :: "'h \<Rightarrow> bool"
    and pointers :: "'h \<Rightarrow> nat set"
  assumes step_contract: "ok h \<Longrightarrow> legal op (pointers h) \<Longrightarrow>
      \<exists>p h'. step op h = Some (p, h') \<and> ok h' \<and> pointers h' = client op p (pointers h)"
begin

lemma reach_ok: "alloc_reach step h0 h held \<Longrightarrow> ok h0 \<Longrightarrow> pointers h0 = {} \<Longrightarrow> ok h \<and> pointers h = held"
proof (induction rule: alloc_reach.induct)
  case (reach_step h held op p h')
  then obtain q h1 where "step op h = Some (q, h1)" "ok h1" "pointers h1 = client op q (pointers h)"
    using step_contract [of h op] by auto
  with reach_step show ?case by simp
qed simp

lemma reach_answers:
  assumes "alloc_reach step h0 h held" "ok h0" "pointers h0 = {}" "legal op held"
  shows "\<exists>p h'. step op h = Some (p, h')"
proof -
  have h: "ok h" "pointers h = held" using reach_ok [OF assms(1-3)] by simp_all
  have "legal op (pointers h)" using assms(4) h(2) by simp
  from step_contract [OF h(1) this] show ?thesis by blast
qed

end

definition heap_step :: "heap_op \<Rightarrow> reflex_heap \<Rightarrow> (nat \<times> reflex_heap) option" where
  "heap_step op h =
     (case op of
        Alloc al n \<Rightarrow> reflex_heap_alloc_aligned h al n
      | Free p \<Rightarrow> Some (0, reflex_heap_free h p)
      | Realloc p n \<Rightarrow> map_option (\<lambda>(q, copy, h1). (q, h1)) (reflex_heap_realloc h p n))"

definition pointers :: "reflex_heap \<Rightarrow> nat set" where
  "pointers h = fst ` live h"

text \<open>A request that is refused before the search changes nothing.\<close>

lemma alloc_refused: "\<not> (0 < n \<and> size_is_sane n) \<Longrightarrow> alloc_locked h al n = Some (0, h)"
  by (auto simp: alloc_locked_def)

lemma alloc_result_pointers:
  "alloc_result h al n p h' \<Longrightarrow> heap_ok h' \<and> same_region h h' \<and> pointers h' = (if p = 0 then pointers h else insert p (pointers h))"
proof (cases "p = 0")
  case False
  assume a: "alloc_result h al n p h'"
  then obtain s where "live h' = insert (p, s) (live h)" using False by (auto simp: alloc_result_def)
  with a False show ?thesis by (simp add: alloc_result_def pointers_def)
qed (auto simp: alloc_result_def)

lemma alloc_step:
  assumes ok: "heap_ok h" and l: "al \<le> 8 \<or> al + n \<le> 2 ^ 32 - 64" and al: "al \<noteq> 0" "mask_low al al = 0"
  shows "\<exists>p h'. alloc_locked h al n = Some (p, h') \<and> heap_ok h' \<and> same_region h h' \<and> pointers h' = (if p = 0 then pointers h else insert p (pointers h))"
proof (cases "0 < n \<and> size_is_sane n")
  case True
  then have "request_ok (if al < 8 then 8 else al) (want_of n)"
    using l aligned_request(2) [OF al] plain_request_ok by (cases "al = 8") auto
  from alloc_locked_spec [OF ok _ _ this] True show ?thesis using alloc_result_pointers by blast
next
  case False
  with ok alloc_refused [OF this] show ?thesis by simp
qed

lemma pointers_remove:
  assumes "heap_ok h" "(p, s) \<in> live h"
  shows "fst ` (live h - {(p, s)}) = pointers h - {p}"
proof -
  have "s' = s" if "(p, s') \<in> live h" for s'
    using live_disjoint [OF assms that] live_payload_bounds(4) [OF assms] live_payload_bounds(4) [OF assms(1) that] by auto
  then show ?thesis by (force simp: pointers_def)
qed

lemma free_step:
  assumes ok: "heap_ok h" and p: "p = 0 \<or> p \<in> pointers h"
  shows "heap_ok (reflex_heap_free h p)" "same_region h (reflex_heap_free h p)" "pointers (reflex_heap_free h p) = pointers h - {p}"
proof -
  have "heap_ok (reflex_heap_free h p) \<and> same_region h (reflex_heap_free h p) \<and> pointers (reflex_heap_free h p) = pointers h - {p}"
  proof (cases "p \<in> pointers h")
    case True
    then obtain s where l: "(p, s) \<in> live h" by (auto simp: pointers_def)
    have "reflex_heap_free h p = free_locked h p" using live_plausible(1) [OF ok l] by (simp add: reflex_heap_free_def)
    then show ?thesis using free_live [OF ok l] pointers_remove [OF ok l] by (simp add: pointers_def)
  next
    case False
    then show ?thesis using p ok by (auto simp: reflex_heap_free_def plausible_payload_def)
  qed
  then show "heap_ok (reflex_heap_free h p)" "same_region h (reflex_heap_free h p)" "pointers (reflex_heap_free h p) = pointers h - {p}" by simp_all
qed

lemma realloc_step:
  assumes ok: "heap_ok h" and p: "p = 0 \<or> p \<in> pointers h"
  shows "\<exists>q copy h'. reflex_heap_realloc h p n = Some (q, copy, h') \<and> heap_ok h' \<and> same_region h h' \<and> pointers h' = client (Realloc p n) q (pointers h)"
proof (cases "p = 0")
  case True
  have "mask_low ALIGN ALIGN = 0" by (simp add: ALIGN_def mask_8)
  then obtain q h' where "alloc_locked h ALIGN n = Some (q, h')" "heap_ok h'" "same_region h h'" "pointers h' = (if q = 0 then pointers h else insert q (pointers h))"
    using alloc_step [OF ok, of ALIGN n] by (auto simp: ALIGN_def)
  then show ?thesis by (simp add: True reflex_heap_realloc_def reflex_heap_alloc_def)
next
  case False
  then obtain s where l: "(p, s) \<in> live h" using p by (auto simp: pointers_def)
  show ?thesis
  proof (cases "n = 0 \<or> \<not> size_is_sane n")
    case True
    then show ?thesis using False ok free_step [OF ok, of p] p by (cases "n = 0") (auto simp: reflex_heap_realloc_def size_is_sane_def)
  next
    case False2: False
    then obtain q copy h' where r: "reflex_heap_realloc h p n = Some (q, copy, h')" "resize_result h p s n q copy h'"
      using realloc_live [OF ok l] by blast
    have "pointers h' = (if q = 0 then pointers h else insert q (pointers h - {p}))"
    proof (cases "q = 0")
      case False
      then obtain t where "live h' = insert (q, t) (live h - {(p, s)})" using r(2) by (auto simp: resize_result_def)
      then show ?thesis using False pointers_remove [OF ok l] by (simp add: pointers_def)
    qed (use r(2) in \<open>simp add: resize_result_def\<close>)
    then show ?thesis using r False False2 by (simp add: resize_result_def)
  qed
qed

interpretation heap: allocator heap_step "\<lambda>h. heap_ok h \<and> same_region h0 h" pointers for h0
proof
  fix h op
  assume a: "heap_ok h \<and> same_region h0 h" and l: "legal op (pointers h)"
  have "\<exists>p h'. heap_step op h = Some (p, h') \<and> heap_ok h' \<and> same_region h h' \<and> pointers h' = client op p (pointers h)"
  proof (cases op)
    case (Alloc al n)
    show ?thesis
    proof (cases "al = 0 \<or> mask_low al al \<noteq> 0")
      case True
      then show ?thesis using a by (simp add: Alloc heap_step_def reflex_heap_alloc_aligned_def)
    next
      case False
      then show ?thesis using alloc_step [of h al n] a l
        by (simp add: Alloc heap_step_def reflex_heap_alloc_aligned_def)
    qed
  next
    case (Free p)
    then show ?thesis using free_step [of h p] a l by (simp add: heap_step_def)
  next
    case (Realloc p n)
    then have "p = 0 \<or> p \<in> pointers h" using l by simp
    from realloc_step [OF _ this, of n] a obtain q copy h' where
      "reflex_heap_realloc h p n = Some (q, copy, h')" "heap_ok h'" "same_region h h'" "pointers h' = client op q (pointers h)"
      unfolding Realloc by blast
    then show ?thesis by (simp add: Realloc heap_step_def del: client.simps)
  qed
  with a show "\<exists>p h'. heap_step op h = Some (p, h') \<and> (heap_ok h' \<and> same_region h0 h') \<and> pointers h' = client op p (pointers h)"
    by (meson same_region_trans)
qed

section \<open>Properties\<close>

text \<open>
  C22: on a well-formed heap an aligned allocation always ends. It returns NULL exactly when no
  free block can hold the rounded size above a gap that is none or big enough for a block of
  its own, and then nothing has changed. Otherwise the pointer is aligned, lies in the region,
  holds at least the bytes asked for, overlaps no live payload, and is the only new one; the
  heap stays well-formed.
\<close>

theorem heap_alloc_spec:
  assumes "heap_ok h" "al \<noteq> 0" "mask_low al al = 0" "0 < n" "al + n \<le> 2 ^ 32 - 64"
  shows "\<exists>p h'. reflex_heap_alloc_aligned h al n = Some (p, h') \<and> heap_ok h' \<and>
    (if p = 0 then h' = h \<and> (\<forall>(q, s) \<in> holes h. \<forall>g. gap_possible (max al 8) q g \<longrightarrow> s < g + want_of n)
     else p mod max al 8 = 0 \<and> (\<exists>s. n \<le> s \<and> live h' = insert (p, s) (live h)
       \<and> s_region_lo h < p \<and> p + s \<le> s_region_hi h \<and> (\<forall>(q, t) \<in> live h. p + s \<le> q \<or> q + t \<le> p)))"
proof -
  have m: "(if al < 8 then 8 else al) = max al 8" by simp
  obtain p h' where a: "alloc_locked h al n = Some (p, h')" "alloc_result h (max al 8) n p h'"
    using alloc_locked_spec [OF assms(1,4) aligned_request [OF assms(2-5)], unfolded m] by blast
  have "reflex_heap_alloc_aligned h al n = Some (p, h')"
    using a(1) assms(2,3) by (simp add: reflex_heap_alloc_aligned_def)
  moreover have "heap_ok h' \<and>
    (if p = 0 then h' = h \<and> (\<forall>(q, s) \<in> holes h. \<forall>g. gap_possible (max al 8) q g \<longrightarrow> s < g + want_of n)
     else p mod max al 8 = 0 \<and> (\<exists>s. n \<le> s \<and> live h' = insert (p, s) (live h)
       \<and> s_region_lo h < p \<and> p + s \<le> s_region_hi h \<and> (\<forall>(q, t) \<in> live h. p + s \<le> q \<or> q + t \<le> p)))"
    using a(2) unfolding alloc_result_def by blast
  ultimately show ?thesis by blast
qed

text \<open>
  C23: resizing a live block to a size that can be rounded keeps every other live block. The
  block stays where it is, or the answer is a fresh block and one copy of the smaller of the
  two sizes was made into it before the old one was released, or the answer is NULL and
  nothing has changed.
\<close>

theorem heap_realloc_spec:
  assumes "heap_ok h" "(p, s) \<in> live h" "0 < n" "size_is_sane n"
  shows "\<exists>q copy h'. reflex_heap_realloc h p n = Some (q, copy, h') \<and> heap_ok h' \<and>
    (if q = 0 then h' = h \<and> copy = None
     else (\<exists>s'. n \<le> s' \<and> live h' = insert (q, s') (live h - {(p, s)}))
       \<and> copy = (if q = p then None else Some \<lparr>copy_to = q, copy_from = p, copy_bytes = min s n\<rparr>))"
proof -
  obtain q copy h' where r: "reflex_heap_realloc h p n = Some (q, copy, h')" "resize_result h p s n q copy h'"
    using realloc_live [OF assms] by blast
  then show ?thesis unfolding resize_result_def by (cases "q = 0"; cases "q = p") auto
qed

text \<open>
  C21: after any history of allocations, releases and resizes by a client that frees and
  resizes only what it holds, the structural audit passes, the live payloads are exactly the
  pointers the client holds, they are aligned, lie in the memory handed over and are pairwise
  disjoint, and the next call returns.
\<close>

theorem heap_history_safe:
  assumes "s_ready (reflex_heap_init h0 base n)" "base + n < 2 ^ 32"
    and "alloc_reach heap_step (reflex_heap_init h0 base n) h held"
  shows "reflex_heap_check h = Some True \<and> fst ` live h = held
    \<and> (\<forall>(p, s) \<in> live h. 0 < s \<and> p mod 8 = 0 \<and> base < p \<and> p + s \<le> base + n)
    \<and> (\<forall>(p, s) \<in> live h. \<forall>(q, t) \<in> live h. (p, s) = (q, t) \<or> p + s \<le> q \<or> q + t \<le> p)
    \<and> (\<forall>op. legal op held \<longrightarrow> (\<exists>p h'. heap_step op h = Some (p, h')))"
proof -
  note i = heap_init_ok [OF assms(1,2)]
  have s: "heap_ok (reflex_heap_init h0 base n) \<and> same_region (reflex_heap_init h0 base n) (reflex_heap_init h0 base n)"
    using i(1) by simp
  have e: "pointers (reflex_heap_init h0 base n) = {}" using i(2) by (simp add: pointers_def)
  note r = heap.reach_ok [OF assms(3) s e]
  have ok: "heap_ok h" using r by simp
  have reg: "base \<le> s_region_lo h" "s_region_hi h \<le> base + n" using r i(3,4) by (simp_all add: same_region_def)
  have "base < p" "p + t \<le> base + n" if "(p, t) \<in> live h" for p t
    using live_payload_bounds(1,2) [OF ok that] reg by linarith+
  moreover have "fst ` live h = held" using r by (simp add: pointers_def)
  moreover have "\<exists>p h'. heap_step op h = Some (p, h')" if "legal op held" for op
    by (rule heap.reach_answers [OF assms(3) s e that])
  ultimately show ?thesis
    using check_passes [OF ok] live_disjoint [OF ok] live_payload_bounds(3,4) [OF ok] by blast
qed

text \<open>
  the statistics are exact on a well-formed heap: the free bytes are the sum and the
  largest free block the maximum over the free blocks, and the block counts are the numbers of
  free blocks and of all blocks.
\<close>

theorem heap_stats_exact:
  assumes "heap_ok h"
  shows "reflex_heap_get_stats h = Some \<lparr>total_bytes = s_total h, free_bytes = (\<Sum>(p, s) \<in> holes h. s),
    min_free_bytes = s_min_free h, largest_free = Max (insert 0 (snd ` holes h)),
    blocks_total = card (live h) + card (holes h), blocks_free = card (holes h)\<rparr>"
proof -
  obtain bs where rep: "heap_rep h bs" using assms by (auto simp: heap_ok_def)
  note t = heap_repD(1) [OF rep]
  have "tiles h ([] @ bs)" using t by simp
  note st = stats_from [OF this]
  have "s_first h = s_region_lo h" "bs \<noteq> []" using t by (simp_all add: tiles_def)
  moreover have "length bs = length (filter (\<lambda>(s, u). u) bs) + length (filter (\<lambda>(s, u). \<not> u) bs)"
    by (induction bs) auto
  ultimately show ?thesis
    using st hole_set_counts [of "s_region_lo h" bs] payloads_card [of "s_region_lo h" bs] heap_repD(3) [OF rep]
    by (simp add: reflex_heap_get_stats_def holes_eq [OF t] live_eq [OF t])
qed

section \<open>A concrete heap\<close>

definition heap_zero :: reflex_heap where
  "heap_zero = \<lparr>mem = (\<lambda>_. \<lparr>b_prev = 0, b_next = 0, b_size = 0, b_used = 0\<rparr>), s_region_lo = 0, s_region_hi = 0, s_first = 0,
     s_total = 0, s_free = 0, s_min_free = 0, s_ready = False\<rparr>"

lemmas heap_eval = heap_defs Let_def add32_def sub32_def ALIGN_def HDR_def MIN_PAYLOAD_def SPLIT_MIN_def mask_8 payload_of_def
  block_of_def

definition region :: "nat \<Rightarrow> nat \<Rightarrow> reflex_heap" where
  "region base n = reflex_heap_init heap_zero base n"

lemma region_4096: "s_ready (region 4096 1024)"
  by (simp add: region_def reflex_heap_init_def heap_eval)

lemma region_ok: "heap_ok (region 4096 1024)" "live (region 4096 1024) = {}"
  using heap_init_ok [of heap_zero 4096 1024] region_4096 by (simp_all add: region_def)

theorem heap_alloc_spec_witness:
  "\<exists>p h'. reflex_heap_alloc_aligned (region 4096 1024) 64 100 = Some (p, h') \<and> heap_ok h'"
proof -
  have "mask_low 64 64 = 0" using mask_low_power [of 64 6] by simp
  then show ?thesis using heap_alloc_spec [OF region_ok(1), of 64 100] by auto
qed

text \<open>The first allocation in the region: its only block is big enough.\<close>

lemma first_allocation:
  obtains h p s where "heap_step (Alloc 8 100) (region 4096 1024) = Some (p, h)" "heap_ok h" "(p, s) \<in> live h" "p \<noteq> 0"
proof -
  let ?h = "region 4096 1024"
  have t: "tiles ?h [(1008, False)]"
    by (simp add: tiles_def region_def reflex_heap_init_def heap_zero_def heap_eval)
  have q: "request_ok 8 (want_of 100)" by (rule plain_request_ok) (simp_all add: size_is_sane_def ALIGN_def HDR_def)
  have m: "mask_low 8 8 = 0" by (simp add: mask_8)
  have w: "want_of 100 = 104" by (simp add: want_of_def align_up_def heap_eval)
  obtain p h where a: "alloc_locked ?h 8 100 = Some (p, h)" "alloc_result ?h 8 100 p h"
    using alloc_locked_spec [OF region_ok(1), of 100 8] q by (auto simp: size_is_sane_def ALIGN_def HDR_def)
  have "s_region_lo ?h = 4096" by (simp add: region_def reflex_heap_init_def heap_zero_def heap_eval)
  then have "(4112, 1008) \<in> holes ?h" using holes_eq [OF t] by simp
  moreover have "gap_possible 8 4112 0" by (simp add: gap_possible_def)
  moreover have "\<forall>(q, s) \<in> holes ?h. \<forall>g. gap_possible 8 q g \<longrightarrow> s < g + 104" if "p = 0"
    using a(2) that unfolding alloc_result_def w by simp
  ultimately have "p \<noteq> 0" by fastforce
  moreover from this obtain s where "(p, s) \<in> live h" "heap_ok h" using a(2) by (auto simp: alloc_result_def)
  ultimately show ?thesis using that a(1) m by (simp add: heap_step_def reflex_heap_alloc_aligned_def)
qed

theorem heap_realloc_spec_witness:
  "\<exists>h p q copy h'. heap_step (Alloc 8 100) (region 4096 1024) = Some (p, h) \<and> reflex_heap_realloc h p 200 = Some (q, copy, h') \<and> heap_ok h'"
proof -
  obtain h p s where a: "heap_step (Alloc 8 100) (region 4096 1024) = Some (p, h)" "heap_ok h" "(p, s) \<in> live h"
    using first_allocation .
  have "size_is_sane 200" by (simp add: size_is_sane_def ALIGN_def HDR_def)
  with heap_realloc_spec [OF a(2,3), of 200] a(1) show ?thesis by auto
qed

theorem heap_history_safe_witness:
  "\<exists>h p. p \<noteq> 0 \<and> heap_step (Alloc 8 100) (region 4096 1024) = Some (p, h) \<and> fst ` live h = {p} \<and> reflex_heap_check h = Some True"
proof -
  obtain h p s where a: "heap_step (Alloc 8 100) (region 4096 1024) = Some (p, h)" "p \<noteq> 0"
    using first_allocation by metis
  have "alloc_reach heap_step (region 4096 1024) h (client (Alloc 8 100) p {})"
    by (rule reach_step) (rule reach_start, simp, rule a(1))
  with heap_history_safe [of heap_zero 4096 1024 h "{p}"] region_4096 a show ?thesis by (auto simp: region_def)
qed

theorem heap_stats_exact_witness:
  "\<exists>st. reflex_heap_get_stats (region 4096 1024) = Some st \<and> blocks_total st = card (holes (region 4096 1024))"
  using heap_stats_exact [OF region_ok(1)] by (simp add: region_ok(2))

section \<open>Where the request wraps\<close>

lemma region_64: "region 4104 64 = \<lparr>mem = (mem heap_zero)(4104 := \<lparr>b_prev = 0, b_next = 0, b_size = 48, b_used = 0\<rparr>),
    s_region_lo = 4104, s_region_hi = 4168, s_first = 4104, s_total = 48, s_free = 48, s_min_free = 48, s_ready = True\<rparr>"
  by (simp add: region_def reflex_heap_init_def heap_zero_def heap_eval)

lemma gap_mebibyte: "block_gap 1048576 4120 = Some 1044456"
  using mask_down_power [of 1052695 20]
  by (simp add: block_gap_def heap_eval) (subst gap_loop.simps, simp add: heap_eval)

text \<open>The two headers of the first split, the second far above the region.\<close>

definition escaped :: reflex_heap where
  "escaped = (region 4104 64)\<lparr>mem := (mem heap_zero)(4104 := \<lparr>b_prev = 0, b_next = 1048560, b_size = 1044440, b_used = 0\<rparr>,
      1048560 := \<lparr>b_prev = 4104, b_next = 0, b_size = 4293922888, b_used = 0\<rparr>), s_free := 32\<rparr>"

lemma escaped_split: "split (region 4104 64) 4104 1044440 = escaped"
  by (simp add: split_def escaped_def region_64 heap_eval heap_zero_def fun_eq_iff)

text \<open>
  C24: the aligned search adds the gap to the rounded size without a check. On a region of 64
  bytes at 4104, a request for 4293922840 bytes aligned to a mebibyte passes the size guard,
  the sum of gap and size is 0 modulo \<open>2 ^ 32\<close>, and the call writes a block header far outside
  the region and answers a pointer above it. The structural audit does not notice.
\<close>

theorem heap_aligned_wrap_escapes:
  "\<exists>h'. reflex_heap_alloc_aligned (region 4104 64) 1048576 4293922840 = Some (1048576, h')
    \<and> s_region_hi (region 4104 64) = 4168 \<and> used_of h' 1048560 = 1 \<and> reflex_heap_check h' = Some True"
proof -
  have "mask_low 1048576 1048576 = 0" using mask_low_power [of 1048576 20] by simp
  then have "reflex_heap_alloc_aligned (region 4104 64) 1048576 4293922840
      = alloc_search 1048576 4293922840 4104 (region 4104 64)"
    by (simp add: reflex_heap_alloc_aligned_def alloc_locked_def size_is_sane_def want_of_def align_up_def heap_eval region_64)
  also have "\<dots> = Some (take_block escaped 1048560 4293922840)"
    by (subst alloc_search.simps)
      (simp add: gap_mebibyte escaped_split heap_eval, simp add: region_64 escaped_def)
  finally have a: "reflex_heap_alloc_aligned (region 4104 64) 1048576 4293922840 = Some (take_block escaped 1048560 4293922840)" .
  define h' where "h' = (region 4104 64)\<lparr>mem := (mem heap_zero)(
      4104 := \<lparr>b_prev = 0, b_next = 1048560, b_size = 1044440, b_used = 0\<rparr>,
      1048560 := \<lparr>b_prev = 4104, b_next = 4120, b_size = 4293922840, b_used = 1\<rparr>,
      4120 := \<lparr>b_prev = 1048560, b_next = 0, b_size = 32, b_used = 0\<rparr>), s_free := 1044472\<rparr>"
  have t: "take_block escaped 1048560 4293922840 = (1048576, h')"
    by (simp add: h'_def take_block_def split_def escaped_def region_64 heap_eval heap_zero_def note_free_change_def fun_eq_iff)
  have m: "mem h' 4104 = \<lparr>b_prev = 0, b_next = 1048560, b_size = 1044440, b_used = 0\<rparr>"
      "mem h' 1048560 = \<lparr>b_prev = 4104, b_next = 4120, b_size = 4293922840, b_used = 1\<rparr>"
      "mem h' 4120 = \<lparr>b_prev = 1048560, b_next = 0, b_size = 32, b_used = 0\<rparr>"
    by (simp_all add: h'_def)
  have s: "s_ready h'" "s_first h' = 4104" "s_region_lo h' = 4104" "s_region_hi h' = 4168" "s_free h' = 1044472"
    by (simp_all add: h'_def region_64)
  have "audit_loop h' 4104 \<lparr>a_ok = True, a_free_seen = 0, a_span = 0, a_prev = 0, a_last = 0\<rparr>
      = audit_loop h' 1048560 \<lparr>a_ok = True, a_free_seen = 1044440, a_span = 1044456, a_prev = 4104, a_last = 4104\<rparr>"
    by (subst audit_loop.simps) (simp add: audit_block_def m heap_eval)
  also have "\<dots> = audit_loop h' 4120 \<lparr>a_ok = True, a_free_seen = 1044440, a_span = 16, a_prev = 1048560, a_last = 1048560\<rparr>"
    by (subst audit_loop.simps) (simp add: audit_block_def m heap_eval)
  also have "\<dots> = audit_loop h' 0 \<lparr>a_ok = True, a_free_seen = 1044472, a_span = 64, a_prev = 4120, a_last = 4120\<rparr>"
    by (subst audit_loop.simps) (simp add: audit_block_def m heap_eval)
  also have "\<dots> = Some \<lparr>a_ok = True, a_free_seen = 1044472, a_span = 64, a_prev = 4120, a_last = 4120\<rparr>"
    by (subst audit_loop.simps) simp
  finally have "reflex_heap_check h' = Some True" by (simp add: reflex_heap_check_def s m heap_eval)
  with a t m(2) show ?thesis by (simp add: region_64)
qed

end
