(* ===== verification/Kv_Flash.thy ===== *)
theory Kv_Flash imports C_Words begin

text \<open>
  The key-value store on raw flash: platform/esp32c6/reflex_kv_flash.c. The flash driver
  (reflex_flash.h) is the argument \<open>F\<close> of every function and \<open>'m\<close> the medium it works on, so
  the store runs on the device driver and on the host suite's mock alike. Flash addresses
  stay far below \<open>2 ^ 32\<close> and are naturals. A key is the content of a C string, without its
  NUL; a namespace is reduced to its hash byte when it is opened.
\<close>

section \<open>The driver's interface and the layout\<close>

record 'm flash_dev =
  f_read :: "nat \<Rightarrow> nat \<Rightarrow> 'm \<Rightarrow> u8 list result"
  f_write :: "nat \<Rightarrow> u8 list \<Rightarrow> 'm \<Rightarrow> unit result \<times> 'm"
  f_erase :: "nat \<Rightarrow> nat \<Rightarrow> 'm \<Rightarrow> unit result \<times> 'm"

definition KV_MAGIC :: nat where "KV_MAGIC = 0x52464B56"
definition KV_SECTOR_SIZE :: nat where "KV_SECTOR_SIZE = 4096"
definition KV_NUM_SECTORS :: nat where "KV_NUM_SECTORS = 6"
definition KV_ENTRY_MAX :: nat where "KV_ENTRY_MAX = 256"
definition KV_KEY_MAX :: nat where "KV_KEY_MAX = 15"
definition KV_VAL_MAX :: nat where "KV_VAL_MAX = 240"
definition KV_FLASH_BASE :: nat where "KV_FLASH_BASE = 0x10000"

definition KV_TYPE_STR :: u8 where "KV_TYPE_STR = 0"
definition KV_TYPE_BLOB :: u8 where "KV_TYPE_BLOB = 1"
definition KV_TYPE_I32 :: u8 where "KV_TYPE_I32 = 2"
definition KV_TYPE_U8 :: u8 where "KV_TYPE_U8 = 3"

record kv_page_header =
  magic :: nat
  pseq :: nat

record kv_entry_header =
  e_ns :: u8
  e_key_len :: nat
  e_val_len :: nat
  e_type :: u8

text \<open>The packed structs as the bytes of the medium: eight bytes and five.\<close>

definition page_of_bytes :: "u8 list \<Rightarrow> kv_page_header" where
  "page_of_bytes bs = \<lparr>magic = le_value (take 4 bs), pseq = le_value (take 4 (drop 4 bs))\<rparr>"

definition page_bytes :: "kv_page_header \<Rightarrow> u8 list" where
  "page_bytes h = le_bytes 4 (magic h) @ le_bytes 4 (pseq h)"

definition entry_of_bytes :: "u8 list \<Rightarrow> kv_entry_header" where
  "entry_of_bytes bs = \<lparr>e_ns = bs ! 0, e_key_len = unat (bs ! 1), e_val_len = le_value (take 2 (drop 2 bs)), e_type = bs ! 4\<rparr>"

definition entry_bytes :: "kv_entry_header \<Rightarrow> u8 list" where
  "entry_bytes eh = [e_ns eh, word_of_nat (e_key_len eh)] @ le_bytes 2 (e_val_len eh) @ [e_type eh]"

definition kv_entry_span :: "kv_entry_header \<Rightarrow> nat" where
  "kv_entry_span eh = mask_down (5 + e_key_len eh + e_val_len eh + 3) 4"

definition kv_entry_header_sane :: "kv_entry_header \<Rightarrow> bool" where
  "kv_entry_header_sane eh \<longleftrightarrow> e_key_len eh \<ge> 1 \<and> e_key_len eh \<le> KV_KEY_MAX \<and> e_val_len eh \<le> KV_VAL_MAX"

record kv_state =
  s_active_sector :: nat
  s_active_seq :: nat
  s_write_offset :: nat
  s_initialized :: bool

definition ns_hash :: "u8 list \<Rightarrow> u8" where
  "ns_hash ns = foldl (\<lambda>h c. h * 31 + c) 0 ns"

definition sector_addr :: "nat \<Rightarrow> nat" where
  "sector_addr s = KV_FLASH_BASE + s * KV_SECTOR_SIZE"

text \<open>A read in bounce-buffer chunks; a chunk that fails reads as erased.\<close>

function flash_read :: "'m flash_dev \<Rightarrow> nat \<Rightarrow> nat \<Rightarrow> 'm \<Rightarrow> u8 list" where
  "flash_read F addr len m =
     (if len = 0 then []
      else
        let want = (if len > 256 then 256 else len);
            aligned_len = mask_down (want + 3) 4;
            buf = (case f_read F addr aligned_len m of Inl _ \<Rightarrow> replicate aligned_len 0xFF | Inr bs \<Rightarrow> bs)
        in take want buf @ flash_read F (addr + want) (len - want) m)"
  by pat_completeness auto
termination by (relation "measure (\<lambda>(F, addr, len, m). len)") auto

definition flash_write :: "'m flash_dev \<Rightarrow> nat \<Rightarrow> u8 list \<Rightarrow> 'm \<Rightarrow> bool \<times> 'm" where
  "flash_write F addr bs m =
     (let aligned_len = mask_down (length bs + 3) 4 in
      if mask_low addr 4 \<noteq> 0 then (False, m)
      else if aligned_len > 264 then (False, m)
      else case f_write F addr (bs @ replicate (aligned_len - length bs) 0xFF) m of
             (Inl _, m1) \<Rightarrow> (False, m1)
           | (Inr _, m1) \<Rightarrow> (True, m1))"

section \<open>Initialisation\<close>

text \<open>The scan of the sectors: the best sequence, its sector and whether there is one.\<close>

definition scan_sector :: "'m flash_dev \<Rightarrow> 'm \<Rightarrow> nat \<Rightarrow> nat \<times> nat \<times> bool \<Rightarrow> nat \<times> nat \<times> bool" where
  "scan_sector F m s acc =
     (case acc of (best_seq, best_sector, found) \<Rightarrow>
        let hdr = page_of_bytes (flash_read F (sector_addr s) 8 m)
        in if magic hdr = KV_MAGIC \<and> pseq hdr \<ge> best_seq then (pseq hdr, s, True) else acc)"

text \<open>The append position: behind the last entry that can be read.\<close>

function append_offset :: "'m flash_dev \<Rightarrow> nat \<Rightarrow> nat \<Rightarrow> 'm \<Rightarrow> nat" where
  "append_offset F base off m =
     (if off < KV_SECTOR_SIZE then
        (if flash_read F (base + off) 1 m ! 0 = 0xFF then off
         else
           let eh = entry_of_bytes (flash_read F (base + off) 5 m) in
           if \<not> kv_entry_header_sane eh then off
           else append_offset F base (off + kv_entry_span eh) m)
      else off)"
  by pat_completeness auto

lemma mask_down_4: "mask_down x 4 = x - x mod 4" "mask_low x 4 = x mod 4"
  using mask_down_power [of x 2] mask_low_power [of x 2] by simp_all

lemma span_positive: "0 < kv_entry_span eh"
  using mod_less_divisor [of 4 "5 + e_key_len eh + e_val_len eh + 3"] unfolding kv_entry_span_def mask_down_4 by linarith

termination append_offset
  by (relation "measure (\<lambda>(F, base, off, m). KV_SECTOR_SIZE - off)") (use span_positive in \<open>auto simp: diff_less_mono2\<close>)

definition reflex_kv_init :: "'m flash_dev \<Rightarrow> 'm \<Rightarrow> kv_state \<times> 'm" where
  "reflex_kv_init F m =
     (case fold (scan_sector F m) [0..<KV_NUM_SECTORS] (0, 0, False) of
        (best_seq, best_sector, found) \<Rightarrow>
          if \<not> found then
            let m1 = snd (f_erase F KV_FLASH_BASE KV_SECTOR_SIZE m);
                m2 = snd (flash_write F KV_FLASH_BASE (page_bytes \<lparr>magic = KV_MAGIC, pseq = 1\<rparr>) m1)
            in (\<lparr>s_active_sector = 0, s_active_seq = 1, s_write_offset = 8, s_initialized = True\<rparr>, m2)
          else (\<lparr>s_active_sector = best_sector, s_active_seq = best_seq,
                 s_write_offset = append_offset F (sector_addr best_sector) 8 m, s_initialized = True\<rparr>, m))"

text \<open>A handle is the hash of the namespace plus one.\<close>

definition reflex_kv_open :: "kv_state \<Rightarrow> u8 list \<Rightarrow> nat result" where
  "reflex_kv_open st ns =
     (if \<not> s_initialized st then Inl REFLEX_ERR_INVALID_STATE else Inr (unat (ns_hash ns) + 1))"

definition GET_NS :: "nat \<Rightarrow> u8" where
  "GET_NS h = word_of_nat (sub32 h 1)"

section \<open>Lookup\<close>

text \<open>The content of a byte buffer as a C string.\<close>

definition cstr :: "u8 list \<Rightarrow> u8 list" where
  "cstr bs = takeWhile (\<lambda>b. b \<noteq> 0) bs"

function find_loop :: "'m flash_dev \<Rightarrow> nat \<Rightarrow> u8 \<Rightarrow> u8 list \<Rightarrow> nat \<Rightarrow> (nat \<times> kv_entry_header) option \<Rightarrow> 'm
    \<Rightarrow> (nat \<times> kv_entry_header) option" where
  "find_loop F base ns key off found m =
     (if off < KV_SECTOR_SIZE then
        let eh = entry_of_bytes (flash_read F (base + off) 5 m) in
        if e_key_len eh = 0xFF then found
        else if \<not> kv_entry_header_sane eh then found
        else
          let found1 = (if e_ns eh = ns \<and> e_key_len eh = length key
                           \<and> cstr (flash_read F (base + off + 5) (e_key_len eh) m) = key
                        then Some (off, eh) else found)
          in find_loop F base ns key (off + kv_entry_span eh) found1 m
      else found)"
  by pat_completeness auto
termination
  by (relation "measure (\<lambda>(F, base, ns, key, off, found, m). KV_SECTOR_SIZE - off)")
    (use span_positive in \<open>auto simp: diff_less_mono2\<close>)

definition kv_find :: "'m flash_dev \<Rightarrow> kv_state \<Rightarrow> u8 \<Rightarrow> u8 list \<Rightarrow> 'm \<Rightarrow> (nat \<times> kv_entry_header) result" where
  "kv_find F st ns key m =
     (case find_loop F (sector_addr (s_active_sector st)) ns key 8 None m of
        None \<Rightarrow> Inl REFLEX_ERR_NOT_FOUND
      | Some r \<Rightarrow> Inr r)"

section \<open>Compaction\<close>

record kv_dedup =
  d_ns :: u8
  d_key :: "u8 list"
  d_offset :: nat

text \<open>Update the table entry of the key, add one, or skip a key the full table cannot hold.\<close>

fun dedup_update :: "kv_dedup list \<Rightarrow> u8 \<Rightarrow> u8 list \<Rightarrow> nat \<Rightarrow> kv_dedup list option" where
  "dedup_update [] ns k off = None"
| "dedup_update (d # ds) ns k off =
     (if d_ns d = ns \<and> cstr (d_key d) = cstr k then Some (d\<lparr>d_offset := off\<rparr> # ds)
      else map_option (\<lambda>r. d # r) (dedup_update ds ns k off))"

definition dedup_note :: "kv_dedup list \<Rightarrow> u8 \<Rightarrow> u8 list \<Rightarrow> nat \<Rightarrow> kv_dedup list" where
  "dedup_note ds ns k off =
     (case dedup_update ds ns k off of
        Some r \<Rightarrow> r
      | None \<Rightarrow> if length ds \<ge> KV_ENTRY_MAX then ds else ds @ [\<lparr>d_ns = ns, d_key = k, d_offset = off\<rparr>])"

function dedup_loop :: "'m flash_dev \<Rightarrow> nat \<Rightarrow> nat \<Rightarrow> kv_dedup list \<Rightarrow> 'm \<Rightarrow> kv_dedup list" where
  "dedup_loop F base off ds m =
     (if off < KV_SECTOR_SIZE then
        let eh = entry_of_bytes (flash_read F (base + off) 5 m) in
        if e_key_len eh = 0xFF \<or> e_key_len eh = 0 then ds
        else if \<not> kv_entry_header_sane eh then ds
        else dedup_loop F base (off + kv_entry_span eh)
               (dedup_note ds (e_ns eh) (flash_read F (base + off + 5) (e_key_len eh) m) off) m
      else ds)"
  by pat_completeness auto
termination
  by (relation "measure (\<lambda>(F, base, off, ds, m). KV_SECTOR_SIZE - off)")
    (use span_positive in \<open>auto simp: diff_less_mono2\<close>)

text \<open>Copy the live entries; a failed write is not noticed.\<close>

fun copy_entries :: "'m flash_dev \<Rightarrow> nat \<Rightarrow> nat \<Rightarrow> nat \<Rightarrow> kv_dedup list \<Rightarrow> 'm \<Rightarrow> nat \<times> 'm" where
  "copy_entries F old_base new_base new_off [] m = (new_off, m)"
| "copy_entries F old_base new_base new_off (d # ds) m =
     (let eh = entry_of_bytes (flash_read F (old_base + d_offset d) 5 m);
          entry_size = kv_entry_span eh;
          buf = flash_read F (old_base + d_offset d) entry_size m;
          m1 = snd (flash_write F (new_base + new_off) buf m)
      in copy_entries F old_base new_base (new_off + entry_size) ds m1)"

definition kv_compact :: "'m flash_dev \<Rightarrow> kv_state \<Rightarrow> 'm \<Rightarrow> kv_state \<times> 'm" where
  "kv_compact F st m =
     (let old_base = sector_addr (s_active_sector st);
          new_sector = (s_active_sector st + 1) mod KV_NUM_SECTORS;
          new_base = sector_addr new_sector;
          dedup = dedup_loop F old_base 8 [] m;
          m1 = snd (f_erase F new_base KV_SECTOR_SIZE m);
          seq = add32 (s_active_seq st) 1;
          m2 = snd (flash_write F new_base (page_bytes \<lparr>magic = KV_MAGIC, pseq = seq\<rparr>) m1);
          (new_off, m3) = copy_entries F old_base new_base 8 dedup m2
      in (st\<lparr>s_active_sector := new_sector, s_active_seq := seq, s_write_offset := new_off\<rparr>, m3))"

section \<open>Writing and reading values\<close>

definition kv_write_entry ::
    "'m flash_dev \<Rightarrow> kv_state \<Rightarrow> u8 \<Rightarrow> u8 list \<Rightarrow> u8 \<Rightarrow> u8 list \<Rightarrow> 'm \<Rightarrow> unit result \<times> kv_state \<times> 'm" where
  "kv_write_entry F st ns key ty val m =
     (if length key > KV_KEY_MAX \<or> length val > KV_VAL_MAX then (Inl REFLEX_ERR_INVALID_ARG, st, m)
      else
        let eh = \<lparr>e_ns = ns, e_key_len = length key, e_val_len = length val, e_type = ty\<rparr>;
            entry_size = kv_entry_span eh;
            (st1, m1) = (if s_write_offset st + entry_size \<ge> KV_SECTOR_SIZE then kv_compact F st m else (st, m))
        in if s_write_offset st1 + entry_size \<ge> KV_SECTOR_SIZE then (Inl REFLEX_ERR_NO_MEM, st1, m1)
           else
             let (ok, m2) = flash_write F (sector_addr (s_active_sector st1) + s_write_offset st1) (entry_bytes eh @ key @ val) m1
             in if \<not> ok then (Inl REFLEX_FAIL, st1, m2)
                else (Inr (), st1\<lparr>s_write_offset := s_write_offset st1 + entry_size\<rparr>, m2))"

text \<open>The value, for a buffer of \<open>cap\<close> bytes.\<close>

definition kv_read_val :: "'m flash_dev \<Rightarrow> kv_state \<Rightarrow> nat \<Rightarrow> kv_entry_header \<Rightarrow> nat \<Rightarrow> 'm \<Rightarrow> u8 list result" where
  "kv_read_val F st offset eh cap m =
     (if cap < e_val_len eh then Inl REFLEX_ERR_INVALID_ARG
      else Inr (flash_read F (sector_addr (s_active_sector st) + (offset + 5 + e_key_len eh)) (e_val_len eh) m))"

text \<open>The string getter also writes a NUL behind the value when the buffer has room: the second component.\<close>

definition reflex_kv_get_str :: "'m flash_dev \<Rightarrow> kv_state \<Rightarrow> nat \<Rightarrow> u8 list \<Rightarrow> nat \<Rightarrow> 'm \<Rightarrow> (u8 list \<times> bool) result" where
  "reflex_kv_get_str F st h key cap m =
     rbind (kv_find F st (GET_NS h) key m) (\<lambda>(off, eh).
       rbind (kv_read_val F st off eh cap m) (\<lambda>v. Inr (v, e_val_len eh < cap)))"

definition reflex_kv_set_str :: "'m flash_dev \<Rightarrow> kv_state \<Rightarrow> nat \<Rightarrow> u8 list \<Rightarrow> u8 list \<Rightarrow> 'm \<Rightarrow> unit result \<times> kv_state \<times> 'm" where
  "reflex_kv_set_str F st h key val m = kv_write_entry F st (GET_NS h) key KV_TYPE_STR (val @ [0]) m"

definition reflex_kv_value_max :: nat where
  "reflex_kv_value_max = KV_VAL_MAX"

definition reflex_kv_get_blob :: "'m flash_dev \<Rightarrow> kv_state \<Rightarrow> nat \<Rightarrow> u8 list \<Rightarrow> nat \<Rightarrow> 'm \<Rightarrow> u8 list result" where
  "reflex_kv_get_blob F st h key cap m =
     rbind (kv_find F st (GET_NS h) key m) (\<lambda>(off, eh). kv_read_val F st off eh cap m)"

definition reflex_kv_set_blob :: "'m flash_dev \<Rightarrow> kv_state \<Rightarrow> nat \<Rightarrow> u8 list \<Rightarrow> u8 list \<Rightarrow> 'm \<Rightarrow> unit result \<times> kv_state \<times> 'm" where
  "reflex_kv_set_blob F st h key bs m = kv_write_entry F st (GET_NS h) key KV_TYPE_BLOB bs m"

text \<open>The bytes the getter writes at \<open>out\<close>; the value is stored in the machine's byte order.\<close>

definition reflex_kv_get_i32 :: "'m flash_dev \<Rightarrow> kv_state \<Rightarrow> nat \<Rightarrow> u8 list \<Rightarrow> 'm \<Rightarrow> u8 list result" where
  "reflex_kv_get_i32 F st h key m =
     rbind (kv_find F st (GET_NS h) key m) (\<lambda>(off, eh). kv_read_val F st off eh 4 m)"

definition reflex_kv_set_i32 :: "'m flash_dev \<Rightarrow> kv_state \<Rightarrow> nat \<Rightarrow> u8 list \<Rightarrow> 32 word \<Rightarrow> 'm \<Rightarrow> unit result \<times> kv_state \<times> 'm" where
  "reflex_kv_set_i32 F st h key val m = kv_write_entry F st (GET_NS h) key KV_TYPE_I32 (le_bytes 4 (unat val)) m"

definition reflex_kv_get_u8 :: "'m flash_dev \<Rightarrow> kv_state \<Rightarrow> nat \<Rightarrow> u8 list \<Rightarrow> 'm \<Rightarrow> u8 list result" where
  "reflex_kv_get_u8 F st h key m =
     rbind (kv_find F st (GET_NS h) key m) (\<lambda>(off, eh). kv_read_val F st off eh 1 m)"

definition reflex_kv_set_u8 :: "'m flash_dev \<Rightarrow> kv_state \<Rightarrow> nat \<Rightarrow> u8 list \<Rightarrow> u8 \<Rightarrow> 'm \<Rightarrow> unit result \<times> kv_state \<times> 'm" where
  "reflex_kv_set_u8 F st h key val m = kv_write_entry F st (GET_NS h) key KV_TYPE_U8 [val] m"

text \<open>Erasing and committing do nothing and succeed.\<close>

definition reflex_kv_erase :: "kv_state \<Rightarrow> nat \<Rightarrow> u8 list \<Rightarrow> unit result \<times> kv_state" where
  "reflex_kv_erase st h key = (Inr (), st)"

definition reflex_kv_commit :: "kv_state \<Rightarrow> nat \<Rightarrow> unit result \<times> kv_state" where
  "reflex_kv_commit st h = (Inr (), st)"

declare flash_read.simps [simp del] append_offset.simps [simp del] find_loop.simps [simp del] dedup_loop.simps [simp del]

end
