(* ===== verification/Kv_Log.thy ===== *)
theory Kv_Log imports Kv_Flash begin

text \<open>
  The medium as the store needs it, an interface, and the store's sector as an append-only
  log of entries: what lookup, append and the append position find in it.
\<close>

lemma erased_byte: "(0xFF :: u8) = - 1"
  by transfer simp

lemma erased_and: "y AND (0xFF :: u8) = y" "(0xFF :: u8) AND y = y"
  by (simp_all only: erased_byte and.right_neutral and.left_neutral)

section \<open>The medium\<close>

text \<open>
  The contract of a flash driver over a medium whose bytes are \<open>view m\<close>, from the partition's base up to a limit. A read that succeeds
  gives the bytes, and reads in that range succeed; programming only clears bits; an erase
  sets every byte of its sectors.
\<close>

locale flash_medium =
  fixes F :: "'m flash_dev" and view :: "'m \<Rightarrow> nat \<Rightarrow> u8" and limit :: nat
  assumes read_ok: "0 < n \<Longrightarrow> KV_FLASH_BASE \<le> a \<Longrightarrow> a + n \<le> limit \<Longrightarrow> \<exists>bs. f_read F a n m = Inr bs"
    and limit_32: "limit \<le> 2 ^ 32"
    and read_bytes: "a < 2 ^ 32 \<Longrightarrow> f_read F a n m = Inr bs \<Longrightarrow> bs = map (view m) [a..<a + n]"
    and write_bytes: "KV_FLASH_BASE \<le> a \<Longrightarrow> a mod 4 = 0 \<Longrightarrow> length bs mod 4 = 0 \<Longrightarrow> bs \<noteq> [] \<Longrightarrow> a + length bs \<le> limit \<Longrightarrow>
      \<exists>m'. f_write F a bs m = (Inr (), m')
        \<and> (\<forall>x. view m' x = (if a \<le> x \<and> x < a + length bs then view m x AND bs ! (x - a) else view m x))"
    and erase_bytes: "KV_FLASH_BASE \<le> a \<Longrightarrow> a mod 4096 = 0 \<Longrightarrow> a + 4096 \<le> limit \<Longrightarrow>
      \<exists>m'. f_erase F a 4096 m = (Inr (), m') \<and> (\<forall>x. view m' x = (if a \<le> x \<and> x < a + 4096 then 0xFF else view m x))"
begin

lemma flash_read_view: "KV_FLASH_BASE \<le> a \<Longrightarrow> a + len + 3 \<le> limit \<Longrightarrow> flash_read F a len m = map (view m) [a..<a + len]"
proof (induction len arbitrary: a rule: less_induct)
  case (less len)
  show ?case
  proof (cases "len = 0")
    case False
    define want where "want = (if len > 256 then 256 else len)"
    define al where "al = mask_down (want + 3) 4"
    have w: "0 < want" "want \<le> len" using False by (simp_all add: want_def)
    have al: "want \<le> al" "al \<le> want + 3"
      using mod_less_divisor [of 4 "want + 3"] unfolding al_def mask_down_4 by linarith+
    then obtain bs where bs: "f_read F a al m = Inr bs" using read_ok [of al a m] less.prems w by fastforce
    have "take want bs = map (view m) [a..<a + want]"
      using read_bytes [OF _ bs] limit_32 less.prems al(1) by (simp add: take_map)
    moreover have "flash_read F (a + want) (len - want) m = map (view m) [a + want..<a + want + (len - want)]"
      using less.prems w by (intro less.IH) simp_all
    moreover have "flash_read F a len m = take want bs @ flash_read F (a + want) (len - want) m"
      using False by (subst flash_read.simps) (simp only: if_False Let_def want_def [symmetric] al_def [symmetric] bs sum.case)
    moreover have "[a..<a + len] = [a..<a + want] @ [a + want..<a + len]"
      using w(2) upt_add_eq_append [of a "a + want" "len - want"] by simp
    ultimately show ?thesis using w(2) by simp
  qed (simp add: flash_read.simps)
qed

lemma flash_write_view:
  assumes b: "KV_FLASH_BASE \<le> a" and a: "a mod 4 = 0" and l: "bs \<noteq> []" "length bs \<le> 264" "a + length bs + 3 \<le> limit"
  obtains m' where "flash_write F a bs m = (True, m')"
    "\<And>x. view m' x = (if a \<le> x \<and> x < a + length bs then view m x AND bs ! (x - a) else view m x)"
proof -
  define al where "al = mask_down (length bs + 3) 4"
  have al: "length bs \<le> al" "al \<le> length bs + 3" "al mod 4 = 0"
    using mod_less_divisor [of 4 "length bs + 3"] unfolding al_def mask_down_4 by (linarith+, simp add: minus_mod_eq_mult_div)
  have "al \<le> 264"
  proof -
    have "al div 4 * 4 = al" using al(3) by auto
    moreover have "al div 4 < 67" using al(2) l(2) by simp
    ultimately show ?thesis by linarith
  qed
  define ps where "ps = bs @ replicate (al - length bs) (0xFF :: u8)"
  have ps: "length ps = al" "ps \<noteq> []" using al(1) l(1) by (simp_all add: ps_def)
  obtain m' where m': "f_write F a ps m = (Inr (), m')"
      "\<forall>x. view m' x = (if a \<le> x \<and> x < a + length ps then view m x AND ps ! (x - a) else view m x)"
    using write_bytes [OF b, of ps m] a al l(3) ps by auto
  have "view m' x = (if a \<le> x \<and> x < a + length bs then view m x AND bs ! (x - a) else view m x)" for x
    using m'(2) ps(1) al(1) by (auto simp: ps_def nth_append erased_and)
  moreover have "flash_write F a bs m = (True, m')"
    using m'(1) a \<open>al \<le> 264\<close> by (simp add: flash_write_def Let_def mask_down_4 al_def [symmetric] ps_def [symmetric])
      (simp add: al_def [unfolded mask_down_4] ps_def)
  ultimately show ?thesis using that by blast
qed

end

section \<open>Entries and the log\<close>

record kv_entry =
  k_ns :: u8
  k_key :: "u8 list"
  k_type :: u8
  k_val :: "u8 list"

definition hdr :: "kv_entry \<Rightarrow> kv_entry_header" where
  "hdr e = \<lparr>e_ns = k_ns e, e_key_len = length (k_key e), e_val_len = length (k_val e), e_type = k_type e\<rparr>"

definition raw :: "kv_entry \<Rightarrow> u8 list" where
  "raw e = entry_bytes (hdr e) @ k_key e @ k_val e"

definition image :: "kv_entry \<Rightarrow> u8 list" where
  "image e = raw e @ replicate (kv_entry_span (hdr e) - length (raw e)) 0xFF"

definition entry_ok :: "kv_entry \<Rightarrow> bool" where
  "entry_ok e \<longleftrightarrow> 1 \<le> length (k_key e) \<and> length (k_key e) \<le> 15 \<and> length (k_val e) \<le> 240 \<and> 0 \<notin> set (k_key e)"

definition entries_log :: "kv_entry list \<Rightarrow> u8 list" where
  "entries_log es = concat (map image es)"

lemma entries_log_simps [simp]: "entries_log [] = []" "entries_log (e # es) = image e @ entries_log es"
  "entries_log (xs @ ys) = entries_log xs @ entries_log ys"
  by (simp_all add: entries_log_def)

text \<open>Where the next entry goes behind \<open>es\<close>.\<close>

definition position :: "kv_entry list \<Rightarrow> nat" where
  "position es = 8 + length (entries_log es)"

definition sector_image :: "nat \<Rightarrow> kv_entry list \<Rightarrow> u8 list" where
  "sector_image seq es = page_bytes \<lparr>magic = KV_MAGIC, pseq = seq\<rparr> @ entries_log es @ replicate (4096 - position es) 0xFF"

definition sector_bytes :: "('m \<Rightarrow> nat \<Rightarrow> u8) \<Rightarrow> 'm \<Rightarrow> nat \<Rightarrow> u8 list" where
  "sector_bytes view m s = map (view m) [sector_addr s..<sector_addr s + 4096]"

text \<open>Sector \<open>s\<close> holds the page \<open>seq\<close> with the entries \<open>es\<close> and nothing behind them.\<close>

definition sector_log :: "('m \<Rightarrow> nat \<Rightarrow> u8) \<Rightarrow> 'm \<Rightarrow> nat \<Rightarrow> nat \<Rightarrow> kv_entry list \<Rightarrow> bool" where
  "sector_log view m s seq es \<longleftrightarrow> sector_bytes view m s = sector_image seq es \<and> position es \<le> 4092
     \<and> list_all entry_ok es \<and> seq < 2 ^ 32 \<and> s < 6"

lemma raw_length: "length (raw e) = 5 + length (k_key e) + length (k_val e)"
  by (simp add: raw_def entry_bytes_def hdr_def)

lemma span_bounds:
  "length (raw e) \<le> kv_entry_span (hdr e)" "kv_entry_span (hdr e) \<le> length (raw e) + 3" "kv_entry_span (hdr e) mod 4 = 0"
proof -
  have "kv_entry_span (hdr e) = (length (raw e) + 3) - (length (raw e) + 3) mod 4"
    by (simp add: kv_entry_span_def mask_down_4 raw_length hdr_def)
  then show "length (raw e) \<le> kv_entry_span (hdr e)" "kv_entry_span (hdr e) \<le> length (raw e) + 3" "kv_entry_span (hdr e) mod 4 = 0"
    using mod_less_divisor [of 4 "length (raw e) + 3"] by (linarith+, simp add: minus_mod_eq_mult_div)
qed

lemma image_length [simp]: "length (image e) = kv_entry_span (hdr e)"
  using span_bounds(1) by (simp add: image_def)

lemma span_ok:
  assumes "entry_ok e"
  shows "8 \<le> kv_entry_span (hdr e)" "kv_entry_span (hdr e) \<le> 260"
proof -
  let ?s = "kv_entry_span (hdr e)"
  have r: "6 \<le> length (raw e)" "length (raw e) \<le> 260" using assms by (simp_all add: raw_length entry_ok_def)
  obtain q where q: "?s = 4 * q" using span_bounds(3) [of e] by auto
  have "q \<ge> 2" "q < 66" using q r span_bounds(1,2) [of e] by linarith+
  then show "8 \<le> ?s" "?s \<le> 260" using q by linarith+
qed

lemma hdr_of_image: "entry_ok e \<Longrightarrow> entry_of_bytes (take 5 (image e)) = hdr e"
proof -
  assume ok: "entry_ok e"
  have "take 5 (image e) = entry_bytes (hdr e)" by (simp add: image_def raw_def entry_bytes_def hdr_def)
  moreover have "entry_of_bytes (entry_bytes (hdr e)) = hdr e"
  proof -
    have "unat (word_of_nat (length (k_key e)) :: u8) = length (k_key e)" using ok by (simp add: entry_ok_def unat_of_nat)
    moreover have "le_value (le_bytes 2 (length (k_val e))) = length (k_val e)"
      using ok by (intro le_value_bytes) (simp add: entry_ok_def)
    moreover obtain x y where xy: "le_bytes 2 (length (k_val e)) = [x, y]"
      by (simp add: numeral_2_eq_2)
    ultimately show ?thesis by (simp add: entry_of_bytes_def entry_bytes_def hdr_def)
  qed
  ultimately show ?thesis by simp
qed

lemma image_parts:
  "take (length (k_key e)) (drop 5 (image e)) = k_key e"
  "take (length (k_val e)) (drop (5 + length (k_key e)) (image e)) = k_val e"
proof -
  define r where "r = replicate (kv_entry_span (hdr e) - length (raw e)) (0xFF :: u8)"
  have i: "image e = entry_bytes (hdr e) @ k_key e @ k_val e @ r" by (simp add: image_def raw_def r_def)
  have l: "length (entry_bytes (hdr e)) = 5" by (simp add: entry_bytes_def)
  show "take (length (k_key e)) (drop 5 (image e)) = k_key e" using l by (simp add: i)
  have "drop (5 + length (k_key e)) ((entry_bytes (hdr e) @ k_key e) @ k_val e @ r) = k_val e @ r"
    using l by (simp only: drop_append length_append) simp
  then show "take (length (k_val e)) (drop (5 + length (k_key e)) (image e)) = k_val e" by (simp add: i)
qed

lemma sane_hdr: "entry_ok e \<Longrightarrow> kv_entry_header_sane (hdr e)"
  by (simp add: entry_ok_def kv_entry_header_sane_def hdr_def KV_KEY_MAX_def KV_VAL_MAX_def)

lemma page_bytes_length [simp]: "length (page_bytes h) = 8"
  by (simp add: page_bytes_def)

lemma page_roundtrip: "magic h < 2 ^ 32 \<Longrightarrow> pseq h < 2 ^ 32 \<Longrightarrow> page_of_bytes (page_bytes h) = h"
  using le_value_bytes [of "magic h" 4] le_value_bytes [of "pseq h" 4] by (simp add: page_of_bytes_def page_bytes_def)

lemma sector_image_length: "position es \<le> 4096 \<Longrightarrow> length (sector_image seq es) = 4096"
  by (simp add: sector_image_def position_def)

lemma entry_in_image:
  "take (kv_entry_span (hdr e)) (drop (position xs) (sector_image seq (xs @ e # ys))) = image e"
  by (simp add: sector_image_def position_def)

lemma rest_of_image: "drop (position es) (sector_image seq es) = replicate (4096 - position es) 0xFF"
  by (simp add: sector_image_def position_def)

lemma view_slice:
  assumes "map (view m) [a..<a + N] = L" "i + n \<le> N"
  shows "map (view m) [a + i..<a + i + n] = take n (drop i L)"
proof -
  have "take n (drop i L) = map (view m) (take n (drop i [a..<a + N]))" using assms(1) by (simp add: drop_map take_map flip: assms(1))
  then show ?thesis using assms(2) by (simp add: add.commute add.left_commute)
qed

lemma position_append: "position (xs @ e # ys) = position xs + kv_entry_span (hdr e) + length (entries_log ys)"
  by (simp add: position_def)

text \<open>The bytes of the entry behind \<open>xs\<close>, and those behind the last entry.\<close>

lemma log_slice:
  assumes "sector_log view m s seq (xs @ e # ys)" "i + n \<le> kv_entry_span (hdr e)"
  shows "map (view m) [sector_addr s + position xs + i..<sector_addr s + position xs + i + n] = take n (drop i (image e))"
    and "position xs + kv_entry_span (hdr e) \<le> 4092" "entry_ok e" "s < 6"
proof -
  let ?sp = "kv_entry_span (hdr e)"
  show le: "position xs + ?sp \<le> 4092" "entry_ok e" "s < 6"
    using assms(1) by (auto simp: sector_log_def position_append)
  have "map (view m) [sector_addr s + (position xs + i)..<sector_addr s + (position xs + i) + n]
      = take n (drop (position xs + i) (sector_image seq (xs @ e # ys)))"
    by (rule view_slice) (use assms le in \<open>auto simp: sector_log_def sector_bytes_def\<close>)
  also have "\<dots> = take n (drop i (take ?sp (drop (position xs) (sector_image seq (xs @ e # ys)))))"
    using assms(2) by (simp add: drop_take add.commute min_def)
  finally show "map (view m) [sector_addr s + position xs + i..<sector_addr s + position xs + i + n] = take n (drop i (image e))"
    by (simp add: entry_in_image add.assoc)
qed

lemma log_end:
  assumes "sector_log view m s seq es" "position es \<le> x" "x < 4096"
  shows "view m (sector_addr s + x) = 0xFF"
proof -
  have "view m (sector_addr s + x) = sector_bytes view m s ! x" using assms(3) by (simp add: sector_bytes_def)
  also have "\<dots> = drop (position es) (sector_image seq es) ! (x - position es)"
    using assms by (simp add: sector_log_def sector_image_length)
  also have "\<dots> = 0xFF" unfolding rest_of_image using assms by simp
  finally show ?thesis .
qed

end
