(* ===== verification/Kv_Store.thy ===== *)
theory Kv_Store imports Kv_Log begin

text \<open>
  The store refines a map from namespace and key to values: lookup, writing with compaction,
  and the state a restart recovers.
\<close>

section \<open>Walking the log\<close>

definition entry_key :: "kv_entry \<Rightarrow> u8 \<times> u8 list" where
  "entry_key e = (k_ns e, k_key e)"

text \<open>The entry that counts for a key: its last one.\<close>

definition latest :: "kv_entry list \<Rightarrow> u8 \<times> u8 list \<Rightarrow> kv_entry option" where
  "latest es k = find (\<lambda>e. entry_key e = k) (rev es)"

lemma latest_snoc: "latest (es @ [e]) k = (if entry_key e = k then Some e else latest es k)"
  by (simp add: latest_def)

lemma latest_None: "latest es k = None \<longleftrightarrow> (\<forall>e \<in> set es. entry_key e \<noteq> k)"
  by (auto simp: latest_def find_None_iff)

lemma latest_Some:
  assumes "latest es k = Some e"
  obtains us vs where "es = us @ e # vs" "entry_key e = k" "\<forall>v \<in> set vs. entry_key v \<noteq> k"
  using assms
proof (induction es arbitrary: thesis rule: rev_induct)
  case Nil
  then show ?case by (simp add: latest_def)
next
  case (snoc x es)
  show ?case
  proof (cases "entry_key x = k")
    case True
    with snoc.prems(2) have "x = e" by (simp add: latest_snoc)
    with True snoc.prems(1) [of es "[]"] show ?thesis by simp
  next
    case False
    with snoc.prems(2) have "latest es k = Some e" by (simp add: latest_snoc)
    then obtain us vs where "es = us @ e # vs" "entry_key e = k" "\<forall>v \<in> set vs. entry_key v \<noteq> k" by (rule snoc.IH [rotated])
    with False snoc.prems(1) [of us "vs @ [x]"] show ?thesis by auto
  qed
qed

lemma cstr_clean: "0 \<notin> set k \<Longrightarrow> cstr k = k"
  unfolding cstr_def by (auto simp: takeWhile_eq_all_conv)

lemma sector_addr_less: "s < 6 \<Longrightarrow> sector_addr s + 4096 \<le> 0x16000" "sector_addr s mod 4 = 0" "sector_addr s mod 4096 = 0" "KV_FLASH_BASE \<le> sector_addr s + x"
  by (simp_all add: sector_addr_def KV_FLASH_BASE_def KV_SECTOR_SIZE_def mod_eq_0_iff_dvd)

lemma position_mod: "position es mod 4 = 0"
proof (induction es)
  case (Cons e es)
  have "position (e # es) = kv_entry_span (hdr e) + position es" by (simp add: position_def)
  with Cons span_bounds(3) [of e] show ?case by (simp add: mod_eq_0_iff_dvd)
qed (simp add: position_def)

context flash_medium
begin

lemma header_at:
  assumes l: "sector_log view m s seq (xs @ e # ys)" and c: "0x16000 \<le> limit"
  shows "entry_of_bytes (flash_read F (sector_addr s + position xs) 5 m) = hdr e"
    and "flash_read F (sector_addr s + position xs + 5) (e_key_len (hdr e)) m = k_key e"
    and "flash_read F (sector_addr s + position xs + 5 + e_key_len (hdr e)) (e_val_len (hdr e)) m = k_val e"
    and "flash_read F (sector_addr s + position xs) (kv_entry_span (hdr e)) m = image e"
    and "flash_read F (sector_addr s + position xs) 1 m ! 0 = k_ns e"
proof -
  let ?sp = "kv_entry_span (hdr e)" and ?a = "sector_addr s + position xs"
  note sl = log_slice [OF l]
  have e: "entry_ok e" "position xs + ?sp \<le> 4092" "s < 6" using sl(2-4) [of 0 0] by simp_all
  have top: "?a + ?sp + 3 \<le> limit" using sector_addr_less(1) [OF e(3)] e(2) c by linarith
  have r: "length (raw e) \<le> ?sp" "8 \<le> ?sp" using span_bounds(1) span_ok(1) [OF e(1)] by simp_all
  have rd: "flash_read F (?a + i) n m = take n (drop i (image e))" if "i + n \<le> ?sp" for i n
    using flash_read_view [of "?a + i" n m] sector_addr_less(4) [of s "position xs + i"] sl(1) [OF that] that top by (simp add: add.assoc)
  show "entry_of_bytes (flash_read F ?a 5 m) = hdr e"
    using rd [of 0 5] r hdr_of_image [OF e(1)] by simp
  show "flash_read F (?a + 5) (e_key_len (hdr e)) m = k_key e"
    using rd [of 5 "e_key_len (hdr e)"] r(1) image_parts(1) [of e] by (simp add: raw_length hdr_def)
  show "flash_read F (?a + 5 + e_key_len (hdr e)) (e_val_len (hdr e)) m = k_val e"
    using rd [of "5 + e_key_len (hdr e)" "e_val_len (hdr e)"] r(1) image_parts(2) [of e]
    by (simp add: raw_length hdr_def add.assoc)
  show "flash_read F ?a ?sp m = image e" using rd [of 0 ?sp] by simp
  show "flash_read F ?a 1 m ! 0 = k_ns e"
    using rd [of 0 1] r by (simp add: image_def raw_def entry_bytes_def hdr_def)
qed

text \<open>Behind the last entry, a read sees the erased key length, also across the end of the sector.\<close>

lemma header_behind:
  assumes l: "sector_log view m s seq es" and c: "0x16000 \<le> limit"
  shows "e_key_len (entry_of_bytes (flash_read F (sector_addr s + position es) 5 m)) = 255"
    and "flash_read F (sector_addr s + position es) 1 m ! 0 = 0xFF"
proof -
  let ?a = "sector_addr s + position es"
  have p: "position es \<le> 4092" "s < 6" using l by (simp_all add: sector_log_def)
  have al: "mask_down (5 + 3) 4 = 8" "mask_down (1 + 3) 4 = 4" by (simp_all add: mask_down_4)
  have f1: "view m (?a + 1) = 0xFF" "view m (?a + 0) = 0xFF"
    using log_end [OF l, of "position es + 1"] log_end [OF l, of "position es"] p by (simp_all add: add.assoc)
  have "flash_read F ?a 5 m ! 1 = 0xFF"
  proof (cases "f_read F ?a 8 m")
    case (Inl e)
    then show ?thesis using al by (subst flash_read.simps) (simp add: nth_append numeral_eq_Suc)
  next
    case (Inr bs)
    then have "bs = map (view m) [?a..<?a + 8]"
      using sector_addr_less(1) [OF p(2)] p(1) by (intro read_bytes) simp_all
    then have "bs ! 1 = 0xFF" "length bs = 8" using f1(1) by (simp_all add: nth_append)
    then show ?thesis using Inr al by (subst flash_read.simps) (simp add: nth_append)
  qed
  then show "e_key_len (entry_of_bytes (flash_read F ?a 5 m)) = 255" by (simp add: entry_of_bytes_def)
  have "flash_read F ?a 1 m = map (view m) [?a..<?a + 1]"
    using sector_addr_less(1) [OF p(2)] p(1) c by (intro flash_read_view sector_addr_less(4)) linarith
  then show "flash_read F ?a 1 m ! 0 = 0xFF" using f1(2) by simp
qed

lemma find_step:
  assumes l: "sector_log view m s seq (xs @ e # ys)" and c: "0x16000 \<le> limit"
  shows "find_loop F (sector_addr s) ns key (position xs) acc m
    = find_loop F (sector_addr s) ns key (position (xs @ [e])) (if entry_key e = (ns, key) then Some (position xs, hdr e) else acc) m"
proof -
  note h = header_at [OF l c]
  have e: "entry_ok e" "position xs < 4096" using log_slice(2,3) [OF l, of 0 0] by simp_all
  have k: "e_key_len (hdr e) \<noteq> 255" using e(1) by (simp add: hdr_def entry_ok_def)
  have m: "e_ns (hdr e) = ns \<and> e_key_len (hdr e) = length key \<and> cstr (k_key e) = key \<longleftrightarrow> entry_key e = (ns, key)"
    using cstr_clean e(1) by (auto simp: hdr_def entry_key_def entry_ok_def)
  have "position (xs @ [e]) = position xs + kv_entry_span (hdr e)" by (simp add: position_def)
  then show ?thesis
    using e(2) k sane_hdr [OF e(1)] by (subst find_loop.simps) (simp add: h m KV_SECTOR_SIZE_def Let_def)
qed

lemma find_end:
  assumes "sector_log view m s seq es" "0x16000 \<le> limit"
  shows "find_loop F (sector_addr s) ns key (position es) acc m = acc"
  using header_behind(1) [OF assms] by (subst find_loop.simps) (simp add: Let_def)

lemma find_rest:
  assumes c: "0x16000 \<le> limit"
  shows "sector_log view m s seq (xs @ ys) \<Longrightarrow> \<forall>v \<in> set ys. entry_key v \<noteq> (ns, key)
    \<Longrightarrow> find_loop F (sector_addr s) ns key (position xs) acc m = acc"
proof (induction ys arbitrary: xs)
  case Nil
  then show ?case using find_end c by simp
next
  case (Cons e ys)
  have "sector_log view m s seq ((xs @ [e]) @ ys)" using Cons.prems(1) by simp
  then show ?case using find_step [OF Cons.prems(1) c] Cons.IH [of "xs @ [e]"] Cons.prems(2) by simp
qed

lemma find_skip:
  assumes c: "0x16000 \<le> limit"
  shows "sector_log view m s seq (xs @ ys @ zs) \<Longrightarrow>
    \<exists>acc'. find_loop F (sector_addr s) ns key (position xs) acc m = find_loop F (sector_addr s) ns key (position (xs @ ys)) acc' m"
proof (induction ys arbitrary: xs acc)
  case (Cons e ys)
  have l: "sector_log view m s seq (xs @ e # (ys @ zs))" "sector_log view m s seq ((xs @ [e]) @ ys @ zs)" using Cons.prems by simp_all
  from Cons.IH [OF l(2)] find_step [OF l(1) c] show ?case by simp
qed auto

text \<open>Lookup finds the last entry of the key.\<close>

lemma kv_find_latest:
  assumes l: "sector_log view m (s_active_sector st) seq es" and c: "0x16000 \<le> limit"
  shows "latest es (ns, key) = None \<Longrightarrow> kv_find F st ns key m = Inl REFLEX_ERR_NOT_FOUND"
    and "latest es (ns, key) = Some e \<Longrightarrow>
      \<exists>us vs. es = us @ e # vs \<and> kv_find F st ns key m = Inr (position us, hdr e)"
proof -
  have p: "position [] = 8" by (simp add: position_def)
  show "kv_find F st ns key m = Inl REFLEX_ERR_NOT_FOUND" if "latest es (ns, key) = None"
    using find_rest [OF c, of m "s_active_sector st" seq "[]" es ns key None] l that p
    by (simp add: kv_find_def latest_None)
  assume "latest es (ns, key) = Some e"
  then obtain us vs where u: "es = us @ e # vs" "entry_key e = (ns, key)" "\<forall>v \<in> set vs. entry_key v \<noteq> (ns, key)"
    by (rule latest_Some)
  have l1: "sector_log view m (s_active_sector st) seq ([] @ us @ e # vs)" using l u(1) by simp
  have l2: "sector_log view m (s_active_sector st) seq (us @ e # vs)" using l u(1) by simp
  have l3: "sector_log view m (s_active_sector st) seq ((us @ [e]) @ vs)" using l u(1) by simp
  obtain acc where "find_loop F (sector_addr (s_active_sector st)) ns key 8 None m
      = find_loop F (sector_addr (s_active_sector st)) ns key (position us) acc m"
    using find_skip [OF c l1] p by fastforce
  also have "\<dots> = Some (position us, hdr e)"
    using find_step [OF l2 c] find_rest [OF c l3 u(3)] u(2) by simp
  finally show "\<exists>us vs. es = us @ e # vs \<and> kv_find F st ns key m = Inr (position us, hdr e)"
    using u(1) by (auto simp: kv_find_def)
qed

lemma get_latest:
  assumes l: "sector_log view m (s_active_sector st) seq es" and c: "0x16000 \<le> limit"
  shows "reflex_kv_get_blob F st h key cap m =
    (case latest es (GET_NS h, key) of
       None \<Rightarrow> Inl REFLEX_ERR_NOT_FOUND
     | Some e \<Rightarrow> if cap < length (k_val e) then Inl REFLEX_ERR_INVALID_ARG else Inr (k_val e))"
proof (cases "latest es (GET_NS h, key)")
  case None
  with kv_find_latest(1) [OF l c] show ?thesis by (simp add: reflex_kv_get_blob_def)
next
  case (Some e)
  then obtain us vs where u: "es = us @ e # vs" "kv_find F st (GET_NS h) key m = Inr (position us, hdr e)"
    using kv_find_latest(2) [OF l c] by blast
  have "flash_read F (sector_addr (s_active_sector st) + position us + 5 + e_key_len (hdr e)) (e_val_len (hdr e)) m = k_val e"
    using header_at(3) [OF l [unfolded u(1)] c] .
  then show ?thesis using Some u(2) by (simp add: reflex_kv_get_blob_def kv_read_val_def add.assoc) (simp add: hdr_def)
qed

end

end
