(* ===== verification/Kv_Compact.thy ===== *)
theory Kv_Compact imports Kv_Store begin

text \<open>
  Writing: an entry appended to the log, and the compaction of a full sector into the next
  one, which keeps the latest entry of every key.
\<close>

section \<open>The compacted log\<close>

fun put :: "kv_entry list \<Rightarrow> kv_entry \<Rightarrow> kv_entry list" where
  "put [] e = [e]"
| "put (x # xs) e = (if entry_key x = entry_key e then e # xs else x # put xs e)"

definition compacted :: "kv_entry list \<Rightarrow> kv_entry list" where
  "compacted es = foldl put [] es"

lemma compacted_snoc: "compacted (es @ [e]) = put (compacted es) e"
  by (simp add: compacted_def)

lemma put_keys: "entry_key ` set (put xs e) = insert (entry_key e) (entry_key ` set xs)"
  by (induction xs) auto

lemma put_distinct: "distinct (map entry_key xs) \<Longrightarrow> distinct (map entry_key (put xs e))"
proof (induction xs)
  case (Cons x xs)
  have "entry_key x \<notin> entry_key ` set (put xs e)" if "entry_key x \<noteq> entry_key e"
    using Cons.prems that by (simp add: put_keys)
  then show ?case using Cons by auto
qed simp

lemma put_set: "set (put xs e) \<subseteq> insert e (set xs)"
  by (induction xs) auto

lemma put_fits: "length (entries_log (put xs e)) \<le> length (entries_log xs) + kv_entry_span (hdr e)"
  by (induction xs) auto

lemma find_snoc: "find P (ys @ [x]) = (case find P ys of None \<Rightarrow> if P x then Some x else None | Some y \<Rightarrow> Some y)"
  by (induction ys) auto

lemma latest_Cons: "latest (x # xs) k = (case latest xs k of None \<Rightarrow> if entry_key x = k then Some x else None | Some y \<Rightarrow> Some y)"
  using find_snoc [of "\<lambda>e. entry_key e = k" "rev xs" x] by (simp add: latest_def split: option.splits)

lemma latest_put: "distinct (map entry_key xs) \<Longrightarrow> latest (put xs e) k = (if entry_key e = k then Some e else latest xs k)"
proof (induction xs)
  case (Cons x xs)
  have "latest xs (entry_key x) = None" using Cons.prems unfolding latest_None by (simp, metis imageI)
  then show ?case using Cons by (auto simp: latest_Cons split: option.splits)
qed (simp add: latest_def)

lemma compacted_props:
  "distinct (map entry_key (compacted es))" "set (compacted es) \<subseteq> set es" "position (compacted es) \<le> position es"
  "latest (compacted es) = latest es" "entry_key ` set (compacted es) = entry_key ` set es"
proof (induction es rule: rev_induct)
  case (snoc e es)
  { case 1 show ?case using snoc.IH(1) by (simp add: compacted_snoc put_distinct) next
    case 2 show ?case using snoc.IH(2) put_set [of "compacted es" e] by (auto simp: compacted_snoc) next
    case 3 show ?case using snoc.IH(3) put_fits [of "compacted es" e] by (simp add: compacted_snoc position_def) next
    case 4 show ?case using snoc.IH(1,4) by (intro ext) (simp add: compacted_snoc latest_put latest_snoc) next
    case 5 show ?case using snoc.IH(5) by (simp add: compacted_snoc put_keys) }
qed (simp_all add: compacted_def)

lemma compacted_length: "length (compacted es) = card (entry_key ` set es)"
  using distinct_card [OF compacted_props(1) [of es]] compacted_props(5) [of es] by simp

section \<open>The table of the compaction\<close>

text \<open>The table rows stand for entries of the log at their offsets.\<close>

definition row_of :: "kv_entry list \<Rightarrow> kv_dedup \<Rightarrow> kv_entry \<Rightarrow> bool" where
  "row_of es d e \<longleftrightarrow> d_ns d = k_ns e \<and> d_key d = k_key e \<and> entry_ok e \<and> (\<exists>us vs. es = us @ e # vs \<and> d_offset d = position us)"

lemma dedup_note_rows:
  assumes r: "row_of es \<lparr>d_ns = ns, d_key = k, d_offset = off\<rparr> e"
  shows "list_all2 (row_of es) ds cs \<Longrightarrow> length (put cs e) \<le> 256 \<Longrightarrow> list_all2 (row_of es) (dedup_note ds ns k off) (put cs e)"
proof -
  have e: "k_ns e = ns" "k_key e = k" "cstr k = k" using r cstr_clean by (auto simp: row_of_def entry_ok_def)
  have upd: "list_all2 (row_of es) ds cs \<Longrightarrow>
      (case dedup_update ds ns k off of
         Some ds' \<Rightarrow> list_all2 (row_of es) ds' (put cs e)
       | None \<Rightarrow> put cs e = cs @ [e])" for ds cs
  proof (induction ds cs rule: list_all2_induct)
    case (Cons d ds c cs)
    have dc: "d_ns d = k_ns c" "d_key d = k_key c" "cstr (k_key c) = k_key c"
      using Cons.hyps(1) cstr_clean by (auto simp: row_of_def entry_ok_def)
    show ?case
    proof (cases "entry_key c = entry_key e")
      case True
      then have "row_of es (d\<lparr>d_offset := off\<rparr>) e" using r dc by (simp add: row_of_def entry_key_def)
      then show ?thesis using True Cons.hyps dc e by (simp add: entry_key_def)
    next
      case False
      then have "\<not> (d_ns d = ns \<and> cstr (d_key d) = cstr k)" using dc e by (simp add: entry_key_def)
      then show ?thesis using False Cons.hyps Cons.IH by (auto split: option.splits)
    qed
  qed simp
  assume rows: "list_all2 (row_of es) ds cs" and l: "length (put cs e) \<le> 256"
  have len: "length ds = length cs" using rows by (rule list_all2_lengthD)
  show ?thesis using upd [OF rows] l r rows len
    by (auto simp: dedup_note_def KV_ENTRY_MAX_def list_all2_appendI split: option.splits)
qed

section \<open>Programming behind the log\<close>

lemma sector_image_snoc:
  assumes "position es + kv_entry_span (hdr e) \<le> 4096" "bs = raw e \<or> bs = image e"
  shows "sector_image seq (es @ [e]) = take (position es) (sector_image seq es) @ bs @ replicate (4096 - position es - length bs) 0xFF"
proof -
  have l: "length (raw e) \<le> kv_entry_span (hdr e)" by (rule span_bounds)
  have "4096 - position es - length (raw e) = (kv_entry_span (hdr e) - length (raw e)) + (4096 - position (es @ [e]))"
    using assms(1) l by (simp add: position_def)
  moreover have "take (position es) (sector_image seq es) = page_bytes \<lparr>magic = KV_MAGIC, pseq = seq\<rparr> @ entries_log es"
    by (simp add: sector_image_def position_def)
  ultimately show ?thesis using assms
    by (auto simp: sector_image_def image_def replicate_add [symmetric] position_def)
qed

lemma position_mod4: "position es mod 4 = 0"
proof (induction es)
  case (Cons e es)
  have "position (e # es) = kv_entry_span (hdr e) + position es" by (simp add: position_def)
  then show ?case using Cons.IH span_bounds(3) [of e] by presburger
qed (simp add: position_def)

lemma position_snoc: "position (es @ [e]) = position es + kv_entry_span (hdr e)"
  by (simp add: position_def)

lemma sector_disjoint: "s \<noteq> t \<Longrightarrow> x < 4096 \<Longrightarrow> sector_addr t + x < sector_addr s \<or> sector_addr s + 4096 \<le> sector_addr t + x"
  by (cases "s < t") (auto simp: sector_addr_def KV_SECTOR_SIZE_def)

text \<open>Two media that agree on a sector.\<close>

lemma sector_bytes_cong: "(\<And>x. x < 4096 \<Longrightarrow> view m' (sector_addr s + x) = view m (sector_addr s + x)) \<Longrightarrow> sector_bytes view m' s = sector_bytes view m s"
  unfolding sector_bytes_def by (auto simp: list_eq_iff_nth_eq)

context flash_medium
begin

lemma append_log:
  assumes l: "sector_log view m s seq es" and c: "0x16000 \<le> limit" and e: "entry_ok e"
    and fits: "position es + kv_entry_span (hdr e) < 4096" and bs: "bs = raw e \<or> bs = image e"
  obtains m' where "flash_write F (sector_addr s + position es) bs m = (True, m')" "sector_log view m' s seq (es @ [e])"
    "\<And>t. t \<noteq> s \<Longrightarrow> sector_bytes view m' t = sector_bytes view m t"
proof -
  let ?p = "position es" and ?A = "sector_addr s"
  have s: "s < 6" "seq < 2 ^ 32" "list_all entry_ok es" using l by (simp_all add: sector_log_def)
  have len: "6 \<le> length bs" "length bs \<le> kv_entry_span (hdr e)" "kv_entry_span (hdr e) \<le> 260"
    using bs span_bounds(1) [of e] span_ok [OF e] e by (auto simp: raw_length entry_ok_def)
  have p4: "position (es @ [e]) \<le> 4092"
  proof -
    have "position (es @ [e]) mod 4 = 0" "position (es @ [e]) < 4096" using position_mod4 [of "es @ [e]"] fits by (simp_all add: position_snoc)
    then show ?thesis by presburger
  qed
  obtain m' where w: "flash_write F (?A + ?p) bs m = (True, m')"
    and v: "\<And>x. view m' x = (if ?A + ?p \<le> x \<and> x < ?A + ?p + length bs then view m x AND bs ! (x - (?A + ?p)) else view m x)"
  proof (rule flash_write_view [where m = m, OF sector_addr_less(4)])
    show "(?A + ?p) mod 4 = 0" using sector_addr_less(2) [of s] position_mod4 [of es] by presburger
    show "bs \<noteq> []" using len by auto
    show "length bs \<le> 264" using len by simp
    show "?A + ?p + length bs + 3 \<le> limit" using p4 len sector_addr_less(1) [OF s(1)] c by (simp add: position_snoc)
  qed blast
  have "sector_bytes view m' s = sector_image seq (es @ [e])"
  proof (rule nth_equalityI)
    show "length (sector_bytes view m' s) = length (sector_image seq (es @ [e]))"
      using p4 by (simp add: sector_bytes_def sector_image_length)
    fix i assume "i < length (sector_bytes view m' s)"
    then have i: "i < 4096" by (simp add: sector_bytes_def)
    have "sector_image seq es = map (view m) [?A..<?A + 4096]" using l by (simp add: sector_log_def sector_bytes_def)
    then have old: "sector_image seq es ! i = view m (?A + i)" using i by simp
    have q: "?p \<le> 4096" using p4 by (simp add: position_snoc)
    have "sector_image seq (es @ [e]) ! i
        = (if i < ?p then view m (?A + i) else if i < ?p + length bs then bs ! (i - ?p) else 0xFF)"
      using i q len fits old by (subst sector_image_snoc [OF _ bs]) (auto simp: nth_append sector_image_length)
    also have "\<dots> = view m' (?A + i)"
      using v [of "?A + i"] log_end [OF l _ i] by (auto simp: erased_and)
    finally show "sector_bytes view m' s ! i = sector_image seq (es @ [e]) ! i" using i by (simp add: sector_bytes_def)
  qed
  then have "sector_log view m' s seq (es @ [e])" using p4 s e by (simp add: sector_log_def)
  moreover have "sector_bytes view m' t = sector_bytes view m t" if "t \<noteq> s" for t
    using sector_disjoint [OF that [symmetric]] p4 len by (intro sector_bytes_cong) (fastforce simp: v position_snoc)
  ultimately show ?thesis using that w by blast
qed

end

section \<open>Compaction\<close>

lemma sector_log_frame: "sector_bytes view m' s = sector_bytes view m s \<Longrightarrow> sector_log view m' s seq es = sector_log view m s seq es"
  by (simp add: sector_log_def)

context flash_medium
begin

lemma dedup_rows:
  assumes c: "0x16000 \<le> limit" and k: "card (entry_key ` set es) \<le> 256"
  shows "sector_log view m s seq es \<Longrightarrow> es = xs @ ys \<Longrightarrow> list_all2 (row_of es) ds (compacted xs)
    \<Longrightarrow> list_all2 (row_of es) (dedup_loop F (sector_addr s) (position xs) ds m) (compacted es)"
proof (induction ys arbitrary: xs ds)
  case Nil
  then show ?case using header_behind(1) [OF Nil(1) c] by (subst dedup_loop.simps) (simp add: Let_def)
next
  case (Cons e ys)
  have l: "sector_log view m s seq (xs @ e # ys)" using Cons.prems(1,2) by simp
  note h = header_at [OF l c]
  have e: "entry_ok e" "position xs < 4096" using log_slice(2,3) [OF l, of 0 0] by simp_all
  have kl: "e_key_len (hdr e) \<noteq> 255" "e_key_len (hdr e) \<noteq> 0" using e(1) by (auto simp: hdr_def entry_ok_def)
  have row: "row_of es \<lparr>d_ns = e_ns (hdr e), d_key = k_key e, d_offset = position xs\<rparr> e"
    using e(1) Cons.prems(2) by (auto simp: row_of_def hdr_def)
  have "length (put (compacted xs) e) \<le> 256"
  proof -
    have "card (entry_key ` set (xs @ [e])) \<le> card (entry_key ` set es)" using Cons.prems(2) by (intro card_mono) auto
    then show ?thesis using k by (simp add: compacted_length flip: compacted_snoc)
  qed
  then have rows: "list_all2 (row_of es) (dedup_note ds (e_ns (hdr e)) (k_key e) (position xs)) (compacted (xs @ [e]))"
    unfolding compacted_snoc by (rule dedup_note_rows [OF row Cons.prems(3)])
  have "es = (xs @ [e]) @ ys" using Cons.prems(2) by simp
  then show ?case using Cons.IH [OF Cons.prems(1) _ rows] e(2) kl sane_hdr [OF e(1)]
    by (subst dedup_loop.simps) (simp add: h KV_SECTOR_SIZE_def Let_def position_snoc)
qed

text \<open>An erased sector with its page header.\<close>

lemma fresh_sector:
  assumes s: "s < 6" and q: "seq < 2 ^ 32" and c: "0x16000 \<le> limit"
  obtains m1 m2 where "f_erase F (sector_addr s) KV_SECTOR_SIZE m = (Inr (), m1)"
    "flash_write F (sector_addr s) (page_bytes \<lparr>magic = KV_MAGIC, pseq = seq\<rparr>) m1 = (True, m2)"
    "sector_log view m2 s seq []" "\<And>t. t \<noteq> s \<Longrightarrow> sector_bytes view m2 t = sector_bytes view m t"
proof -
  let ?A = "sector_addr s" and ?bs = "page_bytes \<lparr>magic = KV_MAGIC, pseq = seq\<rparr>"
  note A = sector_addr_less(1-3) [of s]
  have b: "KV_FLASH_BASE \<le> ?A" using sector_addr_less(4) [of s 0] by simp
  have A1: "?A + 4096 \<le> limit" "?A + length ?bs + 3 \<le> limit" "length ?bs \<le> 264" "?bs \<noteq> []"
    using A(1) [OF s] c page_bytes_length [of "\<lparr>magic = KV_MAGIC, pseq = seq\<rparr>"] by (force simp flip: length_greater_0_conv)+
  obtain m1 where e: "f_erase F ?A 4096 m = (Inr (), m1)" "\<And>x. view m1 x = (if ?A \<le> x \<and> x < ?A + 4096 then 0xFF else view m x)"
    using erase_bytes [OF b A(3) A1(1)] by blast
  obtain m2 where w: "flash_write F ?A ?bs m1 = (True, m2)"
    "\<And>x. view m2 x = (if ?A \<le> x \<and> x < ?A + length ?bs then view m1 x AND ?bs ! (x - ?A) else view m1 x)"
    using flash_write_view [OF b A(2) A1(4,3,2)] by blast
  have "sector_bytes view m2 s = ?bs @ replicate 4088 0xFF"
  proof (rule nth_equalityI)
    show "sector_bytes view m2 s ! i = (?bs @ replicate 4088 0xFF) ! i" if "i < length (sector_bytes view m2 s)" for i
      using that by (auto simp: sector_bytes_def w(2) e(2) nth_append erased_and)
  qed (simp add: sector_bytes_def)
  then have "sector_log view m2 s seq []" using s q by (simp add: sector_log_def sector_image_def position_def)
  moreover have "sector_bytes view m2 t = sector_bytes view m t" if "t \<noteq> s" for t
    using sector_disjoint [OF that [symmetric]] by (intro sector_bytes_cong) (fastforce simp: w(2) e(2))
  ultimately show ?thesis using that e(1) w(1) by (simp add: KV_SECTOR_SIZE_def)
qed

lemma copy_rows:
  assumes c: "0x16000 \<le> limit" and n: "old \<noteq> new" and fit: "position (xs @ cs) \<le> 4092"
  shows "sector_log view m old q es \<Longrightarrow> sector_log view m new q' xs \<Longrightarrow> list_all2 (row_of es) ds cs \<Longrightarrow>
    \<exists>m'. copy_entries F (sector_addr old) (sector_addr new) (position xs) ds m = (position (xs @ cs), m')
      \<and> sector_log view m' new q' (xs @ cs) \<and> (\<forall>t. t \<noteq> new \<longrightarrow> sector_bytes view m' t = sector_bytes view m t)"
  using fit
proof (induction ds arbitrary: xs cs m)
  case (Cons d ds)
  obtain e cs1 where cs: "cs = e # cs1" "row_of es d e" "list_all2 (row_of es) ds cs1"
    using Cons.prems(3) by (auto simp: list_all2_Cons1)
  obtain us vs where u: "es = us @ e # vs" "d_offset d = position us" "entry_ok e" using cs(2) by (auto simp: row_of_def)
  note h = header_at [OF Cons.prems(1) [unfolded u(1)] c]
  have f: "position xs + kv_entry_span (hdr e) < 4096" "position ((xs @ [e]) @ cs1) \<le> 4092"
    using Cons.prems(4) by (simp_all add: cs(1) position_append)
  obtain m1 where w: "flash_write F (sector_addr new + position xs) (image e) m = (True, m1)"
      "sector_log view m1 new q' (xs @ [e])" "\<And>t. t \<noteq> new \<Longrightarrow> sector_bytes view m1 t = sector_bytes view m t"
    using append_log [OF Cons.prems(2) c u(3) f(1)] by blast
  have o: "sector_log view m1 old q es" using sector_log_frame [OF w(3) [OF n]] Cons.prems(1) by simp
  obtain m' where m': "copy_entries F (sector_addr old) (sector_addr new) (position (xs @ [e])) ds m1 = (position ((xs @ [e]) @ cs1), m')"
      "sector_log view m' new q' ((xs @ [e]) @ cs1)" "\<forall>t. t \<noteq> new \<longrightarrow> sector_bytes view m' t = sector_bytes view m1 t"
    using Cons.IH [OF o w(2) cs(3) f(2)] by blast
  have "copy_entries F (sector_addr old) (sector_addr new) (position xs) (d # ds) m = (position (xs @ cs), m')"
    using m'(1) by (simp add: u(2) h w(1) Let_def position_snoc cs(1))
  then show ?case using m' w(3) cs(1) by auto
qed simp

lemma kv_compact_log:
  assumes l: "sector_log view m (s_active_sector st) (s_active_seq st) es" and c: "0x16000 \<le> limit"
    and k: "card (entry_key ` set es) \<le> 256" and q: "s_active_seq st + 1 < 2 ^ 32"
  obtains m' new where "kv_compact F st m
      = (st\<lparr>s_active_sector := new, s_active_seq := s_active_seq st + 1, s_write_offset := position (compacted es)\<rparr>, m')"
    "sector_log view m' new (s_active_seq st + 1) (compacted es)"
    "\<And>t. t \<noteq> new \<Longrightarrow> sector_bytes view m' t = sector_bytes view m t"
proof -
  define new where "new = (s_active_sector st + 1) mod 6"
  let ?old = "s_active_sector st" and ?q = "s_active_seq st + 1"
  have a: "?old < 6" using l by (simp add: sector_log_def)
  have n: "new < 6" "?old \<noteq> new" using a unfolding new_def by presburger+
  have p8: "position [] = 8" by (simp add: position_def)
  obtain m1 m2 where f: "f_erase F (sector_addr new) KV_SECTOR_SIZE m = (Inr (), m1)"
      "flash_write F (sector_addr new) (page_bytes \<lparr>magic = KV_MAGIC, pseq = ?q\<rparr>) m1 = (True, m2)"
      "sector_log view m2 new ?q []" "\<And>t. t \<noteq> new \<Longrightarrow> sector_bytes view m2 t = sector_bytes view m t"
    using fresh_sector [OF n(1) q c, of m] by blast
  have o: "sector_log view m2 ?old (s_active_seq st) es" using sector_log_frame [OF f(4) [OF n(2)]] l by simp
  define ds where "ds = dedup_loop F (sector_addr ?old) 8 [] m"
  have rows: "list_all2 (row_of es) ds (compacted es)"
    using dedup_rows [OF c k l, of "[]" es "[]"] p8 by (simp add: ds_def compacted_def)
  have fit: "position ([] @ compacted es) \<le> 4092" using compacted_props(3) [of es] l by (simp add: sector_log_def)
  obtain m' where m': "copy_entries F (sector_addr ?old) (sector_addr new) 8 ds m2 = (position (compacted es), m')"
      "sector_log view m' new ?q (compacted es)" "\<forall>t. t \<noteq> new \<longrightarrow> sector_bytes view m' t = sector_bytes view m2 t"
    using copy_rows [OF c n(2) fit o f(3) rows] p8 by auto
  have nd: "Suc ?old mod 6 = new" by (simp add: new_def)
  have "kv_compact F st m = (st\<lparr>s_active_sector := new, s_active_seq := ?q, s_write_offset := position (compacted es)\<rparr>, m')"
    using f(1,2) m'(1) add32_small [OF q] by (simp add: kv_compact_def Let_def KV_NUM_SECTORS_def ds_def nd)
  then show ?thesis using that m'(2,3) f(4) by simp
qed

end

end
