(* ===== verification/Flash_Driver.thy ===== *)
theory Flash_Driver imports Kv_Log begin

text \<open>
  The flash driver: platform/esp32c6/reflex_flash_esp32c6.c. The controller's transactions
  (one read of at most sixteen words, one page program, one sector erase, each with the polling
  that follows it) are the fields of \<open>spi_chip\<close>; the windows that cut a transfer into them are
  modelled, and meet the contract the key-value store relies on. Buffers are word aligned, as
  the store's are, and not NULL. Addresses are naturals below the chip's 24 bits.
\<close>

section \<open>The driver\<close>

record 'c spi_chip =
  spi1_read_chunk :: "nat \<Rightarrow> nat \<Rightarrow> 'c \<Rightarrow> u8 list option"
  spi1_program_chunk :: "nat \<Rightarrow> u8 list \<Rightarrow> 'c \<Rightarrow> bool \<times> 'c"
  spi1_erase_sector :: "nat \<Rightarrow> 'c \<Rightarrow> bool \<times> 'c"

definition FLASH_SECTOR_SIZE :: nat where "FLASH_SECTOR_SIZE = 4096"
definition SPI1_CHUNK :: nat where "SPI1_CHUNK = 64"
definition FLASH_PAGE_SIZE :: nat where "FLASH_PAGE_SIZE = 256"

text \<open>The bytes of the next transaction: at most the data registers, and not across a page.\<close>

definition chunk_len :: "nat \<Rightarrow> nat \<Rightarrow> nat \<Rightarrow> nat" where
  "chunk_len addr off len =
     (let n = len - off;
          n = (if n > SPI1_CHUNK then SPI1_CHUNK else n);
          to_page_end = FLASH_PAGE_SIZE - (addr + off) mod FLASH_PAGE_SIZE
      in if n > to_page_end then to_page_end else n)"

lemma chunk_len_bounds:
  assumes "off < len"
  shows "0 < chunk_len addr off len" "chunk_len addr off len \<le> len - off" "chunk_len addr off len \<le> 64"
    "(addr + off) mod 256 + chunk_len addr off len \<le> 256"
    "addr mod 4 = 0 \<Longrightarrow> off mod 4 = 0 \<Longrightarrow> len mod 4 = 0 \<Longrightarrow> chunk_len addr off len mod 4 = 0"
proof -
  define r where "r = (addr + off) mod 256"
  have r: "r < 256" by (simp add: r_def)
  have c: "chunk_len addr off len = min (min (len - off) 64) (256 - r)"
    by (auto simp: chunk_len_def Let_def SPI1_CHUNK_def FLASH_PAGE_SIZE_def r_def)
  show "0 < chunk_len addr off len" using assms r by (simp add: c)
  show "chunk_len addr off len \<le> len - off" "chunk_len addr off len \<le> 64" by (simp_all add: c)
  show "(addr + off) mod 256 + chunk_len addr off len \<le> 256"
    using r min.cobounded2 [of "min (len - off) 64" "256 - r"] unfolding c r_def [symmetric] by linarith
  assume m: "addr mod 4 = 0" "off mod 4 = 0" "len mod 4 = 0"
  obtain i j k where q: "addr = 4 * i" "off = 4 * j" "len = 4 * k" using m unfolding mod_eq_0_iff_dvd dvd_def by blast
  have "r mod 4 = (addr + off) mod 4" by (simp add: r_def mod_mod_cancel)
  moreover have "addr + off = 4 * (i + j)" by (simp add: q)
  ultimately have "r mod 4 = 0" by (metis mod_mult_self1_is_0)
  then obtain t where "r = 4 * t" unfolding mod_eq_0_iff_dvd dvd_def by blast
  then have "256 - r = 4 * (64 - t)" "len - off = 4 * (k - j)" by (simp_all add: q)
  then have "(256 - r) mod 4 = 0" "(len - off) mod 4 = 0" by (metis mod_mult_self1_is_0)+
  then show "chunk_len addr off len mod 4 = 0" by (simp add: c min_def)
qed

function window_read :: "'c spi_chip \<Rightarrow> nat \<Rightarrow> nat \<Rightarrow> nat \<Rightarrow> 'c \<Rightarrow> u8 list option" where
  "window_read C addr off len c =
     (if off < len then
        let n = chunk_len addr off len in
        case spi1_read_chunk C (addr + off) n c of
          None \<Rightarrow> None
        | Some bs \<Rightarrow> map_option (\<lambda>rest. bs @ rest) (window_read C addr (off + n) len c)
      else Some [])"
  by pat_completeness auto
termination by (relation "measure (\<lambda>(C, addr, off, len, c). len - off)") (use chunk_len_bounds(1) in \<open>auto simp: diff_less_mono2\<close>)

function window_write :: "'c spi_chip \<Rightarrow> nat \<Rightarrow> nat \<Rightarrow> u8 list \<Rightarrow> 'c \<Rightarrow> bool \<times> 'c" where
  "window_write C addr off bs c =
     (if off < length bs then
        let n = chunk_len addr off (length bs) in
        case spi1_program_chunk C (addr + off) (take n (drop off bs)) c of
          (ok, c1) \<Rightarrow> if ok then window_write C addr (off + n) bs c1 else (False, c1)
      else (True, c))"
  by pat_completeness auto
termination
  by (relation "measure (\<lambda>(C, addr, off, bs, c). length bs - off)") (use chunk_len_bounds(1) in \<open>auto simp: diff_less_mono2\<close>)

function window_erase :: "'c spi_chip \<Rightarrow> nat \<Rightarrow> nat \<Rightarrow> nat \<Rightarrow> 'c \<Rightarrow> bool \<times> 'c" where
  "window_erase C addr off len c =
     (if off < len then
        case spi1_erase_sector C (addr + off) c of
          (ok, c1) \<Rightarrow> if ok then window_erase C addr (off + FLASH_SECTOR_SIZE) len c1 else (False, c1)
      else (True, c))"
  by pat_completeness auto
termination by (relation "measure (\<lambda>(C, addr, off, len, c). len - off)") (auto simp: FLASH_SECTOR_SIZE_def)

text \<open>An unaligned read goes through the containing words.\<close>

definition read_want :: "nat \<Rightarrow> nat \<Rightarrow> nat" where
  "read_want addr len =
     (let head = addr - mask_down addr 4 in if len > SPI1_CHUNK - head then SPI1_CHUNK - head else len)"

lemma read_want_bounds: "0 < len \<Longrightarrow> 0 < read_want addr len" "read_want addr len \<le> len" "addr mod 4 + read_want addr len \<le> 64"
  using mod_less_divisor [of 4 addr] by (auto simp: read_want_def Let_def mask_down_4 SPI1_CHUNK_def)

function reflex_flash_read :: "'c spi_chip \<Rightarrow> nat \<Rightarrow> nat \<Rightarrow> 'c \<Rightarrow> u8 list result" where
  "reflex_flash_read C addr len c =
     (if len = 0 then Inl REFLEX_ERR_INVALID_ARG
      else
        let aligned_addr = mask_down addr 4;
            head = addr - aligned_addr;
            want = read_want addr len;
            span = mask_down (head + want + 3) 4
        in case window_read C aligned_addr 0 span c of
             None \<Rightarrow> Inl REFLEX_ERR_INVALID_RESPONSE
           | Some bounce \<Rightarrow>
               if len - want = 0 then Inr (take want (drop head bounce))
               else rbind (reflex_flash_read C (addr + want) (len - want) c) (\<lambda>rest. Inr (take want (drop head bounce) @ rest)))"
  by pat_completeness auto
termination by (relation "measure (\<lambda>(C, addr, len, c). len)") (use read_want_bounds(1) in auto)

definition reflex_flash_write :: "'c spi_chip \<Rightarrow> nat \<Rightarrow> u8 list \<Rightarrow> 'c \<Rightarrow> unit result \<times> 'c" where
  "reflex_flash_write C addr bs c =
     (if bs = [] \<or> mask_low addr 4 \<noteq> 0 \<or> mask_low (length bs) 4 \<noteq> 0 then (Inl REFLEX_ERR_INVALID_ARG, c)
      else case window_write C addr 0 bs c of (ok, c1) \<Rightarrow> (if ok then Inr () else Inl REFLEX_ERR_INVALID_RESPONSE, c1))"

definition reflex_flash_erase :: "'c spi_chip \<Rightarrow> nat \<Rightarrow> nat \<Rightarrow> 'c \<Rightarrow> unit result \<times> 'c" where
  "reflex_flash_erase C addr len c =
     (if len = 0 \<or> addr mod FLASH_SECTOR_SIZE \<noteq> 0 \<or> len mod FLASH_SECTOR_SIZE \<noteq> 0 then (Inl REFLEX_ERR_INVALID_ARG, c)
      else case window_erase C addr 0 len c of (ok, c1) \<Rightarrow> (if ok then Inr () else Inl REFLEX_ERR_INVALID_RESPONSE, c1))"

definition flash_driver :: "'c spi_chip \<Rightarrow> 'c flash_dev" where
  "flash_driver C = \<lparr>f_read = reflex_flash_read C, f_write = reflex_flash_write C, f_erase = reflex_flash_erase C\<rparr>"

declare window_read.simps [simp del] window_write.simps [simp del] window_erase.simps [simp del] reflex_flash_read.simps [simp del]

section \<open>The contract\<close>

text \<open>
  What the controller's transactions do to a medium with the bytes \<open>view c\<close>: a read gives the
  bytes, a program within one page clears bits, an erase sets a sector.
\<close>

definition program_effect :: "('c \<Rightarrow> nat \<Rightarrow> u8) \<Rightarrow> nat \<Rightarrow> u8 list \<Rightarrow> 'c \<Rightarrow> 'c \<Rightarrow> bool" where
  "program_effect view a bs c c' \<longleftrightarrow>
     (\<forall>x. view c' x = (if a \<le> x \<and> x < a + length bs then view c x AND bs ! (x - a) else view c x))"

definition erase_effect :: "('c \<Rightarrow> nat \<Rightarrow> u8) \<Rightarrow> nat \<Rightarrow> 'c \<Rightarrow> 'c \<Rightarrow> bool" where
  "erase_effect view a c c' \<longleftrightarrow> (\<forall>x. view c' x = (if a \<le> x \<and> x < a + 4096 then 0xFF else view c x))"

definition spi_chip_ok :: "'c spi_chip \<Rightarrow> ('c \<Rightarrow> nat \<Rightarrow> u8) \<Rightarrow> nat \<Rightarrow> bool" where
  "spi_chip_ok C view limit \<longleftrightarrow> limit mod 4 = 0 \<and> limit \<le> 2 ^ 32
     \<and> (\<forall>a n c. 0 < n \<and> n \<le> 64 \<and> a mod 4 = 0 \<and> n mod 4 = 0 \<and> a + n \<le> limit \<longrightarrow> spi1_read_chunk C a n c \<noteq> None)
     \<and> (\<forall>a n c bs. spi1_read_chunk C a n c = Some bs \<longrightarrow> bs = map (view c) [a..<a + n])
     \<and> (\<forall>a bs c. bs \<noteq> [] \<and> length bs \<le> 64 \<and> a mod 256 + length bs \<le> 256 \<and> a + length bs \<le> limit \<longrightarrow>
          (\<exists>c'. spi1_program_chunk C a bs c = (True, c') \<and> program_effect view a bs c c'))
     \<and> (\<forall>a c. a mod 4096 = 0 \<and> a + 4096 \<le> limit \<longrightarrow> (\<exists>c'. spi1_erase_sector C a c = (True, c') \<and> erase_effect view a c c'))"

lemma spi_chip_laws:
  assumes "spi_chip_ok C view limit"
  shows "limit mod 4 = 0" "limit \<le> 2 ^ 32"
    "0 < n \<Longrightarrow> n \<le> 64 \<Longrightarrow> a mod 4 = 0 \<Longrightarrow> n mod 4 = 0 \<Longrightarrow> a + n \<le> limit \<Longrightarrow> \<exists>bs. spi1_read_chunk C a n c = Some bs"
    "spi1_read_chunk C a n c = Some bs \<Longrightarrow> bs = map (view c) [a..<a + n]"
    "bs \<noteq> [] \<Longrightarrow> length bs \<le> 64 \<Longrightarrow> a mod 256 + length bs \<le> 256 \<Longrightarrow> a + length bs \<le> limit \<Longrightarrow>
      \<exists>c'. spi1_program_chunk C a bs c = (True, c') \<and> program_effect view a bs c c'"
    "a mod 4096 = 0 \<Longrightarrow> a + 4096 \<le> limit \<Longrightarrow> \<exists>c'. spi1_erase_sector C a c = (True, c') \<and> erase_effect view a c c'"
  using assms by (simp_all add: spi_chip_ok_def)

lemma upt_split: "i \<le> j \<Longrightarrow> j \<le> k \<Longrightarrow> [i..<k] = [i..<j] @ [j..<k]"
  using upt_add_eq_append [of i j "k - j"] by simp

lemma window_read_bytes:
  assumes C: "spi_chip_ok C view limit"
  shows "window_read C a off len c = Some bs \<Longrightarrow> off \<le> len \<Longrightarrow> bs = map (view c) [a + off..<a + len]"
proof (induction "len - off" arbitrary: off bs rule: less_induct)
  case less
  let ?n = "chunk_len a off len"
  show ?case
  proof (cases "off < len")
    case True
    note b = chunk_len_bounds [OF True, of a]
    obtain x r where x: "spi1_read_chunk C (a + off) ?n c = Some x" "window_read C a (off + ?n) len c = Some r" "bs = x @ r"
      using less.prems(1) True by (subst (asm) window_read.simps) (auto simp: Let_def split: option.splits)
    have "r = map (view c) [a + (off + ?n)..<a + len]" using b by (intro less.hyps x(2)) simp_all
    moreover have "[a + off..<a + len] = [a + off..<a + off + ?n] @ [a + (off + ?n)..<a + len]"
      using b(2) True upt_split [of "a + off" "a + off + ?n" "a + len"] by (simp add: add.assoc)
    ultimately show ?thesis using spi_chip_laws(4) [OF C x(1)] x(3) by simp
  qed (use less.prems in \<open>simp add: window_read.simps\<close>)
qed

lemma window_read_ok:
  assumes C: "spi_chip_ok C view limit" and a: "a mod 4 = 0" "len mod 4 = 0" "a + len \<le> limit"
  shows "off mod 4 = 0 \<Longrightarrow> \<exists>bs. window_read C a off len c = Some bs"
proof (induction "len - off" arbitrary: off rule: less_induct)
  case less
  let ?n = "chunk_len a off len"
  show ?case
  proof (cases "off < len")
    case True
    note b = chunk_len_bounds [OF True, of a]
    have n4: "?n mod 4 = 0" using b(5) [OF a(1) less.prems a(2)] .
    have a4: "(a + off) mod 4 = 0" using a(1) less.prems mod_add_eq [of a 4 off] by simp
    have "a + off + ?n \<le> limit" using a(3) b(2) True by linarith
    from spi_chip_laws(3) [OF C b(1,3) a4 n4 this]
    obtain x where "spi1_read_chunk C (a + off) ?n c = Some x" by blast
    moreover have m4: "(off + ?n) mod 4 = 0" using less.prems n4 mod_add_eq [of off 4 ?n] by simp
    have "len - (off + ?n) < len - off" using b(1) True by linarith
    from less.hyps [OF this m4] obtain r where "window_read C a (off + ?n) len c = Some r" by blast
    ultimately show ?thesis using True by (subst window_read.simps) (simp add: Let_def)
  qed (simp add: window_read.simps)
qed

lemma flash_read_bytes:
  assumes C: "spi_chip_ok C view limit"
  shows "reflex_flash_read C a len c = Inr bs \<Longrightarrow> bs = map (view c) [a..<a + len]"
proof (induction len arbitrary: a bs rule: less_induct)
  case (less len)
  define al where "al = mask_down a 4"
  define want where "want = read_want a len"
  define sp where "sp = mask_down (a - al + want + 3) 4"
  have l: "0 < len" using less.prems by (cases "len = 0") (simp_all add: reflex_flash_read.simps)
  have al: "al \<le> a" by (simp add: al_def mask_down_4)
  have sp: "a - al + want \<le> sp" using mod_less_divisor [of 4 "a - al + want + 3"] unfolding sp_def mask_down_4 by linarith
  have w: "0 < want" "want \<le> len" using read_want_bounds(1,2) l by (simp_all add: want_def)
  obtain x where x: "window_read C al 0 sp c = Some x"
    using less.prems l by (subst (asm) reflex_flash_read.simps) (auto simp: Let_def al_def want_def sp_def split: option.splits)
  have "x = map (view c) [al..<al + sp]" using window_read_bytes [OF C x] by simp
  then have t: "take want (drop (a - al) x) = map (view c) [a..<a + want]"
    using al sp by (simp add: take_map drop_map)
  have eq: "reflex_flash_read C a len c
      = (if len - want = 0 then Inr (take want (drop (a - al) x))
         else rbind (reflex_flash_read C (a + want) (len - want) c) (\<lambda>rest. Inr (take want (drop (a - al) x) @ rest)))"
    using l x by (subst reflex_flash_read.simps)
      (simp only: Let_def al_def [symmetric] want_def [symmetric] sp_def [symmetric] option.case, simp)
  show ?case
  proof (cases "len - want = 0")
    case True
    then show ?thesis using less.prems eq t w by simp
  next
    case False
    then obtain r where r: "reflex_flash_read C (a + want) (len - want) c = Inr r" "bs = take want (drop (a - al) x) @ r"
      using less.prems eq by (cases "reflex_flash_read C (a + want) (len - want) c") auto
    have "r = map (view c) [a + want..<a + want + (len - want)]" using w l by (intro less.IH r(1)) simp
    then show ?thesis using r(2) t w upt_split [of a "a + want" "a + len"] by simp
  qed
qed

lemma flash_read_ok:
  assumes C: "spi_chip_ok C view limit"
  shows "0 < len \<Longrightarrow> a + len \<le> limit \<Longrightarrow> \<exists>bs. reflex_flash_read C a len c = Inr bs"
proof (induction len arbitrary: a rule: less_induct)
  case (less len)
  define al where "al = mask_down a 4"
  define want where "want = read_want a len"
  define sp where "sp = mask_down (a - al + want + 3) 4"
  have w: "0 < want" "want \<le> len" using read_want_bounds(1,2) less.prems by (simp_all add: want_def)
  have al: "al \<le> a" "al mod 4 = 0" by (simp_all add: al_def mask_down_4 minus_mod_eq_mult_div)
  have sp: "sp \<le> a - al + want + 3" "sp mod 4 = 0" by (simp_all add: sp_def mask_down_4 minus_mod_eq_mult_div)
  have "limit mod 4 = 0" by (rule spi_chip_laws(1) [OF C])
  then have "al + sp \<le> limit" using al sp w less.prems(2) by presburger
  from window_read_ok [OF C al(2) sp(2) this, of 0 c]
  obtain x where x: "window_read C al 0 sp c = Some x" by auto
  show ?case
  proof (cases "len - want = 0")
    case True
    then show ?thesis using x less.prems(1) w by (subst reflex_flash_read.simps) (simp add: al_def want_def sp_def Let_def)
  next
    case False
    then have "\<exists>bs. reflex_flash_read C (a + want) (len - want) c = Inr bs" using w less.prems by (intro less.IH) simp_all
    then show ?thesis using x False less.prems(1)
      by (subst reflex_flash_read.simps) (auto simp: al_def want_def sp_def Let_def)
  qed
qed

lemma program_effect_append:
  "program_effect view a xs c c1 \<Longrightarrow> program_effect view (a + length xs) ys c1 c2 \<Longrightarrow> program_effect view a (xs @ ys) c c2"
  unfolding program_effect_def by (auto simp: nth_append)

lemma window_write_effect:
  assumes C: "spi_chip_ok C view limit" and a: "a + length bs \<le> limit"
  shows "off \<le> length bs \<Longrightarrow> \<exists>c'. window_write C a off bs c = (True, c') \<and> program_effect view (a + off) (drop off bs) c c'"
proof (induction "length bs - off" arbitrary: off c rule: less_induct)
  case less
  let ?n = "chunk_len a off (length bs)"
  show ?case
  proof (cases "off < length bs")
    case True
    note b = chunk_len_bounds [OF True, of a]
    define xs where "xs = take ?n (drop off bs)"
    have xs: "length xs = ?n" using b(2) by (simp add: xs_def)
    have "xs \<noteq> []" "length xs \<le> 64" "(a + off) mod 256 + length xs \<le> 256" "a + off + length xs \<le> limit"
      using b a True xs by (auto simp flip: length_greater_0_conv)
    from spi_chip_laws(5) [OF C this]
    obtain c1 where c1: "spi1_program_chunk C (a + off) xs c = (True, c1)" "program_effect view (a + off) xs c c1" by blast
    have "length bs - (off + ?n) < length bs - off" "off + ?n \<le> length bs" using b(1,2) True by linarith+
    from less.hyps [OF this] obtain c2 where c2: "window_write C a (off + ?n) bs c1 = (True, c2)"
        "program_effect view (a + (off + ?n)) (drop (off + ?n) bs) c1 c2" by blast
    have "program_effect view (a + off) (xs @ drop (off + ?n) bs) c c2"
      using c2(2) by (intro program_effect_append [OF c1(2)]) (simp add: xs add.assoc)
    moreover have "xs @ drop (off + ?n) bs = drop off bs"
      unfolding xs_def by (metis append_take_drop_id drop_drop add.commute)
    ultimately show ?thesis using True c1(1) c2(1) by (subst window_write.simps) (simp add: Let_def xs_def)
  qed (auto simp: window_write.simps program_effect_def)
qed

lemma flash_driver_medium:
  assumes C: "spi_chip_ok C view limit"
  shows "flash_medium (flash_driver C) view limit"
proof
  show "\<exists>bs. f_read (flash_driver C) a n m = Inr bs" if "0 < n" "KV_FLASH_BASE \<le> a" "a + n \<le> limit" for a n m
    using flash_read_ok [OF C that(1,3)] by (simp add: flash_driver_def)
  show "limit \<le> 2 ^ 32" by (rule spi_chip_laws(2) [OF C])
  show "bs = map (view m) [a..<a + n]" if "f_read (flash_driver C) a n m = Inr bs" for a n m bs
    using flash_read_bytes [OF C, of a n m bs] that by (simp add: flash_driver_def)
  show "\<exists>m'. f_write (flash_driver C) a bs m = (Inr (), m')
      \<and> (\<forall>x. view m' x = (if a \<le> x \<and> x < a + length bs then view m x AND bs ! (x - a) else view m x))"
    if w: "KV_FLASH_BASE \<le> a" "a mod 4 = 0" "length bs mod 4 = 0" "bs \<noteq> []" "a + length bs \<le> limit" for a bs m
  proof -
    obtain c' where "window_write C a 0 bs m = (True, c')" "program_effect view a bs m c'"
      using window_write_effect [OF C w(5), of 0 m] by auto
    then show ?thesis using w by (simp add: flash_driver_def reflex_flash_write_def mask_down_4 program_effect_def)
  qed
  show "\<exists>m'. f_erase (flash_driver C) a 4096 m = (Inr (), m') \<and> (\<forall>x. view m' x = (if a \<le> x \<and> x < a + 4096 then 0xFF else view m x))"
    if w: "KV_FLASH_BASE \<le> a" "a mod 4096 = 0" "a + 4096 \<le> limit" for a m
  proof -
    obtain c' where "spi1_erase_sector C a m = (True, c')" "erase_effect view a m c'" using spi_chip_laws(6) [OF C w(2,3)] by blast
    then show ?thesis using w
      by (simp add: flash_driver_def reflex_flash_erase_def window_erase.simps FLASH_SECTOR_SIZE_def erase_effect_def)
  qed
qed

end
