(* ===== verification/Kv_Map.thy ===== *)
theory Kv_Map imports Kv_Compact Flash_Driver begin

text \<open>
  The store as a map from namespace and key to values: the invariant of a mounted store, a write
  with and without compaction, the mount at boot, and histories of writes. The contract of the
  medium is discharged for the flash driver and for the host suite's mock.
\<close>

section \<open>The invariant\<close>

definition contents :: "kv_entry list \<Rightarrow> u8 \<times> u8 list \<Rightarrow> u8 list option" where
  "contents es k = map_option k_val (latest es k)"

lemma contents_snoc: "contents (es @ [e]) = (contents es)(entry_key e \<mapsto> k_val e)"
  by (rule ext) (simp add: contents_def latest_snoc)

lemma contents_compacted: "contents (compacted es) = contents es"
  by (rule ext) (simp add: contents_def compacted_props)

definition page_header :: "('m \<Rightarrow> nat \<Rightarrow> u8) \<Rightarrow> 'm \<Rightarrow> nat \<Rightarrow> kv_page_header" where
  "page_header view m s = page_of_bytes (take 8 (sector_bytes view m s))"

text \<open>A sector the scan at boot passes over in favour of the page \<open>seq\<close>.\<close>

definition stale :: "('m \<Rightarrow> nat \<Rightarrow> u8) \<Rightarrow> 'm \<Rightarrow> nat \<Rightarrow> nat \<Rightarrow> bool" where
  "stale view m seq s \<longleftrightarrow> (magic (page_header view m s) = KV_MAGIC \<longrightarrow> pseq (page_header view m s) < seq)"

definition kv_ok :: "('m \<Rightarrow> nat \<Rightarrow> u8) \<Rightarrow> kv_state \<Rightarrow> 'm \<Rightarrow> kv_entry list \<Rightarrow> bool" where
  "kv_ok view st m es \<longleftrightarrow> s_initialized st \<and> s_write_offset st = position es
     \<and> sector_log view m (s_active_sector st) (s_active_seq st) es
     \<and> (\<forall>s < 6. s \<noteq> s_active_sector st \<longrightarrow> stale view m (s_active_seq st) s)"

lemma sector_log_header: "sector_log view m s seq es \<Longrightarrow> page_header view m s = \<lparr>magic = KV_MAGIC, pseq = seq\<rparr>"
  using page_roundtrip [of "\<lparr>magic = KV_MAGIC, pseq = seq\<rparr>"]
  by (simp add: page_header_def sector_log_def sector_image_def KV_MAGIC_def)

lemma stale_frame: "sector_bytes view m' s = sector_bytes view m s \<Longrightarrow> stale view m' seq s = stale view m seq s"
  by (simp add: stale_def page_header_def)

definition entry_of :: "nat \<Rightarrow> u8 list \<Rightarrow> u8 \<Rightarrow> u8 list \<Rightarrow> kv_entry" where
  "entry_of h key ty val = \<lparr>k_ns = GET_NS h, k_key = key, k_type = ty, k_val = val\<rparr>"

text \<open>The log a write goes to: the log as it is, or compacted when the entry does not fit behind it.\<close>

definition log_before :: "kv_entry list \<Rightarrow> kv_entry \<Rightarrow> kv_entry list" where
  "log_before es e = (if position es + kv_entry_span (hdr e) \<ge> 4096 then compacted es else es)"

definition fits :: "kv_entry list \<Rightarrow> kv_entry \<Rightarrow> bool" where
  "fits es e \<longleftrightarrow> position es + kv_entry_span (hdr e) < 4096"

definition log_after :: "kv_entry list \<Rightarrow> kv_entry \<Rightarrow> kv_entry list" where
  "log_after es e = (if fits (log_before es e) e then log_before es e @ [e] else log_before es e)"

lemma log_after_keys: "entry_key ` set (log_after es e) \<subseteq> insert (entry_key e) (entry_key ` set es)"
  using compacted_props(2) [of es] by (auto simp: log_after_def log_before_def)

lemma contents_log_after:
  "contents (log_after es e) = (if fits (log_before es e) e then (contents es)(entry_key e \<mapsto> k_val e) else contents es)"
  by (simp add: log_after_def contents_snoc log_before_def contents_compacted)

text \<open>An entry is turned away only when it does not fit behind the live entries alone.\<close>

lemma fits_iff: "fits (log_before es e) e \<longleftrightarrow> fits (compacted es) e"
  using compacted_props(3) [of es] by (auto simp: fits_def log_before_def)

section \<open>Writing\<close>

context flash_medium
begin

lemma kv_write_entry_ok:
  assumes ok: "kv_ok view st m es" and c: "0x16000 \<le> limit" and e: "entry_ok (entry_of h key ty val)"
    and k: "card (entry_key ` set es) \<le> 256" and q: "s_active_seq st + 1 < 2 ^ 32"
  obtains st' m' where
    "kv_write_entry F st (GET_NS h) key ty val m
      = (if fits (compacted es) (entry_of h key ty val) then Inr () else Inl REFLEX_ERR_NO_MEM, st', m')"
    "kv_ok view st' m' (log_after es (entry_of h key ty val))" "s_active_seq st' \<le> s_active_seq st + 1"
proof -
  let ?e = "entry_of h key ty val"
  define sp where "sp = kv_entry_span (hdr ?e)"
  have h: "\<lparr>e_ns = GET_NS h, e_key_len = length key, e_val_len = length val, e_type = ty\<rparr> = hdr ?e"
    "entry_bytes (hdr ?e) @ key @ val = raw ?e" "\<not> (length key > KV_KEY_MAX \<or> length val > KV_VAL_MAX)"
    using e by (simp_all add: hdr_def entry_of_def raw_def entry_ok_def KV_KEY_MAX_def KV_VAL_MAX_def)
  have l: "sector_log view m (s_active_sector st) (s_active_seq st) es" "s_write_offset st = position es" "s_initialized st"
    "\<And>s. s < 6 \<Longrightarrow> s \<noteq> s_active_sector st \<Longrightarrow> stale view m (s_active_seq st) s"
    using ok by (auto simp: kv_ok_def)
  obtain st1 m1 where s1: "(if s_write_offset st + sp \<ge> KV_SECTOR_SIZE then kv_compact F st m else (st, m)) = (st1, m1)"
      "kv_ok view st1 m1 (log_before es ?e)" "s_active_seq st1 \<le> s_active_seq st + 1"
  proof (cases "position es + sp \<ge> 4096")
    case True
    obtain m' new where cp: "kv_compact F st m
        = (st\<lparr>s_active_sector := new, s_active_seq := s_active_seq st + 1, s_write_offset := position (compacted es)\<rparr>, m')"
      "sector_log view m' new (s_active_seq st + 1) (compacted es)"
      "\<And>t. t \<noteq> new \<Longrightarrow> sector_bytes view m' t = sector_bytes view m t"
      by (rule kv_compact_log [OF l(1) c k q]) blast
    have "stale view m' (s_active_seq st + 1) t" if "t < 6" "t \<noteq> new" for t
    proof (cases "t = s_active_sector st")
      case True
      then show ?thesis using cp(3) [OF that(2)] sector_log_header [OF l(1)] by (simp add: stale_def page_header_def)
    next
      case False
      then show ?thesis using l(4) [OF that(1) False] cp(3) [OF that(2)] by (simp add: stale_def page_header_def less_Suc_eq)
    qed
    then show ?thesis using that [OF _ _] cp(1,2) True l(2,3)
      by (simp add: KV_SECTOR_SIZE_def kv_ok_def log_before_def flip: sp_def)
  next
    case False
    then show ?thesis using that [of st m] ok l(2) by (simp add: KV_SECTOR_SIZE_def log_before_def flip: sp_def)
  qed
  let ?es = "log_before es ?e"
  have l1: "sector_log view m1 (s_active_sector st1) (s_active_seq st1) ?es" "s_write_offset st1 = position ?es"
    using s1(2) by (simp_all add: kv_ok_def)
  note eq = kv_write_entry_def [of F st "GET_NS h" key ty val m, unfolded Let_def h if_not_P [OF h(3)], folded sp_def, unfolded s1(1) prod.case]
  show ?thesis
  proof (cases "fits ?es ?e")
    case True
    have lt: "position ?es + kv_entry_span (hdr ?e) < 4096" using True by (simp add: fits_def)
    obtain m2 where w: "flash_write F (sector_addr (s_active_sector st1) + position ?es) (raw ?e) m1 = (True, m2)"
        "sector_log view m2 (s_active_sector st1) (s_active_seq st1) (?es @ [?e])"
        "\<And>t. t \<noteq> s_active_sector st1 \<Longrightarrow> sector_bytes view m2 t = sector_bytes view m1 t"
      using append_log [OF l1(1) c e lt] by blast
    have "kv_ok view (st1\<lparr>s_write_offset := s_write_offset st1 + sp\<rparr>) m2 (?es @ [?e])"
      using s1(2) w(2,3) stale_frame [of view m2 _ m1] by (simp add: kv_ok_def position_snoc sp_def)
    then show ?thesis using that [of "st1\<lparr>s_write_offset := s_write_offset st1 + sp\<rparr>" m2] eq w(1) l1(2) lt True s1(3)
      by (simp add: KV_SECTOR_SIZE_def sp_def log_after_def flip: fits_iff)
  next
    case False
    then have "\<not> fits (compacted es) ?e" by (simp add: fits_iff)
    moreover have "position ?es + kv_entry_span (hdr ?e) \<ge> 4096" using False by (simp add: fits_def)
    ultimately show ?thesis using that [of st1 m1] eq l1(2) s1(2,3) False
      by (simp add: KV_SECTOR_SIZE_def sp_def log_after_def)
  qed
qed

end

section \<open>Mounting\<close>

context flash_medium
begin

lemma page_header_read:
  assumes s: "s < 6" and c: "0x16000 \<le> limit"
  shows "page_of_bytes (flash_read F (sector_addr s) 8 m) = page_header view m s"
proof -
  have "flash_read F (sector_addr s) 8 m = map (view m) [sector_addr s..<sector_addr s + 8]"
    using sector_addr_less(1) [OF s] sector_addr_less(4) [of s 0] c by (intro flash_read_view) simp_all
  moreover have "[sector_addr s..<sector_addr s + 8] = take 8 [sector_addr s..<sector_addr s + 4096]" by (rule take_upt [symmetric]) simp
  ultimately show ?thesis by (simp only: page_header_def sector_bytes_def take_map)
qed

lemma scan_step:
  "s < 6 \<Longrightarrow> 0x16000 \<le> limit \<Longrightarrow> scan_sector F m s (b, t, f) =
    (if magic (page_header view m s) = KV_MAGIC \<and> pseq (page_header view m s) \<ge> b then (pseq (page_header view m s), s, True) else (b, t, f))"
  by (simp add: scan_sector_def page_header_read Let_def)

text \<open>The scan finds the live page, also when the pages of other sectors are left from before.\<close>

lemma scan_finds:
  assumes ok: "kv_ok view st m es" and c: "0x16000 \<le> limit"
  shows "n \<le> 6 \<Longrightarrow> \<exists>b t f. fold (scan_sector F m) [0..<n] (0, 0, False) = (b, t, f)
    \<and> (if s_active_sector st < n then b = s_active_seq st \<and> t = s_active_sector st \<and> f else b \<le> s_active_seq st)"
proof (induction n)
  case (Suc n)
  let ?a = "s_active_sector st"
  obtain b t f where i: "fold (scan_sector F m) [0..<n] (0, 0, False) = (b, t, f)"
    "if ?a < n then b = s_active_seq st \<and> t = ?a \<and> f else b \<le> s_active_seq st" using Suc by auto
  have n: "n < 6" using Suc.prems by simp
  have live: "page_header view m ?a = \<lparr>magic = KV_MAGIC, pseq = s_active_seq st\<rparr>"
    using ok by (auto simp: kv_ok_def intro: sector_log_header)
  have other: "n \<noteq> ?a \<Longrightarrow> magic (page_header view m n) = KV_MAGIC \<Longrightarrow> pseq (page_header view m n) < s_active_seq st"
    using ok n by (simp add: kv_ok_def stale_def)
  have f: "fold (scan_sector F m) [0..<Suc n] (0, 0, False) = scan_sector F m n (b, t, f)" using i(1) by simp
  show ?case
  proof (cases "n = ?a")
    case True
    then show ?thesis using i(2) live unfolding f using n by (auto simp: scan_step [OF _ c])
  next
    case False
    show ?thesis using i(2) other [OF False] False unfolding f by (auto simp: scan_step [OF n c] less_Suc_eq)
  qed
qed (simp, rule exI [of _ False], simp)

lemma append_walk:
  assumes c: "0x16000 \<le> limit"
  shows "sector_log view m s seq (xs @ ys) \<Longrightarrow> \<forall>e \<in> set ys. k_ns e \<noteq> 0xFF
    \<Longrightarrow> append_offset F (sector_addr s) (position xs) m = position (xs @ ys)"
proof (induction ys arbitrary: xs)
  case Nil
  then show ?case using header_behind(2) [of m s seq xs] c
    by (subst append_offset.simps) simp
next
  case (Cons e ys)
  have l: "sector_log view m s seq (xs @ e # ys)" using Cons.prems(1) by simp
  have e: "entry_ok e" "position xs < 4096" using log_slice(2,3) [OF l, of 0 0] by simp_all
  note h = header_at [OF l c]
  have "sector_log view m s seq ((xs @ [e]) @ ys)" using l by simp
  from Cons.IH [OF this] Cons.prems(2)
  have "append_offset F (sector_addr s) (position (xs @ [e])) m = position (xs @ e # ys)" by simp
  then show ?case using h(5) Cons.prems(2) sane_hdr [OF e(1)] e(2)
    by (subst append_offset.simps) (simp add: h(1) KV_SECTOR_SIZE_def position_snoc)
qed

lemma kv_init_recovers:
  assumes ok: "kv_ok view st m es" and c: "0x16000 \<le> limit" and ns: "\<forall>e \<in> set es. k_ns e \<noteq> 0xFF"
  shows "reflex_kv_init F m = (st, m)"
proof -
  have l: "sector_log view m (s_active_sector st) (s_active_seq st) es" "s_write_offset st = position es" "s_initialized st"
    using ok by (simp_all add: kv_ok_def)
  have a: "s_active_sector st < 6" using l(1) by (simp add: sector_log_def)
  have "fold (scan_sector F m) [0..<6] (0, 0, False) = (s_active_seq st, s_active_sector st, True)"
    using scan_finds [OF ok c, of 6] a by auto
  moreover have "append_offset F (sector_addr (s_active_sector st)) 8 m = position es"
    using append_walk [OF c, of m "s_active_sector st" "s_active_seq st" "[]" es] l(1) ns by (simp add: position_def)
  ultimately show ?thesis using l(2,3) by (simp add: reflex_kv_init_def KV_NUM_SECTORS_def)
qed

text \<open>On a medium without any page, the first sector is formatted.\<close>

lemma kv_init_blank:
  assumes b: "\<forall>s < 6. magic (page_header view m s) \<noteq> KV_MAGIC" and c: "0x16000 \<le> limit"
  obtains st m' where "reflex_kv_init F m = (st, m')" "kv_ok view st m' []" "s_active_seq st = 1"
proof -
  have s: "fold (scan_sector F m) [0..<n] (0, 0, False) = (0, 0, False)" if "n \<le> 6" for n
    using that by (induction n) (use b c scan_step in auto)
  obtain m1 m2 where f: "f_erase F (sector_addr 0) KV_SECTOR_SIZE m = (Inr (), m1)"
      "flash_write F (sector_addr 0) (page_bytes \<lparr>magic = KV_MAGIC, pseq = 1\<rparr>) m1 = (True, m2)"
      "sector_log view m2 0 1 []" "\<And>t. t \<noteq> 0 \<Longrightarrow> sector_bytes view m2 t = sector_bytes view m t"
    using fresh_sector [of 0 1, OF _ _ c, of m] by auto
  have "stale view m2 1 t" if "t < 6" "t \<noteq> 0" for t
    using b that f(4) [OF that(2)] by (simp add: stale_def page_header_def)
  then have "kv_ok view \<lparr>s_active_sector = 0, s_active_seq = 1, s_write_offset = 8, s_initialized = True\<rparr> m2 []"
    using f(3) by (simp add: kv_ok_def position_def)
  moreover have "reflex_kv_init F m = (\<lparr>s_active_sector = 0, s_active_seq = 1, s_write_offset = 8, s_initialized = True\<rparr>, m2)"
    using s [of 6] f(1,2) by (simp add: reflex_kv_init_def KV_NUM_SECTORS_def sector_addr_def)
  ultimately show ?thesis using that by simp
qed

end

section \<open>Histories of writes\<close>

type_synonym kv_set_op = "nat \<times> u8 list \<times> u8 list"

fun kv_run :: "'m flash_dev \<Rightarrow> kv_set_op list \<Rightarrow> kv_state \<Rightarrow> 'm \<Rightarrow> unit result list \<times> kv_state \<times> 'm" where
  "kv_run F [] st m = ([], st, m)"
| "kv_run F ((h, key, val) # ops) st m =
     (case reflex_kv_set_blob F st h key val m of
        (r, st1, m1) \<Rightarrow> case kv_run F ops st1 m1 of (rs, st2, m2) \<Rightarrow> (r # rs, st2, m2))"

text \<open>What the map holds when the writes that answered OK took effect.\<close>

fun kv_applied :: "kv_set_op list \<Rightarrow> unit result list \<Rightarrow> (u8 \<times> u8 list \<Rightarrow> u8 list option) \<Rightarrow> u8 \<times> u8 list \<Rightarrow> u8 list option" where
  "kv_applied ((h, key, val) # ops) (r # rs) M = kv_applied ops rs (if r = Inr () then M((GET_NS h, key) \<mapsto> val) else M)"
| "kv_applied _ _ M = M"

definition op_key :: "kv_set_op \<Rightarrow> u8 \<times> u8 list" where
  "op_key op = (case op of (h, key, val) \<Rightarrow> (GET_NS h, key))"

definition op_ok :: "kv_set_op \<Rightarrow> bool" where
  "op_ok op \<longleftrightarrow> (case op of (h, key, val) \<Rightarrow> 1 \<le> length key \<and> length key \<le> 15 \<and> 0 \<notin> set key \<and> length val \<le> 240)"

lemma entry_of_simps: "entry_key (entry_of h key ty val) = (GET_NS h, key)" "k_val (entry_of h key ty val) = val"
  "entry_ok (entry_of h key ty val) \<longleftrightarrow> op_ok (h, key, val)"
  by (auto simp: entry_of_def entry_key_def entry_ok_def op_ok_def)

context flash_medium
begin

lemma kv_run_ok:
  assumes c: "0x16000 \<le> limit"
  shows "kv_ok view st m es \<Longrightarrow> list_all op_ok ops \<Longrightarrow> card (entry_key ` set es \<union> op_key ` set ops) \<le> 256
    \<Longrightarrow> s_active_seq st + length ops < 2 ^ 32 \<Longrightarrow> kv_run F ops st m = (rs, st', m')
    \<Longrightarrow> \<exists>es'. kv_ok view st' m' es' \<and> contents es' = kv_applied ops rs (contents es)
      \<and> entry_key ` set es' \<subseteq> entry_key ` set es \<union> op_key ` set ops"
proof (induction ops arbitrary: st m es rs)
  case (Cons op ops)
  obtain h key val where op: "op = (h, key, val)" by (cases op) auto
  let ?e = "entry_of h key KV_TYPE_BLOB val"
  have ok: "op_key op = (GET_NS h, key)" by (simp add: op op_key_def)
  have e: "entry_ok ?e" using Cons.prems(2) by (simp add: op entry_of_simps)
  have k: "card (entry_key ` set es) \<le> 256"
    by (rule order_trans [OF card_mono Cons.prems(3)]) auto
  have q: "s_active_seq st + 1 < 2 ^ 32" using Cons.prems(4) by simp
  obtain st1 m1 where w: "kv_write_entry F st (GET_NS h) key KV_TYPE_BLOB val m
      = (if fits (compacted es) ?e then Inr () else Inl REFLEX_ERR_NO_MEM, st1, m1)"
      "kv_ok view st1 m1 (log_after es ?e)" "s_active_seq st1 \<le> s_active_seq st + 1"
    using kv_write_entry_ok [OF Cons.prems(1) c e k q] by blast
  obtain rs1 where r: "rs = (if fits (compacted es) ?e then Inr () else Inl REFLEX_ERR_NO_MEM) # rs1" "kv_run F ops st1 m1 = (rs1, st', m')"
    using Cons.prems(5) w(1) by (auto simp: op reflex_kv_set_blob_def split: prod.splits)
  have keys: "entry_key ` set (log_after es ?e) \<union> op_key ` set ops \<subseteq> entry_key ` set es \<union> op_key ` set (op # ops)"
    using log_after_keys [of es ?e] ok by (auto simp: entry_of_simps)
  then have "card (entry_key ` set (log_after es ?e) \<union> op_key ` set ops) \<le> 256"
    using Cons.prems(3) card_mono [OF _ keys] by simp
  moreover have "list_all op_ok ops" "s_active_seq st1 + length ops < 2 ^ 32" using Cons.prems(2,4) w(3) by simp_all
  ultimately obtain es' where "kv_ok view st' m' es'" "contents es' = kv_applied ops rs1 (contents (log_after es ?e))"
      "entry_key ` set es' \<subseteq> entry_key ` set (log_after es ?e) \<union> op_key ` set ops"
    using Cons.IH [OF w(2) _ _ _ r(2)] by blast
  moreover from this(3) keys have "entry_key ` set es' \<subseteq> entry_key ` set es \<union> op_key ` set (op # ops)" by (rule order_trans)
  moreover have "contents (log_after es ?e) = (if fits (compacted es) ?e then (contents es)((GET_NS h, key) \<mapsto> val) else contents es)"
    by (simp add: contents_log_after fits_iff entry_of_simps)
  ultimately show ?case by (intro exI [of _ es']) (simp add: op r(1))
qed auto

end

section \<open>Media\<close>

text \<open>
  The mock of the host suite (tests/host/test_kv.c): an array of six sectors at the base of the
  partition, with the range checks of its functions; offsets are unsigned, so an address below
  the base is far out of range.
\<close>

definition MOCK_FLASH_BASE :: nat where "MOCK_FLASH_BASE = 0x10000"
definition MOCK_FLASH_SIZE :: nat where "MOCK_FLASH_SIZE = 6 * 4096"

type_synonym mock_flash = "nat \<Rightarrow> u8"

definition mock_read :: "nat \<Rightarrow> nat \<Rightarrow> mock_flash \<Rightarrow> u8 list result" where
  "mock_read addr len m =
     (let offset = sub32 addr MOCK_FLASH_BASE in
      if offset + len > MOCK_FLASH_SIZE then Inl REFLEX_ERR_INVALID_RESPONSE else Inr (map m [offset..<offset + len]))"

definition mock_write :: "nat \<Rightarrow> u8 list \<Rightarrow> mock_flash \<Rightarrow> unit result \<times> mock_flash" where
  "mock_write addr bs m =
     (let offset = sub32 addr MOCK_FLASH_BASE in
      if offset + length bs > MOCK_FLASH_SIZE then (Inl REFLEX_ERR_INVALID_RESPONSE, m)
      else if mask_low addr 4 \<noteq> 0 then (Inl REFLEX_ERR_INVALID_ARG, m)
      else (Inr (), \<lambda>i. if offset \<le> i \<and> i < offset + length bs then m i AND bs ! (i - offset) else m i))"

definition mock_erase :: "nat \<Rightarrow> nat \<Rightarrow> mock_flash \<Rightarrow> unit result \<times> mock_flash" where
  "mock_erase addr len m =
     (let offset = sub32 addr MOCK_FLASH_BASE in
      if offset + len > MOCK_FLASH_SIZE then (Inl REFLEX_ERR_INVALID_RESPONSE, m)
      else (Inr (), \<lambda>i. if offset \<le> i \<and> i < offset + len then 0xFF else m i))"

definition host_mock :: "mock_flash flash_dev" where
  "host_mock = \<lparr>f_read = mock_read, f_write = mock_write, f_erase = mock_erase\<rparr>"

text \<open>The byte at an address: the mock's array, and erased flash beside it.\<close>

definition mock_view :: "mock_flash \<Rightarrow> nat \<Rightarrow> u8" where
  "mock_view m x = (if MOCK_FLASH_BASE \<le> x \<and> x < MOCK_FLASH_BASE + MOCK_FLASH_SIZE then m (x - MOCK_FLASH_BASE) else 0xFF)"

lemma mock_offset:
  assumes "a < 2 ^ 32" "sub32 a MOCK_FLASH_BASE + n \<le> MOCK_FLASH_SIZE" "0 < n"
  shows "MOCK_FLASH_BASE \<le> a" "sub32 a MOCK_FLASH_BASE = a - MOCK_FLASH_BASE"
proof -
  show "MOCK_FLASH_BASE \<le> a"
  proof (rule ccontr)
    assume "\<not> MOCK_FLASH_BASE \<le> a"
    then have "int a - int MOCK_FLASH_BASE + 2 ^ 32 \<ge> 2 ^ 32 - 0x10000" "int a - int MOCK_FLASH_BASE < 0" by (simp_all add: MOCK_FLASH_BASE_def)
    moreover from this have "int (sub32 a MOCK_FLASH_BASE) = int a - int MOCK_FLASH_BASE + 2 ^ 32"
      using mod_pos_pos_trivial [of "int a - int MOCK_FLASH_BASE + 2 ^ 32" "2 ^ 32"] by (simp add: int_sub32)
    ultimately show False using assms(2) by (simp add: MOCK_FLASH_SIZE_def)
  qed
  then show "sub32 a MOCK_FLASH_BASE = a - MOCK_FLASH_BASE" using assms(1) by (rule sub32_small)
qed

interpretation mock: flash_medium host_mock mock_view "0x16000"
proof
  have S: "MOCK_FLASH_BASE + MOCK_FLASH_SIZE = 0x16000" "KV_FLASH_BASE = MOCK_FLASH_BASE"
    by (simp_all add: MOCK_FLASH_BASE_def MOCK_FLASH_SIZE_def KV_FLASH_BASE_def)
  have off: "sub32 a MOCK_FLASH_BASE = a - MOCK_FLASH_BASE" "a - MOCK_FLASH_BASE + n \<le> MOCK_FLASH_SIZE"
    if w: "KV_FLASH_BASE \<le> a" "a + n \<le> 0x16000" for a n
    using sub32_small [of MOCK_FLASH_BASE a] w S by simp_all
  show "\<exists>bs. f_read host_mock a n m = Inr bs" if w: "0 < n" "KV_FLASH_BASE \<le> a" "a + n \<le> 0x16000" for a n m
    using off [OF w(2,3)] by (simp add: host_mock_def mock_read_def Let_def)
  show "(0x16000 :: nat) \<le> 2 ^ 32" by simp
  show "bs = map (mock_view m) [a..<a + n]" if w: "a < 2 ^ 32" "f_read host_mock a n m = Inr bs" for a n m bs
  proof (cases "n = 0")
    case False
    let ?o = "sub32 a MOCK_FLASH_BASE"
    have r: "?o + n \<le> MOCK_FLASH_SIZE" "bs = map m [?o..<?o + n]"
      using w(2) by (auto simp: host_mock_def mock_read_def Let_def split: if_splits)
    note o = mock_offset [OF w(1) r(1)] False
    have "a + n \<le> MOCK_FLASH_BASE + MOCK_FLASH_SIZE" using r(1) o by simp
    then have "bs ! i = mock_view m (a + i)" if "i < n" for i
      using that r o by (simp add: mock_view_def)
    then show ?thesis using r(2) by (intro nth_equalityI) simp_all
  qed (use w in \<open>simp add: host_mock_def mock_read_def Let_def split: if_splits\<close>)
  show "\<exists>m'. f_write host_mock a bs m = (Inr (), m')
      \<and> (\<forall>x. mock_view m' x = (if a \<le> x \<and> x < a + length bs then mock_view m x AND bs ! (x - a) else mock_view m x))"
    if w: "KV_FLASH_BASE \<le> a" "a mod 4 = 0" "length bs mod 4 = 0" "bs \<noteq> []" "a + length bs \<le> 0x16000" for a bs m
    using off [OF w(1,5)] w S by (auto simp: host_mock_def mock_write_def mask_down_4 mock_view_def Let_def)
  show "\<exists>m'. f_erase host_mock a 4096 m = (Inr (), m')
      \<and> (\<forall>x. mock_view m' x = (if a \<le> x \<and> x < a + 4096 then 0xFF else mock_view m x))"
    if w: "KV_FLASH_BASE \<le> a" "a mod 4096 = 0" "a + 4096 \<le> 0x16000" for a m
    using off [OF w(1,3)] w S by (auto simp: host_mock_def mock_erase_def mock_view_def Let_def)
qed

text \<open>The flash driver over a chip of \<open>2 ^ 24\<close> bytes in memory.\<close>

definition ram_chip :: "(nat \<Rightarrow> u8) spi_chip" where
  "ram_chip = \<lparr>spi1_read_chunk = \<lambda>a n c. Some (map c [a..<a + n]),
     spi1_program_chunk = \<lambda>a bs c. (True, \<lambda>x. if a \<le> x \<and> x < a + length bs then c x AND bs ! (x - a) else c x),
     spi1_erase_sector = \<lambda>a c. (True, \<lambda>x. if a \<le> x \<and> x < a + 4096 then 0xFF else c x)\<rparr>"

lemma ram_chip_ok: "spi_chip_ok ram_chip (\<lambda>c. c) 0x1000000"
  by (simp add: spi_chip_ok_def ram_chip_def program_effect_def erase_effect_def)

interpretation driver: flash_medium "flash_driver ram_chip" "\<lambda>c. c" "0x1000000"
  by (rule flash_driver_medium [OF ram_chip_ok])

section \<open>Properties\<close>

text \<open>
  C4: A write of an acceptable entry (a key of 1 to 15 bytes without a zero, a value of at most 240)
  to a mounted store, on any medium that keeps the driver's contract, answers OK and then the key
  has the new value and every other key its old one, or answers NO_MEM, leaves every key as it was,
  and the entry does not fit behind the live entries even after compaction. The store stays mounted
  and well-formed whether the sector was compacted or not. The store must hold at most 256 distinct
  keys, the size of the table compaction collects them in: past it compaction reports and drops the
  excess. The page sequence must not be at its last number.
\<close>

theorem kv_set_spec:
  assumes "flash_medium F view limit" "0x16000 \<le> limit" "kv_ok view st m es" "op_ok (h, key, val)"
    "card (entry_key ` set es) \<le> 256" "s_active_seq st + 1 < 2 ^ 32"
    "reflex_kv_set_blob F st h key val m = (r, st', m')"
  shows "\<exists>es'. kv_ok view st' m' es'
    \<and> contents es' = (if r = Inr () then (contents es)((GET_NS h, key) \<mapsto> val) else contents es)
    \<and> (r = Inr () \<or> r = Inl REFLEX_ERR_NO_MEM
        \<and> 4096 \<le> position (compacted es) + kv_entry_span (hdr (entry_of h key KV_TYPE_BLOB val)))"
proof -
  let ?e = "entry_of h key KV_TYPE_BLOB val"
  have "entry_ok ?e" using assms(4) by (simp add: entry_of_simps)
  then obtain st1 m1 where "kv_write_entry F st (GET_NS h) key KV_TYPE_BLOB val m
      = (if fits (compacted es) ?e then Inr () else Inl REFLEX_ERR_NO_MEM, st1, m1)" "kv_ok view st1 m1 (log_after es ?e)"
    using flash_medium.kv_write_entry_ok [OF assms(1,3,2) _ assms(5,6)] by blast
  then show ?thesis using assms(7)
    by (intro exI [of _ "log_after es ?e"])
      (auto simp: reflex_kv_set_blob_def contents_log_after fits_iff entry_of_simps, simp add: fits_def)
qed

lemma blank_mock: "\<forall>s < 6. magic (page_header mock_view (\<lambda>_. 0xFF) s) \<noteq> KV_MAGIC"
proof -
  have "mock_view (\<lambda>_. 0xFF) = (\<lambda>_. 0xFF)" by (rule ext) (simp add: mock_view_def)
  then have "take 8 (sector_bytes mock_view (\<lambda>_. 0xFF) s) = replicate 8 0xFF" for s
    by (simp add: sector_bytes_def map_replicate_const take_map)
  moreover have "replicate 8 x = [x, x, x, x, x, x, x, x]" for x :: u8 by (simp add: eval_nat_numeral)
  ultimately show ?thesis by (simp add: page_header_def page_of_bytes_def KV_MAGIC_def)
qed

theorem kv_set_spec_witness:
  "\<exists>st m st' m' es'. kv_ok mock_view st m [] \<and> reflex_kv_set_blob host_mock st 7 [107] [1, 2] m = (Inr (), st', m')
    \<and> kv_ok mock_view st' m' es' \<and> contents es' (GET_NS 7, [107]) = Some [1, 2]"
proof -
  obtain st m where s: "kv_ok mock_view st m []" "s_active_seq st = 1"
    by (rule mock.kv_init_blank [OF blank_mock]) auto
  obtain r st' m' where r: "reflex_kv_set_blob host_mock st 7 [107] [1, 2] m = (r, st', m')" by (metis surj_pair)
  from kv_set_spec [OF mock.flash_medium_axioms _ s(1) _ _ _ r] s(2)
  show ?thesis using s(1) r
    by (fastforce simp: op_ok_def position_def compacted_def kv_entry_span_def mask_down_4 hdr_def entry_of_def)
qed

text \<open>
  C10: After mounting a blank medium and any sequence of writes of acceptable entries (keys of 1 to
  15 bytes without a zero, values of at most 240) to at most 256 distinct keys, fewer than 2^32 - 1
  of them, a lookup answers what the writes that were accepted say: the last value written to the
  key, NOT_FOUND when there is none, and INVALID_ARG when the caller's buffer is too short.
  Compactions in between change nothing. An empty key, which the code accepts, would hide every
  later entry, and keys past the 256th are dropped by compaction.
\<close>

theorem kv_history:
  assumes "flash_medium F view limit" "0x16000 \<le> limit" "\<forall>s < 6. magic (page_header view m0 s) \<noteq> KV_MAGIC"
    "list_all op_ok ops" "card (op_key ` set ops) \<le> 256" "length ops < 2 ^ 32 - 1"
    "reflex_kv_init F m0 = (st0, m1)" "kv_run F ops st0 m1 = (rs, st, m)"
  shows "reflex_kv_get_blob F st h key cap m =
    (case kv_applied ops rs Map.empty (GET_NS h, key) of
       None \<Rightarrow> Inl REFLEX_ERR_NOT_FOUND
     | Some v \<Rightarrow> if cap < length v then Inl REFLEX_ERR_INVALID_ARG else Inr v)"
proof -
  have "kv_ok view st0 m1 []" "s_active_seq st0 = 1"
    using flash_medium.kv_init_blank [OF assms(1,3,2)] assms(7) by auto
  then obtain es where es: "kv_ok view st m es" "contents es = kv_applied ops rs (contents [])"
    using flash_medium.kv_run_ok [OF assms(1,2), of st0 m1 "[]" ops rs st m] assms(4-6,8) by auto
  have "contents [] = Map.empty" by (rule ext) (simp add: contents_def latest_def)
  then have "contents es = kv_applied ops rs Map.empty" using es(2) by simp
  from fun_cong [OF this, of "(GET_NS h, key)"]
  have "kv_applied ops rs Map.empty (GET_NS h, key) = map_option k_val (latest es (GET_NS h, key))" by (simp add: contents_def)
  moreover have "sector_log view m (s_active_sector st) (s_active_seq st) es" using es(1) by (simp add: kv_ok_def)
  ultimately show ?thesis
    by (simp add: flash_medium.get_latest [OF assms(1) _ assms(2)] split: option.split)
qed

theorem kv_history_witness:
  "\<exists>st0 m1 rs st m. reflex_kv_init host_mock (\<lambda>_. 0xFF) = (st0, m1)
    \<and> kv_run host_mock [(7, [107], [1, 2]), (8, [107], [3]), (7, [107], [4])] st0 m1 = (rs, st, m)
    \<and> reflex_kv_get_blob host_mock st 9 [107] 4 m = Inl REFLEX_ERR_NOT_FOUND"
proof -
  let ?ops = "[(7, [107], [1, 2]), (8, [107], [3]), (7, [107], [4])] :: kv_set_op list"
  obtain st0 m1 where i: "reflex_kv_init host_mock (\<lambda>_. 0xFF) = (st0, m1)" by (metis surj_pair)
  obtain rs st m where r: "kv_run host_mock ?ops st0 m1 = (rs, st, m)" by (metis surj_pair)
  have "length rs = length ops" if "kv_run host_mock ops st0 m1 = (rs, st, m)" for ops rs st0 m1 st m
    using that by (induction ops arbitrary: rs st0 m1) (auto split: prod.splits)
  from this [OF r] obtain r1 r2 r3 where rs: "rs = [r1, r2, r3]" by (auto simp: length_Suc_conv)
  have "card (op_key ` set ?ops) \<le> 256" by (rule order_trans [OF card_image_le]) (simp_all add: card_insert_if)
  from kv_history [OF mock.flash_medium_axioms _ blank_mock _ this _ i r, of 9 "[107]" 4]
  have "reflex_kv_get_blob host_mock st 9 [107] 4 m = Inl REFLEX_ERR_NOT_FOUND"
    by (simp add: rs op_ok_def GET_NS_def sub32_def split: if_splits)
  then show ?thesis using i r by blast
qed

text \<open>
  C11: Mounting again after a sequence of writes as in C10 (acceptable entries, at most 256 distinct
  keys, fewer than 2^32 - 1 writes), as a restart does, finds the page and the append position the
  store had, and touches nothing, as long as no namespace used hashes to 0xFF, the erased byte, at
  which the walk of the mount stops.
\<close>

theorem kv_remount:
  assumes "flash_medium F view limit" "0x16000 \<le> limit" "\<forall>s < 6. magic (page_header view m0 s) \<noteq> KV_MAGIC"
    "list_all op_ok ops" "card (op_key ` set ops) \<le> 256" "length ops < 2 ^ 32 - 1" "\<forall>op \<in> set ops. fst (op_key op) \<noteq> 0xFF"
    "reflex_kv_init F m0 = (st0, m1)" "kv_run F ops st0 m1 = (rs, st, m)"
  shows "reflex_kv_init F m = (st, m)"
proof -
  have "kv_ok view st0 m1 []" "s_active_seq st0 = 1"
    using flash_medium.kv_init_blank [OF assms(1,3,2)] assms(8) by auto
  then obtain es where es: "kv_ok view st m es" "entry_key ` set es \<subseteq> op_key ` set ops"
    using flash_medium.kv_run_ok [OF assms(1,2), of st0 m1 "[]" ops rs st m] assms(4-6,9) by auto
  have "\<forall>k \<in> op_key ` set ops. fst k \<noteq> 0xFF" using assms(7) by blast
  then have "\<forall>e \<in> set es. fst (entry_key e) \<noteq> 0xFF" using es(2) by blast
  then have "\<forall>e \<in> set es. k_ns e \<noteq> 0xFF" by (simp add: entry_key_def)
  then show ?thesis by (rule flash_medium.kv_init_recovers [OF assms(1) es(1) assms(2)])
qed

theorem kv_remount_witness:
  "\<exists>st0 m1 rs st m. reflex_kv_init host_mock (\<lambda>_. 0xFF) = (st0, m1)
    \<and> kv_run host_mock [(7, [107], [1, 2])] st0 m1 = (rs, st, m) \<and> reflex_kv_init host_mock m = (st, m)"
proof -
  let ?ops = "[(7, [107], [1, 2])] :: kv_set_op list"
  obtain st0 m1 where i: "reflex_kv_init host_mock (\<lambda>_. 0xFF) = (st0, m1)" by (metis surj_pair)
  obtain rs st m where r: "kv_run host_mock ?ops st0 m1 = (rs, st, m)" by (metis surj_pair)
  have o: "list_all op_ok ?ops" by (simp add: op_ok_def)
  have "card (op_key ` set ?ops) \<le> 256" by simp
  moreover have "length ?ops < 2 ^ 32 - 1" by simp
  moreover have "\<forall>op \<in> set ?ops. fst (op_key op) \<noteq> 0xFF" by (simp add: op_key_def GET_NS_def sub32_def)
  ultimately have "reflex_kv_init host_mock m = (st, m)"
    by (rule kv_remount [OF mock.flash_medium_axioms order_refl blank_mock o _ _ _ i r])
  then show ?thesis using i r by blast
qed

text \<open>
  C25: The driver reads any range of the chip exactly, whatever its alignment, and programs any
  word-aligned range exactly, across the chip's pages, over a controller whose transactions keep
  to one page and sixteen words.
\<close>

theorem flash_driver_exact:
  assumes "spi_chip_ok C view limit"
  shows "(0 < len \<and> a + len \<le> limit \<longrightarrow> reflex_flash_read C a len c = Inr (map (view c) [a..<a + len]))
    \<and> (a mod 4 = 0 \<and> length bs mod 4 = 0 \<and> bs \<noteq> [] \<and> a + length bs \<le> limit \<longrightarrow>
      (\<exists>c'. reflex_flash_write C a bs c = (Inr (), c') \<and> program_effect view a bs c c'))"
  using flash_read_ok [OF assms, of len a c] flash_read_bytes [OF assms, of a len c]
    window_write_effect [OF assms, of a bs 0 c]
  by (auto simp: reflex_flash_write_def mask_down_4)

theorem flash_driver_exact_witness:
  "reflex_flash_read ram_chip 5 3 (\<lambda>x. of_nat x) = Inr [5, 6, 7]"
  using flash_driver_exact [OF ram_chip_ok, of 3 5 "\<lambda>x. of_nat x"] by (simp add: upt_rec)

end
