(* ===== verification/Sched.thy ===== *)
theory Sched imports KQueue begin

text \<open>
  The cooperative scheduler: kernel/reflex_sched.c and kernel/reflex_sched.h. The task table,
  its life cycle, the choice of the next task, sleeping and the tick.

  A task handle is the index of its slot. A stack is the address \<open>malloc\<close> answered, and
  \<open>s_stacks\<close> are the allocations not freed yet. A \<open>jmp_buf\<close> is reduced to the stack its saved
  stack pointer points into (None while \<open>setjmp\<close> never filled it). Entry functions are a
  parameter type. The registers of the tick's timer are left out: the tick is
  \<open>reflex_sched_tick\<close>, called by its interrupt.
\<close>

section \<open>The task table\<close>

definition REFLEX_SCHED_MAX_TASKS :: nat where "REFLEX_SCHED_MAX_TASKS = 16"
definition REFLEX_SCHED_NAME_MAX :: nat where "REFLEX_SCHED_NAME_MAX = 16"
definition REFLEX_SCHED_TICK_HZ :: nat where "REFLEX_SCHED_TICK_HZ = 1000"
definition REFLEX_SCHED_MIN_STACK :: nat where "REFLEX_SCHED_MIN_STACK = 1024"

datatype reflex_task_state =
    REFLEX_TASK_STATE_FREE | REFLEX_TASK_STATE_READY | REFLEX_TASK_STATE_RUNNING
  | REFLEX_TASK_STATE_BLOCKED | REFLEX_TASK_STATE_DEAD

record 'e reflex_tcb =
  context_stack :: "nat option"
  t_state :: reflex_task_state
  priority :: int
  wake_tick :: u32
  t_name :: string
  stack_base :: "nat option"
  stack_size :: nat
  entry :: "'e option"
  t_arg :: nat
  started :: bool
  blocked_on :: "nat option"
  wake_deadline_valid :: bool

record 'e sched =
  s_tasks :: "'e reflex_tcb list"
  s_current :: "nat option"
  s_tick_count :: u32
  s_critical_nesting :: nat
  s_started :: bool
  s_stacks :: "nat list"

definition tcb_zero :: "'e reflex_tcb" where
  "tcb_zero = \<lparr>context_stack = None, t_state = REFLEX_TASK_STATE_FREE, priority = 0, wake_tick = 0, t_name = '''',
     stack_base = None, stack_size = 0, entry = None, t_arg = 0, started = False, blocked_on = None,
     wake_deadline_valid = False\<rparr>"

definition upd_task :: "nat \<Rightarrow> ('e reflex_tcb \<Rightarrow> 'e reflex_tcb) \<Rightarrow> 'e sched \<Rightarrow> 'e sched" where
  "upd_task i f s = s\<lparr>s_tasks := (s_tasks s)[i := f (s_tasks s ! i)]\<rparr>"

section \<open>Life cycle\<close>

fun find_slot :: "'e reflex_tcb list \<Rightarrow> nat \<Rightarrow> nat option" where
  "find_slot [] i = None"
| "find_slot (t # ts) i = (if t_state t = REFLEX_TASK_STATE_FREE then Some i else find_slot ts (Suc i))"

definition find_free_slot :: "'e sched \<Rightarrow> nat option" where
  "find_free_slot s = find_slot (s_tasks s) 0"

definition reflex_sched_create_task ::
    "nat option \<Rightarrow> 'e option \<Rightarrow> string option \<Rightarrow> nat \<Rightarrow> nat \<Rightarrow> int \<Rightarrow> 'e sched \<Rightarrow> nat result \<times> 'e sched" where
  "reflex_sched_create_task malloc fn name stack_bytes arg prio s =
     (if fn = None then (Inl REFLEX_ERR_INVALID_ARG, s)
      else
        let stack_bytes = (if stack_bytes < REFLEX_SCHED_MIN_STACK then REFLEX_SCHED_MIN_STACK else stack_bytes) in
        case find_free_slot s of
          None \<Rightarrow> (Inl REFLEX_ERR_NO_MEM, s)
        | Some i \<Rightarrow>
            (case malloc of
               None \<Rightarrow> (Inl REFLEX_ERR_NO_MEM, s)
             | Some stack \<Rightarrow>
                 (Inr i, upd_task i (\<lambda>t. t\<lparr>stack_base := Some stack, stack_size := stack_bytes, priority := prio,
                     t_name := (case name of None \<Rightarrow> '''' | Some n \<Rightarrow> take (REFLEX_SCHED_NAME_MAX - 1) n),
                     t_state := REFLEX_TASK_STATE_READY, wake_tick := 0, blocked_on := None, wake_deadline_valid := False,
                     entry := fn, t_arg := arg, started := False\<rparr>)
                   (s\<lparr>s_stacks := stack # s_stacks s\<rparr>))))"

record reflex_sched_slot =
  i_state :: reflex_task_state
  i_name :: string
  i_priority :: int
  i_stack_size :: nat
  i_wake_tick :: u32
  i_has_stack :: bool
  i_started :: bool
  i_wake_deadline_valid :: bool
  i_is_current :: bool

definition reflex_sched_slot_info :: "'e sched \<Rightarrow> int \<Rightarrow> reflex_sched_slot option" where
  "reflex_sched_slot_info s index =
     (if index < 0 \<or> index \<ge> int REFLEX_SCHED_MAX_TASKS then None
      else let t = s_tasks s ! nat index in
        Some \<lparr>i_state = t_state t, i_name = t_name t, i_priority = priority t, i_stack_size = stack_size t,
          i_wake_tick = wake_tick t, i_has_stack = (stack_base t \<noteq> None), i_started = started t,
          i_wake_deadline_valid = wake_deadline_valid t, i_is_current = (s_current s = Some (nat index))\<rparr>)"

text \<open>\<open>free\<close> on a stack pointer: nothing for NULL.\<close>

definition free_stack :: "nat option \<Rightarrow> nat list \<Rightarrow> nat list" where
  "free_stack p live = (case p of None \<Rightarrow> live | Some a \<Rightarrow> remove1 a live)"

fun reflex_sched_reap :: "'e reflex_tcb list \<Rightarrow> nat list \<Rightarrow> 'e reflex_tcb list \<times> nat list" where
  "reflex_sched_reap [] live = ([], live)"
| "reflex_sched_reap (t # ts) live =
     (if t_state t \<noteq> REFLEX_TASK_STATE_DEAD then
        case reflex_sched_reap ts live of (ts1, live1) \<Rightarrow> (t # ts1, live1)
      else
        case reflex_sched_reap ts (free_stack (stack_base t) live) of
          (ts1, live1) \<Rightarrow>
            (t\<lparr>stack_base := None, stack_size := 0, started := False, blocked_on := None, wake_deadline_valid := False,
               wake_tick := 0, t_name := '''', t_state := REFLEX_TASK_STATE_FREE\<rparr> # ts1, live1))"

text \<open>
  A yield of the running task; the answer says whether control went to the scheduler loop
  (before the scheduler runs, a yield does nothing).
\<close>

definition reflex_sched_yield :: "'e sched \<Rightarrow> bool \<times> 'e sched" where
  "reflex_sched_yield s =
     (if \<not> s_started s then (False, s)
      else case s_current s of
        None \<Rightarrow> (True, s)
      | Some c \<Rightarrow>
          (True, upd_task c (\<lambda>t. (if t_state t = REFLEX_TASK_STATE_RUNNING then t\<lparr>t_state := REFLEX_TASK_STATE_READY\<rparr> else t)
             \<lparr>context_stack := stack_base t\<rparr>) s))"

definition reflex_sched_delete_task :: "nat option \<Rightarrow> 'e sched \<Rightarrow> bool \<times> 'e sched" where
  "reflex_sched_delete_task h s =
     (if h = None \<or> h = s_current s then
        case s_current s of
          None \<Rightarrow> (False, s)
        | Some c \<Rightarrow> reflex_sched_yield (upd_task c (\<lambda>t. t\<lparr>t_state := REFLEX_TASK_STATE_DEAD\<rparr>) s)
      else case h of
        None \<Rightarrow> (False, s)
      | Some i \<Rightarrow>
          let s1 = upd_task i (\<lambda>t. t\<lparr>t_state := REFLEX_TASK_STATE_DEAD\<rparr>) s in
          if \<not> s_started s then
            (case reflex_sched_reap [s_tasks s1 ! i] (s_stacks s1) of
               (ts, live) \<Rightarrow> (False, s1\<lparr>s_tasks := (s_tasks s1)[i := hd ts], s_stacks := live\<rparr>))
          else (False, s1))"

section \<open>Lookup and priorities\<close>

fun find_index_from :: "'e reflex_tcb list \<Rightarrow> string \<Rightarrow> nat \<Rightarrow> int" where
  "find_index_from [] name i = -1"
| "find_index_from (t # ts) name i =
     (if t_state t = REFLEX_TASK_STATE_FREE \<or> t_state t = REFLEX_TASK_STATE_DEAD then find_index_from ts name (Suc i)
      else if t_name t \<noteq> '''' \<and> t_name t = name then int i
      else find_index_from ts name (Suc i))"

definition reflex_sched_find_index :: "'e reflex_tcb list \<Rightarrow> string option \<Rightarrow> int" where
  "reflex_sched_find_index ts name = (case name of None \<Rightarrow> -1 | Some n \<Rightarrow> if ts = [] then -1 else find_index_from ts n 0)"

definition reflex_sched_find_by_name :: "'e sched \<Rightarrow> string option \<Rightarrow> nat option" where
  "reflex_sched_find_by_name s name =
     (let idx = reflex_sched_find_index (s_tasks s) name in if idx < 0 then None else Some (nat idx))"

definition reflex_sched_set_priority :: "nat option \<Rightarrow> int \<Rightarrow> 'e sched \<Rightarrow> 'e sched" where
  "reflex_sched_set_priority h p s = (case h of None \<Rightarrow> s | Some i \<Rightarrow> upd_task i (\<lambda>t. t\<lparr>priority := p\<rparr>) s)"

definition reflex_sched_get_priority :: "nat option \<Rightarrow> 'e sched \<Rightarrow> int" where
  "reflex_sched_get_priority h s = (case h of None \<Rightarrow> 0 | Some i \<Rightarrow> priority (s_tasks s ! i))"

section \<open>The next task\<close>

text \<open>One probe of the scan, with the best index so far.\<close>

definition select_probe :: "'e reflex_tcb list \<Rightarrow> nat \<Rightarrow> nat option \<Rightarrow> nat option" where
  "select_probe ts idx best =
     (if t_state (ts ! idx) \<noteq> REFLEX_TASK_STATE_READY then best
      else case best of
        None \<Rightarrow> Some idx
      | Some b \<Rightarrow> if priority (ts ! idx) > priority (ts ! b) then Some idx else best)"

text \<open>\<open>start % count\<close> truncates towards zero in C, and a negative remainder is moved up.\<close>

definition reflex_sched_select :: "'e reflex_tcb list \<Rightarrow> int \<Rightarrow> nat option" where
  "reflex_sched_select ts start =
     (if ts = [] then None
      else
        let count = length ts;
            begin0 = start smod int count;
            begin1 = nat (if begin0 < 0 then begin0 + int count else begin0)
        in fold (\<lambda>i best. select_probe ts ((begin1 + i) mod count) best) [0..<count] None)"

definition reflex_sched_tick_reached :: "u32 \<Rightarrow> u32 \<Rightarrow> bool" where
  "reflex_sched_tick_reached now deadline \<longleftrightarrow> sint (now - deadline) \<ge> 0"

definition reflex_sched_should_time_wake :: "'e reflex_tcb \<Rightarrow> u32 \<Rightarrow> bool" where
  "reflex_sched_should_time_wake t now \<longleftrightarrow>
     t_state t = REFLEX_TASK_STATE_BLOCKED \<and> wake_deadline_valid t \<and> reflex_sched_tick_reached now (wake_tick t)"

definition time_wake :: "u32 \<Rightarrow> 'e reflex_tcb \<Rightarrow> 'e reflex_tcb" where
  "time_wake now t =
     (if reflex_sched_should_time_wake t now
      then t\<lparr>blocked_on := None, wake_deadline_valid := False, t_state := REFLEX_TASK_STATE_READY\<rparr> else t)"

definition pick_next :: "'e sched \<Rightarrow> nat option \<times> 'e sched" where
  "pick_next s =
     (let (ts, live) = reflex_sched_reap (s_tasks s) (s_stacks s);
          cur = (case s_current s of None \<Rightarrow> None | Some c \<Rightarrow> if t_state (ts ! c) = REFLEX_TASK_STATE_FREE then None else Some c);
          ts1 = map (time_wake (s_tick_count s)) ts;
          start = (case cur of None \<Rightarrow> 0 | Some c \<Rightarrow> int c + 1)
      in (reflex_sched_select ts1 start, s\<lparr>s_tasks := ts1, s_stacks := live, s_current := cur\<rparr>))"

section \<open>Time\<close>

definition reflex_sched_tick :: "'e sched \<Rightarrow> 'e sched" where
  "reflex_sched_tick s = s\<lparr>s_tick_count := s_tick_count s + 1\<rparr>"

definition reflex_sched_get_tick :: "'e sched \<Rightarrow> u32" where
  "reflex_sched_get_tick s = s_tick_count s"

text \<open>A 64-bit product, clamped.\<close>

definition reflex_sched_ms_to_ticks :: "u32 \<Rightarrow> u32" where
  "reflex_sched_ms_to_ticks ms =
     (let ticks = (ucast ms * of_nat REFLEX_SCHED_TICK_HZ :: 64 word) div 1000
      in if ticks > 0xFFFFFFFF then 0xFFFFFFFF else ucast ticks)"

definition reflex_sched_delay_ms :: "u32 \<Rightarrow> 'e sched \<Rightarrow> bool \<times> 'e sched" where
  "reflex_sched_delay_ms ms s =
     (if \<not> s_started s then (False, s)
      else case s_current s of
        None \<Rightarrow> (False, s)
      | Some c \<Rightarrow>
          let ticks = reflex_sched_ms_to_ticks ms;
              ticks = (if ticks = 0 then 1 else ticks)
          in reflex_sched_yield (upd_task c (\<lambda>t. t\<lparr>wake_tick := s_tick_count s + ticks, wake_deadline_valid := True,
               t_state := REFLEX_TASK_STATE_BLOCKED\<rparr>) s))"

section \<open>Critical sections\<close>

text \<open>The nesting counter; interrupts are enabled again when it is back to zero: the answer of the exit.\<close>

definition reflex_sched_enter_critical :: "'e sched \<Rightarrow> 'e sched" where
  "reflex_sched_enter_critical s = s\<lparr>s_critical_nesting := s_critical_nesting s + 1\<rparr>"

definition reflex_sched_exit_critical :: "'e sched \<Rightarrow> bool \<times> 'e sched" where
  "reflex_sched_exit_critical s =
     (let n = s_critical_nesting s - 1 in (n = 0, s\<lparr>s_critical_nesting := n\<rparr>))"

section \<open>Start\<close>

definition reflex_sched_init :: "nat option \<Rightarrow> 'e \<Rightarrow> 'e sched \<Rightarrow> nat result \<times> 'e sched" where
  "reflex_sched_init malloc idle s =
     reflex_sched_create_task malloc (Some idle) (Some ''idle'') REFLEX_SCHED_MIN_STACK 0 0
       (s\<lparr>s_tasks := replicate REFLEX_SCHED_MAX_TASKS tcb_zero, s_current := None, s_tick_count := 0,
          s_critical_nesting := 0, s_started := False\<rparr>)"

text \<open>
  The loop gives the processor to the task it chose: it calls the entry function of a new task on
  its stack (the answer's \<open>True\<close>), and jumps to the saved context of one that ran before.
\<close>

definition dispatch :: "nat \<Rightarrow> 'e sched \<Rightarrow> bool \<times> 'e sched" where
  "dispatch i s =
     (\<not> started (s_tasks s ! i),
      upd_task i (\<lambda>t. t\<lparr>t_state := REFLEX_TASK_STATE_RUNNING, started := True\<rparr>) (s\<lparr>s_current := Some i\<rparr>))"

text \<open>The entry function returned: the task is dead and the loop continues.\<close>

definition entry_returned :: "nat \<Rightarrow> 'e sched \<Rightarrow> 'e sched" where
  "entry_returned i s = upd_task i (\<lambda>t. t\<lparr>t_state := REFLEX_TASK_STATE_DEAD\<rparr>) s"

section \<open>Blocking queues\<close>

definition REFLEX_SCHED_WAIT_FOREVER :: u32 where "REFLEX_SCHED_WAIT_FOREVER = 0xFFFFFFFF"

fun find_waiter :: "'e reflex_tcb list \<Rightarrow> nat \<Rightarrow> nat \<Rightarrow> nat option" where
  "find_waiter [] q i = None"
| "find_waiter (t # ts) q i =
     (if t_state t = REFLEX_TASK_STATE_BLOCKED \<and> blocked_on t = Some q then Some i else find_waiter ts q (Suc i))"

definition wake_one_waiter :: "nat \<Rightarrow> 'e sched \<Rightarrow> 'e sched" where
  "wake_one_waiter q s =
     (case find_waiter (s_tasks s) q 0 of
        None \<Rightarrow> s
      | Some i \<Rightarrow> upd_task i (\<lambda>t. t\<lparr>blocked_on := None, wake_deadline_valid := False, t_state := REFLEX_TASK_STATE_READY\<rparr>) s)"

text \<open>
  A wait on a queue: the queue, the item to send (None receives), whether it has no deadline,
  and the deadline. \<open>queue_try\<close> is one pass of the loop, up to the yield; \<open>W_DONE\<close> carries the item
  a receive answers.
\<close>

record 'a queue_wait =
  w_queue :: nat
  w_item :: "'a option"
  w_forever :: bool
  w_deadline :: u32

datatype 'a wait_outcome = W_DONE "'a option" | W_TIMEOUT | W_PARKED

definition wait_begin :: "'e sched \<Rightarrow> nat \<Rightarrow> 'a option \<Rightarrow> u32 \<Rightarrow> 'a queue_wait" where
  "wait_begin s q item timeout_ms =
     (let forever = (timeout_ms = REFLEX_SCHED_WAIT_FOREVER)
      in \<lparr>w_queue = q, w_item = item, w_forever = forever,
          w_deadline = (if forever then 0 else s_tick_count s + reflex_sched_ms_to_ticks timeout_ms)\<rparr>)"

definition queue_try ::
    "'a queue_wait \<Rightarrow> 'e sched \<Rightarrow> 'a reflex_kqueue list \<Rightarrow> 'a wait_outcome \<times> 'e sched \<times> 'a reflex_kqueue list" where
  "queue_try w s qs =
     (let q = w_queue w;
          (done, got, k) = (case w_item w of
             Some x \<Rightarrow> (case reflex_kqueue_try_send (Some (qs ! q)) (Some x) of (b, k) \<Rightarrow> (b, None, k))
           | None \<Rightarrow> reflex_kqueue_try_recv (Some (qs ! q)) True)
      in if done then (W_DONE got, wake_one_waiter q s, qs[q := the k])
         else if \<not> s_started s \<or> s_current s = None then (W_TIMEOUT, s, qs)
         else if \<not> w_forever w \<and> reflex_sched_tick_reached (s_tick_count s) (w_deadline w) then (W_TIMEOUT, s, qs)
         else (W_PARKED, snd (reflex_sched_yield (upd_task (the (s_current s))
                 (\<lambda>t. t\<lparr>blocked_on := Some q, wake_tick := w_deadline w, wake_deadline_valid := \<not> w_forever w,
                    t_state := REFLEX_TASK_STATE_BLOCKED\<rparr>) s)), qs))"

text \<open>Back from the yield: the marker is cleared and the loop tries again.\<close>

definition queue_retry ::
    "'a queue_wait \<Rightarrow> 'e sched \<Rightarrow> 'a reflex_kqueue list \<Rightarrow> 'a wait_outcome \<times> 'e sched \<times> 'a reflex_kqueue list" where
  "queue_retry w s qs =
     queue_try w (upd_task (the (s_current s)) (\<lambda>t. t\<lparr>blocked_on := None, wake_deadline_valid := False\<rparr>) s) qs"

end
