(* ===== verification/Sched_Machine.thy ===== *)
theory Sched_Machine imports Sched begin

text \<open>
  The scheduler and its tasks as one machine: the boot code and the tasks call the scheduler,
  which runs them one at a time; the tick may come between any two steps.
\<close>

section \<open>The machine\<close>

text \<open>
  \<open>m_in_task\<close> says whether the processor is in a task or in the scheduler's loop (the boot code,
  before the start). \<open>m_pending\<close> is the wait a task is parked in: it lives on the task's stack,
  so a slot that starts a new task has none.
\<close>

record ('e, 'a) machine =
  m_sched :: "'e sched"
  m_queues :: "'a reflex_kqueue list"
  m_pending :: "nat \<Rightarrow> 'a queue_wait option"
  m_in_task :: bool

datatype ('e, 'a) action =
    Tick
  | Start
  | Schedule
  | Create "nat option" "'e option" "string option" nat nat int
  | Delete "nat option"
  | Delay u32
  | Yield
  | Priority "nat option" int
  | Wait nat "'a option" u32
  | Resume
  | Return

definition schedule :: "('e, 'a) machine \<Rightarrow> ('e, 'a) machine" where
  "schedule m =
     (case pick_next (m_sched m) of
        (None, s) \<Rightarrow> m\<lparr>m_sched := s\<rparr>
      | (Some i, s) \<Rightarrow>
          (case dispatch i s of
             (fresh, s1) \<Rightarrow> m\<lparr>m_sched := s1, m_in_task := True,
               m_pending := (if fresh then (m_pending m)(i := None) else m_pending m)\<rparr>))"

text \<open>The code that may call the scheduler: the boot code, or a task that is not inside a wait.\<close>

definition may_call :: "('e, 'a) machine \<Rightarrow> bool" where
  "may_call m = (if m_in_task m then (case s_current (m_sched m) of None \<Rightarrow> False | Some c \<Rightarrow> m_pending m c = None)
     else \<not> s_started (m_sched m))"

definition handle_ok :: "nat option \<Rightarrow> bool" where
  "handle_ok h = (case h of None \<Rightarrow> True | Some i \<Rightarrow> i < REFLEX_SCHED_MAX_TASKS)"

text \<open>The allocator never answers a block that is still allocated.\<close>

definition malloc_ok :: "nat option \<Rightarrow> 'e sched \<Rightarrow> bool" where
  "malloc_ok malloc s = (case malloc of None \<Rightarrow> True | Some a \<Rightarrow> a \<notin> set (s_stacks s))"

definition after_call :: "('e, 'a) machine \<Rightarrow> bool \<times> 'e sched \<Rightarrow> ('e, 'a) machine" where
  "after_call m r = m\<lparr>m_sched := snd r, m_in_task := m_in_task m \<and> \<not> fst r\<rparr>"

definition after_wait ::
    "('e, 'a) machine \<Rightarrow> 'a queue_wait \<Rightarrow> 'a wait_outcome \<times> 'e sched \<times> 'a reflex_kqueue list \<Rightarrow> ('e, 'a) machine" where
  "after_wait m w r =
     (case r of (outcome, s, qs) \<Rightarrow>
        m\<lparr>m_sched := s, m_queues := qs, m_in_task := m_in_task m \<and> outcome \<noteq> W_PARKED,
          m_pending := (case s_current (m_sched m) of
             None \<Rightarrow> m_pending m
           | Some c \<Rightarrow> (m_pending m)(c := if outcome = W_PARKED then Some w else None))\<rparr>)"

fun step :: "('e, 'a) action \<Rightarrow> ('e, 'a) machine \<Rightarrow> ('e, 'a) machine option" where
  "step Tick m = Some (m\<lparr>m_sched := reflex_sched_tick (m_sched m)\<rparr>)"
| "step Start m = (if s_started (m_sched m) then None else Some (m\<lparr>m_sched := (m_sched m)\<lparr>s_started := True\<rparr>\<rparr>))"
| "step Schedule m = (if s_started (m_sched m) \<and> \<not> m_in_task m then Some (schedule m) else None)"
| "step (Create malloc fn name bytes arg prio) m =
     (if may_call m \<and> malloc_ok malloc (m_sched m)
      then Some (m\<lparr>m_sched := snd (reflex_sched_create_task malloc fn name bytes arg prio (m_sched m))\<rparr>) else None)"
| "step (Delete h) m =
     (if may_call m \<and> handle_ok h then Some (after_call m (reflex_sched_delete_task h (m_sched m))) else None)"
| "step (Delay ms) m = (if may_call m then Some (after_call m (reflex_sched_delay_ms ms (m_sched m))) else None)"
| "step Yield m = (if may_call m then Some (after_call m (reflex_sched_yield (m_sched m))) else None)"
| "step (Priority h p) m =
     (if may_call m \<and> handle_ok h then Some (m\<lparr>m_sched := reflex_sched_set_priority h p (m_sched m)\<rparr>) else None)"
| "step (Wait q item timeout_ms) m =
     (if may_call m \<and> q < length (m_queues m)
      then let w = wait_begin (m_sched m) q item timeout_ms in
        Some (after_wait m w (queue_try w (m_sched m) (m_queues m)))
      else None)"
| "step Resume m =
     (if m_in_task m
      then case s_current (m_sched m) of
             None \<Rightarrow> None
           | Some c \<Rightarrow>
               (case m_pending m c of
                  None \<Rightarrow> None
                | Some w \<Rightarrow> Some (after_wait m w (queue_retry w (m_sched m) (m_queues m))))
      else None)"
| "step Return m =
     (if m_in_task m \<and> may_call m
      then Some (m\<lparr>m_sched := entry_returned (the (s_current (m_sched m))) (m_sched m), m_in_task := False\<rparr>) else None)"

fun exec :: "('e, 'a) action list \<Rightarrow> ('e, 'a) machine \<Rightarrow> ('e, 'a) machine option" where
  "exec [] m = Some m"
| "exec (a # as) m = (case step a m of None \<Rightarrow> None | Some m1 \<Rightarrow> exec as m1)"

definition boot :: "nat \<Rightarrow> 'e \<Rightarrow> 'a reflex_kqueue list \<Rightarrow> ('e, 'a) machine" where
  "boot a idle qs =
     \<lparr>m_sched = snd (reflex_sched_init (Some a) idle
        \<lparr>s_tasks = [], s_current = None, s_tick_count = 0, s_critical_nesting = 0, s_started = False, s_stacks = []\<rparr>),
      m_queues = qs, m_pending = \<lambda>_. None, m_in_task = False\<rparr>"

inductive reachable :: "('e, 'a) machine \<Rightarrow> bool" where
  "reachable (boot a idle qs)"
| "reachable m \<Longrightarrow> step act m = Some m' \<Longrightarrow> reachable m'"

section \<open>The invariant\<close>

text \<open>
  Every stack that was allocated and not freed belongs to one slot. A live slot has a stack, and
  a task that ran before and waits for the processor has its context on that stack.
\<close>

definition stacks_ok :: "'e reflex_tcb list \<Rightarrow> nat list \<Rightarrow> bool" where
  "stacks_ok ts live \<longleftrightarrow> distinct live
     \<and> (\<forall>i < length ts. \<forall>j < length ts. \<forall>a. stack_base (ts ! i) = Some a \<and> stack_base (ts ! j) = Some a \<longrightarrow> i = j)
     \<and> (\<forall>a. a \<in> set live \<longleftrightarrow> (\<exists>i < length ts. stack_base (ts ! i) = Some a))"

definition slot_ok :: "'e reflex_tcb \<Rightarrow> bool" where
  "slot_ok t \<longleftrightarrow> (t_state t = REFLEX_TASK_STATE_FREE \<longrightarrow> stack_base t = None)
     \<and> (t_state t \<in> {REFLEX_TASK_STATE_READY, REFLEX_TASK_STATE_RUNNING, REFLEX_TASK_STATE_BLOCKED} \<longrightarrow> stack_base t \<noteq> None)
     \<and> (started t \<and> t_state t \<in> {REFLEX_TASK_STATE_READY, REFLEX_TASK_STATE_BLOCKED} \<longrightarrow> context_stack t = stack_base t)"

definition running_ok :: "'e sched \<Rightarrow> bool \<Rightarrow> bool" where
  "running_ok s b \<longleftrightarrow> (\<forall>i < 16. t_state (s_tasks s ! i) = REFLEX_TASK_STATE_RUNNING \<longleftrightarrow> b \<and> s_current s = Some i)
     \<and> (b \<longrightarrow> s_current s \<noteq> None) \<and> (\<forall>c. s_current s = Some c \<longrightarrow> c < 16 \<and> s_started s)"

definition sched_ok :: "'e sched \<Rightarrow> bool \<Rightarrow> bool" where
  "sched_ok s b \<longleftrightarrow> length (s_tasks s) = 16 \<and> stacks_ok (s_tasks s) (s_stacks s) \<and> (\<forall>i < 16. slot_ok (s_tasks s ! i)) \<and> running_ok s b"

lemma upd_task_simps [simp]:
  "s_current (upd_task i f s) = s_current s" "s_started (upd_task i f s) = s_started s"
  "s_stacks (upd_task i f s) = s_stacks s" "s_tick_count (upd_task i f s) = s_tick_count s"
  "length (s_tasks (upd_task i f s)) = length (s_tasks s)"
  "i < length (s_tasks s) \<Longrightarrow> s_tasks (upd_task i f s) ! j = (if j = i then f (s_tasks s ! i) else s_tasks s ! j)"
  by (simp_all add: upd_task_def nth_list_update)

lemma stacks_ok_cong:
  assumes "length ts' = length ts" "\<And>i. i < length ts \<Longrightarrow> stack_base (ts' ! i) = stack_base (ts ! i)"
  shows "stacks_ok ts' live = stacks_ok ts live"
  unfolding stacks_ok_def using assms by (simp cong: conj_cong)

text \<open>One slot changes and keeps its stack.\<close>

lemma upd_ok:
  assumes "sched_ok s b" "i < 16" "stack_base (f (s_tasks s ! i)) = stack_base (s_tasks s ! i)" "slot_ok (f (s_tasks s ! i))"
    "t_state (f (s_tasks s ! i)) = REFLEX_TASK_STATE_RUNNING \<longleftrightarrow> b' \<and> s_current s = Some i" "b' = b \<or> s_current s = Some i"
  shows "sched_ok (upd_task i f s) b'"
proof -
  have l: "length (s_tasks s) = 16" using assms(1) by (simp add: sched_ok_def)
  have "stacks_ok (s_tasks (upd_task i f s)) (s_stacks s) = stacks_ok (s_tasks s) (s_stacks s)"
    by (rule stacks_ok_cong) (use assms(2,3) l in auto)
  moreover have "running_ok (upd_task i f s) b'"
    using assms l by (auto simp: sched_ok_def running_ok_def split: option.splits)
  ultimately show ?thesis using assms l by (simp add: sched_ok_def)
qed

lemma running_slot: "sched_ok s True \<Longrightarrow> \<exists>c. s_current s = Some c \<and> c < 16 \<and> s_started s \<and> t_state (s_tasks s ! c) = REFLEX_TASK_STATE_RUNNING
    \<and> stack_base (s_tasks s ! c) \<noteq> None"
  by (auto simp: sched_ok_def running_ok_def slot_ok_def split: option.splits)

text \<open>A task that leaves the processor for the state \<open>t_state (f t)\<close> and yields.\<close>

lemma park_ok:
  assumes ok: "sched_ok s True" and c: "s_current s = Some c"
    and f: "\<And>t. stack_base (f t) = stack_base t" "\<And>t. t_state (f t) \<noteq> REFLEX_TASK_STATE_FREE"
  shows "fst (reflex_sched_yield (upd_task c f s))" "sched_ok (snd (reflex_sched_yield (upd_task c f s))) False"
proof -
  obtain c16: "c < 16" "s_started s" "stack_base (s_tasks s ! c) \<noteq> None" "length (s_tasks s) = 16"
    using running_slot [OF ok] c ok by (auto simp: sched_ok_def)
  let ?g = "\<lambda>t. (if t_state (f t) = REFLEX_TASK_STATE_RUNNING then (f t)\<lparr>t_state := REFLEX_TASK_STATE_READY\<rparr> else f t)\<lparr>context_stack := stack_base (f t)\<rparr>"
  have y: "reflex_sched_yield (upd_task c f s) = (True, upd_task c ?g s)"
    using c16 c by (simp add: reflex_sched_yield_def) (simp add: upd_task_def)
  show "fst (reflex_sched_yield (upd_task c f s))" by (simp add: y)
  have "sched_ok (upd_task c ?g s) False"
    by (rule upd_ok [OF ok]) (use c16 c f in \<open>auto simp: slot_ok_def\<close>)
  then show "sched_ok (snd (reflex_sched_yield (upd_task c f s))) False" by (simp add: y)
qed

lemma yield_ok:
  assumes "sched_ok s b" "b \<or> \<not> s_started s"
  shows "sched_ok (snd (reflex_sched_yield s)) (b \<and> \<not> fst (reflex_sched_yield s))"
proof (cases b)
  case True
  then obtain c where c: "s_current s = Some c" "c < length (s_tasks s)" "t_state (s_tasks s ! c) = REFLEX_TASK_STATE_RUNNING"
    using running_slot [of s] assms(1) by (auto simp: sched_ok_def)
  have "sched_ok (snd (reflex_sched_yield (upd_task c (\<lambda>t. t\<lparr>t_state := REFLEX_TASK_STATE_RUNNING\<rparr>) s))) False"
    "fst (reflex_sched_yield (upd_task c (\<lambda>t. t\<lparr>t_state := REFLEX_TASK_STATE_RUNNING\<rparr>) s))"
    using park_ok [OF assms(1) [unfolded eqTrueI [OF True]] c(1), of "\<lambda>t. t\<lparr>t_state := REFLEX_TASK_STATE_RUNNING\<rparr>"] by simp_all
  moreover have "upd_task c (\<lambda>t. t\<lparr>t_state := REFLEX_TASK_STATE_RUNNING\<rparr>) s = s"
    using c by (simp add: upd_task_def list_update_same_conv)
  ultimately show ?thesis by simp
next
  case False
  then show ?thesis using assms by (simp add: reflex_sched_yield_def)
qed

section \<open>Scheduling keeps the invariant\<close>

definition cleared :: "'e reflex_tcb \<Rightarrow> 'e reflex_tcb" where
  "cleared t = (if t_state t \<noteq> REFLEX_TASK_STATE_DEAD then t
     else t\<lparr>stack_base := None, stack_size := 0, started := False, blocked_on := None, wake_deadline_valid := False,
            wake_tick := 0, t_name := '''', t_state := REFLEX_TASK_STATE_FREE\<rparr>)"

lemma cleared_simps [simp]:
  "t_state (cleared t) = (if t_state t = REFLEX_TASK_STATE_DEAD then REFLEX_TASK_STATE_FREE else t_state t)"
  "stack_base (cleared t) = (if t_state t = REFLEX_TASK_STATE_DEAD then None else stack_base t)"
  "slot_ok (cleared t) \<longleftrightarrow> t_state t = REFLEX_TASK_STATE_DEAD \<or> slot_ok t"
  by (auto simp: cleared_def slot_ok_def)

lemma reap_spec:
  "distinct live \<Longrightarrow> \<exists>live'. reflex_sched_reap ts live = (map cleared ts, live') \<and> distinct live'
     \<and> set live' = set live - {a. \<exists>t \<in> set ts. t_state t = REFLEX_TASK_STATE_DEAD \<and> stack_base t = Some a}"
proof (induction ts arbitrary: live)
  case (Cons t ts)
  define live0 where "live0 = (if t_state t = REFLEX_TASK_STATE_DEAD then free_stack (stack_base t) live else live)"
  have 0: "distinct live0" "set live0 = set live - {a. t_state t = REFLEX_TASK_STATE_DEAD \<and> stack_base t = Some a}"
    using Cons.prems by (auto simp: live0_def free_stack_def set_remove1_eq split: option.splits)
  obtain live' where r: "reflex_sched_reap ts live0 = (map cleared ts, live')" "distinct live'"
    "set live' = set live0 - {a. \<exists>t \<in> set ts. t_state t = REFLEX_TASK_STATE_DEAD \<and> stack_base t = Some a}"
    using Cons.IH [OF 0(1)] by blast
  have "reflex_sched_reap (t # ts) live = (map cleared (t # ts), live')"
    using r(1) by (simp add: live0_def cleared_def split: if_splits)
  then show ?case using r(2,3) 0(2) by (intro exI [of _ live']) auto
qed simp

lemma reap_ok:
  assumes s: "stacks_ok ts live"
  obtains live' where "reflex_sched_reap ts live = (map cleared ts, live')" "stacks_ok (map cleared ts) live'"
proof -
  have d: "distinct live" "\<And>i j a. i < length ts \<Longrightarrow> j < length ts \<Longrightarrow> stack_base (ts ! i) = Some a \<Longrightarrow> stack_base (ts ! j) = Some a \<Longrightarrow> i = j"
    "\<And>a. a \<in> set live \<longleftrightarrow> (\<exists>i < length ts. stack_base (ts ! i) = Some a)" using s unfolding stacks_ok_def by blast+
  obtain live' where r: "reflex_sched_reap ts live = (map cleared ts, live')" "distinct live'"
    "set live' = set live - {a. \<exists>t \<in> set ts. t_state t = REFLEX_TASK_STATE_DEAD \<and> stack_base t = Some a}"
    using reap_spec [OF d(1)] by blast
  have "a \<in> set live' \<longleftrightarrow> (\<exists>i < length ts. stack_base (cleared (ts ! i)) = Some a)" for a
  proof -
    have "(\<exists>t \<in> set ts. t_state t = REFLEX_TASK_STATE_DEAD \<and> stack_base t = Some a)
        \<longleftrightarrow> (\<exists>i < length ts. t_state (ts ! i) = REFLEX_TASK_STATE_DEAD \<and> stack_base (ts ! i) = Some a)"
      by (auto simp: set_conv_nth)
    then show ?thesis using r(3) d(2,3) by (auto split: if_splits)
  qed
  then have "stacks_ok (map cleared ts) live'" using r(2) d(2) unfolding stacks_ok_def by (auto split: if_splits)
  then show ?thesis using that r(1) by blast
qed

lemma time_wake_simps [simp]: "stack_base (time_wake now t) = stack_base t" "started (time_wake now t) = started t"
  "context_stack (time_wake now t) = context_stack t"
  "t_state (time_wake now t) = (if reflex_sched_should_time_wake t now then REFLEX_TASK_STATE_READY else t_state t)"
  by (simp_all add: time_wake_def)

lemma select_ready:
  assumes "ts \<noteq> []"
  shows "reflex_sched_select ts start = Some i \<Longrightarrow> i < length ts \<and> t_state (ts ! i) = REFLEX_TASK_STATE_READY"
proof -
  have "fold (\<lambda>i best. select_probe ts ((b + i) mod length ts) best) is acc = Some i \<Longrightarrow>
      (\<And>k. acc = Some k \<Longrightarrow> k < length ts \<and> t_state (ts ! k) = REFLEX_TASK_STATE_READY) \<Longrightarrow>
      i < length ts \<and> t_state (ts ! i) = REFLEX_TASK_STATE_READY" for b "is" acc
  proof (induction "is" arbitrary: acc)
    case (Cons x "is")
    show ?case
      by (rule Cons.IH [of "select_probe ts ((b + x) mod length ts) acc"])
        (use Cons.prems assms in \<open>auto simp: select_probe_def split: if_splits option.splits\<close>)
  qed simp
  then show "reflex_sched_select ts start = Some i \<Longrightarrow> i < length ts \<and> t_state (ts ! i) = REFLEX_TASK_STATE_READY"
    using assms by (fastforce simp: reflex_sched_select_def Let_def)
qed

lemma pick_next_ok:
  assumes ok: "sched_ok s False" and p: "pick_next s = (r, s')"
  shows "sched_ok s' False" "r = Some i \<Longrightarrow> i < 16 \<and> t_state (s_tasks s' ! i) = REFLEX_TASK_STATE_READY"
    "s_started s' = s_started s"
proof -
  have o: "length (s_tasks s) = 16" "stacks_ok (s_tasks s) (s_stacks s)" "\<And>i. i < 16 \<Longrightarrow> slot_ok (s_tasks s ! i)" "running_ok s False"
    using ok by (simp_all add: sched_ok_def)
  obtain live where r: "reflex_sched_reap (s_tasks s) (s_stacks s) = (map cleared (s_tasks s), live)" "stacks_ok (map cleared (s_tasks s)) live"
    by (rule reap_ok [OF o(2)])
  have s': "s_tasks s' = map (\<lambda>t. time_wake (s_tick_count s) (cleared t)) (s_tasks s)" "s_stacks s' = live" "s_started s' = s_started s"
    "s_current s' \<in> {None, s_current s}"
    using p r(1) by (auto simp: pick_next_def Let_def comp_def split: option.splits if_splits)
  show "s_started s' = s_started s" by (rule s')
  have "stacks_ok (s_tasks s') live"
    using r(2) stacks_ok_cong [of "s_tasks s'" "map cleared (s_tasks s)" live] by (simp add: s')
  moreover have "slot_ok (s_tasks s' ! i)" if "i < 16" for i
    using o(3) [OF that] that o(1) unfolding s'(1) by (auto simp: slot_ok_def cleared_def time_wake_def reflex_sched_should_time_wake_def)
  moreover have "running_ok s' False"
    using o(1,4) s' by (auto simp: running_ok_def reflex_sched_should_time_wake_def split: option.splits)
  ultimately show "sched_ok s' False" using o(1) s'(1,2) by (simp add: sched_ok_def)
  have e: "\<exists>start. r = reflex_sched_select (s_tasks s') start" using p r(1) s'(1) by (auto simp: pick_next_def Let_def comp_def)
  have "length (s_tasks s') = 16" using o(1) s'(1) by simp
  then show "i < 16 \<and> t_state (s_tasks s' ! i) = REFLEX_TASK_STATE_READY" if "r = Some i"
    using select_ready [of "s_tasks s'" _ i] that e by (metis list.size(3) zero_neq_numeral)
qed

lemma dispatch_ok:
  assumes ok: "sched_ok s False" and i: "i < 16" "t_state (s_tasks s ! i) = REFLEX_TASK_STATE_READY" and st: "s_started s"
  shows "sched_ok (snd (dispatch i s)) True"
    "\<not> fst (dispatch i s) \<Longrightarrow> context_stack (s_tasks s ! i) = stack_base (s_tasks s ! i) \<and> stack_base (s_tasks s ! i) \<noteq> None"
proof -
  have o: "length (s_tasks s) = 16" "slot_ok (s_tasks s ! i)" using ok i by (simp_all add: sched_ok_def)
  have none: "t_state (s_tasks s ! j) \<noteq> REFLEX_TASK_STATE_RUNNING" if "j < 16" for j
    using ok that by (simp add: sched_ok_def running_ok_def)
  let ?s = "s\<lparr>s_current := Some i\<rparr>"
  let ?u = "upd_task i (\<lambda>t. t\<lparr>t_state := REFLEX_TASK_STATE_RUNNING, started := True\<rparr>) ?s"
  have "stacks_ok (s_tasks ?u) (s_stacks s)"
    using ok i(1) stacks_ok_cong [of "s_tasks ?u" "s_tasks s" "s_stacks s"] by (auto simp: sched_ok_def)
  moreover have "running_ok ?u True" using i none o(1) st by (auto simp: running_ok_def)
  ultimately show "sched_ok (snd (dispatch i s)) True"
    using ok i o by (auto simp: sched_ok_def dispatch_def slot_ok_def)
  show "context_stack (s_tasks s ! i) = stack_base (s_tasks s ! i) \<and> stack_base (s_tasks s ! i) \<noteq> None" if "\<not> fst (dispatch i s)"
    using that o(2) i(2) by (simp add: dispatch_def slot_ok_def)
qed

section \<open>Calls keep the invariant\<close>

lemma find_slot_Some: "find_slot ts j = Some i \<Longrightarrow> j \<le> i \<and> i < j + length ts \<and> t_state (ts ! (i - j)) = REFLEX_TASK_STATE_FREE"
proof (induction ts arbitrary: j)
  case (Cons t ts)
  show ?case
  proof (cases "t_state t = REFLEX_TASK_STATE_FREE")
    case False
    then have "Suc j \<le> i \<and> i < Suc j + length ts \<and> t_state (ts ! (i - Suc j)) = REFLEX_TASK_STATE_FREE"
      using Cons.IH [of "Suc j"] Cons.prems by simp
    moreover from this have "i - j = Suc (i - Suc j)" by linarith
    ultimately show ?thesis by simp
  qed (use Cons.prems in auto)
qed simp

lemma find_waiter_Some:
  "find_waiter ts q j = Some i \<Longrightarrow> j \<le> i \<and> i < j + length ts \<and> t_state (ts ! (i - j)) = REFLEX_TASK_STATE_BLOCKED \<and> blocked_on (ts ! (i - j)) = Some q"
proof (induction ts arbitrary: j)
  case (Cons t ts)
  show ?case
  proof (cases "t_state t = REFLEX_TASK_STATE_BLOCKED \<and> blocked_on t = Some q")
    case False
    then have "find_waiter ts q (Suc j) = Some i" using Cons.prems by (auto split: if_splits)
    from Cons.IH [OF this] have *: "Suc j \<le> i \<and> i < Suc j + length ts \<and> t_state (ts ! (i - Suc j)) = REFLEX_TASK_STATE_BLOCKED
        \<and> blocked_on (ts ! (i - Suc j)) = Some q" .
    moreover from this have "i - j = Suc (i - Suc j)" by linarith
    ultimately show ?thesis by simp
  qed (use Cons.prems in auto)
qed simp

text \<open>A new stack in a free slot.\<close>

lemma create_task_ok:
  assumes ok: "sched_ok s b" and m: "malloc_ok malloc s"
  shows "sched_ok (snd (reflex_sched_create_task malloc fn name bytes arg prio s)) b"
proof (cases "fn = None \<or> find_free_slot s = None \<or> malloc = None")
  case True
  then show ?thesis using ok by (auto simp: reflex_sched_create_task_def Let_def split: option.split)
next
  case False
  then obtain i a where i: "find_free_slot s = Some i" "malloc = Some a" "fn \<noteq> None" by auto
  have l: "length (s_tasks s) = 16" using ok by (simp add: sched_ok_def)
  have f: "i < 16" "t_state (s_tasks s ! i) = REFLEX_TASK_STATE_FREE"
    using find_slot_Some [of "s_tasks s" 0 i] i(1) l by (simp_all add: find_free_slot_def)
  have n: "stack_base (s_tasks s ! i) = None" "a \<notin> set (s_stacks s)"
    using ok f m i(2) by (simp_all add: sched_ok_def slot_ok_def malloc_ok_def)
  define s' where "s' = snd (reflex_sched_create_task malloc fn name bytes arg prio s)"
  obtain t where t: "s_tasks s' = (s_tasks s)[i := t]" "stack_base t = Some a" "t_state t = REFLEX_TASK_STATE_READY" "\<not> started t"
      "s_stacks s' = a # s_stacks s" "s_current s' = s_current s" "s_started s' = s_started s"
    unfolding s'_def using i by (simp add: reflex_sched_create_task_def Let_def upd_task_def)
  have "stacks_ok (s_tasks s') (s_stacks s')"
  proof -
    have d: "distinct (s_stacks s)" "\<And>i j a. i < 16 \<Longrightarrow> j < 16 \<Longrightarrow> stack_base (s_tasks s ! i) = Some a \<Longrightarrow> stack_base (s_tasks s ! j) = Some a \<Longrightarrow> i = j"
      "\<And>a. a \<in> set (s_stacks s) \<longleftrightarrow> (\<exists>i < 16. stack_base (s_tasks s ! i) = Some a)"
      using ok l unfolding sched_ok_def stacks_ok_def by metis+
    have e: "stack_base (s_tasks s' ! j) = (if j = i then Some a else stack_base (s_tasks s ! j))" if "j < 16" for j
      using that l t(1,2) by (simp add: nth_list_update)
    have "x \<in> set (s_stacks s') \<longleftrightarrow> (\<exists>j < 16. stack_base (s_tasks s' ! j) = Some x)" for x
      using d(3) [of x] e f(1) n(1) t(5) by (cases "x = a") (auto split: if_splits; metis option.distinct(1))+
    moreover have "j = k" if "j < 16" "k < 16" "stack_base (s_tasks s' ! j) = Some x" "stack_base (s_tasks s' ! k) = Some x" for j k x
      using that d(2,3) e n(2) by (auto split: if_splits)
    ultimately show ?thesis using d(1) n(2) l t(1,5) unfolding stacks_ok_def by auto
  qed
  moreover have "running_ok s' b"
    using ok f t(1,3,6,7) l by (auto simp: sched_ok_def running_ok_def nth_list_update split: option.splits)
  ultimately show ?thesis using ok l t f by (auto simp: s'_def [symmetric] sched_ok_def slot_ok_def nth_list_update)
qed

lemma set_priority_ok: "sched_ok s b \<Longrightarrow> handle_ok h \<Longrightarrow> sched_ok (reflex_sched_set_priority h p s) b"
proof (cases h)
  case (Some i)
  moreover assume ok: "sched_ok s b" and "handle_ok h"
  ultimately have i: "i < 16" by (simp add: handle_ok_def REFLEX_SCHED_MAX_TASKS_def)
  have "sched_ok (upd_task i (\<lambda>t. t\<lparr>priority := p\<rparr>) s) b"
    by (rule upd_ok [OF ok i]) (use ok i in \<open>auto simp: sched_ok_def running_ok_def slot_ok_def\<close>)
  then show ?thesis using Some by (simp add: reflex_sched_set_priority_def)
qed (simp add: reflex_sched_set_priority_def)

lemma tick_ok: "sched_ok (reflex_sched_tick s) b = sched_ok s b"
  by (simp add: sched_ok_def running_ok_def reflex_sched_tick_def)

lemma wake_ok:
  assumes "sched_ok s b"
  shows "sched_ok (wake_one_waiter q s) b" "s_current (wake_one_waiter q s) = s_current s" "s_started (wake_one_waiter q s) = s_started s"
proof -
  have "sched_ok (upd_task i (\<lambda>t. t\<lparr>blocked_on := None, wake_deadline_valid := False, t_state := REFLEX_TASK_STATE_READY\<rparr>) s) b"
    if "find_waiter (s_tasks s) q 0 = Some i" for i
  proof -
    have l: "length (s_tasks s) = 16" using assms by (simp add: sched_ok_def)
    have i: "i < 16" "t_state (s_tasks s ! i) = REFLEX_TASK_STATE_BLOCKED" using find_waiter_Some [OF that] l by simp_all
    have "\<not> (b \<and> s_current s = Some i)" using assms i by (auto simp: sched_ok_def running_ok_def)
    then show ?thesis using assms i by (intro upd_ok) (auto simp: sched_ok_def slot_ok_def)
  qed
  then show "sched_ok (wake_one_waiter q s) b" using assms by (simp add: wake_one_waiter_def split: option.split)
qed (simp_all add: wake_one_waiter_def split: option.split)

lemma delay_ok:
  assumes "sched_ok s b" "b \<or> \<not> s_started s"
  shows "sched_ok (snd (reflex_sched_delay_ms ms s)) (b \<and> \<not> fst (reflex_sched_delay_ms ms s))"
proof (cases b)
  case True
  then obtain c where c: "s_current s = Some c" "s_started s" using running_slot [of s] assms(1) by auto
  let ?f = "\<lambda>t. t\<lparr>wake_tick := s_tick_count s + (if reflex_sched_ms_to_ticks ms = 0 then 1 else reflex_sched_ms_to_ticks ms),
      wake_deadline_valid := True, t_state := REFLEX_TASK_STATE_BLOCKED\<rparr>"
  have "reflex_sched_delay_ms ms s = reflex_sched_yield (upd_task c ?f s)"
    using c by (simp add: reflex_sched_delay_ms_def Let_def)
  then show ?thesis using park_ok [of s c ?f] assms(1) True c(1) by simp
qed (use assms in \<open>simp add: reflex_sched_delay_ms_def\<close>)

lemma clear_slot:
  assumes s: "stacks_ok ts live" and i: "i < length ts" "t_state (ts ! i) = REFLEX_TASK_STATE_DEAD"
  obtains live' where "reflex_sched_reap [ts ! i] live = ([cleared (ts ! i)], live')" "stacks_ok (ts[i := cleared (ts ! i)]) live'"
proof -
  have d: "distinct live" "\<And>i j a. i < length ts \<Longrightarrow> j < length ts \<Longrightarrow> stack_base (ts ! i) = Some a \<Longrightarrow> stack_base (ts ! j) = Some a \<Longrightarrow> i = j"
    "\<And>a. a \<in> set live \<longleftrightarrow> (\<exists>i < length ts. stack_base (ts ! i) = Some a)" using s unfolding stacks_ok_def by blast+
  obtain live' where r: "reflex_sched_reap [ts ! i] live = (map cleared [ts ! i], live')" "distinct live'"
      "set live' = set live - {a. \<exists>t \<in> set [ts ! i]. t_state t = REFLEX_TASK_STATE_DEAD \<and> stack_base t = Some a}"
    using reap_spec [OF d(1)] by blast
  have e: "stack_base (ts[i := cleared (ts ! i)] ! j) = (if j = i then None else stack_base (ts ! j))" if "j < length ts" for j
    using that i by (simp add: nth_list_update)
  have "a \<in> set live' \<longleftrightarrow> (\<exists>j < length ts. stack_base (ts[i := cleared (ts ! i)] ! j) = Some a)" for a
  proof -
    have "a \<in> set live' \<longleftrightarrow> (\<exists>j < length ts. stack_base (ts ! j) = Some a) \<and> stack_base (ts ! i) \<noteq> Some a"
      using r(3) i(2) d(3) by simp
    also have "\<dots> \<longleftrightarrow> (\<exists>j < length ts. j \<noteq> i \<and> stack_base (ts ! j) = Some a)" using d(2) i(1) by metis
    finally show ?thesis using e by (auto split: if_splits)
  qed
  then have "stacks_ok (ts[i := cleared (ts ! i)]) live'"
    using r(2) e d(2) unfolding stacks_ok_def by (auto split: if_splits)
  then show ?thesis using that r(1) by simp
qed

lemma delete_ok:
  assumes ok: "sched_ok s b" and b: "b \<or> \<not> s_started s" and h: "handle_ok h"
  shows "sched_ok (snd (reflex_sched_delete_task h s)) (b \<and> \<not> fst (reflex_sched_delete_task h s))"
proof (cases "h = None \<or> h = s_current s")
  case True
  show ?thesis
  proof (cases "s_current s")
    case None
    then show ?thesis using ok True by (simp add: reflex_sched_delete_task_def)
  next
    case (Some c)
    then have "b" using ok b by (auto simp: sched_ok_def running_ok_def)
    then show ?thesis
      using park_ok [of s c "\<lambda>t. t\<lparr>t_state := REFLEX_TASK_STATE_DEAD\<rparr>"] ok True Some by (simp add: reflex_sched_delete_task_def)
  qed
next
  case False
  then obtain i where i: "h = Some i" "i < 16" "s_current s \<noteq> Some i"
    using h by (auto simp: handle_ok_def REFLEX_SCHED_MAX_TASKS_def)
  let ?s = "upd_task i (\<lambda>t. t\<lparr>t_state := REFLEX_TASK_STATE_DEAD\<rparr>) s"
  have l: "length (s_tasks s) = 16" using ok by (simp add: sched_ok_def)
  have s1: "sched_ok ?s b" by (rule upd_ok [OF ok i(2)]) (use i(3) in \<open>auto simp: slot_ok_def\<close>)
  show ?thesis
  proof (cases "s_started s")
    case True
    then show ?thesis using s1 i False by (auto simp: reflex_sched_delete_task_def Let_def)
  next
    case st: False
    have "stacks_ok (s_tasks ?s) (s_stacks s)" "i < length (s_tasks ?s)" "t_state (s_tasks ?s ! i) = REFLEX_TASK_STATE_DEAD"
      using s1 l i(2) by (simp_all add: sched_ok_def)
    then obtain live' where r: "reflex_sched_reap [s_tasks ?s ! i] (s_stacks s) = ([cleared (s_tasks ?s ! i)], live')"
        "stacks_ok ((s_tasks ?s)[i := cleared (s_tasks ?s ! i)]) live'" by (rule clear_slot)
    let ?u = "?s\<lparr>s_tasks := (s_tasks ?s)[i := cleared (s_tasks ?s ! i)], s_stacks := live'\<rparr>"
    have "reflex_sched_delete_task h s = (False, ?u)"
      using i False st r(1) by (auto simp: reflex_sched_delete_task_def Let_def)
    moreover have "sched_ok ?u b"
      using s1 r(2) l i unfolding sched_ok_def running_ok_def by (auto simp: nth_list_update)
    ultimately show ?thesis by simp
  qed
qed

lemma queue_try_ok:
  assumes ok: "sched_ok s b" and b: "b \<or> \<not> s_started s" and t: "queue_try w s qs = (r, s', qs')"
  shows "sched_ok s' (b \<and> r \<noteq> W_PARKED)"
proof -
  obtain ok1 got k where d: "(case w_item w of
             Some x \<Rightarrow> (case reflex_kqueue_try_send (Some (qs ! w_queue w)) (Some x) of (b, k) \<Rightarrow> (b, None, k))
           | None \<Rightarrow> reflex_kqueue_try_recv (Some (qs ! w_queue w)) True) = (ok1, got, k)" by (metis surj_pair)
  note t' = t [unfolded queue_try_def Let_def d prod.case]
  show ?thesis
  proof (cases "ok1 \<or> \<not> s_started s \<or> s_current s = None \<or> (\<not> w_forever w \<and> reflex_sched_tick_reached (s_tick_count s) (w_deadline w))")
    case True
    then show ?thesis using t' ok wake_ok(1) [OF ok, of "w_queue w"] by (auto split: if_splits)
  next
    case False
    then obtain c where c: "s_current s = Some c" "b" using b by auto
    let ?f = "\<lambda>t. t\<lparr>blocked_on := Some (w_queue w), wake_tick := w_deadline w, wake_deadline_valid := \<not> w_forever w,
        t_state := REFLEX_TASK_STATE_BLOCKED\<rparr>"
    have "r = W_PARKED" "s' = snd (reflex_sched_yield (upd_task c ?f s))" using t' False c by (auto split: if_splits)
    then show ?thesis using park_ok(2) [of s c ?f] ok c by simp
  qed
qed

lemma queue_retry_ok:
  assumes "sched_ok s True" "queue_retry w s qs = (r, s', qs')"
  shows "sched_ok s' (r \<noteq> W_PARKED)"
proof -
  obtain c where c: "s_current s = Some c" "c < 16" "t_state (s_tasks s ! c) = REFLEX_TASK_STATE_RUNNING" "stack_base (s_tasks s ! c) \<noteq> None"
    using running_slot [OF assms(1)] by auto
  have "sched_ok (upd_task c (\<lambda>t. t\<lparr>blocked_on := None, wake_deadline_valid := False\<rparr>) s) True"
    by (rule upd_ok [OF assms(1) c(2)]) (use c in \<open>auto simp: slot_ok_def\<close>)
  from queue_try_ok [OF this, of w qs r s' qs'] show ?thesis using assms(2) c(1) by (simp add: queue_retry_def)
qed

text \<open>The step relation.\<close>

definition machine_ok :: "('e, 'a) machine \<Rightarrow> bool" where
  "machine_ok m \<longleftrightarrow> sched_ok (m_sched m) (m_in_task m)"

lemma may_call_cases: "may_call m \<Longrightarrow> m_in_task m \<or> \<not> s_started (m_sched m)"
  by (auto simp: may_call_def split: if_splits)

lemma after_wait_ok:
  assumes "sched_ok (m_sched m) (m_in_task m)"
    "\<And>r s' qs'. R = (r, s', qs') \<Longrightarrow> sched_ok s' (m_in_task m \<and> r \<noteq> W_PARKED)"
  shows "machine_ok (after_wait m w R)"
  using assms(2) by (cases R) (auto simp: after_wait_def machine_ok_def)

lemma step_ok:
  assumes ok: "machine_ok m" and st: "step act m = Some m'"
  shows "machine_ok m'"
proof -
  have s: "sched_ok (m_sched m) (m_in_task m)" using ok by (simp add: machine_ok_def)
  show ?thesis
  proof (cases act)
    case Tick
    then show ?thesis using s st by (auto simp: machine_ok_def tick_ok)
  next
    case Start
    then show ?thesis using s st by (auto simp: machine_ok_def sched_ok_def running_ok_def split: if_splits)
  next
    case Schedule
    then have n: "s_started (m_sched m)" "\<not> m_in_task m" "m' = schedule m" using st by (auto split: if_splits)
    obtain r s1 where p: "pick_next (m_sched m) = (r, s1)" by (metis surj_pair)
    have "sched_ok (m_sched m) False" using s n(2) by simp
    note k = pick_next_ok [OF this p]
    show ?thesis
    proof (cases r)
      case None
      then show ?thesis using k(1) n(2,3) p by (simp add: schedule_def machine_ok_def)
    next
      case (Some i)
      then have "sched_ok (snd (dispatch i s1)) True" using dispatch_ok(1) [OF k(1)] k(2,3) n(1) by simp
      then show ?thesis using Some n(3) p by (simp add: schedule_def machine_ok_def split_beta)
    qed
  next
    case (Create malloc fn name bytes arg prio)
    then show ?thesis using s st create_task_ok [OF s] by (auto simp: machine_ok_def split: if_splits)
  next
    case (Delete h)
    then show ?thesis using st delete_ok [OF s may_call_cases] by (auto simp: machine_ok_def after_call_def split: if_splits)
  next
    case (Delay ms)
    then show ?thesis using st delay_ok [OF s may_call_cases] by (auto simp: machine_ok_def after_call_def split: if_splits)
  next
    case Yield
    then show ?thesis using st yield_ok [OF s may_call_cases] by (auto simp: machine_ok_def after_call_def split: if_splits)
  next
    case (Priority h p)
    then show ?thesis using st set_priority_ok [OF s] by (auto simp: machine_ok_def split: if_splits)
  next
    case (Wait q item ms)
    then have w: "may_call m" "m' = after_wait m (wait_begin (m_sched m) q item ms) (queue_try (wait_begin (m_sched m) q item ms) (m_sched m) (m_queues m))"
      using st by (auto simp: Let_def split: if_splits)
    show ?thesis unfolding w(2) using queue_try_ok [OF s may_call_cases [OF w(1)]] by (intro after_wait_ok [OF s])
  next
    case Resume
    then obtain w where w: "m_in_task m" "m' = after_wait m w (queue_retry w (m_sched m) (m_queues m))"
      using st by (auto split: if_splits option.splits)
    show ?thesis unfolding w(2) using queue_retry_ok [of "m_sched m" w "m_queues m"] s w(1) by (intro after_wait_ok [OF s]) simp
  next
    case Return
    then have w: "m_in_task m" "m' = m\<lparr>m_sched := entry_returned (the (s_current (m_sched m))) (m_sched m), m_in_task := False\<rparr>"
      using st by (auto split: if_splits)
    obtain c where c: "s_current (m_sched m) = Some c" "c < 16" using running_slot [of "m_sched m"] s w(1) by auto
    have "sched_ok (upd_task c (\<lambda>t. t\<lparr>t_state := REFLEX_TASK_STATE_DEAD\<rparr>) (m_sched m)) False"
      by (rule upd_ok [OF s c(2)]) (use c in \<open>auto simp: slot_ok_def\<close>)
    then show ?thesis using c(1) w(2) by (simp add: machine_ok_def entry_returned_def)
  qed
qed

lemma boot_ok: "machine_ok (boot a idle qs)"
proof -
  let ?s = "\<lparr>s_tasks = replicate 16 tcb_zero, s_current = None, s_tick_count = 0, s_critical_nesting = 0, s_started = False, s_stacks = []\<rparr>"
  have "sched_ok ?s False" by (simp add: sched_ok_def stacks_ok_def slot_ok_def running_ok_def tcb_zero_def)
  moreover have "malloc_ok (Some a) ?s" by (simp add: malloc_ok_def)
  ultimately show ?thesis
    unfolding machine_ok_def boot_def reflex_sched_init_def REFLEX_SCHED_MAX_TASKS_def
    using create_task_ok [of ?s False "Some a" "Some idle" "Some ''idle''" REFLEX_SCHED_MIN_STACK 0 0] by simp
qed

lemma reachable_ok: "reachable m \<Longrightarrow> machine_ok m"
  by (induction rule: reachable.induct) (auto intro: boot_ok step_ok)

end
