(* ===== verification/Sched_Choice.thy ===== *)
theory Sched_Choice imports Sched_Machine begin

text \<open>
  What the scheduler promises: the choice of the next task and its fairness, the life cycle of
  tasks and stacks, sleeping across the wrap of the tick counter; and a lost wake-up of the
  blocking queues.
\<close>

section \<open>The scan\<close>

text \<open>How far behind \<open>start\<close> the scan reaches slot \<open>i\<close>.\<close>

definition scan_dist :: "nat \<Rightarrow> int \<Rightarrow> nat \<Rightarrow> int" where
  "scan_dist n start i = (int i - start) mod int n"

definition ready :: "'e reflex_tcb list \<Rightarrow> nat \<Rightarrow> bool" where
  "ready ts i \<longleftrightarrow> i < length ts \<and> t_state (ts ! i) = REFLEX_TASK_STATE_READY"

lemma c_remainder:
  assumes "0 < n"
  shows "nat (if start smod int n < 0 then start smod int n + int n else start smod int n) = nat (start mod int n)"
proof (cases "start \<ge> 0")
  case True
  then have "start smod int n = start mod int n" by (cases "start = 0") (simp_all add: signed_modulo_int_def sgn_if)
  moreover have "\<not> start mod int n < 0" using assms by (simp add: not_less)
  ultimately show ?thesis by simp
next
  case False
  define r where "r = (- start) mod int n"
  have r: "0 \<le> r" "r < int n" using assms by (simp_all add: r_def)
  have s: "start smod int n = - r" using False by (simp add: signed_modulo_int_def r_def)
  have "start mod int n = (if r = 0 then 0 else int n - r)"
    using zmod_zminus1_eq_if [of "- start" "int n"] by (simp add: r_def)
  then show ?thesis using r s by auto
qed

text \<open>\<open>r\<close> is the choice among the first \<open>m\<close> slots of the scan order \<open>g\<close>.\<close>

definition best_of :: "'e reflex_tcb list \<Rightarrow> (nat \<Rightarrow> nat) \<Rightarrow> nat \<Rightarrow> nat option \<Rightarrow> bool" where
  "best_of ts g m r \<longleftrightarrow> (case r of
      None \<Rightarrow> (\<forall>y < m. \<not> ready ts (g y))
    | Some i \<Rightarrow> (\<exists>x < m. i = g x \<and> ready ts i \<and> (\<forall>y < m. ready ts (g y) \<longrightarrow> priority (ts ! g y) \<le> priority (ts ! i)
        \<and> (priority (ts ! g y) = priority (ts ! i) \<longrightarrow> x \<le> y))))"

lemma best_of_probe:
  assumes g: "g m < length ts" and r: "best_of ts g m r"
  shows "best_of ts g (Suc m) (select_probe ts (g m) r)"
proof (cases r)
  case None
  then have "\<forall>y < m. \<not> ready ts (g y)" using r by (simp add: best_of_def)
  then show ?thesis using None g by (auto simp: best_of_def select_probe_def less_Suc_eq ready_def)
next
  case (Some i)
  then obtain x where x: "x < m" "i = g x" "ready ts i"
      "\<And>y. y < m \<Longrightarrow> ready ts (g y) \<Longrightarrow> priority (ts ! g y) \<le> priority (ts ! i) \<and> (priority (ts ! g y) = priority (ts ! i) \<longrightarrow> x \<le> y)"
    using r by (auto simp: best_of_def)
  show ?thesis
  proof (cases "ready ts (g m) \<and> priority (ts ! g m) > priority (ts ! i)")
    case True
    then have e: "select_probe ts (g m) r = Some (g m)" using Some by (simp add: select_probe_def ready_def)
    have lt: "priority (ts ! g y) < priority (ts ! g m)" if "y < m" "ready ts (g y)" for y using x(4) [OF that] True by linarith
    then show ?thesis unfolding e best_of_def option.case using True
      by (intro exI [of _ m]) (auto simp: less_Suc_eq intro: less_imp_le dest: lt)
  next
    case False
    then have e: "select_probe ts (g m) r = Some i" using Some g by (auto simp: select_probe_def ready_def)
    show ?thesis unfolding e best_of_def option.case using x False
      by (intro exI [of _ x]) (auto simp: less_Suc_eq)
  qed
qed

lemma scan_order:
  assumes n: "ts \<noteq> []"
  shows "best_of ts (\<lambda>i. (b + i) mod length ts) m (fold (\<lambda>i best. select_probe ts ((b + i) mod length ts) best) [0..<m] None)"
proof (induction m)
  case (Suc m)
  then show ?case using best_of_probe [of "\<lambda>i. (b + i) mod length ts" m ts] n by simp
qed (simp add: best_of_def)

lemma scan_dist_offset:
  assumes "0 < n" "x < n" shows "scan_dist n start ((nat (start mod int n) + x) mod n) = int x"
proof -
  have "int ((nat (start mod int n) + x) mod n) = (start mod int n + int x) mod int n" using assms(1) by (simp add: zmod_int)
  then have "scan_dist n start ((nat (start mod int n) + x) mod n) = ((start mod int n + int x) mod int n - start) mod int n"
    by (simp add: scan_dist_def)
  also have "\<dots> = int x mod int n" by (simp add: mod_simps)
  finally show ?thesis using assms(2) by simp
qed

lemma offset_of:
  assumes "i < n" obtains x where "x < n" "i = (nat (start mod int n) + x) mod n"
proof
  let ?x = "nat (scan_dist n start i)"
  have n: "0 < n" using assms by simp
  show "?x < n" using n by (simp add: scan_dist_def nat_less_iff)
  have "int ((nat (start mod int n) + ?x) mod n) = (start mod int n + (int i - start) mod int n) mod int n"
    using n by (simp add: zmod_int scan_dist_def)
  also have "\<dots> = int i" using assms by (simp add: mod_simps)
  finally show "i = (nat (start mod int n) + ?x) mod n" by simp
qed

lemma select_order:
  assumes "ts \<noteq> []"
  shows "case reflex_sched_select ts start of
      None \<Rightarrow> (\<forall>j. \<not> ready ts j)
    | Some i \<Rightarrow> ready ts i \<and> (\<forall>j. ready ts j \<longrightarrow> priority (ts ! j) \<le> priority (ts ! i)
        \<and> (priority (ts ! j) = priority (ts ! i) \<longrightarrow> scan_dist (length ts) start i \<le> scan_dist (length ts) start j))"
proof -
  let ?n = "length ts" and ?b = "nat (start mod int (length ts))"
  have n: "0 < ?n" "?b < ?n" using assms by (simp_all add: nat_less_iff)
  have eq: "reflex_sched_select ts start = fold (\<lambda>i best. select_probe ts ((?b + i) mod ?n) best) [0..<?n] None"
    using assms c_remainder [OF n(1), of start] unfolding reflex_sched_select_def Let_def by simp
  have off: "\<exists>x < ?n. j = (?b + x) mod ?n" if "ready ts j" for j
    using offset_of [of j ?n start] that by (auto simp: ready_def)
  note so = scan_order [OF assms, of ?b ?n, folded eq]
  show ?thesis
  proof (cases "reflex_sched_select ts start")
    case None
    then show ?thesis using so off by (fastforce simp: best_of_def)
  next
    case (Some i)
    then obtain x where x: "x < ?n" "i = (?b + x) mod ?n" "ready ts i"
        "\<And>y. y < ?n \<Longrightarrow> ready ts ((?b + y) mod ?n) \<Longrightarrow> priority (ts ! ((?b + y) mod ?n)) \<le> priority (ts ! i)
          \<and> (priority (ts ! ((?b + y) mod ?n)) = priority (ts ! i) \<longrightarrow> x \<le> y)"
      using so by (auto simp: best_of_def)
    have "priority (ts ! j) \<le> priority (ts ! i) \<and> (priority (ts ! j) = priority (ts ! i) \<longrightarrow> scan_dist ?n start i \<le> scan_dist ?n start j)"
      if j: "ready ts j" for j
    proof -
      obtain y where y: "y < ?n" "j = (?b + y) mod ?n" using off [OF j] by auto
      have "scan_dist ?n start j = int y" "scan_dist ?n start i = int x"
        using scan_dist_offset [OF n(1) y(1), of start] scan_dist_offset [OF n(1) x(1), of start] by (simp_all flip: x(2) y(2))
      then show ?thesis using x(4) [OF y(1)] j by (simp flip: y(2))
    qed
    then show ?thesis using Some x(3) by simp
  qed
qed

section \<open>Turns\<close>

text \<open>
  \<open>j\<close> is ready at the next decision and no ready task exceeds its priority; the task that ran last
  has not retired, so that the scan starts behind it.
\<close>

definition contends :: "nat \<Rightarrow> 'e sched \<Rightarrow> bool" where
  "contends j s \<longleftrightarrow> (case pick_next s of (_, s1) \<Rightarrow> s_current s1 = s_current s \<and> j < length (s_tasks s1)
     \<and> t_state (s_tasks s1 ! j) = REFLEX_TASK_STATE_READY
     \<and> (\<forall>i < length (s_tasks s1). t_state (s_tasks s1 ! i) = REFLEX_TASK_STATE_READY
          \<longrightarrow> priority (s_tasks s1 ! i) \<le> priority (s_tasks s1 ! j)))"

text \<open>The tasks chosen by the decisions of an execution, and an execution that keeps \<open>j\<close> contending at every one.\<close>

fun choices :: "('e, 'a) action list \<Rightarrow> ('e, 'a) machine \<Rightarrow> nat option list" where
  "choices [] m = []"
| "choices (a # as) m = (if a = Schedule then [fst (pick_next (m_sched m))] else [])
     @ (case step a m of None \<Rightarrow> [] | Some m1 \<Rightarrow> choices as m1)"

fun kept_contending :: "nat \<Rightarrow> ('e, 'a) action list \<Rightarrow> ('e, 'a) machine \<Rightarrow> bool" where
  "kept_contending j [] m = True"
| "kept_contending j (a # as) m = ((a = Schedule \<longrightarrow> contends j (m_sched m))
     \<and> (case step a m of None \<Rightarrow> False | Some m1 \<Rightarrow> kept_contending j as m1))"

lemma scan_dist_advance:
  assumes "i < n" "j < n" "i \<noteq> j" "scan_dist n start i \<le> scan_dist n start j"
  shows "scan_dist n (int i + 1) j < scan_dist n start j"
proof -
  define di dj where d: "di = scan_dist n start i" "dj = scan_dist n start j"
  have r: "0 \<le> di" "dj < int n" using assms(1) by (simp_all add: d scan_dist_def)
  have "di \<noteq> dj"
  proof
    assume "di = dj"
    then have "(int i - start + start) mod int n = (int j - start + start) mod int n"
      unfolding d scan_dist_def by (metis mod_add_left_eq)
    then show False using assms(1-3) by simp
  qed
  then have lt: "di < dj" using assms(4) d by simp
  have "scan_dist n (int i + 1) j = ((int j - start) - (int i - start) - 1) mod int n" by (simp add: scan_dist_def algebra_simps)
  also have "\<dots> = (((int j - start) - (int i - start)) mod int n - 1) mod int n" by (rule mod_diff_left_eq [symmetric])
  also have "((int j - start) - (int i - start)) mod int n = (dj - di) mod int n" unfolding d scan_dist_def by (rule mod_diff_eq [symmetric])
  also have "((dj - di) mod int n - 1) mod int n = (dj - di - 1) mod int n" by (rule mod_diff_left_eq)
  also have "\<dots> = dj - di - 1" using r lt by simp
  finally show ?thesis using r d by simp
qed

lemma current_kept:
  "s_current (snd (reflex_sched_yield s)) = s_current s" "s_current (wake_one_waiter q s) = s_current s"
  "s_current (snd (reflex_sched_create_task ma f n b ar p s)) = s_current s" "s_current (reflex_sched_set_priority h p s) = s_current s"
  "s_current (reflex_sched_tick s) = s_current s" "s_current (entry_returned i s) = s_current s"
  by (simp_all add: reflex_sched_yield_def wake_one_waiter_def reflex_sched_create_task_def reflex_sched_set_priority_def
    reflex_sched_tick_def entry_returned_def Let_def split: option.split)

lemma current_kept2:
  "s_current (snd (reflex_sched_delete_task h s)) = s_current s" "s_current (snd (reflex_sched_delay_ms ms s)) = s_current s"
  "s_current (fst (snd (queue_try w s qs))) = s_current s" "s_current (fst (snd (queue_retry w s qs))) = s_current s"
  by (simp_all add: reflex_sched_delete_task_def reflex_sched_delay_ms_def queue_try_def queue_retry_def current_kept Let_def case_prod_beta
    split: option.split)

lemma same_current:
  "step a m = Some m' \<Longrightarrow> a \<noteq> Schedule \<Longrightarrow> s_current (m_sched m') = s_current (m_sched m)"
  by (cases a) (auto simp: after_call_def after_wait_def current_kept current_kept2 case_prod_beta Let_def split: if_splits option.splits)

definition scan_start :: "'e sched \<Rightarrow> int" where
  "scan_start s = (case s_current s of None \<Rightarrow> 0 | Some c \<Rightarrow> int c + 1)"

lemma pick_select: "s_tasks s \<noteq> [] \<Longrightarrow> pick_next s = (r, s1) \<Longrightarrow> r = reflex_sched_select (s_tasks s1) (scan_start s1)"
  by (auto simp: pick_next_def scan_start_def Let_def split: prod.splits)

text \<open>A decision for another task brings \<open>j\<close>'s turn nearer.\<close>

lemma decision_nearer:
  assumes ok: "machine_ok m" and st: "step Schedule m = Some m1" and c: "contends j (m_sched m)" and other: "fst (pick_next (m_sched m)) \<noteq> Some j"
  shows "scan_dist 16 (scan_start (m_sched m1)) j < scan_dist 16 (scan_start (m_sched m)) j"
proof -
  obtain r s1 where p: "pick_next (m_sched m) = (r, s1)" by (metis surj_pair)
  have ok1: "sched_ok (m_sched m) False" using ok st by (auto simp: machine_ok_def split: if_splits)
  have n: "length (s_tasks s1) = 16" "length (s_tasks (m_sched m)) = 16"
    using pick_next_ok(1) [OF ok1 p] ok1 by (simp_all add: sched_ok_def)
  then have ne: "s_tasks s1 \<noteq> []" "s_tasks (m_sched m) \<noteq> []" by auto
  have J: "s_current s1 = s_current (m_sched m)" "ready (s_tasks s1) j" "\<And>i. ready (s_tasks s1) i \<Longrightarrow> priority (s_tasks s1 ! i) \<le> priority (s_tasks s1 ! j)"
    using c by (auto simp: contends_def p ready_def Let_def)
  have r: "r = reflex_sched_select (s_tasks s1) (scan_start s1)" by (rule pick_select [OF ne(2) p])
  obtain i where i: "r = Some i" using select_order [OF ne(1), of "scan_start s1", folded r] J(2) by (cases r) auto
  have s: "ready (s_tasks s1) i" "\<forall>j. ready (s_tasks s1) j \<longrightarrow> priority (s_tasks s1 ! j) \<le> priority (s_tasks s1 ! i)
      \<and> (priority (s_tasks s1 ! j) = priority (s_tasks s1 ! i) \<longrightarrow> scan_dist 16 (scan_start s1) i \<le> scan_dist 16 (scan_start s1) j)"
    using select_order [OF ne(1), of "scan_start s1", folded r] i n by simp_all
  then have "priority (s_tasks s1 ! j) = priority (s_tasks s1 ! i)" using J(2,3) by (meson order_antisym)
  then have "scan_dist 16 (scan_start s1) i \<le> scan_dist 16 (scan_start s1) j" using s(2) J(2) by simp
  moreover have "i < 16" "j < 16" "i \<noteq> j" using s(1) J(2) n other p i by (auto simp: ready_def)
  ultimately have "scan_dist 16 (int i + 1) j < scan_dist 16 (scan_start s1) j" by (intro scan_dist_advance)
  moreover have "scan_start (m_sched m1) = int i + 1" using st p i by (auto simp: schedule_def dispatch_def scan_start_def split: if_splits)
  moreover have "scan_start s1 = scan_start (m_sched m)" using J(1) by (simp add: scan_start_def)
  ultimately show ?thesis by simp
qed

lemma turn_comes:
  "machine_ok m \<Longrightarrow> kept_contending j acts m \<Longrightarrow> scan_dist 16 (scan_start (m_sched m)) j < int (length (choices acts m))
    \<Longrightarrow> Some j \<in> set (choices acts m)"
proof (induction acts arbitrary: m)
  case Nil
  then show ?case by (simp add: scan_dist_def not_less)
next
  case (Cons a as)
  obtain m1 where m1: "step a m = Some m1" "kept_contending j as m1" "a = Schedule \<Longrightarrow> contends j (m_sched m)"
    using Cons.prems(2) by (auto split: option.splits simp del: step.simps)
  note IH = Cons.IH [OF step_ok [OF Cons.prems(1) m1(1)] m1(2)]
  show ?case
  proof (cases "a = Schedule")
    case True
    have st: "step Schedule m = Some m1" "contends j (m_sched m)" using m1 True by simp_all
    show ?thesis
    proof (cases "fst (pick_next (m_sched m)) = Some j")
      case False
      then have "scan_dist 16 (scan_start (m_sched m1)) j < int (length (choices as m1))"
        using decision_nearer [OF Cons.prems(1) st False] Cons.prems(3) m1(1) True by (simp del: step.simps)
      then show ?thesis using IH m1(1) by (simp del: step.simps)
    qed (simp add: True)
  next
    case False
    then have "scan_start (m_sched m1) = scan_start (m_sched m)" using same_current [OF m1(1)] by (simp add: scan_start_def)
    then show ?thesis using IH Cons.prems(3) m1(1) False by (simp del: step.simps)
  qed
qed

section \<open>Ticks\<close>

lemma ms_to_ticks_id: "reflex_sched_ms_to_ticks ms = ms"
proof -
  have b: "uint ms < 2 ^ 32" using uint_lt2p [of ms] by simp
  have "uint (ucast ms :: 64 word) = uint ms" by (simp add: uint_up_ucast is_up)
  then have "uint (ucast ms * of_nat REFLEX_SCHED_TICK_HZ :: 64 word) = uint ms * 1000"
    using b by (simp add: uint_word_ariths REFLEX_SCHED_TICK_HZ_def)
  then have d: "uint ((ucast ms * of_nat REFLEX_SCHED_TICK_HZ :: 64 word) div 1000) = uint ms"
    by (simp add: uint_div)
  then have "\<not> (ucast ms * of_nat REFLEX_SCHED_TICK_HZ :: 64 word) div 1000 > 0xFFFFFFFF"
    using b by (simp add: word_less_def)
  moreover have "ucast ((ucast ms * of_nat REFLEX_SCHED_TICK_HZ :: 64 word) div 1000) = ms"
    using b d by (intro word_uint_eqI) (simp add: unsigned_ucast_eq take_bit_int_eq_self)
  ultimately show ?thesis by (simp add: reflex_sched_ms_to_ticks_def)
qed

lemma tick_reached_iff:
  assumes "a < 2 ^ 31" "b < 2 ^ 31"
  shows "reflex_sched_tick_reached (t + of_nat a) (t + of_nat b) \<longleftrightarrow> b \<le> a"
proof -
  define x where "x = int a - int b"
  have "(t + of_nat a) - (t + of_nat b) = (word_of_int x :: u32)" by (simp add: x_def)
  moreover have "- (2 ^ 31) \<le> x" "x < 2 ^ 31" using assms by (simp_all add: x_def)
  then have "sint (word_of_int x :: u32) = int a - int b" by (simp add: sint_sbintrunc' signed_take_bit_int_eq_self) (simp add: x_def)
  ultimately show ?thesis unfolding reflex_sched_tick_reached_def by simp
qed

section \<open>Properties\<close>

text \<open>
  C5: In every reachable state of the scheduler at most one task runs, and one does exactly when
  control is in a task; the stacks the allocator has handed out and not got back are exactly the
  stacks of the slots, each of one slot (no leak, no double free, no shared stack), every live
  task has one, and a task the scheduler would resume has its context saved on its own stack.
\<close>

theorem scheduler_safe:
  assumes "reachable m" "s = m_sched m"
  shows "(\<forall>i < 16. t_state (s_tasks s ! i) = REFLEX_TASK_STATE_RUNNING \<longleftrightarrow> m_in_task m \<and> s_current s = Some i)
    \<and> stacks_ok (s_tasks s) (s_stacks s)
    \<and> (\<forall>i < 16. t_state (s_tasks s ! i) \<notin> {REFLEX_TASK_STATE_FREE, REFLEX_TASK_STATE_DEAD} \<longrightarrow> stack_base (s_tasks s ! i) \<noteq> None)
    \<and> (\<not> m_in_task m \<longrightarrow> (case pick_next s of
          (None, _) \<Rightarrow> True
        | (Some i, s1) \<Rightarrow> i < 16 \<and> (started (s_tasks s1 ! i) \<longrightarrow> context_stack (s_tasks s1 ! i) = stack_base (s_tasks s1 ! i))))"
proof -
  have ok: "sched_ok s (m_in_task m)" using reachable_ok [OF assms(1)] assms(2) by (simp add: machine_ok_def)
  have "case pick_next s of (None, _) \<Rightarrow> True
      | (Some i, s1) \<Rightarrow> i < 16 \<and> (started (s_tasks s1 ! i) \<longrightarrow> context_stack (s_tasks s1 ! i) = stack_base (s_tasks s1 ! i))"
    if "\<not> m_in_task m"
  proof -
    obtain r s1 where p: "pick_next s = (r, s1)" by (metis surj_pair)
    have "sched_ok s False" using ok that by simp
    from pick_next_ok [OF this p] show ?thesis unfolding p by (cases r) (auto simp: sched_ok_def slot_ok_def)
  qed
  moreover have "t_state (s_tasks s ! i) \<notin> {REFLEX_TASK_STATE_FREE, REFLEX_TASK_STATE_DEAD} \<Longrightarrow> stack_base (s_tasks s ! i) \<noteq> None"
    if "i < 16" for i
    using ok that by (cases "t_state (s_tasks s ! i)") (auto simp: sched_ok_def slot_ok_def)
  ultimately show ?thesis using ok by (auto simp: sched_ok_def running_ok_def)
qed

theorem scheduler_safe_witness:
  "stacks_ok (s_tasks (m_sched (boot 100 () ([] :: nat reflex_kqueue list)))) (s_stacks (m_sched (boot 100 () ([] :: nat reflex_kqueue list))))"
  using scheduler_safe [OF reachable.intros(1) refl, of 100 "()" "[] :: nat reflex_kqueue list"] by blast

text \<open>
  The scheduler chooses a ready task of the highest priority, and of those the first one
  behind the task that ran last; it chooses none only when none is ready.
\<close>

theorem select_spec:
  assumes "ts \<noteq> []"
  shows "case reflex_sched_select ts start of
      None \<Rightarrow> (\<forall>j < length ts. t_state (ts ! j) \<noteq> REFLEX_TASK_STATE_READY)
    | Some i \<Rightarrow> i < length ts \<and> t_state (ts ! i) = REFLEX_TASK_STATE_READY
        \<and> (\<forall>j < length ts. t_state (ts ! j) = REFLEX_TASK_STATE_READY \<longrightarrow> priority (ts ! j) \<le> priority (ts ! i)
            \<and> (priority (ts ! j) = priority (ts ! i) \<longrightarrow> (int i - start) mod int (length ts) \<le> (int j - start) mod int (length ts)))"
  using select_order [OF assms, of start] by (auto simp: ready_def scan_dist_def split: option.splits)

definition three_ready :: "unit reflex_tcb list" where
  "three_ready = [tcb_zero\<lparr>t_state := REFLEX_TASK_STATE_READY\<rparr>, tcb_zero\<lparr>t_state := REFLEX_TASK_STATE_READY, priority := 5\<rparr>,
     tcb_zero\<lparr>t_state := REFLEX_TASK_STATE_READY, priority := 5\<rparr>]"

theorem select_spec_witness:
  "reflex_sched_select three_ready 2 \<noteq> None"
proof
  assume "reflex_sched_select three_ready 2 = None"
  then have "\<forall>j < 3. t_state (three_ready ! j) \<noteq> REFLEX_TASK_STATE_READY"
    using select_spec [of three_ready 2] by (simp add: three_ready_def)
  from spec [OF this, of 0] show False by (simp add: three_ready_def)
qed

text \<open>
  C13: Round robin: in any execution from a reachable state, whatever the tasks and the boot code do
  between the decisions, a task that is ready at every decision, with no ready task above its
  priority, is chosen by one of any sixteen decisions in a row, one per slot. The task that ran
  last must not have retired before a decision: after a retirement the scan starts at slot 0 again
  (\<open>retirement_starves\<close> below).
\<close>

theorem round_robin_fair:
  assumes "reachable m" "kept_contending j acts m" "16 \<le> length (choices acts m)"
  shows "Some j \<in> set (choices acts m)"
proof (rule turn_comes [OF reachable_ok [OF assms(1)] assms(2)])
  have "scan_dist 16 (scan_start (m_sched m)) j < 16" by (simp add: scan_dist_def)
  then show "scan_dist 16 (scan_start (m_sched m)) j < int (length (choices acts m))" using assms(3) by linarith
qed

text \<open>
  Without that condition a task can be starved. The task in slot 1 creates a short one, which gets
  slot 2, and yields, again and again; the short one runs and returns, and the scan, which starts at
  slot 0 after a retirement, finds slot 1 again. Slot 3, of the same priority and ready all along,
  is not chosen.
\<close>

definition spawner_boot :: "(unit, nat) action list" where
  "spawner_boot = [Create (Some 101) (Some ()) (Some ''a'') 1024 0 5, Create (Some 102) (Some ()) (Some ''b'') 1024 0 5,
     Create (Some 103) (Some ()) (Some ''c'') 1024 0 5, Delete (Some 2), Start]"

definition spawning :: "nat \<Rightarrow> (unit, nat) action list" where
  "spawning n = concat (replicate n [Schedule, Create (Some 102) (Some ()) (Some ''b'') 1024 0 5, Yield, Schedule, Return])"

lemma retirement_restarts:
  assumes "s_tasks s \<noteq> []" "s_current s = Some c" "c < length (s_tasks s)" "t_state (s_tasks s ! c) = REFLEX_TASK_STATE_DEAD" "pick_next s = (r, s1)"
  shows "r = reflex_sched_select (s_tasks s1) 0"
proof -
  have "t_state (fst (reflex_sched_reap ts live) ! c) = REFLEX_TASK_STATE_FREE"
    if "c < length ts" "t_state (ts ! c) = REFLEX_TASK_STATE_DEAD" for ts :: "'a reflex_tcb list" and live
    using that by (induction ts live arbitrary: c rule: reflex_sched_reap.induct) (auto simp: nth_Cons' split: prod.split)
  from this [OF assms(3,4), of "s_stacks s"] have "s_current s1 = None"
    using assms(2,5) by (auto simp: pick_next_def Let_def split: prod.splits)
  then show ?thesis using pick_select [OF assms(1,5)] by (simp add: scan_start_def)
qed

lemma retirement_starves:
  "case exec spawner_boot (boot 100 () []) of None \<Rightarrow> False
    | Some m \<Rightarrow> choices (spawning 2) m = concat (replicate 2 [Some 1, Some 2])
       \<and> (case exec (spawning 2) m of None \<Rightarrow> False | Some m1 \<Rightarrow> t_state (s_tasks (m_sched m1) ! 3) = REFLEX_TASK_STATE_READY
            \<and> priority (s_tasks (m_sched m1) ! 3) = 5 \<and> \<not> started (s_tasks (m_sched m1) ! 3))"
  by code_simp

text \<open>
  C14: A task that sleeps \<open>ms\<close> milliseconds is due exactly from the tick \<open>max 1 ms\<close> after the call on,
  wherever the tick counter wraps, for delays and observations under half the counter's range.
\<close>

theorem delay_exact:
  assumes "s_started s" "s_current s = Some c" "c < length (s_tasks s)" "reflex_sched_delay_ms ms s = (y, s')"
    "unat ms < 2 ^ 31" "k < 2 ^ 31"
  shows "reflex_sched_should_time_wake (s_tasks s' ! c) (s_tick_count s + of_nat k) \<longleftrightarrow> max 1 (unat ms) \<le> k"
proof -
  let ?t = "if ms = 0 then 1 else ms"
  have t: "?t = of_nat (max 1 (unat ms))" by (auto simp: unat_eq_zero max_def Suc_le_eq unat_gt_0)
  have "t_state (s_tasks s' ! c) = REFLEX_TASK_STATE_BLOCKED" "wake_deadline_valid (s_tasks s' ! c)"
    "wake_tick (s_tasks s' ! c) = s_tick_count s + ?t"
    using assms(1-4) by (auto simp: reflex_sched_delay_ms_def Let_def ms_to_ticks_id reflex_sched_yield_def split: if_splits)
  then show ?thesis using tick_reached_iff [OF assms(6), of "max 1 (unat ms)" "s_tick_count s"] assms(5) t
    by (simp add: reflex_sched_should_time_wake_def)
qed

text \<open>A sleep that begins three ticks before the counter wraps.\<close>

definition late_sleeper :: "unit sched" where
  "late_sleeper = \<lparr>s_tasks = replicate 16 tcb_zero, s_current = Some 4, s_tick_count = 0xFFFFFFFD, s_critical_nesting = 0,
     s_started = True, s_stacks = []\<rparr>"

theorem delay_exact_witness:
  "\<exists>y s'. reflex_sched_delay_ms 10 late_sleeper = (y, s')
    \<and> reflex_sched_should_time_wake (s_tasks s' ! 4) 7 \<and> \<not> reflex_sched_should_time_wake (s_tasks s' ! 4) 6"
proof -
  obtain y s' where r: "reflex_sched_delay_ms 10 late_sleeper = (y, s')" by (metis surj_pair)
  have "s_started late_sleeper" "s_current late_sleeper = Some 4" "4 < length (s_tasks late_sleeper)" "unat (10 :: u32) < 2 ^ 31"
    by (simp_all add: late_sleeper_def)
  note d = delay_exact [OF this(1-3) r this(4)]
  have e: "s_tick_count late_sleeper + of_nat 10 = 7" "s_tick_count late_sleeper + of_nat 9 = 6" by (simp_all add: late_sleeper_def)
  show ?thesis using r d [of 10, unfolded e] d [of 9, unfolded e] by simp
qed

section \<open>A lost wake-up\<close>

text \<open>
  Two senders and a receiver on a queue of one slot. The idle task has slot 0, the senders slots 1
  and 2, the receiver slot 3, all above idle. Sender 1 fills the queue and parks, sender 2 parks;
  the receiver takes the item, which wakes sender 1, and parks for the next one while sender 2
  still waits to send. Sender 1 delivers and its wake-up goes to sender 2, the first waiter of the
  scan, which finds the queue full again and parks. Sender 1 has returned.
\<close>

definition one_slot :: "nat reflex_kqueue" where
  "one_slot = \<lparr>storage = Some [0], qlength = 1, item_size = 4, count = 0, head = 0, tail = 0, in_use = True\<rparr>"

definition lost_trace :: "(unit, nat) action list" where
  "lost_trace =
     [Create (Some 101) (Some ()) (Some ''s1'') 1024 0 1, Create (Some 102) (Some ()) (Some ''s2'') 1024 0 1,
      Create (Some 103) (Some ()) (Some ''r'') 1024 0 1, Start,
      Schedule, Wait 0 (Some 7) REFLEX_SCHED_WAIT_FOREVER, Wait 0 (Some 8) REFLEX_SCHED_WAIT_FOREVER,
      Schedule, Wait 0 (Some 9) REFLEX_SCHED_WAIT_FOREVER,
      Schedule, Wait 0 None REFLEX_SCHED_WAIT_FOREVER, Wait 0 None REFLEX_SCHED_WAIT_FOREVER,
      Schedule, Resume, Return,
      Schedule, Resume]"

text \<open>The receiver and sender 2 are parked without a deadline, and only the idle task is left.\<close>

definition starved_slot :: "nat \<Rightarrow> 'e reflex_tcb \<Rightarrow> bool" where
  "starved_slot i t \<longleftrightarrow>
     (if i = 0 then t_state t \<in> {REFLEX_TASK_STATE_READY, REFLEX_TASK_STATE_RUNNING}
      else if i \<in> {2, 3} then t_state t = REFLEX_TASK_STATE_BLOCKED \<and> \<not> wake_deadline_valid t
      else t_state t = REFLEX_TASK_STATE_FREE)"

definition starved :: "(unit, nat) machine \<Rightarrow> bool" where
  "starved m \<longleftrightarrow> s_started (m_sched m) \<and> length (s_tasks (m_sched m)) = 16
     \<and> (\<forall>i < 16. starved_slot i (s_tasks (m_sched m) ! i))
     \<and> (m_in_task m \<longrightarrow> s_current (m_sched m) = Some 0)
     \<and> m_pending m 3 = Some \<lparr>w_queue = 0, w_item = None, w_forever = True, w_deadline = 0\<rparr>
     \<and> map (\<lambda>q. reflex_kqueue_count (Some q)) (m_queues m) = [1]"

lemma starved_after: "\<exists>m. exec lost_trace (boot 100 () [one_slot]) = Some m \<and> starved m \<and> \<not> m_in_task m \<and> m_pending m 0 = None"
proof -
  have "(case exec lost_trace (boot 100 () [one_slot]) of None \<Rightarrow> False | Some m \<Rightarrow>
      s_started (m_sched m) \<and> length (s_tasks (m_sched m)) = 16 \<and> \<not> m_in_task m
      \<and> map t_state (s_tasks (m_sched m)) = [REFLEX_TASK_STATE_READY, REFLEX_TASK_STATE_FREE, REFLEX_TASK_STATE_BLOCKED,
           REFLEX_TASK_STATE_BLOCKED] @ replicate 12 REFLEX_TASK_STATE_FREE
      \<and> \<not> wake_deadline_valid (s_tasks (m_sched m) ! 2) \<and> \<not> wake_deadline_valid (s_tasks (m_sched m) ! 3)
      \<and> m_pending m 3 = Some \<lparr>w_queue = 0, w_item = None, w_forever = True, w_deadline = 0\<rparr> \<and> m_pending m 0 = None
      \<and> map (\<lambda>q. reflex_kqueue_count (Some q)) (m_queues m) = [1])"
    unfolding lost_trace_def one_slot_def by code_simp
  then obtain m where m: "exec lost_trace (boot 100 () [one_slot]) = Some m" "s_started (m_sched m)" "length (s_tasks (m_sched m)) = 16"
      "\<not> m_in_task m" "map t_state (s_tasks (m_sched m)) = [REFLEX_TASK_STATE_READY, REFLEX_TASK_STATE_FREE, REFLEX_TASK_STATE_BLOCKED,
           REFLEX_TASK_STATE_BLOCKED] @ replicate 12 REFLEX_TASK_STATE_FREE"
      "\<not> wake_deadline_valid (s_tasks (m_sched m) ! 2)" "\<not> wake_deadline_valid (s_tasks (m_sched m) ! 3)"
      "m_pending m 3 = Some \<lparr>w_queue = 0, w_item = None, w_forever = True, w_deadline = 0\<rparr>"
      "map (\<lambda>q. reflex_kqueue_count (Some q)) (m_queues m) = [1]" "m_pending m 0 = None"
    by (auto split: option.splits)
  have st: "t_state (s_tasks (m_sched m) ! i) = ([REFLEX_TASK_STATE_READY, REFLEX_TASK_STATE_FREE, REFLEX_TASK_STATE_BLOCKED,
           REFLEX_TASK_STATE_BLOCKED] @ replicate 12 REFLEX_TASK_STATE_FREE) ! i" if "i < 16" for i
    using that m(3) by (metis m(5) nth_map)
  have slots: "starved_slot i (s_tasks (m_sched m) ! i)" if "i < 16" for i
    using st [OF that] that m(6,7) by (auto simp: starved_slot_def nth_append nth_Cons' split: if_splits)
  have "starved m" unfolding starved_def
    by (intro conjI allI impI slots) (use m(2-4,8,9) in simp_all)
  then show ?thesis using m(1,4,10) by blast
qed

lemma starved_select: "starved m \<Longrightarrow> pick_next (m_sched m) = (r, s) \<Longrightarrow>
    (r = None \<or> r = Some 0) \<and> s_tasks s = s_tasks (m_sched m) \<and> s_started s"
proof -
  assume st: "starved m" and p: "pick_next (m_sched m) = (r, s)"
  let ?ts = "s_tasks (m_sched m)"
  have l: "length ?ts = 16" "s_started (m_sched m)" and slot: "\<And>i. i < 16 \<Longrightarrow> starved_slot i (?ts ! i)"
    using st by (simp_all add: starved_def)
  have "starved_slot i t \<Longrightarrow> t_state t \<noteq> REFLEX_TASK_STATE_DEAD" "starved_slot i t \<Longrightarrow> t_state t = REFLEX_TASK_STATE_READY \<Longrightarrow> i = 0"
    "starved_slot i t \<Longrightarrow> t_state t = REFLEX_TASK_STATE_BLOCKED \<Longrightarrow> \<not> wake_deadline_valid t" for i and t :: "unit reflex_tcb"
    by (auto simp: starved_slot_def split: if_splits)
  note sl = l this [OF slot]
  have fix_ts: "time_wake now (cleared (?ts ! i)) = ?ts ! i" "cleared (?ts ! i) = ?ts ! i" if "i < 16" for i now
    using sl(3,5) [OF that] by (auto simp: cleared_def time_wake_def reflex_sched_should_time_wake_def)
  have reap: "fst (reflex_sched_reap ts live) = map cleared ts" for ts :: "unit reflex_tcb list" and live
    by (induction ts live rule: reflex_sched_reap.induct) (auto simp: cleared_def split: prod.split)
  obtain live where "reflex_sched_reap ?ts (s_stacks (m_sched m)) = (map cleared ?ts, live)"
    using reap [of ?ts "s_stacks (m_sched m)"] by (metis prod.collapse)
  moreover have "map (time_wake now) (map cleared ?ts) = ?ts" for now
    using fix_ts sl(1) by (intro nth_equalityI) simp_all
  ultimately have e: "s_tasks s = ?ts" "s_started s" "\<exists>start. r = reflex_sched_select ?ts start"
    using p sl(2) by (auto simp: pick_next_def Let_def)
  have "?ts \<noteq> []" using sl(1) by auto
  then have "r = Some i \<Longrightarrow> i = 0" for i using select_ready e(3) sl(1,4) by metis
  then show "(r = None \<or> r = Some 0) \<and> s_tasks s = ?ts \<and> s_started s" using e(1,2) by (cases r) auto
qed

lemma starved_step:
  assumes st: "starved m" and a: "act \<in> {Tick, Schedule, Yield}" and s: "step act m = Some m'"
  shows "starved m'"
proof -
  have l: "length (s_tasks (m_sched m)) = 16" "s_started (m_sched m)" using st by (simp_all add: starved_def)
  have z: "starved_slot 0 (t\<lparr>t_state := REFLEX_TASK_STATE_RUNNING, started := True\<rparr>)" "starved_slot 0 (t\<lparr>t_state := REFLEX_TASK_STATE_READY\<rparr>)"
    "starved_slot i (t\<lparr>context_stack := x\<rparr>) = starved_slot i t" for t :: "unit reflex_tcb" and x i
    by (simp_all add: starved_slot_def)
  show ?thesis
  proof (cases act)
    case Tick
    then show ?thesis using st s by (auto simp: starved_def reflex_sched_tick_def)
  next
    case Schedule
    then have m': "m' = schedule m" using s by (auto split: if_splits)
    obtain r s1 where p: "pick_next (m_sched m) = (r, s1)" by (metis surj_pair)
    note k = starved_select [OF st p]
    show ?thesis
    proof (cases r)
      case None
      then show ?thesis using st k p s Schedule unfolding m' schedule_def by (auto simp: starved_def split: if_splits)
    next
      case (Some i)
      then have "i = 0" using k by simp
      then show ?thesis using st k p Some l unfolding m' schedule_def dispatch_def by (auto simp: starved_def z)
    qed
  next
    case Yield
    then have y: "m' = after_call m (reflex_sched_yield (m_sched m))" "may_call m" using s by (auto split: if_splits)
    then have "s_current (m_sched m) = Some 0" "m_in_task m" using st by (auto simp: may_call_def starved_def split: if_splits)
    then show ?thesis using st l unfolding y(1)
      by (auto simp: starved_def after_call_def reflex_sched_yield_def z)
  qed (use a in auto)
qed

lemma starved_exec: "starved m \<Longrightarrow> set acts \<subseteq> {Tick, Schedule, Yield} \<Longrightarrow> exec acts m = Some m' \<Longrightarrow> starved m'"
  by (induction acts arbitrary: m) (auto split: option.splits dest: starved_step)

lemma exec_append: "exec (xs @ ys) m = (case exec xs m of None \<Rightarrow> None | Some m1 \<Rightarrow> exec ys m1)"
  by (induction xs arbitrary: m) (auto split: option.splits)

text \<open>
  C12: A lost wake-up is reachable: after the steps above the queue holds an item and the receiver
  is parked on that queue without a deadline, and it stays parked whatever number of ticks,
  scheduling decisions and turns of the idle task follow. A wake-up is given to any one waiter of
  the queue, and a sender and a receiver can be parked on one queue at once.
\<close>

theorem queue_wake_up_lost:
  assumes "exec (lost_trace @ later) (boot 100 () [one_slot]) = Some m" "set later \<subseteq> {Tick, Schedule, Yield}"
  shows "t_state (s_tasks (m_sched m) ! 3) = REFLEX_TASK_STATE_BLOCKED \<and> \<not> wake_deadline_valid (s_tasks (m_sched m) ! 3)
    \<and> m_pending m 3 = Some \<lparr>w_queue = 0, w_item = None, w_forever = True, w_deadline = 0\<rparr>
    \<and> reflex_kqueue_count (Some (m_queues m ! 0)) = 1"
proof -
  obtain m0 where "exec lost_trace (boot 100 () [one_slot]) = Some m0" "starved m0" using starved_after by blast
  then have st: "starved m" using starved_exec [of m0 later m] assms by (simp add: exec_append)
  then have "length (m_queues m) = 1" "map (\<lambda>q. reflex_kqueue_count (Some q)) (m_queues m) ! 0 = 1"
    unfolding starved_def by (auto dest: arg_cong [where f = length])
  moreover have "starved_slot 3 (s_tasks (m_sched m) ! 3)" using st by (simp add: starved_def)
  ultimately show ?thesis using st by (simp add: starved_def starved_slot_def)
qed

theorem queue_wake_up_lost_witness:
  "\<exists>m. exec (lost_trace @ [Schedule, Tick, Yield, Schedule]) (boot 100 () [one_slot]) = Some m
    \<and> t_state (s_tasks (m_sched m) ! 3) = REFLEX_TASK_STATE_BLOCKED"
proof -
  have "exec (lost_trace @ [Schedule, Tick, Yield, Schedule]) (boot 100 () [one_slot]) \<noteq> None"
    unfolding lost_trace_def one_slot_def by code_simp
  then obtain m where m: "exec (lost_trace @ [Schedule, Tick, Yield, Schedule]) (boot 100 () [one_slot]) = Some m" by blast
  from queue_wake_up_lost [OF m] show ?thesis using m by simp
qed

section \<open>Sixteen decisions\<close>

text \<open>The state of the lost wake-up, after one more turn of the idle task, keeps that task contending.\<close>

lemma exec_reachable: "exec acts m = Some m' \<Longrightarrow> reachable m \<Longrightarrow> reachable m'"
  by (induction acts arbitrary: m) (auto split: option.splits intro: reachable.intros(2) simp del: step.simps)

definition idling :: "(unit, nat) machine \<Rightarrow> bool" where
  "idling m \<longleftrightarrow> reachable m \<and> starved m \<and> \<not> m_in_task m \<and> m_pending m 0 = None"

lemma idling_turn:
  assumes "idling m"
  shows "\<exists>m1 m2. (s_current (m_sched m) = Some 0 \<longrightarrow> contends 0 (m_sched m)) \<and> step Schedule m = Some m1 \<and> step Yield m1 = Some m2
    \<and> idling m2 \<and> s_current (m_sched m2) = Some 0"
proof -
  have m: "reachable m" "starved m" "\<not> m_in_task m" "m_pending m 0 = None" using assms by (simp_all add: idling_def)
  have l: "length (s_tasks (m_sched m)) = 16" "s_started (m_sched m)" "\<And>i. i < 16 \<Longrightarrow> starved_slot i (s_tasks (m_sched m) ! i)"
    using m(2) by (simp_all add: starved_def)
  have "t_state (s_tasks (m_sched m) ! 0) \<noteq> REFLEX_TASK_STATE_RUNNING"
    using reachable_ok [OF m(1)] m(3) by (simp add: machine_ok_def sched_ok_def running_ok_def)
  then have r0: "t_state (s_tasks (m_sched m) ! 0) = REFLEX_TASK_STATE_READY" using l(3) [of 0] by (simp add: starved_slot_def)
  have only: "i = 0" if "i < 16" "t_state (s_tasks (m_sched m) ! i) = REFLEX_TASK_STATE_READY" for i
    using l(3) [OF that(1)] that(2) by (auto simp: starved_slot_def split: if_splits)
  obtain r s1 where p: "pick_next (m_sched m) = (r, s1)" by (metis surj_pair)
  note k = starved_select [OF m(2) p]
  have c: "s_current s1 = Some 0" if "s_current (m_sched m) = Some 0"
  proof -
    have "fst (reflex_sched_reap ts live) ! 0 = cleared (ts ! 0)" if "ts \<noteq> []" for ts :: "unit reflex_tcb list" and live
      using that by (cases ts) (auto simp: cleared_def split: prod.split)
    from this [of "s_tasks (m_sched m)" "s_stacks (m_sched m)"] have "t_state (fst (reflex_sched_reap (s_tasks (m_sched m)) (s_stacks (m_sched m))) ! 0) \<noteq> REFLEX_TASK_STATE_FREE"
      using l(1) r0 by fastforce
    then show ?thesis using p that by (auto simp: pick_next_def Let_def split: prod.splits)
  qed
  have ct: "contends 0 (m_sched m)" if "s_current (m_sched m) = Some 0" using k c [OF that] that l(1) r0 only by (auto simp: contends_def p)
  have ne: "s_tasks (m_sched m) \<noteq> []" "s_tasks s1 \<noteq> []" using l(1) k by auto
  have r: "r = Some 0"
    using k select_order [OF ne(2), of "scan_start s1", folded pick_select [OF ne(1) p]] r0 l(1) by (auto simp: ready_def split: option.splits)
  define m1 where "m1 = schedule m"
  have s: "step Schedule m = Some m1" "m_in_task m1" "s_current (m_sched m1) = Some 0" "m_pending m1 0 = None"
    using m(3,4) l(2) p r by (auto simp: m1_def schedule_def dispatch_def)
  have st1: "starved m1" "reachable m1" using starved_step [OF m(2) _ s(1)] reachable.intros(2) [OF m(1) s(1)] by simp_all
  define m2 where "m2 = after_call m1 (reflex_sched_yield (m_sched m1))"
  have y: "step Yield m1 = Some m2" using s(2-4) by (simp add: m2_def may_call_def)
  have "starved m2" "reachable m2" using starved_step [OF st1(1) _ y] reachable.intros(2) [OF st1(2) y] by simp_all
  moreover have "\<not> m_in_task m2" "s_current (m_sched m2) = Some 0" "m_pending m2 0 = None"
    using st1(1) s by (simp_all add: m2_def after_call_def reflex_sched_yield_def starved_def)
  ultimately have "idling m2" by (simp add: idling_def)
  then show ?thesis using ct s(1) y \<open>s_current (m_sched m2) = Some 0\<close> by blast
qed

definition idle_turns :: "nat \<Rightarrow> (unit, nat) action list" where
  "idle_turns n = concat (replicate n [Schedule, Yield])"

lemma idling_turns: "idling m \<Longrightarrow> s_current (m_sched m) = Some 0 \<Longrightarrow> kept_contending 0 (idle_turns n) m \<and> length (choices (idle_turns n) m) = n"
proof (induction n arbitrary: m)
  case (Suc n)
  obtain m1 m2 where "contends 0 (m_sched m)" "step Schedule m = Some m1" "step Yield m1 = Some m2" "idling m2" "s_current (m_sched m2) = Some 0"
    using idling_turn [OF Suc.prems(1)] Suc.prems(2) by blast
  then show ?case using Suc.IH [of m2] by (simp add: idle_turns_def del: step.simps)
qed (simp add: idle_turns_def)

theorem round_robin_fair_witness:
  "\<exists>m. reachable m \<and> Some 0 \<in> set (choices (idle_turns 16) m)"
proof -
  obtain m0 where "exec lost_trace (boot 100 () [one_slot]) = Some m0" "starved m0" "\<not> m_in_task m0" "m_pending m0 0 = None"
    using starved_after by blast
  then have "idling m0" using exec_reachable [OF _ reachable.intros(1)] by (auto simp: idling_def)
  then obtain m where m: "idling m" "s_current (m_sched m) = Some 0" using idling_turn by blast
  have "reachable m" using m(1) by (simp add: idling_def)
  then show ?thesis using round_robin_fair [of m 0 "idle_turns 16"] idling_turns [OF m, of 16] by auto
qed

end
