(* ===== verification/Shadow_Atlas.thy ===== *)
theory Shadow_Atlas imports Registry begin

text \<open>
  Coordinates and the hardware catalog. The three makers of coordinates of
  components/goose/goose_runtime.c (seeds, shadow entries, peer phantoms) and the binary search
  of components/goose/goose_shadow_atlas.c. The catalog itself, a generated table of 12738 rows,
  is the argument \<open>shadow_map\<close>; what the search needs of it is its order.
  \<open>reflex_trit_t\<close> is a C enum of int width, so a byte stored in a trit keeps its value.
\<close>

section \<open>Coordinates\<close>

definition goose_make_coord :: "8 word \<Rightarrow> 8 word \<Rightarrow> 8 word \<Rightarrow> tryte9" where
  "goose_make_coord field region cell = [sint field, 0, 0, sint region, 0, 0, sint cell, 0, 0]"

definition goose_make_shadow_coord :: "8 word \<Rightarrow> 8 word \<Rightarrow> 16 word \<Rightarrow> tryte9" where
  "goose_make_shadow_coord field region cell =
     [sint field, 0, 0, sint region, 0, 0, sint cell AND 0xFF, drop_bit 8 (sint cell) AND 0xFF, 1]"

text \<open>The coordinate \<open>goonies_resolve_cell\<close> gives the peer phantom of one counter value.\<close>

definition phantom_coord :: "int \<Rightarrow> tryte9" where
  "phantom_coord ghost_counter =
     [5, 0, 0, 0, 0, 0, ghost_counter AND 0xFF, drop_bit 8 ghost_counter AND 0xFF, -1]"

section \<open>The catalog\<close>

record shadow_node =
  sname :: cstring
  saddr :: u32
  smask :: u32
  sf :: "8 word"
  sr :: "8 word"
  sc :: "16 word"
  stype :: nat

text \<open>The sign of strcmp: the first differing byte decides, a proper prefix is smaller.\<close>

fun strcmp :: "cstring \<Rightarrow> cstring \<Rightarrow> int" where
  "strcmp [] [] = 0"
| "strcmp [] (b # bs) = -1"
| "strcmp (a # as) [] = 1"
| "strcmp (a # as) (b # bs) = (if a = b then strcmp as bs else if a < b then -1 else 1)"

text \<open>What the four out pointers receive.\<close>

type_synonym shadow_hit = "u32 \<times> u32 \<times> tryte9 \<times> nat"

definition shadow_answer :: "shadow_node \<Rightarrow> shadow_hit" where
  "shadow_answer n = (saddr n, smask n, goose_make_shadow_coord (sf n) (sr n) (sc n), stype n)"

text \<open>The loop on \<open>low\<close> and \<open>high\<close>, both C ints.\<close>

function shadow_search :: "shadow_node list \<Rightarrow> cstring \<Rightarrow> int \<Rightarrow> int \<Rightarrow> shadow_hit result" where
  "shadow_search shadow_map name low high =
     (if low \<le> high then
        let mid = low + (high - low) div 2; res = strcmp name (sname (shadow_map ! nat mid)) in
        if res = 0 then Inr (shadow_answer (shadow_map ! nat mid))
        else if res > 0 then shadow_search shadow_map name (mid + 1) high
        else shadow_search shadow_map name low (mid - 1)
      else Inl REFLEX_ERR_NOT_FOUND)"
  by pat_completeness auto

termination by (relation "measure (\<lambda>(_, _, low, high). nat (high - low + 1))") auto

declare shadow_search.simps [simp del]

definition goose_shadow_resolve :: "shadow_node list \<Rightarrow> cstring \<Rightarrow> shadow_hit result" where
  "goose_shadow_resolve shadow_map name = shadow_search shadow_map name 0 (int (length shadow_map) - 1)"

section \<open>The order of names\<close>

lemma strcmp_eq_0 [simp]: "strcmp a b = 0 \<longleftrightarrow> a = b"
  by (induction a b rule: strcmp.induct) auto

lemma strcmp_flip: "strcmp a b < 0 \<longleftrightarrow> 0 < strcmp b a"
  by (induction a b rule: strcmp.induct) auto

lemma strcmp_trans: "strcmp a b < 0 \<Longrightarrow> strcmp b c < 0 \<Longrightarrow> strcmp a c < 0"
proof (induction a b arbitrary: c rule: strcmp.induct)
  case (4 a as b bs)
  then show ?case by (cases c) (auto split: if_splits)
next
  case (2 b bs)
  then show ?case by (cases c) auto
qed auto

definition catalog_sorted :: "shadow_node list \<Rightarrow> bool" where
  "catalog_sorted shadow_map \<longleftrightarrow> sorted_wrt (\<lambda>a b. strcmp (sname a) (sname b) < 0) shadow_map"

lemma catalog_less: "catalog_sorted m \<Longrightarrow> i < j \<Longrightarrow> j < length m \<Longrightarrow> strcmp (sname (m ! i)) (sname (m ! j)) < 0"
  by (simp add: catalog_sorted_def sorted_wrt_iff_nth_less)

lemma strcmp_irrefl [simp]: "strcmp a a = 0"
  by simp

lemma catalog_unique: "catalog_sorted m \<Longrightarrow> i < length m \<Longrightarrow> j < length m \<Longrightarrow> sname (m ! i) = sname (m ! j) \<Longrightarrow> i = j"
  using catalog_less [of m i j] catalog_less [of m j i] by (cases i j rule: linorder_cases) (simp_all del: strcmp_eq_0)

text \<open>Everything left of the window is smaller than the name, everything right of it larger.\<close>

definition narrowed :: "shadow_node list \<Rightarrow> cstring \<Rightarrow> int \<Rightarrow> int \<Rightarrow> bool" where
  "narrowed m name low high \<longleftrightarrow> 0 \<le> low \<and> high < int (length m)
     \<and> (\<forall>i < length m. int i < low \<longrightarrow> strcmp (sname (m ! i)) name < 0)
     \<and> (\<forall>i < length m. high < int i \<longrightarrow> strcmp name (sname (m ! i)) < 0)"

lemma shadow_search_spec:
  assumes "catalog_sorted m" "narrowed m name low high"
  shows "(\<exists>i < length m. sname (m ! i) = name \<and> shadow_search m name low high = Inr (shadow_answer (m ! i)))
    \<or> ((\<forall>i < length m. sname (m ! i) \<noteq> name) \<and> shadow_search m name low high = Inl REFLEX_ERR_NOT_FOUND)"
  using assms
proof (induction m name low high rule: shadow_search.induct)
  case (1 m name low high)
  show ?case
  proof (cases "low \<le> high")
    case False
    have "sname (m ! i) \<noteq> name" if "i < length m" for i
    proof
      assume eq: "sname (m ! i) = name"
      have "int i < low \<or> high < int i" using False by linarith
      with 1(4) that have "strcmp (sname (m ! i)) name < 0 \<or> strcmp name (sname (m ! i)) < 0"
        unfolding narrowed_def by blast
      then show False unfolding eq by (simp only: strcmp_irrefl less_irrefl disj_absorb)
    qed
    with False show ?thesis by (auto simp: shadow_search.simps [of m])
  next
    case True
    define mid where "mid = low + (high - low) div 2"
    define k where "k = nat mid"
    have b: "low \<le> mid" "mid \<le> high" using True by (auto simp: mid_def)
    then have k: "int k = mid" "k < length m" using 1(4) by (auto simp: narrowed_def k_def)
    have unf: "shadow_search m name low high = (let res = strcmp name (sname (m ! k)) in
        if res = 0 then Inr (shadow_answer (m ! k)) else if res > 0 then shadow_search m name (mid + 1) high
        else shadow_search m name low (mid - 1))"
      using True by (subst shadow_search.simps) (simp add: mid_def k_def Let_def)
    show ?thesis
    proof (cases "strcmp name (sname (m ! k))" "0 :: int" rule: linorder_cases)
      case equal
      then show ?thesis using k(2) unf by (auto simp: Let_def)
    next
      case greater
      then have "strcmp (sname (m ! i)) name < 0" if "i < length m" "int i < mid + 1" for i
        using that catalog_less [OF 1(3), of i k] k strcmp_trans strcmp_flip [of "sname (m ! k)" name] by (cases "i = k") auto
      with 1(4) b have "narrowed m name (mid + 1) high" by (auto simp: narrowed_def)
      from 1(1) [OF True mid_def refl _ _ 1(3) this] greater k show ?thesis unfolding unf by (simp add: k_def Let_def less_imp_neq [symmetric] del: strcmp_eq_0)
    next
      case less
      then have "strcmp name (sname (m ! i)) < 0" if "i < length m" "mid - 1 < int i" for i
        using that catalog_less [OF 1(3), of k i] k strcmp_trans by (cases "i = k") auto
      with 1(4) b have "narrowed m name low (mid - 1)" by (auto simp: narrowed_def)
      from 1(2) [OF True mid_def refl _ _ 1(3) this] less k show ?thesis unfolding unf by (simp add: k_def Let_def del: strcmp_eq_0)
    qed
  qed
qed

text \<open>
  C26: the catalog lookup is exact. On a table sorted by name, the binary search answers
  what a walk over the whole table would: the address, mask, shadow coordinate and type of the
  row of that name when there is one, and not-found otherwise.
\<close>

theorem shadow_resolve_exact:
  assumes "catalog_sorted shadow_map"
  shows "goose_shadow_resolve shadow_map name =
    (case find (\<lambda>n. sname n = name) shadow_map of
       None \<Rightarrow> Inl REFLEX_ERR_NOT_FOUND
     | Some n \<Rightarrow> Inr (saddr n, smask n, goose_make_shadow_coord (sf n) (sr n) (sc n), stype n))"
proof -
  have "narrowed shadow_map name 0 (int (length shadow_map) - 1)" by (auto simp: narrowed_def)
  from shadow_search_spec [OF assms this] show ?thesis
  proof (elim disjE exE conjE)
    fix i assume i: "i < length shadow_map" "sname (shadow_map ! i) = name"
      and hit: "shadow_search shadow_map name 0 (int (length shadow_map) - 1) = Inr (shadow_answer (shadow_map ! i))"
    have "find (\<lambda>n. sname n = name) shadow_map = Some (shadow_map ! i)"
      unfolding find_Some_iff using i catalog_unique [OF assms] by (metis order.strict_trans less_irrefl)
    with hit show ?thesis by (simp add: goose_shadow_resolve_def shadow_answer_def)
  next
    assume none: "\<forall>i < length shadow_map. sname (shadow_map ! i) \<noteq> name"
      and miss: "shadow_search shadow_map name 0 (int (length shadow_map) - 1) = Inl REFLEX_ERR_NOT_FOUND"
    have "find (\<lambda>n. sname n = name) shadow_map = None"
      unfolding find_None_iff using none by (auto simp: in_set_conv_nth)
    with miss show ?thesis by (simp add: goose_shadow_resolve_def)
  qed
qed

definition tiny_catalog :: "shadow_node list" where
  "tiny_catalog = [\<lparr>sname = [97], saddr = 0x60091000, smask = 1, sf = 1, sr = 0, sc = 300, stype = 2\<rparr>,
     \<lparr>sname = [97, 98], saddr = 0x60091004, smask = 3, sf = 1, sr = 0, sc = 301, stype = 2\<rparr>,
     \<lparr>sname = [98], saddr = 0x60007000, smask = 7, sf = -1, sr = 2, sc = 5, stype = 1\<rparr>]"

theorem shadow_resolve_exact_witness:
  "goose_shadow_resolve tiny_catalog [97, 98] = Inr (0x60091004, 3, [1, 0, 0, 0, 0, 0, 45, 1, 1], 2)"
proof -
  have "catalog_sorted tiny_catalog" by (simp add: catalog_sorted_def tiny_catalog_def)
  from shadow_resolve_exact [OF this, of "[97, 98]"] show ?thesis
    by (simp add: tiny_catalog_def goose_make_shadow_coord_def)
qed

section \<open>Coordinate namespaces\<close>

lemma word_sint_inject: "sint a = sint b \<longleftrightarrow> a = b" for a b :: "'a :: len word"
  by (auto intro: signed_word_eqI)

lemma word_int_mod: "sint c mod 2 ^ 16 = sint d mod 2 ^ 16 \<longleftrightarrow> c = d" for c d :: "16 word"
proof -
  have "sint x mod 2 ^ 16 = uint x" for x :: "16 word"
    using take_bit_signed_take_bit [of 16 15 "uint x"] uint_lt2p [of x]
    by (simp add: sint_uint take_bit_eq_mod)
  then show ?thesis by (simp only: word_uint_eq_iff)
qed

text \<open>Two bytes carry a 16-bit number.\<close>

lemma two_bytes:
  fixes x y :: int
  shows "x AND 0xFF = y AND 0xFF \<and> drop_bit 8 x AND 0xFF = drop_bit 8 y AND 0xFF \<longleftrightarrow> x mod 2 ^ 16 = y mod 2 ^ 16"
proof -
  have m: "z AND 0xFF = z mod 256" for z :: int
    using take_bit_eq_mask [of 8 z] by (simp add: mask_eq_exp_minus_1 take_bit_eq_mod)
  have "z mod 2 ^ 16 = 256 * (z div 256 mod 256) + z mod 256" for z :: int
    using zmod_zmult2_eq [of 256 z 256] by simp
  moreover have "z div 256 mod 256 = z mod 2 ^ 16 div 256" "z mod 256 = z mod 2 ^ 16 mod 256" for z :: int
    by (simp_all add: zmod_zmult2_eq [of 256 z 256, simplified])
  moreover have "drop_bit 8 z = z div 256" for z :: int by (simp add: drop_bit_eq_div)
  ultimately show ?thesis unfolding m by metis
qed

text \<open>
  The three coordinate namespaces never meet. A shadow coordinate differs from every
  seed coordinate and from every phantom coordinate, and a seed from every phantom; seeds are
  told apart by all three indexes, shadow entries by field, region and the full 16-bit cell
  index, and phantoms by their counter modulo 65536.
\<close>

theorem coordinate_namespaces:
  "\<not> goose_coord_equal (goose_make_shadow_coord f r c) (goose_make_coord f' r' c')
   \<and> \<not> goose_coord_equal (goose_make_shadow_coord f r c) (phantom_coord g)
   \<and> \<not> goose_coord_equal (goose_make_coord f' r' c') (phantom_coord g)
   \<and> (goose_coord_equal (goose_make_coord f' r' c') (goose_make_coord f2 r2 c2) \<longleftrightarrow> f' = f2 \<and> r' = r2 \<and> c' = c2)
   \<and> (goose_coord_equal (goose_make_shadow_coord f r c) (goose_make_shadow_coord f3 r3 c3) \<longleftrightarrow> f = f3 \<and> r = r3 \<and> c = c3)
   \<and> (goose_coord_equal (phantom_coord g) (phantom_coord h) \<longleftrightarrow> g mod 2 ^ 16 = h mod 2 ^ 16)"
proof -
  have u: "[0..<9] = [0, 1, 2, 3, 4, 5, 6, 7, 8]" by (simp add: upt_rec)
  note defs = goose_coord_equal_def u goose_make_shadow_coord_def goose_make_coord_def phantom_coord_def
  have ph: "goose_coord_equal (phantom_coord g) (phantom_coord h) \<longleftrightarrow> g mod 2 ^ 16 = h mod 2 ^ 16"
    unfolding two_bytes [symmetric] by (simp add: defs)
  have "sint c AND 0xFF = sint c3 AND 0xFF \<and> drop_bit 8 (sint c) AND 0xFF = drop_bit 8 (sint c3) AND 0xFF \<longleftrightarrow> c = c3"
    unfolding two_bytes by (rule word_int_mod)
  then have "goose_coord_equal (goose_make_shadow_coord f r c) (goose_make_shadow_coord f3 r3 c3) \<longleftrightarrow> f = f3 \<and> r = r3 \<and> c = c3"
    by (simp add: defs word_sint_inject)
  then show ?thesis unfolding ph by (simp add: defs word_sint_inject)
qed

end
