(* ===== verification/Goonies.thy ===== *)
theory Goonies imports Shadow_Atlas begin

text \<open>
  The name service of components/goose/goose_runtime.c over the registry of
  \<open>Registry\<close>: registration with its protected namespaces, resolution, and the walk by index.
  Callers may bind two names to one coordinate, so what is proved here rests on the part of the
  registry's invariant that survives it (\<open>names_ok\<close>): the map from names is exact, the coordinate
  index finds one of the entries of a coordinate or none.
\<close>

section \<open>What the build fixes\<close>

text \<open>
  The limits and the task priorities of include/reflex_tuning.h, overridable at build time, and the
  catalog linked in.
  \<open>build_ok\<close> is what the static assertions of goose_runtime.c check.
\<close>

record build =
  fabric_max :: nat
  lattice_buckets :: nat
  registry_buckets :: nat
  shadow_map :: "shadow_node list"
  REFLEX_PULSE_BASE_PRIORITY :: int
  REFLEX_PULSE_PURPOSE_BOOST :: int
  REFLEX_PULSE_HEBBIAN_BOOST :: int
  REFLEX_PULSE_PAIN_PENALTY :: int
  REFLEX_PULSE_MAX_PRIORITY :: int

definition build_ok :: "build \<Rightarrow> bool" where
  "build_ok b \<longleftrightarrow> 0 < fabric_max b \<and> registry_buckets b > fabric_max b \<and> lattice_buckets b > fabric_max b
     \<and> fabric_max b \<le> 32767"

definition c_str :: "string \<Rightarrow> cstring" where "c_str s = map of_char s"

definition GOOSE_NS_SYS :: cstring where "GOOSE_NS_SYS = c_str ''sys.''"
definition GOOSE_NS_AGENCY :: cstring where "GOOSE_NS_AGENCY = c_str ''agency.''"
definition GOOSE_NS_PEER :: cstring where "GOOSE_NS_PEER = c_str ''peer.''"

text \<open>\<open>strncmp(name, ns, NS_LEN) == 0\<close>.\<close>

definition in_ns :: "cstring \<Rightarrow> cstring \<Rightarrow> bool" where
  "in_ns name ns \<longleftrightarrow> strncmp_eq name ns (length ns)"

section \<open>Operations\<close>

text \<open>
  The registry starts as zeroed memory: a NULL entry array, the empty list here. Operations
  that only read give the same answer on it as on the table the initialiser makes.
\<close>

definition registry_zero :: goose_registry where
  "registry_zero = \<lparr>entries = [], capacity = 0, count = 0, by_name = [], by_coord = [], buckets = 0\<rparr>"

definition goonies_ensure_init :: "build \<Rightarrow> goose_registry \<Rightarrow> goose_registry" where
  "goonies_ensure_init b reg =
     (if entries reg = [] then
        goose_registry_init (replicate (fabric_max b) zero_entry) (fabric_max b)
          (replicate (registry_buckets b) 0) (replicate (registry_buckets b) 0) (registry_buckets b)
      else reg)"

definition goonies_register ::
    "build \<Rightarrow> goose_registry \<Rightarrow> cstring option \<Rightarrow> tryte9 \<Rightarrow> bool \<Rightarrow> unit result \<times> goose_registry" where
  "goonies_register b reg0 name c is_system_weaving =
     (let reg = goonies_ensure_init b reg0 in
      if count reg \<ge> fabric_max b then (Inl REFLEX_ERR_NO_MEM, reg)
      else case name of
        None \<Rightarrow> (Inl REFLEX_ERR_INVALID_ARG, reg)
      | Some n \<Rightarrow>
          if length n < 3 \<or> length n \<ge> GOOSE_REGISTRY_NAME_MAX then (Inl REFLEX_ERR_INVALID_ARG, reg)
          else
            let idx = goose_registry_find_name reg n;
                in_shadow = (\<not> is_system_weaving \<and> \<not> isl (goose_shadow_resolve (shadow_map b) n));
                is_protected = (in_ns n GOOSE_NS_SYS \<or> in_ns n GOOSE_NS_AGENCY \<or> in_shadow)
            in if idx \<noteq> EMPTY then
                 (if is_protected \<and> \<not> is_system_weaving then (Inl REFLEX_ERR_INVALID_STATE, reg)
                  else (Inr (), goose_registry_set_coord reg idx c))
               else if (in_shadow \<or> is_protected) \<and> \<not> is_system_weaving then (Inl REFLEX_ERR_NOT_SUPPORTED, reg)
               else (case goose_registry_add reg n c of (i, r) \<Rightarrow>
                       if i = EMPTY then (Inl REFLEX_ERR_NO_MEM, r) else (Inr (), r)))"

definition goonies_resolve :: "build \<Rightarrow> goose_registry \<Rightarrow> cstring \<Rightarrow> tryte9 result" where
  "goonies_resolve b reg0 name =
     (let reg = goonies_ensure_init b reg0; idx = goose_registry_find_name reg name in
      if idx = EMPTY then Inl REFLEX_ERR_NOT_FOUND else Inr (ecoord (entries reg ! nat idx)))"

definition goonies_resolve_name_by_coord :: "build \<Rightarrow> goose_registry \<Rightarrow> tryte9 \<Rightarrow> cstring option" where
  "goonies_resolve_name_by_coord b reg0 c =
     (let reg = goonies_ensure_init b reg0; idx = goose_registry_find_coord reg c in
      if idx = EMPTY then None else Some (ename (entries reg ! nat idx)))"

definition goonies_get_count :: "goose_registry \<Rightarrow> nat" where "goonies_get_count reg = count reg"

definition goonies_get_name_by_idx :: "goose_registry \<Rightarrow> nat \<Rightarrow> cstring option" where
  "goonies_get_name_by_idx reg idx = (if idx < count reg then Some (ename (entries reg ! idx)) else None)"

definition goonies_get_coord_by_idx :: "goose_registry \<Rightarrow> nat \<Rightarrow> tryte9" where
  "goonies_get_coord_by_idx reg idx = (if idx < count reg then ecoord (entries reg ! idx) else replicate 9 0)"

section \<open>The registry under aliases\<close>

lemma names_okD:
  assumes "names_ok reg"
  shows "count reg \<le> capacity reg" "count reg < buckets reg" "capacity reg \<le> 32767" "length (entries reg) = capacity reg"
    "names_fit reg" "index_ok reg KEY_NAME (by_name reg) (reg_live reg)" "\<exists>S. index_ok reg KEY_COORD (by_coord reg) S"
  using assms by (auto simp: names_ok_def)

lemma nth_len: "names_ok reg \<Longrightarrow> i < count reg \<Longrightarrow> i < length (entries reg)"
  using names_okD(1,4) by fastforce

lemma live_int [simp]: "reg_live reg (int i) \<longleftrightarrow> i < count reg"
  by (auto simp: reg_live_def)

lemma find_coord_sound:
  assumes "names_ok reg" "goose_registry_find_coord reg c \<noteq> EMPTY"
  obtains i where "goose_registry_find_coord reg c = int i" "i < count reg" "goose_coord_equal (ecoord (entries reg ! i)) c"
proof -
  define v where "v = goose_registry_find_coord reg c"
  obtain S where S: "index_ok reg KEY_COORD (by_coord reg) S" using names_okD(7) [OF assms(1)] by blast
  from index_find [OF S names_okD(5) [OF assms(1)], of "Coord_key c" v] assms(2) v_def
  have v: "S v" "goose_coord_equal (ecoord (entries reg ! nat v)) c"
    by (auto simp: rkey_def goose_registry_find_coord_def coord_equal_key)
  with index_live [OF S] obtain i where i: "v = int i" "i < count reg" by (auto simp: live_bounds)
  with v(2) have "goose_coord_equal (ecoord (entries reg ! i)) c" by simp
  from that [OF _ i(2) this] i(1) v_def show ?thesis by simp
qed

lemma weak_add:
  assumes ok: "names_ok reg" and room: "count reg < capacity reg" and fits: "length name < GOOSE_REGISTRY_NAME_MAX"
    and fresh: "resolve reg name = None"
  obtains r where "goose_registry_add reg name c = (int (count reg), r)" "names_ok r"
    "count r = count reg + 1" "entries r = (entries reg)[count reg := \<lparr>ename = name, ecoord = c\<rparr>]"
    "capacity r = capacity reg" "buckets r = buckets reg"
proof -
  let ?i = "int (count reg)" and ?e = "\<lparr>ename = name, ecoord = c\<rparr>"
  define r1 where "r1 = reg\<lparr>entries := (entries reg)[count reg := ?e], count := count reg + 1\<rparr>"
  define r where "r = index_entry r1 ?i"
  note P = names_okD [OF ok]
  have len: "count reg < length (entries reg)" using room P(4) by simp
  have get: "entries r1 ! j = (if j = count reg then ?e else entries reg ! j)" for j
    using len by (simp add: r1_def nth_list_update)
  have f: "count r1 = count reg + 1" "buckets r1 = buckets reg" "by_name r1 = by_name reg" "by_coord r1 = by_coord reg"
    by (simp_all add: r1_def)
  have live1: "reg_live r1 v \<longleftrightarrow> v = ?i \<or> reg_live reg v" for v by (auto simp: reg_live_def f)
  have old: "rkey (entries r1) kind v = rkey (entries reg) kind v" if "reg_live reg v" for kind v
    using that by (auto simp: rkey_def get reg_live_def)
  have nf: "names_fit r1" using P(5) fits by (auto simp: names_fit_def get f less_Suc_eq)
  have b: "count r1 < buckets r1" using ok room by (simp add: names_ok_def f)
  have li: "reg_live r1 ?i" by (simp add: f)
  have n1: "index_ok r1 KEY_NAME (by_name r1) (reg_live reg)"
    unfolding f by (rule index_cong [OF P(6)]) (auto simp: f live1 old)
  have "rkey (entries r1) KEY_NAME u \<noteq> rkey (entries r1) KEY_NAME ?i" if "reg_live reg u" for u
    using fresh names_resolve_None [OF ok] that by (auto simp: rkey_def get reg_live_def)
  from index_insert [OF n1 nf b li this] live1
  have "index_ok r1 KEY_NAME (by_name r) (reg_live r1)"
    by (auto simp: r_def index_entry_def intro: index_weaken)
  moreover obtain S where S: "index_ok reg KEY_COORD (by_coord reg) S" using P(7) by blast
  have "index_ok r1 KEY_COORD (by_coord r1) S"
    unfolding f by (rule index_cong [OF S]) (use index_live [OF S] in \<open>auto simp: f live1 old\<close>)
  from index_insert_key [OF this nf b li] have "\<exists>S. index_ok r1 KEY_COORD (by_coord r) S"
    by (auto simp: r_def index_entry_def)
  moreover have e: "entries r = entries r1" "count r = count r1" "buckets r = buckets r1" "capacity r = capacity reg"
    by (simp_all add: r_def r1_def)
  ultimately have "names_ok r"
    using ok room nf P(4) len by (simp add: names_ok_def index_ok_only [OF e(1-3)] e names_fit_def reg_live_def [abs_def])
      (simp add: r1_def)
  moreover have "goose_registry_add reg name c = (?i, r)"
    using room fits P(1,3) by (simp add: goose_registry_add_def idx16_small Let_def r_def r1_def)
  moreover have "entries r = (entries reg)[count reg := ?e]" by (simp add: e r1_def)
  ultimately show ?thesis using that e f by simp
qed

lemma weak_set_coord:
  assumes ok: "names_ok reg" and i: "i < count reg" and differs: "\<not> goose_coord_equal (ecoord (entries reg ! i)) c"
  obtains r where "goose_registry_set_coord reg (int i) c = r" "names_ok r" "count r = count reg"
    "entries r = (entries reg)[i := (entries reg ! i)\<lparr>ecoord := c\<rparr>]" "capacity r = capacity reg" "buckets r = buckets reg"
proof -
  let ?es = "(entries reg)[i := (entries reg ! i)\<lparr>ecoord := c\<rparr>]"
  note P = names_okD [OF ok]
  have len: "i < length (entries reg)" by (rule nth_len [OF ok i])
  define cs where "cs = idx_remove reg (by_coord reg) (key_of reg (int i) KEY_COORD) KEY_COORD"
  define r2 where "r2 = reg\<lparr>by_coord := cs, entries := ?es\<rparr>"
  define r where "r = r2\<lparr>by_coord := idx_insert r2 (by_coord r2) (key_of r2 (int i) KEY_COORD) (int i)\<rparr>"
  have f: "entries r2 = ?es" "count r2 = count reg" "buckets r2 = buckets reg" "by_coord r2 = cs" "by_name r2 = by_name reg"
    by (simp_all add: r2_def)
  have live2: "reg_live r2 = reg_live reg" by (rule ext) (simp add: reg_live_def f)
  obtain S where S: "index_ok reg KEY_COORD (by_coord reg) S" using P(7) by blast
  let ?T = "\<lambda>u. S u \<and> rkey (entries reg) KEY_COORD u \<noteq> rkey (entries reg) KEY_COORD (int i)"
  have c0: "index_ok reg KEY_COORD cs ?T" unfolding cs_def by (rule index_remove_key [OF S P(5,2)])
  have c1: "index_ok r2 KEY_COORD (by_coord r2) ?T"
    unfolding f
  proof (rule index_cong [OF c0])
    show "buckets r2 = buckets reg" by (simp add: f)
    show "rkey (entries r2) KEY_COORD v = rkey (entries reg) KEY_COORD v \<and> reg_live r2 v" if "?T v" for v
    proof -
      have l: "reg_live reg v" using that index_live [OF S] by blast
      moreover have "nat v \<noteq> i" using that l by (auto simp: reg_live_def)
      ultimately show ?thesis by (simp add: rkey_def f live2)
    qed
  qed
  have ks: "rkey (entries r2) KEY_NAME v = rkey (entries reg) KEY_NAME v" for v
    using len by (cases "nat v = i") (simp_all add: rkey_def f)
  have n1: "index_ok r2 KEY_NAME (by_name reg) (reg_live reg)"
    by (rule index_cong [OF P(6) f(3)]) (simp only: live2 ks simp_thms)
  have nf: "names_fit r2" using P(5) len by (auto simp: names_fit_def f nth_list_update)
  have "count r2 < buckets r2" "reg_live r2 (int i)" using P(2) i by (simp_all add: f)
  from index_insert_key [OF c1 nf this] have "\<exists>S. index_ok r2 KEY_COORD (by_coord r) S"
    by (auto simp: r_def)
  moreover have e: "entries r = entries r2" "count r = count r2" "buckets r = buckets r2" "capacity r = capacity reg" "by_name r = by_name reg"
    by (simp_all add: r_def) (simp_all add: r2_def)
  ultimately have "names_ok r"
    using ok n1 nf by (simp add: names_ok_def index_ok_only [OF e(1-3)] e f names_fit_def reg_live_def [abs_def])
  moreover have "goose_registry_set_coord reg (int i) c = r"
    using i differs by (simp add: goose_registry_set_coord_def Let_def r_def r2_def cs_def)
  ultimately show ?thesis using that e f by simp
qed

text \<open>One index through the swap-with-last removal of entry \<open>i\<close>.\<close>

definition swap_remove :: "goose_registry \<Rightarrow> nat \<Rightarrow> goose_registry" where
  "swap_remove reg i =
     (let l = count reg - 1; r1 = unindex_entry reg (int i) in
      if i \<noteq> l then
        index_entry ((unindex_entry r1 (int l))\<lparr>entries := (entries reg)[i := entries reg ! l], count := l\<rparr>) (int i)
      else r1\<lparr>count := l\<rparr>)"

lemma swap_remove_frame [simp]:
  "count (swap_remove reg i) = count reg - 1" "buckets (swap_remove reg i) = buckets reg" "capacity (swap_remove reg i) = capacity reg"
  "entries (swap_remove reg i) = (if i \<noteq> count reg - 1 then (entries reg)[i := entries reg ! (count reg - 1)] else entries reg)"
  by (simp_all add: swap_remove_def Let_def)

lemma swap_remove_slots:
  "slots_of (swap_remove reg i) kind =
     (let s1 = idx_remove reg (slots_of reg kind) (key_of reg (int i) kind) kind; l = count reg - 1 in
      if i \<noteq> l then
        let r1 = unindex_entry reg (int i);
            s2 = idx_remove r1 s1 (key_of r1 (int l) kind) kind;
            r3 = (unindex_entry r1 (int l))\<lparr>entries := (entries reg)[i := entries reg ! l], count := l\<rparr>
        in idx_insert r3 s2 (key_of r3 (int i) kind) (int i)
      else s1)"
  by (cases kind) (simp_all add: swap_remove_def Let_def index_entry_def unindex_entry_def)

lemma swap_remove_index:
  assumes S: "index_ok reg kind (slots_of reg kind) S" and nf: "names_fit reg" and b: "count reg < buckets reg"
    and i: "i < count reg" "count reg \<le> length (entries reg)"
  shows "index_ok (swap_remove reg i) kind (slots_of (swap_remove reg i) kind)
    (\<lambda>u. (i \<noteq> count reg - 1 \<and> u = int i) \<or> S u \<and> rkey (entries reg) kind u \<noteq> rkey (entries reg) kind (int i)
          \<and> rkey (entries reg) kind u \<noteq> rkey (entries reg) kind (int (count reg - 1)))"
proof -
  let ?l = "count reg - 1" and ?key = "rkey (entries reg) kind"
  define s1 where "s1 = idx_remove reg (slots_of reg kind) (key_of reg (int i) kind) kind"
  have i1: "index_ok reg kind s1 (\<lambda>u. S u \<and> ?key u \<noteq> ?key (int i))"
    unfolding s1_def by (rule index_remove_key [OF S nf b])
  show ?thesis
  proof (cases "i = ?l")
    case True
    have "index_ok (swap_remove reg i) kind s1 (\<lambda>u. S u \<and> ?key u \<noteq> ?key (int i))"
    proof (rule index_cong [OF i1])
      show "rkey (entries (swap_remove reg i)) kind v = ?key v \<and> reg_live (swap_remove reg i) v"
        if "S v \<and> ?key v \<noteq> ?key (int i)" for v
      proof -
        from that index_live [OF S] obtain j where j: "v = int j" "j < count reg" by (auto simp: live_bounds)
        with that True have "j \<noteq> ?l" by auto
        with j True show ?thesis by simp
      qed
    qed simp
    moreover have "slots_of (swap_remove reg i) kind = s1" using True by (simp add: swap_remove_slots s1_def Let_def)
    ultimately show ?thesis using True by (auto intro: index_weaken)
  next
    case False
    define r1 where "r1 = unindex_entry reg (int i)"
    define r3 where "r3 = (unindex_entry r1 (int ?l))\<lparr>entries := (entries reg)[i := entries reg ! ?l], count := ?l\<rparr>"
    define s2 where "s2 = idx_remove r1 s1 (key_of r1 (int ?l) kind) kind"
    let ?T = "\<lambda>u. S u \<and> ?key u \<noteq> ?key (int i) \<and> ?key u \<noteq> ?key (int ?l)"
    have f1: "entries r1 = entries reg" "count r1 = count reg" "buckets r1 = buckets reg" by (simp_all add: r1_def)
    have f3: "entries r3 = (entries reg)[i := entries reg ! ?l]" "count r3 = ?l" "buckets r3 = buckets reg"
      by (simp_all add: r3_def r1_def)
    have "index_ok r1 kind s1 (\<lambda>u. S u \<and> ?key u \<noteq> ?key (int i))" using i1 by (simp add: index_ok_only [OF f1])
    from index_remove_key [OF this, of "int ?l"] nf b have i2: "index_ok r1 kind s2 ?T"
      by (simp add: s2_def f1 names_fit_def conj_assoc)
    have new: "rkey (entries r3) kind (int i) = ?key (int ?l)"
      unfolding rkey_def f3 nat_int using i by simp
    have keep: "rkey (entries r3) kind v = ?key v \<and> reg_live r3 v" if "?T v" for v
    proof -
      from that index_live [OF S] obtain j where j: "v = int j" "j < count reg" by (auto simp: live_bounds)
      with that have "j \<noteq> i" "j \<noteq> ?l" by auto
      with j show ?thesis by (simp add: rkey_def f3)
    qed
    have i3: "index_ok r3 kind s2 ?T" by (rule index_cong [OF i2]) (use keep f1 f3 in simp_all)
    have nf3: "names_fit r3"
      unfolding names_fit_def f3
    proof (intro allI impI)
      fix j assume "j < ?l"
      with nf i show "length (ename ((entries reg)[i := entries reg ! ?l] ! j)) < GOOSE_REGISTRY_NAME_MAX"
        by (cases "j = i") (auto simp: names_fit_def)
    qed
    have "count r3 < buckets r3" "reg_live r3 (int i)" using b i False by (simp_all add: f3)
    from index_insert_key [OF i3 nf3 this]
    have i4: "index_ok r3 kind (idx_insert r3 s2 (key_of r3 (int i) kind) (int i)) (\<lambda>u. u = int i \<or> ?T u \<and> rkey (entries r3) kind u \<noteq> rkey (entries r3) kind (int i))" .
    have sl: "slots_of (swap_remove reg i) kind = idx_insert r3 s2 (key_of r3 (int i) kind) (int i)"
      using False by (simp add: swap_remove_slots s1_def s2_def r1_def r3_def Let_def)
    have e: "entries (swap_remove reg i) = entries r3" "count (swap_remove reg i) = count r3" "buckets (swap_remove reg i) = buckets r3"
      using False by (simp_all add: f3)
    show ?thesis
      unfolding sl index_ok_only [OF e] by (rule index_weaken [OF i4]) (use keep new False in metis)
  qed
qed

lemma weak_remove:
  assumes ok: "names_ok reg" and idx: "goose_registry_find_coord reg c = int i" "i < count reg"
  obtains r where "goose_registry_remove_coord reg c = (True, r)" "names_ok r" "count r = count reg - 1"
    "\<And>j. j < count r \<Longrightarrow> entries r ! j = entries reg ! (if j = i then count reg - 1 else j)"
    "capacity r = capacity reg" "buckets r = buckets reg"
proof -
  note P = names_okD [OF ok]
  let ?l = "count reg - 1"
  define r2 where "r2 = swap_remove reg i"
  define r where "r = r2\<lparr>entries := (entries r2)[?l := zero_entry]\<rparr>"
  have len: "count reg \<le> length (entries reg)" using P(1,4) by simp
  have il: "i \<le> ?l" using idx(2) by linarith
  have ent: "entries r ! j = entries reg ! (if j = i then ?l else j)" if "j < ?l" for j
    using that il len by (auto simp: r_def r2_def)
  have fr: "count r = ?l" "capacity r = capacity reg" "buckets r = buckets reg" "length (entries r) = length (entries reg)"
      "by_name r = by_name r2" "by_coord r = by_coord r2"
    by (simp_all add: r_def r2_def)
  have cong: "\<exists>T. index_ok r kind (slots_of r2 kind) T \<and> (\<forall>u. T u \<longleftrightarrow>
      ((i \<noteq> ?l \<and> u = int i) \<or> S u \<and> rkey (entries reg) kind u \<noteq> rkey (entries reg) kind (int i)
          \<and> rkey (entries reg) kind u \<noteq> rkey (entries reg) kind (int ?l)))"
    if "index_ok reg kind (slots_of reg kind) S" for kind S
  proof (intro exI conjI)
    let ?T = "\<lambda>u. (i \<noteq> ?l \<and> u = int i) \<or> S u \<and> rkey (entries reg) kind u \<noteq> rkey (entries reg) kind (int i)
          \<and> rkey (entries reg) kind u \<noteq> rkey (entries reg) kind (int ?l)"
    have i: "index_ok r2 kind (slots_of r2 kind) ?T"
      unfolding r2_def by (rule swap_remove_index [OF that P(5,2) idx(2) len])
    show "index_ok r kind (slots_of r2 kind) ?T"
    proof (rule index_cong [OF i])
      show "buckets r = buckets r2" by (simp add: r_def)
      show "rkey (entries r) kind v = rkey (entries r2) kind v \<and> reg_live r v" if "?T v" for v
        using index_live [OF i that] unfolding live_bounds by (auto simp: fr rkey_def r_def r2_def)
    qed
    show "\<forall>u. ?T u \<longleftrightarrow> ?T u" by blast
  qed
  have nameq: "rkey (entries reg) KEY_NAME u \<noteq> rkey (entries reg) KEY_NAME (int j) \<longleftrightarrow> u \<noteq> int j"
    if "reg_live reg u" "j < count reg" for u j
    using index_unique [OF P(6) that(1), of "int j"] that(2) by auto
  have "index_ok r KEY_NAME (by_name r) (reg_live r)"
  proof -
    from cong [of KEY_NAME "reg_live reg"] P(6) obtain T where T: "index_ok r KEY_NAME (by_name r) T"
      "\<And>u. T u \<longleftrightarrow> ((i \<noteq> ?l \<and> u = int i) \<or> reg_live reg u \<and> rkey (entries reg) KEY_NAME u \<noteq> rkey (entries reg) KEY_NAME (int i)
          \<and> rkey (entries reg) KEY_NAME u \<noteq> rkey (entries reg) KEY_NAME (int ?l))"
      by (auto simp: fr)
    have "T u \<longleftrightarrow> reg_live r u" for u
    proof -
      have "T u \<longleftrightarrow> ((i \<noteq> ?l \<and> u = int i) \<or> reg_live reg u \<and> u \<noteq> int i \<and> u \<noteq> int ?l)"
        unfolding T(2) using nameq idx(2) by (metis diff_less less_nat_zero_code zero_less_one gr0I)
      also have "\<dots> \<longleftrightarrow> reg_live r u" using il idx(2) by (auto simp: reg_live_def fr)
      finally show ?thesis .
    qed
    with T(1) show ?thesis by (rule index_weaken)
  qed
  moreover have "\<exists>S. index_ok r KEY_COORD (by_coord r) S"
    using P(7) cong [of KEY_COORD] unfolding slots_of.simps fr by blast
  moreover have "names_fit r"
    unfolding names_fit_def fr using ent P(5) idx(2) by (auto simp: names_fit_def)
  ultimately have "names_ok r" using ok P(1,4) by (simp add: names_ok_def fr)
  moreover have "goose_registry_remove_coord reg c = (True, r)"
  proof -
    have "int i \<noteq> EMPTY" "idx16 ?l = int ?l" using P(1,3) by (simp_all add: EMPTY_def idx16_small)
    moreover have "nat (int (count reg) - 1) = count reg - Suc 0" by linarith
    ultimately show ?thesis using idx unfolding goose_registry_remove_coord_def Let_def
      by (simp add: r_def r2_def swap_remove_def Let_def)
  qed
  ultimately show ?thesis using that ent fr by simp
qed

lemma weak_remove_resolve:
  assumes ok: "names_ok reg" "names_ok r" and i: "i < count reg" and c: "count r = count reg - 1"
    and ent: "\<And>j. j < count r \<Longrightarrow> entries r ! j = entries reg ! (if j = i then count reg - 1 else j)"
  shows "resolve r = (resolve reg)(ename (entries reg ! i) := None)"
proof (rule ext)
  fix n
  have "resolve r n = Some x \<longleftrightarrow> resolve reg n = Some x \<and> n \<noteq> ename (entries reg ! i)" for x
  proof
    assume "resolve r n = Some x"
    then obtain j where j: "j < count r" "ename (entries r ! j) = n" "ecoord (entries r ! j) = x"
      unfolding names_resolve_iff [OF ok(2)] live_bounds by auto
    let ?j = "if j = i then count reg - 1 else j"
    have k: "?j < count reg" "?j \<noteq> i" using j(1) c i by (auto split: if_splits)
    then have "n \<noteq> ename (entries reg ! i)"
      using names_unique [OF ok(1), of "int ?j" "int i"] j ent [OF j(1)] i by auto
    with k show "resolve reg n = Some x \<and> n \<noteq> ename (entries reg ! i)"
      unfolding names_resolve_iff [OF ok(1)] using j ent [OF j(1)] by (metis live_int nat_int)
  next
    assume a: "resolve reg n = Some x \<and> n \<noteq> ename (entries reg ! i)"
    then obtain j where j: "j < count reg" "ename (entries reg ! j) = n" "ecoord (entries reg ! j) = x"
      unfolding names_resolve_iff [OF ok(1)] live_bounds by auto
    with a have ji: "j \<noteq> i" by auto
    let ?j = "if j = count reg - 1 then i else j"
    have lt: "?j < count r" using j(1) ji c i by auto
    have "entries r ! ?j = entries reg ! j" using ent [OF lt] ji by auto
    with lt j show "resolve r n = Some x"
      unfolding names_resolve_iff [OF ok(2)] by (metis live_int nat_int)
  qed
  then show "resolve r n = ((resolve reg)(ename (entries reg ! i) := None)) n"
    by (cases "n = ename (entries reg ! i)") (auto intro: same_lookup)
qed

text \<open>
  C3: evicting a coordinate. On a registry whose name index is exact, names may share a coordinate
  (an allocation refused for a collision leaves such an alias). Removal reports whether the
  coordinate index holds the coordinate; if it does, exactly one name is unbound, one that was bound
  to that coordinate, and every other name resolves as before, its aliases and the entry that was
  moved down into the hole included; if not, nothing changes. Where no coordinate is bound twice,
  that stays so and exactly the names bound to the coordinate are unbound.
\<close>

theorem registry_remove_coord_map:
  assumes ok: "names_ok reg"
  shows "let (found, r) = goose_registry_remove_coord reg c in names_ok r
    \<and> found = (goose_registry_find_coord reg c \<noteq> EMPTY) \<and> count r = count reg - (if found then 1 else 0)
    \<and> (if found then \<exists>n x. resolve reg n = Some x \<and> goose_coord_equal x c \<and> resolve r = (resolve reg)(n := None) else r = reg)
    \<and> (registry_ok reg \<longrightarrow> registry_ok r \<and> (\<forall>n. resolve r n = (case resolve reg n of None \<Rightarrow> None
                          | Some c' \<Rightarrow> if goose_coord_equal c' c then None else Some c')))"
proof -
  have u: "registry_ok reg \<longrightarrow> (case goose_registry_remove_coord reg c of (found, r) \<Rightarrow> registry_ok r
      \<and> (\<forall>n. resolve r n = (case resolve reg n of None \<Rightarrow> None | Some c' \<Rightarrow> if goose_coord_equal c' c then None else Some c')))"
    using remove_coord_unique [of reg c] by (auto simp: Let_def split: prod.splits)
  show ?thesis
  proof (cases "goose_registry_find_coord reg c = EMPTY")
    case True
    then have "goose_registry_remove_coord reg c = (False, reg)" by (auto simp: goose_registry_remove_coord_def Let_def)
    then show ?thesis using ok True u by simp
  next
    case False
    obtain i where i: "goose_registry_find_coord reg c = int i" "i < count reg" "goose_coord_equal (ecoord (entries reg ! i)) c"
      using find_coord_sound [OF ok False] .
    obtain r where r: "goose_registry_remove_coord reg c = (True, r)" "names_ok r" "count r = count reg - 1"
      "\<And>j. j < count r \<Longrightarrow> entries r ! j = entries reg ! (if j = i then count reg - 1 else j)"
      using weak_remove [OF ok i(1,2)] by metis
    have "resolve reg (ename (entries reg ! i)) = Some (ecoord (entries reg ! i))"
      unfolding names_resolve_iff [OF ok] using i(2) by (intro exI [of _ "int i"]) simp
    moreover have "resolve r = (resolve reg)(ename (entries reg ! i) := None)"
      using weak_remove_resolve [OF ok r(2) i(2) r(3,4)] .
    ultimately show ?thesis using u r(1-3) False i(3) by auto
  qed
qed

theorem registry_remove_coord_map_witness:
  "resolve (snd (goose_registry_remove_coord demo1 [1, 0, 0, 0, 0, 0, 0, 0, 0])) [97] = None"
  using registry_remove_coord_map [OF registry_names_ok [OF demo1_facts(1)], of "[1, 0, 0, 0, 0, 0, 0, 0, 0]"] demo1_binds demo1_facts(1)
  by (auto simp: Let_def coord_equal_key split: prod.splits)

section \<open>The name service\<close>

definition goonies_ok :: "build \<Rightarrow> goose_registry \<Rightarrow> bool" where
  "goonies_ok b reg \<longleftrightarrow> names_ok reg \<and> capacity reg = fabric_max b \<and> buckets reg = registry_buckets b
     \<and> (\<forall>i < count reg. length (ecoord (entries reg ! i)) = 9)"

definition protected_name :: "build \<Rightarrow> cstring \<Rightarrow> bool" where
  "protected_name b n \<longleftrightarrow> in_ns n GOOSE_NS_SYS \<or> in_ns n GOOSE_NS_AGENCY \<or> (\<exists>h. goose_shadow_resolve (shadow_map b) n = Inr h)"

lemma goonies_okD:
  assumes "goonies_ok b reg"
  shows "names_ok reg" "capacity reg = fabric_max b" "\<And>i. i < count reg \<Longrightarrow> length (ecoord (entries reg ! i)) = 9"
  using assms by (auto simp: goonies_ok_def)

lemma coord_equal_eq: "length a = 9 \<Longrightarrow> length c = 9 \<Longrightarrow> goose_coord_equal a c \<longleftrightarrow> a = c"
  by (auto simp: goose_coord_equal_def list_all_iff intro!: nth_equalityI)

lemma ensure_init_id: "build_ok b \<Longrightarrow> goonies_ok b reg \<Longrightarrow> goonies_ensure_init b reg = reg"
  by (auto simp: goonies_ensure_init_def goonies_ok_def names_ok_def build_ok_def)

lemma init_goonies_ok:
  assumes "build_ok b" "length es = fabric_max b" "length ns = registry_buckets b" "length cs = registry_buckets b"
  defines "r \<equiv> goose_registry_init es (fabric_max b) ns cs (registry_buckets b)"
  shows "goonies_ok b r" "resolve r = Map.empty" "count r = 0"
proof -
  have "registry_ok r" "resolve r = Map.empty"
    unfolding r_def using assms by (intro registry_init_ok; simp add: build_ok_def)+
  then show "goonies_ok b r" "resolve r = Map.empty"
    by (simp_all add: goonies_ok_def registry_names_ok) (simp_all add: r_def goose_registry_init_def)
  show "count r = 0" by (simp add: r_def goose_registry_init_def)
qed

lemma resolve_nat_iff:
  "names_ok reg \<Longrightarrow> resolve reg n = Some x \<longleftrightarrow> (\<exists>i < count reg. ename (entries reg ! i) = n \<and> ecoord (entries reg ! i) = x)"
  unfolding names_resolve_iff live_bounds by auto

lemma resolve_Some:
  "names_ok reg \<Longrightarrow> i < count reg \<Longrightarrow> ename (entries reg ! i) = n \<Longrightarrow> resolve reg n = Some (ecoord (entries reg ! i))"
  using names_resolve_iff [of reg n] by (metis live_int nat_int)

text \<open>Binding a name, whether or not it was there.\<close>

lemma register_add:
  assumes ok: "goonies_ok b reg" and room: "count reg < fabric_max b" and fits: "length n < GOOSE_REGISTRY_NAME_MAX"
    and fresh: "goose_registry_find_name reg n = EMPTY" and c: "length c = 9"
  obtains r where "goose_registry_add reg n c = (int (count reg), r)" "goonies_ok b r"
    "resolve r = (resolve reg)(n \<mapsto> c)" "count r = count reg + 1"
proof -
  note P = goonies_okD [OF ok]
  have f: "resolve reg n = None" using fresh by (simp add: resolve_def)
  from room P(2) have room': "count reg < capacity reg" by simp
  obtain r where r: "goose_registry_add reg n c = (int (count reg), r)" "names_ok r" "count r = count reg + 1"
    "entries r = (entries reg)[count reg := \<lparr>ename = n, ecoord = c\<rparr>]" "capacity r = capacity reg" "buckets r = buckets reg"
    using weak_add [OF P(1) room' fits f] .
  have len: "count reg < length (entries reg)" using room' names_okD(4) [OF P(1)] by simp
  have ent: "entries r ! j = (if j = count reg then \<lparr>ename = n, ecoord = c\<rparr> else entries reg ! j)" for j
    using len by (simp add: r(4) nth_list_update)
  have "goonies_ok b r"
    unfolding goonies_ok_def r(3) using ok r(2,5,6) P(3) c ent by (auto simp: goonies_ok_def less_Suc_eq)
  moreover have "resolve r = (resolve reg)(n \<mapsto> c)"
  proof (rule ext, rule same_lookup)
    fix m x
    show "resolve r m = Some x \<longleftrightarrow> ((resolve reg)(n \<mapsto> c)) m = Some x"
    proof (cases "m = n")
      case True
      then show ?thesis using resolve_Some [OF r(2), of "count reg" n] r(3) ent by simp
    next
      case False
      then have "resolve r m = Some x \<longleftrightarrow> resolve reg m = Some x"
        unfolding resolve_nat_iff [OF r(2)] resolve_nat_iff [OF P(1)]
        using False r(3) by (auto simp: less_Suc_eq ent cong: conj_cong) (metis nat_less_le)
      with False show ?thesis by simp
    qed
  qed
  ultimately show ?thesis using that r by blast
qed

lemma register_set:
  assumes ok: "goonies_ok b reg" and found: "goose_registry_find_name reg n = idx" "idx \<noteq> EMPTY" and c: "length c = 9"
  shows "goonies_ok b (goose_registry_set_coord reg idx c)"
    "resolve (goose_registry_set_coord reg idx c) = (resolve reg)(n \<mapsto> c)"
    "count (goose_registry_set_coord reg idx c) = count reg"
proof -
  note P = goonies_okD [OF ok]
  let ?r = "goose_registry_set_coord reg idx c"
  from found names_find_iff [OF P(1), of n idx] obtain i where i: "idx = int i" "i < count reg" "ename (entries reg ! i) = n"
    by (auto simp: live_bounds)
  have res: "resolve reg n = Some (ecoord (entries reg ! i))" by (rule resolve_Some [OF P(1) i(2,3)])
  have len: "i < length (entries reg)" by (rule nth_len [OF P(1) i(2)])
  have "goonies_ok b ?r \<and> resolve ?r = (resolve reg)(n \<mapsto> c) \<and> count ?r = count reg"
  proof (cases "goose_coord_equal (ecoord (entries reg ! i)) c")
    case True
    then have "ecoord (entries reg ! i) = c" using coord_equal_eq P(3) [OF i(2)] c by blast
    moreover have "?r = reg" using True i by (simp add: goose_registry_set_coord_def)
    ultimately show ?thesis using ok res by auto
  next
    case False
    obtain r where r: "goose_registry_set_coord reg (int i) c = r" "names_ok r" "count r = count reg"
      "entries r = (entries reg)[i := (entries reg ! i)\<lparr>ecoord := c\<rparr>]" "capacity r = capacity reg" "buckets r = buckets reg"
      using weak_set_coord [OF P(1) i(2) False] .
    have ent: "entries r ! j = (if j = i then (entries reg ! i)\<lparr>ecoord := c\<rparr> else entries reg ! j)" for j
      using len by (simp add: r(4) nth_list_update)
    have "goonies_ok b r"
      unfolding goonies_ok_def r(3) using ok r(2,5,6) P(3) c ent by (auto simp: goonies_ok_def)
    moreover have "resolve r = (resolve reg)(n \<mapsto> c)"
    proof (rule ext, rule same_lookup)
      fix m x
      show "resolve r m = Some x \<longleftrightarrow> ((resolve reg)(n \<mapsto> c)) m = Some x"
      proof (cases "m = n")
        case True
        then show ?thesis using resolve_Some [OF r(2), of i n] i r(3) ent by simp
      next
        case False
        then have "resolve r m = Some x \<longleftrightarrow> resolve reg m = Some x"
          unfolding resolve_nat_iff [OF r(2)] resolve_nat_iff [OF P(1)]
          using False r(3) i(3) by (auto simp: ent cong: conj_cong)
        with False show ?thesis by simp
      qed
    qed
    ultimately show ?thesis using r i by simp
  qed
  then show "goonies_ok b ?r" "resolve ?r = (resolve reg)(n \<mapsto> c)" "count ?r = count reg" by blast+
qed

lemma goonies_run:
  assumes "build_ok b" "goonies_ok b reg" "length c = 9" "goonies_register b reg name c is_system = (res, r)"
  shows "goonies_ok b r"
    "res = Inr () \<longleftrightarrow> (\<exists>n. name = Some n \<and> count reg < fabric_max b \<and> 3 \<le> length n
          \<and> length n < GOOSE_REGISTRY_NAME_MAX \<and> (is_system \<or> \<not> protected_name b n))"
    "resolve r = (if res = Inr () then (resolve reg)(the name \<mapsto> c) else resolve reg)"
proof -
  have "goonies_ok b r
    \<and> (res = Inr () \<longleftrightarrow> (\<exists>n. name = Some n \<and> count reg < fabric_max b \<and> 3 \<le> length n
          \<and> length n < GOOSE_REGISTRY_NAME_MAX \<and> (is_system \<or> \<not> protected_name b n)))
    \<and> resolve r = (if res = Inr () then (resolve reg)(the name \<mapsto> c) else resolve reg)"
  proof (cases name)
    case None
    then show ?thesis using assms by (auto simp: goonies_register_def ensure_init_id split: if_splits)
  next
    case (Some n)
    have shadow: "\<not> isl (goose_shadow_resolve (shadow_map b) n) \<longleftrightarrow> (\<exists>h. goose_shadow_resolve (shadow_map b) n = Inr h)"
      by (cases "goose_shadow_resolve (shadow_map b) n") auto
    note defs = goonies_register_def ensure_init_id [OF assms(1,2)] Some protected_name_def shadow
    consider "count reg \<ge> fabric_max b \<or> length n < 3 \<or> length n \<ge> GOOSE_REGISTRY_NAME_MAX"
      | "\<not> is_system \<and> protected_name b n" "count reg < fabric_max b" "3 \<le> length n" "length n < GOOSE_REGISTRY_NAME_MAX"
      | "is_system \<or> \<not> protected_name b n" "count reg < fabric_max b" "3 \<le> length n" "length n < GOOSE_REGISTRY_NAME_MAX"
      by linarith
    then show ?thesis
    proof cases
      case 1
      then show ?thesis using assms(2,4) by (auto simp: defs split: if_splits)
    next
      case 2
      then show ?thesis using assms(2,4) by (auto simp: defs Let_def split: if_splits)
    next
      case 3
      show ?thesis
      proof (cases "goose_registry_find_name reg n = EMPTY")
        case True
        from register_add [OF assms(2) 3(2,4) this assms(3)] obtain r where r:
          "goose_registry_add reg n c = (int (count reg), r)" "goonies_ok b r" "resolve r = (resolve reg)(n \<mapsto> c)" by blast
        have "int (count reg) \<noteq> EMPTY" by (simp add: EMPTY_def)
        with 3 True r assms(4) show ?thesis by (auto simp: defs Let_def split: if_splits)
      next
        case False
        from register_set [OF assms(2) refl this assms(3)] 3 False assms(4) show ?thesis by (auto simp: defs Let_def split: if_splits)
      qed
    qed
  qed
  then show "goonies_ok b r"
    "res = Inr () \<longleftrightarrow> (\<exists>n. name = Some n \<and> count reg < fabric_max b \<and> 3 \<le> length n
          \<and> length n < GOOSE_REGISTRY_NAME_MAX \<and> (is_system \<or> \<not> protected_name b n))"
    "resolve r = (if res = Inr () then (resolve reg)(the name \<mapsto> c) else resolve reg)"
    by blast+
qed

text \<open>
  C27: what a registration does. On a sound registry it succeeds exactly when there is room, the
  name has 3 to 95 bytes, and the weaver is the system or the name is not protected (not under
  sys. or agency., and not in the catalog); then the name resolves to the coordinate, and the
  resolution of every other name is unchanged. A refusal changes no resolution.
\<close>

theorem goonies_register_spec:
  assumes "build_ok b" "goonies_ok b reg" "length c = 9"
  shows "case goonies_register b reg name c is_system of (res, r) \<Rightarrow>
    goonies_ok b r
    \<and> (res = Inr () \<longleftrightarrow> (\<exists>n. name = Some n \<and> count reg < fabric_max b \<and> 3 \<le> length n
          \<and> length n < GOOSE_REGISTRY_NAME_MAX \<and> (is_system \<or> \<not> protected_name b n)))
    \<and> resolve r = (if res = Inr () then (resolve reg)(the name \<mapsto> c) else resolve reg)"
proof -
  obtain res r where r: "goonies_register b reg name c is_system = (res, r)" by fastforce
  from goonies_run [OF assms r] show ?thesis unfolding r by simp
qed

text \<open>A board of two cells, and one name registered on it.\<close>

definition tiny_board :: build where
  "tiny_board = \<lparr>fabric_max = 2, lattice_buckets = 5, registry_buckets = 5, shadow_map = tiny_catalog,
     REFLEX_PULSE_BASE_PRIORITY = 10, REFLEX_PULSE_PURPOSE_BOOST = 3, REFLEX_PULSE_HEBBIAN_BOOST = 2,
     REFLEX_PULSE_PAIN_PENALTY = 2, REFLEX_PULSE_MAX_PRIORITY = 15\<rparr>"

lemma tiny_board_ok: "build_ok tiny_board"
  by (simp add: build_ok_def tiny_board_def)

definition tiny_names :: goose_registry where
  "tiny_names = goonies_ensure_init tiny_board registry_zero"

lemma tiny_names_ok: "goonies_ok tiny_board tiny_names" "count tiny_names = 0" "resolve tiny_names = Map.empty"
  using init_goonies_ok [OF tiny_board_ok, of "replicate 2 zero_entry" "replicate 5 0" "replicate 5 0"]
  by (simp_all add: tiny_names_def goonies_ensure_init_def registry_zero_def tiny_board_def)

theorem goonies_register_spec_witness:
  "resolve (snd (goonies_register tiny_board tiny_names (Some (c_str ''abc'')) (goose_make_coord 1 2 3) False))
     = [c_str ''abc'' \<mapsto> goose_make_coord 1 2 3]
   \<and> fst (goonies_register tiny_board tiny_names (Some (c_str ''sys.x'')) (goose_make_coord 1 2 3) False) \<noteq> Inr ()"
proof -
  have "length (goose_make_coord 1 2 3) = 9" by (simp add: goose_make_coord_def)
  note spec = goonies_register_spec [OF tiny_board_ok tiny_names_ok(1) this]
  have n: "3 \<le> length (c_str ''abc'')" "length (c_str ''abc'') < GOOSE_REGISTRY_NAME_MAX" "\<not> protected_name tiny_board (c_str ''abc'')"
    "protected_name tiny_board (c_str ''sys.x'')"
  proof -
    have "goose_shadow_resolve tiny_catalog (c_str ''abc'') = Inl REFLEX_ERR_NOT_FOUND" by code_simp
    then show "\<not> protected_name tiny_board (c_str ''abc'')"
      by (simp add: protected_name_def tiny_board_def in_ns_def strncmp_eq_def GOOSE_NS_SYS_def GOOSE_NS_AGENCY_def c_str_def)
  qed (simp_all add: c_str_def GOOSE_REGISTRY_NAME_MAX_def protected_name_def in_ns_def strncmp_eq_def GOOSE_NS_SYS_def)
  have room: "count tiny_names < fabric_max tiny_board" by (simp add: tiny_names_ok tiny_board_def)
  show ?thesis
    using spec [of "Some (c_str ''abc'')" False] spec [of "Some (c_str ''sys.x'')" False] n room
    by (auto simp: tiny_names_ok(3) split: prod.splits)
qed

end
