(* ===== verification/Goose_Fabric.thy ===== *)
theory Goose_Fabric imports Goonies Policy begin

text \<open>
  The fabric of components/goose/goose_runtime.c: the array of cells, its coordinate index, the
  eviction cursor and ring, allocation, hardware agency, resolution of names with paging from
  the catalog and peer phantoms, and the boot. A pointer to a cell is its number.

  The loom lock is a flag: an operation that finds it taken spins until its budget is used up
  and gives up. The critical section inside it changes no state of its own. Telemetry, logging
  and the purpose name's storage are left out; a query to the mesh is recorded in \<open>queries\<close>.
\<close>

section \<open>State\<close>

abbreviation (input) "GOOSE_CELL_VIRTUAL \<equiv> (0 :: nat)"
abbreviation (input) "GOOSE_CELL_HARDWARE_IN \<equiv> (1 :: nat)"
abbreviation (input) "GOOSE_CELL_SYSTEM_ONLY \<equiv> (4 :: nat)"
abbreviation (input) "GOOSE_CELL_PINNED \<equiv> (5 :: nat)"
abbreviation (input) "GOOSE_CELL_FIELD_PROXY \<equiv> (6 :: nat)"
abbreviation (input) "GOOSE_CELL_NEURON \<equiv> (7 :: nat)"
abbreviation (input) "GOOSE_CELL_NEED \<equiv> (8 :: nat)"
abbreviation (input) "GOOSE_CELL_PURPOSE \<equiv> (9 :: nat)"

definition GOOSE_EVICTION_RING_SIZE :: nat where "GOOSE_EVICTION_RING_SIZE = 8"
definition GOOSE_FABRIC_MAGIC :: u32 where "GOOSE_FABRIC_MAGIC = 0xF11BFABF"

record loom =
  fabric_cells :: "goose_cell list"
  lattice_index :: "int list"
  fabric_cell_count :: nat
  fabric_version :: u32
  lattice_stable :: bool
  fabric_magic :: u32
  goonies :: goose_registry
  loom_authority :: bool
  last_eviction_idx :: nat
  s_eviction_count :: u32
  s_eviction_ring :: "cstring list"
  s_eviction_ring_idx :: u32
  ghost_counter :: int
  peers :: "cstring list"
  queries :: "cstring list"
  s_fabric_initialized :: bool

section \<open>Lock, lookup, eviction\<close>

definition goose_loom_try_lock :: "loom \<Rightarrow> bool \<times> loom" where
  "goose_loom_try_lock s = (if loom_authority s then (False, s) else (True, s\<lparr>loom_authority := True\<rparr>))"

definition goose_loom_unlock :: "loom \<Rightarrow> loom" where
  "goose_loom_unlock s = s\<lparr>loom_authority := False\<rparr>"

definition goose_fabric_get_cell_by_coord :: "build \<Rightarrow> loom \<Rightarrow> tryte9 \<Rightarrow> nat option" where
  "goose_fabric_get_cell_by_coord b s c =
     (if \<not> lattice_stable s then None
      else let idx = goose_lattice_find (lattice_index s) (lattice_buckets b) (fabric_cells s) (fabric_cell_count s) c in
        if idx = EMPTY then None else Some (nat idx))"

definition cell_is_evictable :: "goose_cell \<Rightarrow> bool" where
  "cell_is_evictable c = goose_policy_cell_evictable (int (ctype c)) (coord c ! 8)"

text \<open>The round-robin scan for a victim.\<close>

definition eviction_victim :: "build \<Rightarrow> loom \<Rightarrow> nat option" where
  "eviction_victim b s =
     find (\<lambda>target. cell_is_evictable (fabric_cells s ! target))
       (map (\<lambda>i. (last_eviction_idx s + i) mod fabric_max b) [0..<fabric_max b])"

text \<open>The body of the scan at the victim: the ring, the registry, the index, the cursor.\<close>

definition evict_target :: "build \<Rightarrow> loom \<Rightarrow> nat \<Rightarrow> loom" where
  "evict_target b s target =
     (let c = coord (fabric_cells s ! target);
          g = goose_registry_find_coord (goonies s) c;
          s1 = (if g \<noteq> EMPTY then
                  s\<lparr>s_eviction_ring := (s_eviction_ring s)
                        [unat (s_eviction_ring_idx s) mod GOOSE_EVICTION_RING_SIZE :=
                           take (GOOSE_REGISTRY_NAME_MAX - 1) (ename (entries (goonies s) ! nat g))],
                    s_eviction_ring_idx := s_eviction_ring_idx s + 1,
                    s_eviction_count := s_eviction_count s + 1,
                    goonies := snd (goose_registry_remove_coord (goonies s) c)\<rparr>
                else s)
      in s1\<lparr>lattice_index := goose_lattice_remove (lattice_index s1) (lattice_buckets b) (fabric_cells s1)
                                (fabric_cell_count s1) c,
            last_eviction_idx := (target + 1) mod fabric_max b\<rparr>)"

definition goose_fabric_get_eviction_ring :: "loom \<Rightarrow> cstring list" where
  "goose_fabric_get_eviction_ring s =
     (let n = (if unat (s_eviction_count s) < GOOSE_EVICTION_RING_SIZE then unat (s_eviction_count s) else GOOSE_EVICTION_RING_SIZE)
      in map (\<lambda>i. s_eviction_ring s !
                 (unat (s_eviction_ring_idx s + word_of_nat GOOSE_EVICTION_RING_SIZE - word_of_nat n + word_of_nat i)
                   mod GOOSE_EVICTION_RING_SIZE)) [0..<n])"

section \<open>Allocation\<close>

definition fresh_cell :: "tryte9 \<Rightarrow> nat \<Rightarrow> goose_cell" where
  "fresh_cell c ty = \<lparr>coord = c, state = 0, ctype = ty, peer_id = 0, hardware_addr = 0, bit_mask = 0\<rparr>"

text \<open>The slot of a new cell: the next one, or the victim's. The flag is \<open>appended\<close>.\<close>

definition claim_slot :: "build \<Rightarrow> loom \<Rightarrow> (nat \<times> bool \<times> loom) option" where
  "claim_slot b s =
     (if fabric_cell_count s < fabric_max b
      then Some (fabric_cell_count s, True, s\<lparr>fabric_cell_count := fabric_cell_count s + 1\<rparr>)
      else case eviction_victim b s of
             None \<Rightarrow> None
           | Some target \<Rightarrow> Some (target, False, evict_target b s target))"

definition publish_cell :: "build \<Rightarrow> loom \<Rightarrow> nat \<Rightarrow> tryte9 \<Rightarrow> bool \<Rightarrow> loom" where
  "publish_cell b s idx c is_system_weaving =
     (let s1 = s\<lparr>fabric_cells := (fabric_cells s)[idx := fresh_cell c
                    (if is_system_weaving then GOOSE_CELL_PINNED else GOOSE_CELL_VIRTUAL)]\<rparr>
      in s1\<lparr>lattice_index := snd (goose_lattice_insert (lattice_index s1) (lattice_buckets b) (fabric_cells s1)
                                   (fabric_cell_count s1) c (idx16 idx)),
            fabric_version := fabric_version s1 + 1\<rparr>)"

text \<open>\<open>if (name && goonies_register(name, coord, is_system_weaving) != REFLEX_OK)\<close>: false when refused.\<close>

definition register_opt :: "build \<Rightarrow> loom \<Rightarrow> cstring option \<Rightarrow> tryte9 \<Rightarrow> bool \<Rightarrow> bool \<times> loom" where
  "register_opt b s name c is_system_weaving =
     (case name of
        None \<Rightarrow> (True, s)
      | Some n \<Rightarrow> (case goonies_register b (goonies s) (Some n) c is_system_weaving of
                    (res, reg) \<Rightarrow> (res = Inr (), s\<lparr>goonies := reg\<rparr>)))"

text \<open>Everything below the heap-pressure gate.\<close>

definition alloc_in_loom :: "build \<Rightarrow> loom \<Rightarrow> cstring option \<Rightarrow> tryte9 \<Rightarrow> bool \<Rightarrow> bool \<Rightarrow> nat option \<times> loom" where
  "alloc_in_loom b s0 name c is_system_weaving return_existing =
     (case goose_loom_try_lock s0 of
        (False, s) \<Rightarrow> (None, s)
      | (True, s) \<Rightarrow>
          (case goose_fabric_get_cell_by_coord b s c of
             Some i \<Rightarrow>
               (let s1 = snd (register_opt b s name c is_system_weaving) in
                (if return_existing then Some i else None, goose_loom_unlock s1))
           | None \<Rightarrow>
               (case claim_slot b s of
                  None \<Rightarrow> (None, goose_loom_unlock s)
                | Some (idx, appended, s1) \<Rightarrow>
                    (case register_opt b s1 name c is_system_weaving of
                       (False, s2) \<Rightarrow>
                         (None, goose_loom_unlock (if appended then s2\<lparr>fabric_cell_count := fabric_cell_count s2 - 1\<rparr> else s2))
                     | (True, s2) \<Rightarrow> (Some idx, goose_loom_unlock (publish_cell b s2 idx c is_system_weaving))))))"

section \<open>Agency\<close>

definition GOOSE_AGENCY_MMIO_BASE :: u32 where "GOOSE_AGENCY_MMIO_BASE = 0x60000000"
definition GOOSE_AGENCY_GPIO_MAX :: u32 where "GOOSE_AGENCY_GPIO_MAX = 31"
definition GOOSE_AGENCY_NONE :: u32 where "GOOSE_AGENCY_NONE = 0"

definition goose_fabric_addr_is_sanctuary :: "u32 \<Rightarrow> bool" where
  "goose_fabric_addr_is_sanctuary addr =
     (let base = addr AND 0xFFFFF000 in
      if base = 0x60091000 \<or> base = 0x60007000 \<or> base = 0x60006000 \<or> base = 0x60000000
         \<or> base = 0x60001000 \<or> base = 0x60004000 \<or> base = 0x60003000 \<or> base = 0x6000C000 \<or> base = 0x6000E000
      then False else True)"

text \<open>The guard, on the type of the cell, the address and the type asked for.\<close>

definition agency_guard :: "nat \<Rightarrow> u32 \<Rightarrow> nat \<Rightarrow> unit result" where
  "agency_guard cell_type addr ty =
     (if cell_type = GOOSE_CELL_FIELD_PROXY then Inl REFLEX_ERR_NOT_SUPPORTED
      else if addr \<ge> GOOSE_AGENCY_MMIO_BASE then
        (if goose_fabric_addr_is_sanctuary addr \<and> ty \<noteq> GOOSE_CELL_SYSTEM_ONLY then Inl REFLEX_ERR_NOT_SUPPORTED else Inr ())
      else if addr = GOOSE_AGENCY_NONE then Inl REFLEX_ERR_INVALID_ARG
      else if addr > GOOSE_AGENCY_GPIO_MAX then Inl REFLEX_ERR_INVALID_ARG
      else Inr ())"

definition goose_fabric_set_agency :: "loom \<Rightarrow> nat option \<Rightarrow> u32 \<Rightarrow> nat \<Rightarrow> unit result \<times> loom" where
  "goose_fabric_set_agency s cell addr ty =
     (case cell of
        None \<Rightarrow> (Inl REFLEX_ERR_INVALID_ARG, s)
      | Some i \<Rightarrow>
          (case agency_guard (ctype (fabric_cells s ! i)) addr ty of
             Inl e \<Rightarrow> (Inl e, s)
           | Inr _ \<Rightarrow> (Inr (), s\<lparr>fabric_cells := (fabric_cells s)
                                  [i := (fabric_cells s ! i)\<lparr>hardware_addr := addr, ctype := ty\<rparr>]\<rparr>)))"

section \<open>Resolution and paging\<close>

text \<open>
  The peer of a phantom: the part of the name between peer. and the next dot, cut to 11
  bytes, compared with the 12-byte names of the peer registry; the number is one-based.
\<close>

definition peer_of_name :: "cstring list \<Rightarrow> cstring \<Rightarrow> u8 option" where
  "peer_of_name ps name =
     (let after_peer = drop (length GOOSE_NS_PEER) name; label = takeWhile (\<lambda>ch. ch \<noteq> 46) after_peer in
      if label = after_peer then None
      else map_option (\<lambda>pi. word_of_nat (pi + 1))
             (find (\<lambda>pi. strncmp_eq (ps ! pi) (take 11 label) 12) [0..<length ps]))"

definition bind_peer :: "loom \<Rightarrow> nat \<Rightarrow> cstring \<Rightarrow> loom" where
  "bind_peer s i name =
     (case peer_of_name (peers s) name of
        None \<Rightarrow> s
      | Some p \<Rightarrow> s\<lparr>fabric_cells := (fabric_cells s)[i := (fabric_cells s ! i)\<lparr>peer_id := p\<rparr>]\<rparr>)"

definition heap_pressure_name :: cstring where
  "heap_pressure_name = c_str ''perception.heap.pressure''"

text \<open>
  Resolution and allocation call each other: a phantom or a paged cell is allocated, and an
  allocation by anyone but the system first resolves the heap-pressure vital.
\<close>

function (sequential)
  goonies_resolve_cell :: "build \<Rightarrow> loom \<Rightarrow> cstring option \<Rightarrow> nat option \<times> loom"
  and fabric_alloc_internal ::
    "build \<Rightarrow> loom \<Rightarrow> cstring option \<Rightarrow> tryte9 \<Rightarrow> bool \<Rightarrow> bool \<Rightarrow> nat option \<times> loom"
where
  "goonies_resolve_cell b s None = (None, s)"
| "goonies_resolve_cell b s (Some name) =
     (case goonies_resolve b (goonies s) name of
        Inr c \<Rightarrow> (goose_fabric_get_cell_by_coord b s c, s)
      | Inl _ \<Rightarrow>
          if in_ns name GOOSE_NS_PEER then
            (let g = ghost_counter s;
                 s1 = s\<lparr>queries := queries s @ [name], ghost_counter := g + 1\<rparr>;
                 (phantom, s2) = fabric_alloc_internal b s1 (Some name) (phantom_coord g) False False
             in (phantom, case phantom of None \<Rightarrow> s2 | Some i \<Rightarrow> bind_peer s2 i name))
          else
            (case goose_shadow_resolve (shadow_map b) name of
               Inl _ \<Rightarrow> (None, s)
             | Inr (addr, msk, c, ty) \<Rightarrow>
                 (let (cell, s1) = fabric_alloc_internal b s (Some name) c True False
                  in case cell of
                       None \<Rightarrow> (None, s1)
                     | Some i \<Rightarrow>
                         (let s2 = snd (goose_fabric_set_agency s1 (Some i) addr ty)
                          in (Some i, s2\<lparr>fabric_cells := (fabric_cells s2)
                                          [i := (fabric_cells s2 ! i)\<lparr>bit_mask := msk\<rparr>]\<rparr>)))))"
| "fabric_alloc_internal b s name c True return_existing = alloc_in_loom b s name c True return_existing"
| "fabric_alloc_internal b s name c False return_existing =
     (let (heap_cell, s1) = goonies_resolve_cell b s (Some heap_pressure_name)
      in if (case heap_cell of None \<Rightarrow> False | Some i \<Rightarrow> state (fabric_cells s1 ! i) = -1)
         then (None, s1)
         else alloc_in_loom b s1 name c False return_existing)"
  by pat_completeness auto

termination
  by (relation "measure (\<lambda>x. case x of
        Inl (_, _, name) \<Rightarrow> (case name of None \<Rightarrow> 0 | Some n \<Rightarrow> if in_ns n GOOSE_NS_PEER then 3 else 1)
      | Inr (_, _, _, _, is_system, _) \<Rightarrow> if is_system then 0 else 2)")
    (auto simp: heap_pressure_name_def in_ns_def GOOSE_NS_PEER_def c_str_def strncmp_eq_def)

declare goonies_resolve_cell.simps [simp del] fabric_alloc_internal.simps [simp del]

definition goose_fabric_alloc_cell :: "build \<Rightarrow> loom \<Rightarrow> cstring option \<Rightarrow> tryte9 \<Rightarrow> bool \<Rightarrow> nat option \<times> loom" where
  "goose_fabric_alloc_cell b s name c is_system_weaving = fabric_alloc_internal b s name c is_system_weaving False"

definition goose_fabric_ensure_cell :: "build \<Rightarrow> loom \<Rightarrow> cstring option \<Rightarrow> tryte9 \<Rightarrow> bool \<Rightarrow> nat option \<times> loom" where
  "goose_fabric_ensure_cell b s name c is_system_weaving = fabric_alloc_internal b s name c is_system_weaving True"

definition goose_fabric_get_cell :: "build \<Rightarrow> loom \<Rightarrow> cstring option \<Rightarrow> nat option \<times> loom" where
  "goose_fabric_get_cell b s name = goonies_resolve_cell b s name"

section \<open>Boot\<close>

text \<open>
  \<open>wakeup\<close>: the HAL reports a wake-up cause, so the retained memory counts. \<open>purpose\<close>: the name
  read from the key-value store, empty when there is none.
\<close>

definition rebuild_lattice :: "build \<Rightarrow> loom \<Rightarrow> loom" where
  "rebuild_lattice b s =
     foldl (\<lambda>s i. s\<lparr>lattice_index := snd (goose_lattice_insert (lattice_index s) (lattice_buckets b) (fabric_cells s)
                                        (fabric_cell_count s) (coord (fabric_cells s ! i)) (idx16 i))\<rparr>)
       (s\<lparr>lattice_index := goose_lattice_clear (lattice_index s) (lattice_buckets b)\<rparr>)
       [0..<fabric_cell_count s]"

definition seed_purpose :: "build \<Rightarrow> loom \<Rightarrow> cstring \<Rightarrow> loom" where
  "seed_purpose b s purpose =
     (if purpose = [] then s
      else let (pc, s1) = goose_fabric_ensure_cell b s (Some (c_str ''sys.purpose'')) (goose_make_coord 0 0 2) True
           in case pc of
                None \<Rightarrow> s1
              | Some i \<Rightarrow> s1\<lparr>fabric_cells := (fabric_cells s1)
                              [i := (fabric_cells s1 ! i)\<lparr>ctype := GOOSE_CELL_PURPOSE, state := 1\<rparr>]\<rparr>)"

text \<open>The registry storage at the initialiser: static memory, zero before its first use.\<close>

definition reinit_goonies :: "build \<Rightarrow> goose_registry \<Rightarrow> goose_registry" where
  "reinit_goonies b reg =
     (let r = goonies_ensure_init b reg
      in goose_registry_init (entries r) (fabric_max b) (by_name r) (by_coord r) (registry_buckets b))"

definition goose_fabric_init :: "build \<Rightarrow> loom \<Rightarrow> bool \<Rightarrow> cstring \<Rightarrow> unit result \<times> loom" where
  "goose_fabric_init b s0 wakeup purpose =
     (if s_fabric_initialized s0 then (Inl REFLEX_ERR_INVALID_STATE, s0)
      else
        let s1 = s0\<lparr>s_fabric_initialized := True, lattice_stable := False,
                    goonies := reinit_goonies b (goonies s0), loom_authority := False\<rparr>;
            s2 = (if \<not> wakeup \<or> fabric_magic s1 \<noteq> GOOSE_FABRIC_MAGIC
                  then s1\<lparr>fabric_cell_count := 0, lattice_index := goose_lattice_clear (lattice_index s1) (lattice_buckets b),
                          fabric_version := 1, fabric_magic := GOOSE_FABRIC_MAGIC\<rparr>
                  else rebuild_lattice b s1);
            s3 = s2\<lparr>lattice_stable := True\<rparr>;
            s4 = snd (goose_fabric_alloc_cell b s3 (Some (c_str ''sys.origin'')) (goose_make_coord 0 0 0) True);
            s5 = snd (goose_fabric_alloc_cell b s4 (Some (c_str ''agency.led.intent'')) (goose_make_coord 0 0 1) True)
        in (Inr (), seed_purpose b s5 purpose))"

end
