(* ===== verification/Fabric_Steps.thy ===== *)
theory Fabric_Steps imports Goose_Fabric begin

text \<open>
  What the steps of the fabric do to what it stores: a cell number is stored when the coordinate
  index holds it. Lookup, eviction, publication and registration are described by the stored
  numbers, and the invariant \<open>loom_ok\<close> is preserved by each.
\<close>

definition loom_ok :: "build \<Rightarrow> loom \<Rightarrow> bool" where
  "loom_ok b s \<longleftrightarrow> build_ok b \<and> length (fabric_cells s) = fabric_max b \<and> fabric_cell_count s \<le> fabric_max b
     \<and> lattice_ok (lattice_index s) (lattice_buckets b) (fabric_cells s) (fabric_cell_count s)
     \<and> goonies_ok b (goonies s) \<and> lattice_stable s \<and> last_eviction_idx s < fabric_max b
     \<and> length (s_eviction_ring s) = GOOSE_EVICTION_RING_SIZE
     \<and> (\<forall>i < fabric_max b. length (coord (fabric_cells s ! i)) = 9)"

lemma loom_okD:
  assumes "loom_ok b s"
  shows "build_ok b" "length (fabric_cells s) = fabric_max b" "fabric_cell_count s \<le> fabric_max b"
    "lattice_ok (lattice_index s) (lattice_buckets b) (fabric_cells s) (fabric_cell_count s)"
    "goonies_ok b (goonies s)" "lattice_stable s" "last_eviction_idx s < fabric_max b"
    "\<And>i. i < fabric_max b \<Longrightarrow> length (coord (fabric_cells s ! i)) = 9"
    "fabric_cell_count s < lattice_buckets b" "fabric_max b \<le> 32767"
  using assms by (auto simp: loom_ok_def build_ok_def)

definition indexed :: "build \<Rightarrow> loom \<Rightarrow> nat \<Rightarrow> bool" where
  "indexed b s i \<longleftrightarrow> stored (lattice_buckets b) (lattice_index s) (int i)"

lemma stored_live:
  assumes "lattice_ok slots n cells m" "stored n slots v"
  obtains i where "v = int i" "i < m"
proof -
  from assms have "cell_live m v" unfolding lattice_ok_def stored_def using table_invD(3) by metis
  with that [of "nat v"] show ?thesis by (simp add: cell_live_def)
qed

lemma get_cell_iff:
  assumes "loom_ok b s"
  shows "goose_fabric_get_cell_by_coord b s c = Some i \<longleftrightarrow> indexed b s i \<and> goose_coord_equal (coord (fabric_cells s ! i)) c"
proof -
  let ?n = "lattice_buckets b"
  note L = loom_okD(4) [OF assms]
  define v where "v = goose_lattice_find (lattice_index s) ?n (fabric_cells s) (fabric_cell_count s) c"
  have key: "cell_key (fabric_cells s) (int j) = coord_key c \<longleftrightarrow> goose_coord_equal (coord (fabric_cells s ! j)) c" for j
    by (simp add: cell_key_def coord_equal_key)
  have ne: "int j \<noteq> EMPTY" for j by (simp add: EMPTY_def)
  have "goose_fabric_get_cell_by_coord b s c = Some i \<longleftrightarrow> v = int i"
  proof (cases "v = EMPTY")
    case False
    from lattice_find_iff [OF L, of c v] v_def have "stored ?n (lattice_index s) v" using False by auto
    then obtain j where "v = int j" by (rule stored_live [OF L])
    with False loom_okD(6) [OF assms] show ?thesis
      by (simp add: goose_fabric_get_cell_by_coord_def v_def [symmetric])
  next
    case True
    then show ?thesis using ne [of i] loom_okD(6) [OF assms]
      by (simp add: goose_fabric_get_cell_by_coord_def v_def [symmetric])
  qed
  also have "\<dots> \<longleftrightarrow> indexed b s i \<and> goose_coord_equal (coord (fabric_cells s ! i)) c"
    using lattice_find_iff [OF L, of c "int i"] ne key v_def by (auto simp: indexed_def)
  finally show ?thesis .
qed

lemma indexed_live: "loom_ok b s \<Longrightarrow> indexed b s i \<Longrightarrow> i < fabric_cell_count s"
  unfolding indexed_def by (metis loom_okD(4) of_nat_eq_iff stored_live)

lemma get_cell_None:
  "loom_ok b s \<Longrightarrow> goose_fabric_get_cell_by_coord b s c = None
     \<longleftrightarrow> (\<forall>i. indexed b s i \<longrightarrow> \<not> goose_coord_equal (coord (fabric_cells s ! i)) c)"
  using get_cell_iff by (metis not_None_eq)

lemma get_cell_live: "loom_ok b s \<Longrightarrow> goose_fabric_get_cell_by_coord b s c = Some i \<Longrightarrow> i < fabric_cell_count s"
  using get_cell_iff indexed_live by blast

section \<open>Frames\<close>

text \<open>Only five fields matter to a lookup.\<close>

lemma get_cell_frame:
  "lattice_stable t = lattice_stable s \<Longrightarrow> lattice_index t = lattice_index s \<Longrightarrow> fabric_cells t = fabric_cells s
    \<Longrightarrow> fabric_cell_count t = fabric_cell_count s
    \<Longrightarrow> goose_fabric_get_cell_by_coord b t c = goose_fabric_get_cell_by_coord b s c"
  by (simp add: goose_fabric_get_cell_by_coord_def)

text \<open>Rewriting a cell without moving it changes no lookup.\<close>

definition update_cell :: "loom \<Rightarrow> nat \<Rightarrow> (goose_cell \<Rightarrow> goose_cell) \<Rightarrow> loom" where
  "update_cell s i f = s\<lparr>fabric_cells := (fabric_cells s)[i := f (fabric_cells s ! i)]\<rparr>"

lemma update_cell_coords:
  assumes "\<And>c. coord (f c) = coord c"
  shows "coord (fabric_cells (update_cell s i f) ! j) = coord (fabric_cells s ! j)"
proof (cases "i < length (fabric_cells s)")
  case True
  with assms show ?thesis by (cases "i = j") (simp_all add: update_cell_def)
qed (simp add: update_cell_def list_update_beyond)

lemma update_cell_ok:
  assumes ok: "loom_ok b s" and f: "\<And>c. coord (f c) = coord c"
  shows "loom_ok b (update_cell s i f)" "indexed b (update_cell s i f) j = indexed b s j"
    "goose_fabric_get_cell_by_coord b (update_cell s i f) c = goose_fabric_get_cell_by_coord b s c"
proof -
  note C = update_cell_coords [of f s i, OF f]
  have u: "lattice_index (update_cell s i f) = lattice_index s" "fabric_cell_count (update_cell s i f) = fabric_cell_count s"
    "goonies (update_cell s i f) = goonies s" "lattice_stable (update_cell s i f) = lattice_stable s"
    "last_eviction_idx (update_cell s i f) = last_eviction_idx s" "s_eviction_ring (update_cell s i f) = s_eviction_ring s"
    "length (fabric_cells (update_cell s i f)) = length (fabric_cells s)"
    by (simp_all add: update_cell_def)
  have "lattice_ok (lattice_index s) (lattice_buckets b) (fabric_cells (update_cell s i f)) (fabric_cell_count s)"
  proof (rule lattice_cong [OF loom_okD(4) [OF ok]])
    fix v assume "stored (lattice_buckets b) (lattice_index s) v"
    then obtain j where "v = int j" "j < fabric_cell_count s" by (rule stored_live [OF loom_okD(4) [OF ok]])
    then show "cell_key (fabric_cells (update_cell s i f)) v = cell_key (fabric_cells s) v \<and> cell_live (fabric_cell_count s) v"
      by (simp add: cell_key_def C cell_live_def)
  qed
  with ok show ok': "loom_ok b (update_cell s i f)" by (simp add: loom_ok_def u C)
  show ix: "indexed b (update_cell s i f) j = indexed b s j" for j by (simp add: indexed_def u)
  have "goose_fabric_get_cell_by_coord b (update_cell s i f) c = Some j \<longleftrightarrow> goose_fabric_get_cell_by_coord b s c = Some j" for j
    by (simp add: get_cell_iff [OF ok'] get_cell_iff [OF ok] ix C)
  then show "goose_fabric_get_cell_by_coord b (update_cell s i f) c = goose_fabric_get_cell_by_coord b s c"
    by (rule same_lookup)
qed

section \<open>Eviction\<close>

lemma evict_frame [simp]:
  "fabric_cells (evict_target b s t) = fabric_cells s" "fabric_cell_count (evict_target b s t) = fabric_cell_count s"
  "fabric_version (evict_target b s t) = fabric_version s" "lattice_stable (evict_target b s t) = lattice_stable s"
  "loom_authority (evict_target b s t) = loom_authority s" "ghost_counter (evict_target b s t) = ghost_counter s"
  "peers (evict_target b s t) = peers s" "s_fabric_initialized (evict_target b s t) = s_fabric_initialized s"
  "queries (evict_target b s t) = queries s" "fabric_magic (evict_target b s t) = fabric_magic s"
  "last_eviction_idx (evict_target b s t) = (t + 1) mod fabric_max b"
  "lattice_index (evict_target b s t) = goose_lattice_remove (lattice_index s) (lattice_buckets b) (fabric_cells s)
      (fabric_cell_count s) (coord (fabric_cells s ! t))"
  "goonies (evict_target b s t) = (if goose_registry_find_coord (goonies s) (coord (fabric_cells s ! t)) \<noteq> EMPTY
      then snd (goose_registry_remove_coord (goonies s) (coord (fabric_cells s ! t))) else goonies s)"
  "length (s_eviction_ring (evict_target b s t)) = length (s_eviction_ring s)"
  by (simp_all add: evict_target_def Let_def)

text \<open>A removal by coordinate unbinds one name of that coordinate at most.\<close>

lemma goonies_remove:
  assumes ok: "goonies_ok b reg" and c: "length c = 9" and found: "goose_registry_find_coord reg c \<noteq> EMPTY"
  obtains i where "goose_registry_find_coord reg c = int i" "i < count reg" "ecoord (entries reg ! i) = c"
    "goonies_ok b (snd (goose_registry_remove_coord reg c))"
    "resolve (snd (goose_registry_remove_coord reg c)) = (resolve reg)(ename (entries reg ! i) := None)"
    "count (snd (goose_registry_remove_coord reg c)) = count reg - 1"
proof -
  note P = goonies_okD [OF ok]
  obtain i where i: "goose_registry_find_coord reg c = int i" "i < count reg" "goose_coord_equal (ecoord (entries reg ! i)) c"
    using find_coord_sound [OF P(1) found] .
  obtain r where r: "goose_registry_remove_coord reg c = (True, r)" "names_ok r" "count r = count reg - 1"
    "\<And>j. j < count r \<Longrightarrow> entries r ! j = entries reg ! (if j = i then count reg - 1 else j)"
    "capacity r = capacity reg" "buckets r = buckets reg"
    using weak_remove [OF P(1) i(1,2)] by metis
  have "resolve r = (resolve reg)(ename (entries reg ! i) := None)"
    using weak_remove_resolve [OF P(1) r(2) i(2) r(3,4)] .
  moreover have "goonies_ok b r"
    unfolding goonies_ok_def
  proof (intro conjI allI impI)
    fix j assume j: "j < count r"
    with r(3) i(2) P(3) [of "if j = i then count reg - 1 else j"] show "length (ecoord (entries r ! j)) = 9"
      unfolding r(4) [OF j] by auto
  qed (use r(2,5,6) ok in \<open>auto simp: goonies_ok_def\<close>)
  moreover have "ecoord (entries reg ! i) = c" using i(3) coord_equal_eq [OF P(3) [OF i(2)] c] by simp
  ultimately show ?thesis using that [of i] i(1,2) r(1,3) by simp
qed

lemma evict_ok:
  assumes ok: "loom_ok b s" and t: "t < fabric_max b"
  shows "loom_ok b (evict_target b s t)"
    "indexed b (evict_target b s t) i \<longleftrightarrow> indexed b s i \<and> \<not> goose_coord_equal (coord (fabric_cells s ! i)) (coord (fabric_cells s ! t))"
    "\<exists>names. resolve (goonies (evict_target b s t)) = (\<lambda>n. if n \<in> names then None else resolve (goonies s) n)
       \<and> (\<forall>n \<in> names. resolve (goonies s) n = Some (coord (fabric_cells s ! t)))"
proof -
  note P = loom_okD [OF ok]
  note free = lattice_free [OF P(4,9)]
  note L = lattice_remove_run [OF P(4) free]
  let ?c = "coord (fabric_cells s ! t)"
  have c: "length ?c = 9" by (rule P(8) [OF t])
  show "indexed b (evict_target b s t) i \<longleftrightarrow> indexed b s i \<and> \<not> goose_coord_equal (coord (fabric_cells s ! i)) ?c"
    by (simp add: indexed_def L(3) cell_key_def coord_equal_key)
  have "goonies_ok b (goonies (evict_target b s t)) \<and> (\<exists>names. resolve (goonies (evict_target b s t)) = (\<lambda>n. if n \<in> names then None else resolve (goonies s) n)
       \<and> (\<forall>n \<in> names. resolve (goonies s) n = Some ?c))"
  proof (cases "goose_registry_find_coord (goonies s) ?c = EMPTY")
    case True
    with P(5) show ?thesis by (auto intro: exI [of _ "{}"])
  next
    case False
    from goonies_remove [OF P(5) c False] obtain j where j: "j < count (goonies s)" "ecoord (entries (goonies s) ! j) = ?c"
      "goonies_ok b (snd (goose_registry_remove_coord (goonies s) ?c))"
      "resolve (snd (goose_registry_remove_coord (goonies s) ?c)) = (resolve (goonies s))(ename (entries (goonies s) ! j) := None)"
      by blast
    have "resolve (goonies s) (ename (entries (goonies s) ! j)) = Some ?c"
      using resolve_Some [OF goonies_okD(1) [OF P(5)] j(1) refl] j(2) by simp
    with False j(3,4) show ?thesis by (auto simp: fun_eq_iff intro!: exI [of _ "{ename (entries (goonies s) ! j)}"])
  qed
  then show "\<exists>names. resolve (goonies (evict_target b s t)) = (\<lambda>n. if n \<in> names then None else resolve (goonies s) n)
       \<and> (\<forall>n \<in> names. resolve (goonies s) n = Some ?c)"
    and "loom_ok b (evict_target b s t)"
    using ok L(1) by (auto simp: loom_ok_def build_ok_def)
qed

lemma victim_Some: "eviction_victim b s = Some t \<Longrightarrow> t < fabric_max b \<and> cell_is_evictable (fabric_cells s ! t)"
  by (auto simp: eviction_victim_def find_Some_iff)

lemma victim_None:
  assumes "eviction_victim b s = None" "i < fabric_max b" "last_eviction_idx s < fabric_max b"
  shows "\<not> cell_is_evictable (fabric_cells s ! i)"
proof -
  let ?m = "fabric_max b" and ?l = "last_eviction_idx s"
  have none: "\<not> cell_is_evictable (fabric_cells s ! ((?l + k) mod ?m))" if "k < ?m" for k
    using assms(1) that by (auto simp: eviction_victim_def find_None_iff)
  define k where "k = (if ?l \<le> i then i - ?l else i + ?m - ?l)"
  have "(?l + k) mod ?m = i" using assms(2,3) by (auto simp: k_def)
  moreover have "k < ?m" using assms(2,3) by (auto simp: k_def)
  ultimately show ?thesis using none [of k] by simp
qed

section \<open>Claiming, publishing, registering\<close>

lemma append_ok:
  assumes ok: "loom_ok b s" and room: "fabric_cell_count s < fabric_max b"
  shows "loom_ok b (s\<lparr>fabric_cell_count := fabric_cell_count s + 1\<rparr>)"
    "\<not> indexed b s (fabric_cell_count s)"
proof -
  note P = loom_okD [OF ok]
  have "lattice_ok (lattice_index s) (lattice_buckets b) (fabric_cells s) (fabric_cell_count s + 1)"
  proof (rule lattice_cong [OF P(4)])
    fix v assume "stored (lattice_buckets b) (lattice_index s) v"
    then obtain i where "v = int i" "i < fabric_cell_count s" by (rule stored_live [OF P(4)])
    then show "cell_key (fabric_cells s) v = cell_key (fabric_cells s) v \<and> cell_live (fabric_cell_count s + 1) v"
      by (simp add: cell_live_def)
  qed
  with ok room show "loom_ok b (s\<lparr>fabric_cell_count := fabric_cell_count s + 1\<rparr>)" by (simp add: loom_ok_def)
  show "\<not> indexed b s (fabric_cell_count s)" using indexed_live [OF ok] by blast
qed

lemma publish_frame [simp]:
  "fabric_cell_count (publish_cell b s i c sys) = fabric_cell_count s" "goonies (publish_cell b s i c sys) = goonies s"
  "loom_authority (publish_cell b s i c sys) = loom_authority s" "lattice_stable (publish_cell b s i c sys) = lattice_stable s"
  "last_eviction_idx (publish_cell b s i c sys) = last_eviction_idx s" "s_eviction_ring (publish_cell b s i c sys) = s_eviction_ring s"
  "ghost_counter (publish_cell b s i c sys) = ghost_counter s" "peers (publish_cell b s i c sys) = peers s"
  "fabric_version (publish_cell b s i c sys) = fabric_version s + 1"
  "s_fabric_initialized (publish_cell b s i c sys) = s_fabric_initialized s"
  "fabric_cells (publish_cell b s i c sys) = (fabric_cells s)[i := fresh_cell c (if sys then GOOSE_CELL_PINNED else GOOSE_CELL_VIRTUAL)]"
  by (simp_all add: publish_cell_def Let_def)

lemma publish_ok:
  assumes ok: "loom_ok b s" and i: "i < fabric_cell_count s" "\<not> indexed b s i" and c: "length c = 9"
    and free: "goose_fabric_get_cell_by_coord b s c = None"
  shows "loom_ok b (publish_cell b s i c sys)" "indexed b (publish_cell b s i c sys) j \<longleftrightarrow> j = i \<or> indexed b s j"
proof -
  note P = loom_okD [OF ok]
  let ?s1 = "s\<lparr>fabric_cells := (fabric_cells s)[i := fresh_cell c (if sys then GOOSE_CELL_PINNED else GOOSE_CELL_VIRTUAL)]\<rparr>"
  have il: "i < length (fabric_cells s)" using i(1) P(2,3) by simp
  have L1: "lattice_ok (lattice_index s) (lattice_buckets b) (fabric_cells ?s1) (fabric_cell_count s)"
  proof (rule lattice_cong [OF P(4)])
    fix v assume v: "stored (lattice_buckets b) (lattice_index s) v"
    then obtain j where j: "v = int j" "j < fabric_cell_count s" by (rule stored_live [OF P(4)])
    with v i(2) have "j \<noteq> i" by (auto simp: indexed_def)
    with j show "cell_key (fabric_cells ?s1) v = cell_key (fabric_cells s) v \<and> cell_live (fabric_cell_count s) v"
      by (simp add: cell_key_def cell_live_def)
  qed
  have "cell_live (fabric_cell_count s) (int i)" "goose_coord_equal (coord (fabric_cells ?s1 ! nat (int i))) c"
    using i(1) il by (simp_all add: cell_live_def fresh_cell_def coord_equal_key)
  from lattice_insert_run [OF L1 lattice_free [OF L1 P(9)] this] obtain t where t:
    "goose_lattice_insert (lattice_index s) (lattice_buckets b) (fabric_cells ?s1) (fabric_cell_count s) c (int i) = (True, t)"
    "lattice_ok t (lattice_buckets b) (fabric_cells ?s1) (fabric_cell_count s)"
    "\<And>u. stored (lattice_buckets b) t u \<longleftrightarrow> u = int i \<or> stored (lattice_buckets b) (lattice_index s) u \<and> cell_key (fabric_cells ?s1) u \<noteq> coord_key c"
    by blast
  have "idx16 i = int i" using i(1) P(3,10) by (intro idx16_small) simp
  with t(1) have idx: "lattice_index (publish_cell b s i c sys) = t" by (simp add: publish_cell_def Let_def)
  have keep: "cell_key (fabric_cells ?s1) (int k) \<noteq> coord_key c" if "indexed b s k" "k \<noteq> i" for k
    using get_cell_None [OF ok, of c] free that by (auto simp: cell_key_def coord_equal_key)
  show "indexed b (publish_cell b s i c sys) j \<longleftrightarrow> j = i \<or> indexed b s j"
    using keep [of j] by (auto simp: indexed_def idx t(3))
  show "loom_ok b (publish_cell b s i c sys)"
    using ok t(2) c il unfolding loom_ok_def publish_frame idx by (auto simp: nth_list_update fresh_cell_def)
qed

lemma publish_get:
  assumes ok: "loom_ok b s" and i: "i < fabric_cell_count s" "\<not> indexed b s i" and c: "length c = 9"
    and free: "goose_fabric_get_cell_by_coord b s c = None"
  shows "goose_fabric_get_cell_by_coord b (publish_cell b s i c sys) c' =
    (if goose_coord_equal c' c then Some i else goose_fabric_get_cell_by_coord b s c')"
proof -
  note ok' = publish_ok(1) [OF assms, of sys] and ix = publish_ok(2) [OF assms, of sys]
  have il: "i < length (fabric_cells s)" using i(1) loom_okD(2,3) [OF ok] by simp
  have "goose_fabric_get_cell_by_coord b (publish_cell b s i c sys) c' = Some j \<longleftrightarrow>
      (if goose_coord_equal c' c then Some i else goose_fabric_get_cell_by_coord b s c') = Some j" for j
  proof (cases "j = i")
    case True
    with get_cell_iff [OF ok, of c' i] i(2) il show ?thesis
      by (auto simp: get_cell_iff [OF ok'] ix fresh_cell_def coord_equal_key)
  next
    case False
    with get_cell_None [OF ok, of c] free have "indexed b s j \<Longrightarrow> \<not> goose_coord_equal (coord (fabric_cells s ! j)) c" by blast
    with False show ?thesis
      by (auto simp: get_cell_iff [OF ok'] get_cell_iff [OF ok] ix coord_equal_key)
  qed
  then show ?thesis by (rule same_lookup)
qed

lemma goonies_update_ok: "loom_ok b s \<Longrightarrow> goonies_ok b g \<Longrightarrow> loom_ok b (s\<lparr>goonies := g\<rparr>)"
  by (simp add: loom_ok_def)

lemma goonies_update_indexed [simp]: "indexed b (s\<lparr>goonies := g\<rparr>) i = indexed b s i"
  by (simp add: indexed_def)

definition bound :: "goose_registry \<Rightarrow> cstring option \<Rightarrow> tryte9 \<Rightarrow> cstring \<Rightarrow> tryte9 option" where
  "bound reg name c = (case name of None \<Rightarrow> resolve reg | Some n \<Rightarrow> (resolve reg)(n \<mapsto> c))"

lemma register_opt_cases:
  assumes "loom_ok b s" "length c = 9" "register_opt b s name c sys = (accepted, s')"
  obtains g where "s' = s\<lparr>goonies := g\<rparr>" "goonies_ok b g" "\<not> accepted \<Longrightarrow> resolve g = resolve (goonies s)"
    "accepted \<Longrightarrow> resolve g = bound (goonies s) name c"
proof (cases name)
  case None
  with assms that [of "goonies s"] loom_okD(5) show ?thesis by (auto simp: register_opt_def bound_def)
next
  case (Some n)
  obtain res g where g: "goonies_register b (goonies s) (Some n) c sys = (res, g)" by fastforce
  from goonies_run [OF loom_okD(1,5) [OF assms(1)] assms(2) g] Some g assms(3) that [of g] show ?thesis
    by (auto simp: register_opt_def bound_def)
qed

end
