(* ===== verification/Fabric_Ops.thy ===== *)
theory Fabric_Ops imports Fabric_Steps begin

text \<open>
  The operations of the fabric as a whole: what an allocation can do, what it keeps, what a
  resolution answers when it is repeated, and the invariant over histories from the boot on.
\<close>

section \<open>The outcomes of an allocation\<close>

lemma authority_commutes [simp]:
  "evict_target b (s\<lparr>loom_authority := x\<rparr>) t = (evict_target b s t)\<lparr>loom_authority := x\<rparr>"
  "publish_cell b (s\<lparr>loom_authority := x\<rparr>) i c sys = (publish_cell b s i c sys)\<lparr>loom_authority := x\<rparr>"
  "goose_fabric_get_cell_by_coord b (s\<lparr>loom_authority := x\<rparr>) c = goose_fabric_get_cell_by_coord b s c"
  "eviction_victim b (s\<lparr>loom_authority := x\<rparr>) = eviction_victim b s"
  "loom_ok b (s\<lparr>loom_authority := x\<rparr>) = loom_ok b s"
  by (simp_all add: evict_target_def publish_cell_def goose_fabric_get_cell_by_coord_def eviction_victim_def loom_ok_def Let_def)

text \<open>The slot an allocation writes, and the state in which it does.\<close>

definition slot_taken :: "build \<Rightarrow> loom \<Rightarrow> nat \<Rightarrow> loom \<Rightarrow> bool" where
  "slot_taken b s idx s1 \<longleftrightarrow>
     (fabric_cell_count s < fabric_max b \<and> idx = fabric_cell_count s \<and> s1 = s\<lparr>fabric_cell_count := fabric_cell_count s + 1\<rparr>)
     \<or> (\<not> fabric_cell_count s < fabric_max b \<and> eviction_victim b s = Some idx \<and> s1 = evict_target b s idx)"

lemma alloc_in_loom_outcome:
  assumes ok: "loom_ok b s" and c: "length c = 9" and free: "\<not> loom_authority s"
    and run: "alloc_in_loom b s name c sys ret = (res, s')"
  obtains
    (present) i g where "goose_fabric_get_cell_by_coord b s c = Some i" "res = (if ret then Some i else None)"
      "s' = s\<lparr>goonies := g\<rparr>" "goonies_ok b g" "resolve g = resolve (goonies s) \<or> resolve g = bound (goonies s) name c"
  | (refused) g where "goose_fabric_get_cell_by_coord b s c = None" "res = None"
      "s' = s\<lparr>goonies := g\<rparr>" "goonies_ok b g" "resolve g = resolve (goonies s)"
      "fabric_cell_count s < fabric_max b \<or> eviction_victim b s = None"
  | (wasted) t g where "goose_fabric_get_cell_by_coord b s c = None" "res = None" "\<not> fabric_cell_count s < fabric_max b"
      "eviction_victim b s = Some t" "s' = (evict_target b s t)\<lparr>goonies := g\<rparr>" "goonies_ok b g"
      "resolve g = resolve (goonies (evict_target b s t))"
  | (made) idx s1 g where "goose_fabric_get_cell_by_coord b s c = None" "res = Some idx" "slot_taken b s idx s1"
      "s' = publish_cell b (s1\<lparr>goonies := g\<rparr>) idx c sys" "goonies_ok b g" "resolve g = bound (goonies s1) name c"
proof -
  let ?l = "s\<lparr>loom_authority := True\<rparr>"
  have u: "goose_loom_unlock (t\<lparr>loom_authority := x\<rparr>) = t" if "\<not> loom_authority t" for t :: loom and x
    using that by (simp add: goose_loom_unlock_def)
  have lock: "goose_loom_try_lock s = (True, ?l)" using free by (simp add: goose_loom_try_lock_def)
  have okl: "loom_ok b ?l" using ok by simp
  show ?thesis
  proof (cases "goose_fabric_get_cell_by_coord b s c")
    case (Some i)
    obtain acc s1 where r: "register_opt b ?l name c sys = (acc, s1)" by fastforce
    have "goonies ?l = goonies s" by simp
    note cases = register_opt_cases [OF okl c r, unfolded this]
    obtain g where g: "s1 = ?l\<lparr>goonies := g\<rparr>" "goonies_ok b g"
      "\<not> acc \<Longrightarrow> resolve g = resolve (goonies s)" "acc \<Longrightarrow> resolve g = bound (goonies s) name c"
      using cases by blast
    have "res = (if ret then Some i else None)" "s' = s\<lparr>goonies := g\<rparr>"
      using run Some lock r g(1) free by (auto simp: alloc_in_loom_def goose_loom_unlock_def Let_def)
    with Some g show ?thesis using present by blast
  next
    case None
    show ?thesis
    proof (cases "claim_slot b ?l")
      case cl: None
      have "res = None" "s' = s\<lparr>goonies := goonies s\<rparr>"
        using run None lock cl free by (auto simp: alloc_in_loom_def goose_loom_unlock_def)
      moreover have "eviction_victim b s = None" using cl by (auto simp: claim_slot_def split: if_splits option.splits)
      ultimately show ?thesis using None refused loom_okD(5) [OF ok] by blast
    next
      case cl: (Some claim)
      obtain idx app l1 where claim: "claim = (idx, app, l1)" by (cases claim) auto
      define s1 where "s1 = l1\<lparr>loom_authority := False\<rparr>"
      have slot: "slot_taken b s idx s1" "l1 = s1\<lparr>loom_authority := True\<rparr>" "app \<longleftrightarrow> fabric_cell_count s < fabric_max b"
        "\<not> loom_authority s1"
        using cl free by (auto simp: claim_slot_def claim slot_taken_def s1_def split: if_splits option.splits)
      have ok1: "loom_ok b s1"
        using slot(1) append_ok(1) [OF ok] evict_ok(1) [OF ok] victim_Some by (auto simp: slot_taken_def)
      obtain acc s2 where r: "register_opt b l1 name c sys = (acc, s2)" by fastforce
      have "loom_ok b l1" "goonies l1 = goonies s1" using ok1 slot(2) by simp_all
      note cases = register_opt_cases [OF this(1) c r, unfolded this(2)]
      obtain g where g: "s2 = l1\<lparr>goonies := g\<rparr>" "goonies_ok b g"
        "\<not> acc \<Longrightarrow> resolve g = resolve (goonies s1)" "acc \<Longrightarrow> resolve g = bound (goonies s1) name c"
        using cases by blast
      show ?thesis
      proof (cases acc)
        case True
        have "publish_cell b s2 idx c sys = (publish_cell b (s1\<lparr>goonies := g\<rparr>) idx c sys)\<lparr>loom_authority := True\<rparr>"
          unfolding g(1) slot(2) authority_commutes(2) [symmetric] by (rule arg_cong [where f = "\<lambda>t. publish_cell b t idx c sys"]) simp
        then have "res = Some idx" "s' = publish_cell b (s1\<lparr>goonies := g\<rparr>) idx c sys"
          using run None lock cl claim r True u [of "publish_cell b (s1\<lparr>goonies := g\<rparr>) idx c sys" True] slot(4)
          by (auto simp: alloc_in_loom_def)
        with None slot(1) g True show ?thesis using made by blast
      next
        case False
        have s': "res = None" "s' = goose_loom_unlock (if app then s2\<lparr>fabric_cell_count := fabric_cell_count s2 - 1\<rparr> else s2)"
          using run None lock cl claim r False by (auto simp: alloc_in_loom_def)
        show ?thesis
        proof (cases "fabric_cell_count s < fabric_max b")
          case True
          then have "s1 = s\<lparr>fabric_cell_count := fabric_cell_count s + 1\<rparr>" using slot(1) by (simp add: slot_taken_def)
          then have "s' = s\<lparr>goonies := g\<rparr>" "resolve g = resolve (goonies s)"
            using s'(2) slot(2,3) g(1,3) False True free by (simp_all add: goose_loom_unlock_def)
          with None s'(1) g(2) True show ?thesis using refused by blast
        next
          case no: False
          then have "eviction_victim b s = Some idx" "s1 = evict_target b s idx" using slot(1) by (simp_all add: slot_taken_def)
          moreover have "s' = s1\<lparr>goonies := g\<rparr>"
            using s'(2) slot(2-4) g(1) no by (simp add: goose_loom_unlock_def)
          ultimately show ?thesis using None s'(1) g(2,3) False no wasted by blast
        qed
      qed
    qed
  qed
qed

section \<open>What an allocation keeps\<close>

lemma coord_equal_refl [simp]: "goose_coord_equal c c"
  by (simp add: coord_equal_key)

lemma evict_get:
  assumes ok: "loom_ok b s" and t: "t < fabric_max b"
  shows "goose_fabric_get_cell_by_coord b (evict_target b s t) c =
    (if goose_coord_equal c (coord (fabric_cells s ! t)) then None else goose_fabric_get_cell_by_coord b s c)"
proof -
  have "goose_fabric_get_cell_by_coord b (evict_target b s t) c = Some j \<longleftrightarrow>
      (if goose_coord_equal c (coord (fabric_cells s ! t)) then None else goose_fabric_get_cell_by_coord b s c) = Some j" for j
    by (auto simp: get_cell_iff [OF evict_ok(1) [OF assms]] get_cell_iff [OF ok] evict_ok(2) [OF assms] coord_equal_key)
  then show ?thesis by (rule same_lookup)
qed

lemma slot_taken_facts:
  assumes ok: "loom_ok b s" and slot: "slot_taken b s i s1"
  shows "loom_ok b s1" "i < fabric_cell_count s1" "\<not> indexed b s1 i" "fabric_cells s1 = fabric_cells s"
    "loom_authority s1 = loom_authority s" "fabric_version s1 = fabric_version s" "fabric_cell_count s \<le> fabric_cell_count s1"
    "ghost_counter s1 = ghost_counter s" "peers s1 = peers s"
    "goose_fabric_get_cell_by_coord b s1 c = (if i < fabric_cell_count s \<and> goose_coord_equal c (coord (fabric_cells s ! i))
       then None else goose_fabric_get_cell_by_coord b s c)"
    "i < fabric_cell_count s \<Longrightarrow> cell_is_evictable (fabric_cells s ! i)"
    "indexed b s1 j \<longleftrightarrow> indexed b s j \<and> \<not> (i < fabric_cell_count s \<and> goose_coord_equal (coord (fabric_cells s ! j)) (coord (fabric_cells s ! i)))"
    "i < fabric_max b"
proof -
  have "loom_ok b s1 \<and> i < fabric_cell_count s1 \<and> \<not> indexed b s1 i \<and> fabric_cells s1 = fabric_cells s
    \<and> loom_authority s1 = loom_authority s \<and> fabric_version s1 = fabric_version s \<and> fabric_cell_count s \<le> fabric_cell_count s1
    \<and> ghost_counter s1 = ghost_counter s \<and> peers s1 = peers s
    \<and> goose_fabric_get_cell_by_coord b s1 c = (if i < fabric_cell_count s \<and> goose_coord_equal c (coord (fabric_cells s ! i))
       then None else goose_fabric_get_cell_by_coord b s c)
    \<and> (i < fabric_cell_count s \<longrightarrow> cell_is_evictable (fabric_cells s ! i))
    \<and> (indexed b s1 j \<longleftrightarrow> indexed b s j \<and> \<not> (i < fabric_cell_count s \<and> goose_coord_equal (coord (fabric_cells s ! j)) (coord (fabric_cells s ! i))))
    \<and> i < fabric_max b"
  proof (cases "fabric_cell_count s < fabric_max b")
    case True
    with slot have i: "i = fabric_cell_count s" and s1: "s1 = s\<lparr>fabric_cell_count := fabric_cell_count s + 1\<rparr>"
      by (simp_all add: slot_taken_def)
    note A = append_ok [OF ok True, folded s1]
    have ix: "indexed b s1 k = indexed b s k" for k by (simp add: indexed_def s1)
    have "goose_fabric_get_cell_by_coord b s1 c = Some k \<longleftrightarrow> goose_fabric_get_cell_by_coord b s c = Some k" for k
      by (simp add: get_cell_iff [OF A(1)] get_cell_iff [OF ok] ix) (simp add: s1)
    then have "goose_fabric_get_cell_by_coord b s1 c = goose_fabric_get_cell_by_coord b s c" by (rule same_lookup)
    with A ix True show ?thesis by (simp add: s1 i)
  next
    case False
    with slot have v: "eviction_victim b s = Some i" and s1: "s1 = evict_target b s i" by (simp_all add: slot_taken_def)
    from victim_Some [OF v] have i: "i < fabric_max b" "cell_is_evictable (fabric_cells s ! i)" by auto
    have cnt: "fabric_cell_count s = fabric_max b" using False loom_okD(3) [OF ok] by simp
    show ?thesis
      using evict_ok(1) [OF ok i(1)] evict_ok(2) [OF ok i(1), of i] evict_ok(2) [OF ok i(1), of j] evict_get [OF ok i(1), of c] i cnt
      by (simp add: s1)
  qed
  then show "loom_ok b s1" "i < fabric_cell_count s1" "\<not> indexed b s1 i" "fabric_cells s1 = fabric_cells s"
    "loom_authority s1 = loom_authority s" "fabric_version s1 = fabric_version s" "fabric_cell_count s \<le> fabric_cell_count s1"
    "ghost_counter s1 = ghost_counter s" "peers s1 = peers s"
    "goose_fabric_get_cell_by_coord b s1 c = (if i < fabric_cell_count s \<and> goose_coord_equal c (coord (fabric_cells s ! i))
       then None else goose_fabric_get_cell_by_coord b s c)"
    "i < fabric_cell_count s \<Longrightarrow> cell_is_evictable (fabric_cells s ! i)"
    "indexed b s1 j \<longleftrightarrow> indexed b s j \<and> \<not> (i < fabric_cell_count s \<and> goose_coord_equal (coord (fabric_cells s ! j)) (coord (fabric_cells s ! i)))"
    "i < fabric_max b"
    by blast+
qed

lemma get_goonies [simp]: "goose_fabric_get_cell_by_coord b (s\<lparr>goonies := g\<rparr>) c = goose_fabric_get_cell_by_coord b s c"
  by (simp add: goose_fabric_get_cell_by_coord_def)

lemma made_facts:
  fixes sys
  assumes ok: "loom_ok b s" and c: "length c = 9" and none: "goose_fabric_get_cell_by_coord b s c = None"
    and slot: "slot_taken b s i s1" and g: "goonies_ok b g"
  defines "s' \<equiv> publish_cell b (s1\<lparr>goonies := g\<rparr>) i c sys"
  shows "loom_ok b s'" "goose_fabric_get_cell_by_coord b s' c' = (if goose_coord_equal c' c then Some i
      else if i < fabric_cell_count s \<and> goose_coord_equal c' (coord (fabric_cells s ! i)) then None
      else goose_fabric_get_cell_by_coord b s c')"
    "fabric_cells s' = (fabric_cells s)[i := fresh_cell c (if sys then GOOSE_CELL_PINNED else GOOSE_CELL_VIRTUAL)]"
    "indexed b s' j \<longleftrightarrow> j = i \<or> indexed b s1 j"
proof -
  note F = slot_taken_facts [OF ok slot]
  have ok1: "loom_ok b (s1\<lparr>goonies := g\<rparr>)" by (rule goonies_update_ok [OF F(1) g])
  have i: "i < fabric_cell_count (s1\<lparr>goonies := g\<rparr>)" "\<not> indexed b (s1\<lparr>goonies := g\<rparr>) i" using F(2,3) by simp_all
  have n: "goose_fabric_get_cell_by_coord b (s1\<lparr>goonies := g\<rparr>) c = None" using F(10) [of c] none by simp
  show "loom_ok b s'" unfolding s'_def by (rule publish_ok(1) [OF ok1 i c n])
  show "indexed b s' j \<longleftrightarrow> j = i \<or> indexed b s1 j"
    unfolding s'_def using publish_ok(2) [OF ok1 i c n] by simp
  show "goose_fabric_get_cell_by_coord b s' c' = (if goose_coord_equal c' c then Some i
      else if i < fabric_cell_count s \<and> goose_coord_equal c' (coord (fabric_cells s ! i)) then None
      else goose_fabric_get_cell_by_coord b s c')"
    unfolding s'_def publish_get [OF ok1 i c n] using F(10) [of c'] by simp
  show "fabric_cells s' = (fabric_cells s)[i := fresh_cell c (if sys then GOOSE_CELL_PINNED else GOOSE_CELL_VIRTUAL)]"
    using F(4) by (simp add: s'_def)
qed

text \<open>The fabric's invariant survives every allocation.\<close>

lemma alloc_in_loom_ok:
  assumes ok: "loom_ok b s" and c: "length c = 9" and free: "\<not> loom_authority s"
    and run: "alloc_in_loom b s name c sys ret = (res, s')"
  shows "loom_ok b s'" "\<not> loom_authority s'" "\<And>i. res = Some i \<Longrightarrow> i < fabric_cell_count s'"
    "ghost_counter s' = ghost_counter s" "peers s' = peers s"
proof -
  have "loom_ok b s' \<and> \<not> loom_authority s' \<and> (\<forall>i. res = Some i \<longrightarrow> i < fabric_cell_count s')
    \<and> ghost_counter s' = ghost_counter s \<and> peers s' = peers s"
    using ok c free run
  proof (cases rule: alloc_in_loom_outcome)
    case (present i g)
    with goonies_update_ok [OF ok] free get_cell_live [OF ok] show ?thesis by auto
  next
    case (refused g)
    with goonies_update_ok [OF ok] free show ?thesis by auto
  next
    case (wasted t g)
    with evict_ok(1) [OF ok, of t] victim_Some goonies_update_ok free show ?thesis by auto
  next
    case (made i s1 g)
    from made_facts(1) [OF ok c made(1,3,5), of sys] slot_taken_facts(2,5,8,9) [OF ok made(3)] made free
    show ?thesis by simp
  qed
  then show "loom_ok b s'" "\<not> loom_authority s'" "\<And>i. res = Some i \<Longrightarrow> i < fabric_cell_count s'"
    "ghost_counter s' = ghost_counter s" "peers s' = peers s" by blast+
qed

lemma alloc_in_loom_busy: "loom_authority s \<Longrightarrow> alloc_in_loom b s name c sys ret = (None, s)"
  by (simp add: alloc_in_loom_def goose_loom_try_lock_def)

section \<open>The heap-pressure gate\<close>

text \<open>The catalog holds no row for the heap-pressure vital, so looking it up pages nothing in.\<close>

definition gate_quiet :: "build \<Rightarrow> bool" where
  "gate_quiet b \<longleftrightarrow> isl (goose_shadow_resolve (shadow_map b) heap_pressure_name)"

definition heap_vital :: "build \<Rightarrow> loom \<Rightarrow> nat option" where
  "heap_vital b s = (case goonies_resolve b (goonies s) heap_pressure_name of
      Inr c \<Rightarrow> goose_fabric_get_cell_by_coord b s c | Inl _ \<Rightarrow> None)"

definition gate_open :: "build \<Rightarrow> loom \<Rightarrow> bool" where
  "gate_open b s \<longleftrightarrow> (case heap_vital b s of None \<Rightarrow> True | Some i \<Rightarrow> state (fabric_cells s ! i) \<noteq> -1)"

lemma heap_not_peer: "\<not> in_ns heap_pressure_name GOOSE_NS_PEER"
  by (simp add: heap_pressure_name_def in_ns_def GOOSE_NS_PEER_def c_str_def strncmp_eq_def)

lemma alloc_quiet:
  assumes "gate_quiet b"
  shows "fabric_alloc_internal b s name c sys ret =
    (if \<not> sys \<and> \<not> gate_open b s then (None, s) else alloc_in_loom b s name c sys ret)"
proof (cases sys)
  case False
  have "goonies_resolve_cell b s (Some heap_pressure_name) = (heap_vital b s, s)"
    using assms heap_not_peer
    by (auto simp: goonies_resolve_cell.simps heap_vital_def gate_quiet_def split: sum.splits)
  with False show ?thesis
    by (auto simp: fabric_alloc_internal.simps gate_open_def split: option.splits)
qed (simp add: fabric_alloc_internal.simps)

section \<open>What a successful allocation does\<close>

definition all_indexed :: "build \<Rightarrow> loom \<Rightarrow> bool" where
  "all_indexed b s \<longleftrightarrow> (\<forall>i < fabric_cell_count s. indexed b s i)"

lemma all_indexed_get:
  "loom_ok b s \<Longrightarrow> all_indexed b s \<Longrightarrow> i < fabric_cell_count s
    \<Longrightarrow> goose_fabric_get_cell_by_coord b s c = Some i \<longleftrightarrow> goose_coord_equal c (coord (fabric_cells s ! i))"
  by (auto simp: get_cell_iff all_indexed_def coord_equal_key)

text \<open>Two indexed cells never share a coordinate.\<close>

lemma indexed_unique:
  assumes "loom_ok b s" "indexed b s i" "indexed b s j" "goose_coord_equal (coord (fabric_cells s ! i)) (coord (fabric_cells s ! j))"
  shows "i = j"
proof -
  have "goose_fabric_get_cell_by_coord b s (coord (fabric_cells s ! j)) = Some i"
    "goose_fabric_get_cell_by_coord b s (coord (fabric_cells s ! j)) = Some j"
    using assms by (simp_all add: get_cell_iff)
  then show ?thesis by simp
qed

lemma made_all_indexed:
  assumes ok: "loom_ok b s" and all: "all_indexed b s" and c: "length c = 9" and none: "goose_fabric_get_cell_by_coord b s c = None"
    and slot: "slot_taken b s i s1" and g: "goonies_ok b g"
  shows "all_indexed b (publish_cell b (s1\<lparr>goonies := g\<rparr>) i c sys)"
  unfolding all_indexed_def
proof (intro allI impI)
  note F = slot_taken_facts [OF ok slot]
  fix j assume "j < fabric_cell_count (publish_cell b (s1\<lparr>goonies := g\<rparr>) i c sys)"
  then have j: "j < fabric_cell_count s1" by simp
  show "indexed b (publish_cell b (s1\<lparr>goonies := g\<rparr>) i c sys) j"
  proof (cases "j = i")
    case False
    have js: "j < fabric_cell_count s" using j slot False by (auto simp: slot_taken_def)
    then have "indexed b s j" using all by (simp add: all_indexed_def)
    moreover have "\<not> (i < fabric_cell_count s \<and> goose_coord_equal (coord (fabric_cells s ! j)) (coord (fabric_cells s ! i)))"
      using indexed_unique [OF ok, of j i] all js False by (auto simp: all_indexed_def)
    ultimately show ?thesis using made_facts(4) [OF ok c none slot g, of sys j] F(12) [of j] by simp
  qed (simp add: made_facts(4) [OF ok c none slot g])
qed

text \<open>The one name an eviction may drop.\<close>

lemma evict_names:
  assumes ok: "loom_ok b s" and t: "t < fabric_max b"
  shows "\<exists>lost. (\<forall>n. lost = Some n \<longrightarrow> resolve (goonies s) n = Some (coord (fabric_cells s ! t)))
    \<and> (\<forall>n. resolve (goonies (evict_target b s t)) n = (if lost = Some n then None else resolve (goonies s) n))"
proof (cases "goose_registry_find_coord (goonies s) (coord (fabric_cells s ! t)) = EMPTY")
  case True
  then show ?thesis by (auto simp: evict_target_def Let_def intro!: exI [of _ None])
next
  case False
  note P = loom_okD [OF ok]
  from goonies_remove [OF P(5) P(8) [OF t] False] obtain j where j: "j < count (goonies s)"
      "ecoord (entries (goonies s) ! j) = coord (fabric_cells s ! t)"
      "resolve (snd (goose_registry_remove_coord (goonies s) (coord (fabric_cells s ! t))))
         = (resolve (goonies s))(ename (entries (goonies s) ! j) := None)" by metis
  have "resolve (goonies s) (ename (entries (goonies s) ! j)) = Some (coord (fabric_cells s ! t))"
    using resolve_Some [OF goonies_okD(1) [OF P(5)] j(1) refl] j(2) by simp
  with False j(3) show ?thesis
    by (intro exI [of _ "Some (ename (entries (goonies s) ! j))"]) (auto simp: evict_target_def Let_def)
qed

lemma slot_taken_names:
  assumes ok: "loom_ok b s" and slot: "slot_taken b s i s1"
  shows "\<exists>lost. (\<forall>n. lost = Some n \<longrightarrow> i < fabric_cell_count s \<and> resolve (goonies s) n = Some (coord (fabric_cells s ! i)))
    \<and> (\<forall>n. resolve (goonies s1) n = (if lost = Some n then None else resolve (goonies s) n))"
proof (cases "fabric_cell_count s < fabric_max b")
  case True
  with slot show ?thesis by (intro exI [of _ None]) (auto simp: slot_taken_def)
next
  case False
  with slot have v: "eviction_victim b s = Some i" "s1 = evict_target b s i" by (simp_all add: slot_taken_def)
  have "i < fabric_max b" "fabric_cell_count s = fabric_max b" using victim_Some [OF v(1)] False loom_okD(3) [OF ok] by simp_all
  with evict_names [OF ok, of i] v(2) show ?thesis by auto
qed

text \<open>
  C28: what an allocation does when it succeeds, in any sound fabric whose lock is free, on a
  board whose catalog has no row for the heap-pressure vital. The coordinate was not found
  before and is found afterwards, at a new cell, under the name it was given. Exactly one slot
  is written: a new one, or that of a cell that may be reclaimed. Every other coordinate is
  found as before, except the one the reclaimed slot held, which is found no more; every other
  name is bound as before, except at most one, which was bound to that coordinate. The fabric
  stays sound and unlocked. When the live cells were all indexed, as they are until a refused
  name leaves a stale slot, they still are, and the only coordinate lost is that at which the
  reclaimed cell itself was found.
\<close>

theorem fabric_alloc_effect:
  assumes ok: "loom_ok b s" and free: "\<not> loom_authority s" and quiet: "gate_quiet b"
    and c: "length c = 9" and run: "goose_fabric_alloc_cell b s name c sys = (Some i, s')"
  shows "loom_ok b s' \<and> \<not> loom_authority s'
    \<and> goose_fabric_get_cell_by_coord b s c = None \<and> goose_fabric_get_cell_by_coord b s' c = Some i
    \<and> fabric_cells s' = (fabric_cells s)[i := fresh_cell c (if sys then GOOSE_CELL_PINNED else GOOSE_CELL_VIRTUAL)]
    \<and> (i < fabric_cell_count s \<longrightarrow> cell_is_evictable (fabric_cells s ! i))
    \<and> (\<forall>n. name = Some n \<longrightarrow> resolve (goonies s') n = Some c)
    \<and> (\<exists>lost. (\<forall>n. lost = Some n \<longrightarrow> i < fabric_cell_count s \<and> resolve (goonies s) n = Some (coord (fabric_cells s ! i)))
         \<and> (\<forall>n. name \<noteq> Some n \<longrightarrow> resolve (goonies s') n = (if lost = Some n then None else resolve (goonies s) n)))
    \<and> (\<forall>c'. \<not> goose_coord_equal c' c \<longrightarrow> goose_fabric_get_cell_by_coord b s' c' =
         (if i < fabric_cell_count s \<and> goose_coord_equal c' (coord (fabric_cells s ! i)) then None
          else goose_fabric_get_cell_by_coord b s c'))
    \<and> (all_indexed b s \<longrightarrow> all_indexed b s'
         \<and> (\<forall>c'. \<not> goose_coord_equal c' c \<longrightarrow> goose_fabric_get_cell_by_coord b s' c' =
              (if goose_fabric_get_cell_by_coord b s c' = Some i then None else goose_fabric_get_cell_by_coord b s c')))"
proof -
  from run alloc_quiet [OF quiet] have "alloc_in_loom b s name c sys False = (Some i, s')"
    by (simp add: goose_fabric_alloc_cell_def split: if_splits)
  with ok c free show ?thesis
  proof (cases rule: alloc_in_loom_outcome)
    case (made k s1 g)
    then have slot: "slot_taken b s i s1" and s': "s' = publish_cell b (s1\<lparr>goonies := g\<rparr>) i c sys" by simp_all
    note M = made_facts [OF ok c made(1) slot made(5), of sys, folded s'] and F = slot_taken_facts [OF ok slot]
    have all': "all_indexed b s'" if "all_indexed b s"
      unfolding s' by (rule made_all_indexed [OF ok that c made(1) slot made(5)])
    have get: "goose_fabric_get_cell_by_coord b s' c' =
         (if goose_fabric_get_cell_by_coord b s c' = Some i then None else goose_fabric_get_cell_by_coord b s c')"
      if "all_indexed b s" "\<not> goose_coord_equal c' c" for c'
      using M(2) [of c'] that(2) all_indexed_get [OF ok that(1), of i c'] get_cell_live [OF ok, of c' i] by auto
    obtain lost where lost: "\<And>n. lost = Some n \<Longrightarrow> i < fabric_cell_count s \<and> resolve (goonies s) n = Some (coord (fabric_cells s ! i))"
      "\<And>n. resolve (goonies s1) n = (if lost = Some n then None else resolve (goonies s) n)"
      using slot_taken_names [OF ok slot] by blast
    have g: "goonies s' = g" by (simp add: s')
    have "resolve (goonies s') n = (if lost = Some n then None else resolve (goonies s) n)" if "name \<noteq> Some n" for n
      using that made(6) lost(2) [of n] by (auto simp: g bound_def split: option.splits)
    moreover have "resolve (goonies s') n = Some c" if "name = Some n" for n
      using made(6) that by (simp add: g bound_def)
    ultimately show ?thesis using M F(5,11) free made(1) lost(1) all' get by (auto simp: s' intro!: exI [of _ lost])
  qed simp_all
qed

text \<open>
  There is a place for a cell: a slot and a registry entry left, or, in a full fabric, a cell
  that may be reclaimed. When the registry is full as well, reclaiming must also free an entry,
  so the reclaimable cells must have names.
\<close>

definition can_place :: "build \<Rightarrow> loom \<Rightarrow> bool" where
  "can_place b s \<longleftrightarrow>
     (if fabric_cell_count s < fabric_max b then count (goonies s) < fabric_max b
      else (\<exists>t < fabric_max b. cell_is_evictable (fabric_cells s ! t))
        \<and> (count (goonies s) < fabric_max b
           \<or> (\<forall>t < fabric_max b. cell_is_evictable (fabric_cells s ! t) \<longrightarrow>
                goose_registry_find_coord (goonies s) (coord (fabric_cells s ! t)) \<noteq> EMPTY)))"

definition name_acceptable :: "build \<Rightarrow> cstring \<Rightarrow> bool \<Rightarrow> bool" where
  "name_acceptable b n is_system \<longleftrightarrow> 3 \<le> length n \<and> length n < GOOSE_REGISTRY_NAME_MAX \<and> (is_system \<or> \<not> protected_name b n)"

text \<open>Wherever the reclaimable cell is, the scan finds one, and its eviction leaves room for a name.\<close>

lemma full_claim:
  assumes ok: "loom_ok b s" and full: "\<not> fabric_cell_count s < fabric_max b" and place: "can_place b s"
  obtains t where "eviction_victim b s = Some t" "t < fabric_max b" "loom_ok b (evict_target b s t)"
    "count (goonies (evict_target b s t)) < fabric_max b"
proof -
  note P = loom_okD [OF ok]
  from place full obtain u where "u < fabric_max b" "cell_is_evictable (fabric_cells s ! u)" by (auto simp: can_place_def)
  with victim_None [of b s u] P(7) obtain t where t: "eviction_victim b s = Some t" by (cases "eviction_victim b s") auto
  note T = victim_Some [OF t]
  have le: "count (goonies s) \<le> fabric_max b"
    using names_okD(1) [OF goonies_okD(1) [OF P(5)]] goonies_okD(2) [OF P(5)] by simp
  have "count (goonies (evict_target b s t)) < fabric_max b"
  proof (cases "goose_registry_find_coord (goonies s) (coord (fabric_cells s ! t)) = EMPTY")
    case True
    with place full T have "count (goonies s) < fabric_max b" by (auto simp: can_place_def)
    with True show ?thesis by (simp add: evict_target_def Let_def)
  next
    case False
    with goonies_remove [OF P(5) P(8) [of t]] T obtain i where "i < count (goonies s)"
      "count (snd (goose_registry_remove_coord (goonies s) (coord (fabric_cells s ! t)))) = count (goonies s) - 1" by metis
    with False le show ?thesis by (simp add: evict_target_def Let_def)
  qed
  with that [OF t] T evict_ok(1) [OF ok] show ?thesis by blast
qed

text \<open>
  C29: an allocation succeeds when it can. In a sound fabric with the lock free, on a board
  whose catalog has no row for the heap-pressure vital: if the coordinate has nine trits and is
  unoccupied, the heap gate is open or the system is asking, the name is one the registry
  accepts, and there is a place, that is room in fabric and registry or, in a full fabric, a
  reclaimable cell in whatever slot, then allocation answers a cell, found at that coordinate.
  When the registry is full too, the reclaimable cells must have names.
\<close>

theorem fabric_alloc_succeeds:
  assumes ok: "loom_ok b s" and free: "\<not> loom_authority s" and quiet: "gate_quiet b" and gate: "sys \<or> gate_open b s"
    and c: "length c = 9" "goose_fabric_get_cell_by_coord b s c = None" and place: "can_place b s" and n: "name_acceptable b n sys"
  shows "\<exists>i s'. goose_fabric_alloc_cell b s (Some n) c sys = (Some i, s') \<and> goose_fabric_get_cell_by_coord b s' c = Some i"
proof -
  let ?l = "s\<lparr>loom_authority := True\<rparr>"
  have P5: "goonies_ok b (goonies s)" and P1: "build_ok b" using loom_okD [OF ok] by blast+
  obtain i app l1 where cl: "claim_slot b ?l = Some (i, app, l1)" and g: "goonies_ok b (goonies l1)" "count (goonies l1) < fabric_max b"
  proof (cases "fabric_cell_count s < fabric_max b")
    case True
    with place P5 that show ?thesis by (simp add: claim_slot_def can_place_def)
  next
    case False
    from full_claim [OF ok False place] obtain t where t: "eviction_victim b s = Some t" "t < fabric_max b"
      "loom_ok b (evict_target b s t)" "count (goonies (evict_target b s t)) < fabric_max b" .
    with that [of t False "(evict_target b s t)\<lparr>loom_authority := True\<rparr>"] False loom_okD(5) [OF t(3)] show ?thesis
      by (simp add: claim_slot_def)
  qed
  obtain res r where reg: "goonies_register b (goonies l1) (Some n) c sys = (res, r)" by fastforce
  have acc: "res = Inr ()" using goonies_run(2) [OF P1 g(1) c(1) reg] n g(2) by (simp add: name_acceptable_def)
  have lock: "goose_loom_try_lock s = (True, ?l)" using free by (simp add: goose_loom_try_lock_def)
  from c(2) cl reg acc lock have "fst (alloc_in_loom b s (Some n) c sys False) = Some i"
    by (simp add: alloc_in_loom_def register_opt_def)
  then obtain s' where run: "alloc_in_loom b s (Some n) c sys False = (Some i, s')"
    by (cases "alloc_in_loom b s (Some n) c sys False") simp
  have "goose_fabric_get_cell_by_coord b s' c = Some i"
    using ok c(1) free run
  proof (cases rule: alloc_in_loom_outcome)
    case (made k s1 g)
    with made_facts(2) [OF ok c(1) made(1,3,5), of sys c] show ?thesis by simp
  qed simp_all
  with run alloc_quiet [OF quiet, of s "Some n" c sys False] gate show ?thesis
    by (auto simp: goose_fabric_alloc_cell_def)
qed

section \<open>Soundness of every operation\<close>

text \<open>
  A binding passes the Sanctuary Guard: nothing, a GPIO pin, a register of a whitelisted page,
  or any register on a cell of the system-only type.
\<close>

definition binding_ok :: "goose_cell \<Rightarrow> bool" where
  "binding_ok cell \<longleftrightarrow> hardware_addr cell \<le> GOOSE_AGENCY_GPIO_MAX
     \<or> hardware_addr cell \<ge> GOOSE_AGENCY_MMIO_BASE
        \<and> (\<not> goose_fabric_addr_is_sanctuary (hardware_addr cell) \<or> ctype cell = GOOSE_CELL_SYSTEM_ONLY)"

definition all_cells :: "(goose_cell \<Rightarrow> bool) \<Rightarrow> loom \<Rightarrow> bool" where
  "all_cells P s \<longleftrightarrow> (\<forall>i < fabric_cell_count s. P (fabric_cells s ! i))"

definition sound :: "build \<Rightarrow> loom \<Rightarrow> bool" where
  "sound b s \<longleftrightarrow> loom_ok b s \<and> \<not> loom_authority s \<and> all_cells binding_ok s"

lemma soundD: "sound b s \<Longrightarrow> loom_ok b s" "sound b s \<Longrightarrow> \<not> loom_authority s"
  by (simp_all add: sound_def)

lemma sound_frame:
  "sound b (s\<lparr>queries := q\<rparr>) = sound b s" "sound b (s\<lparr>ghost_counter := g\<rparr>) = sound b s"
  by (simp_all add: sound_def loom_ok_def all_cells_def)

lemma fresh_binding_ok: "binding_ok (fresh_cell c ty)"
  by (simp add: binding_ok_def fresh_cell_def GOOSE_AGENCY_GPIO_MAX_def)

lemma sound_update:
  assumes "sound b s" "\<And>c. coord (f c) = coord c" "i < fabric_cell_count s \<Longrightarrow> binding_ok (f (fabric_cells s ! i))"
  shows "sound b (update_cell s i f)"
proof -
  have "binding_ok (fabric_cells (update_cell s i f) ! j)" if "j < fabric_cell_count s" for j
    using assms(1,3) that loom_okD(2,3) [OF soundD(1) [OF assms(1)]]
    by (cases "i = j") (simp_all add: update_cell_def sound_def all_cells_def)
  moreover have "loom_authority (update_cell s i f) = loom_authority s" "fabric_cell_count (update_cell s i f) = fabric_cell_count s"
    by (simp_all add: update_cell_def)
  ultimately show ?thesis using assms(1) update_cell_ok(1) [OF soundD(1) [OF assms(1)] assms(2), of i]
    by (simp add: sound_def all_cells_def)
qed

text \<open>An update that leaves the binding alone.\<close>

lemma sound_update_other:
  "sound b s \<Longrightarrow> (\<And>c. coord (f c) = coord c) \<Longrightarrow> (\<And>c. binding_ok (f c) = binding_ok c) \<Longrightarrow> sound b (update_cell s i f)"
  by (rule sound_update) (simp_all add: sound_def all_cells_def)

lemma binding_other [simp]: "binding_ok (c\<lparr>bit_mask := m\<rparr>) = binding_ok c" "binding_ok (c\<lparr>peer_id := p\<rparr>) = binding_ok c"
  by (simp_all add: binding_ok_def)

lemma set_agency_cases:
  obtains e where "goose_fabric_set_agency s (Some i) addr ty = (Inl e, s)"
  | "agency_guard (ctype (fabric_cells s ! i)) addr ty = Inr ()"
    "goose_fabric_set_agency s (Some i) addr ty = (Inr (), update_cell s i (\<lambda>c. c\<lparr>hardware_addr := addr, ctype := ty\<rparr>))"
  by (cases "agency_guard (ctype (fabric_cells s ! i)) addr ty") (auto simp: goose_fabric_set_agency_def update_cell_def)

lemma guard_binding_ok: "agency_guard cty addr ty = Inr () \<Longrightarrow> binding_ok (c\<lparr>hardware_addr := addr, ctype := ty\<rparr>)"
  by (auto simp: agency_guard_def binding_ok_def split: if_splits)

lemma set_agency_sound:
  assumes "sound b s"
  shows "sound b (snd (goose_fabric_set_agency s cell addr ty))"
proof (cases cell)
  case (Some i)
  show ?thesis
  proof (cases rule: set_agency_cases [of s i addr ty])
    case 2
    have "sound b (update_cell s i (\<lambda>c. c\<lparr>hardware_addr := addr, ctype := ty\<rparr>))"
      by (rule sound_update [OF assms]) (simp_all add: guard_binding_ok [OF 2(1)])
    with 2 show ?thesis by (simp add: Some)
  qed (use assms Some in simp)
qed (simp add: goose_fabric_set_agency_def assms)

lemma alloc_in_loom_all_cells:
  assumes ok: "loom_ok b s" and c: "length c = 9" and free: "\<not> loom_authority s"
    and run: "alloc_in_loom b s name c sys ret = (res, s')" and all: "all_cells P s" and fresh: "\<And>ty. P (fresh_cell c ty)"
  shows "all_cells P s'"
  using ok c free run
proof (cases rule: alloc_in_loom_outcome)
  case (made i s1 g)
  note M = made_facts(3) [OF ok c made(1,3,5), of sys]
  have "fabric_cell_count s' = fabric_cell_count s1" using made(4) by simp
  moreover have "P (fabric_cells s' ! j)" if "j < fabric_cell_count s1" for j
  proof (cases "j = i")
    case True
    with M made(4) slot_taken_facts(13) [OF ok made(3)] loom_okD(2) [OF ok] fresh show ?thesis by simp
  next
    case False
    with that made(3) have "j < fabric_cell_count s" by (auto simp: slot_taken_def)
    with all M made(4) False show ?thesis by (simp add: all_cells_def)
  qed
  ultimately show ?thesis by (simp add: all_cells_def)
qed (use all in \<open>auto simp: all_cells_def\<close>)

lemma alloc_in_loom_sound:
  assumes "sound b s" "length c = 9" "alloc_in_loom b s name c sys ret = (res, s')"
  shows "sound b s'"
  using assms alloc_in_loom_ok(1,2) [of b s c name sys ret res s'] alloc_in_loom_all_cells [of b s c name sys ret res s' binding_ok]
    fresh_binding_ok by (simp add: sound_def)

lemma shadow_search_coord: "shadow_search m n lo hi = Inr (addr, msk, c, ty) \<Longrightarrow> length c = 9"
  by (induction m n lo hi rule: shadow_search.induct)
    (subst (asm) (2) shadow_search.simps, auto simp: Let_def shadow_answer_def goose_make_shadow_coord_def split: if_splits)

lemma shadow_coord: "goose_shadow_resolve m n = Inr (addr, msk, c, ty) \<Longrightarrow> length c = 9"
  by (auto simp: goose_shadow_resolve_def dest: shadow_search_coord)

lemma phantom_len [simp]: "length (phantom_coord g) = 9"
  by (simp add: phantom_coord_def)

text \<open>Paging a row in.\<close>

definition page_in :: "build \<Rightarrow> loom \<Rightarrow> cstring \<Rightarrow> shadow_hit \<Rightarrow> nat option \<times> loom" where
  "page_in b s name h =
     (case h of (addr, msk, c, ty) \<Rightarrow>
        (case alloc_in_loom b s (Some name) c True False of
           (None, s1) \<Rightarrow> (None, s1)
         | (Some i, s1) \<Rightarrow> (Some i, update_cell (snd (goose_fabric_set_agency s1 (Some i) addr ty)) i (\<lambda>c. c\<lparr>bit_mask := msk\<rparr>))))"

lemma resolve_plain:
  assumes "\<not> in_ns n GOOSE_NS_PEER"
  shows "goonies_resolve_cell b s (Some n) = (case goonies_resolve b (goonies s) n of
      Inr c \<Rightarrow> (goose_fabric_get_cell_by_coord b s c, s)
    | Inl _ \<Rightarrow> (case goose_shadow_resolve (shadow_map b) n of Inl _ \<Rightarrow> (None, s) | Inr h \<Rightarrow> page_in b s n h))"
  using assms
  by (subst goonies_resolve_cell.simps)
    (auto simp: page_in_def fabric_alloc_internal.simps update_cell_def Let_def split: sum.splits prod.splits option.splits)

lemma page_in_sound:
  assumes "sound b s" "goose_shadow_resolve m n = Inr h"
  shows "sound b (snd (page_in b s n h))"
proof -
  obtain addr msk c ty where h: "h = (addr, msk, c, ty)" by (cases h)
  have c: "length c = 9" using shadow_coord assms(2) h by blast
  obtain res s1 where run: "alloc_in_loom b s (Some n) c True False = (res, s1)" by fastforce
  have s1: "sound b s1" by (rule alloc_in_loom_sound [OF assms(1) c run])
  show ?thesis
  proof (cases res)
    case None
    with run s1 show ?thesis by (simp add: page_in_def h)
  next
    case (Some i)
    let ?s2 = "snd (goose_fabric_set_agency s1 (Some i) addr ty)"
    have s2: "sound b ?s2" by (rule set_agency_sound [OF s1])
    have "sound b (update_cell ?s2 i (\<lambda>c. c\<lparr>bit_mask := msk\<rparr>))" by (rule sound_update_other [OF s2]) simp_all
    with run Some show ?thesis by (simp add: page_in_def h)
  qed
qed

lemma resolve_plain_sound:
  "sound b s \<Longrightarrow> \<not> in_ns n GOOSE_NS_PEER \<Longrightarrow> sound b (snd (goonies_resolve_cell b s (Some n)))"
  using page_in_sound by (auto simp: resolve_plain split: sum.splits)

text \<open>The state in which an allocation takes the lock.\<close>

definition gate_state :: "build \<Rightarrow> loom \<Rightarrow> bool \<Rightarrow> loom" where
  "gate_state b s sys = (if sys then s else snd (goonies_resolve_cell b s (Some heap_pressure_name)))"

lemma gate_sound: "sound b s \<Longrightarrow> sound b (gate_state b s sys)"
  by (simp add: gate_state_def resolve_plain_sound heap_not_peer)

lemma alloc_internal_gate:
  "fabric_alloc_internal b s name c sys ret = (None, gate_state b s sys)
   \<or> fabric_alloc_internal b s name c sys ret = alloc_in_loom b (gate_state b s sys) name c sys ret"
  by (cases sys) (auto simp: fabric_alloc_internal.simps gate_state_def split: prod.splits)

lemma alloc_internal_sound:
  assumes "sound b s" "length c = 9" "fabric_alloc_internal b s name c sys ret = (res, s')"
  shows "sound b s'"
  using alloc_internal_gate [of b s name c sys ret] assms(3) gate_sound [OF assms(1), of sys]
    alloc_in_loom_sound [OF gate_sound [OF assms(1)] assms(2)] by (metis prod.inject)

lemma bind_peer_sound: "sound b s \<Longrightarrow> sound b (bind_peer s i n)"
  using sound_update_other [of b s "\<lambda>c. c\<lparr>peer_id := p\<rparr>" i for p]
  by (auto simp: bind_peer_def update_cell_def split: option.splits)

lemma resolve_sound:
  assumes "sound b s"
  shows "sound b (snd (goonies_resolve_cell b s name))"
proof (cases name)
  case (Some n)
  show ?thesis
  proof (cases "in_ns n GOOSE_NS_PEER")
    case True
    let ?s1 = "s\<lparr>queries := queries s @ [n], ghost_counter := ghost_counter s + 1\<rparr>"
    obtain ph s2 where run: "fabric_alloc_internal b ?s1 (Some n) (phantom_coord (ghost_counter s)) False False = (ph, s2)" by fastforce
    have "sound b ?s1" using assms by (simp add: sound_def loom_ok_def all_cells_def)
    from alloc_internal_sound [OF this phantom_len run] have "sound b s2" .
    then have "sound b (case ph of None \<Rightarrow> s2 | Some i \<Rightarrow> bind_peer s2 i n)" by (auto split: option.splits simp: bind_peer_sound)
    with run assms True show ?thesis
      by (auto simp: Some goonies_resolve_cell.simps Let_def split: sum.splits option.splits)
  qed (use resolve_plain_sound assms Some in auto)
qed (simp add: goonies_resolve_cell.simps assms)

section \<open>Resolving again\<close>

lemma resolve_goonies:
  assumes "build_ok b" "goonies_ok b reg"
  shows "goonies_resolve b reg n = (case resolve reg n of None \<Rightarrow> Inl REFLEX_ERR_NOT_FOUND | Some c \<Rightarrow> Inr c)"
  by (simp add: goonies_resolve_def ensure_init_id [OF assms] resolve_def Let_def)

text \<open>A cell just allocated answers to its name and its coordinate.\<close>

lemma alloc_in_loom_named:
  assumes "loom_ok b s" "length c = 9" "\<not> loom_authority s" "alloc_in_loom b s (Some n) c sys False = (Some i, s')"
  shows "resolve (goonies s') n = Some c" "goose_fabric_get_cell_by_coord b s' c = Some i"
    "fabric_cells s' ! i = fresh_cell c (if sys then GOOSE_CELL_PINNED else GOOSE_CELL_VIRTUAL)"
    "i < length (fabric_cells s')"
proof -
  have "resolve (goonies s') n = Some c \<and> goose_fabric_get_cell_by_coord b s' c = Some i
      \<and> fabric_cells s' ! i = fresh_cell c (if sys then GOOSE_CELL_PINNED else GOOSE_CELL_VIRTUAL) \<and> i < length (fabric_cells s')"
    using assms
  proof (cases rule: alloc_in_loom_outcome)
    case (made k s1 g)
    note M = made_facts [OF assms(1,2) made(1,3,5), of sys]
    have "k < fabric_max b" by (rule slot_taken_facts(13) [OF assms(1) made(3)])
    with made M(2) [of c] M(3) loom_okD(2) [OF assms(1)] show ?thesis by (simp add: bound_def)
  qed simp_all
  then show "resolve (goonies s') n = Some c" "goose_fabric_get_cell_by_coord b s' c = Some i"
    "fabric_cells s' ! i = fresh_cell c (if sys then GOOSE_CELL_PINNED else GOOSE_CELL_VIRTUAL)"
    "i < length (fabric_cells s')" by blast+
qed

lemma set_agency_frame:
  assumes "loom_ok b s"
  shows "goonies (snd (goose_fabric_set_agency s (Some i) addr ty)) = goonies s"
    "loom_ok b (snd (goose_fabric_set_agency s (Some i) addr ty))"
    "goose_fabric_get_cell_by_coord b (snd (goose_fabric_set_agency s (Some i) addr ty)) c = goose_fabric_get_cell_by_coord b s c"
proof -
  let ?f = "\<lambda>c. c\<lparr>hardware_addr := addr, ctype := ty\<rparr>" and ?t = "snd (goose_fabric_set_agency s (Some i) addr ty)"
  have "?t = s \<or> ?t = update_cell s i ?f" by (cases rule: set_agency_cases [of s i addr ty]) simp_all
  moreover have "goonies (update_cell s i ?f) = goonies s" by (simp add: update_cell_def)
  moreover have "loom_ok b (update_cell s i ?f)"
    "goose_fabric_get_cell_by_coord b (update_cell s i ?f) c = goose_fabric_get_cell_by_coord b s c"
    by (rule update_cell_ok [OF assms]; simp)+
  ultimately show "goonies ?t = goonies s" "loom_ok b ?t"
    "goose_fabric_get_cell_by_coord b ?t c = goose_fabric_get_cell_by_coord b s c" using assms by auto
qed

lemma resolve_registered:
  assumes "loom_ok b s" "resolve (goonies s) n = Some c"
  shows "goonies_resolve_cell b s (Some n) = (goose_fabric_get_cell_by_coord b s c, s)"
proof -
  have "goonies_resolve b (goonies s) n = Inr c"
    by (simp only: resolve_goonies [OF loom_okD(1,5) [OF assms(1)]] assms(2) option.case)
  then show ?thesis by (simp only: goonies_resolve_cell.simps(2) sum.case)
qed

definition phantom_request :: "loom \<Rightarrow> cstring \<Rightarrow> loom" where
  "phantom_request s n = s\<lparr>queries := queries s @ [n], ghost_counter := ghost_counter s + 1\<rparr>"

lemma resolve_unregistered:
  assumes "loom_ok b s" "resolve (goonies s) n = None"
  shows "in_ns n GOOSE_NS_PEER \<Longrightarrow> goonies_resolve_cell b s (Some n) =
      (case fabric_alloc_internal b (phantom_request s n) (Some n) (phantom_coord (ghost_counter s)) False False of
         (None, s2) \<Rightarrow> (None, s2) | (Some i, s2) \<Rightarrow> (Some i, bind_peer s2 i n))"
    "\<not> in_ns n GOOSE_NS_PEER \<Longrightarrow> goonies_resolve_cell b s (Some n) =
      (case goose_shadow_resolve (shadow_map b) n of Inl _ \<Rightarrow> (None, s) | Inr h \<Rightarrow> page_in b s n h)"
proof -
  have miss: "goonies_resolve b (goonies s) n = Inl REFLEX_ERR_NOT_FOUND"
    by (simp only: resolve_goonies [OF loom_okD(1,5) [OF assms(1)]] assms(2) option.case)
  show "in_ns n GOOSE_NS_PEER \<Longrightarrow> goonies_resolve_cell b s (Some n) =
      (case fabric_alloc_internal b (phantom_request s n) (Some n) (phantom_coord (ghost_counter s)) False False of
         (None, s2) \<Rightarrow> (None, s2) | (Some i, s2) \<Rightarrow> (Some i, bind_peer s2 i n))"
    by (simp add: goonies_resolve_cell.simps(2) miss Let_def phantom_request_def split: prod.split option.split)
  show "\<not> in_ns n GOOSE_NS_PEER \<Longrightarrow> goonies_resolve_cell b s (Some n) =
      (case goose_shadow_resolve (shadow_map b) n of Inl _ \<Rightarrow> (None, s) | Inr h \<Rightarrow> page_in b s n h)"
    by (simp add: resolve_plain miss)
qed

lemma phantom_request_sound: "sound b s \<Longrightarrow> sound b (phantom_request s n)"
  by (simp add: sound_def loom_ok_def phantom_request_def all_cells_def)

text \<open>The two ways a name that was not registered comes to a cell.\<close>

lemma resolve_new:
  assumes sound: "sound b s" and new: "resolve (goonies s) n = None" and run: "goonies_resolve_cell b s (Some n) = (Some i, s')"
  obtains (phantom) t c s2 where "in_ns n GOOSE_NS_PEER" "sound b t" "length c = 9"
      "alloc_in_loom b t (Some n) c False False = (Some i, s2)" "s' = bind_peer s2 i n"
  | (paged) addr msk c ty s1 where "\<not> in_ns n GOOSE_NS_PEER" "length c = 9"
      "goose_shadow_resolve (shadow_map b) n = Inr (addr, msk, c, ty)" "alloc_in_loom b s (Some n) c True False = (Some i, s1)"
      "s' = update_cell (snd (goose_fabric_set_agency s1 (Some i) addr ty)) i (\<lambda>c. c\<lparr>bit_mask := msk\<rparr>)"
proof (cases "in_ns n GOOSE_NS_PEER")
  case True
  let ?s1 = "phantom_request s n" and ?c = "phantom_coord (ghost_counter s)"
  obtain ph s2 where al: "fabric_alloc_internal b ?s1 (Some n) ?c False False = (ph, s2)" by fastforce
  with run resolve_unregistered(1) [OF soundD(1) [OF sound] new True] have ph: "ph = Some i" "s' = bind_peer s2 i n"
    by (auto split: option.splits)
  from al ph(1) alloc_internal_gate [of b ?s1 "Some n" ?c False False]
  have "alloc_in_loom b (gate_state b ?s1 False) (Some n) ?c False False = (Some i, s2)" by auto
  with phantom [OF True gate_sound [OF phantom_request_sound [OF sound]] phantom_len] ph(2) show ?thesis by blast
next
  case False
  with run resolve_unregistered(2) [OF soundD(1) [OF sound] new] obtain h where
    h: "goose_shadow_resolve (shadow_map b) n = Inr h" "page_in b s n h = (Some i, s')"
    by (auto split: sum.splits)
  obtain addr msk c ty where hh: "h = (addr, msk, c, ty)" by (cases h)
  have c: "length c = 9" using shadow_coord h(1) hh by blast
  obtain res s1 where lk: "alloc_in_loom b s (Some n) c True False = (res, s1)" by fastforce
  with h(2) have "res = Some i"
    "s' = update_cell (snd (goose_fabric_set_agency s1 (Some i) addr ty)) i (\<lambda>c. c\<lparr>bit_mask := msk\<rparr>)"
    by (auto simp: page_in_def hh split: option.splits)
  with paged [OF False c h(1) [unfolded hh]] lk show ?thesis by blast
qed

text \<open>
  C30: resolving a name pages its cell in once. Whenever resolution of a name answers a cell,
  from the registry, the catalog or as a peer phantom, resolving the same name again answers
  the same cell and changes nothing.
\<close>

theorem resolve_cell_stable:
  assumes sound: "sound b s" and run: "goonies_resolve_cell b s (Some n) = (Some i, s')"
  shows "goonies_resolve_cell b s' (Some n) = (Some i, s')"
proof -
  note ok = soundD [OF sound]
  have goal: "goonies_resolve_cell b t (Some n) = (Some i, t)"
    if "loom_ok b t" "resolve (goonies t) n = Some c" "goose_fabric_get_cell_by_coord b t c = Some i" for t c
    using resolve_registered [OF that(1,2)] that(3) by simp
  show ?thesis
  proof (cases "resolve (goonies s) n")
    case (Some c)
    with run resolve_registered [OF ok(1) Some] goal [OF ok(1) Some] show ?thesis by auto
  next
    case None
    from sound None run show ?thesis
    proof (cases rule: resolve_new)
      case (phantom t c s2)
      note T = soundD [OF phantom(2)]
      note N = alloc_in_loom_named [OF T(1) phantom(3) T(2) phantom(4)]
      have ok2: "loom_ok b s2" by (rule alloc_in_loom_ok(1) [OF T(1) phantom(3) T(2) phantom(4)])
      show ?thesis
      proof (cases "peer_of_name (peers s2) n")
        case no: None
        with goal [OF ok2 N(1,2)] phantom(5) show ?thesis by (simp add: bind_peer_def)
      next
        case (Some p)
        let ?f = "\<lambda>c. c\<lparr>peer_id := p\<rparr>"
        have s': "s' = update_cell s2 i ?f" using phantom(5) Some by (simp add: bind_peer_def update_cell_def)
        have "loom_ok b s'" unfolding s' by (rule update_cell_ok(1) [OF ok2]) simp
        moreover have "goose_fabric_get_cell_by_coord b s' c = Some i"
          unfolding s' using update_cell_ok(3) [OF ok2, of ?f] N(2) by simp
        moreover have "resolve (goonies s') n = Some c" using N(1) by (simp add: s' update_cell_def)
        ultimately show ?thesis using goal by blast
      qed
    next
      case (paged addr msk c ty s1)
      note N = alloc_in_loom_named [OF ok(1) paged(2) ok(2) paged(4)]
      have ok1: "loom_ok b s1" by (rule alloc_in_loom_ok(1) [OF ok(1) paged(2) ok(2) paged(4)])
      note S = set_agency_frame [OF ok1, of i addr ty]
      let ?f = "\<lambda>c. c\<lparr>bit_mask := msk\<rparr>"
      have "loom_ok b s'" unfolding paged(5) by (rule update_cell_ok(1) [OF S(2)]) simp
      moreover have "goose_fabric_get_cell_by_coord b s' c = Some i"
        unfolding paged(5) using update_cell_ok(3) [OF S(2), of ?f] S(3) N(2) by simp
      moreover have "resolve (goonies s') n = Some c" using S(1) N(1) by (simp add: paged(5) update_cell_def)
      ultimately show ?thesis using goal by blast
    qed
  qed
qed

text \<open>
  What paging a catalog row in binds. A name of the catalog that is neither registered nor a
  peer's, once resolved to a cell, has that cell at the row's shadow coordinate with the row's
  mask; the cell is bound to the row's address with the row's type exactly when the Sanctuary
  Guard lets a pinned cell have it, and otherwise stays an unbound pinned cell.
\<close>

theorem resolve_pages_catalog:
  assumes sound: "sound b s" and new: "resolve (goonies s) n = None" "\<not> in_ns n GOOSE_NS_PEER"
    and row: "goose_shadow_resolve (shadow_map b) n = Inr (addr, msk, c, ty)"
    and run: "goonies_resolve_cell b s (Some n) = (Some i, s')"
  shows "goose_fabric_get_cell_by_coord b s' c = Some i
    \<and> fabric_cells s' ! i = (fresh_cell c GOOSE_CELL_PINNED)\<lparr>bit_mask := msk,
         hardware_addr := (if agency_guard GOOSE_CELL_PINNED addr ty = Inr () then addr else 0),
         ctype := (if agency_guard GOOSE_CELL_PINNED addr ty = Inr () then ty else GOOSE_CELL_PINNED)\<rparr>"
  using sound new(1) run
proof (cases rule: resolve_new)
  case (paged addr' msk' c' ty' s1)
  note ok = soundD [OF sound]
  have eq: "addr' = addr" "msk' = msk" "c' = c" "ty' = ty" using paged(3) row by simp_all
  note N = alloc_in_loom_named [OF ok(1) paged(2) ok(2) paged(4)]
  have ok1: "loom_ok b s1" by (rule alloc_in_loom_ok(1) [OF ok(1) paged(2) ok(2) paged(4)])
  note S = set_agency_frame [OF ok1, of i addr ty]
  have "goose_fabric_get_cell_by_coord b s' c = Some i"
    unfolding paged(5) eq using update_cell_ok(3) [OF S(2), of "\<lambda>c. c\<lparr>bit_mask := msk\<rparr>"] S(3) N(2) by (simp add: eq)
  moreover have "fabric_cells s' ! i = (fresh_cell c GOOSE_CELL_PINNED)\<lparr>bit_mask := msk,
         hardware_addr := (if agency_guard GOOSE_CELL_PINNED addr ty = Inr () then addr else 0),
         ctype := (if agency_guard GOOSE_CELL_PINNED addr ty = Inr () then ty else GOOSE_CELL_PINNED)\<rparr>"
    using N(3,4) by (auto simp: paged(5) eq goose_fabric_set_agency_def update_cell_def fresh_cell_def split: sum.splits)
  ultimately show ?thesis by blast
qed (use new(2) in blast)

section \<open>Boot and histories\<close>

text \<open>Calls of the interface. A guest's cell pointer is the number of a cell.\<close>

datatype fabric_call =
    Alloc "cstring option" tryte9 bool
  | Ensure "cstring option" tryte9 bool
  | Resolve "cstring option"
  | Agency "nat option" u32 nat
  | Register "cstring option" tryte9 bool

fun legal_call :: "fabric_call \<Rightarrow> bool" where
  "legal_call (Alloc name c sys) \<longleftrightarrow> length c = 9"
| "legal_call (Ensure name c sys) \<longleftrightarrow> length c = 9"
| "legal_call (Register name c sys) \<longleftrightarrow> length c = 9"
| "legal_call (Resolve name) \<longleftrightarrow> True"
| "legal_call (Agency cell addr ty) \<longleftrightarrow> True"

fun call :: "build \<Rightarrow> fabric_call \<Rightarrow> loom \<Rightarrow> loom" where
  "call b (Alloc name c sys) s = snd (goose_fabric_alloc_cell b s name c sys)"
| "call b (Ensure name c sys) s = snd (goose_fabric_ensure_cell b s name c sys)"
| "call b (Resolve name) s = snd (goonies_resolve_cell b s name)"
| "call b (Agency cell addr ty) s = snd (goose_fabric_set_agency s cell addr ty)"
| "call b (Register name c sys) s = s\<lparr>goonies := snd (goonies_register b (goonies s) name c sys)\<rparr>"

lemma register_sound:
  assumes "sound b s" "length c = 9"
  shows "sound b (s\<lparr>goonies := snd (goonies_register b (goonies s) name c sys)\<rparr>)"
proof -
  obtain res r where r: "goonies_register b (goonies s) name c sys = (res, r)" by fastforce
  from goonies_run(1) [OF loom_okD(1,5) [OF soundD(1) [OF assms(1)]] assms(2) r] goonies_update_ok [of b s r] assms(1) r
  show ?thesis by (simp add: sound_def all_cells_def)
qed

lemma call_sound: "sound b s \<Longrightarrow> legal_call op \<Longrightarrow> sound b (call b op s)"
proof (cases op)
  case (Alloc name c sys)
  then show "sound b s \<Longrightarrow> legal_call op \<Longrightarrow> ?thesis"
    using alloc_internal_sound [of b s c name sys False] by (simp add: goose_fabric_alloc_cell_def) (metis prod.collapse)
next
  case (Ensure name c sys)
  then show "sound b s \<Longrightarrow> legal_call op \<Longrightarrow> ?thesis"
    using alloc_internal_sound [of b s c name sys True] by (simp add: goose_fabric_ensure_cell_def) (metis prod.collapse)
qed (simp_all add: resolve_sound set_agency_sound register_sound)

lemma calls_sound: "sound b s \<Longrightarrow> list_all legal_call ops \<Longrightarrow> sound b (fold (call b) ops s)"
  by (induction ops arbitrary: s) (simp_all add: call_sound)

text \<open>
  Memory at power-on: static arrays of the right sizes, the retained ones with any content of
  their type, the registry zeroed.
\<close>

definition power_on :: "build \<Rightarrow> loom \<Rightarrow> bool" where
  "power_on b s \<longleftrightarrow> build_ok b \<and> length (fabric_cells s) = fabric_max b \<and> length (lattice_index s) = lattice_buckets b
     \<and> (\<forall>cell \<in> set (fabric_cells s). length (coord cell) = 9)
     \<and> goonies s = registry_zero \<and> last_eviction_idx s < fabric_max b
     \<and> length (s_eviction_ring s) = GOOSE_EVICTION_RING_SIZE \<and> \<not> s_fabric_initialized s"

text \<open>The state in which the boot seeds its cells.\<close>

definition booted :: "build \<Rightarrow> loom \<Rightarrow> bool \<Rightarrow> loom" where
  "booted b s0 wakeup =
     (let s1 = s0\<lparr>s_fabric_initialized := True, lattice_stable := False,
                  goonies := reinit_goonies b (goonies s0), loom_authority := False\<rparr>;
          s2 = (if \<not> wakeup \<or> fabric_magic s1 \<noteq> GOOSE_FABRIC_MAGIC
                then s1\<lparr>fabric_cell_count := 0, lattice_index := goose_lattice_clear (lattice_index s1) (lattice_buckets b),
                        fabric_version := 1, fabric_magic := GOOSE_FABRIC_MAGIC\<rparr>
                else rebuild_lattice b s1)
      in s2\<lparr>lattice_stable := True\<rparr>)"

lemma reinit_ok:
  assumes "build_ok b"
  shows "goonies_ok b (reinit_goonies b registry_zero)" "resolve (reinit_goonies b registry_zero) = Map.empty"
    "count (reinit_goonies b registry_zero) = 0"
proof -
  let ?e = "goonies_ensure_init b registry_zero"
  have "length (entries ?e) = fabric_max b" "length (by_name ?e) = registry_buckets b" "length (by_coord ?e) = registry_buckets b"
    by (simp_all add: goonies_ensure_init_def registry_zero_def goose_registry_init_def)
  from init_goonies_ok [OF assms this]
  show "goonies_ok b (reinit_goonies b registry_zero)" "resolve (reinit_goonies b registry_zero) = Map.empty"
    "count (reinit_goonies b registry_zero) = 0"
    by (simp_all add: reinit_goonies_def Let_def)
qed

lemma cold_booted_sound:
  assumes p: "power_on b s0" and cold: "\<not> wakeup \<or> fabric_magic s0 \<noteq> GOOSE_FABRIC_MAGIC"
  shows "sound b (booted b s0 wakeup)" "fabric_cell_count (booted b s0 wakeup) = 0"
proof -
  have "lattice_ok (goose_lattice_clear (lattice_index s0) (lattice_buckets b)) (lattice_buckets b) (fabric_cells s0) 0"
    using p by (intro clear_ok) (auto simp: power_on_def build_ok_def)
  with p cold reinit_ok(1) [of b] show "sound b (booted b s0 wakeup)"
    by (auto simp: sound_def loom_ok_def booted_def Let_def power_on_def all_cells_def)
  show "fabric_cell_count (booted b s0 wakeup) = 0" using cold by (simp add: booted_def Let_def)
qed

lemma init_booted:
  assumes "\<not> s_fabric_initialized s0"
  shows "goose_fabric_init b s0 wakeup purpose = (Inr (), seed_purpose b
     (snd (goose_fabric_alloc_cell b (snd (goose_fabric_alloc_cell b (booted b s0 wakeup) (Some (c_str ''sys.origin'')) (goose_make_coord 0 0 0) True))
        (Some (c_str ''agency.led.intent'')) (goose_make_coord 0 0 1) True)) purpose)"
  using assms by (simp add: goose_fabric_init_def booted_def Let_def)

lemma make_coord_len [simp]: "length (goose_make_coord f r c) = 9"
  by (simp add: goose_make_coord_def)

text \<open>The purpose cell is bound to nothing when the boot starts cold.\<close>

abbreviation (input) "plain_bindings \<equiv> all_cells (\<lambda>cell. hardware_addr cell \<le> GOOSE_AGENCY_GPIO_MAX)"

lemma fresh_plain: "hardware_addr (fresh_cell c ty) \<le> GOOSE_AGENCY_GPIO_MAX"
  by (simp add: fresh_cell_def GOOSE_AGENCY_GPIO_MAX_def)

lemmas alloc_in_loom_plain = alloc_in_loom_all_cells [where P = "\<lambda>cell. hardware_addr cell \<le> GOOSE_AGENCY_GPIO_MAX", OF _ _ _ _ _ fresh_plain]

lemma seed_purpose_sound:
  assumes s: "sound b s" and plain: "plain_bindings s"
  shows "sound b (seed_purpose b s purpose)"
proof (cases "purpose = []")
  case False
  let ?c = "goose_make_coord 0 0 2"
  obtain pc s1 where run: "alloc_in_loom b s (Some (c_str ''sys.purpose'')) ?c True True = (pc, s1)" by fastforce
  note O = soundD [OF s]
  have s1: "sound b s1" by (rule alloc_in_loom_sound [OF s make_coord_len run])
  have p1: "plain_bindings s1" by (rule alloc_in_loom_plain [OF O(1) make_coord_len O(2) run plain])
  show ?thesis
  proof (cases pc)
    case None
    with run False s1 show ?thesis
      by (simp add: seed_purpose_def goose_fabric_ensure_cell_def fabric_alloc_internal.simps)
  next
    case (Some i)
    have "i < fabric_cell_count s1" using alloc_in_loom_ok(3) [OF O(1) make_coord_len O(2) run Some] .
    with p1 have "sound b (update_cell s1 i (\<lambda>c. c\<lparr>ctype := GOOSE_CELL_PURPOSE, state := 1\<rparr>))"
      by (intro sound_update [OF s1]) (simp_all add: all_cells_def binding_ok_def)
    with run False Some show ?thesis
      by (simp add: seed_purpose_def goose_fabric_ensure_cell_def fabric_alloc_internal.simps update_cell_def)
  qed
qed (simp add: seed_purpose_def s)

text \<open>
  C31: from a cold boot on, the fabric stays sound. Whatever the retained memory holds, after the
  boot and any sequence of calls the coordinate index and the registry are well-formed, the lock
  is free, and every hardware binding has passed the Sanctuary Guard: no cell reaches a register
  outside the whitelisted pages unless it is of the system-only type.
\<close>

theorem fabric_history_safe:
  assumes p: "power_on b s0" and cold: "\<not> wakeup \<or> fabric_magic s0 \<noteq> GOOSE_FABRIC_MAGIC"
    and ops: "list_all legal_call ops" and s: "s = fold (call b) ops (snd (goose_fabric_init b s0 wakeup purpose))"
  shows "loom_ok b s \<and> \<not> loom_authority s \<and> all_cells binding_ok s"
proof -
  let ?s = "booted b s0 wakeup"
  have i: "\<not> s_fabric_initialized s0" using p by (simp add: power_on_def)
  note B = cold_booted_sound [OF p cold]
  have plain: "plain_bindings ?s" by (simp add: all_cells_def B(2))
  have step: "sound b (snd (goose_fabric_alloc_cell b t name (goose_make_coord x y z) True))
      \<and> plain_bindings (snd (goose_fabric_alloc_cell b t name (goose_make_coord x y z) True))"
    if "sound b t" "plain_bindings t" for t name x y z
  proof -
    obtain res t' where run: "alloc_in_loom b t name (goose_make_coord x y z) True False = (res, t')" by fastforce
    from alloc_in_loom_sound [OF that(1) make_coord_len run] alloc_in_loom_plain [OF soundD(1) [OF that(1)] make_coord_len soundD(2) [OF that(1)] run that(2)]
    show ?thesis by (simp add: goose_fabric_alloc_cell_def fabric_alloc_internal.simps run)
  qed
  have "sound b (snd (goose_fabric_init b s0 wakeup purpose))"
    unfolding init_booted [OF i] using step [OF B(1) plain] step seed_purpose_sound by simp
  from calls_sound [OF this ops] show ?thesis by (simp add: s sound_def)
qed

end
