(* ===== verification/Goose_Pulse.thy ===== *)
theory Goose_Pulse imports Fabric_Ops begin

text \<open>
  The pulse of components/goose/goose_runtime.c: routes and transitions with their cached cell
  pointers, sampling of hardware inputs, projection and quorum of sub-fields, and propagation to
  the sink; the search for a capability; the wait for the loom lock.

  A pointer into the cell array is a cell number, NULL is None. The pin levels and the
  memory-mapped registers are maps; what the pulse sends out (pins, arcs) is a list of events.
  Evolution functions are code of whoever owns the transition: a function on their context.
\<close>

section \<open>Routes, transitions, fields\<close>

abbreviation (input) "GOOSE_COUPLING_HARDWARE \<equiv> (0 :: nat)"
abbreviation (input) "GOOSE_COUPLING_SOFTWARE \<equiv> (1 :: nat)"
abbreviation (input) "GOOSE_COUPLING_RADIO \<equiv> (3 :: nat)"

record goose_route =
  rname :: cstring
  source_coord :: tryte9
  sink_coord :: tryte9
  orientation :: int
  learned_orientation :: int
  control_coord :: tryte9
  coupling :: nat
  cached_source :: "nat option"
  cached_sink :: "nat option"
  cached_control :: "nat option"
  cached_version :: u32
  hebbian_counter :: int

record 'c goose_transition =
  target_coord :: tryte9
  evolution_fn :: "('c \<Rightarrow> int \<times> 'c) option"
  context_of :: 'c
  interval_ms :: u32
  last_run_us :: "64 word"
  cached_target :: "nat option"
  tcached_version :: u32

record 'c goose_field =
  fname :: cstring
  routes :: "goose_route list"
  transitions :: "'c goose_transition list"
  rhythm :: nat
  total_pulses :: "64 word"

datatype out_event =
    Pin u32 bool
  | Connect u32 u32 bool
  | Sync_arc u32 int
  | Radio_arc tryte9 int

record board_io =
  pin_level :: "u32 \<Rightarrow> bool"
  mmio :: "u32 \<Rightarrow> u32"
  sent :: "out_event list"

record 'c substrate =
  fabric :: loom
  field_store :: "'c goose_field list"
  global_fields :: "nat list"
  io :: board_io

section \<open>Hashes and lookups\<close>

definition goose_fnv1a :: "cstring \<Rightarrow> u32" where
  "goose_fnv1a s = foldl (\<lambda>(h :: u32) p. (h XOR ucast p) * 0x01000193) 0x811c9dc5 s"

definition goose_name_hash :: "cstring \<Rightarrow> u32" where
  "goose_name_hash name = foldl (\<lambda>(h :: u32) p. (h XOR ucast p) * 0x01000193) 0x811c9dc5 name"

definition goose_fabric_find_field_by_name_hash :: "'c goose_field list \<Rightarrow> nat list \<Rightarrow> u32 \<Rightarrow> nat option" where
  "goose_fabric_find_field_by_name_hash fs registered hash = find (\<lambda>f. goose_name_hash (fname (fs ! f)) = hash) registered"

definition goose_fabric_find_radio_route_by_source_coord :: "'c goose_field list \<Rightarrow> nat list \<Rightarrow> tryte9 \<Rightarrow> (nat \<times> nat) option" where
  "goose_fabric_find_radio_route_by_source_coord fs registered c =
     find (\<lambda>(f, r). coupling (routes (fs ! f) ! r) = GOOSE_COUPLING_RADIO
                    \<and> goose_coord_equal (source_coord (routes (fs ! f) ! r)) c)
       (concat (map (\<lambda>f. map (Pair f) [0..<length (routes (fs ! f))]) registered))"

section \<open>Cells as a pulse sees them\<close>

definition set_state :: "loom \<Rightarrow> nat \<Rightarrow> int \<Rightarrow> loom" where
  "set_state s i v = update_cell s i (\<lambda>c. c\<lparr>state := v\<rparr>)"

definition reg_mask :: "goose_cell \<Rightarrow> u32" where
  "reg_mask c = (if bit_mask c \<noteq> 0 then bit_mask c else 0xFFFFFFFF)"

definition neuron_quorum :: "loom \<Rightarrow> 'c goose_field option \<Rightarrow> int" where
  "neuron_quorum s sub_field =
     (case sub_field of
        None \<Rightarrow> 0
      | Some f \<Rightarrow>
          let (sum, count) = foldl (\<lambda>(sum, count) r. case cached_source r of
                                      None \<Rightarrow> (sum, count)
                                    | Some i \<Rightarrow> (sum + state (fabric_cells s ! i), count + 1)) (0, 0 :: int) (routes f)
          in if count = 0 then 0
             else let threshold = count div 2 + 1 in
               if sum \<ge> threshold then 1 else if sum \<le> - threshold then -1 else 0)"

definition refresh_transition :: "build \<Rightarrow> loom \<Rightarrow> 'c goose_transition \<Rightarrow> 'c goose_transition" where
  "refresh_transition b s t =
     (if cached_target t = None \<or> tcached_version t \<noteq> fabric_version s
      then t\<lparr>cached_target := goose_fabric_get_cell_by_coord b s (target_coord t), tcached_version := fabric_version s\<rparr>
      else t)"

definition refresh_route :: "build \<Rightarrow> loom \<Rightarrow> goose_route \<Rightarrow> goose_route" where
  "refresh_route b s r =
     (if cached_source r = None \<or> cached_version r \<noteq> fabric_version s
      then r\<lparr>cached_source := goose_fabric_get_cell_by_coord b s (source_coord r),
             cached_sink := goose_fabric_get_cell_by_coord b s (sink_coord r),
             cached_control := goose_fabric_get_cell_by_coord b s (control_coord r),
             cached_version := fabric_version s\<rparr>
      else r)"

section \<open>One pulse\<close>

text \<open>\<open>t->interval_ms * 1000\<close> is a 32-bit product.\<close>

definition evolve :: "build \<Rightarrow> 64 word \<Rightarrow> loom \<Rightarrow> 'c goose_transition \<Rightarrow> 'c goose_transition \<times> loom" where
  "evolve b now s t0 =
     (let t = refresh_transition b s t0 in
      case (cached_target t, evolution_fn t) of
        (Some c, Some fn) \<Rightarrow>
          if now - last_run_us t \<ge> ucast (interval_ms t * 1000)
          then (case fn (context_of t) of (v, ctx) \<Rightarrow> (t\<lparr>context_of := ctx, last_run_us := now\<rparr>, set_state s c v))
          else (t, s)
      | _ \<Rightarrow> (t, s))"

definition transition_step :: "build \<Rightarrow> 64 word \<Rightarrow> nat \<Rightarrow> 'c substrate \<Rightarrow> nat \<Rightarrow> 'c substrate" where
  "transition_step b now f w i =
     (let fld = field_store w ! f in
      case evolve b now (fabric w) (transitions fld ! i) of
        (t, s) \<Rightarrow> w\<lparr>fabric := s, field_store := (field_store w)[f := fld\<lparr>transitions := (transitions fld)[i := t]\<rparr>]\<rparr>)"

text \<open>A hardware input is read into its cell.\<close>

definition sample_source :: "board_io \<Rightarrow> loom \<Rightarrow> nat \<Rightarrow> loom" where
  "sample_source hw s i =
     (let c = fabric_cells s ! i; a = hardware_addr c in
      if ctype c = GOOSE_CELL_HARDWARE_IN \<and> a \<noteq> 0 then
        if 0 < a \<and> a < 32 then set_state s i (if pin_level hw a then 1 else -1)
        else if a \<ge> 0x60000000 then set_state s i (if mmio hw a AND reg_mask c \<noteq> 0 then 1 else -1)
        else s
      else s)"

text \<open>A proxy shows the first route of its sub-field, a neuron the majority of all.\<close>

definition project_source :: "'c goose_field list \<Rightarrow> nat list \<Rightarrow> loom \<Rightarrow> nat \<Rightarrow> loom" where
  "project_source fs registered s i =
     (let c = fabric_cells s ! i; sub_field = map_option (\<lambda>f. fs ! f) (goose_fabric_find_field_by_name_hash fs registered (hardware_addr c)) in
      if ctype c = GOOSE_CELL_FIELD_PROXY then
        (case sub_field of
           None \<Rightarrow> s
         | Some f \<Rightarrow> (case routes f of
             [] \<Rightarrow> s
           | r0 # _ \<Rightarrow> (case cached_source r0 of None \<Rightarrow> s | Some j \<Rightarrow> set_state s i (state (fabric_cells s ! j)))))
      else if ctype c = GOOSE_CELL_NEURON then set_state s i (neuron_quorum s sub_field)
      else s)"

text \<open>The cast \<open>(int8_t)n\<close>.\<close>

definition int8 :: "int \<Rightarrow> int" where "int8 n = signed_take_bit 7 n"

definition route_product :: "loom \<Rightarrow> goose_route \<Rightarrow> nat \<Rightarrow> int" where
  "route_product s r src =
     (let effective_orient = (if learned_orientation r \<noteq> 0 then learned_orientation r else orientation r);
          control = (case cached_control r of Some k \<Rightarrow> state (fabric_cells s ! k) | None \<Rightarrow> effective_orient)
      in int8 (state (fabric_cells s ! src) * control))"

text \<open>A sink on a peer is sent, a local one is written through to its pin or register.\<close>

definition drive_sink :: "build \<Rightarrow> board_io \<Rightarrow> loom \<Rightarrow> goose_route \<Rightarrow> nat \<Rightarrow> int \<Rightarrow> board_io \<times> loom" where
  "drive_sink b hw s r snk new_state =
     (let c = fabric_cells s ! snk; a = hardware_addr c in
      if peer_id c \<noteq> 0 then
        (case goonies_resolve_name_by_coord b (goonies s) (sink_coord r) of
           None \<Rightarrow> (hw, s)
         | Some n \<Rightarrow>
             if in_ns n GOOSE_NS_PEER then
               (case dropWhile (\<lambda>ch. ch \<noteq> 46) (drop (length GOOSE_NS_PEER) n) of
                  [] \<Rightarrow> (hw, s)
                | _ # cell_name \<Rightarrow> (hw\<lparr>sent := sent hw @ [Sync_arc (goose_fnv1a cell_name) new_state]\<rparr>, set_state s snk new_state))
             else (hw, s))
      else if 0 < a \<and> a < 32 then (hw\<lparr>sent := sent hw @ [Pin a (new_state = 1)]\<rparr>, set_state s snk new_state)
      else if a \<ge> 0x60000000 then
        (if new_state = 1 then hw\<lparr>mmio := (mmio hw)(a := mmio hw a OR reg_mask c)\<rparr>
         else if new_state = -1 then hw\<lparr>mmio := (mmio hw)(a := mmio hw a AND NOT (reg_mask c))\<rparr>
         else hw, set_state s snk new_state)
      else (hw, set_state s snk new_state))"

definition route_step :: "build \<Rightarrow> nat \<Rightarrow> 'c substrate \<Rightarrow> nat \<Rightarrow> 'c substrate" where
  "route_step b f w i =
     (let fld = field_store w ! f;
          r = refresh_route b (fabric w) (routes fld ! i);
          fs = (field_store w)[f := fld\<lparr>routes := (routes fld)[i := r]\<rparr>];
          w1 = w\<lparr>field_store := fs\<rparr>
      in case (cached_source r, cached_sink r) of
           (Some src, Some snk) \<Rightarrow>
             (let s1 = sample_source (io w1) (fabric w1) src;
                  s2 = project_source fs (global_fields w) s1 src
              in if coupling r = GOOSE_COUPLING_SOFTWARE then
                   (case drive_sink b (io w1) s2 r snk (route_product s2 r src) of
                      (hw, s3) \<Rightarrow> w1\<lparr>fabric := s3, io := hw\<rparr>)
                 else if coupling r = GOOSE_COUPLING_RADIO then
                   w1\<lparr>fabric := s2, io := (io w1)\<lparr>sent := sent (io w1)
                        @ [Radio_arc (coord (fabric_cells s2 ! src)) (state (fabric_cells s2 ! src))]\<rparr>\<rparr>
                 else w1\<lparr>fabric := s2\<rparr>)
         | _ \<Rightarrow> w1)"

definition pulse_transitions :: "build \<Rightarrow> 64 word \<Rightarrow> nat \<Rightarrow> 'c substrate \<Rightarrow> 'c substrate" where
  "pulse_transitions b now f w = foldl (transition_step b now f) w [0..<length (transitions (field_store w ! f))]"

definition pulse_routes :: "build \<Rightarrow> nat \<Rightarrow> 'c substrate \<Rightarrow> 'c substrate" where
  "pulse_routes b f w = foldl (route_step b f) w [0..<length (routes (field_store w ! f))]"

definition pulse_end :: "nat \<Rightarrow> 'c substrate \<Rightarrow> 'c substrate" where
  "pulse_end f w = w\<lparr>fabric := goose_loom_unlock (fabric w),
     field_store := (field_store w)[f := (field_store w ! f)\<lparr>total_pulses := total_pulses (field_store w ! f) + 1\<rparr>]\<rparr>"

definition internal_process_transitions :: "build \<Rightarrow> 64 word \<Rightarrow> nat \<Rightarrow> 'c substrate \<Rightarrow> unit result \<times> 'c substrate" where
  "internal_process_transitions b now f w =
     (case goose_loom_try_lock (fabric w) of
        (False, _) \<Rightarrow> (Inl REFLEX_ERR_TIMEOUT, w)
      | (True, s) \<Rightarrow> (Inr (), pulse_end f (pulse_routes b f (pulse_transitions b now f (w\<lparr>fabric := s\<rparr>)))))"

definition goose_apply_route :: "loom \<Rightarrow> board_io \<Rightarrow> goose_route option \<Rightarrow> unit result \<times> board_io" where
  "goose_apply_route s hw route =
     (case route of
        None \<Rightarrow> (Inl REFLEX_ERR_INVALID_ARG, hw)
      | Some r \<Rightarrow>
          (Inr (), if coupling r = GOOSE_COUPLING_HARDWARE then
                     (case (cached_sink r, cached_source r) of
                        (Some snk, Some src) \<Rightarrow>
                          if hardware_addr (fabric_cells s ! snk) < 32
                          then hw\<lparr>sent := sent hw @ [Connect (hardware_addr (fabric_cells s ! snk))
                                  (hardware_addr (fabric_cells s ! src)) (orientation r = -1)]\<rparr>
                          else hw
                      | _ \<Rightarrow> hw)
                   else hw))"

text \<open>Registration for pulsing; the task itself is the scheduler's.\<close>

definition goose_field_start_pulse :: "nat list \<Rightarrow> nat option \<Rightarrow> unit result \<times> nat list" where
  "goose_field_start_pulse registered field =
     (case field of
        None \<Rightarrow> (Inl REFLEX_ERR_INVALID_ARG, registered)
      | Some f \<Rightarrow> (Inr (), if length registered < 16 then registered @ [f] else registered))"

section \<open>Capabilities\<close>

definition trusted_zones :: "cstring list" where
  "trusted_zones = [GOOSE_NS_AGENCY, c_str ''perception.'', GOOSE_NS_SYS]"

definition has_suffix :: "cstring \<Rightarrow> cstring \<Rightarrow> bool" where
  "has_suffix name suffix \<longleftrightarrow> length name \<ge> length suffix \<and> drop (length name - length suffix) name = suffix"

text \<open>
  The two loops share their shape: over the zones, over the entries; the first entry accepted
  whose cell is not itself a need is returned, its cell being NULL when it has none.
\<close>

fun first_capability :: "build \<Rightarrow> loom \<Rightarrow> (cstring \<Rightarrow> cstring \<Rightarrow> bool) \<Rightarrow> (cstring \<times> nat) list \<Rightarrow> nat option" where
  "first_capability b s accepts [] = None"
| "first_capability b s accepts ((zone, i) # rest) =
     (let e = entries (goonies s) ! i in
      if accepts zone (ename e) then
        (case goose_fabric_get_cell_by_coord b s (ecoord e) of
           None \<Rightarrow> None
         | Some c \<Rightarrow> if ctype (fabric_cells s ! c) = GOOSE_CELL_NEED then first_capability b s accepts rest else Some c)
      else first_capability b s accepts rest)"

definition zone_entries :: "loom \<Rightarrow> (cstring \<times> nat) list" where
  "zone_entries s = concat (map (\<lambda>zone. map (Pair zone) [0..<count (goonies s)]) trusted_zones)"

definition goonies_resolve_by_capability :: "build \<Rightarrow> loom \<Rightarrow> cstring option \<Rightarrow> nat option" where
  "goonies_resolve_by_capability b s suffix =
     (case suffix of
        None \<Rightarrow> None
      | Some sfx \<Rightarrow> first_capability b s (\<lambda>zone name. in_ns name zone \<and> has_suffix name sfx) (zone_entries s))"

text \<open>The domain as a whole label behind a dot: every place where strstr can stop is tried.\<close>

definition name_contains_domain :: "cstring \<Rightarrow> cstring \<Rightarrow> bool" where
  "name_contains_domain name domain =
     list_ex (\<lambda>p. take (length domain) (drop p name) = domain \<and> 0 < p \<and> name ! (p - 1) = 46
                  \<and> (p + length domain = length name \<or> name ! (p + length domain) = 46))
       [0..<Suc (length name - length domain)]"

definition goonies_resolve_by_capability_in_domain :: "build \<Rightarrow> loom \<Rightarrow> cstring option \<Rightarrow> cstring option \<Rightarrow> nat option" where
  "goonies_resolve_by_capability_in_domain b s suffix domain =
     (case (suffix, domain) of
        (Some sfx, Some zone_name) \<Rightarrow>
          if zone_name = [] then None
          else first_capability b s (\<lambda>zone name. in_ns name zone \<and> name_contains_domain name zone_name \<and> has_suffix name sfx) (zone_entries s)
      | _ \<Rightarrow> None)"

section \<open>Waiting for the lock\<close>

definition LOOM_LOCK_TIMEOUT_US :: "64 word" where "LOOM_LOCK_TIMEOUT_US = 300"

text \<open>
  The spin of the lock: each observation is what test-and-set found (was the lock held) and the
  clock read when it was; the answer is None while the observations given do not end the wait.
\<close>

fun loom_spin :: "64 word \<Rightarrow> (bool \<times> 64 word) list \<Rightarrow> bool option" where
  "loom_spin start [] = None"
| "loom_spin start ((held, now) # obs) =
     (if \<not> held then Some True
      else if now - start > LOOM_LOCK_TIMEOUT_US then Some False
      else loom_spin start obs)"

end
