(* ===== verification/Goose_Supervisor.thy ===== *)
theory Goose_Supervisor imports Goose_Pulse begin

text \<open>
  The supervisor of components/goose/goose_supervisor.c: the fields it watches, the holons that
  group them, the stance it derives for each field, equilibrium and its repair, the autonomous
  evaluation of progress, and Hebbian learning. Fields are numbers in the store of fields, cells
  numbers in the fabric. The tasks of the host are known by name with their priority. Printing and
  telemetry are left out; the mutex around the list of fields protects whole operations.
\<close>

section \<open>State\<close>

abbreviation (input) "GOOSE_CELL_HARDWARE_OUT \<equiv> (2 :: nat)"
abbreviation (input) "GOOSE_CELL_INTENT \<equiv> (3 :: nat)"
abbreviation (input) "REFLEX_DISPOSITION_ENGAGED \<equiv> (1 :: int)"
abbreviation (input) "REFLEX_DISPOSITION_LATENT \<equiv> (0 :: int)"
abbreviation (input) "REFLEX_DISPOSITION_WITHHELD \<equiv> (-1 :: int)"

definition MAX_SUPERVISED_FIELDS :: nat where "MAX_SUPERVISED_FIELDS = 32"
definition MAX_HOLONS :: nat where "MAX_HOLONS = 8"
definition MAX_HOLON_FIELDS :: nat where "MAX_HOLON_FIELDS = 4"

definition REFLEX_HEBBIAN_COMMIT_THRESHOLD :: int where "REFLEX_HEBBIAN_COMMIT_THRESHOLD = 8"
definition REFLEX_HEBBIAN_COUNTER_MAX :: int where "REFLEX_HEBBIAN_COUNTER_MAX = REFLEX_HEBBIAN_COMMIT_THRESHOLD * 2"
definition REFLEX_MAX_REBALANCE_ITERATIONS :: nat where "REFLEX_MAX_REBALANCE_ITERATIONS = 10"
definition REFLEX_AUTO_REWARD_THRESHOLD :: nat where "REFLEX_AUTO_REWARD_THRESHOLD = 2"
definition REFLEX_AUTO_PAIN_STUCK_TICKS :: u8 where "REFLEX_AUTO_PAIN_STUCK_TICKS = 5"

record reflex_holon =
  hname :: cstring
  hdomain :: cstring
  hfields :: "nat list"
  active :: bool

record 'c supervisor =
  sub :: "'c substrate"
  purpose_name :: cstring
  supervised_fields :: "nat list"
  s_holons :: "reflex_holon list"
  s_last_purpose :: cstring
  s_field_disposition :: "int list"
  s_kernel_disposition_cell :: "nat option"
  system_balance :: int
  s_stuck_ticks :: "u8 list"
  swarm_accumulator :: int
  autonomy_field :: "nat option"
  host_tasks :: "cstring \<Rightarrow> int option"

abbreviation loom_of :: "'c supervisor \<Rightarrow> loom" where "loom_of w \<equiv> fabric (sub w)"

definition put_loom :: "loom \<Rightarrow> 'c supervisor \<Rightarrow> 'c supervisor" where
  "put_loom s w = w\<lparr>sub := (sub w)\<lparr>fabric := s\<rparr>\<rparr>"

definition field_of :: "'c supervisor \<Rightarrow> nat \<Rightarrow> 'c goose_field" where
  "field_of w f = field_store (sub w) ! f"

definition put_routes :: "nat \<Rightarrow> goose_route list \<Rightarrow> 'c supervisor \<Rightarrow> 'c supervisor" where
  "put_routes f rs w = w\<lparr>sub := (sub w)\<lparr>field_store := (field_store (sub w))[f := (field_of w f)\<lparr>routes := rs\<rparr>]\<rparr>\<rparr>"

text \<open>\<open>goonies_resolve_cell\<close> by the supervisor, which may page the cell in.\<close>

definition sup_resolve :: "build \<Rightarrow> 'c supervisor \<Rightarrow> string \<Rightarrow> nat option \<times> 'c supervisor" where
  "sup_resolve b w name = (case goonies_resolve_cell b (loom_of w) (Some (c_str name)) of (r, s) \<Rightarrow> (r, put_loom s w))"

definition cell_has :: "'c supervisor \<Rightarrow> nat option \<Rightarrow> (int \<Rightarrow> bool) \<Rightarrow> bool" where
  "cell_has w c P \<longleftrightarrow> (case c of None \<Rightarrow> False | Some i \<Rightarrow> P (state (fabric_cells (loom_of w) ! i)))"

definition write_cell :: "nat option \<Rightarrow> int \<Rightarrow> 'c supervisor \<Rightarrow> 'c supervisor" where
  "write_cell c v w = (case c of None \<Rightarrow> w | Some i \<Rightarrow> put_loom (set_state (loom_of w) i v) w)"

section \<open>Fields and holons\<close>

text \<open>
  The domain as whole labels between dots; every place where strstr can stop is tried. Callers
  pass a domain that is not empty.
\<close>

definition reflex_domain_match :: "cstring \<Rightarrow> cstring \<Rightarrow> bool" where
  "reflex_domain_match name domain =
     list_ex (\<lambda>p. take (length domain) (drop p name) = domain \<and> (p = 0 \<or> name ! (p - 1) = 46)
                  \<and> (p + length domain = length name \<or> name ! (p + length domain) = 46))
       [0..<Suc (length name - length domain)]"

definition goose_supervisor_register_field :: "'c supervisor \<Rightarrow> nat option \<Rightarrow> unit result \<times> 'c supervisor" where
  "goose_supervisor_register_field w field =
     (case field of
        None \<Rightarrow> (Inl REFLEX_ERR_INVALID_ARG, w)
      | Some f \<Rightarrow>
          if length (supervised_fields w) \<ge> MAX_SUPERVISED_FIELDS then (Inl REFLEX_ERR_NO_MEM, w)
          else if f \<in> set (supervised_fields w) then (Inr (), w)
          else (Inr (), w\<lparr>supervised_fields := supervised_fields w @ [f]\<rparr>))"

definition reflex_holon_create :: "'c supervisor \<Rightarrow> cstring \<Rightarrow> cstring option \<Rightarrow> unit result \<times> 'c supervisor" where
  "reflex_holon_create w name domain =
     (if length (s_holons w) \<ge> MAX_HOLONS then (Inl REFLEX_ERR_NO_MEM, w)
      else (Inr (), w\<lparr>s_holons := s_holons w @ [\<lparr>hname = take 15 name,
              hdomain = (case domain of None \<Rightarrow> [] | Some d \<Rightarrow> take 15 d), hfields = [], active = True\<rparr>]\<rparr>))"

definition reflex_holon_add_field :: "'c supervisor \<Rightarrow> cstring option \<Rightarrow> nat option \<Rightarrow> unit result \<times> 'c supervisor" where
  "reflex_holon_add_field w holon_name field =
     (case (holon_name, field) of
        (Some n, Some f) \<Rightarrow>
          (case find (\<lambda>i. hname (s_holons w ! i) = n) [0..<length (s_holons w)] of
             None \<Rightarrow> (Inl REFLEX_ERR_NOT_FOUND, w)
           | Some i \<Rightarrow> let h = s_holons w ! i in
               if length (hfields h) \<ge> MAX_HOLON_FIELDS then (Inl REFLEX_ERR_NO_MEM, w)
               else (Inr (), w\<lparr>s_holons := (s_holons w)[i := h\<lparr>hfields := hfields h @ [f]\<rparr>]\<rparr>))
      | _ \<Rightarrow> (Inl REFLEX_ERR_INVALID_ARG, w))"

definition goose_kernel_field_count :: "'c supervisor \<Rightarrow> nat" where
  "goose_kernel_field_count w = length (supervised_fields w)"

definition goose_kernel_field_disposition :: "'c supervisor \<Rightarrow> nat \<Rightarrow> int" where
  "goose_kernel_field_disposition w idx =
     (if idx < length (supervised_fields w) then s_field_disposition w ! idx else REFLEX_DISPOSITION_LATENT)"

definition goose_kernel_field_name :: "'c supervisor \<Rightarrow> nat \<Rightarrow> cstring option" where
  "goose_kernel_field_name w idx =
     (if idx < length (supervised_fields w) then Some (fname (field_of w (supervised_fields w ! idx))) else None)"

definition goose_kernel_disposition_name :: "int \<Rightarrow> string" where
  "goose_kernel_disposition_name d = (if d > 0 then ''engaged'' else if d < 0 then ''withheld'' else ''latent'')"

section \<open>The stance of each field\<close>

text \<open>The purpose last seen, a buffer of sixteen bytes.\<close>

definition note_purpose :: "'c supervisor \<Rightarrow> 'c supervisor" where
  "note_purpose w =
     (if purpose_name w \<noteq> [] then
        (if take 15 (s_last_purpose w) \<noteq> take 15 (purpose_name w) then w\<lparr>s_last_purpose := take 15 (purpose_name w)\<rparr> else w)
      else if s_last_purpose w \<noteq> [] then w\<lparr>s_last_purpose := []\<rparr> else w)"

definition holon_wanted :: "cstring \<Rightarrow> reflex_holon \<Rightarrow> bool" where
  "holon_wanted purpose h \<longleftrightarrow> hdomain h = [] \<or> purpose \<noteq> [] \<and> reflex_domain_match purpose (hdomain h)"

definition holon_lifecycle :: "'c supervisor \<Rightarrow> 'c supervisor" where
  "holon_lifecycle w = w\<lparr>s_holons := map (\<lambda>h. h\<lparr>active := holon_wanted (purpose_name w) h\<rparr>) (s_holons w)\<rparr>"

text \<open>A route touches a domain when the name of either end matches it.\<close>

definition route_touches :: "build \<Rightarrow> loom \<Rightarrow> cstring \<Rightarrow> goose_route \<Rightarrow> bool" where
  "route_touches b s domain r =
     ((case goonies_resolve_name_by_coord b (goonies s) (source_coord r) of None \<Rightarrow> False | Some n \<Rightarrow> reflex_domain_match n domain)
      \<or> (case goonies_resolve_name_by_coord b (goonies s) (sink_coord r) of None \<Rightarrow> False | Some n \<Rightarrow> reflex_domain_match n domain))"

definition has_domain_route :: "build \<Rightarrow> 'c supervisor \<Rightarrow> nat \<Rightarrow> bool" where
  "has_domain_route b w f =
     (purpose_name w \<noteq> [] \<and> list_ex (route_touches b (loom_of w) (s_last_purpose w)) (routes (field_of w f)))"

definition learned_routes :: "'c goose_field \<Rightarrow> nat" where
  "learned_routes fld = length (filter (\<lambda>r. learned_orientation r \<noteq> 0) (routes fld))"

definition in_any_holon :: "'c supervisor \<Rightarrow> nat \<Rightarrow> bool" where
  "in_any_holon w f = list_ex (\<lambda>h. f \<in> set (hfields h)) (s_holons w)"

definition in_active_holon :: "'c supervisor \<Rightarrow> nat \<Rightarrow> bool" where
  "in_active_holon w f = list_ex (\<lambda>h. f \<in> set (hfields h) \<and> active h) (s_holons w)"

text \<open>The stance projected on the one integer of the host's scheduler.\<close>

definition pulse_priority :: "build \<Rightarrow> int \<Rightarrow> bool \<Rightarrow> nat \<Rightarrow> int" where
  "pulse_priority b disposition purpose_active learned =
     (let p0 = REFLEX_PULSE_BASE_PRIORITY b;
          p1 = (if disposition = REFLEX_DISPOSITION_ENGAGED then p0 + REFLEX_PULSE_PURPOSE_BOOST b
                else if disposition = REFLEX_DISPOSITION_LATENT \<and> purpose_active then p0 + 1 else p0);
          p2 = (if disposition \<noteq> REFLEX_DISPOSITION_WITHHELD \<and> learned > 0 then p1 + REFLEX_PULSE_HEBBIAN_BOOST b else p1);
          p3 = (if disposition = REFLEX_DISPOSITION_WITHHELD then p2 - REFLEX_PULSE_PAIN_PENALTY b else p2);
          p4 = (if p3 < REFLEX_PULSE_BASE_PRIORITY b then REFLEX_PULSE_BASE_PRIORITY b else p3)
      in if p4 > REFLEX_PULSE_MAX_PRIORITY b then REFLEX_PULSE_MAX_PRIORITY b else p4)"

definition pulse_task_name :: "cstring \<Rightarrow> cstring" where
  "pulse_task_name name = c_str ''p_'' @ take 13 name"

definition policy_field :: "build \<Rightarrow> bool \<Rightarrow> 'c supervisor \<times> int \<times> int \<Rightarrow> nat \<Rightarrow> 'c supervisor \<times> int \<times> int" where
  "policy_field b pained acc i =
     (case acc of (w, engaged, withheld) \<Rightarrow>
        let f = supervised_fields w ! i;
            fld = field_of w f;
            disposition = goose_policy_disposition (purpose_name w \<noteq> []) (has_domain_route b w f)
                            (in_any_holon w f) (in_active_holon w f) pained;
            priority = pulse_priority b disposition (purpose_name w \<noteq> []) (learned_routes fld);
            name = pulse_task_name (fname fld);
            w1 = w\<lparr>s_field_disposition := (s_field_disposition w)[i := disposition]\<rparr>;
            w2 = (case host_tasks w1 name of None \<Rightarrow> w1 | Some _ \<Rightarrow> w1\<lparr>host_tasks := (host_tasks w1)(name \<mapsto> priority)\<rparr>)
        in (w2, if disposition > 0 then engaged + 1 else engaged,
            if \<not> disposition > 0 \<and> disposition < 0 then withheld + 1 else withheld))"

definition goose_kernel_policy_tick :: "build \<Rightarrow> 'c supervisor \<Rightarrow> 'c supervisor" where
  "goose_kernel_policy_tick b w0 =
     (case sup_resolve b (note_purpose w0) ''sys.ai.pain'' of (pain_cell, w1) \<Rightarrow>
        let pained = cell_has w1 pain_cell (\<lambda>v. v = -1);
            w2 = holon_lifecycle w1 in
        case foldl (policy_field b pained) (w2, 0, 0) [0..<length (supervised_fields w2)] of (w3, engaged, withheld) \<Rightarrow>
          let w4 = (case s_kernel_disposition_cell w3 of
                      None \<Rightarrow> (case sup_resolve b w3 ''sys.kernel.disposition'' of (c, w) \<Rightarrow> w\<lparr>s_kernel_disposition_cell := c\<rparr>)
                    | Some _ \<Rightarrow> w3)
          in write_cell (s_kernel_disposition_cell w4) (goose_policy_aggregate engaged withheld) w4)"

section \<open>Equilibrium\<close>

text \<open>
  A route is judged when its cache is current; \<open>route_product\<close> is the state its sink should have.
\<close>

definition route_judged :: "loom \<Rightarrow> goose_route \<Rightarrow> (nat \<times> nat) option" where
  "route_judged s r =
     (case (cached_source r, cached_sink r) of
        (Some src, Some snk) \<Rightarrow>
          if cached_version r \<noteq> fabric_version s then None
          else if ctype (fabric_cells s ! src) = GOOSE_CELL_HARDWARE_IN then None
          else Some (src, snk)
      | _ \<Rightarrow> None)"

fun unbalanced :: "loom \<Rightarrow> goose_route list \<Rightarrow> bool" where
  "unbalanced s [] = False"
| "unbalanced s (r # rs) =
     (case route_judged s r of
        None \<Rightarrow> unbalanced s rs
      | Some (src, snk) \<Rightarrow>
          if state (fabric_cells s ! snk) \<noteq> route_product s r src \<and> ctype (fabric_cells s ! snk) = GOOSE_CELL_HARDWARE_OUT then True
          else unbalanced s rs)"

definition goose_supervisor_check_equilibrium :: "'c supervisor \<Rightarrow> nat option \<Rightarrow> unit result \<times> 'c supervisor" where
  "goose_supervisor_check_equilibrium w field =
     (case field of
        None \<Rightarrow> (Inl REFLEX_ERR_INVALID_ARG, w)
      | Some f \<Rightarrow>
          if unbalanced (loom_of w) (routes (field_of w f)) then (Inl REFLEX_FAIL, w\<lparr>system_balance := 0\<rparr>)
          else (Inr (), w\<lparr>system_balance := 1\<rparr>))"

definition give_orientation :: "loom \<Rightarrow> goose_route \<Rightarrow> goose_route" where
  "give_orientation s r =
     (case (cached_source r, cached_sink r) of
        (Some src, Some snk) \<Rightarrow>
          if ctype (fabric_cells s ! src) = GOOSE_CELL_INTENT \<and> ctype (fabric_cells s ! snk) = GOOSE_CELL_HARDWARE_OUT \<and> orientation r = 0
          then r\<lparr>orientation := 1\<rparr> else r
      | _ \<Rightarrow> r)"

text \<open>The repair of the routes in order; the flag tells that the limit stopped it.\<close>

fun rebalance_loop :: "loom \<Rightarrow> nat \<Rightarrow> goose_route list \<Rightarrow> goose_route list \<times> bool" where
  "rebalance_loop s n [] = ([], False)"
| "rebalance_loop s n (r # rs) =
     (if n > REFLEX_MAX_REBALANCE_ITERATIONS then (r # rs, True)
      else case rebalance_loop s (n + 1) rs of (rs', stopped) \<Rightarrow> (give_orientation s r # rs', stopped))"

definition goose_supervisor_rebalance :: "build \<Rightarrow> 64 word \<Rightarrow> 'c supervisor \<Rightarrow> nat option \<Rightarrow> unit result \<times> 'c supervisor" where
  "goose_supervisor_rebalance b now w field =
     (case field of
        None \<Rightarrow> (Inl REFLEX_ERR_INVALID_ARG, w)
      | Some f \<Rightarrow>
          (case goose_loom_try_lock (loom_of w) of
             (False, _) \<Rightarrow> (Inr (), w)
           | (True, s) \<Rightarrow>
               (case rebalance_loop s 0 (routes (field_of w f)) of (rs, stopped) \<Rightarrow>
                  let w1 = put_loom (goose_loom_unlock s) (put_routes f rs w) in
                  if stopped then (Inl REFLEX_ERR_INVALID_STATE, w1\<lparr>system_balance := -1\<rparr>)
                  else (case internal_process_transitions b now f (sub w1) of (rc, u) \<Rightarrow> (rc, w1\<lparr>sub := u\<rparr>)))))"

definition goose_supervisor_swarm_sync :: "'c supervisor \<Rightarrow> 'c supervisor" where
  "goose_supervisor_swarm_sync w =
     (if swarm_accumulator w > 0 then w\<lparr>swarm_accumulator := swarm_accumulator w - 1\<rparr>
      else if swarm_accumulator w < -1 then w\<lparr>swarm_accumulator := swarm_accumulator w + 1\<rparr>
      else w)"

section \<open>Evaluation\<close>

text \<open>What one route adds: progress, and whether it shows a stuck output.\<close>

definition route_progress :: "loom \<Rightarrow> nat \<Rightarrow> nat \<Rightarrow> bool" where
  "route_progress s src snk \<longleftrightarrow>
     state (fabric_cells s ! src) \<noteq> 0 \<and> state (fabric_cells s ! src) = state (fabric_cells s ! snk)"

definition route_stuck :: "loom \<Rightarrow> goose_route \<Rightarrow> nat \<Rightarrow> nat \<Rightarrow> bool" where
  "route_stuck s r src snk \<longleftrightarrow>
     ctype (fabric_cells s ! snk) = GOOSE_CELL_HARDWARE_OUT
     \<and> (let expected = int8 (state (fabric_cells s ! src)
                               * (if learned_orientation r \<noteq> 0 then learned_orientation r else orientation r))
        in state (fabric_cells s ! snk) \<noteq> expected \<and> expected \<noteq> 0)"

definition evaluate_route :: "build \<Rightarrow> loom \<Rightarrow> cstring \<Rightarrow> nat \<times> bool \<Rightarrow> goose_route \<Rightarrow> nat \<times> bool" where
  "evaluate_route b s purpose acc r =
     (case (acc, cached_source r, cached_sink r) of
        ((score, stuck), Some src, Some snk) \<Rightarrow>
          if route_touches b s purpose r
          then (if route_progress s src snk then score + 1 else score, stuck \<or> route_stuck s r src snk)
          else acc
      | _ \<Rightarrow> acc)"

text \<open>The count of ticks a field has been stuck is one byte and wraps.\<close>

definition evaluate_field :: "build \<Rightarrow> nat \<times> bool \<times> 'c supervisor \<Rightarrow> nat \<Rightarrow> nat \<times> bool \<times> 'c supervisor" where
  "evaluate_field b acc i =
     (case acc of (score, pain, w) \<Rightarrow>
        case foldl (evaluate_route b (loom_of w) (purpose_name w)) (score, False) (routes (field_of w (supervised_fields w ! i))) of
          (score', stuck) \<Rightarrow>
            let n = s_stuck_ticks w ! i + 1 in
            if stuck then (score', pain \<or> n \<ge> REFLEX_AUTO_PAIN_STUCK_TICKS, w\<lparr>s_stuck_ticks := (s_stuck_ticks w)[i := n]\<rparr>)
            else (score', pain, w\<lparr>s_stuck_ticks := (s_stuck_ticks w)[i := 0]\<rparr>))"

definition goose_supervisor_evaluate :: "build \<Rightarrow> 'c supervisor \<Rightarrow> 'c supervisor" where
  "goose_supervisor_evaluate b w =
     (if purpose_name w = [] then w
      else case foldl (evaluate_field b) (0, False, w) [0..<length (supervised_fields w)] of (score, pain, w1) \<Rightarrow>
        let w2 = (if score \<ge> REFLEX_AUTO_REWARD_THRESHOLD
                  then (case sup_resolve b w1 ''sys.ai.reward'' of (c, w) \<Rightarrow> write_cell c 1 w) else w1)
        in if pain then (case sup_resolve b w2 ''sys.ai.pain'' of (c, w) \<Rightarrow> write_cell c (-1) w) else w2)"

section \<open>Learning\<close>

text \<open>One route under reward, its increment weighted, and under pain.\<close>

definition reward_route :: "loom \<Rightarrow> int \<Rightarrow> nat \<Rightarrow> nat \<Rightarrow> goose_route \<Rightarrow> goose_route" where
  "reward_route s purpose_multiplier src snk r =
     (let v = state (fabric_cells s ! src); k = state (fabric_cells s ! snk) in
      if v = 0 \<or> k = 0 then r
      else let delta = (if v = k then 1 else -1) * purpose_multiplier;
               next0 = hebbian_counter r + delta;
               next1 = (if next0 > REFLEX_HEBBIAN_COUNTER_MAX then REFLEX_HEBBIAN_COUNTER_MAX else next0);
               next2 = (if next1 < - REFLEX_HEBBIAN_COUNTER_MAX then - REFLEX_HEBBIAN_COUNTER_MAX else next1)
           in if next2 \<ge> REFLEX_HEBBIAN_COMMIT_THRESHOLD then r\<lparr>learned_orientation := 1, hebbian_counter := 0\<rparr>
              else if next2 \<le> - REFLEX_HEBBIAN_COMMIT_THRESHOLD then r\<lparr>learned_orientation := -1, hebbian_counter := 0\<rparr>
              else r\<lparr>hebbian_counter := next2\<rparr>)"

definition pain_route :: "goose_route \<Rightarrow> goose_route" where
  "pain_route r =
     (if hebbian_counter r > 0 then r\<lparr>hebbian_counter := hebbian_counter r - 1\<rparr>
      else if hebbian_counter r < 0 then r\<lparr>hebbian_counter := hebbian_counter r + 1\<rparr>
      else r)"

definition learn_route :: "loom \<Rightarrow> bool \<Rightarrow> int \<Rightarrow> goose_route \<Rightarrow> goose_route" where
  "learn_route s rewarded purpose_multiplier r =
     (case (cached_source r, cached_sink r) of
        (Some src, Some snk) \<Rightarrow> if rewarded then reward_route s purpose_multiplier src snk r else pain_route r
      | _ \<Rightarrow> r)"

definition goose_supervisor_learn_sync :: "build \<Rightarrow> 'c supervisor \<Rightarrow> 'c supervisor" where
  "goose_supervisor_learn_sync b w0 =
     (case sup_resolve b w0 ''sys.ai.pain'' of (pain_cell, w1) \<Rightarrow>
      case sup_resolve b w1 ''sys.ai.reward'' of (reward_cell, w2) \<Rightarrow>
        let rewarded = cell_has w2 reward_cell (\<lambda>v. v = 1); pained = cell_has w2 pain_cell (\<lambda>v. v = -1) in
        if \<not> rewarded \<and> \<not> pained then w2
        else case sup_resolve b w2 ''sys.purpose'' of (purpose_cell, w3) \<Rightarrow>
          let purpose_multiplier = (if cell_has w3 purpose_cell (\<lambda>v. v \<noteq> 0) then 2 else 1) in
          case goose_loom_try_lock (loom_of w3) of
            (False, _) \<Rightarrow> w3
          | (True, s) \<Rightarrow>
              let w4 = foldl (\<lambda>w f. put_routes f (map (learn_route s rewarded purpose_multiplier) (routes (field_of w f))) w)
                         (put_loom s w3) (supervised_fields w3);
                  w5 = (if rewarded then write_cell reward_cell 0 w4 else w4)
              in put_loom (goose_loom_unlock (loom_of w5)) w5)"

section \<open>Start\<close>

definition seed_cell :: "build \<Rightarrow> 'c supervisor \<Rightarrow> string \<Rightarrow> 8 word \<Rightarrow> nat option \<times> 'c supervisor" where
  "seed_cell b w name k =
     (case goose_fabric_ensure_cell b (loom_of w) (Some (c_str name)) (goose_make_coord 0 0 k) True of
        (None, s) \<Rightarrow> (None, put_loom s w)
      | (Some i, s) \<Rightarrow> (Some i, put_loom (update_cell s i (\<lambda>c. c\<lparr>ctype := GOOSE_CELL_SYSTEM_ONLY, state := 0\<rparr>)) w))"

definition goose_supervisor_init :: "build \<Rightarrow> 'c supervisor \<Rightarrow> unit result \<times> 'c supervisor" where
  "goose_supervisor_init b w =
     (let w1 = snd (reflex_holon_create w (c_str ''autonomy'') (Some []));
          w2 = snd (reflex_holon_create w1 (c_str ''comm'') (Some (c_str ''mesh'')));
          w3 = snd (reflex_holon_create w2 (c_str ''agency'') (Some (c_str ''led'')));
          w4 = snd (seed_cell b w3 ''sys.ai.reward'' 6);
          w5 = snd (seed_cell b w4 ''sys.ai.pain'' 7)
      in case seed_cell b w5 ''sys.kernel.disposition'' 5 of
           (c, w6) \<Rightarrow> (Inr (), w6\<lparr>s_kernel_disposition_cell := c\<rparr>))"

end
