(* ===== verification/Goose_Weave.thy ===== *)
theory Goose_Weave imports Goose_Supervisor begin

text \<open>
  Autonomic weaving (goose_runtime.c, \<open>goose_supervisor_weave_sync\<close>): a cell of type need that is
  raised gets a route from itself to a capability whose name ends in the same label.
\<close>

section \<open>Model\<close>

abbreviation (input) "GOOSE_RHYTHM_HARMONIC \<equiv> (10 :: nat)"

definition MAX_FABRICATED_ROUTES :: nat where "MAX_FABRICATED_ROUTES = 16"

text \<open>\<open>strrchr(name, '.')\<close>: the last dot with what follows it.\<close>

definition last_label :: "cstring \<Rightarrow> cstring option" where
  "last_label name =
     (let t = takeWhile (\<lambda>ch. ch \<noteq> 46) (rev name) in if length t = length name then None else Some (46 # rev t))"

fun decimal :: "nat \<Rightarrow> cstring" where
  "decimal n = (if n < 10 then [48 + word_of_nat n] else decimal (n div 10) @ [48 + word_of_nat (n mod 10)])"

declare decimal.simps [simp del]

text \<open>The field of woven routes; the two flags are \<open>malloc\<close>'s answers.\<close>

definition ensure_autonomy :: "'c supervisor \<Rightarrow> bool \<Rightarrow> bool \<Rightarrow> unit result \<times> 'c supervisor" where
  "ensure_autonomy w field_mem routes_mem =
     (if autonomy_field w \<noteq> None then (Inr (), w)
      else if \<not> field_mem \<or> \<not> routes_mem then (Inl REFLEX_ERR_NO_MEM, w)
      else let f = length (field_store (sub w));
               fld = \<lparr>fname = c_str ''sys.autonomy'', routes = [], transitions = [], rhythm = GOOSE_RHYTHM_HARMONIC, total_pulses = 0\<rparr>;
               w1 = w\<lparr>sub := (sub w)\<lparr>field_store := field_store (sub w) @ [fld],
                        global_fields := snd (goose_field_start_pulse (global_fields (sub w)) (Some f))\<rparr>, autonomy_field := Some f\<rparr>;
               w2 = snd (goose_supervisor_register_field w1 (Some f));
               w3 = snd (reflex_holon_add_field w2 (Some (c_str ''autonomy'')) (Some f))
           in (Inr (), w3))"

text \<open>The capability for a need: one in the domain of the purpose first, then any.\<close>

definition find_capability :: "build \<Rightarrow> loom \<Rightarrow> cstring \<Rightarrow> cstring \<Rightarrow> nat option" where
  "find_capability b s purpose suffix =
     (case (if purpose \<noteq> [] then goonies_resolve_by_capability_in_domain b s (Some suffix) (Some purpose) else None) of
        Some c \<Rightarrow> Some c
      | None \<Rightarrow> goonies_resolve_by_capability b s (Some suffix))"

text \<open>What one cell asks for: the capability to route it to, when the cell is a trusted need that is raised.\<close>

definition need_capability :: "build \<Rightarrow> loom \<Rightarrow> cstring \<Rightarrow> nat \<Rightarrow> nat option" where
  "need_capability b s purpose i =
     (let need = fabric_cells s ! i in
      if ctype need \<noteq> GOOSE_CELL_NEED \<or> state need = 0 then None
      else case goonies_resolve_name_by_coord b (goonies s) (coord need) of
             None \<Rightarrow> None
           | Some need_name \<Rightarrow>
               if \<not> (in_ns need_name GOOSE_NS_SYS \<or> in_ns need_name GOOSE_NS_AGENCY) then None
               else (case last_label need_name of
                       None \<Rightarrow> None
                     | Some suffix \<Rightarrow> find_capability b s purpose suffix))"

definition woven_route :: "tryte9 \<Rightarrow> tryte9 \<Rightarrow> nat \<Rightarrow> goose_route" where
  "woven_route need cap i =
     \<lparr>rname = take 15 (c_str ''auto_'' @ decimal i), source_coord = need, sink_coord = cap, orientation = 1, learned_orientation = 0,
      control_coord = replicate 9 0, coupling = GOOSE_COUPLING_SOFTWARE, cached_source = None, cached_sink = None,
      cached_control = None, cached_version = 0, hebbian_counter = 0\<rparr>"

definition route_exists :: "goose_route list \<Rightarrow> tryte9 \<Rightarrow> tryte9 \<Rightarrow> bool" where
  "route_exists rs need cap =
     list_ex (\<lambda>r. goose_coord_equal (source_coord r) need \<and> goose_coord_equal (sink_coord r) cap) rs"

text \<open>One turn of the loop; the flag is its \<open>break\<close>.\<close>

definition weave_need :: "build \<Rightarrow> nat \<Rightarrow> 'c supervisor \<Rightarrow> nat \<Rightarrow> bool \<times> 'c supervisor" where
  "weave_need b f w i =
     (case need_capability b (loom_of w) (purpose_name w) i of
        None \<Rightarrow> (False, w)
      | Some cap_cell \<Rightarrow>
          (case goose_loom_try_lock (loom_of w) of
             (False, _) \<Rightarrow> (False, w)
           | (True, s) \<Rightarrow>
               let rs = routes (field_of w f);
                   need = coord (fabric_cells s ! i); cap = coord (fabric_cells s ! cap_cell);
                   w1 = put_loom (goose_loom_unlock s) w
               in if length rs \<ge> MAX_FABRICATED_ROUTES then (True, w1)
                  else if route_exists rs need cap then (False, w1)
                  else let r = woven_route need cap i;
                           w2 = put_routes f (rs @ [r]) w1
                       in (False, w2\<lparr>sub := (sub w2)\<lparr>io := snd (goose_apply_route s (io (sub w2)) (Some r))\<rparr>\<rparr>)))"

fun weave_loop :: "build \<Rightarrow> nat \<Rightarrow> 'c supervisor \<Rightarrow> nat list \<Rightarrow> 'c supervisor" where
  "weave_loop b f w [] = w"
| "weave_loop b f w (i # js) =
     (case weave_need b f w i of (stop, w1) \<Rightarrow> if stop then w1 else weave_loop b f w1 js)"

definition goose_supervisor_weave_sync :: "build \<Rightarrow> bool \<Rightarrow> bool \<Rightarrow> 'c supervisor \<Rightarrow> unit result \<times> 'c supervisor" where
  "goose_supervisor_weave_sync b field_mem routes_mem w0 =
     (case ensure_autonomy w0 field_mem routes_mem of
        (Inl e, w) \<Rightarrow> (Inl e, w)
      | (Inr _, w) \<Rightarrow> (Inr (), weave_loop b (the (autonomy_field w)) w [0..<fabric_cell_count (loom_of w)]))"

end
