(* ===== verification/Fabric_Cases.thy ===== *)
theory Fabric_Cases imports Fabric_Ops begin

text \<open>
  The fabric on concrete boards: instances of the general properties, two ways the operations
  go wrong, and the eviction ring.
\<close>

section \<open>Two small boards\<close>

text \<open>The hashes, with the remainder taken on integers: for evaluation.\<close>

lemma unat_mod_int: "unat (w :: u32) mod n = nat (uint w mod int n)"
  by (simp add: nat_mod_distrib)

lemma lattice_hash_code [code]: "goose_lattice_hash c n = nat (uint (foldl (\<lambda>(h :: u32) i. h * 3 + word_of_int (c ! i + 1)) 0 [0..<9]) mod int n)"
  by (simp only: goose_lattice_hash_def unat_mod_int)

lemma name_hash_code [code]: "goose_registry_name_hash name n =
    (if n = 0 then 0 else nat (uint (foldl (\<lambda>(h :: u32) p. (h XOR ucast p) * 16777619) 2166136261 name) mod int n))"
  by (simp only: goose_registry_name_hash_def unat_mod_int)

definition zero_cell :: goose_cell where
  "zero_cell = fresh_cell (replicate 9 0) GOOSE_CELL_VIRTUAL"

definition tiny_power :: loom where
  "tiny_power = \<lparr>fabric_cells = [zero_cell, zero_cell], lattice_index = replicate 5 0, fabric_cell_count = 0, fabric_version = 0,
     lattice_stable = False, fabric_magic = 0, goonies = registry_zero, loom_authority = False, last_eviction_idx = 0,
     s_eviction_count = 0, s_eviction_ring = replicate 8 [], s_eviction_ring_idx = 0, ghost_counter = 0, peers = [c_str ''led''],
     queries = [], s_fabric_initialized = False\<rparr>"

definition tiny_loom :: loom where "tiny_loom = booted tiny_board tiny_power False"

definition try_alloc :: "string \<Rightarrow> 8 word \<Rightarrow> bool \<Rightarrow> loom \<Rightarrow> loom" where
  "try_alloc n k sys s = snd (goose_fabric_alloc_cell tiny_board s (Some (c_str n)) (goose_make_coord k 0 0) sys)"

text \<open>An allocation under a name the registry refuses answers NULL, but in a full fabric it has evicted by then.\<close>

lemma refused_evicts:
  assumes ok: "loom_ok b s" and free: "\<not> loom_authority s" and quiet: "gate_quiet b" and gate: "sys \<or> gate_open b s"
    and c: "length c = 9" "goose_fabric_get_cell_by_coord b s c = None"
    and full: "fabric_cell_count s = fabric_max b" and t: "eviction_victim b s = Some t" and bad: "\<not> name_acceptable b n sys"
    and run: "goose_fabric_alloc_cell b s (Some n) c sys = (r, s')"
  shows "r = None" "\<exists>g. s' = (evict_target b s t)\<lparr>goonies := g\<rparr> \<and> goonies_ok b g"
proof -
  let ?l = "s\<lparr>loom_authority := True\<rparr>"
  have lock: "goose_loom_try_lock s = (True, ?l)" using free by (simp add: goose_loom_try_lock_def)
  have cl: "claim_slot b ?l = Some (t, False, (evict_target b s t)\<lparr>loom_authority := True\<rparr>)"
    using full t by (simp add: claim_slot_def)
  have ok1: "loom_ok b (evict_target b s t)" using evict_ok(1) [OF ok] victim_Some [OF t] by blast
  obtain res g where reg: "goonies_register b (goonies (evict_target b s t)) (Some n) c sys = (res, g)" by fastforce
  from goonies_run(2) [OF loom_okD(1,5) [OF ok1] c(1) reg] bad have "res \<noteq> Inr ()" by (auto simp: name_acceptable_def)
  then obtain e where e: "res = Inl e" by (cases res) auto
  from run gate have r: "alloc_in_loom b s (Some n) c sys False = (r, s')" by (auto simp: goose_fabric_alloc_cell_def alloc_quiet [OF quiet])
  with lock cl c(2) reg e show r1: "r = None" by (auto simp: alloc_in_loom_def register_opt_def split: prod.splits)
  from ok c(1) free r show "\<exists>g. s' = (evict_target b s t)\<lparr>goonies := g\<rparr> \<and> goonies_ok b g"
  proof (cases rule: alloc_in_loom_outcome)
    case (present i g)
    with c(2) show ?thesis by simp
  next
    case (refused g)
    with full t show ?thesis by simp
  next
    case (wasted u g)
    with t have "s' = (evict_target b s t)\<lparr>goonies := g\<rparr>" by simp
    with wasted(6) show ?thesis by blast
  next
    case (made i s1 g)
    with r1 show ?thesis by simp
  qed
qed

text \<open>
  C32: a refused name can cost a pinned cell, in three allocations. In a sound, full fabric with
  a reclaimable cell, whose lock is free and whose heap gate is open, on a board whose catalog
  has no row for the heap-pressure vital, a cell is asked for at an unoccupied coordinate under
  a name the registry refuses. The answer is NULL, but the victim has lost its place in the index
  while its slot keeps its coordinate. The system then pins a cell at that very coordinate, in
  another slot; the coordinate is not one of the shadow or peer namespaces, so the cell may never
  be evicted. When a later allocation, elsewhere, reclaims the stale slot, the coordinate is
  found no more, though the pinned cell is still in its slot, unchanged.
\<close>

theorem refused_name_unmaps_pinned:
  assumes ok: "loom_ok b s" and free: "\<not> loom_authority s" and quiet: "gate_quiet b" and gate: "sys \<or> gate_open b s"
    and c: "length c = 9" "goose_fabric_get_cell_by_coord b s c = None"
    and full: "fabric_cell_count s = fabric_max b" and t: "eviction_victim b s = Some t"
    and bad: "\<not> name_acceptable b n sys" and refused: "goose_fabric_alloc_cell b s (Some n) c sys = (r, s1)"
    and lost: "lost = coord (fabric_cells s ! t)" "lost ! 8 \<noteq> GOOSE_POLICY_NS_SHADOW" "lost ! 8 \<noteq> GOOSE_POLICY_NS_PEER"
    and pinned: "goose_fabric_alloc_cell b s1 (Some p) lost True = (Some j, s2)" "j \<noteq> t"
    and later: "goose_fabric_alloc_cell b s2 name c3 sys3 = (Some t, s3)" "length c3 = 9" "\<not> goose_coord_equal c3 lost"
  shows "r = None \<and> fabric_cells s1 = fabric_cells s \<and> goose_fabric_get_cell_by_coord b s1 lost = None
    \<and> goose_fabric_get_cell_by_coord b s2 lost = Some j \<and> resolve (goonies s2) p = Some lost
    \<and> \<not> cell_is_evictable (fabric_cells s2 ! j)
    \<and> fabric_cells s3 ! j = fabric_cells s2 ! j \<and> goose_fabric_get_cell_by_coord b s3 lost = None"
proof -
  note V = victim_Some [OF t]
  note E = evict_ok(1) [OF ok, of t]
  from refused_evicts [OF ok free quiet gate c full t bad refused] obtain g where
    r: "r = None" and s1: "s1 = (evict_target b s t)\<lparr>goonies := g\<rparr>" "goonies_ok b g" by blast
  have ok1: "loom_ok b s1" "\<not> loom_authority s1" using E V s1 free by (simp_all add: goonies_update_ok)
  have len: "length lost = 9" using loom_okD(8) [OF ok] V lost(1) by simp
  have miss: "goose_fabric_get_cell_by_coord b s1 lost = None" using evict_get [OF ok, of t lost] V lost(1) s1(1) by simp
  from pinned(1) have "alloc_in_loom b s1 (Some p) lost True False = (Some j, s2)"
    by (simp add: goose_fabric_alloc_cell_def alloc_quiet [OF quiet])
  with ok1(1) len ok1(2) obtain l2 g2 where m2: "slot_taken b s1 j l2" "s2 = publish_cell b (l2\<lparr>goonies := g2\<rparr>) j lost True"
      "goonies_ok b g2" "resolve g2 = bound (goonies l2) (Some p) lost"
    by (cases rule: alloc_in_loom_outcome) auto
  note M2 = made_facts [OF ok1(1) len miss m2(1,3), of True, folded m2(2)] and F2 = slot_taken_facts [OF ok1(1) m2(1)]
  have ok2: "\<not> loom_authority s2" using F2(5) ok1(2) by (simp add: m2(2))
  have cells: "fabric_cells s1 = fabric_cells s" by (simp add: s1)
  have fin2: "fabric_cells s2 ! t = fabric_cells s ! t" "fabric_cells s2 ! j = fresh_cell lost GOOSE_CELL_PINNED"
    using pinned(2) F2(13) loom_okD(2) [OF ok1(1)] by (simp_all add: M2(3) cells)
  have cnt: "t < fabric_cell_count s2" using F2(7) V full by (simp add: m2(2) s1)
  from later(1) have "alloc_in_loom b s2 name c3 sys3 False = (Some t, s3)"
    by (simp add: goose_fabric_alloc_cell_def alloc_quiet [OF quiet] split: if_splits)
  with M2(1) later(2) ok2 obtain l3 g3 where m3: "goose_fabric_get_cell_by_coord b s2 c3 = None" "slot_taken b s2 t l3"
      "s3 = publish_cell b (l3\<lparr>goonies := g3\<rparr>) t c3 sys3" "goonies_ok b g3"
    by (cases rule: alloc_in_loom_outcome) auto
  note M3 = made_facts [OF M2(1) later(2) m3(1,2,4), of sys3, folded m3(3)]
  have "goose_fabric_get_cell_by_coord b s3 lost = None"
    using M3(2) [of lost] cnt fin2(1) lost(1) later(3) by (simp add: coord_equal_key eq_commute)
  moreover have "fabric_cells s3 ! j = fabric_cells s2 ! j" using pinned(2) by (simp add: M3(3))
  moreover have "\<not> cell_is_evictable (fabric_cells s2 ! j)"
    using lost(2,3) by (simp add: fin2(2) cell_is_evictable_def goose_policy_cell_evictable_def fresh_cell_def)
  ultimately show ?thesis using r miss cells M2(2) [of lost] m2(4) by (simp add: m2(2) bound_def)
qed

text \<open>
  A refused allocation can bind its name. Allocating at an occupied coordinate answers NULL,
  the collision signal its callers test for; a name the registry accepts is bound all the same,
  so that afterwards it resolves to the cell that was there before.
\<close>

theorem alloc_collision_aliases:
  assumes ok: "loom_ok b s" and free: "\<not> loom_authority s" and quiet: "gate_quiet b" and gate: "sys \<or> gate_open b s"
    and c: "length c = 9" "goose_fabric_get_cell_by_coord b s c = Some i"
    and n: "name_acceptable b n sys" and room: "count (goonies s) < fabric_max b"
  shows "\<exists>s'. goose_fabric_alloc_cell b s (Some n) c sys = (None, s') \<and> goonies_resolve_cell b s' (Some n) = (Some i, s')"
proof -
  obtain res r where reg: "goonies_register b (goonies s) (Some n) c sys = (res, r)" by fastforce
  note R = goonies_run [OF loom_okD(1,5) [OF ok] c(1) reg]
  have acc: "res = Inr ()" using R(2) n room by (simp add: name_acceptable_def)
  then have res: "resolve r n = Some c" using R(3) by simp
  let ?s' = "s\<lparr>goonies := r\<rparr>"
  have "alloc_in_loom b s (Some n) c sys False = (None, ?s')"
    using free c(2) reg by (simp add: alloc_in_loom_def goose_loom_try_lock_def goose_loom_unlock_def register_opt_def Let_def)
  then have "goose_fabric_alloc_cell b s (Some n) c sys = (None, ?s')"
    using gate by (auto simp: goose_fabric_alloc_cell_def alloc_quiet [OF quiet])
  moreover have "loom_ok b ?s'" by (rule goonies_update_ok [OF ok R(1)])
  from resolve_registered [OF this, of n c] have "goonies_resolve_cell b ?s' (Some n) = (Some i, ?s')" using res c(2) by simp
  ultimately show ?thesis by blast
qed

section \<open>Instances\<close>

lemma tiny_power_ok: "power_on tiny_board tiny_power"
  by (simp add: power_on_def tiny_board_ok) (simp add: tiny_power_def tiny_board_def zero_cell_def fresh_cell_def GOOSE_EVICTION_RING_SIZE_def)

lemma tiny_loom_ok: "sound tiny_board tiny_loom" "all_indexed tiny_board tiny_loom"
  using cold_booted_sound [OF tiny_power_ok, of False] by (simp_all add: tiny_loom_def all_indexed_def)

lemma protected_name_code [code]:
  "protected_name b n \<longleftrightarrow> in_ns n GOOSE_NS_SYS \<or> in_ns n GOOSE_NS_AGENCY \<or> \<not> isl (goose_shadow_resolve (shadow_map b) n)"
  by (cases "goose_shadow_resolve (shadow_map b) n") (auto simp: protected_name_def)

lemma tiny_quiet: "gate_quiet tiny_board"
  unfolding gate_quiet_def by code_simp

lemma try_alloc_sound: "sound tiny_board s \<Longrightarrow> sound tiny_board (try_alloc n k sys s)"
  using call_sound [of tiny_board s "Alloc (Some (c_str n)) (goose_make_coord k 0 0) sys"] by (simp add: try_alloc_def)

theorem fabric_alloc_effect_witness:
  "goose_fabric_get_cell_by_coord tiny_board (try_alloc ''aaa'' 1 False tiny_loom) (goose_make_coord 1 0 0) = Some 0
   \<and> resolve (goonies (try_alloc ''aaa'' 1 False tiny_loom)) (c_str ''aaa'') = Some (goose_make_coord 1 0 0)
   \<and> all_indexed tiny_board (try_alloc ''aaa'' 1 False tiny_loom)"
proof -
  have "fst (goose_fabric_alloc_cell tiny_board tiny_loom (Some (c_str ''aaa'')) (goose_make_coord 1 0 0) False) = Some 0"
    by code_simp
  then have "goose_fabric_alloc_cell tiny_board tiny_loom (Some (c_str ''aaa'')) (goose_make_coord 1 0 0) False
      = (Some 0, try_alloc ''aaa'' 1 False tiny_loom)"
    unfolding try_alloc_def by (metis prod.collapse)
  from fabric_alloc_effect [OF soundD(1) [OF tiny_loom_ok(1)] soundD(2) [OF tiny_loom_ok(1)] tiny_quiet make_coord_len this]
    tiny_loom_ok(2) show ?thesis by simp
qed

text \<open>Fabric and registry are full, and only the second of the two cells may be reclaimed.\<close>

theorem fabric_alloc_succeeds_witness:
  "\<exists>i s'. goose_fabric_alloc_cell tiny_board (try_alloc ''bbb'' 2 False (try_alloc ''sys'' 1 True tiny_loom)) (Some (c_str ''ccc''))
       (goose_make_coord 3 0 0) False = (Some i, s')
     \<and> goose_fabric_get_cell_by_coord tiny_board s' (goose_make_coord 3 0 0) = Some i"
proof -
  let ?s = "try_alloc ''bbb'' 2 False (try_alloc ''sys'' 1 True tiny_loom)"
  have none: "goose_fabric_get_cell_by_coord tiny_board ?s (goose_make_coord 3 0 0) = None"
    and full: "fabric_cell_count ?s = 2" and ev: "cell_is_evictable (fabric_cells ?s ! 1)" "\<not> cell_is_evictable (fabric_cells ?s ! 0)"
    and named: "goose_registry_find_coord (goonies ?s) (coord (fabric_cells ?s ! 1)) \<noteq> EMPTY"
    and gate: "gate_open tiny_board ?s" and n: "name_acceptable tiny_board (c_str ''ccc'') False"
    by code_simp+
  have fm: "fabric_max tiny_board = 2" by (simp add: tiny_board_def)
  have "can_place tiny_board ?s" using full ev named by (auto simp: can_place_def fm less_2_cases_iff)
  moreover have "sound tiny_board ?s" by (intro try_alloc_sound tiny_loom_ok)
  ultimately show ?thesis
    using soundD [of tiny_board ?s] gate none n by (intro fabric_alloc_succeeds [OF _ _ tiny_quiet]) simp_all
qed

text \<open>
  The three allocations on the board of two cells: two guest cells fill it, a guest asks for a name
  of the system, the system pins a cell at the coordinate of the first guest, and allocates again.
\<close>

definition full_loom :: loom where
  "full_loom = try_alloc ''bbb'' 2 False (try_alloc ''aaa'' 1 False tiny_loom)"

theorem refused_name_unmaps_pinned_witness:
  "let s1 = try_alloc ''sys.x'' 3 False full_loom; s2 = try_alloc ''ppp'' 1 True s1; s3 = try_alloc ''ddd'' 4 True s2;
       c = goose_make_coord 1 0 0
   in goose_fabric_get_cell_by_coord tiny_board s2 c = Some 1 \<and> resolve (goonies s2) (c_str ''ppp'') = Some c
    \<and> \<not> cell_is_evictable (fabric_cells s2 ! 1) \<and> fabric_cells s3 ! 1 = fabric_cells s2 ! 1
    \<and> goose_fabric_get_cell_by_coord tiny_board s3 c = None"
proof -
  let ?s1 = "try_alloc ''sys.x'' 3 False full_loom" and ?c = "goose_make_coord 1 0 0"
  let ?s2 = "try_alloc ''ppp'' 1 True ?s1"
  have run: "goose_fabric_alloc_cell tiny_board s (Some (c_str m)) (goose_make_coord k 0 0) y
      = (fst (goose_fabric_alloc_cell tiny_board s (Some (c_str m)) (goose_make_coord k 0 0) y), try_alloc m k y s)" for s m k y
    by (simp add: try_alloc_def)
  have full: "fabric_cell_count full_loom = fabric_max tiny_board" "eviction_victim tiny_board full_loom = Some 0"
    "goose_fabric_get_cell_by_coord tiny_board full_loom (goose_make_coord 3 0 0) = None" "gate_open tiny_board full_loom"
    "\<not> name_acceptable tiny_board (c_str ''sys.x'') False" "?c = coord (fabric_cells full_loom ! 0)"
    "?c ! 8 \<noteq> GOOSE_POLICY_NS_SHADOW" "?c ! 8 \<noteq> GOOSE_POLICY_NS_PEER" "\<not> goose_coord_equal (goose_make_coord 4 0 0) ?c"
    by code_simp+
  have "fst (goose_fabric_alloc_cell tiny_board ?s1 (Some (c_str ''ppp'')) ?c True) = Some 1" by code_simp
  note two = run [of ?s1 "''ppp''" 1 True, unfolded this]
  have "fst (goose_fabric_alloc_cell tiny_board ?s2 (Some (c_str ''ddd'')) (goose_make_coord 4 0 0) True) = Some 0" by code_simp
  note three = run [of ?s2 "''ddd''" 4 True, unfolded this]
  have ok: "sound tiny_board full_loom" unfolding full_loom_def by (intro try_alloc_sound tiny_loom_ok)
  from refused_name_unmaps_pinned [OF soundD [OF ok] tiny_quiet disjI2 [OF full(4)] make_coord_len full(3,1,2,5) run full(6-8) two _ three make_coord_len full(9)]
  show ?thesis by (simp add: Let_def)
qed

theorem alloc_collision_aliases_witness:
  "\<exists>s'. goose_fabric_alloc_cell tiny_board (try_alloc ''aaa'' 1 False tiny_loom) (Some (c_str ''bbb'')) (goose_make_coord 1 0 0) True = (None, s')
     \<and> goonies_resolve_cell tiny_board s' (Some (c_str ''bbb'')) = (Some 0, s')"
proof -
  have "goose_fabric_get_cell_by_coord tiny_board (try_alloc ''aaa'' 1 False tiny_loom) (goose_make_coord 1 0 0) = Some 0"
    "count (goonies (try_alloc ''aaa'' 1 False tiny_loom)) < fabric_max tiny_board"
    by code_simp+
  then show ?thesis
    using soundD [OF try_alloc_sound [OF tiny_loom_ok(1)]] tiny_quiet
    by (intro alloc_collision_aliases) (simp_all add: name_acceptable_def c_str_def GOOSE_REGISTRY_NAME_MAX_def)
qed

text \<open>A catalog of two rows: a register of a whitelisted page and one of a protected page.\<close>

definition page_board :: build where
  "page_board = tiny_board\<lparr>shadow_map :=
     [\<lparr>sname = c_str ''gpio.out'', saddr = 0x60091004, smask = 3, sf = 1, sr = 0, sc = 300, stype = 2\<rparr>,
      \<lparr>sname = c_str ''pmu.ctl'', saddr = 0x600B0000, smask = 7, sf = 1, sr = 4, sc = 2, stype = 2\<rparr>]\<rparr>"

definition page_loom :: loom where "page_loom = booted page_board tiny_power False"

lemma page_loom_ok: "sound page_board page_loom"
proof -
  have "power_on page_board tiny_power" using tiny_power_ok by (simp add: power_on_def page_board_def build_ok_def)
  from cold_booted_sound(1) [OF this, of False] show ?thesis by (simp add: page_loom_def)
qed

lemma page_resolved:
  "goonies_resolve_cell page_board page_loom (Some (c_str ''gpio.out'')) = (Some 0, snd (goonies_resolve_cell page_board page_loom (Some (c_str ''gpio.out''))))"
proof -
  have "fst (goonies_resolve_cell page_board page_loom (Some (c_str ''gpio.out''))) = Some 0" by code_simp
  then show ?thesis by (metis prod.collapse)
qed

theorem resolve_cell_stable_witness:
  "let s = snd (goonies_resolve_cell page_board page_loom (Some (c_str ''gpio.out''))) in
   goonies_resolve_cell page_board s (Some (c_str ''gpio.out'')) = (Some 0, s)"
  unfolding Let_def by (rule resolve_cell_stable [OF page_loom_ok page_resolved])

theorem resolve_pages_catalog_witness:
  "hardware_addr (fabric_cells (snd (goonies_resolve_cell page_board page_loom (Some (c_str ''gpio.out'')))) ! 0) = 0x60091004
   \<and> hardware_addr (fabric_cells (snd (goonies_resolve_cell page_board page_loom (Some (c_str ''pmu.ctl'')))) ! 0) = 0"
proof -
  have new: "resolve (goonies page_loom) n = None" for n
    using reinit_ok(2) [of page_board] tiny_board_ok
    by (simp add: page_loom_def booted_def Let_def tiny_power_def page_board_def build_ok_def)
  have row: "goose_shadow_resolve (shadow_map page_board) (c_str ''gpio.out'') = Inr (0x60091004, 3, goose_make_shadow_coord 1 0 300, 2)"
    "goose_shadow_resolve (shadow_map page_board) (c_str ''pmu.ctl'') = Inr (0x600B0000, 7, goose_make_shadow_coord 1 4 2, 2)"
    by code_simp+
  have np: "\<not> in_ns (c_str ''gpio.out'') GOOSE_NS_PEER" "\<not> in_ns (c_str ''pmu.ctl'') GOOSE_NS_PEER" by code_simp+
  have g: "agency_guard GOOSE_CELL_PINNED 0x60091004 2 = Inr ()" "agency_guard GOOSE_CELL_PINNED 0x600B0000 2 \<noteq> Inr ()" by code_simp+
  have "fst (goonies_resolve_cell page_board page_loom (Some (c_str ''pmu.ctl''))) = Some 0" by code_simp
  then have "goonies_resolve_cell page_board page_loom (Some (c_str ''pmu.ctl''))
      = (Some 0, snd (goonies_resolve_cell page_board page_loom (Some (c_str ''pmu.ctl''))))" by (metis prod.collapse)
  from resolve_pages_catalog [OF page_loom_ok new np(1) row(1) page_resolved]
    resolve_pages_catalog [OF page_loom_ok new np(2) row(2) this] g
  show ?thesis by simp
qed

theorem fabric_history_safe_witness:
  "all_cells binding_ok (fold (call page_board) [Resolve (Some (c_str ''gpio.out'')), Agency (Some 0) 0x600B0000 4]
     (snd (goose_fabric_init page_board tiny_power False (c_str ''rest''))))"
proof -
  have "power_on page_board tiny_power" using tiny_power_ok by (simp add: power_on_def page_board_def build_ok_def)
  from fabric_history_safe [OF this _ _ refl, of False "[Resolve (Some (c_str ''gpio.out'')), Agency (Some 0) 0x600B0000 4]"]
  show ?thesis by simp
qed

section \<open>Waking up\<close>

definition distinct_cells :: "loom \<Rightarrow> bool" where
  "distinct_cells s \<longleftrightarrow> (\<forall>i < fabric_cell_count s. \<forall>j < fabric_cell_count s.
     goose_coord_equal (coord (fabric_cells s ! i)) (coord (fabric_cells s ! j)) \<longrightarrow> i = j)"

lemma rebuild_prefix:
  assumes len: "length (lattice_index s) = lattice_buckets b" and b: "build_ok b" and cnt: "fabric_cell_count s \<le> fabric_max b"
    and dist: "distinct_cells s"
  shows "k \<le> fabric_cell_count s \<Longrightarrow>
    (let t = foldl (\<lambda>s i. s\<lparr>lattice_index := snd (goose_lattice_insert (lattice_index s) (lattice_buckets b) (fabric_cells s)
                                        (fabric_cell_count s) (coord (fabric_cells s ! i)) (idx16 i))\<rparr>)
               (s\<lparr>lattice_index := goose_lattice_clear (lattice_index s) (lattice_buckets b)\<rparr>) [0..<k]
     in t = s\<lparr>lattice_index := lattice_index t\<rparr>
      \<and> lattice_ok (lattice_index t) (lattice_buckets b) (fabric_cells s) (fabric_cell_count s)
      \<and> (\<forall>u. stored (lattice_buckets b) (lattice_index t) u \<longleftrightarrow> (\<exists>j < k. u = int j)))"
proof (induction k)
  case 0
  have "0 < lattice_buckets b" "fabric_cell_count s < lattice_buckets b" using b cnt by (simp_all add: build_ok_def)
  with clear_ok [OF len] len show ?case by (auto simp: Let_def stored_def goose_lattice_clear_def)
next
  case (Suc k)
  let ?n = "lattice_buckets b" and ?cells = "fabric_cells s" and ?cnt = "fabric_cell_count s"
  define t where "t = foldl (\<lambda>s i. s\<lparr>lattice_index := snd (goose_lattice_insert (lattice_index s) ?n (fabric_cells s)
                                        (fabric_cell_count s) (coord (fabric_cells s ! i)) (idx16 i))\<rparr>)
               (s\<lparr>lattice_index := goose_lattice_clear (lattice_index s) ?n\<rparr>) [0..<k]"
  from Suc have t: "t = s\<lparr>lattice_index := lattice_index t\<rparr>" "lattice_ok (lattice_index t) ?n ?cells ?cnt"
    "\<And>u. stored ?n (lattice_index t) u \<longleftrightarrow> (\<exists>j < k. u = int j)"
    by (auto simp: t_def Let_def)
  have tf: "fabric_cells t = ?cells" "fabric_cell_count t = ?cnt" by (subst t(1), simp)+
  have "?cnt < ?n" "k \<le> 32767" using b cnt Suc.prems by (simp_all add: build_ok_def)
  then have k: "idx16 k = int k" "cell_live ?cnt (int k)" using Suc.prems by (simp_all add: idx16_small cell_live_def)
  have key: "goose_coord_equal (coord (?cells ! nat (int k))) (coord (?cells ! k))" by (simp add: coord_equal_key)
  from lattice_insert_run [OF t(2) lattice_free [OF t(2) \<open>?cnt < ?n\<close>] k(2) key] obtain r where r:
    "goose_lattice_insert (lattice_index t) ?n ?cells ?cnt (coord (?cells ! k)) (int k) = (True, r)" "lattice_ok r ?n ?cells ?cnt"
    "\<And>u. stored ?n r u \<longleftrightarrow> u = int k \<or> stored ?n (lattice_index t) u \<and> cell_key ?cells u \<noteq> coord_key (coord (?cells ! k))"
    by metis
  have "cell_key ?cells (int j) \<noteq> coord_key (coord (?cells ! k))" if "j < k" for j
  proof
    assume "cell_key ?cells (int j) = coord_key (coord (?cells ! k))"
    then have "goose_coord_equal (coord (?cells ! j)) (coord (?cells ! k))" by (simp add: cell_key_def coord_equal_key)
    moreover have "j < ?cnt" "k < ?cnt" using that Suc.prems by auto
    ultimately have "j = k" using dist unfolding distinct_cells_def by blast
    with that show False by simp
  qed
  then have st: "stored ?n r u \<longleftrightarrow> (\<exists>j < Suc k. u = int j)" for u
    using r(3) [of u] t(3) [of u] by (auto simp: less_Suc_eq)
  have "t\<lparr>lattice_index := snd (goose_lattice_insert (lattice_index t) ?n (fabric_cells t) (fabric_cell_count t) (coord (fabric_cells t ! k)) (idx16 k))\<rparr>
      = s\<lparr>lattice_index := r\<rparr>"
    by (subst t(1)) (simp add: tf k(1) r(1))
  with r(2) st show ?case by (simp add: Let_def t_def [symmetric])
qed

lemma rebuilt:
  assumes p: "power_on b s0" and cnt: "fabric_cell_count s0 \<le> fabric_max b" and dist: "distinct_cells s0"
  shows "\<exists>l. rebuild_lattice b (s0\<lparr>s_fabric_initialized := True, lattice_stable := False, goonies := reinit_goonies b (goonies s0), loom_authority := False\<rparr>)
      = s0\<lparr>s_fabric_initialized := True, lattice_stable := False, goonies := reinit_goonies b (goonies s0), loom_authority := False, lattice_index := l\<rparr>
    \<and> lattice_ok l (lattice_buckets b) (fabric_cells s0) (fabric_cell_count s0)
    \<and> (\<forall>u. stored (lattice_buckets b) l u \<longleftrightarrow> (\<exists>j < fabric_cell_count s0. u = int j))"
proof -
  let ?s = "s0\<lparr>s_fabric_initialized := True, lattice_stable := False, goonies := reinit_goonies b (goonies s0), loom_authority := False\<rparr>"
  have "length (lattice_index ?s) = lattice_buckets b" "build_ok b" "fabric_cell_count ?s \<le> fabric_max b" "distinct_cells ?s"
    using p cnt dist by (simp_all add: power_on_def distinct_cells_def)
  from rebuild_prefix [OF this, of "fabric_cell_count s0"] show ?thesis
    unfolding rebuild_lattice_def Let_def by (intro exI conjI) auto
qed

text \<open>
  A wake-up finds every retained cell. When the retained memory is a fabric with distinct
  coordinates, the boot keeps its cells and rebuilds the index so that each is found at its
  coordinate again, in a sound and unlocked fabric whose registry knows no name.
\<close>

theorem warm_boot_recovers:
  assumes p: "power_on b s0" and magic: "fabric_magic s0 = GOOSE_FABRIC_MAGIC"
    and cnt: "fabric_cell_count s0 \<le> fabric_max b" and dist: "distinct_cells s0"
  shows "let s = booted b s0 True in loom_ok b s \<and> \<not> loom_authority s \<and> fabric_cells s = fabric_cells s0
    \<and> (\<forall>i < fabric_cell_count s0. goose_fabric_get_cell_by_coord b s (coord (fabric_cells s0 ! i)) = Some i)
    \<and> resolve (goonies s) = Map.empty"
proof -
  from rebuilt [OF p cnt dist] magic obtain l where
    s: "booted b s0 True = s0\<lparr>s_fabric_initialized := True, goonies := reinit_goonies b (goonies s0), loom_authority := False,
          lattice_index := l, lattice_stable := True\<rparr>"
    and l: "lattice_ok l (lattice_buckets b) (fabric_cells s0) (fabric_cell_count s0)"
      "\<And>u. stored (lattice_buckets b) l u \<longleftrightarrow> (\<exists>j < fabric_cell_count s0. u = int j)"
    by (auto simp: booted_def Let_def)
  have b: "build_ok b" "goonies s0 = registry_zero" using p by (simp_all add: power_on_def)
  have ok: "loom_ok b (booted b s0 True)"
    using p l(1) cnt reinit_ok(1) [OF b(1)] by (simp add: loom_ok_def s power_on_def)
  moreover have "goose_fabric_get_cell_by_coord b (booted b s0 True) (coord (fabric_cells s0 ! i)) = Some i"
    if "i < fabric_cell_count s0" for i
    using that l(2) by (auto simp: get_cell_iff [OF ok]) (auto simp: indexed_def s)
  ultimately show ?thesis using reinit_ok(2) [OF b(1)] by (simp add: Let_def s b(2))
qed

text \<open>
  C33: the first look at a retained catalog cell fails. A name of the catalog that is not
  registered, while the fabric holds a cell at its coordinate (which is what a wake-up leaves),
  resolves to NULL although the cell is there; that very call binds the name, so that the
  next one finds the cell.
\<close>

theorem retained_cell_resolves_late:
  assumes ok: "loom_ok b s" and free: "\<not> loom_authority s" and new: "resolve (goonies s) n = None" "\<not> in_ns n GOOSE_NS_PEER"
    and row: "goose_shadow_resolve (shadow_map b) n = Inr (addr, msk, c, ty)"
    and held: "goose_fabric_get_cell_by_coord b s c = Some i"
    and n: "name_acceptable b n True" and room: "count (goonies s) < fabric_max b"
  shows "\<exists>s'. goonies_resolve_cell b s (Some n) = (None, s') \<and> goonies_resolve_cell b s' (Some n) = (Some i, s')"
proof -
  have c: "length c = 9" by (rule shadow_coord [OF row])
  obtain res r where reg: "goonies_register b (goonies s) (Some n) c True = (res, r)" by fastforce
  note R = goonies_run [OF loom_okD(1,5) [OF ok] c reg]
  have "res = Inr ()" using R(2) n room by (simp add: name_acceptable_def)
  then have res: "resolve r n = Some c" using R(3) by simp
  let ?s' = "s\<lparr>goonies := r\<rparr>"
  have "alloc_in_loom b s (Some n) c True False = (None, ?s')"
    using free held reg by (simp add: alloc_in_loom_def goose_loom_try_lock_def goose_loom_unlock_def register_opt_def Let_def)
  then have "goonies_resolve_cell b s (Some n) = (None, ?s')"
    using resolve_unregistered(2) [OF ok new] row by (simp add: page_in_def)
  moreover have "loom_ok b ?s'" by (rule goonies_update_ok [OF ok R(1)])
  from resolve_registered [OF this, of n c] have "goonies_resolve_cell b ?s' (Some n) = (Some i, ?s')" using res held by simp
  ultimately show ?thesis by blast
qed

text \<open>A board that paged a register in, slept, and woke up.\<close>

definition slept :: loom where
  "slept = (snd (goonies_resolve_cell page_board page_loom (Some (c_str ''gpio.out''))))
     \<lparr>s_fabric_initialized := False, goonies := registry_zero, last_eviction_idx := 0\<rparr>"

lemma page_power: "power_on page_board tiny_power"
  using tiny_power_ok by (simp add: power_on_def page_board_def build_ok_def)

lemma slept_ok: "power_on page_board slept" "fabric_magic slept = GOOSE_FABRIC_MAGIC" "fabric_cell_count slept = 1" "distinct_cells slept"
proof -
  have "loom_ok page_board (snd (goonies_resolve_cell page_board page_loom (Some (c_str ''gpio.out''))))"
    by (rule soundD(1) [OF resolve_sound [OF page_loom_ok]])
  note P = loom_okD [OF this] and Q = this
  have l: "length (lattice_index slept) = lattice_buckets page_board"
    using P(4) by (auto simp: slept_def lattice_ok_def dest: table_invD(2))
  show "power_on page_board slept"
    using P(1,2,8) Q l by (auto simp: power_on_def in_set_conv_nth loom_ok_def build_ok_def) (auto simp: slept_def)
  show "fabric_magic slept = GOOSE_FABRIC_MAGIC" "fabric_cell_count slept = 1" by code_simp+
  then show "distinct_cells slept" by (simp add: distinct_cells_def)
qed

theorem warm_boot_recovers_witness:
  "goose_fabric_get_cell_by_coord page_board (booted page_board slept True) (goose_make_shadow_coord 1 0 300) = Some 0"
proof -
  have "fabric_cell_count slept \<le> fabric_max page_board" using slept_ok(3) by (simp add: page_board_def tiny_board_def)
  from warm_boot_recovers [OF slept_ok(1,2) this slept_ok(4)]
  have "goose_fabric_get_cell_by_coord page_board (booted page_board slept True) (coord (fabric_cells slept ! 0)) = Some 0"
    by (simp add: Let_def slept_ok(3))
  moreover have "coord (fabric_cells slept ! 0) = goose_make_shadow_coord 1 0 300" by code_simp
  ultimately show ?thesis by simp
qed

lemma woken_ok: "loom_ok page_board (booted page_board slept True)" "\<not> loom_authority (booted page_board slept True)"
    "resolve (goonies (booted page_board slept True)) n = None" "count (goonies (booted page_board slept True)) = 0"
proof -
  have c: "fabric_cell_count slept \<le> fabric_max page_board" using slept_ok(3) by (simp add: page_board_def tiny_board_def)
  obtain l where
    s: "booted page_board slept True = slept\<lparr>s_fabric_initialized := True, goonies := reinit_goonies page_board (goonies slept), loom_authority := False,
          lattice_index := l, lattice_stable := True\<rparr>"
    and l: "lattice_ok l (lattice_buckets page_board) (fabric_cells slept) (fabric_cell_count slept)"
    using rebuilt [OF slept_ok(1) c slept_ok(4)] slept_ok(2) by (auto simp: booted_def Let_def)
  have b: "build_ok page_board" "goonies slept = registry_zero" using slept_ok(1) by (simp_all add: power_on_def)
  show "loom_ok page_board (booted page_board slept True)"
    using slept_ok(1) l c reinit_ok(1) [OF b(1)] by (simp add: loom_ok_def s power_on_def)
  show "\<not> loom_authority (booted page_board slept True)" "resolve (goonies (booted page_board slept True)) n = None"
    "count (goonies (booted page_board slept True)) = 0"
    using reinit_ok(2,3) [OF b(1)] by (simp_all add: s b(2))
qed

theorem retained_cell_resolves_late_witness:
  "\<exists>s'. goonies_resolve_cell page_board (booted page_board slept True) (Some (c_str ''gpio.out'')) = (None, s')
     \<and> goonies_resolve_cell page_board s' (Some (c_str ''gpio.out'')) = (Some 0, s')"
proof -
  have row: "goose_shadow_resolve (shadow_map page_board) (c_str ''gpio.out'') = Inr (0x60091004, 3, goose_make_shadow_coord 1 0 300, 2)"
    and np: "\<not> in_ns (c_str ''gpio.out'') GOOSE_NS_PEER"
    and held: "goose_fabric_get_cell_by_coord page_board (booted page_board slept True) (goose_make_shadow_coord 1 0 300) = Some 0"
    by code_simp+
  have fm: "fabric_max page_board = 2" by (simp add: page_board_def tiny_board_def)
  show ?thesis
    by (rule retained_cell_resolves_late [OF woken_ok(1,2) woken_ok(3) np row held])
      (simp_all add: name_acceptable_def c_str_def GOOSE_REGISTRY_NAME_MAX_def woken_ok(4) fm)
qed

section \<open>The eviction ring\<close>

text \<open>The names of the cells evicted by a list of evictions, those without a name left out.\<close>

definition victim_name :: "loom \<Rightarrow> nat \<Rightarrow> cstring option" where
  "victim_name s t =
     (let g = goose_registry_find_coord (goonies s) (coord (fabric_cells s ! t)) in
      if g = EMPTY then None else Some (ename (entries (goonies s) ! nat g)))"

fun evicted_names :: "build \<Rightarrow> loom \<Rightarrow> nat list \<Rightarrow> cstring list" where
  "evicted_names b s [] = []"
| "evicted_names b s (t # ts) =
     (case victim_name s t of None \<Rightarrow> [] | Some n \<Rightarrow> [n]) @ evicted_names b (evict_target b s t) ts"

definition ring_holds :: "loom \<Rightarrow> cstring list \<Rightarrow> bool" where
  "ring_holds s h \<longleftrightarrow> s_eviction_count s = word_of_nat (length h) \<and> s_eviction_ring_idx s = word_of_nat (length h)
     \<and> (\<forall>j < length h. length h \<le> j + 8 \<longrightarrow> s_eviction_ring s ! (j mod 8) = h ! j)"

lemma unat_mod_8: "unat (word_of_nat n :: u32) mod 8 = n mod 8"
  by (simp add: unat_of_nat mod_mod_cancel)

lemma ring_step:
  assumes ok: "loom_ok b s" and ring: "ring_holds s h"
  shows "ring_holds (evict_target b s t) (h @ (case victim_name s t of None \<Rightarrow> [] | Some n \<Rightarrow> [n]))"
proof (cases "goose_registry_find_coord (goonies s) (coord (fabric_cells s ! t)) = EMPTY")
  case True
  with ring show ?thesis by (simp add: victim_name_def Let_def ring_holds_def evict_target_def)
next
  case False
  note G = goonies_okD(1) [OF loom_okD(5) [OF ok]]
  from find_coord_sound [OF G False] obtain i where
    i: "goose_registry_find_coord (goonies s) (coord (fabric_cells s ! t)) = int i" "i < count (goonies s)" by blast
  let ?n = "ename (entries (goonies s) ! i)"
  have n: "victim_name s t = Some ?n" using False i(1) by (simp add: victim_name_def)
  have fits: "take (GOOSE_REGISTRY_NAME_MAX - 1) ?n = ?n"
  proof -
    from names_okD(5) [OF G] i(2) have "length ?n < 96" by (simp add: names_fit_def GOOSE_REGISTRY_NAME_MAX_def)
    then show ?thesis by (simp add: GOOSE_REGISTRY_NAME_MAX_def)
  qed
  have len: "length (s_eviction_ring s) = 8" using ok by (simp add: loom_ok_def GOOSE_EVICTION_RING_SIZE_def)
  let ?s' = "evict_target b s t"
  have f: "s_eviction_count ?s' = word_of_nat (length (h @ [?n]))" "s_eviction_ring_idx ?s' = word_of_nat (length (h @ [?n]))"
    "s_eviction_ring ?s' = (s_eviction_ring s)[length h mod 8 := ?n]"
    using ring False i(1) fits by (simp_all add: evict_target_def Let_def ring_holds_def GOOSE_EVICTION_RING_SIZE_def unat_mod_8 add.commute)
  have "s_eviction_ring ?s' ! (j mod 8) = (h @ [?n]) ! j" if j: "j < length (h @ [?n])" "length (h @ [?n]) \<le> j + 8" for j
  proof (cases "j = length h")
    case True
    then show ?thesis using len by (simp add: f(3))
  next
    case less: False
    with j have lt: "j < length h" "length h - j < 8" "length h \<le> j + 8" by auto
    have "j mod 8 \<noteq> length h mod 8"
    proof
      assume "j mod 8 = length h mod 8"
      then have "8 dvd length h - j" using lt(1) by (metis mod_eq_dvd_iff_nat less_imp_le_nat)
      with lt show False by (auto dest: dvd_imp_le)
    qed
    with lt ring show ?thesis by (simp add: f(3) ring_holds_def nth_append)
  qed
  with f(1,2) n show ?thesis by (simp add: ring_holds_def)
qed

lemma ring_fold:
  assumes "loom_ok b s" "ring_holds s h" "list_all (\<lambda>t. t < fabric_max b) ts"
  shows "ring_holds (fold (\<lambda>t s. evict_target b s t) ts s) (h @ evicted_names b s ts)"
  using assms
proof (induction ts arbitrary: s h)
  case (Cons t ts)
  from Cons.prems(3) have t: "t < fabric_max b" "list_all (\<lambda>t. t < fabric_max b) ts" by simp_all
  show ?case
    using Cons.IH [OF evict_ok(1) [OF Cons.prems(1) t(1)] ring_step [OF Cons.prems(1,2)] t(2)] by simp
qed simp

lemma ring_read:
  assumes ring: "ring_holds s h" and small: "length h < 2 ^ 32"
  shows "goose_fabric_get_eviction_ring s = drop (length h - 8) h"
proof -
  let ?n = "min (length h) 8"
  have c: "unat (s_eviction_count s) = length h" using ring small by (simp add: ring_holds_def unat_of_nat)
  have n: "(if unat (s_eviction_count s) < GOOSE_EVICTION_RING_SIZE then unat (s_eviction_count s) else GOOSE_EVICTION_RING_SIZE) = ?n"
    by (simp add: c GOOSE_EVICTION_RING_SIZE_def)
  have el: "s_eviction_ring s ! (unat (s_eviction_ring_idx s + word_of_nat GOOSE_EVICTION_RING_SIZE - word_of_nat ?n + word_of_nat i)
      mod GOOSE_EVICTION_RING_SIZE) = drop (length h - 8) h ! i" if "i < ?n" for i
  proof -
    have "s_eviction_ring_idx s + word_of_nat GOOSE_EVICTION_RING_SIZE - word_of_nat ?n + word_of_nat i
        = (word_of_nat (length h + (8 - ?n) + i) :: u32)"
      using ring by (simp add: ring_holds_def GOOSE_EVICTION_RING_SIZE_def of_nat_diff)
    then have "unat (s_eviction_ring_idx s + word_of_nat GOOSE_EVICTION_RING_SIZE - word_of_nat ?n + word_of_nat i)
        mod GOOSE_EVICTION_RING_SIZE = (length h + (8 - ?n) + i) mod 8"
      by (simp only: GOOSE_EVICTION_RING_SIZE_def unat_mod_8)
    also have "length h + (8 - ?n) + i = (length h - ?n + i) + 8" by simp
    also have "((length h - ?n + i) + 8) mod 8 = (length h - ?n + i) mod 8" by (simp only: mod_add_self2)
    finally have ix: "unat (s_eviction_ring_idx s + word_of_nat GOOSE_EVICTION_RING_SIZE - word_of_nat ?n + word_of_nat i)
        mod GOOSE_EVICTION_RING_SIZE = (length h - ?n + i) mod 8" .
    have "length h - ?n + i < length h" "length h \<le> length h - ?n + i + 8" using that by auto
    with ring have "s_eviction_ring s ! ((length h - ?n + i) mod 8) = h ! (length h - ?n + i)"
      unfolding ring_holds_def by blast
    moreover have "length h - ?n + i = length h - 8 + i" by simp
    ultimately show ?thesis unfolding ix using that by (simp add: add.commute)
  qed
  show ?thesis
    unfolding goose_fabric_get_eviction_ring_def Let_def n by (rule nth_equalityI) (use el in auto)
qed

text \<open>
  The eviction window tells the last victims. From the boot on, after any evictions, fewer
  than 2^32 of them, the window lists the names of the last eight named victims, or of all
  when they are fewer, oldest first.
\<close>

theorem eviction_ring_recent:
  assumes "loom_ok b s" "s_eviction_count s = 0" "s_eviction_ring_idx s = 0" "list_all (\<lambda>t. t < fabric_max b) ts"
    and "length (evicted_names b s ts) < 2 ^ 32"
  shows "goose_fabric_get_eviction_ring (fold (\<lambda>t s. evict_target b s t) ts s)
    = drop (length (evicted_names b s ts) - 8) (evicted_names b s ts)"
proof -
  have "ring_holds s []" using assms(2,3) by (simp add: ring_holds_def)
  from ring_fold [OF assms(1) this assms(4)] ring_read assms(5) show ?thesis by simp
qed

theorem eviction_ring_recent_witness:
  "goose_fabric_get_eviction_ring (fold (\<lambda>t s. evict_target tiny_board s t) [1, 0] (try_alloc ''bbb'' 2 False (try_alloc ''aaa'' 1 False tiny_loom)))
     = [c_str ''bbb'', c_str ''aaa'']"
proof -
  let ?s = "try_alloc ''bbb'' 2 False (try_alloc ''aaa'' 1 False tiny_loom)"
  have names: "evicted_names tiny_board ?s [1, 0] = [c_str ''bbb'', c_str ''aaa'']"
    and z: "s_eviction_count ?s = 0" "s_eviction_ring_idx ?s = 0" "list_all (\<lambda>t. t < fabric_max tiny_board) [1, 0]"
    by code_simp+
  have "loom_ok tiny_board ?s" by (rule soundD(1) [OF try_alloc_sound [OF try_alloc_sound [OF tiny_loom_ok(1)]]])
  from eviction_ring_recent [OF this z] show ?thesis unfolding names by simp
qed

end
