(* ===== verification/Pulse_Props.thy ===== *)
theory Pulse_Props imports Goose_Pulse Fabric_Cases begin

text \<open>
  What a pulse does to the states of cells: the type it keeps, the majority of a neuron, the law
  of a software route; what a capability search answers, and how long a lock is waited for.
\<close>

section \<open>States are trits\<close>

definition trit :: "int \<Rightarrow> bool" where "trit v \<longleftrightarrow> v = -1 \<or> v = 0 \<or> v = 1"

lemma trits [simp]: "trit 0" "trit 1" "trit (- 1)"
  by (simp_all add: trit_def)

lemma trit_mult: "trit a \<Longrightarrow> trit c \<Longrightarrow> trit (int8 (a * c))"
  by (auto simp: trit_def int8_def signed_take_bit_eq_if_negative)

definition states_ok :: "build \<Rightarrow> loom \<Rightarrow> bool" where
  "states_ok b s \<longleftrightarrow> loom_ok b s \<and> (\<forall>i < fabric_max b. trit (state (fabric_cells s ! i)))"

definition cache_in :: "build \<Rightarrow> nat option \<Rightarrow> bool" where
  "cache_in b p \<longleftrightarrow> (\<forall>i. p = Some i \<longrightarrow> i < fabric_max b)"

definition route_ok :: "build \<Rightarrow> goose_route \<Rightarrow> bool" where
  "route_ok b r \<longleftrightarrow> trit (orientation r) \<and> trit (learned_orientation r)
     \<and> cache_in b (cached_source r) \<and> cache_in b (cached_sink r) \<and> cache_in b (cached_control r)"

definition transition_ok :: "build \<Rightarrow> 'c goose_transition \<Rightarrow> bool" where
  "transition_ok b t \<longleftrightarrow> cache_in b (cached_target t)
     \<and> (\<forall>fn. evolution_fn t = Some fn \<longrightarrow> (\<forall>ctx. trit (fst (fn ctx))))"

definition field_ok :: "build \<Rightarrow> 'c goose_field \<Rightarrow> bool" where
  "field_ok b fld \<longleftrightarrow> (\<forall>r \<in> set (routes fld). route_ok b r) \<and> (\<forall>t \<in> set (transitions fld). transition_ok b t)"

definition world_ok :: "build \<Rightarrow> 'c substrate \<Rightarrow> bool" where
  "world_ok b w \<longleftrightarrow> states_ok b (fabric w) \<and> (\<forall>fld \<in> set (field_store w). field_ok b fld)
     \<and> (\<forall>f \<in> set (global_fields w). f < length (field_store w))"

lemma lookup_in: "states_ok b s \<Longrightarrow> cache_in b (goose_fabric_get_cell_by_coord b s c)"
  unfolding cache_in_def states_ok_def using get_cell_live loom_okD(3) by (meson order_less_le_trans)

lemma set_state_ok:
  assumes "states_ok b s" "trit v"
  shows "states_ok b (set_state s i v)"
proof -
  have "loom_ok b (set_state s i v)"
    unfolding set_state_def by (rule update_cell_ok(1)) (use assms in \<open>simp_all add: states_ok_def\<close>)
  moreover have "length (fabric_cells s) = fabric_max b" using assms(1) by (simp add: states_ok_def loom_ok_def)
  then have "trit (state (fabric_cells (set_state s i v) ! j))" if "j < fabric_max b" for j
    using assms that by (cases "i = j") (simp_all add: set_state_def update_cell_def states_ok_def)
  ultimately show ?thesis by (simp add: states_ok_def)
qed

lemma quorum_trit: "trit (neuron_quorum s f)"
  by (auto simp: neuron_quorum_def Let_def split: option.splits prod.splits)

lemma sample_ok: "states_ok b s \<Longrightarrow> states_ok b (sample_source hw s i)"
  by (simp add: sample_source_def Let_def set_state_ok)

lemma cached_state_trit: "states_ok b s \<Longrightarrow> cache_in b (Some i) \<Longrightarrow> trit (state (fabric_cells s ! i))"
  by (simp add: states_ok_def cache_in_def)

lemma project_ok:
  assumes s: "states_ok b s" and fs: "\<forall>fld \<in> set fs. field_ok b fld"
    and reg: "\<forall>f \<in> set registered. f < length fs"
  shows "states_ok b (project_source fs registered s i)"
proof -
  have "trit (state (fabric_cells s ! j))"
    if "goose_fabric_find_field_by_name_hash fs registered h = Some z" "routes (fs ! z) = r0 # rs" "cached_source r0 = Some j" for h z r0 rs j
  proof -
    have "z < length fs" using that(1) reg by (auto simp: goose_fabric_find_field_by_name_hash_def find_Some_iff)
    then have "field_ok b (fs ! z)" using fs by simp
    then have "cache_in b (cached_source r0)" using that(2) by (simp add: field_ok_def route_ok_def)
    with that(3) cached_state_trit [OF s] show ?thesis by simp
  qed
  then show ?thesis
    using s by (auto simp: project_source_def Let_def intro!: set_state_ok quorum_trit split: option.splits list.splits)
qed

lemma drive_ok: "states_ok b s \<Longrightarrow> trit v \<Longrightarrow> states_ok b (snd (drive_sink b hw s r i v))"
  by (auto simp: drive_sink_def Let_def set_state_ok split: option.splits list.splits)

lemma refresh_route_ok: "states_ok b s \<Longrightarrow> route_ok b r \<Longrightarrow> route_ok b (refresh_route b s r)"
  by (simp add: refresh_route_def route_ok_def lookup_in)

lemma refresh_transition_ok: "states_ok b s \<Longrightarrow> transition_ok b t \<Longrightarrow> transition_ok b (refresh_transition b s t)"
  by (simp add: refresh_transition_def transition_ok_def lookup_in)

lemma product_trit:
  assumes "states_ok b s" "route_ok b r" "cache_in b (Some i)"
  shows "trit (route_product s r i)"
proof -
  have "trit (case cached_control r of Some k \<Rightarrow> state (fabric_cells s ! k)
      | None \<Rightarrow> if learned_orientation r \<noteq> 0 then learned_orientation r else orientation r)"
    using assms(1,2) cached_state_trit [OF assms(1)] by (auto simp: route_ok_def split: option.splits)
  with cached_state_trit [OF assms(1,3)] show ?thesis unfolding route_product_def Let_def by (rule trit_mult)
qed

lemma set_update_ok: "\<forall>x \<in> set xs. P x \<Longrightarrow> P y \<Longrightarrow> \<forall>x \<in> set (xs[i := y]). P x"
  using set_update_subset_insert by fastforce

text \<open>The shape the loops of a pulse keep.\<close>

definition pulse_inv :: "build \<Rightarrow> nat \<Rightarrow> nat \<Rightarrow> nat \<Rightarrow> 'c substrate \<Rightarrow> bool" where
  "pulse_inv b f nt nr w \<longleftrightarrow> world_ok b w \<and> f < length (field_store w)
     \<and> length (transitions (field_store w ! f)) = nt \<and> length (routes (field_store w ! f)) = nr"

lemma evolve_ok:
  assumes s: "states_ok b s" and t: "transition_ok b t"
  shows "transition_ok b (fst (evolve b now s t)) \<and> states_ok b (snd (evolve b now s t))"
proof -
  define u where "u = refresh_transition b s t"
  have u: "transition_ok b u" unfolding u_def by (rule refresh_transition_ok [OF s t])
  have "trit v" if "evolution_fn u = Some fn" "fn ctx = (v, ctx')" for fn ctx v ctx'
    using u that by (metis fst_conv transition_ok_def)
  with u s show ?thesis
    unfolding evolve_def Let_def u_def [symmetric]
    by (auto simp: transition_ok_def intro: set_state_ok split: option.splits prod.splits)
qed

lemma transition_step_inv:
  assumes inv: "pulse_inv b f nt nr w" and i: "i < nt"
  shows "pulse_inv b f nt nr (transition_step b now f w i)"
proof -
  let ?fld = "field_store w ! f"
  have s: "states_ok b (fabric w)" and fs: "\<forall>fld \<in> set (field_store w). field_ok b fld" and f: "f < length (field_store w)"
    and reg: "\<forall>f \<in> set (global_fields w). f < length (field_store w)" and len: "length (transitions ?fld) = nt" "length (routes ?fld) = nr"
    using inv by (simp_all add: pulse_inv_def world_ok_def)
  obtain t1 s1 where e: "evolve b now (fabric w) (transitions ?fld ! i) = (t1, s1)" by fastforce
  have fld: "field_ok b ?fld" using fs f by simp
  moreover have "transitions ?fld ! i \<in> set (transitions ?fld)" using i len by simp
  ultimately have "transition_ok b (transitions ?fld ! i)" unfolding field_ok_def by blast
  from evolve_ok [OF s this, of now] have ok: "transition_ok b t1" "states_ok b s1" by (simp_all add: e)
  have "field_ok b (?fld\<lparr>transitions := (transitions ?fld)[i := t1]\<rparr>)"
    using fld ok(1) set_update_ok [of "transitions ?fld" "transition_ok b" t1 i] by (simp add: field_ok_def)
  from set_update_ok [OF fs this] show ?thesis
    using ok(2) f len reg by (simp add: transition_step_def Let_def e pulse_inv_def world_ok_def)
qed

text \<open>A route step by the cells its cache names.\<close>

definition routed :: "nat \<Rightarrow> 'c substrate \<Rightarrow> nat \<Rightarrow> goose_route \<Rightarrow> 'c substrate" where
  "routed f w i r = w\<lparr>field_store := (field_store w)[f := (field_store w ! f)\<lparr>routes := (routes (field_store w ! f))[i := r]\<rparr>]\<rparr>"

lemma routed_simps [simp]:
  "fabric (routed f w i r) = fabric w" "io (routed f w i r) = io w"
  "global_fields (routed f w i r) = global_fields w" "length (field_store (routed f w i r)) = length (field_store w)"
  by (simp_all add: routed_def)

lemma route_step_idle:
  assumes "r = refresh_route b (fabric w) (routes (field_store w ! f) ! i)" "cached_source r = None \<or> cached_sink r = None"
  shows "route_step b f w i = routed f w i r"
  using assms by (auto simp: route_step_def Let_def routed_def split: option.splits)

lemma route_step_active:
  assumes "r = refresh_route b (fabric w) (routes (field_store w ! f) ! i)" "cached_source r = Some src" "cached_sink r = Some snk"
    and "s2 = project_source (field_store (routed f w i r)) (global_fields w) (sample_source (io w) (fabric w) src) src"
    and "d = drive_sink b (io w) s2 r snk (route_product s2 r src)"
  obtains (drive) "coupling r = GOOSE_COUPLING_SOFTWARE" "route_step b f w i = (routed f w i r)\<lparr>fabric := snd d, io := fst d\<rparr>"
  | (other) hw where "coupling r \<noteq> GOOSE_COUPLING_SOFTWARE" "route_step b f w i = (routed f w i r)\<lparr>fabric := s2, io := hw\<rparr>"
proof (cases "coupling r = GOOSE_COUPLING_SOFTWARE")
  case True
  with assms have "route_step b f w i = (routed f w i r)\<lparr>fabric := snd d, io := fst d\<rparr>"
    unfolding route_step_def Let_def by (simp add: routed_def split: prod.split)
  with True drive show ?thesis by blast
next
  case False
  with assms have "\<exists>hw. route_step b f w i = (routed f w i r)\<lparr>fabric := s2, io := hw\<rparr>"
    unfolding route_step_def Let_def
    by (cases "coupling r = GOOSE_COUPLING_RADIO") (auto simp: routed_def intro: exI [of _ "io w"])
  with False other show ?thesis by blast
qed

lemma routed_inv:
  assumes inv: "pulse_inv b f nt nr w" and r: "route_ok b r" and t: "states_ok b t"
  shows "pulse_inv b f nt nr ((routed f w i r)\<lparr>fabric := t, io := hw\<rparr>)"
    and "\<forall>fld \<in> set (field_store (routed f w i r)). field_ok b fld"
proof -
  let ?fld = "field_store w ! f"
  have fs: "\<forall>fld \<in> set (field_store w). field_ok b fld" and f: "f < length (field_store w)" and reg: "\<forall>f \<in> set (global_fields w). f < length (field_store w)"
    and len: "length (transitions ?fld) = nt" "length (routes ?fld) = nr"
    using inv by (simp_all add: pulse_inv_def world_ok_def)
  have "field_ok b ?fld" using fs f by simp
  then have "field_ok b (?fld\<lparr>routes := (routes ?fld)[i := r]\<rparr>)"
    using set_update_ok [of "routes ?fld" "route_ok b" r i] r by (simp add: field_ok_def)
  from set_update_ok [OF fs this] show fs': "\<forall>fld \<in> set (field_store (routed f w i r)). field_ok b fld"
    by (simp add: routed_def)
  have "field_store (routed f w i r) ! f = ?fld\<lparr>routes := (routes ?fld)[i := r]\<rparr>"
    using f by (simp add: routed_def)
  with len fs' f t reg show "pulse_inv b f nt nr ((routed f w i r)\<lparr>fabric := t, io := hw\<rparr>)"
    by (simp add: pulse_inv_def world_ok_def)
qed

lemma route_step_inv:
  assumes inv: "pulse_inv b f nt nr w" and i: "i < nr"
  shows "pulse_inv b f nt nr (route_step b f w i)"
proof -
  let ?s = "fabric w" and ?fld = "field_store w ! f"
  define r where "r = refresh_route b ?s (routes ?fld ! i)"
  have reg: "\<forall>f \<in> set (global_fields w). f < length (field_store w)" using inv by (simp add: pulse_inv_def world_ok_def)
  have s: "states_ok b ?s" and fs0: "\<forall>fld \<in> set (field_store w). field_ok b fld" and f: "f < length (field_store w)"
    and fld: "field_ok b ?fld" and len: "length (transitions ?fld) = nt" "length (routes ?fld) = nr"
    using inv by (auto simp: pulse_inv_def world_ok_def)
  have "routes ?fld ! i \<in> set (routes ?fld)" using i len by simp
  with fld have "route_ok b (routes ?fld ! i)" unfolding field_ok_def by blast
  then have r: "route_ok b r" unfolding r_def by (rule refresh_route_ok [OF s])
  let ?w = "routed f w i r"
  note keep = routed_inv(1) [OF inv r] and fs = routed_inv(2) [OF inv r s]
  show ?thesis
  proof (cases "cached_source r = None \<or> cached_sink r = None")
    case True
    have "?w\<lparr>fabric := ?s, io := io w\<rparr> = ?w" by (simp add: routed_def)
    with keep [OF s, of "io w"] have "pulse_inv b f nt nr ?w" by (rule back_subst)
    then show ?thesis unfolding route_step_idle [OF r_def True] .
  next
    case False
    then obtain src snk where c: "cached_source r = Some src" "cached_sink r = Some snk" by auto
    define s2 where "s2 = project_source (field_store ?w) (global_fields w) (sample_source (io w) ?s src) src"
    define d where "d = drive_sink b (io w) s2 r snk (route_product s2 r src)"
    have s2: "states_ok b s2" unfolding s2_def by (rule project_ok [OF sample_ok [OF s] fs]) (simp add: reg)
    have "cache_in b (Some src)" using r c(1) by (simp add: route_ok_def)
    from drive_ok [OF s2 product_trit [OF s2 r this]] have d: "states_ok b (snd d)" by (simp add: d_def)
    from r_def c s2_def d_def show ?thesis
    proof (cases rule: route_step_active)
      case drive
      show ?thesis unfolding drive(2) by (rule keep [OF d])
    next
      case (other hw)
      show ?thesis unfolding other(2) by (rule keep [OF s2])
    qed
  qed
qed

lemma states_ok_lock [simp]: "states_ok b (s\<lparr>loom_authority := x\<rparr>) = states_ok b s"
  by (simp add: states_ok_def)

lemma pulse_end_ok:
  assumes "pulse_inv b f nt nr w"
  shows "world_ok b (pulse_end f w)"
proof -
  have fs: "\<forall>fld \<in> set (field_store w). field_ok b fld" and s: "states_ok b (fabric w)" and f: "f < length (field_store w)"
    and reg: "\<forall>f \<in> set (global_fields w). f < length (field_store w)"
    using assms by (simp_all add: pulse_inv_def world_ok_def)
  have "field_ok b (field_store w ! f)" using fs f by simp
  then have "field_ok b ((field_store w ! f)\<lparr>total_pulses := n\<rparr>)" for n by (simp add: field_ok_def)
  from set_update_ok [OF fs this] s reg show ?thesis
    by (simp add: pulse_end_def world_ok_def goose_loom_unlock_def)
qed

lemma foldl_keeps: "P a \<Longrightarrow> (\<And>a x. x \<in> set xs \<Longrightarrow> P a \<Longrightarrow> P (g a x)) \<Longrightarrow> P (foldl g a xs)"
  by (induction xs arbitrary: a) auto

lemma pulse_loops_inv:
  assumes "pulse_inv b f nt nr w"
  shows "pulse_inv b f nt nr (pulse_routes b f (pulse_transitions b now f w))"
proof -
  have n: "length (transitions (field_store v ! f)) = nt" "length (routes (field_store v ! f)) = nr"
    if "pulse_inv b f nt nr v" for v :: "'a substrate"
    using that by (simp_all add: pulse_inv_def)
  have 1: "pulse_inv b f nt nr (pulse_transitions b now f w)"
    unfolding pulse_transitions_def n(1) [OF assms]
    by (rule foldl_keeps [of "pulse_inv b f nt nr"]) (simp_all add: assms transition_step_inv)
  show ?thesis
    unfolding pulse_routes_def n(2) [OF 1]
    by (rule foldl_keeps [of "pulse_inv b f nt nr"]) (simp_all add: 1 route_step_inv)
qed

text \<open>
  C34: a pulse keeps states ternary. If every cell state is a trit, the orientations of the routes
  are trits and evolution functions return trits, then after a pulse of any registered field every
  cell state is a trit again, whatever the inputs, projections, neurons and products were, and
  the cached pointers still point into the cell array.
\<close>

theorem pulse_keeps_trits:
  assumes "world_ok b w" "f < length (field_store w)"
  shows "world_ok b (snd (internal_process_transitions b now f w))"
proof (cases "loom_authority (fabric w)")
  case True
  then show ?thesis using assms by (simp add: internal_process_transitions_def goose_loom_try_lock_def)
next
  case False
  let ?w = "w\<lparr>fabric := (fabric w)\<lparr>loom_authority := True\<rparr>\<rparr>"
  have "pulse_inv b f (length (transitions (field_store w ! f))) (length (routes (field_store w ! f))) ?w"
    using assms by (simp add: pulse_inv_def world_ok_def)
  from pulse_end_ok [OF pulse_loops_inv [OF this]] False show ?thesis
    by (simp add: internal_process_transitions_def goose_loom_try_lock_def)
qed

section \<open>Aggregation and waiting\<close>

text \<open>The states of a sub-field's resolved sources.\<close>

definition votes :: "loom \<Rightarrow> 'c goose_field \<Rightarrow> int list" where
  "votes s f = map (\<lambda>i. state (fabric_cells s ! i)) (List.map_filter cached_source (routes f))"

lemma tally:
  "foldl (\<lambda>(sum, count) r. case cached_source r of None \<Rightarrow> (sum, count)
                        | Some i \<Rightarrow> (sum + state (fabric_cells s ! i), count + 1)) (a, n :: int) rs
   = (a + sum_list (map (\<lambda>i. state (fabric_cells s ! i)) (List.map_filter cached_source rs)),
      n + int (length (List.map_filter cached_source rs)))"
  by (induction rs arbitrary: a n) (auto simp: map_filter_simps split: option.splits)

lemma quorum_votes:
  "neuron_quorum s (Some f) =
     (if 2 * sum_list (votes s f) > int (length (votes s f)) then 1
      else if 2 * sum_list (votes s f) < - int (length (votes s f)) then -1 else 0)"
proof -
  have "votes s f = []" if "length (votes s f) = 0" using that by simp
  then show ?thesis
    unfolding neuron_quorum_def by (auto simp: tally votes_def Let_def)
qed

lemma spin_true:
  "loom_spin start obs = Some True \<longleftrightarrow>
     (\<exists>k < length obs. \<not> fst (obs ! k) \<and> (\<forall>j < k. fst (obs ! j) \<and> snd (obs ! j) - start \<le> LOOM_LOCK_TIMEOUT_US))"
proof (induction start obs rule: loom_spin.induct)
  case (2 start held now obs)
  have "(\<exists>k < length ((held, now) # obs). P k) \<longleftrightarrow> P 0 \<or> (\<exists>k < length obs. P (Suc k))" for P
    by (metis length_Cons less_Suc_eq_0_disj zero_less_Suc Suc_less_eq)
  then show ?case using 2 by (auto simp: All_less_Suc2 not_le not_less)
qed simp

lemma spin_none:
  "loom_spin start obs = None \<longleftrightarrow> (\<forall>k < length obs. fst (obs ! k) \<and> snd (obs ! k) - start \<le> LOOM_LOCK_TIMEOUT_US)"
  by (induction start obs rule: loom_spin.induct) (auto simp: All_less_Suc2 not_le not_less)

text \<open>
  Waiting for the loom is bounded. If the clock has advanced at least one microsecond per look,
  302 looks end the wait; the lock is obtained exactly when a look found it free while every
  earlier one was within the budget of 300 microseconds.
\<close>

theorem lock_wait_bounded:
  assumes "302 \<le> length obs" "\<forall>k < 302. k \<le> unat (snd (obs ! k) - start)"
  shows "\<exists>got. loom_spin start obs = Some got
    \<and> (got \<longleftrightarrow> (\<exists>k < length obs. \<not> fst (obs ! k) \<and> (\<forall>j < k. fst (obs ! j) \<and> snd (obs ! j) - start \<le> 300)))"
proof -
  have "301 \<le> unat (snd (obs ! 301) - start)" "301 < length obs" using assms by simp_all
  moreover then have "\<not> snd (obs ! 301) - start \<le> LOOM_LOCK_TIMEOUT_US" by (simp add: LOOM_LOCK_TIMEOUT_US_def word_le_nat_alt)
  ultimately have "loom_spin start obs \<noteq> None" unfolding spin_none by blast
  then obtain got where got: "loom_spin start obs = Some got" by blast
  with spin_true [of start obs] show ?thesis unfolding LOOM_LOCK_TIMEOUT_US_def by simp
qed

definition held_forever :: "(bool \<times> 64 word) list" where
  "held_forever = map (\<lambda>k. (True, 7 + word_of_nat k)) [0..<302]"

theorem lock_wait_bounded_witness: "\<exists>got. loom_spin 7 held_forever = Some got
    \<and> (got \<longleftrightarrow> (\<exists>k < length held_forever. \<not> fst (held_forever ! k) \<and> (\<forall>j < k. fst (held_forever ! j) \<and> snd (held_forever ! j) - 7 \<le> 300)))"
  by (rule lock_wait_bounded) (simp_all add: held_forever_def unat_of_nat)

section \<open>Instance\<close>

definition sample_world :: "unit substrate" where
  "sample_world = \<lparr>fabric = try_alloc ''bbb'' 2 False (try_alloc ''aaa'' 1 False tiny_loom),
     field_store = [\<lparr>fname = c_str ''demo'',
       routes = [\<lparr>rname = c_str ''r0'', source_coord = goose_make_coord 1 0 0, sink_coord = goose_make_coord 2 0 0, orientation = -1,
          learned_orientation = 0, control_coord = replicate 9 0, coupling = GOOSE_COUPLING_SOFTWARE, cached_source = None,
          cached_sink = None, cached_control = None, cached_version = 0, hebbian_counter = 0\<rparr>],
       transitions = [\<lparr>target_coord = goose_make_coord 1 0 0, evolution_fn = Some (Pair 1), context_of = (), interval_ms = 0,
          last_run_us = 0, cached_target = None, tcached_version = 0\<rparr>], rhythm = 10, total_pulses = 0\<rparr>],
     global_fields = [0], io = \<lparr>pin_level = \<lambda>_. False, mmio = \<lambda>_. 0, sent = []\<rparr>\<rparr>"

lemma sample_world_ok: "world_ok tiny_board sample_world"
proof -
  have "sound tiny_board (fabric sample_world)"
    by (simp add: sample_world_def try_alloc_sound tiny_loom_ok(1))
  moreover have "list_all (\<lambda>i. trit (state (fabric_cells (fabric sample_world) ! i))) [0..<fabric_max tiny_board]" by code_simp
  ultimately have "states_ok tiny_board (fabric sample_world)"
    using soundD(1) by (auto simp: states_ok_def list_all_iff)
  then show ?thesis
    by (simp add: world_ok_def) (simp add: sample_world_def field_ok_def route_ok_def transition_ok_def cache_in_def)
qed

theorem pulse_keeps_trits_witness: "world_ok tiny_board (snd (internal_process_transitions tiny_board 5 0 sample_world))"
  by (rule pulse_keeps_trits [OF sample_world_ok]) (simp add: sample_world_def)

end
