(* ===== verification/Weave_Props.thy ===== *)
theory Weave_Props imports Goose_Weave Pulse_Props begin

text \<open>
  Autonomic weaving: what it adds, that a second pass adds nothing, and what the routes it adds
  do when their field is pulsed.
\<close>

section \<open>Weaving as an operation on the routes of one field\<close>

lemma unlock_locked: "\<not> loom_authority s \<Longrightarrow> goose_loom_unlock (s\<lparr>loom_authority := True\<rparr>) = s"
  by (cases s) (simp add: goose_loom_unlock_def)

lemma put_loom_same [simp]: "put_loom (loom_of w) w = w"
  by (simp add: put_loom_def)

lemma put_routes_same [simp]: "f < length (field_store (sub w)) \<Longrightarrow> put_routes f (routes (field_of w f)) w = w"
  by (simp add: put_routes_def field_of_def)

lemma put_routes_fields [simp]:
  "loom_of (put_routes f rs w) = loom_of w" "io (sub (put_routes f rs w)) = io (sub w)"
  "purpose_name (put_routes f rs w) = purpose_name w" "autonomy_field (put_routes f rs w) = autonomy_field w"
  "length (field_store (sub (put_routes f rs w))) = length (field_store (sub w))"
  by (simp_all add: put_routes_def)

lemma put_routes_routes [simp]:
  "f < length (field_store (sub w)) \<Longrightarrow> routes (field_of (put_routes f rs w) f) = rs"
  "f < length (field_store (sub w)) \<Longrightarrow> put_routes f rs' (put_routes f rs w) = put_routes f rs' w"
  by (simp_all add: put_routes_def field_of_def)

definition weave_one :: "build \<Rightarrow> loom \<Rightarrow> cstring \<Rightarrow> goose_route list \<Rightarrow> nat \<Rightarrow> bool \<times> goose_route list" where
  "weave_one b s p rs i =
     (case need_capability b s p i of
        None \<Rightarrow> (False, rs)
      | Some c \<Rightarrow>
          let need = coord (fabric_cells s ! i); cap = coord (fabric_cells s ! c) in
          if loom_authority s then (False, rs)
          else if length rs \<ge> MAX_FABRICATED_ROUTES then (True, rs)
          else if route_exists rs need cap then (False, rs)
          else (False, rs @ [woven_route need cap i]))"

fun weave_all :: "build \<Rightarrow> loom \<Rightarrow> cstring \<Rightarrow> goose_route list \<Rightarrow> nat list \<Rightarrow> goose_route list" where
  "weave_all b s p rs [] = rs"
| "weave_all b s p rs (i # js) = (case weave_one b s p rs i of (stop, rs1) \<Rightarrow> if stop then rs1 else weave_all b s p rs1 js)"

lemma weave_need_routes:
  assumes "f < length (field_store (sub w))"
  shows "weave_need b f w i = (case weave_one b (loom_of w) (purpose_name w) (routes (field_of w f)) i of (stop, rs) \<Rightarrow> (stop, put_routes f rs w))"
proof (cases "need_capability b (loom_of w) (purpose_name w) i")
  case None
  then show ?thesis using assms by (simp add: weave_need_def weave_one_def)
next
  case (Some c)
  show ?thesis
  proof (cases "loom_authority (loom_of w)")
    case True
    then show ?thesis using assms Some by (simp add: weave_need_def weave_one_def goose_loom_try_lock_def)
  next
    case False
    let ?rs = "routes (field_of w f)"
    have "snd (goose_apply_route s hw (Some (woven_route n d i))) = hw" for s hw n d
      by (simp add: goose_apply_route_def woven_route_def)
    then show ?thesis
      using assms Some False unlock_locked [OF False]
      by (simp add: weave_need_def weave_one_def goose_loom_try_lock_def Let_def)
  qed
qed

lemma weave_loop_routes:
  "f < length (field_store (sub w)) \<Longrightarrow>
   weave_loop b f w js = put_routes f (weave_all b (loom_of w) (purpose_name w) (routes (field_of w f)) js) w"
  by (induction js arbitrary: w) (auto simp: weave_need_routes split: prod.splits)

lemma weave_sync_routes:
  assumes "autonomy_field w = Some f" "f < length (field_store (sub w))"
  shows "goose_supervisor_weave_sync b m1 m2 w
    = (Inr (), put_routes f (weave_all b (loom_of w) (purpose_name w) (routes (field_of w f)) [0..<fabric_cell_count (loom_of w)]) w)"
  using assms by (simp add: goose_supervisor_weave_sync_def ensure_autonomy_def weave_loop_routes)

section \<open>What is woven\<close>

lemma route_exists_append [simp]: "route_exists rs n c \<Longrightarrow> route_exists (rs @ ts) n c"
  "route_exists (rs @ woven_route n c i # ts) n c"
  by (simp_all add: route_exists_def woven_route_def)

definition same_ends :: "goose_route \<Rightarrow> goose_route \<Rightarrow> bool" where
  "same_ends r q \<longleftrightarrow> goose_coord_equal (source_coord r) (source_coord q) \<and> goose_coord_equal (sink_coord r) (sink_coord q)"

lemma weave_one_grows:
  assumes "weave_one b s p rs i = (stop, rs1)"
  shows "rs1 = rs \<or> (\<exists>c. need_capability b s p i = Some c \<and> length rs < MAX_FABRICATED_ROUTES
    \<and> \<not> route_exists rs (coord (fabric_cells s ! i)) (coord (fabric_cells s ! c))
    \<and> rs1 = rs @ [woven_route (coord (fabric_cells s ! i)) (coord (fabric_cells s ! c)) i])"
  using assms by (auto simp: weave_one_def Let_def split: option.splits if_splits)

lemma weave_all_grows:
  "\<exists>new. weave_all b s p rs js = rs @ new \<and> length (rs @ new) \<le> max MAX_FABRICATED_ROUTES (length rs)
    \<and> (\<forall>r \<in> set new. \<exists>i \<in> set js. \<exists>c. need_capability b s p i = Some c
          \<and> r = woven_route (coord (fabric_cells s ! i)) (coord (fabric_cells s ! c)) i)
    \<and> sorted_wrt (\<lambda>r q. \<not> same_ends r q) new \<and> (\<forall>q \<in> set new. \<forall>r \<in> set rs. \<not> same_ends r q)"
proof (induction js arbitrary: rs)
  case (Cons i js)
  obtain stop rs1 where one: "weave_one b s p rs i = (stop, rs1)" by fastforce
  show ?case
  proof (cases "rs1 = rs")
    case True
    show ?thesis
    proof (cases stop)
      case True
      then show ?thesis using one \<open>rs1 = rs\<close> by (intro exI [of _ "[]"]) simp
    next
      case False
      then show ?thesis using one \<open>rs1 = rs\<close> Cons.IH [of rs] by simp blast
    qed
  next
    case False
    with weave_one_grows [OF one] obtain c where c: "need_capability b s p i = Some c" "length rs < MAX_FABRICATED_ROUTES"
      "\<not> route_exists rs (coord (fabric_cells s ! i)) (coord (fabric_cells s ! c))"
      "rs1 = rs @ [woven_route (coord (fabric_cells s ! i)) (coord (fabric_cells s ! c)) i]" by blast
    have run: "\<not> stop" using one c by (auto simp: weave_one_def Let_def split: if_splits)
    let ?r = "woven_route (coord (fabric_cells s ! i)) (coord (fabric_cells s ! c)) i"
    from Cons.IH [of rs1] obtain new where new: "weave_all b s p rs1 js = rs1 @ new" "length (rs1 @ new) \<le> max MAX_FABRICATED_ROUTES (length rs1)"
      "\<forall>r \<in> set new. \<exists>i \<in> set js. \<exists>c. need_capability b s p i = Some c \<and> r = woven_route (coord (fabric_cells s ! i)) (coord (fabric_cells s ! c)) i"
      "sorted_wrt (\<lambda>r q. \<not> same_ends r q) new" "\<forall>q \<in> set new. \<forall>r \<in> set rs1. \<not> same_ends r q" by blast
    have "\<forall>r \<in> set rs. \<not> same_ends r ?r"
      using c(3) by (auto simp: same_ends_def route_exists_def woven_route_def list_ex_iff)
    with new one c run show ?thesis
      by (intro exI [of _ "?r # new"]) auto
  qed
qed simp

lemma weave_all_twice: "weave_all b s p (weave_all b s p rs js) js = weave_all b s p rs js"
proof (induction js arbitrary: rs)
  case (Cons i js)
  obtain stop rs1 where one: "weave_one b s p rs i = (stop, rs1)" by fastforce
  show ?case
  proof (cases stop)
    case True
    with one have "rs1 = rs" by (auto simp: weave_one_def Let_def split: option.splits if_splits)
    with one True show ?thesis by simp
  next
    case False
    let ?T = "weave_all b s p rs1 js"
    obtain new where T: "?T = rs1 @ new" using weave_all_grows [of b s p rs1 js] by blast
    have "weave_one b s p ?T i = (False, ?T) \<or> weave_one b s p ?T i = (True, ?T)"
      using one False T by (auto simp: weave_one_def Let_def split: option.splits if_splits)
    then show ?thesis using one False Cons.IH [of rs1] by auto
  qed
qed simp

lemma first_capability_sound:
  "first_capability b s accepts zs = Some c \<Longrightarrow>
   \<exists>(zone, j) \<in> set zs. accepts zone (ename (entries (goonies s) ! j))
     \<and> goose_fabric_get_cell_by_coord b s (ecoord (entries (goonies s) ! j)) = Some c \<and> ctype (fabric_cells s ! c) \<noteq> GOOSE_CELL_NEED"
  by (induction zs) (auto simp: Let_def split: if_splits option.splits)

text \<open>An answer of the capability search: an entry in a trusted zone, with the suffix, whose cell is no need.\<close>

definition offers :: "build \<Rightarrow> loom \<Rightarrow> cstring \<Rightarrow> nat \<Rightarrow> bool" where
  "offers b s suffix c \<longleftrightarrow> ctype (fabric_cells s ! c) \<noteq> GOOSE_CELL_NEED
     \<and> (\<exists>j < count (goonies s). \<exists>zone \<in> set trusted_zones. in_ns (ename (entries (goonies s) ! j)) zone
          \<and> has_suffix (ename (entries (goonies s) ! j)) suffix
          \<and> goose_fabric_get_cell_by_coord b s (ecoord (entries (goonies s) ! j)) = Some c)"

lemma find_capability_offers: "find_capability b s purpose suffix = Some c \<Longrightarrow> offers b s suffix c"
  unfolding find_capability_def goonies_resolve_by_capability_in_domain_def goonies_resolve_by_capability_def offers_def
  by (fastforce dest!: first_capability_sound simp: zone_entries_def split: option.splits if_splits list.splits)

definition trusted_need :: "build \<Rightarrow> loom \<Rightarrow> nat \<Rightarrow> cstring \<Rightarrow> bool" where
  "trusted_need b s i suffix \<longleftrightarrow> ctype (fabric_cells s ! i) = GOOSE_CELL_NEED \<and> state (fabric_cells s ! i) \<noteq> 0
     \<and> (\<exists>n. goonies_resolve_name_by_coord b (goonies s) (coord (fabric_cells s ! i)) = Some n
          \<and> (in_ns n GOOSE_NS_SYS \<or> in_ns n GOOSE_NS_AGENCY) \<and> last_label n = Some suffix)"

lemma need_capability_sound:
  "need_capability b s purpose i = Some c \<Longrightarrow> \<exists>suffix. trusted_need b s i suffix \<and> offers b s suffix c"
  unfolding need_capability_def trusted_need_def
  by (auto simp: Let_def intro: find_capability_offers split: if_splits option.splits)

text \<open>
  C35: weaving is sound. A pass of weaving only appends routes to the autonomy field, never beyond
  sixteen. Each one starts at a raised need with a trusted name and ends at a cell offering, in a
  trusted zone, a capability that ends in the same label and is no need itself; it carries
  orientation one over software, and no two routes, new or old, join the same pair because of it.
\<close>

theorem weave_sound:
  assumes "autonomy_field w = Some f" "f < length (field_store (sub w))"
  shows "\<exists>new. goose_supervisor_weave_sync b m1 m2 w = (Inr (), put_routes f (routes (field_of w f) @ new) w)
    \<and> length (routes (field_of w f) @ new) \<le> max MAX_FABRICATED_ROUTES (length (routes (field_of w f)))
    \<and> (\<forall>r \<in> set new. \<exists>i < fabric_cell_count (loom_of w). \<exists>c suffix. trusted_need b (loom_of w) i suffix \<and> offers b (loom_of w) suffix c
          \<and> r = woven_route (coord (fabric_cells (loom_of w) ! i)) (coord (fabric_cells (loom_of w) ! c)) i)
    \<and> sorted_wrt (\<lambda>r q. \<not> same_ends r q) new \<and> (\<forall>q \<in> set new. \<forall>r \<in> set (routes (field_of w f)). \<not> same_ends r q)"
proof -
  from weave_all_grows [of b "loom_of w" "purpose_name w" "routes (field_of w f)" "[0..<fabric_cell_count (loom_of w)]"]
  obtain new where new: "weave_all b (loom_of w) (purpose_name w) (routes (field_of w f)) [0..<fabric_cell_count (loom_of w)] = routes (field_of w f) @ new"
    "length (routes (field_of w f) @ new) \<le> max MAX_FABRICATED_ROUTES (length (routes (field_of w f)))"
    "\<forall>r \<in> set new. \<exists>i \<in> set [0..<fabric_cell_count (loom_of w)]. \<exists>c. need_capability b (loom_of w) (purpose_name w) i = Some c
       \<and> r = woven_route (coord (fabric_cells (loom_of w) ! i)) (coord (fabric_cells (loom_of w) ! c)) i"
    "sorted_wrt (\<lambda>r q. \<not> same_ends r q) new" "\<forall>q \<in> set new. \<forall>r \<in> set (routes (field_of w f)). \<not> same_ends r q" by blast
  have "\<exists>i < fabric_cell_count (loom_of w). \<exists>c suffix. trusted_need b (loom_of w) i suffix \<and> offers b (loom_of w) suffix c
          \<and> r = woven_route (coord (fabric_cells (loom_of w) ! i)) (coord (fabric_cells (loom_of w) ! c)) i" if "r \<in> set new" for r
    using new(3) that need_capability_sound by fastforce
  with new show ?thesis by (intro exI [of _ new]) (simp add: weave_sync_routes [OF assms])
qed

text \<open>
  Weaving settles at once. A second pass over an unchanged fabric changes nothing, whether
  the first one added every route that was missing or stopped at the bound.
\<close>

theorem weave_settles:
  assumes "autonomy_field w = Some f" "f < length (field_store (sub w))"
    and "goose_supervisor_weave_sync b m1 m2 w = (rc, w')"
  shows "goose_supervisor_weave_sync b m3 m4 w' = (Inr (), w')"
proof -
  let ?rs = "weave_all b (loom_of w) (purpose_name w) (routes (field_of w f)) [0..<fabric_cell_count (loom_of w)]"
  have w': "w' = put_routes f ?rs w" using assms(3) by (simp add: weave_sync_routes [OF assms(1,2)])
  have "autonomy_field w' = Some f" "f < length (field_store (sub w'))" using assms by (simp_all add: w')
  from weave_sync_routes [OF this] show ?thesis using assms(2) by (simp add: w' weave_all_twice)
qed

section \<open>What woven routes do\<close>

text \<open>
  The loom after part of a pulse of woven routes: some cells that are no needs have been set to
  zero, and nothing else has changed.
\<close>

inductive zeroed :: "loom \<Rightarrow> loom \<Rightarrow> bool" for s where
  none: "zeroed s s"
| zero: "zeroed s t \<Longrightarrow> ctype (fabric_cells s ! i) \<noteq> GOOSE_CELL_NEED \<Longrightarrow> zeroed s (set_state t i 0)"

lemma set_state_cells:
  "ctype (fabric_cells (set_state t i v) ! j) = ctype (fabric_cells t ! j)"
  "peer_id (fabric_cells (set_state t i v) ! j) = peer_id (fabric_cells t ! j)"
  "state (fabric_cells (set_state t i v) ! j) = (if i = j \<and> i < length (fabric_cells t) then v else state (fabric_cells t ! j))"
  "length (fabric_cells (set_state t i v)) = length (fabric_cells t)"
  "fabric_version (set_state t i v) = fabric_version t" "goonies (set_state t i v) = goonies t"
  by (cases "i < length (fabric_cells t)"; cases "i = j"; simp add: set_state_def update_cell_def list_update_beyond)+

lemma set_state_lookup:
  assumes "loom_ok b t"
  shows "loom_ok b (set_state t i v)" "goose_fabric_get_cell_by_coord b (set_state t i v) c = goose_fabric_get_cell_by_coord b t c"
  unfolding set_state_def by (rule update_cell_ok [OF assms]; simp)+

lemma zeroed_frame:
  assumes "zeroed s t" "loom_ok b s"
  shows "loom_ok b t \<and> goose_fabric_get_cell_by_coord b t = goose_fabric_get_cell_by_coord b s
    \<and> fabric_version t = fabric_version s \<and> length (fabric_cells t) = length (fabric_cells s)
    \<and> (\<forall>j. ctype (fabric_cells t ! j) = ctype (fabric_cells s ! j) \<and> peer_id (fabric_cells t ! j) = peer_id (fabric_cells s ! j)
        \<and> (state (fabric_cells t ! j) = state (fabric_cells s ! j) \<or> state (fabric_cells t ! j) = 0)
        \<and> (ctype (fabric_cells s ! j) = GOOSE_CELL_NEED \<longrightarrow> state (fabric_cells t ! j) = state (fabric_cells s ! j)))"
  using assms
proof (induction rule: zeroed.induct)
  case none
  then show ?case by simp
next
  case (zero t i)
  then have t: "loom_ok b t" by blast
  show ?case
    using zero set_state_lookup [OF t, of i 0] by (auto simp: set_state_cells fun_eq_iff)
qed

text \<open>A fresh woven route in a pulse: its sink is driven to zero.\<close>

lemma woven_step:
  assumes ok: "loom_ok b (fabric w)" and r: "routes (field_store w ! f) ! i = woven_route n c m"
    and origin: "goose_fabric_get_cell_by_coord b (fabric w) (replicate 9 0) = Some k" "state (fabric_cells (fabric w) ! k) = 0"
    and need: "\<And>a. goose_fabric_get_cell_by_coord b (fabric w) n = Some a \<Longrightarrow> ctype (fabric_cells (fabric w) ! a) = GOOSE_CELL_NEED"
  shows "\<exists>q hw s. route_step b f w i = (routed f w i q)\<lparr>fabric := s, io := hw\<rparr>
    \<and> (s = fabric w \<and> (\<forall>d. goose_fabric_get_cell_by_coord b (fabric w) n \<noteq> None \<longrightarrow> goose_fabric_get_cell_by_coord b (fabric w) c = Some d
           \<longrightarrow> peer_id (fabric_cells (fabric w) ! d) \<noteq> 0)
       \<or> (\<exists>d. goose_fabric_get_cell_by_coord b (fabric w) c = Some d \<and> s = set_state (fabric w) d 0))"
proof -
  let ?s = "fabric w"
  define q where "q = refresh_route b ?s (routes (field_store w ! f) ! i)"
  have q: "cached_source q = goose_fabric_get_cell_by_coord b ?s n" "cached_sink q = goose_fabric_get_cell_by_coord b ?s c"
    "cached_control q = Some k" "coupling q = GOOSE_COUPLING_SOFTWARE"
    using origin by (simp_all add: q_def r refresh_route_def woven_route_def)
  show ?thesis
  proof (cases "cached_source q = None \<or> cached_sink q = None")
    case True
    have "route_step b f w i = (routed f w i q)\<lparr>fabric := ?s, io := io w\<rparr>"
      unfolding route_step_idle [OF q_def True] by (simp add: routed_def)
    then show ?thesis using True q by (intro exI [of _ q] exI [of _ "io w"] exI [of _ ?s]) auto
  next
    case False
    then obtain a d where c: "cached_source q = Some a" "cached_sink q = Some d" by auto
    define s2 where "s2 = project_source (field_store (routed f w i q)) (global_fields w) (sample_source (io w) ?s a) a"
    define v where "v = drive_sink b (io w) s2 q d (route_product s2 q a)"
    have "ctype (fabric_cells ?s ! a) = GOOSE_CELL_NEED" using need c(1) q(1) by simp
    then have s2: "s2 = ?s" by (simp add: s2_def sample_source_def project_source_def Let_def)
    have "route_product ?s q a = 0" by (simp add: route_product_def Let_def q(3) origin(2) int8_def)
    then have v: "v = drive_sink b (io w) ?s q d 0" by (simp add: v_def s2)
    have "snd v = ?s \<and> peer_id (fabric_cells ?s ! d) \<noteq> 0 \<or> snd v = set_state ?s d 0"
      by (auto simp: v drive_sink_def Let_def split: option.splits list.splits)
    moreover have "route_step b f w i = (routed f w i q)\<lparr>fabric := snd v, io := fst v\<rparr>"
      using route_step_active [OF q_def c s2_def v_def] q(4) by metis
    moreover have "goose_fabric_get_cell_by_coord b ?s c = Some d" using q(2) c(2) by simp
    ultimately show ?thesis by (intro exI [of _ q] exI [of _ "fst v"] exI [of _ "snd v"]) auto
  qed
qed

definition woven_field :: "build \<Rightarrow> loom \<Rightarrow> goose_route list \<Rightarrow> bool" where
  "woven_field b s rs \<longleftrightarrow> (\<forall>r \<in> set rs. \<exists>n c m. r = woven_route n c m
     \<and> (\<forall>a. goose_fabric_get_cell_by_coord b s n = Some a \<longrightarrow> ctype (fabric_cells s ! a) = GOOSE_CELL_NEED)
     \<and> (\<forall>d. goose_fabric_get_cell_by_coord b s c = Some d \<longrightarrow> ctype (fabric_cells s ! d) \<noteq> GOOSE_CELL_NEED))"

text \<open>The first \<open>k\<close> routes are pulsed: their local sinks are zero.\<close>

definition quenched :: "build \<Rightarrow> loom \<Rightarrow> nat \<Rightarrow> goose_route list \<Rightarrow> nat \<Rightarrow> 'c substrate \<Rightarrow> bool" where
  "quenched b s f rs k w \<longleftrightarrow> f < length (field_store w) \<and> zeroed s (fabric w)
     \<and> length (routes (field_store w ! f)) = length rs \<and> (\<forall>j. k \<le> j \<longrightarrow> j < length rs \<longrightarrow> routes (field_store w ! f) ! j = rs ! j)
     \<and> (\<forall>j < k. \<forall>d. goose_fabric_get_cell_by_coord b s (source_coord (rs ! j)) \<noteq> None
          \<longrightarrow> goose_fabric_get_cell_by_coord b s (sink_coord (rs ! j)) = Some d \<longrightarrow> peer_id (fabric_cells s ! d) = 0
          \<longrightarrow> state (fabric_cells (fabric w) ! d) = 0)"

lemma quenched_step:
  assumes ok: "loom_ok b s" and q: "quenched b s f rs k w" and k: "k < length rs" and woven: "woven_field b s rs"
    and origin: "goose_fabric_get_cell_by_coord b s (replicate 9 0) = Some z" "state (fabric_cells s ! z) = 0"
  shows "quenched b s f rs (Suc k) (route_step b f w k)"
proof -
  let ?t = "fabric w" and ?get = "goose_fabric_get_cell_by_coord b s"
  have Q: "f < length (field_store w)" "zeroed s ?t" "length (routes (field_store w ! f)) = length rs"
    "\<And>j. k \<le> j \<Longrightarrow> j < length rs \<Longrightarrow> routes (field_store w ! f) ! j = rs ! j"
    and past: "\<And>j d. j < k \<Longrightarrow> ?get (source_coord (rs ! j)) \<noteq> None \<Longrightarrow> ?get (sink_coord (rs ! j)) = Some d
       \<Longrightarrow> peer_id (fabric_cells s ! d) = 0 \<Longrightarrow> state (fabric_cells ?t ! d) = 0"
    using q unfolding quenched_def by blast+
  note Z = zeroed_frame [OF Q(2) ok]
  obtain n c m where r: "rs ! k = woven_route n c m" and N: "\<And>a. ?get n = Some a \<Longrightarrow> ctype (fabric_cells s ! a) = GOOSE_CELL_NEED"
    and C: "\<And>d. ?get c = Some d \<Longrightarrow> ctype (fabric_cells s ! d) \<noteq> GOOSE_CELL_NEED"
    using woven k unfolding woven_field_def by (metis nth_mem)
  have "routes (field_store w ! f) ! k = woven_route n c m" using Q(4) k r by simp
  moreover have "state (fabric_cells ?t ! z) = 0" using Z origin(2) by metis
  moreover have "ctype (fabric_cells ?t ! a) = GOOSE_CELL_NEED" if "goose_fabric_get_cell_by_coord b ?t n = Some a" for a
    using that N Z by simp
  ultimately obtain p hw u where step: "route_step b f w k = (routed f w k p)\<lparr>fabric := u, io := hw\<rparr>"
    and u: "u = ?t \<and> (\<forall>d. ?get n \<noteq> None \<longrightarrow> ?get c = Some d \<longrightarrow> peer_id (fabric_cells s ! d) \<noteq> 0)
       \<or> (\<exists>d. ?get c = Some d \<and> u = set_state ?t d 0)"
    using woven_step [of b w f k n c m z] Z origin(1) by auto
  have "zeroed s u" using u Q(2) C zeroed.zero by blast
  moreover have "state (fabric_cells u ! d) = 0" if "state (fabric_cells ?t ! d) = 0" for d
    using u that by (auto simp: set_state_cells)
  moreover have "state (fabric_cells u ! d) = 0" if "?get n \<noteq> None" "?get c = Some d" "peer_id (fabric_cells s ! d) = 0" for d
  proof -
    have "d < length (fabric_cells ?t)" using get_cell_live [OF ok that(2)] loom_okD(2,3) [OF ok] Z by simp
    with u that show ?thesis by (auto simp: set_state_cells)
  qed
  ultimately show ?thesis
    using Q(1,3,4) past r by (auto simp: step quenched_def routed_def less_Suc_eq woven_route_def)
qed

text \<open>
  C36: woven routes never drive. No code gives a route a control coordinate, so a woven route has
  the zero one, which is the coordinate of sys.origin, a seeded cell that stays at zero. The pulse
  takes the control's state for the orientation: the first pulse of the autonomy field drives the
  local sink of every woven route to zero whatever its need shows, and leaves the needs raised.
\<close>

theorem woven_routes_never_drive:
  assumes ok: "loom_ok b (fabric w)" and free: "\<not> loom_authority (fabric w)" and f: "f < length (field_store w)"
    and fld: "transitions (field_store w ! f) = []" "woven_field b (fabric w) (routes (field_store w ! f))"
    and origin: "goose_fabric_get_cell_by_coord b (fabric w) (goose_make_coord 0 0 0) = Some z" "state (fabric_cells (fabric w) ! z) = 0"
    and run: "internal_process_transitions b now f w = (rc, w')"
  shows "rc = Inr ()
    \<and> (\<forall>r \<in> set (routes (field_store w ! f)). \<forall>a d. goose_fabric_get_cell_by_coord b (fabric w) (source_coord r) = Some a
         \<longrightarrow> goose_fabric_get_cell_by_coord b (fabric w) (sink_coord r) = Some d \<longrightarrow> peer_id (fabric_cells (fabric w) ! d) = 0
         \<longrightarrow> state (fabric_cells (fabric w') ! d) = 0 \<and> state (fabric_cells (fabric w') ! a) = state (fabric_cells (fabric w) ! a))"
proof -
  let ?s = "(fabric w)\<lparr>loom_authority := True\<rparr>" and ?rs = "routes (field_store w ! f)"
  let ?w = "w\<lparr>fabric := ?s\<rparr>"
  have get: "goose_fabric_get_cell_by_coord b ?s = goose_fabric_get_cell_by_coord b (fabric w)"
    by (simp add: goose_fabric_get_cell_by_coord_def fun_eq_iff)
  have ok': "loom_ok b ?s" using ok by (simp add: loom_ok_def)
  have zero: "goose_make_coord 0 0 0 = replicate 9 0" by code_simp
  have woven: "woven_field b ?s ?rs" using fld(2) by (simp add: woven_field_def get)
  have origin': "goose_fabric_get_cell_by_coord b ?s (replicate 9 0) = Some z" "state (fabric_cells ?s ! z) = 0"
    using origin by (simp_all add: get zero)
  have "quenched b ?s f ?rs 0 ?w" using f by (simp add: quenched_def zeroed.none)
  then have "k \<le> length ?rs \<Longrightarrow> quenched b ?s f ?rs k (foldl (route_step b f) ?w [0..<k])" for k
    by (induction k) (simp_all add: quenched_step [OF ok' _ _ woven origin'])
  from this [of "length ?rs"] have q: "quenched b ?s f ?rs (length ?rs) (pulse_routes b f ?w)" by (simp add: pulse_routes_def)
  have w': "rc = Inr ()" "w' = pulse_end f (pulse_routes b f ?w)"
    using run free fld(1) by (simp_all add: internal_process_transitions_def goose_loom_try_lock_def pulse_transitions_def)
  have cells: "fabric_cells (fabric w') = fabric_cells (fabric (pulse_routes b f ?w))"
    by (simp add: w'(2) pulse_end_def goose_loom_unlock_def)
  have Z: "zeroed ?s (fabric (pulse_routes b f ?w))" using q by (simp add: quenched_def)
  have "state (fabric_cells (fabric w') ! d) = 0 \<and> state (fabric_cells (fabric w') ! a) = state (fabric_cells (fabric w) ! a)"
    if r: "r \<in> set ?rs" and a: "goose_fabric_get_cell_by_coord b (fabric w) (source_coord r) = Some a"
      and d: "goose_fabric_get_cell_by_coord b (fabric w) (sink_coord r) = Some d" "peer_id (fabric_cells (fabric w) ! d) = 0" for r a d
  proof -
    obtain j where j: "j < length ?rs" "?rs ! j = r" using r by (auto simp: in_set_conv_nth)
    have "ctype (fabric_cells (fabric w) ! a) = GOOSE_CELL_NEED"
      using fld(2) r a unfolding woven_field_def by (fastforce simp: woven_route_def)
    then have "state (fabric_cells (fabric w') ! a) = state (fabric_cells (fabric w) ! a)"
      using zeroed_frame [OF Z ok'] by (simp add: cells)
    moreover have "state (fabric_cells (fabric w') ! d) = 0"
      using q j a d unfolding quenched_def get by (auto simp: cells)
    ultimately show ?thesis by blast
  qed
  with w'(1) show ?thesis by blast
qed

section \<open>Instance\<close>

text \<open>A board of eight cells: the origin, a raised need and an output that offers what it needs.\<close>

definition demo_board :: build where
  "demo_board = tiny_board\<lparr>fabric_max := 8, lattice_buckets := 11, registry_buckets := 11\<rparr>"

definition demo_power :: loom where
  "demo_power = tiny_power\<lparr>fabric_cells := replicate 8 zero_cell, lattice_index := replicate 11 0\<rparr>"

definition demo_base :: loom where
  "demo_base = fold (call demo_board)
     [Alloc (Some (c_str ''sys.origin'')) (goose_make_coord 0 0 0) True, Alloc (Some (c_str ''sys.need.led'')) (goose_make_coord 0 1 1) True,
      Alloc (Some (c_str ''agency.led'')) (goose_make_coord 0 1 2) True] (booted demo_board demo_power False)"

definition demo_loom :: loom where
  "demo_loom = update_cell (update_cell demo_base 1 (\<lambda>c. c\<lparr>ctype := GOOSE_CELL_NEED, state := 1\<rparr>)) 2 (\<lambda>c. c\<lparr>ctype := GOOSE_CELL_HARDWARE_OUT\<rparr>)"

definition demo_supervisor :: "unit supervisor" where
  "demo_supervisor = \<lparr>sub = \<lparr>fabric = demo_loom,
       field_store = [\<lparr>fname = c_str ''sys.autonomy'', routes = [], transitions = [], rhythm = GOOSE_RHYTHM_HARMONIC, total_pulses = 0\<rparr>],
       global_fields = [0], io = \<lparr>pin_level = \<lambda>_. False, mmio = \<lambda>_. 0, sent = []\<rparr>\<rparr>,
     purpose_name = c_str ''led'', supervised_fields = [0], s_holons = [], s_last_purpose = [], s_field_disposition = replicate 32 0,
     s_kernel_disposition_cell = None, system_balance = 1, s_stuck_ticks = replicate 32 0, swarm_accumulator = 0,
     autonomy_field = Some 0, host_tasks = [c_str ''p_sys.autonomy'' \<mapsto> 10]\<rparr>"

definition woven_supervisor :: "unit supervisor" where
  "woven_supervisor = snd (goose_supervisor_weave_sync demo_board True True demo_supervisor)"

lemma demo_power_ok: "power_on demo_board demo_power"
  using tiny_power_ok
  by (simp add: power_on_def demo_board_def demo_power_def build_ok_def) (simp add: zero_cell_def fresh_cell_def tiny_power_def)

lemma demo_base_ok: "sound demo_board demo_base"
  unfolding demo_base_def by (rule calls_sound [OF cold_booted_sound(1) [OF demo_power_ok]]) simp_all

lemma demo_loom_ok: "loom_ok demo_board demo_loom" "\<not> loom_authority demo_loom"
proof -
  show "loom_ok demo_board demo_loom"
    unfolding demo_loom_def by (intro update_cell_ok(1) soundD(1) [OF demo_base_ok]) simp_all
  show "\<not> loom_authority demo_loom" using soundD(2) [OF demo_base_ok] by (simp add: demo_loom_def update_cell_def)
qed

theorem weave_sound_witness:
  "\<exists>new. goose_supervisor_weave_sync demo_board True True demo_supervisor = (Inr (), put_routes 0 new demo_supervisor)
     \<and> length new \<le> MAX_FABRICATED_ROUTES"
  using weave_sound [of demo_supervisor 0 demo_board True True]
  by (auto simp: demo_supervisor_def field_of_def)

theorem weave_settles_witness: "goose_supervisor_weave_sync demo_board True True woven_supervisor = (Inr (), woven_supervisor)"
proof -
  have "goose_supervisor_weave_sync demo_board True True demo_supervisor = (fst (goose_supervisor_weave_sync demo_board True True demo_supervisor), woven_supervisor)"
    by (simp add: woven_supervisor_def)
  from weave_settles [OF _ _ this, of 0] show ?thesis by (simp add: demo_supervisor_def)
qed

lemma demo_substrate:
  "fabric (sub woven_supervisor) = demo_loom" "field_store (sub woven_supervisor) = [field_of woven_supervisor 0]"
  "transitions (field_of woven_supervisor 0) = []"
proof -
  have "autonomy_field demo_supervisor = Some 0" "0 < length (field_store (sub demo_supervisor))" by (simp_all add: demo_supervisor_def)
  note w = weave_sync_routes [OF this, of demo_board True True]
  show "fabric (sub woven_supervisor) = demo_loom" "field_store (sub woven_supervisor) = [field_of woven_supervisor 0]"
    "transitions (field_of woven_supervisor 0) = []"
    by (simp_all add: woven_supervisor_def w) (simp_all add: put_routes_def field_of_def demo_supervisor_def)
qed

definition demo_check :: "unit supervisor \<Rightarrow> bool" where
  "demo_check w \<longleftrightarrow> (let s = loom_of w in
     routes (field_of w 0) = [woven_route (goose_make_coord 0 1 1) (goose_make_coord 0 1 2) 1]
     \<and> goose_fabric_get_cell_by_coord demo_board s (goose_make_coord 0 1 1) = Some 1
     \<and> goose_fabric_get_cell_by_coord demo_board s (goose_make_coord 0 1 2) = Some 2
     \<and> goose_fabric_get_cell_by_coord demo_board s (goose_make_coord 0 0 0) = Some 0
     \<and> state (fabric_cells s ! 0) = 0 \<and> ctype (fabric_cells s ! 1) = GOOSE_CELL_NEED \<and> state (fabric_cells s ! 1) = 1
     \<and> ctype (fabric_cells s ! 2) = GOOSE_CELL_HARDWARE_OUT \<and> peer_id (fabric_cells s ! 2) = 0)"

lemma demo_checked: "demo_check woven_supervisor"
  by code_simp

lemma demo_woven:
  "routes (field_of woven_supervisor 0) = [woven_route (goose_make_coord 0 1 1) (goose_make_coord 0 1 2) 1]"
  "goose_fabric_get_cell_by_coord demo_board demo_loom (goose_make_coord 0 1 1) = Some 1"
  "goose_fabric_get_cell_by_coord demo_board demo_loom (goose_make_coord 0 1 2) = Some 2"
  "goose_fabric_get_cell_by_coord demo_board demo_loom (goose_make_coord 0 0 0) = Some 0"
  "state (fabric_cells demo_loom ! 0) = 0" "ctype (fabric_cells demo_loom ! 1) = GOOSE_CELL_NEED"
  "state (fabric_cells demo_loom ! 1) = 1" "ctype (fabric_cells demo_loom ! 2) = GOOSE_CELL_HARDWARE_OUT" "peer_id (fabric_cells demo_loom ! 2) = 0"
  using demo_checked unfolding demo_check_def Let_def demo_substrate by blast+

theorem woven_routes_never_drive_witness:
  "state (fabric_cells (fabric (snd (internal_process_transitions demo_board 0 0 (sub woven_supervisor)))) ! 2) = 0
   \<and> state (fabric_cells (fabric (snd (internal_process_transitions demo_board 0 0 (sub woven_supervisor)))) ! 1) = 1"
proof -
  let ?w = "sub woven_supervisor"
  have rs: "routes (field_store ?w ! 0) = [woven_route (goose_make_coord 0 1 1) (goose_make_coord 0 1 2) 1]"
    using demo_woven(1) by (simp add: demo_substrate)
  have woven: "woven_field demo_board s [woven_route n c m]"
    if "goose_fabric_get_cell_by_coord demo_board s n = Some i" "ctype (fabric_cells s ! i) = GOOSE_CELL_NEED"
      "goose_fabric_get_cell_by_coord demo_board s c = Some j" "ctype (fabric_cells s ! j) \<noteq> GOOSE_CELL_NEED" for s n c m i j
    unfolding woven_field_def using that
    by (intro ballI exI [of _ n] exI [of _ c] exI [of _ m]) simp_all
  have "woven_field demo_board (fabric ?w) (routes (field_store ?w ! 0))"
    unfolding rs unfolding demo_substrate(1) by (rule woven [of _ _ 1 _ 2]) (use demo_woven in simp_all)
  from woven_routes_never_drive [OF _ _ _ _ this, of 0 0 "fst (internal_process_transitions demo_board 0 0 ?w)" "snd (internal_process_transitions demo_board 0 0 ?w)"]
  show ?thesis
    using demo_loom_ok demo_woven by (simp add: demo_substrate woven_route_def)
qed

end
