(* ===== verification/Supervisor_Props.thy ===== *)
theory Supervisor_Props imports Weave_Props begin

text \<open>
  What the supervisor's passes guarantee: the stance of every field and its projection on the
  scheduler, the judgement of equilibrium, the law of Hebbian learning, and what an inhibited
  output looks like to the evaluation.
\<close>

section \<open>The stance\<close>

lemma sup_resolve_same:
  "goonies_resolve_cell b (loom_of w) (Some (c_str n)) = (r, loom_of w) \<Longrightarrow> sup_resolve b w n = (r, w)"
  by (simp add: sup_resolve_def)

text \<open>The domain stands in the name as whole labels: at either side there is a dot or an end.\<close>

definition has_labels :: "cstring \<Rightarrow> cstring \<Rightarrow> bool" where
  "has_labels name domain \<longleftrightarrow>
     (\<exists>pre post. name = pre @ domain @ post \<and> (pre = [] \<or> last pre = 46) \<and> (post = [] \<or> hd post = 46))"

lemma domain_match_labels: "reflex_domain_match name domain \<longleftrightarrow> has_labels name domain"
proof
  assume "reflex_domain_match name domain"
  then obtain p where r: "p \<in> {0..<Suc (length name - length domain)}" and p: "take (length domain) (drop p name) = domain"
      "p = 0 \<or> name ! (p - 1) = 46" "p + length domain = length name \<or> name ! (p + length domain) = 46"
    unfolding reflex_domain_match_def list_ex_iff set_upt by blast
  have fit: "p + length domain \<le> length name" "length (take p name) = p"
    using r arg_cong [OF p(1), of length] by auto
  have "name = take p name @ domain @ drop (p + length domain) name"
    using p(1) by (metis append_take_drop_id drop_drop add.commute)
  moreover have "take p name = [] \<or> last (take p name) = 46"
    using p(2) last_conv_nth [of "take p name"] fit by (cases "p = 0") (auto simp del: length_take)
  moreover have "drop (p + length domain) name = [] \<or> hd (drop (p + length domain) name) = 46"
    using p(3) fit by (cases "p + length domain = length name") (auto simp: hd_drop_conv_nth)
  ultimately show "has_labels name domain" unfolding has_labels_def by blast
next
  assume "has_labels name domain"
  then obtain pre post where n: "name = pre @ domain @ post" "pre = [] \<or> last pre = 46" "post = [] \<or> hd post = 46"
    by (auto simp: has_labels_def)
  have "length pre = 0 \<or> name ! (length pre - 1) = 46" using n(1,2) by (cases pre rule: rev_cases) (auto simp: nth_append)
  moreover have "length pre + length domain = length name \<or> name ! (length pre + length domain) = 46"
    using n(1,3) by (cases post) (auto simp: nth_append)
  moreover have "length pre \<in> {0..<Suc (length name - length domain)}" "take (length domain) (drop (length pre) name) = domain"
    by (simp_all add: n(1))
  ultimately show "reflex_domain_match name domain" unfolding reflex_domain_match_def list_ex_iff set_upt by blast
qed

text \<open>
  The stance the documented rules call for, from the state before the tick. A field serves the
  purpose when the name of an end of one of its routes has the purpose among its labels; it is
  idle when it belongs to holons and none of them is for every purpose or for this one.
\<close>

definition serves :: "build \<Rightarrow> 'c supervisor \<Rightarrow> nat \<Rightarrow> bool" where
  "serves b w i \<longleftrightarrow> purpose_name w \<noteq> [] \<and>
     (\<exists>r \<in> set (routes (field_of w (supervised_fields w ! i))). \<exists>c \<in> {source_coord r, sink_coord r}. \<exists>n.
        goonies_resolve_name_by_coord b (goonies (loom_of w)) c = Some n \<and> has_labels n (take 15 (purpose_name w)))"

definition idle :: "'c supervisor \<Rightarrow> nat \<Rightarrow> bool" where
  "idle w i \<longleftrightarrow> purpose_name w \<noteq> [] \<and> (\<exists>h \<in> set (s_holons w). supervised_fields w ! i \<in> set (hfields h))
     \<and> (\<forall>h \<in> set (s_holons w). supervised_fields w ! i \<in> set (hfields h) \<longrightarrow> hdomain h \<noteq> [] \<and> \<not> has_labels (purpose_name w) (hdomain h))"

definition stance :: "build \<Rightarrow> bool \<Rightarrow> 'c supervisor \<Rightarrow> nat \<Rightarrow> int" where
  "stance b pained w i = (if idle w i \<or> pained \<and> \<not> serves b w i then -1 else if serves b w i then 1 else 0)"

definition task_of :: "'c supervisor \<Rightarrow> nat \<Rightarrow> cstring" where
  "task_of w i = pulse_task_name (fname (field_of w (supervised_fields w ! i)))"

text \<open>
  The priority of a stance, before it is kept between the base and the maximum: withheld fields
  pay the penalty and get nothing for what they learned; the others get the boost of the
  purpose, or one for being awake under a purpose, and the boost of a learned route.
\<close>

definition earned :: "build \<Rightarrow> bool \<Rightarrow> 'c supervisor \<Rightarrow> nat \<Rightarrow> int" where
  "earned b pained w i =
     (let learned = (if \<exists>r \<in> set (routes (field_of w (supervised_fields w ! i))). learned_orientation r \<noteq> 0
                     then REFLEX_PULSE_HEBBIAN_BOOST b else 0)
      in if stance b pained w i = -1 then REFLEX_PULSE_BASE_PRIORITY b - REFLEX_PULSE_PAIN_PENALTY b
         else if stance b pained w i = 1 then REFLEX_PULSE_BASE_PRIORITY b + REFLEX_PULSE_PURPOSE_BOOST b + learned
         else REFLEX_PULSE_BASE_PRIORITY b + (if purpose_name w \<noteq> [] then 1 else 0) + learned)"

definition field_priority :: "build \<Rightarrow> bool \<Rightarrow> 'c supervisor \<Rightarrow> nat \<Rightarrow> int" where
  "field_priority b pained w i =
     min (REFLEX_PULSE_MAX_PRIORITY b) (max (REFLEX_PULSE_BASE_PRIORITY b) (earned b pained w i))"

lemma stance_trit: "stance b pained w i \<in> {-1, 0, 1}"
  by (simp add: stance_def)

lemma priority_agrees:
  "pulse_priority b (stance b pained w i) (purpose_name w \<noteq> []) (learned_routes (field_of w (supervised_fields w ! i)))
     = field_priority b pained w i"
proof -
  have "0 < learned_routes (field_of w f) \<longleftrightarrow> (\<exists>r \<in> set (routes (field_of w f)). learned_orientation r \<noteq> 0)" for f
    by (auto simp: learned_routes_def filter_empty_conv)
  then show ?thesis using stance_trit [of b pained w i] by (auto simp: pulse_priority_def field_priority_def earned_def Let_def)
qed

definition refreshed :: "'c supervisor \<Rightarrow> 'c supervisor" where
  "refreshed w = holon_lifecycle (note_purpose w)"

lemma refreshed_simps [simp]:
  "sub (refreshed w) = sub w" "purpose_name (refreshed w) = purpose_name w" "supervised_fields (refreshed w) = supervised_fields w"
  "s_field_disposition (refreshed w) = s_field_disposition w" "host_tasks (refreshed w) = host_tasks w"
  "s_kernel_disposition_cell (refreshed w) = s_kernel_disposition_cell w" "field_of (refreshed w) f = field_of w f"
  by (simp_all add: refreshed_def holon_lifecycle_def note_purpose_def field_of_def)

lemma touches_labels:
  "route_touches b s d r \<longleftrightarrow> (\<exists>c \<in> {source_coord r, sink_coord r}. \<exists>n. goonies_resolve_name_by_coord b (goonies s) c = Some n \<and> has_labels n d)"
  by (auto simp: route_touches_def domain_match_labels split: option.splits)

text \<open>The stance in the terms of the code, for evaluation too.\<close>

definition coded_stance :: "build \<Rightarrow> bool \<Rightarrow> 'c supervisor \<Rightarrow> nat \<Rightarrow> int" where
  "coded_stance b pained w i = (let f = supervised_fields w ! i in
     goose_policy_disposition (purpose_name w \<noteq> []) (has_domain_route b (refreshed w) f)
       (in_any_holon (refreshed w) f) (in_active_holon (refreshed w) f) pained)"

lemma refreshed_stance:
  assumes "length (s_last_purpose w) \<le> 15"
  shows "coded_stance b pained w i = stance b pained w i"
proof -
  let ?f = "supervised_fields w ! i"
  have "purpose_name w \<noteq> [] \<Longrightarrow> s_last_purpose (refreshed w) = take 15 (purpose_name w)"
    using assms by (auto simp: refreshed_def holon_lifecycle_def note_purpose_def)
  then have route: "has_domain_route b (refreshed w) ?f \<longleftrightarrow> serves b w i"
    by (cases "purpose_name w = []") (simp_all add: has_domain_route_def serves_def list_ex_iff touches_labels)
  have h: "s_holons (refreshed w) = map (\<lambda>h. h\<lparr>active := holon_wanted (purpose_name w) h\<rparr>) (s_holons w)"
    by (simp add: refreshed_def holon_lifecycle_def note_purpose_def)
  have idle: "purpose_name w \<noteq> [] \<and> in_any_holon (refreshed w) ?f \<and> \<not> in_active_holon (refreshed w) ?f \<longleftrightarrow> idle w i"
    by (auto simp: in_any_holon_def in_active_holon_def idle_def h list_ex_iff holon_wanted_def domain_match_labels)
  have "serves b w i \<Longrightarrow> purpose_name w \<noteq> []" by (simp add: serves_def)
  then show ?thesis using route idle by (auto simp: coded_stance_def Let_def goose_policy_disposition_def stance_def)
qed

text \<open>The loop over the fields after \<open>k\<close> turns.\<close>

definition policy_inv :: "build \<Rightarrow> bool \<Rightarrow> 'c supervisor \<Rightarrow> nat \<Rightarrow> 'c supervisor \<times> int \<times> int \<Rightarrow> bool" where
  "policy_inv b pained w k acc \<longleftrightarrow> (case acc of (v, engaged, withheld) \<Rightarrow>
     v = (refreshed w)\<lparr>s_field_disposition := s_field_disposition v, host_tasks := host_tasks v\<rparr>
     \<and> length (s_field_disposition v) = length (s_field_disposition w)
     \<and> (\<forall>i < k. s_field_disposition v ! i = stance b pained w i)
     \<and> dom (host_tasks v) = dom (host_tasks w)
     \<and> (\<forall>i. (\<forall>j < length (supervised_fields w). task_of w j = task_of w i \<longrightarrow> j = i)
          \<longrightarrow> host_tasks v (task_of w i) = (if i < k then map_option (\<lambda>_. field_priority b pained w i) (host_tasks w (task_of w i))
                                     else host_tasks w (task_of w i)))
     \<and> engaged = int (card {i. i < k \<and> stance b pained w i = 1}) \<and> withheld = int (card {i. i < k \<and> stance b pained w i = -1}))"

lemma card_below_Suc: "card {i. i < Suc k \<and> P i} = card {i. i < k \<and> P i} + (if P k then 1 else 0)"
proof -
  have "{i. i < Suc k \<and> P i} = (if P k then insert k {i. i < k \<and> P i} else {i. i < k \<and> P i})" by (auto simp: less_Suc_eq)
  then show ?thesis by simp
qed

lemma policy_step:
  assumes len: "length (s_last_purpose w) \<le> 15" and k: "k < length (supervised_fields w)" "length (supervised_fields w) \<le> length (s_field_disposition w)"
    and inv: "policy_inv b pained w k acc"
  shows "policy_inv b pained w (Suc k) (policy_field b pained acc k)"
proof -
  obtain v e h where acc: "acc = (v, e, h)" using prod_cases3 by blast
  have v: "v = (refreshed w)\<lparr>s_field_disposition := s_field_disposition v, host_tasks := host_tasks v\<rparr>"
    using inv by (simp add: policy_inv_def acc)
  have f: "supervised_fields v = supervised_fields w" "purpose_name v = purpose_name w" "field_of v g = field_of w g"
    "has_domain_route b v g = has_domain_route b (refreshed w) g" "in_any_holon v g = in_any_holon (refreshed w) g"
    "in_active_holon v g = in_active_holon (refreshed w) g" for g
    by (subst v, simp add: field_of_def has_domain_route_def in_any_holon_def in_active_holon_def)+
  have frame: "v\<lparr>s_field_disposition := x, host_tasks := y\<rparr> = (refreshed w)\<lparr>s_field_disposition := x, host_tasks := y\<rparr>" for x y
    by (subst v) simp
  define name where "name = task_of w k"
  define d where "d = stance b pained w k"
  have step: "policy_field b pained (v, e, h) k =
    (v\<lparr>s_field_disposition := (s_field_disposition v)[k := d],
       host_tasks := (case host_tasks v name of None \<Rightarrow> host_tasks v | Some _ \<Rightarrow> (host_tasks v)(name \<mapsto> field_priority b pained w k))\<rparr>,
     if d > 0 then e + 1 else e, if \<not> d > 0 \<and> d < 0 then h + 1 else h)"
    using refreshed_stance [OF len, of b pained k] priority_agrees [of b pained w k]
    by (simp add: policy_field_def Let_def f coded_stance_def d_def name_def task_of_def split: option.splits)
  have d: "d \<in> {-1, 0, 1}" using stance_trit by (simp add: d_def)
  have "dom (host_tasks v) = dom (host_tasks w)" using inv by (simp add: policy_inv_def acc)
  then have "host_tasks w (task_of w i) = None \<longleftrightarrow> host_tasks v (task_of w i) = None" for i by (metis domIff)
  with inv d k show ?thesis
    unfolding acc step policy_inv_def prod.case
    apply (intro conjI)
    subgoal by (simp add: frame)
    subgoal by simp
    subgoal by (auto simp: less_Suc_eq d_def nth_list_update)
    subgoal by (auto split: option.splits)
    subgoal by (auto simp: name_def less_Suc_eq split: option.splits)
    subgoal by (auto simp: card_below_Suc d_def)
    subgoal by (auto simp: card_below_Suc d_def)
    done
qed

lemma policy_loop:
  assumes "length (s_last_purpose w) \<le> 15" "length (supervised_fields w) \<le> length (s_field_disposition w)"
  shows "k \<le> length (supervised_fields w) \<Longrightarrow> policy_inv b pained w k (foldl (policy_field b pained) (refreshed w, 0, 0) [0..<k])"
proof (induction k)
  case 0
  then show ?case by (simp add: policy_inv_def)
next
  case (Suc k)
  then show ?case using policy_step [OF assms(1) _ assms(2)] by simp
qed

text \<open>
  C37: one tick of the kernel policy, on a board where the pain signal can be resolved without
  paging, the cell for the aggregate is known, the purpose last seen fits its buffer of fifteen
  characters and every supervised field has a stance slot. The tick withholds exactly the fields
  whose every holon is idle under the purpose, and, under pain, those that do not serve the
  purpose; it engages exactly the other fields that serve it; the rest are latent. The task of a
  field (if it exists and no other field's name shares its first thirteen characters) gets the
  priority of that stance: base less penalty when withheld, whatever was learned; base and the
  boosts of purpose and learning when engaged; base, one under a purpose, and the boost of
  learning when latent; never below the base, never above the maximum. The cell that publishes
  the aggregate shows engagement when some field is engaged, else withholding when some field is
  withheld, else zero. No other cell changes.
\<close>

theorem policy_tick_stance:
  assumes pain: "goonies_resolve_cell b (loom_of w) (Some (c_str ''sys.ai.pain'')) = (pain, loom_of w)"
    and cell: "s_kernel_disposition_cell w = Some k" "k < length (fabric_cells (loom_of w))"
    and len: "length (s_last_purpose w) \<le> 15" "length (supervised_fields w) \<le> length (s_field_disposition w)"
    and pained: "pained \<longleftrightarrow> cell_has w pain (\<lambda>v. v = -1)"
  shows "(\<forall>i < length (supervised_fields w). s_field_disposition (goose_kernel_policy_tick b w) ! i = stance b pained w i
       \<and> ((\<forall>j < length (supervised_fields w). task_of w j = task_of w i \<longrightarrow> j = i) \<longrightarrow>
            host_tasks (goose_kernel_policy_tick b w) (task_of w i) = map_option (\<lambda>_. field_priority b pained w i) (host_tasks w (task_of w i))))
    \<and> loom_of (goose_kernel_policy_tick b w) = set_state (loom_of w) k
         (if \<exists>i < length (supervised_fields w). stance b pained w i = 1 then 1
          else if \<exists>i < length (supervised_fields w). stance b pained w i = -1 then -1 else 0)"
proof -
  let ?n = "length (supervised_fields w)"
  have noted: "loom_of (note_purpose w) = loom_of w" by (simp add: note_purpose_def)
  have res: "sup_resolve b (note_purpose w) ''sys.ai.pain'' = (pain, note_purpose w)"
    by (rule sup_resolve_same) (simp add: noted pain)
  have p: "cell_has (note_purpose w) pain (\<lambda>v. v = -1) = pained" by (cases pain) (simp_all add: pained cell_has_def noted)
  obtain v e h where loop: "foldl (policy_field b pained) (refreshed w, 0, 0) [0..<?n] = (v, e, h)" using prod_cases3 by blast
  have inv: "policy_inv b pained w ?n (v, e, h)"
    using policy_loop [OF len, of ?n b pained] by (simp add: loop)
  then have v: "v = (refreshed w)\<lparr>s_field_disposition := s_field_disposition v, host_tasks := host_tasks v\<rparr>"
    by (simp add: policy_inv_def)
  have vk: "s_kernel_disposition_cell v = Some k" "loom_of v = loom_of w" by (subst v, simp add: cell)+
  have tick: "goose_kernel_policy_tick b w = write_cell (Some k) (goose_policy_aggregate e h) v"
    by (simp add: goose_kernel_policy_tick_def res p Let_def loop vk flip: refreshed_def)
  have some: "0 < card {i. i < ?n \<and> P i} \<longleftrightarrow> (\<exists>i < ?n. P i)" for P by (auto simp: card_gt_0_iff)
  have "e = int (card {i. i < ?n \<and> stance b pained w i = 1})" "h = int (card {i. i < ?n \<and> stance b pained w i = -1})"
    using inv by (simp_all add: policy_inv_def)
  then have agg: "goose_policy_aggregate e h = (if \<exists>i < ?n. stance b pained w i = 1 then 1
       else if \<exists>i < ?n. stance b pained w i = -1 then -1 else 0)"
    by (simp add: goose_policy_aggregate_def some)
  have loom: "loom_of (goose_kernel_policy_tick b w) = set_state (loom_of w) k (goose_policy_aggregate e h)"
    by (simp add: tick write_cell_def put_loom_def vk)
  have "s_field_disposition (goose_kernel_policy_tick b w) = s_field_disposition v" "host_tasks (goose_kernel_policy_tick b w) = host_tasks v"
    by (simp_all add: tick write_cell_def put_loom_def)
  with inv loom agg show ?thesis by (simp add: policy_inv_def)
qed

section \<open>Equilibrium\<close>

text \<open>
  The judgement is exact: a field is out of balance when some route with a current cache, driven
  by no sensor, has an output that does not show the product of its source and its control.
\<close>

definition output_wrong :: "loom \<Rightarrow> goose_route \<Rightarrow> bool" where
  "output_wrong s r \<longleftrightarrow> (\<exists>src snk. cached_source r = Some src \<and> cached_sink r = Some snk \<and> cached_version r = fabric_version s
     \<and> ctype (fabric_cells s ! src) \<noteq> GOOSE_CELL_HARDWARE_IN \<and> ctype (fabric_cells s ! snk) = GOOSE_CELL_HARDWARE_OUT
     \<and> state (fabric_cells s ! snk) \<noteq> route_product s r src)"

lemma unbalanced_iff: "unbalanced s rs \<longleftrightarrow> (\<exists>r \<in> set rs. output_wrong s r)"
proof (induction rs)
  case (Cons r rs)
  then show ?case
    by (auto simp: route_judged_def output_wrong_def split: option.splits)
qed simp

section \<open>Learning\<close>

lemma learn_route_ends [simp]:
  "cached_source (learn_route s rw m r) = cached_source r" "cached_sink (learn_route s rw m r) = cached_sink r"
  "source_coord (learn_route s rw m r) = source_coord r" "sink_coord (learn_route s rw m r) = sink_coord r"
  "orientation (learn_route s rw m r) = orientation r" "rname (learn_route s rw m r) = rname r"
  by (simp_all add: learn_route_def reward_route_def pain_route_def Let_def split: option.split)

text \<open>What one rewarded pass shows a route: agreement counts for it, disagreement against it.\<close>

definition evidence :: "int \<Rightarrow> goose_route \<Rightarrow> loom \<Rightarrow> int" where
  "evidence m r s =
     (case (cached_source r, cached_sink r) of
        (Some src, Some snk) \<Rightarrow>
          (let v = state (fabric_cells s ! src); k = state (fabric_cells s ! snk) in
           if v = 0 \<or> k = 0 then 0 else if v = k then m else - m)
      | _ \<Rightarrow> 0)"

lemma evidence_learn [simp]: "evidence m (learn_route s rw n r) = evidence m r"
  by (simp add: evidence_def fun_eq_iff)

definition learned_from :: "int \<Rightarrow> goose_route \<Rightarrow> goose_route" where
  "learned_from c r =
     (if c \<ge> 8 then r\<lparr>learned_orientation := 1, hebbian_counter := 0\<rparr>
      else if c \<le> -8 then r\<lparr>learned_orientation := -1, hebbian_counter := 0\<rparr>
      else r\<lparr>hebbian_counter := c\<rparr>)"

lemma rewarded_step:
  assumes "\<bar>hebbian_counter r\<bar> < 8" "m = 1 \<or> m = 2"
  shows "learn_route s True m r = learned_from (hebbian_counter r + evidence m r s) r"
proof (cases "\<exists>src snk. cached_source r = Some src \<and> cached_sink r = Some snk")
  case False
  then have "learn_route s True m r = r" "evidence m r s = 0"
    by (auto simp: learn_route_def evidence_def split: option.splits)
  with assms show ?thesis by (simp add: learned_from_def)
next
  case True
  then obtain src snk where c: "cached_source r = Some src" "cached_sink r = Some snk" by blast
  let ?e = "evidence m r s" and ?c = "hebbian_counter r"
  have e: "\<bar>?e\<bar> \<le> 2" using assms(2) by (auto simp: evidence_def c Let_def)
  show ?thesis
  proof (cases "state (fabric_cells s ! src) = 0 \<or> state (fabric_cells s ! snk) = 0")
    case True
    then have "learn_route s True m r = r" "?e = 0" by (auto simp: learn_route_def reward_route_def evidence_def c)
    with assms show ?thesis by (simp add: learned_from_def)
  next
    case False
    then have E: "?e = (if state (fabric_cells s ! src) = state (fabric_cells s ! snk) then 1 else -1) * m"
      by (simp add: evidence_def c Let_def)
    have "\<not> ?c + ?e > 16" "\<not> ?c + ?e < -16" using e assms(1) by linarith+
    then show ?thesis
      using False by (simp add: learn_route_def c reward_route_def E [symmetric] learned_from_def
        REFLEX_HEBBIAN_COUNTER_MAX_def REFLEX_HEBBIAN_COMMIT_THRESHOLD_def)
  qed
qed

lemma learned_from_bound: "\<bar>hebbian_counter (learned_from c r)\<bar> < 8"
  by (auto simp: learned_from_def)

text \<open>
  C38: learning follows the evidence. Over any sequence of rewarded passes, as long as the evidence
  a route has gathered stays below eight in size, its counter is that sum and its orientation is
  untouched; the pass that takes it to eight commits its sign as the learned orientation and starts
  the count anew. The bound of sixteen on the counter is never met.
\<close>

theorem hebbian_commits:
  assumes start: "\<bar>hebbian_counter r\<bar> < 8" and m: "m = 1 \<or> m = 2"
    and below: "\<forall>k < length ss. \<bar>hebbian_counter r + (\<Sum>s\<leftarrow>take k ss. evidence m r s)\<bar> < 8"
  shows "fold (\<lambda>s. learn_route s True m) ss r = learned_from (hebbian_counter r + (\<Sum>s\<leftarrow>ss. evidence m r s)) r"
  using below
proof (induction ss rule: rev_induct)
  case Nil
  then show ?case using start by (simp add: learned_from_def)
next
  case (snoc s ss)
  have "\<forall>k < length ss. \<bar>hebbian_counter r + (\<Sum>s\<leftarrow>take k ss. evidence m r s)\<bar> < 8"
  proof (intro allI impI)
    fix k assume "k < length ss"
    then show "\<bar>hebbian_counter r + (\<Sum>s\<leftarrow>take k ss. evidence m r s)\<bar> < 8" using snoc.prems [rule_format, of k] by simp
  qed
  from snoc.IH [OF this] have IH: "fold (\<lambda>s. learn_route s True m) ss r = learned_from (hebbian_counter r + (\<Sum>s\<leftarrow>ss. evidence m r s)) r" .
  let ?c = "hebbian_counter r + (\<Sum>s\<leftarrow>ss. evidence m r s)"
  have c: "\<bar>?c\<bar> < 8" using snoc.prems [rule_format, of "length ss"] by simp
  then have "learned_from ?c r = r\<lparr>hebbian_counter := ?c\<rparr>" by (simp add: learned_from_def)
  moreover have "learn_route s True m (r\<lparr>hebbian_counter := ?c\<rparr>) = learned_from (?c + evidence m r s) (r\<lparr>hebbian_counter := ?c\<rparr>)"
    using rewarded_step [of "r\<lparr>hebbian_counter := ?c\<rparr>" m s] c m by (simp add: evidence_def)
  ultimately show ?case using IH by (simp add: learned_from_def add.assoc)
qed

text \<open>A pass that rewrites the routes of each of some fields once.\<close>

lemma each_field:
  assumes "distinct fs" "\<forall>f \<in> set fs. f < length (field_store (sub w))"
    and step: "\<And>u f. f \<in> set fs \<Longrightarrow> field_of u f = field_of w f \<Longrightarrow> loom_of u = loom_of w
      \<Longrightarrow> length (field_store (sub u)) = length (field_store (sub w)) \<Longrightarrow> step u f = put_routes f (R f) u"
    and "v = foldl step w fs"
  shows "v = w\<lparr>sub := (sub w)\<lparr>field_store := field_store (sub v)\<rparr>\<rparr> \<and> length (field_store (sub v)) = length (field_store (sub w))
    \<and> (\<forall>f < length (field_store (sub w)). field_of v f = (if f \<in> set fs then (field_of w f)\<lparr>routes := R f\<rparr> else field_of w f))"
  unfolding assms(4) using assms(1-3)
proof (induction fs rule: rev_induct)
  case Nil
  then show ?case by simp
next
  case (snoc f fs)
  define u where "u = foldl step w fs"
  have IH: "u = w\<lparr>sub := (sub w)\<lparr>field_store := field_store (sub u)\<rparr>\<rparr>" "length (field_store (sub u)) = length (field_store (sub w))"
    "\<And>h. h < length (field_store (sub w)) \<Longrightarrow> field_of u h = (if h \<in> set fs then (field_of w h)\<lparr>routes := R h\<rparr> else field_of w h)"
    using snoc unfolding u_def by simp_all
  have f: "f < length (field_store (sub w))" "f \<notin> set fs" using snoc.prems by simp_all
  let ?v = "put_routes f (R f) u"
  have "loom_of u = loom_of w" by (subst IH(1)) simp
  then have v: "step u f = ?v" using snoc.prems(3) [of f u] IH f by simp
  have "?v = w\<lparr>sub := (sub w)\<lparr>field_store := field_store (sub ?v)\<rparr>\<rparr>"
    by (subst (1 2) put_routes_def, subst (1 4) IH(1)) simp
  moreover have "field_of ?v h = (if h = f then (field_of u f)\<lparr>routes := R f\<rparr> else field_of u h)"
    if "h < length (field_store (sub w))" for h
    using that IH(2) by (simp add: put_routes_def field_of_def)
  ultimately show ?case
    using IH f v by (simp flip: u_def)
qed

lemma learn_route_lock [simp]: "learn_route (s\<lparr>loom_authority := x\<rparr>) = learn_route s"
  by (intro ext) (simp add: learn_route_def reward_route_def split: option.split)

section \<open>An inhibited output\<close>

text \<open>A route whose control shows zero: a lit source, an output at rest.\<close>

definition inhibited :: "build \<Rightarrow> loom \<Rightarrow> cstring \<Rightarrow> goose_route \<Rightarrow> bool" where
  "inhibited b s purpose r \<longleftrightarrow> (\<exists>src snk k. cached_source r = Some src \<and> cached_sink r = Some snk \<and> cached_control r = Some k
     \<and> state (fabric_cells s ! k) = 0 \<and> state (fabric_cells s ! src) \<in> {-1, 1} \<and> state (fabric_cells s ! snk) = 0
     \<and> ctype (fabric_cells s ! snk) = GOOSE_CELL_HARDWARE_OUT \<and> orientation r \<in> {-1, 1} \<and> learned_orientation r \<in> {-1, 0, 1}
     \<and> route_touches b s purpose r)"

lemma inhibited_balanced: "inhibited b s purpose r \<Longrightarrow> \<not> output_wrong s r"
  by (auto simp: inhibited_def output_wrong_def route_product_def int8_def)

lemma inhibited_stuck:
  "inhibited b s purpose r \<Longrightarrow> evaluate_route b s purpose (n, False) r = (n, True)"
  by (auto simp: inhibited_def evaluate_route_def route_progress_def route_stuck_def int8_def signed_take_bit_eq_if_negative Let_def)

lemma evaluate_inhibited:
  assumes "purpose_name w \<noteq> []" "supervised_fields w = [f]" "routes (field_of w f) = [r]" "inhibited b (loom_of w) (purpose_name w) r"
  shows "goose_supervisor_evaluate b w =
    (let n = s_stuck_ticks w ! 0 + 1; w1 = w\<lparr>s_stuck_ticks := (s_stuck_ticks w)[0 := n]\<rparr> in
     if n \<ge> REFLEX_AUTO_PAIN_STUCK_TICKS then (case sup_resolve b w1 ''sys.ai.pain'' of (c, v) \<Rightarrow> write_cell c (-1) v) else w1)"
  using assms by (simp add: goose_supervisor_evaluate_def evaluate_field_def inhibited_stuck Let_def REFLEX_AUTO_REWARD_THRESHOLD_def)

text \<open>
  C40: an inhibited output reads as stuck. The pulse and the judgement of equilibrium take the
  control's state for the orientation; the evaluation does not look at the control. A field whose
  one route is inhibited by its control is in balance, and five evaluations under a purpose it
  serves raise the pain signal.
\<close>

theorem inhibited_output_raises_pain:
  assumes purpose: "purpose_name w \<noteq> []" and fld: "supervised_fields w = [f]" "routes (field_of w f) = [r]"
    and inh: "inhibited b (loom_of w) (purpose_name w) r"
    and ticks: "s_stuck_ticks w = 0 # ts"
    and pain: "goonies_resolve_cell b (loom_of w) (Some (c_str ''sys.ai.pain'')) = (Some p, loom_of w)"
  shows "fst (goose_supervisor_check_equilibrium w (Some f)) = Inr ()
    \<and> loom_of ((goose_supervisor_evaluate b ^^ 4) w) = loom_of w
    \<and> loom_of ((goose_supervisor_evaluate b ^^ 5) w) = set_state (loom_of w) p (-1)"
proof -
  let ?w = "\<lambda>n. w\<lparr>s_stuck_ticks := n # ts\<rparr>"
  have same: "goose_supervisor_evaluate b (?w n) =
    (if n + 1 \<ge> REFLEX_AUTO_PAIN_STUCK_TICKS then write_cell (Some p) (-1) (?w (n + 1)) else ?w (n + 1))" for n
  proof -
    have "sup_resolve b (?w (n + 1)) ''sys.ai.pain'' = (Some p, ?w (n + 1))" by (rule sup_resolve_same) (simp add: pain)
    then show ?thesis
      using purpose fld inh by (subst evaluate_inhibited [where f = f and r = r]) (simp_all add: field_of_def Let_def)
  qed
  have w0: "?w 0 = w" using ticks by simp
  have steps: "goose_supervisor_evaluate b (?w 0) = ?w 1" "goose_supervisor_evaluate b (?w 1) = ?w 2"
    "goose_supervisor_evaluate b (?w 2) = ?w 3" "goose_supervisor_evaluate b (?w 3) = ?w 4"
    "goose_supervisor_evaluate b (?w 4) = write_cell (Some p) (-1) (?w 5)"
    unfolding same REFLEX_AUTO_PAIN_STUCK_TICKS_def by (simp_all add: word_le_nat_alt)
  have pow: "(g ^^ 4) x = g (g (g (g x)))" "(g ^^ 5) x = g (g (g (g (g x))))" for g :: "'z \<Rightarrow> 'z" and x
    by (simp_all add: numeral_eq_Suc)
  have 4: "(goose_supervisor_evaluate b ^^ 4) (?w 0) = ?w 4" and 5: "(goose_supervisor_evaluate b ^^ 5) (?w 0) = write_cell (Some p) (-1) (?w 5)"
    unfolding pow steps by simp_all
  have "fst (goose_supervisor_check_equilibrium w (Some f)) = Inr ()"
    using inh fld by (simp add: goose_supervisor_check_equilibrium_def unbalanced_iff inhibited_balanced)
  then show ?thesis using 4 5 w0 by (simp add: write_cell_def put_loom_def)
qed

lemma field_of_loom [simp]: "field_of (put_loom s u) f = field_of u f" "field_of (write_cell c x u) f = field_of u f"
  by (simp_all add: put_loom_def write_cell_def field_of_def split: option.split)

lemma loom_write: "loom_of (put_loom s u) = s" "loom_of (write_cell None x u) = loom_of u"
  "loom_of (write_cell (Some i) x u) = set_state (loom_of u) i x"
  by (simp_all add: put_loom_def write_cell_def)

section \<open>The learning pass\<close>

text \<open>
  A learning pass. Without reward or pain nothing changes. Under reward every route of every
  supervised field takes one step of learning, doubled when a purpose is set, and the reward is
  spent; under pain alone the counters decay. Other fields and other cells are untouched, and the
  loom is free again.
\<close>

theorem learn_sync_law:
  assumes res: "goonies_resolve_cell b (loom_of w) (Some (c_str ''sys.ai.pain'')) = (pain, loom_of w)"
      "goonies_resolve_cell b (loom_of w) (Some (c_str ''sys.ai.reward'')) = (reward, loom_of w)"
      "goonies_resolve_cell b (loom_of w) (Some (c_str ''sys.purpose'')) = (purpose, loom_of w)"
    and fs: "distinct (supervised_fields w)" "\<forall>f \<in> set (supervised_fields w). f < length (field_store (sub w))"
    and free: "\<not> loom_authority (loom_of w)"
    and rewarded: "rewarded \<longleftrightarrow> cell_has w reward (\<lambda>v. v = 1)" and pained: "pained \<longleftrightarrow> cell_has w pain (\<lambda>v. v = -1)"
    and m: "m = (if cell_has w purpose (\<lambda>v. v \<noteq> 0) then 2 else 1)"
  shows "if rewarded \<or> pained
    then loom_of (goose_supervisor_learn_sync b w) = (if rewarded then loom_of (write_cell reward 0 w) else loom_of w)
      \<and> (\<forall>f < length (field_store (sub w)). field_of (goose_supervisor_learn_sync b w) f =
           (if f \<in> set (supervised_fields w)
            then (field_of w f)\<lparr>routes := map (learn_route (loom_of w) rewarded m) (routes (field_of w f))\<rparr> else field_of w f))
    else goose_supervisor_learn_sync b w = w"
proof -
  note R = sup_resolve_same [OF res(1)] sup_resolve_same [OF res(2)] sup_resolve_same [OF res(3)]
  show ?thesis
  proof (cases "rewarded \<or> pained")
    case False
    then show ?thesis using R by (simp add: goose_supervisor_learn_sync_def flip: rewarded pained)
  next
    case act: True
    then have na: "(\<not> rewarded \<and> \<not> pained) = False" by blast
  let ?s = "(loom_of w)\<lparr>loom_authority := True\<rparr>"
  let ?g = "learn_route (loom_of w) rewarded m"
  define v where "v = foldl (\<lambda>w f. put_routes f (map ?g (routes (field_of w f))) w) (put_loom ?s w) (supervised_fields w)"
  have len: "field_store (sub (put_loom ?s w)) = field_store (sub w)" "field_of (put_loom ?s w) f = field_of w f" for f
    by (simp_all add: put_loom_def field_of_def)
  have V: "v = (put_loom ?s w)\<lparr>sub := (sub (put_loom ?s w))\<lparr>field_store := field_store (sub v)\<rparr>\<rparr>"
    "\<And>f. f < length (field_store (sub w)) \<Longrightarrow> field_of v f = (if f \<in> set (supervised_fields w) then (field_of w f)\<lparr>routes := map ?g (routes (field_of w f))\<rparr> else field_of w f)"
    using each_field [OF fs(1) _ _ v_def, of "\<lambda>f. map ?g (routes (field_of w f))"] fs(2) by (simp_all add: len)
  have loom: "loom_of v = ?s" by (subst V(1)) (simp add: put_loom_def)
  have run: "goose_supervisor_learn_sync b w =
    (let w5 = (if rewarded then write_cell reward 0 v else v) in put_loom (goose_loom_unlock (loom_of w5)) w5)"
    using R free by (simp add: goose_supervisor_learn_sync_def goose_loom_try_lock_def Let_def na v_def flip: rewarded pained m)
  have lock: "goose_loom_unlock (set_state ?s i 0) = set_state (loom_of w) i 0" "goose_loom_unlock ?s = loom_of w" for i
    using free unlock_locked [of "set_state (loom_of w) i 0"]
    by (simp_all add: unlock_locked) (simp add: set_state_def update_cell_def goose_loom_unlock_def)
  have "loom_of (goose_supervisor_learn_sync b w) = (if rewarded then loom_of (write_cell reward 0 w) else loom_of w)"
    by (cases reward) (simp_all add: run Let_def loom_write loom lock)
  then show ?thesis using V(2) act by (simp add: run Let_def)
  qed
qed

section \<open>Instance\<close>

text \<open>The demonstration board with the supervisor started, its need woven and pulsed once.\<close>

definition started_supervisor :: "unit supervisor" where
  "started_supervisor = snd (goose_supervisor_weave_sync demo_board True True (snd (goose_supervisor_init demo_board demo_supervisor)))"

definition live_supervisor :: "unit supervisor" where
  "live_supervisor = started_supervisor\<lparr>sub := snd (internal_process_transitions demo_board 0 0 (sub started_supervisor))\<rparr>"

text \<open>What the instances below need of that state, in one check.\<close>

definition live_check :: "unit supervisor \<Rightarrow> bool" where
  "live_check w \<longleftrightarrow> (let s = loom_of w in
     goonies_resolve_cell demo_board s (Some (c_str ''sys.ai.pain'')) = (Some 4, s)
     \<and> goonies_resolve_cell demo_board s (Some (c_str ''sys.ai.reward'')) = (Some 3, s)
     \<and> goonies_resolve_cell demo_board s (Some (c_str ''sys.purpose'')) = (None, s)
     \<and> s_kernel_disposition_cell w = Some 5 \<and> length (fabric_cells s) = 8
     \<and> s_last_purpose w = [] \<and> supervised_fields w = [0] \<and> length (s_field_disposition w) = 32
     \<and> length (field_store (sub w)) = 1 \<and> \<not> loom_authority s
     \<and> purpose_name w = c_str ''led'' \<and> s_stuck_ticks w = 0 # replicate 31 0
     \<and> map (\<lambda>c. state c) (fabric_cells s) = [0, 1, 0, 0, 0, 0, 0, 0]
     \<and> ctype (fabric_cells s ! 2) = GOOSE_CELL_HARDWARE_OUT
     \<and> coded_stance demo_board False w 0 = 1
     \<and> length (routes (field_of w 0)) = 1
     \<and> list_all (\<lambda>r. cached_source r = Some 1 \<and> cached_sink r = Some 2 \<and> cached_control r = Some 0 \<and> orientation r = 1
          \<and> learned_orientation r = 0 \<and> route_touches demo_board s (purpose_name w) r) (routes (field_of w 0)))"

lemma live_checked: "live_check live_supervisor"
  by code_simp

lemmas live_ok = live_checked [unfolded live_check_def Let_def]

lemma live_state: "i < 8 \<Longrightarrow> state (fabric_cells (loom_of live_supervisor) ! i) = [0, 1, 0, 0, 0, 0, 0, 0] ! i"
  using live_ok by (metis (lifting) nth_map)

lemma live_route:
  "\<exists>r. routes (field_of live_supervisor 0) = [r] \<and> inhibited demo_board (loom_of live_supervisor) (purpose_name live_supervisor) r"
proof -
  have "length (routes (field_of live_supervisor 0)) = 1" using live_ok by simp
  then obtain r where r: "routes (field_of live_supervisor 0) = [r]" by (auto simp: length_Suc_conv)
  have "list_all (\<lambda>r. cached_source r = Some 1 \<and> cached_sink r = Some 2 \<and> cached_control r = Some 0 \<and> orientation r = 1
          \<and> learned_orientation r = 0 \<and> route_touches demo_board (loom_of live_supervisor) (purpose_name live_supervisor) r)
        (routes (field_of live_supervisor 0))" "ctype (fabric_cells (loom_of live_supervisor) ! 2) = GOOSE_CELL_HARDWARE_OUT"
    using live_ok by blast+
  with r have "inhibited demo_board (loom_of live_supervisor) (purpose_name live_supervisor) r"
    using live_state [of 0] live_state [of 1] live_state [of 2] by (simp add: inhibited_def)
  with r show ?thesis by blast
qed

theorem policy_tick_stance_witness:
  "host_tasks (goose_kernel_policy_tick demo_board live_supervisor) (task_of live_supervisor 0)
     = map_option (\<lambda>_. 13) (host_tasks live_supervisor (task_of live_supervisor 0))
   \<and> loom_of (goose_kernel_policy_tick demo_board live_supervisor) = set_state (loom_of live_supervisor) 5 1"
proof -
  have "cell_has live_supervisor (Some 4) (\<lambda>v. v = -1) = False" using live_state [of 4] by (simp add: cell_has_def)
  moreover have st: "stance demo_board False live_supervisor 0 = 1"
    using live_ok refreshed_stance [of live_supervisor demo_board False 0] by simp
  moreover have "field_priority demo_board False live_supervisor 0 = 13"
    using st live_ok by (simp add: field_priority_def earned_def demo_board_def tiny_board_def list_all_iff)
  ultimately show ?thesis
    using policy_tick_stance [of demo_board live_supervisor "Some 4" 5 False] live_ok by simp
qed

theorem learn_sync_law_witness: "goose_supervisor_learn_sync demo_board live_supervisor = live_supervisor"
proof -
  have "cell_has live_supervisor (Some 4) (\<lambda>v. v = -1) = False" "cell_has live_supervisor (Some 3) (\<lambda>v. v = 1) = False"
    using live_state [of 3] live_state [of 4] by (simp_all add: cell_has_def)
  then show ?thesis
    using learn_sync_law [of demo_board live_supervisor "Some 4" "Some 3" None False False 1] live_ok
    by (simp add: cell_has_def)
qed

theorem inhibited_output_raises_pain_witness:
  "fst (goose_supervisor_check_equilibrium live_supervisor (Some 0)) = Inr ()
   \<and> loom_of ((goose_supervisor_evaluate demo_board ^^ 5) live_supervisor) = set_state (loom_of live_supervisor) 4 (-1)"
proof -
  obtain r where r: "routes (field_of live_supervisor 0) = [r]" "inhibited demo_board (loom_of live_supervisor) (purpose_name live_supervisor) r"
    using live_route by blast
  show ?thesis
    using inhibited_output_raises_pain [OF _ _ r] live_ok by (simp add: c_str_def)
qed

definition lit_loom :: loom where
  "lit_loom = tiny_power\<lparr>fabric_cells := [zero_cell\<lparr>state := 1\<rparr>, zero_cell\<lparr>state := 1\<rparr>]\<rparr>"

definition lit_route :: goose_route where
  "lit_route = (woven_route [] [] 0)\<lparr>cached_source := Some 0, cached_sink := Some 1\<rparr>"

theorem hebbian_commits_witness:
  "learned_orientation (fold (\<lambda>s. learn_route s True 2) (replicate 4 lit_loom) lit_route) = 1"
proof -
  have r: "cached_source lit_route = Some 0" "cached_sink lit_route = Some 1" "hebbian_counter lit_route = 0"
    by (simp_all add: lit_route_def woven_route_def)
  have e: "evidence 2 lit_route lit_loom = 2" by (simp add: evidence_def r lit_loom_def)
  have "\<forall>k < length (replicate 4 lit_loom). \<bar>hebbian_counter lit_route + (\<Sum>s\<leftarrow>take k (replicate 4 lit_loom). evidence 2 lit_route s)\<bar> < 8"
    by (simp add: e r sum_list_replicate min_def)
  from hebbian_commits [OF _ _ this] show ?thesis
    by (simp add: e r sum_list_replicate learned_from_def)
qed

end
