(* ===== verification/Goose_Snapshot.thy ===== *)
theory Goose_Snapshot imports Goose_Supervisor Kv_Flash begin

text \<open>
  Tapestry snapshots (goose_supervisor.c): what the routes have learned, one blob per supervised
  field, saved to and loaded from a key-value backend. The backend is the interface of
  include/reflex_kv.h; \<open>raw_flash\<close> is the one of platform/esp32c6/reflex_kv_flash.c. The sixteen
  bytes of a route's name are the string padded with zeros, as every route is cleared before it
  is named.
\<close>

section \<open>The backend\<close>

record 's kv_backend =
  kv_open :: "u8 list \<Rightarrow> bool \<Rightarrow> 's \<Rightarrow> nat result"
  kv_set_blob :: "nat \<Rightarrow> u8 list \<Rightarrow> u8 list \<Rightarrow> 's \<Rightarrow> unit result \<times> 's"
  kv_get_blob :: "nat \<Rightarrow> u8 list \<Rightarrow> nat \<Rightarrow> 's \<Rightarrow> u8 list result"
  kv_erase_key :: "nat \<Rightarrow> u8 list \<Rightarrow> 's \<Rightarrow> unit result \<times> 's"
  kv_commit_all :: "nat \<Rightarrow> 's \<Rightarrow> unit result \<times> 's"
  kv_value_max :: nat

definition raw_flash :: "'m flash_dev \<Rightarrow> (kv_state \<times> 'm) kv_backend" where
  "raw_flash F = \<lparr>kv_open = \<lambda>ns readonly (st, m). reflex_kv_open st ns,
     kv_set_blob = \<lambda>h key bs (st, m). (case reflex_kv_set_blob F st h key bs m of (r, st', m') \<Rightarrow> (r, (st', m'))),
     kv_get_blob = \<lambda>h key cap (st, m). reflex_kv_get_blob F st h key cap m,
     kv_erase_key = \<lambda>h key (st, m). (case reflex_kv_erase st h key of (r, st') \<Rightarrow> (r, (st', m))),
     kv_commit_all = \<lambda>h (st, m). (case reflex_kv_commit st h of (r, st') \<Rightarrow> (r, (st', m))),
     kv_value_max = reflex_kv_value_max\<rparr>"

section \<open>The format\<close>

definition SNAP_ROUTE_ENTRY_SIZE :: nat where "SNAP_ROUTE_ENTRY_SIZE = 16 + 1 + 2"
definition SNAP_MAX_ROUTES :: nat where "SNAP_MAX_ROUTES = 32"
definition SNAP_VERSION :: u16 where "SNAP_VERSION = 2"
definition SNAP_HEADER_SIZE :: nat where "SNAP_HEADER_SIZE = 4"

text \<open>Little-endian sixteen bits, as \<open>memcpy\<close> stores and loads them.\<close>

definition bytes16 :: "u16 \<Rightarrow> u8 list" where "bytes16 x = [ucast x, ucast (drop_bit 8 x)]"

definition value16 :: "u8 list \<Rightarrow> u16" where
  "value16 bs = ucast (bs ! 0) OR push_bit 8 (ucast (bs ! 1))"

definition name_buffer :: "cstring \<Rightarrow> u8 list" where
  "name_buffer n = n @ replicate (16 - length n) 0"

definition route_bytes :: "goose_route \<Rightarrow> u8 list" where
  "route_bytes r = name_buffer (rname r) @ [word_of_int (learned_orientation r)] @ bytes16 (word_of_int (hebbian_counter r))"

definition hex_char :: "u32 \<Rightarrow> u8" where
  "hex_char d = (if d < 10 then 48 + ucast d else 87 + ucast d)"

text \<open>\<open>"s_%08lx"\<close> of the hash of the field's name.\<close>

definition snapshot_key :: "cstring \<Rightarrow> u8 list" where
  "snapshot_key name = c_str ''s_'' @ map (\<lambda>i. hex_char (drop_bit (4 * i) (goose_fnv1a name) AND 15)) (rev [0..<8])"

definition snapshot_cap :: "nat \<Rightarrow> nat" where
  "snapshot_cap value_max =
     (let fits = (if value_max > SNAP_HEADER_SIZE then (value_max - SNAP_HEADER_SIZE) div SNAP_ROUTE_ENTRY_SIZE else 0)
      in if fits < SNAP_MAX_ROUTES then fits else SNAP_MAX_ROUTES)"

definition snapshot_blob :: "nat \<Rightarrow> 'c goose_field \<Rightarrow> u8 list" where
  "snapshot_blob value_max fld =
     (let n = unat (goose_policy_snap_entry_count (length (routes fld)) (snapshot_cap value_max))
      in bytes16 SNAP_VERSION @ bytes16 (word_of_nat n) @ concat (map route_bytes (take n (routes fld))))"

section \<open>Saving\<close>

text \<open>The counts of skipped and failed fields travel with the store.\<close>

definition save_field :: "'s kv_backend \<Rightarrow> nat \<Rightarrow> 'c supervisor \<Rightarrow> nat \<times> nat \<times> 's \<Rightarrow> nat \<Rightarrow> nat \<times> nat \<times> 's" where
  "save_field B h w acc f =
     (case acc of (skipped, failed, s) \<Rightarrow>
        let fld = field_of w f in
        if routes fld = [] then acc
        else if \<not> fst (goose_loom_try_lock (loom_of w)) then (skipped + 1, failed, s)
        else (case kv_set_blob B h (snapshot_key (fname fld)) (snapshot_blob (kv_value_max B) fld) s of
                (r, s') \<Rightarrow> (skipped, if r = Inr () then failed else failed + 1, s')))"

definition goose_snapshot_save :: "'s kv_backend \<Rightarrow> 'c supervisor \<Rightarrow> 's \<Rightarrow> unit result \<times> 's" where
  "goose_snapshot_save B w s =
     (case kv_open B (c_str ''goose'') False s of
        Inl e \<Rightarrow> (Inl e, s)
      | Inr h \<Rightarrow>
          (case foldl (save_field B h w) (0, 0, s) (supervised_fields w) of (skipped, failed, s1) \<Rightarrow>
             let s2 = snd (kv_commit_all B h s1) in
             (if skipped > 0 then Inl REFLEX_ERR_TIMEOUT else if failed > 0 then Inl REFLEX_FAIL else Inr (), s2)))"

section \<open>Loading\<close>

text \<open>The entries the loop reads: at most as many as the header says, while a whole one is left.\<close>

fun snapshot_entries :: "nat \<Rightarrow> u8 list \<Rightarrow> (u8 list \<times> int \<times> int) list" where
  "snapshot_entries 0 bs = []"
| "snapshot_entries (Suc n) bs =
     (if length bs < SNAP_ROUTE_ENTRY_SIZE then []
      else (take 16 bs, sint (bs ! 16), sint (value16 (drop 17 bs))) # snapshot_entries n (drop SNAP_ROUTE_ENTRY_SIZE bs))"

definition restore_entry :: "goose_route list \<Rightarrow> u8 list \<times> int \<times> int \<Rightarrow> goose_route list" where
  "restore_entry rs e =
     (case e of (name, orient, hc) \<Rightarrow>
        case find (\<lambda>i. name_buffer (rname (rs ! i)) = name) [0..<length rs] of
          None \<Rightarrow> rs
        | Some i \<Rightarrow> rs[i := (rs ! i)\<lparr>learned_orientation := goose_policy_clamp_learned_orientation orient,
                                 hebbian_counter := goose_policy_clamp_hebbian_counter hc REFLEX_HEBBIAN_COUNTER_MAX\<rparr>])"

definition load_field :: "'s kv_backend \<Rightarrow> nat \<Rightarrow> 's \<Rightarrow> 'c supervisor \<Rightarrow> nat \<Rightarrow> 'c supervisor" where
  "load_field B h s w f =
     (let fld = field_of w f in
      if routes fld = [] then w
      else case kv_get_blob B h (snapshot_key (fname fld)) (SNAP_HEADER_SIZE + SNAP_MAX_ROUTES * SNAP_ROUTE_ENTRY_SIZE) s of
             Inl _ \<Rightarrow> w
           | Inr buf \<Rightarrow>
               if length buf < SNAP_HEADER_SIZE then w
               else if value16 buf \<noteq> SNAP_VERSION then w
               else if \<not> fst (goose_loom_try_lock (loom_of w)) then w
               else put_routes f (foldl restore_entry (routes fld)
                      (snapshot_entries (unat (value16 (drop 2 buf))) (drop SNAP_HEADER_SIZE buf))) w)"

definition goose_snapshot_load :: "'s kv_backend \<Rightarrow> 's \<Rightarrow> 'c supervisor \<Rightarrow> unit result \<times> 'c supervisor" where
  "goose_snapshot_load B s w =
     (case kv_open B (c_str ''goose'') True s of
        Inl e \<Rightarrow> (Inl e, w)
      | Inr h \<Rightarrow> (Inr (), foldl (load_field B h s) w (supervised_fields w)))"

definition goose_snapshot_clear :: "'s kv_backend \<Rightarrow> 'c supervisor \<Rightarrow> 's \<Rightarrow> unit result \<times> 's" where
  "goose_snapshot_clear B w s =
     (case kv_open B (c_str ''goose'') False s of
        Inl e \<Rightarrow> (Inl e, s)
      | Inr h \<Rightarrow> (Inr (), snd (kv_commit_all B h
          (foldl (\<lambda>s f. snd (kv_erase_key B h (snapshot_key (fname (field_of w f))) s)) s (supervised_fields w)))))"

end
