(* ===== verification/Snapshot_Props.thy ===== *)
theory Snapshot_Props imports Goose_Snapshot Supervisor_Props Kv_Map begin

text \<open>
  Snapshots over any key-value backend that keeps its contract, the raw flash as one that does, and
  the round trip: what a save persists, a load after it restores.
\<close>

section \<open>The contract of the backend\<close>

text \<open>\<open>ready n\<close> is a store with room for \<open>n\<close> more writes.\<close>

locale blob_store =
  fixes B :: "'s kv_backend" and h :: nat and ready :: "nat \<Rightarrow> 's \<Rightarrow> bool" and content :: "'s \<Rightarrow> u8 list \<Rightarrow> u8 list option"
  assumes roomy: "4 \<le> kv_value_max B"
    and ready_less: "ready (Suc n) s \<Longrightarrow> ready n s"
    and opens: "ready n s \<Longrightarrow> kv_open B (c_str ''goose'') readonly s = Inr h"
    and set_law: "ready (Suc n) s \<Longrightarrow> 1 \<le> length k \<Longrightarrow> length k \<le> 15 \<Longrightarrow> 0 \<notin> set k \<Longrightarrow> length v \<le> kv_value_max B
      \<Longrightarrow> kv_set_blob B h k v s = (r, s') \<Longrightarrow> ready n s' \<and> content s' = (if r = Inr () then (content s)(k \<mapsto> v) else content s)"
    and get_law: "ready n s \<Longrightarrow> kv_get_blob B h k cap s = (case content s k of
        None \<Rightarrow> Inl REFLEX_ERR_NOT_FOUND | Some v \<Rightarrow> if cap < length v then Inl REFLEX_ERR_INVALID_ARG else Inr v)"
    and commit_law: "ready n s \<Longrightarrow> ready n (snd (kv_commit_all B h s)) \<and> content (snd (kv_commit_all B h s)) = content s"

section \<open>Bytes\<close>

lemma bytes16_length [simp]: "length (bytes16 x) = 2"
  by (simp add: bytes16_def)

lemma value16_bytes16 [simp]: "value16 (bytes16 x @ ys) = x"
proof -
  have "value16 (bytes16 x) = x"
  proof (rule bit_word_eqI)
    fix n
    assume "n < LENGTH(16)"
    then show "bit (value16 (bytes16 x)) n = bit x n"
      by (cases "n < 8") (auto simp: value16_def bytes16_def bit_or_iff bit_push_bit_iff bit_ucast_iff bit_drop_bit_eq)
  qed
  then show ?thesis by (simp add: value16_def bytes16_def)
qed

lemma name_buffer_length: "length n \<le> 16 \<Longrightarrow> length (name_buffer n) = 16"
  by (simp add: name_buffer_def)

lemma name_buffer_inj:
  assumes "0 \<notin> set a" "0 \<notin> set b" "length a < 16" "length b < 16" "name_buffer a = name_buffer b"
  shows "a = b"
proof -
  have strip: "takeWhile (\<lambda>x. x \<noteq> 0) (name_buffer n) = n" if "0 \<notin> set n" "length n < 16" for n
  proof -
    have "16 - length n = Suc (15 - length n)" using that(2) by simp
    moreover have "\<forall>x \<in> set n. x \<noteq> 0" using that(1) by metis
    ultimately show ?thesis by (simp add: name_buffer_def takeWhile_append2)
  qed
  show ?thesis
    by (rule box_equals [OF _ strip [OF assms(1,3)] strip [OF assms(2,4)]]) (simp only: assms(5))
qed

lemma snapshot_key_props:
  "length (snapshot_key n) = 10" "0 \<notin> set (snapshot_key n)"
proof -
  have "hex_char (x AND 15) \<noteq> 0" for x
  proof -
    have "x AND 15 \<le> 15" by (rule word_and_le1)
    then have "unat (x AND 15) \<le> 15" by (simp add: word_le_nat_alt)
    moreover have "hex_char d \<noteq> 0" if "unat d \<le> 15" for d :: u32
    proof -
      have "d \<in> set (map word_of_nat [0..<16])"
        using that by (auto intro!: image_eqI [of _ _ "unat d"])
      moreover have "\<forall>d \<in> set (map word_of_nat [0..<16]). hex_char d \<noteq> 0" by code_simp
      ultimately show ?thesis by blast
    qed
    ultimately show ?thesis by blast
  qed
  then show "length (snapshot_key n) = 10" "0 \<notin> set (snapshot_key n)"
    by (auto simp: snapshot_key_def c_str_def)
qed

text \<open>A route a snapshot can carry: its name fits the buffer, its learning is in range.\<close>

definition name_fits :: "goose_route \<Rightarrow> bool" where
  "name_fits r \<longleftrightarrow> length (rname r) < 16 \<and> 0 \<notin> set (rname r)"

definition snap_route_ok :: "goose_route \<Rightarrow> bool" where
  "snap_route_ok r \<longleftrightarrow> length (rname r) < 16 \<and> 0 \<notin> set (rname r) \<and> learned_orientation r \<in> {-1, 0, 1}
     \<and> \<bar>hebbian_counter r\<bar> \<le> REFLEX_HEBBIAN_COUNTER_MAX"

definition snap_fields_ok :: "'c goose_field \<Rightarrow> bool" where
  "snap_fields_ok fld \<longleftrightarrow> (\<forall>r \<in> set (routes fld). snap_route_ok r)"

lemma route_bytes_length: "snap_route_ok r \<Longrightarrow> length (route_bytes r) = 19"
  by (simp add: route_bytes_def name_buffer_length snap_route_ok_def)

lemma snapshot_entries_bytes:
  "\<forall>r \<in> set rs. snap_route_ok r \<Longrightarrow> snapshot_entries (length rs) (concat (map route_bytes rs) @ ys)
     = map (\<lambda>r. (name_buffer (rname r), learned_orientation r, hebbian_counter r)) rs"
proof (induction rs)
  case (Cons r rs)
  have r: "snap_route_ok r" using Cons.prems by simp
  note len = route_bytes_length [OF r] name_buffer_length [of "rname r"]
  have n: "length (name_buffer (rname r)) = 16" using r by (simp add: len snap_route_ok_def)
  have "sint (word_of_int (learned_orientation r) :: u8) = learned_orientation r"
    "sint (word_of_int (hebbian_counter r) :: u16) = hebbian_counter r"
    using r by (auto simp: snap_route_ok_def REFLEX_HEBBIAN_COUNTER_MAX_def REFLEX_HEBBIAN_COMMIT_THRESHOLD_def
      signed_of_int intro!: signed_take_bit_int_eq_self)
  moreover have "drop 17 (route_bytes r @ zs) = bytes16 (word_of_int (hebbian_counter r)) @ zs"
    "(route_bytes r @ zs) ! 16 = word_of_int (learned_orientation r)" "take 16 (route_bytes r @ zs) = name_buffer (rname r)" for zs
    using n by (simp_all add: route_bytes_def nth_append)
  ultimately show ?case
    using Cons by (simp add: SNAP_ROUTE_ENTRY_SIZE_def len)
qed simp

section \<open>Restoring one field\<close>

definition learned_as :: "goose_route \<Rightarrow> goose_route \<Rightarrow> goose_route" where
  "learned_as r r' = r'\<lparr>learned_orientation := learned_orientation r, hebbian_counter := hebbian_counter r\<rparr>"

text \<open>The last of the first \<open>n\<close> saved routes of a name.\<close>

definition saved_last :: "nat \<Rightarrow> goose_route list \<Rightarrow> cstring \<Rightarrow> goose_route option" where
  "saved_last n rs name = find (\<lambda>r. rname r = name) (rev (take n rs))"

text \<open>
  What a load makes of the routes \<open>rs'\<close> when the first \<open>n\<close> of \<open>rs\<close> were saved: the first route of
  each name takes what the last saved route of that name had learned, every other one stays.
\<close>

definition first_named :: "goose_route list \<Rightarrow> nat \<Rightarrow> bool" where
  "first_named rs i \<longleftrightarrow> (\<forall>j < i. rname (rs ! j) \<noteq> rname (rs ! i))"

definition restored :: "nat \<Rightarrow> goose_route list \<Rightarrow> goose_route list \<Rightarrow> goose_route list" where
  "restored n rs rs' = map (\<lambda>i. if \<not> first_named rs' i then rs' ! i
     else case saved_last n rs (rname (rs' ! i)) of None \<Rightarrow> rs' ! i | Some r \<Rightarrow> learned_as r (rs' ! i)) [0..<length rs']"

lemma restored_length: "length (restored n rs rs') = length rs'"
  by (simp add: restored_def)

lemma restored_nth:
  "i < length rs' \<Longrightarrow> restored n rs rs' ! i = (if \<not> first_named rs' i then rs' ! i
     else case saved_last n rs (rname (rs' ! i)) of None \<Rightarrow> rs' ! i | Some r \<Rightarrow> learned_as r (rs' ! i))"
  by (simp add: restored_def split: option.split)

lemma restored_name: "i < length rs' \<Longrightarrow> rname (restored n rs rs' ! i) = rname (rs' ! i)"
  by (auto simp: restored_nth learned_as_def split: option.split)

lemma restored_learned: "i < length rs' \<Longrightarrow> learned_as r (restored n rs rs' ! i) = learned_as r (rs' ! i)"
  by (auto simp: restored_nth learned_as_def split: option.split)

lemma saved_last_Suc:
  "n < length rs \<Longrightarrow> saved_last (Suc n) rs name = (if rname (rs ! n) = name then Some (rs ! n) else saved_last n rs name)"
  by (simp add: saved_last_def take_Suc_conv_app_nth)

text \<open>Where no name is used twice and the names are those that were saved, a load gives every route its own.\<close>

lemma saved_last_distinct:
  assumes "distinct (map rname rs)" "i < length rs"
  shows "saved_last n rs (rname (rs ! i)) = (if i < n then Some (rs ! i) else None)"
proof (induction n)
  case (Suc n)
  have "rname (rs ! n) = rname (rs ! i) \<longleftrightarrow> n = i" if "n < length rs"
    using nth_eq_iff_index_eq [OF assms(1), of n i] that assms(2) by simp
  then show ?case
    using Suc assms(2) by (cases "n < length rs") (simp_all add: saved_last_Suc less_Suc_eq, auto simp: saved_last_def)
qed (simp add: saved_last_def)

lemma restored_distinct:
  assumes d: "distinct (map rname rs)" and same: "map rname rs' = map rname rs" and i: "i < length rs'"
  shows "restored n rs rs' ! i = (if i < n then learned_as (rs ! i) (rs' ! i) else rs' ! i)"
proof -
  have len: "length rs' = length rs" using same by (metis length_map)
  have name: "rname (rs' ! j) = rname (rs ! j)" if "j < length rs" for j
    using arg_cong [OF same, of "\<lambda>xs. xs ! j"] that len by simp
  have "first_named rs' i" unfolding first_named_def
    using nth_eq_iff_index_eq [OF d, of _ i] i len name by auto
  with i show ?thesis
    using saved_last_distinct [OF d, of i n] len name [of i] by (simp add: restored_nth)
qed

lemma clamp_kept:
  assumes "snap_route_ok r"
  shows "goose_policy_clamp_learned_orientation (learned_orientation r) = learned_orientation r"
    "goose_policy_clamp_hebbian_counter (hebbian_counter r) REFLEX_HEBBIAN_COUNTER_MAX = hebbian_counter r"
  using assms by (auto simp: snap_route_ok_def intro!: clamp_keeps_valid)

lemma restore_one:
  assumes ok: "\<forall>r \<in> set rs. snap_route_ok r" "\<forall>r \<in> set rs'. name_fits r" and n: "n < length rs"
  shows "restore_entry (restored n rs rs') (name_buffer (rname (rs ! n)), learned_orientation (rs ! n), hebbian_counter (rs ! n))
    = restored (Suc n) rs rs'"
proof -
  let ?r = "rs ! n"
  have r: "snap_route_ok ?r" using ok(1) n by simp
  have "name_buffer (rname (restored n rs rs' ! i)) = name_buffer (rname ?r) \<longleftrightarrow> rname (rs' ! i) = rname ?r" if i: "i < length rs'" for i
  proof -
    have "name_fits (rs' ! i)" using ok(2) i by simp
    with r have "name_buffer (rname (rs' ! i)) = name_buffer (rname ?r) \<Longrightarrow> rname (rs' ! i) = rname ?r"
      unfolding snap_route_ok_def name_fits_def by (blast intro: name_buffer_inj)
    then show ?thesis unfolding restored_name [OF i] by metis
  qed
  then have "find (\<lambda>i. name_buffer (rname (restored n rs rs' ! i)) = name_buffer (rname ?r)) [0..<length (restored n rs rs')]
      = find (\<lambda>i. rname (rs' ! i) = rname ?r) [0..<length rs']"
    unfolding restored_length by (intro find_cong) auto
  then have step: "restore_entry (restored n rs rs') (name_buffer (rname ?r), learned_orientation ?r, hebbian_counter ?r)
      = (case find (\<lambda>i. rname (rs' ! i) = rname ?r) [0..<length rs'] of None \<Rightarrow> restored n rs rs'
         | Some k \<Rightarrow> (restored n rs rs')[k := learned_as ?r (restored n rs rs' ! k)])"
    by (simp only: restore_entry_def prod.case clamp_kept [OF r] learned_as_def)
  show ?thesis
  proof (cases "find (\<lambda>i. rname (rs' ! i) = rname ?r) [0..<length rs']")
    case None
    then have "\<forall>i < length rs'. rname (rs' ! i) \<noteq> rname ?r" by (auto simp: find_None_iff)
    then have "restored n rs rs' ! i = restored (Suc n) rs rs' ! i" if "i < length rs'" for i
      using that by (auto simp: restored_nth saved_last_Suc [OF n] eq_commute)
    then have "restored n rs rs' = restored (Suc n) rs rs'" by (intro nth_equalityI) (simp_all add: restored_length)
    then show ?thesis unfolding step None by simp
  next
    case (Some k)
    then have k: "k < length rs'" "rname (rs' ! k) = rname ?r" "\<And>j. j < k \<Longrightarrow> rname (rs' ! j) \<noteq> rname ?r"
      by (auto simp: find_Some_iff)
    have "(restored n rs rs')[k := learned_as ?r (restored n rs rs' ! k)] ! i = restored (Suc n) rs rs' ! i" if i: "i < length rs'" for i
    proof (cases "i = k")
      case True
      have first: "first_named rs' k" using k(2,3) by (simp add: first_named_def)
      have "restored (Suc n) rs rs' ! k = learned_as ?r (rs' ! k)"
        using k(1,2) first by (simp add: restored_nth saved_last_Suc [OF n])
      then show ?thesis using k(1) by (simp add: True restored_learned restored_length)
    next
      case False
      have "\<not> first_named rs' i" if "rname (rs' ! i) = rname ?r"
        using k that False unfolding first_named_def by (metis linorder_neqE_nat)
      then have "restored n rs rs' ! i = restored (Suc n) rs rs' ! i"
        using i by (auto simp: restored_nth saved_last_Suc [OF n])
      with False show ?thesis by simp
    qed
    then have "(restored n rs rs')[k := learned_as ?r (restored n rs rs' ! k)] = restored (Suc n) rs rs'"
      by (intro nth_equalityI) (simp_all add: restored_length)
    then show ?thesis unfolding step Some by simp
  qed
qed

lemma restore_all:
  assumes "\<forall>r \<in> set rs. snap_route_ok r" "\<forall>r \<in> set rs'. name_fits r"
  shows "n \<le> length rs \<Longrightarrow> foldl restore_entry rs' (map (\<lambda>r. (name_buffer (rname r), learned_orientation r, hebbian_counter r)) (take n rs))
    = restored n rs rs'"
proof (induction n)
  case 0
  have "restored 0 rs rs' = rs'" by (rule nth_equalityI) (simp_all add: restored_length restored_nth saved_last_def)
  then show ?case by simp
next
  case (Suc n)
  then show ?case using restore_one [OF assms, of n] by (simp add: take_Suc_conv_app_nth)
qed

section \<open>Saving and loading over the contract\<close>

lemma snap_count: "unat (goose_policy_snap_entry_count n (snapshot_cap k)) = min n (snapshot_cap k)"
proof -
  have "snapshot_cap k \<le> 32" by (simp add: snapshot_cap_def SNAP_MAX_ROUTES_def Let_def)
  then show ?thesis by (auto simp: goose_policy_snap_entry_count_def unat_of_nat min_def)
qed

lemma concat_length: "\<forall>x \<in> set xs. length (g x) = k \<Longrightarrow> length (concat (map g xs)) = k * length xs"
  by (induction xs) auto

lemma snapshot_blob_length:
  assumes "snap_fields_ok fld" "4 \<le> k"
  shows "length (snapshot_blob k fld) \<le> k" "length (snapshot_blob k fld) \<le> 612"
proof -
  let ?n = "min (length (routes fld)) (snapshot_cap k)"
  have "\<forall>r \<in> set (take ?n (routes fld)). length (route_bytes r) = 19"
    using assms(1) route_bytes_length by (auto simp: snap_fields_ok_def dest: in_set_takeD)
  then have l: "length (snapshot_blob k fld) = 4 + 19 * ?n"
    using concat_length [of "take ?n (routes fld)" route_bytes 19] by (simp add: snapshot_blob_def snap_count Let_def)
  have "?n \<le> 32" "19 * ?n \<le> k - 4"
  proof -
    have "?n \<le> (k - 4) div 19 \<and> ?n \<le> 32"
      by (auto simp: snapshot_cap_def SNAP_HEADER_SIZE_def SNAP_ROUTE_ENTRY_SIZE_def SNAP_MAX_ROUTES_def Let_def min_def)
    then show "?n \<le> 32" "19 * ?n \<le> k - 4" by auto
  qed
  then show "length (snapshot_blob k fld) \<le> k" "length (snapshot_blob k fld) \<le> 612" using l assms(2) by linarith+
qed

text \<open>A load of what a save of the same field wrote.\<close>

lemma load_blob:
  assumes ok: "snap_fields_ok fld" and fit: "\<forall>r \<in> set rs'. name_fits r" and "buf = snapshot_blob k fld"
  shows "4 \<le> length buf" "value16 buf = SNAP_VERSION"
    "foldl restore_entry rs' (snapshot_entries (unat (value16 (drop 2 buf))) (drop 4 buf)) = restored (snapshot_cap k) (routes fld) rs'"
proof -
  let ?n = "min (length (routes fld)) (snapshot_cap k)"
  have buf: "buf = bytes16 SNAP_VERSION @ bytes16 (word_of_nat ?n) @ concat (map route_bytes (take ?n (routes fld)))"
    by (simp only: assms(3) snapshot_blob_def snap_count Let_def)
  then show "4 \<le> length buf" "value16 buf = SNAP_VERSION" by simp_all
  have "snapshot_cap k \<le> 32" by (simp add: snapshot_cap_def SNAP_MAX_ROUTES_def Let_def)
  then have count: "unat (value16 (drop 2 buf)) = ?n" by (simp add: buf unat_of_nat)
  have "\<forall>r \<in> set (take ?n (routes fld)). snap_route_ok r" using ok by (auto simp: snap_fields_ok_def dest: in_set_takeD)
  from snapshot_entries_bytes [OF this, of "[]"]
  have "snapshot_entries ?n (drop 4 buf) = map (\<lambda>r. (name_buffer (rname r), learned_orientation r, hebbian_counter r)) (take ?n (routes fld))"
    by (simp add: buf)
  then have "foldl restore_entry rs' (snapshot_entries (unat (value16 (drop 2 buf))) (drop 4 buf)) = restored ?n (routes fld) rs'"
    using ok fit restore_all [of "routes fld" rs' ?n] by (simp add: count snap_fields_ok_def)
  moreover have "saved_last ?n (routes fld) = saved_last (snapshot_cap k) (routes fld)"
    by (simp add: saved_last_def fun_eq_iff min_def)
  ultimately show "foldl restore_entry rs' (snapshot_entries (unat (value16 (drop 2 buf))) (drop 4 buf)) = restored (snapshot_cap k) (routes fld) rs'"
    by (simp add: restored_def)
qed

text \<open>
  A supervisor a save can persist: every supervised field is one of the store and listed once, its
  routes can be carried, and no two fields have the same key, that is the same hash of the name.
\<close>

definition savable :: "'c supervisor \<Rightarrow> bool" where
  "savable w \<longleftrightarrow> distinct (supervised_fields w) \<and> (\<forall>f \<in> set (supervised_fields w). f < length (field_store (sub w)) \<and> snap_fields_ok (field_of w f))
     \<and> distinct (map (\<lambda>f. snapshot_key (fname (field_of w f))) (supervised_fields w))"

text \<open>
  One a load can restore it into: the same supervised fields under the same names, with routes
  whose names fit their buffers; a field that had no routes has none now.
\<close>

definition same_fields :: "'c supervisor \<Rightarrow> 'c supervisor \<Rightarrow> bool" where
  "same_fields w w' \<longleftrightarrow> supervised_fields w' = supervised_fields w \<and> length (field_store (sub w')) = length (field_store (sub w))
     \<and> (\<forall>f \<in> set (supervised_fields w). fname (field_of w' f) = fname (field_of w f)
          \<and> (\<forall>r \<in> set (routes (field_of w' f)). name_fits r) \<and> (routes (field_of w f) = [] \<longrightarrow> routes (field_of w' f) = []))"

lemma put_routes_again: "put_routes f (routes (field_of u f)) u = u"
proof -
  have "(field_of u f)\<lparr>routes := routes (field_of u f)\<rparr> = field_of u f" by simp
  then show ?thesis by (simp only: put_routes_def) (simp add: field_of_def)
qed

context blob_store
begin

lemma save_all:
  assumes "\<forall>f \<in> set fs. snap_fields_ok (field_of w f)" "distinct (map (\<lambda>f. snapshot_key (fname (field_of w f))) fs)"
    "ready (length fs + n) s" "foldl (save_field B h w) (a, b, s) fs = (a', b', s')"
  shows "ready n s' \<and> a \<le> a' \<and> b \<le> b' \<and> (a' = a \<and> b' = b \<longrightarrow>
    (\<forall>f \<in> set fs. routes (field_of w f) \<noteq> [] \<longrightarrow> content s' (snapshot_key (fname (field_of w f))) = Some (snapshot_blob (kv_value_max B) (field_of w f))))"
  using assms
proof (induction fs arbitrary: n a' b' s' rule: rev_induct)
  case (snoc f fs)
  let ?key = "\<lambda>f. snapshot_key (fname (field_of w f))" and ?blob = "\<lambda>f. snapshot_blob (kv_value_max B) (field_of w f)"
  obtain a1 b1 s1 where f1: "foldl (save_field B h w) (a, b, s) fs = (a1, b1, s1)" by (metis surj_pair)
  have "ready (length fs + Suc n) s" using snoc.prems(3) by simp
  then have IH: "ready (Suc n) s1" "a \<le> a1" "b \<le> b1"
    "a1 = a \<and> b1 = b \<longrightarrow> (\<forall>f \<in> set fs. routes (field_of w f) \<noteq> [] \<longrightarrow> content s1 (?key f) = Some (?blob f))"
    using snoc.IH [OF _ _ _ f1, of "Suc n"] snoc.prems(1,2) by simp_all
  have last: "save_field B h w (a1, b1, s1) f = (a', b', s')" using snoc.prems(4) f1 by simp
  consider "routes (field_of w f) = []" | "routes (field_of w f) \<noteq> []" "loom_authority (loom_of w)"
    | "routes (field_of w f) \<noteq> []" "\<not> loom_authority (loom_of w)" by blast
  then show ?case
  proof cases
    case 1
    then show ?thesis using last IH ready_less by (auto simp: save_field_def)
  next
    case 2
    then show ?thesis using last IH ready_less by (auto simp: save_field_def goose_loom_try_lock_def)
  next
    case 3
    obtain r where r: "kv_set_blob B h (?key f) (?blob f) s1 = (r, s')" "a' = a1" "b' = (if r = Inr () then b1 else b1 + 1)"
      using last 3 by (auto simp: save_field_def goose_loom_try_lock_def Let_def split: prod.splits)
    have "ready n s'" "content s' = (if r = Inr () then (content s1)(?key f \<mapsto> ?blob f) else content s1)"
      using set_law [OF IH(1) _ _ _ _ r(1)] snapshot_blob_length(1) [OF _ roomy, of "field_of w f"] snoc.prems(1)
      by (simp_all add: snapshot_key_props)
    moreover have "?key g \<noteq> ?key f" if "g \<in> set fs" for g
    proof -
      have "?key f \<notin> ?key ` set fs" using snoc.prems(2) by simp
      moreover have "?key g \<in> ?key ` set fs" using that by (rule imageI)
      ultimately show ?thesis by metis
    qed
    ultimately show ?thesis using IH r(2,3) by (auto split: if_splits)
  qed
qed simp

lemma saved_then_loaded:
  assumes w: "savable w" and r: "ready (length (supervised_fields w)) s" and save: "goose_snapshot_save B w s = (Inr (), s')"
    and w': "same_fields w w'" "\<not> loom_authority (loom_of w')"
  shows "\<exists>v. ready 0 s' \<and> goose_snapshot_load B s' w' = (Inr (), v) \<and> length (field_store (sub v)) = length (field_store (sub w'))
    \<and> v = w'\<lparr>sub := (sub w')\<lparr>field_store := field_store (sub v)\<rparr>\<rparr>
    \<and> (\<forall>f < length (field_store (sub w')). field_of v f = (if f \<in> set (supervised_fields w)
      then (field_of w' f)\<lparr>routes := restored (snapshot_cap (kv_value_max B)) (routes (field_of w f)) (routes (field_of w' f))\<rparr> else field_of w' f))"
proof -
  let ?fs = "supervised_fields w" and ?key = "\<lambda>f. snapshot_key (fname (field_of w f))"
  let ?R = "\<lambda>f. restored (snapshot_cap (kv_value_max B)) (routes (field_of w f)) (routes (field_of w' f))"
  obtain a b s1 where f: "foldl (save_field B h w) (0, 0, s) ?fs = (a, b, s1)" by (metis surj_pair)
  have s': "a = 0" "b = 0" "s' = snd (kv_commit_all B h s1)"
    using save f opens [OF r, of False] by (auto simp: goose_snapshot_save_def Let_def split: if_splits)
  have S: "ready 0 s1" "\<And>f. f \<in> set ?fs \<Longrightarrow> routes (field_of w f) \<noteq> [] \<Longrightarrow> content s1 (?key f) = Some (snapshot_blob (kv_value_max B) (field_of w f))"
    using save_all [OF _ _ _ f, of 0] w r s' by (auto simp: savable_def)
  have C: "ready 0 s'" "content s' = content s1" using commit_law [OF S(1)] by (simp_all add: s'(3))
  define v where "v = foldl (load_field B h s') w' ?fs"
  have step: "load_field B h s' u f = put_routes f (?R f) u"
    if f: "f \<in> set ?fs" and u: "field_of u f = field_of w' f" "loom_of u = loom_of w'" "length (field_store (sub u)) = length (field_store (sub w'))" for u f
  proof (cases "routes (field_of w f) = []")
    case True
    have "routes (field_of w' f) = []" using True w'(1) f by (auto simp: same_fields_def)
    then show ?thesis using u(1) put_routes_again [of f u] by (simp add: load_field_def restored_def)
  next
    case False
    have ok: "snap_fields_ok (field_of w f)" using w f by (simp add: savable_def)
    have n: "fname (field_of w' f) = fname (field_of w f)" "\<forall>r \<in> set (routes (field_of w' f)). name_fits r"
      using w'(1) f by (simp_all add: same_fields_def)
    have "kv_get_blob B h (?key f) 612 s' = Inr (snapshot_blob (kv_value_max B) (field_of w f))"
      using get_law [OF C(1)] C(2) S(2) [OF f False] snapshot_blob_length(2) [OF ok roomy] by simp
    moreover have "put_routes f (?R f) u = u" if "routes (field_of w' f) = []"
      using that u(1) put_routes_again [of f u] by (simp add: restored_def)
    ultimately show ?thesis using load_blob [OF ok n(2) refl, of "kv_value_max B"] w'(2)
      by (simp add: load_field_def u n(1) Let_def SNAP_HEADER_SIZE_def SNAP_MAX_ROUTES_def SNAP_ROUTE_ENTRY_SIZE_def goose_loom_try_lock_def)
  qed
  have fs: "distinct ?fs" "\<forall>f \<in> set ?fs. f < length (field_store (sub w'))" using w w'(1) by (simp_all add: savable_def same_fields_def)
  have "goose_snapshot_load B s' w' = (Inr (), v)"
    using opens [OF C(1), of True] w'(1) by (simp add: goose_snapshot_load_def v_def same_fields_def)
  then show ?thesis using C(1) each_field [OF fs step v_def] by blast
qed

end

section \<open>The raw flash\<close>

definition goose_handle :: nat where "goose_handle = unat (ns_hash (c_str ''goose'')) + 1"

lemma goose_ns: "GET_NS goose_handle \<noteq> 0xFF"
  by code_simp

text \<open>A mounted store with room for \<open>n\<close> more keys and pages, in no namespace that reads as erased flash.\<close>

definition flash_ready :: "('m \<Rightarrow> nat \<Rightarrow> u8) \<Rightarrow> nat \<Rightarrow> kv_state \<times> 'm \<Rightarrow> bool" where
  "flash_ready view n s \<longleftrightarrow> (\<exists>es. kv_ok view (fst s) (snd s) es \<and> (\<forall>e \<in> set es. k_ns e \<noteq> 0xFF)
     \<and> card (entry_key ` set es) + n \<le> 256 \<and> s_active_seq (fst s) + n < 2 ^ 32)"

definition flash_content :: "'m flash_dev \<Rightarrow> kv_state \<times> 'm \<Rightarrow> u8 list \<Rightarrow> u8 list option" where
  "flash_content F s key = (case reflex_kv_get_blob F (fst s) goose_handle key 240 (snd s) of Inl _ \<Rightarrow> None | Inr v \<Rightarrow> Some v)"

context flash_medium
begin

lemma blob_of_log:
  assumes "kv_ok view st m es" "0x16000 \<le> limit"
  shows "reflex_kv_get_blob F st h key cap m = (case contents es (GET_NS h, key) of
      None \<Rightarrow> Inl REFLEX_ERR_NOT_FOUND | Some v \<Rightarrow> if cap < length v then Inl REFLEX_ERR_INVALID_ARG else Inr v)"
  using assms get_latest [of m st _ es h key cap] by (auto simp: kv_ok_def contents_def split: option.split)

lemma flash_content_log:
  assumes "kv_ok view st m es" "0x16000 \<le> limit"
  shows "flash_content F (st, m) key = contents es (GET_NS goose_handle, key)"
proof (cases "latest es (GET_NS goose_handle, key)")
  case None
  then show ?thesis by (simp add: flash_content_def blob_of_log [OF assms] contents_def)
next
  case (Some e)
  then have "e \<in> set es" by (auto elim: latest_Some)
  then have "length (k_val e) \<le> 240" using assms(1) by (auto simp: kv_ok_def sector_log_def list_all_iff entry_ok_def)
  then show ?thesis using Some by (simp add: flash_content_def blob_of_log [OF assms] contents_def)
qed

lemma flash_blob_store:
  assumes c: "0x16000 \<le> limit"
  shows "blob_store (raw_flash F) goose_handle (flash_ready view) (flash_content F)"
proof
  show "4 \<le> kv_value_max (raw_flash F)" by (simp add: raw_flash_def reflex_kv_value_max_def KV_VAL_MAX_def)
next
  fix n s
  show "flash_ready view n s" if "flash_ready view (Suc n) s" using that by (fastforce simp: flash_ready_def)
next
  fix n s r
  show "kv_open (raw_flash F) (c_str ''goose'') r s = Inr goose_handle" if "flash_ready view n s"
    using that by (cases s) (auto simp: flash_ready_def kv_ok_def raw_flash_def reflex_kv_open_def goose_handle_def)
next
  fix n s k v r s'
  assume r: "flash_ready view (Suc n) s" and k: "1 \<le> length k" "length k \<le> 15" "0 \<notin> set k"
    and v: "length v \<le> kv_value_max (raw_flash F)" and set: "kv_set_blob (raw_flash F) goose_handle k v s = (r, s')"
  obtain st m where s: "s = (st, m)" by (cases s)
  obtain es where es: "kv_ok view st m es" "\<forall>e \<in> set es. k_ns e \<noteq> 0xFF" "card (entry_key ` set es) + Suc n \<le> 256" "s_active_seq st + Suc n < 2 ^ 32"
    using r by (auto simp: flash_ready_def s)
  let ?e = "entry_of goose_handle k KV_TYPE_BLOB v"
  have q: "card (entry_key ` set es) \<le> 256" "s_active_seq st + 1 < 2 ^ 32" using es(3,4) by simp_all
  have e: "entry_ok ?e" using k v by (simp add: entry_of_simps op_ok_def raw_flash_def reflex_kv_value_max_def KV_VAL_MAX_def)
  obtain st' m' where w: "kv_write_entry F st (GET_NS goose_handle) k KV_TYPE_BLOB v m = (if fits (compacted es) ?e then Inr () else Inl REFLEX_ERR_NO_MEM, st', m')"
      "kv_ok view st' m' (log_after es ?e)" "s_active_seq st' \<le> s_active_seq st + 1"
    using kv_write_entry_ok [OF es(1) c e q] by blast
  have s': "s' = (st', m')" "r = Inr () \<longleftrightarrow> fits (compacted es) ?e" using set w(1) by (auto simp: s raw_flash_def reflex_kv_set_blob_def split: if_splits)
  have "card (entry_key ` set (log_after es ?e)) \<le> card (insert (entry_key ?e) (entry_key ` set es))"
    using log_after_keys by (rule card_mono [rotated]) simp
  also have "\<dots> \<le> Suc (card (entry_key ` set es))" by (simp add: card_insert_if)
  finally have "card (entry_key ` set (log_after es ?e)) + n \<le> 256" using es(3) by simp
  moreover have "\<forall>e \<in> set (log_after es ?e). k_ns e \<noteq> 0xFF"
  proof
    fix x assume "x \<in> set (log_after es ?e)"
    then have "entry_key x \<in> insert (entry_key ?e) (entry_key ` set es)" using log_after_keys [of es ?e] by blast
    then show "k_ns x \<noteq> 0xFF" using es(2) goose_ns by (auto simp: entry_key_def entry_of_def)
  qed
  moreover have "s_active_seq st' + n < 2 ^ 32" using es(4) w(3) by simp
  ultimately have "flash_ready view n s'" using w(2) by (auto simp: flash_ready_def s'(1))
  moreover have "flash_content F s' = (if r = Inr () then (flash_content F s)(k \<mapsto> v) else flash_content F s)"
    by (rule ext) (simp add: s s' flash_content_log [OF es(1) c] flash_content_log [OF w(2) c] contents_log_after fits_iff entry_of_simps)
  ultimately show "flash_ready view n s' \<and> flash_content F s' = (if r = Inr () then (flash_content F s)(k \<mapsto> v) else flash_content F s)" ..
next
  fix n s k cap
  assume "flash_ready view n s"
  then show "kv_get_blob (raw_flash F) goose_handle k cap s = (case flash_content F s k of
      None \<Rightarrow> Inl REFLEX_ERR_NOT_FOUND | Some v \<Rightarrow> if cap < length v then Inl REFLEX_ERR_INVALID_ARG else Inr v)"
    using c by (cases s) (auto simp: flash_ready_def raw_flash_def flash_content_log blob_of_log split: option.split)
next
  fix n s
  show "flash_ready view n (snd (kv_commit_all (raw_flash F) goose_handle s))
      \<and> flash_content F (snd (kv_commit_all (raw_flash F) goose_handle s)) = flash_content F s" if "flash_ready view n s"
    using that by (cases s) (simp add: raw_flash_def reflex_kv_commit_def)
qed

lemma ready_mounts: "flash_ready view n s \<Longrightarrow> 0x16000 \<le> limit \<Longrightarrow> reflex_kv_init F (snd s) = s"
  using kv_init_recovers [of "fst s" "snd s"] by (auto simp: flash_ready_def)

end

interpretation host_store: blob_store "raw_flash host_mock" goose_handle "flash_ready mock_view" "flash_content host_mock"
  by (rule mock.flash_blob_store) simp

interpretation chip_store: blob_store "raw_flash (flash_driver ram_chip)" goose_handle "flash_ready (\<lambda>c. c)" "flash_content (flash_driver ram_chip)"
  by (rule driver.flash_blob_store) simp

section \<open>Properties\<close>

text \<open>
  C39: Snapshots round-trip through the raw flash and a restart. The store is mounted, with room
  for one more key per supervised field within 256 and no sequence number about to wrap, and no
  entry in a namespace that reads as erased flash; every supervised field is listed once, no two
  have names with the same hash, every route's name fits its sixteen bytes and its learning is in
  range. When a save answers OK, the store mounted again is the one the save left. A load from it,
  with the lock free, into a supervisor with the same fields under the same names, where a field
  that had no routes still has none, answers OK and changes nothing but routes of supervised
  fields. There the entries are those of the first twelve routes saved, and they go by name: the
  first route of each name takes the orientation and the counter of the last entry of that name,
  and every other route stays. So when the saved routes of a field have distinct names and the
  loaded ones have the same names in the same order, each of the first twelve gets back exactly
  what it had learned and the rest stay; when two have the same name, as woven routes can, both
  entries go to the first.
\<close>

theorem snapshot_roundtrip:
  assumes "flash_medium F view limit" "0x16000 \<le> limit" "flash_ready view (length (supervised_fields w)) s" "savable w"
    "goose_snapshot_save (raw_flash F) w s = (Inr (), s')" "same_fields w w'" "\<not> loom_authority (loom_of w')"
  shows "reflex_kv_init F (snd s') = s' \<and> (\<exists>fs. goose_snapshot_load (raw_flash F) s' w' = (Inr (), w'\<lparr>sub := (sub w')\<lparr>field_store := fs\<rparr>\<rparr>)
    \<and> length fs = length (field_store (sub w')) \<and> (\<forall>f < length fs. fs ! f = (if f \<in> set (supervised_fields w)
        then (field_of w' f)\<lparr>routes := restored 12 (routes (field_of w f)) (routes (field_of w' f))\<rparr> else field_of w' f))
    \<and> (\<forall>f \<in> set (supervised_fields w). distinct (map rname (routes (field_of w f)))
         \<longrightarrow> map rname (routes (field_of w' f)) = map rname (routes (field_of w f)) \<longrightarrow>
         (\<forall>i < length (routes (fs ! f)). routes (fs ! f) ! i
            = (if i < 12 then learned_as (routes (field_of w f) ! i) (routes (field_of w' f) ! i) else routes (field_of w' f) ! i))))"
proof -
  obtain v where v: "flash_ready view 0 s'" "goose_snapshot_load (raw_flash F) s' w' = (Inr (), v)"
    "length (field_store (sub v)) = length (field_store (sub w'))" "v = w'\<lparr>sub := (sub w')\<lparr>field_store := field_store (sub v)\<rparr>\<rparr>"
    "\<And>f. f < length (field_store (sub w')) \<Longrightarrow> field_of v f = (if f \<in> set (supervised_fields w)
      then (field_of w' f)\<lparr>routes := restored (snapshot_cap (kv_value_max (raw_flash F))) (routes (field_of w f)) (routes (field_of w' f))\<rparr> else field_of w' f)"
    using blob_store.saved_then_loaded [OF flash_medium.flash_blob_store [OF assms(1,2)] assms(4,3,5-7)] by blast
  have "snapshot_cap (kv_value_max (raw_flash F)) = 12"
    by (simp add: raw_flash_def reflex_kv_value_max_def KV_VAL_MAX_def snapshot_cap_def SNAP_HEADER_SIZE_def SNAP_ROUTE_ENTRY_SIZE_def SNAP_MAX_ROUTES_def)
  with v(5) have store: "field_store (sub v) ! f = (if f \<in> set (supervised_fields w)
      then (field_of w' f)\<lparr>routes := restored 12 (routes (field_of w f)) (routes (field_of w' f))\<rparr> else field_of w' f)"
    if "f < length (field_store (sub w'))" for f using that by (simp add: field_of_def [of v])
  have "routes (field_store (sub v) ! f) ! i
      = (if i < 12 then learned_as (routes (field_of w f) ! i) (routes (field_of w' f) ! i) else routes (field_of w' f) ! i)"
    if "f \<in> set (supervised_fields w)" "distinct (map rname (routes (field_of w f)))"
      "map rname (routes (field_of w' f)) = map rname (routes (field_of w f))" "i < length (routes (field_store (sub v) ! f))" for f i
  proof -
    have "f < length (field_store (sub w'))" using assms(4,6) that(1) by (simp add: savable_def same_fields_def)
    from store [OF this] that show ?thesis by (simp add: restored_length restored_distinct)
  qed
  with store v(2,3,4) flash_medium.ready_mounts [OF assms(1) v(1) assms(2)] show ?thesis
    by (intro conjI exI [of _ "field_store (sub v)"]) simp_all
qed

text \<open>One learned route, saved on a blank medium and loaded into a supervisor that has forgotten it.\<close>

definition named_route :: "int \<Rightarrow> int \<Rightarrow> goose_route" where
  "named_route v c = lit_route\<lparr>rname := c_str ''w_led'', learned_orientation := v, hebbian_counter := c\<rparr>"

definition one_route :: "goose_route \<Rightarrow> unit supervisor" where
  "one_route r = put_routes 0 [r] demo_supervisor"

lemma one_route_simps:
  "supervised_fields (one_route r) = [0]" "routes (field_of (one_route r) 0) = [r]" "length (field_store (sub (one_route r))) = 1"
  "loom_of (one_route r) = demo_loom"
  by (simp_all add: one_route_def put_routes_def demo_supervisor_def field_of_def)

lemma first_save:
  assumes "kv_ok mock_view st m []" "s_active_seq st + 1 < 2 ^ 32"
  shows "\<exists>s'. goose_snapshot_save (raw_flash host_mock) (one_route (named_route 1 9)) (st, m) = (Inr (), s')"
proof -
  let ?f = "field_of (one_route (named_route 1 9)) 0"
  let ?k = "snapshot_key (fname ?f)" and ?b = "snapshot_blob (kv_value_max (raw_flash host_mock)) ?f"
  let ?e = "entry_of goose_handle ?k KV_TYPE_BLOB ?b"
  have ok: "snap_fields_ok ?f"
    by (simp add: snap_fields_ok_def one_route_simps snap_route_ok_def named_route_def c_str_def REFLEX_HEBBIAN_COUNTER_MAX_def REFLEX_HEBBIAN_COMMIT_THRESHOLD_def)
  have len: "length ?b \<le> 240"
    using snapshot_blob_length(1) [OF ok host_store.roomy] by (simp add: raw_flash_def reflex_kv_value_max_def KV_VAL_MAX_def)
  have e: "entry_ok ?e" using len by (simp add: entry_of_simps op_ok_def snapshot_key_props)
  have "fits (compacted []) ?e"
    using len by (simp add: fits_def compacted_def position_def kv_entry_span_def hdr_def entry_of_def snapshot_key_props mask_down_4)
  moreover obtain st' m' where "kv_write_entry host_mock st (GET_NS goose_handle) ?k KV_TYPE_BLOB ?b m
      = (if fits (compacted []) ?e then Inr () else Inl REFLEX_ERR_NO_MEM, st', m')"
    by (rule mock.kv_write_entry_ok [OF assms(1) _ e _ assms(2)]) simp_all
  ultimately have "reflex_kv_set_blob host_mock st goose_handle ?k ?b m = (Inr (), st', m')"
    by (simp add: reflex_kv_set_blob_def)
  moreover have "kv_open (raw_flash host_mock) (c_str ''goose'') False (st, m) = Inr goose_handle"
    using assms(1) by (simp add: raw_flash_def reflex_kv_open_def kv_ok_def goose_handle_def)
  ultimately show ?thesis using demo_loom_ok(2)
    by (simp add: goose_snapshot_save_def one_route_simps save_field_def goose_loom_try_lock_def Let_def)
      (simp add: raw_flash_def reflex_kv_commit_def)
qed

theorem snapshot_roundtrip_witness:
  "\<exists>s s' v. goose_snapshot_save (raw_flash host_mock) (one_route (named_route 1 9)) s = (Inr (), s')
    \<and> goose_snapshot_load (raw_flash host_mock) (reflex_kv_init host_mock (snd s')) (one_route (named_route 0 0)) = (Inr (), v)
    \<and> field_store (sub v) = field_store (sub (one_route (named_route 1 9)))"
proof -
  let ?w = "one_route (named_route 1 9)" and ?w' = "one_route (named_route 0 0)"
  obtain st m where st: "kv_ok mock_view st m []" "s_active_seq st = 1" by (rule mock.kv_init_blank [OF blank_mock]) auto
  then obtain s' where s': "goose_snapshot_save (raw_flash host_mock) ?w (st, m) = (Inr (), s')"
    using first_save by fastforce
  have r: "flash_ready mock_view (length (supervised_fields ?w)) (st, m)"
    using st by (auto simp: flash_ready_def one_route_simps intro!: exI [of _ "[]"])
  have w: "savable ?w" "same_fields ?w ?w'" "\<not> loom_authority (loom_of ?w')"
    using demo_loom_ok(2)
    by (simp_all add: savable_def same_fields_def one_route_simps snap_fields_ok_def snap_route_ok_def name_fits_def named_route_def c_str_def
      REFLEX_HEBBIAN_COUNTER_MAX_def REFLEX_HEBBIAN_COMMIT_THRESHOLD_def) (simp add: one_route_def put_routes_def field_of_def demo_supervisor_def)
  obtain fs where l: "reflex_kv_init host_mock (snd s') = s'"
      "goose_snapshot_load (raw_flash host_mock) s' ?w' = (Inr (), ?w'\<lparr>sub := (sub ?w')\<lparr>field_store := fs\<rparr>\<rparr>)" "length fs = 1"
      "fs ! 0 = (field_of ?w' 0)\<lparr>routes := restored 12 [named_route 1 9] [named_route 0 0]\<rparr>"
    using snapshot_roundtrip [OF mock.flash_medium_axioms order_refl r w(1) s' w(2,3)] by (auto simp: one_route_simps)
  have "fs = [(field_of ?w' 0)\<lparr>routes := [named_route 1 9]\<rparr>]"
    using l(3,4) by (auto simp: length_Suc_conv restored_def first_named_def saved_last_def learned_as_def named_route_def)
  also have "\<dots> = field_store (sub ?w)" by (simp add: one_route_def put_routes_def field_of_def demo_supervisor_def)
  finally show ?thesis using s' l(1,2) by (intro exI [of _ "(st, m)"] exI) (auto simp: l(1))
qed

text \<open>Clearing answers OK and, on the raw flash, whose erase does nothing, keeps every snapshot.\<close>

lemma erase_fold: "foldl (\<lambda>s f. snd (kv_erase_key (raw_flash F) h (k f) s)) s fs = s"
  by (induction fs arbitrary: s) (auto simp: raw_flash_def reflex_kv_erase_def split: prod.splits)

theorem snapshot_clear_keeps: "s_initialized (fst s) \<Longrightarrow> goose_snapshot_clear (raw_flash F) w s = (Inr (), s)"
proof -
  assume i: "s_initialized (fst s)"
  have "kv_open (raw_flash F) (c_str ''goose'') False s = Inr goose_handle"
    using i by (cases s) (simp add: raw_flash_def reflex_kv_open_def goose_handle_def)
  moreover have "snd (kv_commit_all (raw_flash F) h s) = s" for h by (cases s) (simp add: raw_flash_def reflex_kv_commit_def)
  ultimately show ?thesis by (simp add: goose_snapshot_clear_def erase_fold)
qed

end
