(* ===== verification/Spec2Isabelle.thy ===== *)
theory Spec2Isabelle imports VM_Task Registry Service_Manager Event_Bus Shell Policy Heap_Client Kv_Map Sched_Choice Supervisor_Props Snapshot_Props begin

text \<open>
  Reflex OS: a verification library of the firmware's own logic. Reflex OS runs ternary programs
  on ESP32 boards: a kernel (allocator, queues, cooperative scheduler), a message fabric and a
  service manager on it, a virtual machine for balanced-ternary code, a substrate of named cells
  (GOOSE) with its indexes, routes, pulse and supervisor, a key-value store on raw flash, and a
  shell. The sources
  are C under src/; each theory below translates the files it names, function by function, under
  the functions' own names.

  How the parts meet. Programs are loaded by the VM loader, run by the interpreter on memory
  reached through the soft cache and the region map, talk to the machine through syscalls, to each
  other through the message fabric, and to the substrate through the GOOSE opcodes. The task
  runtime hosts a VM as a kernel task and as a service of the service manager. The fabric and the
  event bus keep their messages in kernel queues; the scheduler parks tasks on those queues. The
  substrate finds cells through the lattice (by coordinate) and the registry (by name), two users
  of one probing scheme; a name that is not registered is looked up in the catalog of hardware
  registers and paged into a cell, evicting another when the array is full. Routes carry the state
  of one cell to another; the pulse runs the routes of a field, the supervisor judges, repairs,
  weaves and teaches them, and saves what they learned to the key-value store, which works on the
  flash driver. All of this is under one lock, which a caller tries for a bounded time. The shell parses a command line, looks up the role it needs and reports an
  outcome marker.

  \<^bold>\<open>Theories and sources.\<close>

  \<^item> Reflex_Prelude: error codes, the result type, list facts (include/reflex_types.h). C_Words:
    32-bit arithmetic and masks on naturals, little-endian bytes.
  \<^item> Ternary: vm/ternary.c. VM_Mmu, VM_Cache: vm/mmu.c, vm/cache.c and the memory instructions.
    VM_Interp, VM_Safety: vm/interpreter.c and the invariant it keeps. VM_Crc, VM_Loader:
    vm/loader.c and the encoder of tools/tasm.py. VM_Syscall: vm/syscall.c. VM_Task:
    vm/task_runtime.c.
  \<^item> KQueue: kernel/reflex_kqueue.c. Fabric: core/fabric.c and the queue calls of
    kernel/reflex_task_reflex.c. Service_Manager: core/service_manager.c. Event_Bus:
    core/event_bus.c.
  \<^item> Kernel_Heap, Heap_Layout, Heap_Alloc, Heap_Client: kernel/reflex_heap.c; the model, the blocks
    as a partition of the region, the operations against it, and the allocator as an interface
    with its interpretation on the code.
  \<^item> Sched, Sched_Machine, Sched_Choice: kernel/reflex_sched.c; the operations, the machine of tasks,
    boot code, ticks and scheduling decisions with its invariant, and the properties.
  \<^item> Probe_Table, Lattice, Registry: components/goose/goose_lattice.c and goose_registry.c over one
    theory of open addressing with backward-shift deletion. Policy: goose_policy.c.
  \<^item> Shadow_Atlas: the catalog lookup of goose_shadow_atlas.c. Goonies, Goose_Fabric: names, cells,
    allocation, agency, start and resolution of goose_runtime.c on the layouts of goose.h.
    Fabric_Steps, Fabric_Ops: what each of these operations keeps and does, and histories of them.
    Fabric_Cases: warm boots and refused allocations.
  \<^item> Goose_Pulse, Pulse_Props: transitions, routes and the pulse of a field (goose_runtime.c). The
    state is \<open>substrate\<close>: the cells with their indexes and lock (\<open>loom\<close>), the fields, the pins and
    registers. Goose_Weave, Weave_Props: \<open>goose_supervisor_weave_sync\<close> of the same file.
  \<^item> Goose_Supervisor, Supervisor_Props: goose_supervisor.c with the settings of reflex_tuning.h;
    the policy tick, equilibrium and repair, evaluation, learning. Goose_Snapshot,
    Snapshot_Props: its snapshots, on the interface of include/reflex_kv.h.
  \<^item> Kv_Flash, Kv_Log, Kv_Store, Kv_Compact, Kv_Map: platform/esp32c6/reflex_kv_flash.c; the model,
    the sector as a log of entries, lookup, append and compaction, and the store as a map.
    Flash_Driver: platform/esp32c6/reflex_flash_esp32c6.c.
  \<^item> Shell: shell/shell_parse.c, shell_policy.c, shell_outcome.c.

  \<^bold>\<open>Conventions.\<close> A struct is a record with the code's fields, an enum a datatype. State the code
  keeps in statics is a record that operations return updated; error codes are the left of a sum;
  pointers are indexes, addresses or options for NULL. Machine integers are words where they wrap,
  naturals with the wrap written out where the code computes addresses (the allocator), and
  naturals or integers where an invariant bounds them. Undefined behaviour of C in the interpreter
  (a register or route past its array, an integer never set) is the value None of a step, so
  safety is that None is not reached. Code outside the tree is an
  argument: the clock, the console, the GOOSE calls of the interpreter (\<open>goose_ops\<close>), \<open>malloc\<close>'s
  answers, the flash chip's transactions (\<open>spi_chip\<close>), and, in \<open>build\<close>, the generated catalog,
  the board's sizes and the task priorities. Atomic sections are single steps; the lock is a flag of the loom, and a
  bounded wait for it is modelled by its outcome.

  \<^bold>\<open>What the lemmas show.\<close> Each component has a well-formedness predicate that its operations keep
  (\<open>word18_ok\<close>, \<open>cache_ok\<close>, \<open>vm_good\<close>, \<open>queue_ok\<close>, \<open>fabric_ok\<close>, \<open>lattice_ok\<close>, \<open>registry_ok\<close>, \<open>heap_ok\<close>,
  \<open>sched_ok\<close>, \<open>kv_ok\<close>, \<open>watchdog_ok\<close>, and for the substrate \<open>loom_ok\<close>, \<open>names_ok\<close>, \<open>sound\<close>,
  \<open>states_ok\<close> and \<open>world_ok\<close>), an abstract object it stands for (an integer, a flat memory, a list,
  a map, a set of disjoint blocks) and lemmas that operations act on that object. The properties
  rest on these: safety of VM programs and of loaded binaries, transparency of the cache, exact
  ternary arithmetic, reliable delivery, exact maps for lattice, registry (names may share a
  coordinate) and key-value store (through compaction and restart, for acceptable entries and at
  most 256 keys), no leak or double free in allocator and scheduler, turns and timing of the
  scheduler, and of the watchdog. For the substrate: exact catalog search, names and
  allocation, stable resolution, no guest cell on a protected register after any history, trits
  kept by the pulse, sound weaving, the stance and priority laws of the policy tick, stated
  apart from the code's own decisions, commits of the learning rule as sums of evidence, and the
  round trip of snapshots over a restart. Some properties
  exhibit faults of the code: an image that reads out of bounds, a double delete, a wedged
  runtime, an allocation outside the region, a lost wake-up, a refused name that later unmaps a
  pinned cell, a retained cell that resolves only at the second try, woven routes that never
  drive their sink, an inhibited output taken for a stuck one.

  \<^bold>\<open>Interfaces.\<close> Probing (\<open>Probe_Table\<close>), the allocator's client (\<open>allocator\<close> in Heap_Client,
  interpreted on kernel/reflex_heap.c), the flash medium (\<open>flash_medium\<close> in Kv_Log, interpreted on
  the flash driver and on the host suite's mock) and the store of the snapshots (\<open>blob_store\<close> in
  Snapshot_Props, interpreted on the raw flash over both media) are stated as contracts that
  clients use.

  \<^bold>\<open>Bounds and fuel.\<close> \<open>reflex_vm_run_bounded\<close> takes the code's step budget as its fuel. The scans of
  tables run over the table's length, the walks of a flash sector are measured by the bytes left in
  it (an entry spans at least four), the heap searches by the fuel of one step per block, shown
  enough for well-formed heaps. Checksums, packing and parsing recurse on their input.

  \<^bold>\<open>Not modelled.\<close> Printing, logging and the shell's command handlers; registers of timers, radio,
  console and the SPI controller (its transactions are a parameter of the flash driver); FreeRTOS
  and ESP-IDF adaptors; the rows of the generated register atlas, an argument of the lookup; the
  mesh radio (goose_atmosphere.c), whose checks rest on a cryptographic library; the vitals of
  goose_metabolic.c; of the substrate its telemetry, the statistics of the lock, the low-power
  core, the stored purpose, the exploration of registers and the pacing of the supervisor's
  passes; the stack switch of the scheduler, which is assembly.
\<close>

end
